(* ===== verification/S2_Prelude.thy ===== *)
theory S2_Prelude
  imports Main "HOL-Library.Word" "HOL-Library.Sublist"
begin

text \<open>
  Shared vocabulary of the development: names for the machine types of
  \<^verbatim>\<open>s2/base/integral_types.h\<close>, the collections of rewrite rules that the component
  proofs use, and the generic lemmas on words and lists that several components need.
  Machine integers whose wrap-around or bit pattern matters are words of their width;
  lengths, indices and subdivision levels that the code keeps non-negative are naturals.
\<close>

unbundle bit_operations_syntax

type_synonym uint8 = "8 word"
type_synonym uint16 = "16 word"
type_synonym uint32 = "32 word"
type_synonym uint64 = "64 word"
type_synonym int32 = "32 word"
type_synonym int64 = "64 word"
type_synonym byte = "8 word"

named_theorems cell_simps \<open>S2CellId operations evaluated on a cell given by level and index\<close>
named_theorems span_simps \<open>S2CellId predicates expressed by the leaf interval of a cell\<close>
named_theorems codec_simps \<open>decoding what the matching encoder wrote\<close>


section \<open>Words\<close>

lemma word_not_plus_1 [simp]: "NOT (x::'a::len word) + 1 = - x"
  by (simp add: not_eq_complement)

lemma push_bit_neg: "- push_bit k (y::'a::len word) = push_bit k (- y)"
  by (simp add: push_bit_eq_mult)

lemma word_and_neg_odd:
  fixes y :: "'a::len word"
  assumes "odd y"
  shows "y AND - y = 1"
proof -
  have "- y = NOT (y XOR 1)"
    using assms by (simp add: xor_one_eq not_eq_complement)
  moreover have "bit y 0" using assms by (simp add: bit_0)
  ultimately show ?thesis
    by (auto intro!: bit_word_eqI simp: bit_simps bit_1_iff simp del: bit_0)
qed

text \<open>The idiom \<open>x & (~x + 1)\<close> isolates the lowest bit that is set.\<close>

lemma word_and_neg:
  fixes x :: "'a::len word"
  assumes "unat x = (2 * m + 1) * 2 ^ k"
  shows "x AND - x = 2 ^ k"
proof -
  let ?y = "of_nat (2 * m + 1) :: 'a word"
  have "x = of_nat (unat x)" by simp
  also have "\<dots> = push_bit k ?y"
    unfolding assms by (simp add: push_bit_eq_mult algebra_simps)
  finally have x: "x = push_bit k ?y" .
  have o: "odd ?y" by simp
  have "x AND - x = push_bit k (?y AND - ?y)"
    unfolding x push_bit_and push_bit_neg ..
  then show ?thesis using word_and_neg_odd [OF o] by (simp add: push_bit_eq_mult)
qed

lemma word_bit_iff: "bit (x::'a::len word) i \<longleftrightarrow> odd (unat x div 2 ^ i)"
proof -
  have "bit (unat x) i = bit x i" by (auto simp: bit_simps dest: bit_imp_le_length)
  then show ?thesis by (simp add: bit_iff_odd)
qed

lemma push_plus_word:
  fixes x :: "'a::len word"
  assumes "unat y < 2 ^ k"
  shows "push_bit k x + y = push_bit k x OR y"
proof -
  have "\<not> bit y i" if "k \<le> i" for i
  proof -
    have "unat y div 2 ^ i = 0" using assms that by (metis div_less order.strict_trans2 one_le_numeral power_increasing)
    then show ?thesis by (simp add: word_bit_iff)
  qed
  then have "push_bit k x AND y = 0" by (intro bit_word_eqI) (auto simp: bit_simps not_less)
  then show ?thesis by (simp add: disjunctive_add_eq_or)
qed

lemma unat_push_drop:
  "unat (push_bit k (drop_bit k (x::'a::len word))) = unat x div 2 ^ k * 2 ^ k"
  by (metis (no_types, lifting) drop_bit_take_bit take_bit_push_bit
    unat_drop_bit_eq unsigned_drop_bit_eq unsigned_push_bit_eq drop_bit_eq_div push_bit_eq_mult)

text \<open>Masking with \<open>~new_lsb + 1\<close> clears the bits below \<open>new_lsb\<close>.\<close>

lemma and_neg_exp: "(x::'a::len word) AND - (2 ^ k) = push_bit k (drop_bit k x)"
  by (rule bit_word_eqI) (auto simp: minus_exp_eq_not_mask bit_simps)

lemma unat_exp [simp]: "k < LENGTH('a::len) \<Longrightarrow> unat (2 ^ k :: 'a word) = 2 ^ k"
proof -
  assume k: "k < LENGTH('a)"
  then have "(2::nat) ^ k < 2 ^ LENGTH('a)" by simp
  then have "unat (of_nat (2 ^ k) :: 'a word) = 2 ^ k" by (simp only: unat_of_nat mod_less)
  then show ?thesis by simp
qed

text \<open>Every non-zero number is an odd multiple of a power of two.\<close>

lemma odd_times_power:
  assumes "(n::nat) \<noteq> 0"
  obtains m k where "n = (2 * m + 1) * 2 ^ k"
proof -
  have "\<exists>m k. n = (2 * m + 1) * 2 ^ k"
    using assms
  proof (induction n rule: less_induct)
    case (less n)
    show ?case
    proof (cases "odd n")
      case True
      then obtain m where "n = 2 * m + 1" by (blast elim: oddE)
      then have "n = (2 * m + 1) * 2 ^ 0" by simp
      then show ?thesis by blast
    next
      case False
      then obtain h where h: "n = 2 * h" by blast
      with less obtain m k where "h = (2 * m + 1) * 2 ^ k" by (metis mult_0_right
        mult_2 nat_less_le not_add_less1 less_add_same_cancel1 neq0_conv)
      with h have "n = (2 * m + 1) * 2 ^ Suc k" by simp
      then show ?thesis by blast
    qed
  qed
  then show ?thesis using that by blast
qed

lemma nat_or_1: "n OR 1 = 2 * (n div 2) + (1::nat)"
proof (cases "even n")
  case True
  then show ?thesis using or_one_eq [of n] by simp
next
  case False
  then show ?thesis using or_one_eq [of n] by (simp add: odd_two_times_div_two_succ)
qed

lemma sint_of_int_small: "- (2 ^ 63) \<le> i \<Longrightarrow> i < 2 ^ 63 \<Longrightarrow> sint (of_int i :: int64) = i"
  by (simp add: sint_sbintrunc' signed_take_bit_int_eq_self)

lemma sorted_count_iff:
  fixes xs :: "'a::linorder list"
  assumes "sorted xs" "i < length xs"
  shows "xs ! i < t \<longleftrightarrow> i < length (takeWhile (\<lambda>x. x < t) xs)"
proof
  assume "xs ! i < t"
  then have "\<forall>j\<le>i. xs ! j < t" using assms by (meson le_less_trans le_trans less_imp_le sorted_nth_mono)
  then show "i < length (takeWhile (\<lambda>x. x < t) xs)"
    using length_takeWhile_less_P_nth [of "Suc i" "\<lambda>x. x < t" xs] assms(2) by auto
next
  assume "i < length (takeWhile (\<lambda>x. x < t) xs)"
  then show "xs ! i < t" by (metis nth_mem set_takeWhileD takeWhile_nth)
qed

end
