(* ===== verification/S2_Bits.thy ===== *)
theory S2_Bits
  imports S2_Prelude
begin

text \<open>
  The bit-counting functions of \<^verbatim>\<open>s2/util/bits/bits.h\<close>.  They forward to the C++20
  functions \<^verbatim>\<open>countr_zero\<close> and \<^verbatim>\<open>bit_width\<close>, which are modelled by their standard meaning:
  the number of consecutive zero bits from bit 0 upwards (the width for zero), and one plus
  the position of the highest bit that is set (zero for zero).
\<close>

definition countr_zero :: "'a::len word \<Rightarrow> nat" where
  "countr_zero n = length (takeWhile (\<lambda>i. \<not> bit n i) [0..<LENGTH('a)])"

definition bit_width :: "'a::len word \<Rightarrow> nat" where
  "bit_width n = LENGTH('a) - length (takeWhile (\<lambda>i. \<not> bit n i) (rev [0..<LENGTH('a)]))"

definition FindLSBSetNonZero :: "uint32 \<Rightarrow> nat" where
  "FindLSBSetNonZero n = countr_zero n"

definition FindLSBSetNonZero64 :: "uint64 \<Rightarrow> nat" where
  "FindLSBSetNonZero64 n = countr_zero n"

definition Log2FloorNonZero :: "uint32 \<Rightarrow> int" where
  "Log2FloorNonZero n = int (bit_width n) - 1"

definition Log2FloorNonZero64 :: "uint64 \<Rightarrow> int" where
  "Log2FloorNonZero64 n = int (bit_width n) - 1"

definition FindMSBSetNonZero :: "uint32 \<Rightarrow> int" where
  "FindMSBSetNonZero n = Log2FloorNonZero n"

definition FindMSBSetNonZero64 :: "uint64 \<Rightarrow> int" where
  "FindMSBSetNonZero64 n = Log2FloorNonZero64 n"

definition Log2Ceiling :: "uint32 \<Rightarrow> int" where
  "Log2Ceiling n =
     (let fl = int (bit_width n) - 1
      in if n AND (n - 1) = 0 then fl else fl + 1)"

lemma upt_split_at: "k < n \<Longrightarrow> [0..<n] = [0..<k] @ k # [Suc k..<n]"
  using upt_add_eq_append [of 0 k "n - k"] by (simp add: upt_conv_Cons)

lemma exp_le_unat_length: "2 ^ k \<le> unat (n::'a::len word) \<Longrightarrow> k < LENGTH('a)"
  by (meson linorder_not_less order.strict_trans1 one_le_numeral power_increasing unsigned_less
    order.trans)

lemma takeWhile_upt:
  assumes "k < n" and "\<not> P k" and "\<And>i. i < k \<Longrightarrow> P i"
  shows "takeWhile P [0..<n] = [0..<k]"
proof -
  have "[0..<n] = [0..<k] @ k # [Suc k..<n]"
    by (rule upt_split_at [OF assms(1)])
  then show ?thesis using assms(2,3) by (simp add: takeWhile_append)
qed

lemma takeWhile_rev_upt:
  assumes "k < n" and "\<not> P k" and "\<And>i. k < i \<Longrightarrow> i < n \<Longrightarrow> P i"
  shows "length (takeWhile P (rev [0..<n])) = n - Suc k"
proof -
  have "[0..<n] = [0..<k] @ k # [Suc k..<n]"
    by (rule upt_split_at [OF assms(1)])
  then have "rev [0..<n] = rev [Suc k..<n] @ k # rev [0..<k]" by simp
  moreover have "takeWhile P (rev [Suc k..<n] @ k # rev [0..<k]) = rev [Suc k..<n]"
    using assms(2,3) by (simp add: takeWhile_append)
  ultimately show ?thesis by simp
qed

lemma countr_zero_eq:
  fixes n :: "'a::len word"
  assumes "unat n = (2 * m + 1) * 2 ^ k"
  shows "countr_zero n = k"
proof -
  have "2 ^ k \<le> unat n" using assms by simp
  then have "k < LENGTH('a)"
    using exp_le_unat_length by blast
  moreover have "bit n k" using assms by (simp add: word_bit_iff)
  moreover have "\<not> bit n i" if "i < k" for i
  proof -
    have "(2::nat) ^ k = 2 ^ (k - i) * 2 ^ i"
      using that by (simp flip: power_add)
    with assms have "unat n = (2 * m + 1) * 2 ^ (k - i) * 2 ^ i"
      by (simp only: mult.assoc)
    with that show ?thesis by (simp add: word_bit_iff)
  qed
  ultimately show ?thesis
    unfolding countr_zero_def by (subst takeWhile_upt [of k]) auto
qed

lemma bit_width_eq:
  fixes n :: "'a::len word"
  assumes "2 ^ k \<le> unat n" and "unat n < 2 ^ Suc k"
  shows "bit_width n = Suc k"
proof -
  have k: "k < LENGTH('a)"
    using assms(1) exp_le_unat_length by blast
  have "unat n div 2 ^ k = 1" using assms by (simp add: div_nat_eqI)
  then have "bit n k" by (simp add: word_bit_iff)
  moreover have "\<not> bit n i" if "k < i" for i
  proof -
    have "unat n < 2 ^ i"
      using assms(2) that by (meson Suc_leI order.strict_trans2 one_le_numeral power_increasing)
    then show ?thesis by (simp add: word_bit_iff)
  qed
  ultimately show ?thesis
    using k unfolding bit_width_def by (subst takeWhile_rev_upt [of k]) auto
qed

text \<open>\<open>FindLSBSetNonZero64\<close> is the exponent of two in its argument.\<close>

lemma FindLSBSetNonZero64_eq:
  "unat n = (2 * m + 1) * 2 ^ k \<Longrightarrow> FindLSBSetNonZero64 n = k"
  by (simp add: FindLSBSetNonZero64_def countr_zero_eq)

lemma FindMSBSetNonZero64_eq:
  "2 ^ k \<le> unat n \<Longrightarrow> unat n < 2 ^ Suc k \<Longrightarrow> FindMSBSetNonZero64 n = int k"
  by (simp add: FindMSBSetNonZero64_def Log2FloorNonZero64_def bit_width_eq)

lemma FindLSBSetNonZero64_bit:
  assumes "n \<noteq> 0"
  shows "FindLSBSetNonZero64 n < 64" and "bit n (FindLSBSetNonZero64 n)"
    and "i < FindLSBSetNonZero64 n \<Longrightarrow> \<not> bit n i"
proof -
  have "unat n \<noteq> 0" using assms by (simp add: unat_eq_0)
  then obtain m k where mk: "unat n = (2 * m + 1) * 2 ^ k" by (rule odd_times_power)
  have k: "FindLSBSetNonZero64 n = k" using mk by (rule FindLSBSetNonZero64_eq)
  show "FindLSBSetNonZero64 n < 64"
    unfolding k using exp_le_unat_length [of k n] mk by simp
  show "bit n (FindLSBSetNonZero64 n)" unfolding k using mk by (simp add: word_bit_iff)
  show "\<not> bit n i" if "i < FindLSBSetNonZero64 n"
  proof -
    have "(2::nat) ^ k = 2 ^ (k - i) * 2 ^ i" using that k by (simp flip: power_add)
    then have "unat n div 2 ^ i = (2 * m + 1) * 2 ^ (k - i)" by (simp add: mk)
    moreover have "even ((2::nat) ^ (k - i))" using that k by simp
    ultimately show ?thesis by (simp add: word_bit_iff)
  qed
qed

end
