(* ===== verification/Cell_Id.thy ===== *)
theory Cell_Id
  imports S2_Bits "HOL-Library.Signed_Division"
begin

text \<open>
  The arithmetic of \<^verbatim>\<open>S2CellId\<close> (\<^verbatim>\<open>s2/s2cell_id.h\<close> and \<^verbatim>\<open>.cc\<close>): a cell id is the 64-bit
  word \<open>id_\<close>, and every operation below is the word expression of the source.  Arguments
  called \<open>level\<close> and \<open>face\<close> are naturals (the code requires \<open>0 \<le> level \<le> kMaxLevel\<close>);
  the value of \<open>level()\<close> is an integer, because the code's subtraction gives \<open>-1\<close> for some
  invalid ids.  Loops of the source that only end on valid inputs are partial functions whose
  value is \<open>None\<close> when the loop does not end.

  The theory \<open>Cell_Span\<close> gives the abstract description of the ids and evaluates every
  operation on it.
\<close>

type_synonym cellid = uint64

definition kFaceBits :: nat where [simp]: "kFaceBits = 3"
definition kNumFaces :: nat where [simp]: "kNumFaces = 6"
definition kMaxLevel :: nat where [simp]: "kMaxLevel = 30"
definition kPosBits :: nat where [simp]: "kPosBits = 2 * kMaxLevel + 1"
definition kMaxSize :: nat where [simp]: "kMaxSize = 2 ^ kMaxLevel"

definition cell_None :: cellid where "cell_None = 0"
definition cell_Sentinel :: cellid where "cell_Sentinel = NOT 0"

definition lsb :: "cellid \<Rightarrow> uint64" where
  "lsb x = x AND (NOT x + 1)"

definition lsb_for_level :: "nat \<Rightarrow> uint64" where
  "lsb_for_level lvl = push_bit (2 * (kMaxLevel - lvl)) 1"

definition kWrapOffset :: uint64 where
  "kWrapOffset = push_bit kPosBits (of_nat kNumFaces)"

definition cell_FromFace :: "nat \<Rightarrow> cellid" where
  "cell_FromFace fc = push_bit kPosBits (of_nat fc) + lsb_for_level 0"

definition face :: "cellid \<Rightarrow> nat" where
  "face x = unat (drop_bit kPosBits x)"

definition pos :: "cellid \<Rightarrow> uint64" where
  "pos x = x AND drop_bit kFaceBits (NOT 0)"

definition cell_level :: "cellid \<Rightarrow> int" where
  "cell_level x = int kMaxLevel - int (FindLSBSetNonZero64 x div 2)"

definition is_valid :: "cellid \<Rightarrow> bool" where
  "is_valid x \<longleftrightarrow> face x < kNumFaces \<and> lsb x AND 0x1555555555555555 \<noteq> 0"

definition GetSizeIJ_level :: "nat \<Rightarrow> nat" where
  "GetSizeIJ_level lvl = unat (push_bit (kMaxLevel - lvl) (1 :: uint64))"

definition GetSizeIJ :: "cellid \<Rightarrow> nat" where
  "GetSizeIJ x = GetSizeIJ_level (nat (cell_level x))"

definition is_leaf :: "cellid \<Rightarrow> bool" where
  "is_leaf x \<longleftrightarrow> x AND 1 \<noteq> 0"

definition is_face :: "cellid \<Rightarrow> bool" where
  "is_face x \<longleftrightarrow> x AND (lsb_for_level 0 - 1) = 0"

definition child_position_at :: "cellid \<Rightarrow> nat \<Rightarrow> nat" where
  "child_position_at x lvl = unat (drop_bit (2 * (kMaxLevel - lvl) + 1) x AND 3)"

definition child_position :: "cellid \<Rightarrow> nat" where
  "child_position x = child_position_at x (nat (cell_level x))"

definition range_min :: "cellid \<Rightarrow> cellid" where
  "range_min x = x - (lsb x - 1)"

definition range_max :: "cellid \<Rightarrow> cellid" where
  "range_max x = x + (lsb x - 1)"

definition cell_contains :: "cellid \<Rightarrow> cellid \<Rightarrow> bool" where
  "cell_contains x other \<longleftrightarrow> other \<ge> range_min x \<and> other \<le> range_max x"

definition cell_intersects :: "cellid \<Rightarrow> cellid \<Rightarrow> bool" where
  "cell_intersects x other \<longleftrightarrow> range_min other \<le> range_max x \<and> range_max other \<ge> range_min x"

definition parent_at :: "cellid \<Rightarrow> nat \<Rightarrow> cellid" where
  "parent_at x lvl =
     (let new_lsb = lsb_for_level lvl in (x AND (NOT new_lsb + 1)) OR new_lsb)"

definition parent :: "cellid \<Rightarrow> cellid" where
  "parent x = (let new_lsb = push_bit 2 (lsb x) in (x AND (NOT new_lsb + 1)) OR new_lsb)"

definition FromFacePosLevel :: "nat \<Rightarrow> uint64 \<Rightarrow> nat \<Rightarrow> cellid" where
  "FromFacePosLevel fc ps lvl =
     (let cell = push_bit kPosBits (of_nat fc) + (ps OR 1) in parent_at cell lvl)"

definition child :: "cellid \<Rightarrow> nat \<Rightarrow> cellid" where
  "child x position =
     (let new_lsb = drop_bit 2 (lsb x)
      in x + of_int (2 * int position + 1 - 4) * new_lsb)"

definition child_begin :: "cellid \<Rightarrow> cellid" where
  "child_begin x = (let old_lsb = lsb x in x - old_lsb + drop_bit 2 old_lsb)"

definition child_begin_at :: "cellid \<Rightarrow> nat \<Rightarrow> cellid" where
  "child_begin_at x lvl = x - lsb x + lsb_for_level lvl"

definition child_end :: "cellid \<Rightarrow> cellid" where
  "child_end x = (let old_lsb = lsb x in x + old_lsb + drop_bit 2 old_lsb)"

definition child_end_at :: "cellid \<Rightarrow> nat \<Rightarrow> cellid" where
  "child_end_at x lvl = x + lsb x + lsb_for_level lvl"

definition cell_next :: "cellid \<Rightarrow> cellid" where
  "cell_next x = x + push_bit 1 (lsb x)"

definition cell_prev :: "cellid \<Rightarrow> cellid" where
  "cell_prev x = x - push_bit 1 (lsb x)"

definition next_wrap :: "cellid \<Rightarrow> cellid" where
  "next_wrap x = (let n = cell_next x in if n < kWrapOffset then n else n - kWrapOffset)"

definition prev_wrap :: "cellid \<Rightarrow> cellid" where
  "prev_wrap x = (let p = cell_prev x in if p < kWrapOffset then p else p + kWrapOffset)"

definition cell_Begin :: "nat \<Rightarrow> cellid" where
  "cell_Begin lvl = child_begin_at (cell_FromFace 0) lvl"

definition cell_End :: "nat \<Rightarrow> cellid" where
  "cell_End lvl = child_end_at (cell_FromFace 5) lvl"

definition step_shift :: "cellid \<Rightarrow> nat" where
  "step_shift x = nat (2 * (int kMaxLevel - cell_level x) + 1)"

text \<open>
  \<open>advance\<close> and \<open>advance_wrap\<close> work on \<open>int64\<close> step counts: comparisons are signed, shifts
  of a word are logical, and \<open>%\<close> is the truncating remainder \<open>smod\<close> of the signed values.
\<close>

definition advance :: "cellid \<Rightarrow> int64 \<Rightarrow> cellid" where
  "advance x steps =
     (if steps = 0 then x
      else
        let shift = step_shift x;
            steps' =
              (if steps <s 0
               then let min_steps = - drop_bit shift x
                    in if steps <s min_steps then min_steps else steps
               else let max_steps = drop_bit shift (kWrapOffset + lsb x - x)
                    in if max_steps <s steps then max_steps else steps)
        in x + push_bit shift steps')"

definition distance_from_begin :: "cellid \<Rightarrow> int64" where
  "distance_from_begin x = drop_bit (step_shift x) x"

definition advance_wrap :: "cellid \<Rightarrow> int64 \<Rightarrow> cellid" where
  "advance_wrap x steps =
     (if steps = 0 then x
      else
        let shift = step_shift x;
            step_wrap = drop_bit shift kWrapOffset;
            steps' =
              (if steps <s 0
               then let min_steps = - drop_bit shift x
                    in if steps <s min_steps
                       then let r = of_int (sint steps smod sint step_wrap)
                            in if r <s min_steps then r + step_wrap else r
                       else steps
               else let max_steps = drop_bit shift (kWrapOffset - x)
                    in if max_steps <s steps
                       then let r = of_int (sint steps smod sint step_wrap)
                            in if max_steps <s r then r - step_wrap else r
                       else steps)
        in x + push_bit shift steps')"

text \<open>The two loops of \<open>maximum_tile\<close>: shrinking a cell that is too large, growing one that
  may be too small.\<close>

partial_function (option) tile_shrink :: "cellid \<Rightarrow> cellid \<Rightarrow> cellid option" where
  "tile_shrink limit x =
     (let x' = child x 0
      in if range_max x' \<ge> limit then tile_shrink limit x' else Some x')"

partial_function (option) tile_grow :: "cellid \<Rightarrow> cellid \<Rightarrow> cellid \<Rightarrow> cellid option" where
  "tile_grow limit start x =
     (if is_face x then Some x
      else let p = parent x
           in if range_min p \<noteq> start \<or> range_max p \<ge> limit then Some x
              else tile_grow limit start p)"

definition maximum_tile :: "cellid \<Rightarrow> cellid \<Rightarrow> cellid option" where
  "maximum_tile x limit =
     (let start = range_min x
      in if start \<ge> range_min limit then Some limit
         else if range_max x \<ge> limit then tile_shrink limit x
         else tile_grow limit start x)"

definition GetCommonAncestorLevel :: "cellid \<Rightarrow> cellid \<Rightarrow> int" where
  "GetCommonAncestorLevel x other =
     (let bits = max (x XOR other) (max (lsb x) (lsb other))
      in drop_bit 1 (max (60 - FindMSBSetNonZero64 bits) (-1)))"

text \<open>The identity used by hash containers and ordering by \<open>id()\<close> need no definition of
  their own: they are equality and \<open>\<le>\<close> of words.\<close>

end
