(* ===== verification/Span_Family.thy ===== *)
theory Span_Family
  imports S2_Prelude
begin

text \<open>
  The interface between the cell hierarchy and the containers built on it.  A cell has a
  half-open interval \<open>[lo, hi)\<close> of leaf positions; any two intervals are nested or disjoint,
  and the interval determines the cell.  The lemmas are about lists of cells that are sorted
  and pairwise disjoint, which is how cell unions and cell indexes store them, and about
  binary search in such lists.
\<close>

locale span_family =
  fixes valid :: "'a \<Rightarrow> bool" and lo hi :: "'a \<Rightarrow> nat"
  assumes span_nonempty: "valid x \<Longrightarrow> lo x < hi x"
    and span_nested: "valid x \<Longrightarrow> valid y \<Longrightarrow>
      hi x \<le> lo y \<or> hi y \<le> lo x \<or> lo x \<le> lo y \<and> hi y \<le> hi x \<or> lo y \<le> lo x \<and> hi x \<le> hi y"
    and span_determines: "valid x \<Longrightarrow> valid y \<Longrightarrow> lo x = lo y \<Longrightarrow> hi x = hi y \<Longrightarrow> x = y"
begin

lemma disjoint_Cons_iff:
  assumes "\<forall>x\<in>set (x # y # zs). valid x"
  shows "sorted_wrt (\<lambda>x y. hi x \<le> lo y) (x # y # zs) \<longleftrightarrow>
    hi x \<le> lo y \<and> sorted_wrt (\<lambda>x y. hi x \<le> lo y) (y # zs)"
  using assms span_nonempty by fastforce

lemma disjoint_distinct:
  "\<forall>x\<in>set xs. valid x \<Longrightarrow> sorted_wrt (\<lambda>x y. hi x \<le> lo y) xs \<Longrightarrow> distinct xs"
proof (induction xs)
  case (Cons x xs)
  have "x \<notin> set xs" using Cons.prems span_nonempty [of x] by fastforce
  with Cons show ?case by simp
qed simp

text \<open>Two members of a disjoint list that overlap are the same member.\<close>

lemma overlap_eq:
  assumes "\<forall>x\<in>set xs. valid x" and "sorted_wrt (\<lambda>x y. hi x \<le> lo y) xs"
    and "x \<in> set xs" and "y \<in> set xs" and "lo x < hi y" and "lo y < hi x"
  shows "x = y"
  using assms
proof (induction xs)
  case (Cons z zs)
  then show ?case by fastforce
qed simp

text \<open>Members whose intervals touch are neighbours in the list.\<close>

lemma touching_adjacent:
  assumes "\<forall>x\<in>set xs. valid x" and "sorted_wrt (\<lambda>x y. hi x \<le> lo y) xs"
    and "x \<in> set xs" and "y \<in> set xs" and "hi x = lo y"
  shows "\<exists>us vs. xs = us @ x # y # vs"
proof -
  obtain us ws where xs: "xs = us @ x # ws" using assms(3) by (meson split_list)
  have vx: "lo x < hi x" and vy: "lo y < hi y"
    using assms(1,3,4) span_nonempty by blast+
  have "y \<notin> set us" using assms(2,5) vx vy by (auto simp: xs sorted_wrt_append)
  moreover have "y \<noteq> x" using assms(5) vx by auto
  ultimately have "y \<in> set ws" using assms(4) by (simp add: xs)
  then obtain ps qs where ws: "ws = ps @ y # qs" by (meson split_list)
  have "ps = []"
  proof (cases ps)
    case (Cons p ps')
    then have "hi x \<le> lo p" "hi p \<le> lo y" using assms(2) by (auto simp: xs ws sorted_wrt_append)
    moreover have "lo p < hi p" using assms(1) span_nonempty by (simp add: xs ws Cons)
    ultimately show ?thesis using assms(5) by simp
  qed
  then show ?thesis using xs ws by auto
qed

text \<open>Binary search: of the members of a disjoint list, only the first that does not end before
  the target can contain it, and if any member overlaps the target then that one does.\<close>

lemma search_contains:
  assumes "\<forall>x\<in>set xs. valid x" and "sorted_wrt (\<lambda>x y. hi x \<le> lo y) xs" and "valid t"
  shows "(case dropWhile (\<lambda>c. hi c \<le> lo t) xs of [] \<Rightarrow> False | c # cs \<Rightarrow> lo c \<le> lo t \<and> hi t \<le> hi c)
    \<longleftrightarrow> (\<exists>c\<in>set xs. lo c \<le> lo t \<and> hi t \<le> hi c)"
  using assms(1,2)
proof (induction xs)
  case (Cons x xs)
  have t: "lo t < hi t" using assms(3) by (rule span_nonempty)
  show ?case
  proof (cases "hi x \<le> lo t")
    case True
    then show ?thesis using Cons t by auto
  next
    case False
    then have "\<not> (lo c \<le> lo t \<and> hi t \<le> hi c)" if "c \<in> set xs" for c
      using Cons.prems(2) that by fastforce
    then show ?thesis using False by auto
  qed
qed simp

lemma search_intersects:
  assumes "\<forall>x\<in>set xs. valid x" and "sorted_wrt (\<lambda>x y. hi x \<le> lo y) xs" and "valid t"
  shows "(case dropWhile (\<lambda>c. hi c \<le> lo t) xs of [] \<Rightarrow> False | c # cs \<Rightarrow> lo t < hi c \<and> lo c < hi t)
    \<longleftrightarrow> (\<exists>c\<in>set xs. lo t < hi c \<and> lo c < hi t)"
  using assms(1,2)
proof (induction xs)
  case (Cons x xs)
  show ?case
  proof (cases "hi x \<le> lo t")
    case True
    then show ?thesis using Cons by auto
  next
    case False
    have "lo x < hi x" using Cons.prems(1) span_nonempty by simp
    then have "lo x < hi t" if "c \<in> set xs" "lo c < hi t" for c
      using Cons.prems(2) that by fastforce
    then show ?thesis using False by auto
  qed
qed simp

end

end
