(* ===== verification/Cell_Span.thy ===== *)
theory Cell_Span
  imports Cell_Id Span_Family
begin

text \<open>
  What the 64-bit ids mean.  A valid id is \<open>cell_at l q\<close>: the \<open>q\<close>-th cell of level \<open>l\<close> along
  the Hilbert curve over all six faces.  It covers the leaf positions from \<open>cell_lo\<close> up to,
  but not including, \<open>cell_hi\<close>.  Each operation of \<open>Cell_Id\<close> is evaluated on this
  description (collection \<open>cell_simps\<close>) and each predicate is characterised by the leaf
  intervals (collection \<open>span_simps\<close>); the components built on cell ids use only these facts.
\<close>

definition cell_at :: "nat \<Rightarrow> nat \<Rightarrow> cellid" where
  "cell_at l q = of_nat ((2 * q + 1) * 4 ^ (30 - l))"

definition cell_lv :: "cellid \<Rightarrow> nat" where
  "cell_lv x = nat (cell_level x)"

definition cell_span :: "cellid \<Rightarrow> nat" where
  "cell_span x = 4 ^ (30 - cell_lv x)"

definition cell_index :: "cellid \<Rightarrow> nat" where
  "cell_index x = unat x div (2 * cell_span x)"

definition cell_lo :: "cellid \<Rightarrow> nat" where
  "cell_lo x = cell_index x * cell_span x"

definition cell_hi :: "cellid \<Rightarrow> nat" where
  "cell_hi x = (cell_index x + 1) * cell_span x"

definition leaves :: "cellid \<Rightarrow> nat set" where
  "leaves x = {cell_lo x..<cell_hi x}"

text \<open>
  Iterator ends such as \<open>End(level)\<close> lie on a face 6 that does not exist; \<open>is_cell\<close> is validity
  with that extra face allowed.
\<close>

definition is_cell :: "cellid \<Rightarrow> bool" where
  "is_cell x \<longleftrightarrow> face x < 7 \<and> lsb x AND 0x1555555555555555 \<noteq> 0"

definition num_leaves :: nat where
  "num_leaves = 6 * 4 ^ 30"


section \<open>Ids of a given level and index\<close>

lemma pow4: "(4::nat) ^ n = 2 ^ (2 * n)"
  by (simp add: power_mult)

lemma pow4_split: "l \<le> n \<Longrightarrow> (4::nat) ^ l * 4 ^ (n - l) = 4 ^ n"
  by (simp flip: power_add)

lemma unat_cell_at:
  assumes "l \<le> 30" and "q < 7 * 4 ^ l"
  shows "unat (cell_at l q) = (2 * q + 1) * 4 ^ (30 - l)"
proof -
  have "2 * q + 1 < 14 * 4 ^ l" using assms(2) by simp
  then have "(2 * q + 1) * 4 ^ (30 - l) < 14 * 4 ^ l * 4 ^ (30 - l)"
    by (simp only: mult_less_mono1 zero_less_power zero_less_numeral)
  also have "\<dots> = 14 * 4 ^ 30" using assms(1) pow4_split [of l 30] by (simp only: mult.assoc)
  also have "\<dots> < 2 ^ 64" by simp
  finally show ?thesis
    unfolding cell_at_def by (simp add: unat_of_nat del: of_nat_mult of_nat_add)
qed

lemma lsb_for_level_eq: "lsb_for_level l = 2 ^ (2 * (30 - l))"
  by (simp add: lsb_for_level_def push_bit_eq_mult)

lemma unat_lsb_for_level: "l \<le> 30 \<Longrightarrow> unat (lsb_for_level l) = 4 ^ (30 - l)"
  by (simp add: lsb_for_level_eq pow4)

lemma lsb_cell_at [cell_simps]:
  assumes "l \<le> 30" and "q < 7 * 4 ^ l"
  shows "lsb (cell_at l q) = lsb_for_level l"
  using word_and_neg [of "cell_at l q" q "2 * (30 - l)"] unat_cell_at [OF assms]
  by (simp add: lsb_def lsb_for_level_eq pow4)

lemma cell_level_at [cell_simps]:
  assumes "l \<le> 30" and "q < 7 * 4 ^ l"
  shows "cell_level (cell_at l q) = int l"
  using FindLSBSetNonZero64_eq [of "cell_at l q" q "2 * (30 - l)"] unat_cell_at [OF assms] assms(1)
  by (simp add: cell_level_def pow4)

lemma unat_face: "face x = unat x div 2 ^ 61"
  unfolding face_def unat_drop_bit_eq by (simp add: drop_bit_eq_div)

lemma face_at [cell_simps]:
  assumes "l \<le> 30" and "q < 7 * 4 ^ l"
  shows "face (cell_at l q) = q div 4 ^ l"
proof -
  have e: "(2::nat) ^ 61 = 4 ^ (30 - l) * (2 * 4 ^ l)"
    using pow4_split [of l 30] assms(1) by (simp add: mult.commute)
  have "face (cell_at l q) = (2 * q + 1) div (2 * 4 ^ l)"
    unfolding unat_face unat_cell_at [OF assms] e
    by (simp only: div_mult2_eq nonzero_mult_div_cancel_right power_not_zero zero_neq_numeral
        not_False_eq_True)
  also have "\<dots> = q div 4 ^ l"
    by (simp add: div_mult2_eq)
  finally show ?thesis .
qed


section \<open>Validity\<close>

text \<open>The mask of \<open>is_valid\<close> selects the even bit positions up to 60.\<close>

lemma valid_mask_bit: "k < 64 \<Longrightarrow> bit (0x1555555555555555 :: uint64) k \<longleftrightarrow> even k \<and> k \<le> 60"
proof -
  have "\<forall>k \<in> set [0..<64]. bit (0x1555555555555555 :: uint64) k \<longleftrightarrow> even k \<and> k \<le> 60"
    by code_simp
  then show "k < 64 \<Longrightarrow> ?thesis" by simp
qed

lemma exp_and_eq_0_iff: "k < LENGTH('a) \<Longrightarrow> 2 ^ k AND (c :: 'a::len word) = 0 \<longleftrightarrow> \<not> bit c k"
  using bit_eq_iff [of "2 ^ k AND c" 0] by (auto simp: bit_simps)

lemma is_cell_at:
  assumes "l \<le> 30" and "q < 7 * 4 ^ l"
  shows "is_cell (cell_at l q)"
proof -
  have "face (cell_at l q) < 7"
    using assms by (simp add: face_at less_mult_imp_div_less)
  moreover have "lsb (cell_at l q) AND 0x1555555555555555 \<noteq> 0"
    using valid_mask_bit [of "2 * (30 - l)"] exp_and_eq_0_iff [of "2 * (30 - l)", where 'a=64]
    by (simp add: lsb_cell_at assms lsb_for_level_eq)
  ultimately show ?thesis by (simp add: is_cell_def)
qed

lemma is_cell_cases:
  assumes "is_cell x"
  obtains l q where "l \<le> 30" and "q < 7 * 4 ^ l" and "x = cell_at l q"
proof -
  have "x \<noteq> 0" using assms by (auto simp: is_cell_def lsb_def)
  then have "unat x \<noteq> 0" by (simp only: unsigned_eq_0_iff not_False_eq_True)
  then obtain m k where mk: "unat x = (2 * m + 1) * 2 ^ k" by (rule odd_times_power)
  have "2 ^ k \<le> unat x" using mk by simp
  then have k64: "k < 64" using exp_le_unat_length [of k x] by simp
  have "lsb x = 2 ^ k" using word_and_neg [OF mk] by (simp add: lsb_def)
  then have "bit (0x1555555555555555 :: uint64) k"
    using assms exp_and_eq_0_iff [of k, where 'a=64] k64 by (simp add: is_cell_def)
  then have ek: "even k" and k60: "k \<le> 60" using valid_mask_bit [OF k64] by auto
  define l where "l = 30 - k div 2"
  have l: "l \<le> 30" and k: "k = 2 * (30 - l)" using ek k60 by (auto simp: l_def)
  have x: "unat x = (2 * m + 1) * 4 ^ (30 - l)" using mk k by (simp add: pow4)
  have "unat x < 7 * 2 ^ 61"
    using assms by (simp add: is_cell_def unat_face div_less_iff_less_mult)
  also have "(7::nat) * 2 ^ 61 = 14 * 4 ^ l * 4 ^ (30 - l)"
    using pow4_split [OF l] by (simp add: mult.assoc)
  finally have "2 * m + 1 < 14 * 4 ^ l" unfolding x mult_less_cancel2 by (rule conjunct2)
  then have m: "m < 7 * 4 ^ l" by linarith
  have "x = of_nat (unat x)" by simp
  then have "x = cell_at l m" unfolding x cell_at_def .
  with l m show ?thesis using that by blast
qed

lemma index_bound: "q < 6 * 4 ^ l \<Longrightarrow> q < 7 * (4::nat) ^ l"
  by linarith

lemma valid_is_cell [simp]: "is_valid x \<Longrightarrow> is_cell x"
  by (simp add: is_valid_def is_cell_def)

lemma is_valid_at:
  assumes "l \<le> 30" and "q < 6 * 4 ^ l"
  shows "is_valid (cell_at l q)"
  using is_cell_at [OF assms(1) index_bound [OF assms(2)]] assms
  by (simp add: is_valid_def is_cell_def face_at index_bound less_mult_imp_div_less)

lemma is_valid_cases:
  assumes "is_valid x"
  obtains l q where "l \<le> 30" and "q < 6 * 4 ^ l" and "x = cell_at l q"
proof -
  obtain l q where lq: "l \<le> 30" "q < 7 * 4 ^ l" "x = cell_at l q"
    using valid_is_cell [OF assms] by (rule is_cell_cases)
  then have "q div 4 ^ l < 6" using assms by (simp add: is_valid_def face_at)
  then have "q < 6 * 4 ^ l" by (simp add: div_less_iff_less_mult)
  with lq show ?thesis using that by blast
qed

lemma is_valid_iff: "is_valid x \<longleftrightarrow> (\<exists>l q. l \<le> 30 \<and> q < 6 * 4 ^ l \<and> x = cell_at l q)"
  by (metis is_valid_at is_valid_cases)


section \<open>Operations on a cell given by level and index\<close>

lemma lsb_for_level_of_nat: "lsb_for_level l = of_nat (4 ^ (30 - l))"
  by (simp add: lsb_for_level_eq power_mult)

lemma span_Suc: "l < 30 \<Longrightarrow> (4::'a::semiring_1) ^ (30 - l) = 4 * 4 ^ (30 - Suc l)"
  by (metis Suc_diff_Suc power_Suc)

lemma drop_bit_2_lsb_for_level: "l < 30 \<Longrightarrow> drop_bit 2 (lsb_for_level l) = lsb_for_level (Suc l)"
proof -
  assume l: "l < 30"
  then have "2 * (30 - l) = 2 + 2 * (30 - Suc l)" by simp
  then have "lsb_for_level l = push_bit 2 (lsb_for_level (Suc l))"
    unfolding lsb_for_level_eq by (simp only: push_bit_eq_mult power_add mult.commute)
  moreover have "2 * (30 - Suc l) + 2 < 64" using l by simp
  ultimately show ?thesis
    unfolding lsb_for_level_eq
    by (intro bit_word_eqI) (auto simp: bit_simps)
qed

lemma range_min_at [cell_simps]:
  assumes "l \<le> 30" and "q < 7 * 4 ^ l"
  shows "range_min (cell_at l q) = cell_at 30 (q * 4 ^ (30 - l))"
  unfolding range_min_def lsb_cell_at [OF assms] lsb_for_level_of_nat
  by (simp add: cell_at_def algebra_simps)

lemma range_max_at [cell_simps]:
  assumes "l \<le> 30" and "q < 7 * 4 ^ l"
  shows "range_max (cell_at l q) = cell_at 30 ((q + 1) * 4 ^ (30 - l) - 1)"
proof -
  obtain s where s: "(4::nat) ^ (30 - l) = Suc s" by (metis gr0_implies_Suc zero_less_numeral
    zero_less_power)
  then have "(4 :: uint64) ^ (30 - l) = of_nat (Suc s)" by (metis of_nat_numeral of_nat_power)
  with s show ?thesis
    unfolding range_max_def lsb_cell_at [OF assms] lsb_for_level_of_nat
    by (simp add: cell_at_def algebra_simps)
qed

lemma lsb_child:
  assumes "l < 30" and "q < 7 * 4 ^ l"
  shows "lsb (cell_at l q) = 4 * 4 ^ (30 - Suc l)"
    and "drop_bit 2 (4 * 4 ^ (30 - Suc l)) = (4 ^ (30 - Suc l) :: uint64)"
  using assms lsb_cell_at [of l q] drop_bit_2_lsb_for_level [of l]
  by (simp_all add: lsb_for_level_of_nat span_Suc)

lemma child_at [cell_simps]:
  assumes "l < 30" and "q < 7 * 4 ^ l"
  shows "child (cell_at l q) k = cell_at (Suc l) (4 * q + k)"
  unfolding child_def Let_def lsb_child [OF assms]
  by (simp add: cell_at_def span_Suc [OF assms(1)] algebra_simps)

lemma child_begin_at' [cell_simps]:
  assumes "l < 30" and "q < 7 * 4 ^ l"
  shows "child_begin (cell_at l q) = cell_at (Suc l) (4 * q)"
  unfolding child_begin_def Let_def lsb_child [OF assms]
  by (simp add: cell_at_def span_Suc [OF assms(1)] algebra_simps)

lemma child_end_at' [cell_simps]:
  assumes "l < 30" and "q < 7 * 4 ^ l"
  shows "child_end (cell_at l q) = cell_at (Suc l) (4 * (q + 1))"
  unfolding child_end_def Let_def lsb_child [OF assms]
  by (simp add: cell_at_def span_Suc [OF assms(1)] algebra_simps)

lemma span_split:
  "l \<le> m \<Longrightarrow> m \<le> 30 \<Longrightarrow> (4::'a::comm_semiring_1) ^ (30 - l) = 4 ^ (m - l) * 4 ^ (30 - m)"
  by (simp flip: power_add)

lemma lsb_descendant:
  assumes "l \<le> m" and "m \<le> 30" and "q < 7 * 4 ^ l"
  shows "lsb (cell_at l q) = 4 ^ (m - l) * 4 ^ (30 - m)"
  using assms lsb_cell_at [of l q]
  by (simp add: lsb_for_level_of_nat span_split [OF assms(1,2), symmetric])

lemma child_begin_at_at [cell_simps]:
  assumes "l \<le> m" and "m \<le> 30" and "q < 7 * 4 ^ l"
  shows "child_begin_at (cell_at l q) m = cell_at m (q * 4 ^ (m - l))"
  unfolding child_begin_at_def lsb_descendant [OF assms] lsb_for_level_of_nat
  unfolding cell_at_def span_split [OF assms(1,2)]
  by (simp add: algebra_simps)

lemma child_end_at_at [cell_simps]:
  assumes "l \<le> m" and "m \<le> 30" and "q < 7 * 4 ^ l"
  shows "child_end_at (cell_at l q) m = cell_at m ((q + 1) * 4 ^ (m - l))"
  unfolding child_end_at_def lsb_descendant [OF assms] lsb_for_level_of_nat
  unfolding cell_at_def span_split [OF assms(1,2)]
  by (simp add: algebra_simps)

lemma cell_next_at [cell_simps]:
  assumes "l \<le> 30" and "q < 7 * 4 ^ l"
  shows "cell_next (cell_at l q) = cell_at l (q + 1)"
  unfolding cell_next_def lsb_cell_at [OF assms] lsb_for_level_of_nat
  by (simp add: cell_at_def push_bit_eq_mult algebra_simps)

lemma cell_prev_at [cell_simps]:
  assumes "l \<le> 30" and "Suc q < 7 * 4 ^ l"
  shows "cell_prev (cell_at l (Suc q)) = cell_at l q"
  unfolding cell_prev_def lsb_cell_at [OF assms] lsb_for_level_of_nat
  by (simp add: cell_at_def push_bit_eq_mult algebra_simps)

lemma unat_set_level:
  fixes x :: "'a::len word"
  assumes "k < LENGTH('a)"
  shows "unat ((x AND - (2 ^ k)) OR 2 ^ k) = (2 * (unat x div 2 ^ Suc k) + 1) * 2 ^ k"
proof -
  have "(x AND - (2 ^ k)) OR 2 ^ k = push_bit k (drop_bit k (x OR 2 ^ k))"
    unfolding and_neg_exp using assms by (intro bit_word_eqI) (auto simp: bit_simps)
  also have "unat \<dots> = unat (x OR 2 ^ k) div 2 ^ k * 2 ^ k" by (rule unat_push_drop)
  also have "unat (x OR 2 ^ k) = unat x OR 2 ^ k"
    using assms by (simp add: unsigned_or_eq)
  also have "(unat x OR 2 ^ k) div 2 ^ k = drop_bit k (unat x) OR drop_bit k (2 ^ k)"
    by (simp only: drop_bit_eq_div [symmetric] drop_bit_or)
  also have "\<dots> = (unat x div 2 ^ k) OR 1" by (simp add: drop_bit_eq_div)
  also have "\<dots> = 2 * (unat x div 2 ^ k div 2) + 1" by (rule nat_or_1)
  also have "unat x div 2 ^ k div 2 = unat x div 2 ^ Suc k"
    by (simp only: power_Suc2 div_mult2_eq)
  finally show ?thesis .
qed

lemma parent_at_at [cell_simps]:
  assumes "m \<le> l" and "l \<le> 30" and "q < 7 * 4 ^ l"
  shows "parent_at (cell_at l q) m = cell_at m (q div 4 ^ (l - m))"
proof -
  have k: "2 * (30 - m) < 64" by simp
  have "parent_at (cell_at l q) m = of_nat (unat (parent_at (cell_at l q) m))" by simp
  also have "unat (parent_at (cell_at l q) m)
      = (2 * (unat (cell_at l q) div 2 ^ Suc (2 * (30 - m))) + 1) * 2 ^ (2 * (30 - m))"
    using unat_set_level [of "2 * (30 - m)" "cell_at l q"] k
    by (simp add: parent_at_def Let_def lsb_for_level_eq)
  also have "unat (cell_at l q) div 2 ^ Suc (2 * (30 - m))
      = (2 * q + 1) * 4 ^ (30 - l) div (4 ^ (30 - l) * (2 * 4 ^ (l - m)))"
    unfolding unat_cell_at [OF assms(2,3)] power_Suc pow4 [symmetric] span_split [OF assms(1,2)]
    by (simp only: ac_simps)
  also have "\<dots> = (2 * q + 1) div (2 * 4 ^ (l - m))"
    by (simp only: div_mult2_eq nonzero_mult_div_cancel_right power_not_zero zero_neq_numeral
        not_False_eq_True)
  also have "\<dots> = q div 4 ^ (l - m)" by (simp add: div_mult2_eq)
  finally show ?thesis by (simp only: cell_at_def pow4)
qed

lemma push_bit_2_lsb_for_level:
  "l < 30 \<Longrightarrow> push_bit 2 (lsb_for_level (Suc l)) = lsb_for_level l"
  by (simp add: lsb_for_level_of_nat push_bit_eq_mult span_Suc)

lemma parent_is_parent_at:
  assumes "l < 30" and "q < 7 * 4 ^ Suc l"
  shows "parent (cell_at (Suc l) q) = parent_at (cell_at (Suc l) q) l"
  using assms by (simp add: parent_def parent_at_def lsb_cell_at push_bit_2_lsb_for_level)

lemma parent_at' [cell_simps]:
  assumes "l < 30" and "q < 7 * 4 ^ Suc l"
  shows "parent (cell_at (Suc l) q) = cell_at l (q div 4)"
  using parent_is_parent_at [OF assms] parent_at_at [of l "Suc l" q] assms by simp

lemma is_leaf_at [cell_simps]:
  assumes "l \<le> 30" and "q < 7 * 4 ^ l"
  shows "is_leaf (cell_at l q) \<longleftrightarrow> l = 30"
proof -
  have "is_leaf (cell_at l q) \<longleftrightarrow> odd (unat (cell_at l q))"
    using exp_and_eq_0_iff [of 0 "cell_at l q"] word_bit_iff [of "cell_at l q" 0]
    by (simp add: is_leaf_def and.commute)
  then show ?thesis using assms by (simp add: unat_cell_at)
qed

lemma odd_times_pow4_dvd:
  "l \<le> 30 \<Longrightarrow> (4::nat) ^ 30 dvd (2 * q + 1) * 4 ^ (30 - l) \<longleftrightarrow> l = 0"
proof (cases "l = 0")
  case False
  assume "l \<le> 30"
  then have e: "(4::nat) ^ 30 = 4 ^ l * 4 ^ (30 - l)" by (simp only: pow4_split)
  have "even ((4::nat) ^ l)" using False by simp
  then have "\<not> 4 ^ l dvd 2 * q + 1" using dvd_trans [of 2 "4 ^ l" "2 * q + 1"] by fastforce
  moreover have "4 ^ l * 4 ^ (30 - l) dvd (2 * q + 1) * (4::nat) ^ (30 - l)
      \<longleftrightarrow> 4 ^ l dvd 2 * q + 1"
    by (rule dvd_times_right_cancel_iff) simp
  ultimately show ?thesis unfolding e using False by blast
qed simp

lemma is_face_at [cell_simps]:
  assumes "l \<le> 30" and "q < 7 * 4 ^ l"
  shows "is_face (cell_at l q) \<longleftrightarrow> l = 0"
proof -
  have "is_face (cell_at l q) \<longleftrightarrow> take_bit 60 (cell_at l q) = 0"
    by (simp add: is_face_def lsb_for_level_eq take_bit_eq_mask mask_eq_exp_minus_1)
  also have "\<dots> \<longleftrightarrow> unat (take_bit 60 (cell_at l q)) = 0"
    by (simp only: unsigned_eq_0_iff)
  also have "unat (take_bit 60 (cell_at l q)) = unat (cell_at l q) mod 4 ^ 30"
    unfolding unsigned_take_bit_eq by (simp add: take_bit_eq_mod)
  finally show ?thesis
    using assms odd_times_pow4_dvd [of l q] by (simp only: unat_cell_at dvd_eq_mod_eq_0)
qed

lemma unat_and_3: "unat (x AND 3) = unat (x :: uint64) mod 4"
proof -
  have "x AND 3 = take_bit 2 x" by (simp add: take_bit_eq_mask mask_eq_exp_minus_1)
  then show ?thesis by (simp only: unsigned_take_bit_eq) (simp add: take_bit_eq_mod)
qed

lemma child_position_at_at [cell_simps]:
  assumes "m \<le> l" and "l \<le> 30" and "q < 7 * 4 ^ l"
  shows "child_position_at (cell_at l q) m = q div 4 ^ (l - m) mod 4"
proof -
  have "child_position_at (cell_at l q) m
      = unat (cell_at l q) div 2 ^ (2 * (30 - m) + 1) mod 2 ^ 2"
    using unat_and_3 [of "drop_bit (2 * (30 - m) + 1) (cell_at l q)"]
    by (simp only: child_position_at_def kMaxLevel_def unat_drop_bit_eq) (simp add: drop_bit_eq_div)
  also have "unat (cell_at l q) div 2 ^ (2 * (30 - m) + 1)
      = (2 * q + 1) * 4 ^ (30 - l) div (4 ^ (30 - l) * (2 * 4 ^ (l - m)))"
    unfolding unat_cell_at [OF assms(2,3)] power_add pow4 [symmetric] span_split [OF assms(1,2)]
    by (simp only: ac_simps power_one_right)
  also have "\<dots> = (2 * q + 1) div (2 * 4 ^ (l - m))"
    by (simp only: div_mult2_eq nonzero_mult_div_cancel_right power_not_zero zero_neq_numeral
        not_False_eq_True)
  also have "\<dots> = q div 4 ^ (l - m)" by (simp add: div_mult2_eq)
  finally show ?thesis by simp
qed

lemma unat_kWrapOffset: "unat kWrapOffset = 12 * 4 ^ 30"
  by (simp add: kWrapOffset_def)

lemma FromFace_at [cell_simps]: "cell_FromFace f = cell_at 0 f"
  by (simp add: cell_FromFace_def cell_at_def lsb_for_level_eq push_bit_eq_mult algebra_simps)

lemma Begin_at [cell_simps]: "l \<le> 30 \<Longrightarrow> cell_Begin l = cell_at l 0"
  by (simp add: cell_Begin_def cell_simps)

lemma End_at [cell_simps]: "l \<le> 30 \<Longrightarrow> cell_End l = cell_at l (6 * 4 ^ l)"
  by (simp add: cell_End_def cell_simps)

lemma GetSizeIJ_level_eq: "l \<le> 30 \<Longrightarrow> GetSizeIJ_level l = 2 ^ (30 - l)"
  by (simp add: GetSizeIJ_level_def push_bit_eq_mult)


section \<open>The leaf interval of a cell\<close>

lemma span_at [cell_simps]:
  assumes "l \<le> 30" and "q < 7 * 4 ^ l"
  shows "cell_lv (cell_at l q) = l"
    and "cell_span (cell_at l q) = 4 ^ (30 - l)"
    and "cell_index (cell_at l q) = q"
    and "cell_lo (cell_at l q) = q * 4 ^ (30 - l)"
    and "cell_hi (cell_at l q) = (q + 1) * 4 ^ (30 - l)"
proof -
  show lv: "cell_lv (cell_at l q) = l" using assms by (simp add: cell_lv_def cell_level_at)
  then show sp: "cell_span (cell_at l q) = 4 ^ (30 - l)" by (simp add: cell_span_def)
  have "cell_index (cell_at l q) = (2 * q + 1) * 4 ^ (30 - l) div (4 ^ (30 - l) * 2)"
    unfolding cell_index_def sp unat_cell_at [OF assms] by (simp only: mult.commute)
  also have "\<dots> = (2 * q + 1) div 2"
    by (simp only: div_mult2_eq nonzero_mult_div_cancel_right power_not_zero zero_neq_numeral
        not_False_eq_True)
  finally show ix: "cell_index (cell_at l q) = q" by simp
  show "cell_lo (cell_at l q) = q * 4 ^ (30 - l)" by (simp add: cell_lo_def ix sp)
  show "cell_hi (cell_at l q) = (q + 1) * 4 ^ (30 - l)" by (simp add: cell_hi_def ix sp)
qed

lemma cell_at_eq:
  assumes "is_valid x"
  shows "x = cell_at (cell_lv x) (cell_index x)"
    and "cell_lv x \<le> 30" and "cell_index x < 6 * 4 ^ cell_lv x"
  using assms by (auto elim!: is_valid_cases simp: span_at index_bound)

lemma cell_lo_less_hi [simp]: "cell_lo x < cell_hi x"
  by (simp add: cell_lo_def cell_hi_def cell_span_def)

lemma cell_hi_not_le_lo [simp]: "\<not> cell_hi x \<le> cell_lo x"
  by (simp add: not_le)

lemma cell_hi_eq: "cell_hi x = cell_lo x + cell_span x"
  by (simp add: cell_lo_def cell_hi_def)

lemma cell_span_pos [simp]: "0 < cell_span x"
  by (simp add: cell_span_def)

lemma cell_hi_le: "is_valid x \<Longrightarrow> cell_hi x \<le> num_leaves"
proof (elim is_valid_cases)
  fix l q assume l: "l \<le> 30" and q: "q < 6 * 4 ^ l" and x: "x = cell_at l q"
  have "(q + 1) * 4 ^ (30 - l) \<le> 6 * 4 ^ l * 4 ^ (30 - l)"
    using q by (intro mult_le_mono1) simp
  also have "\<dots> = num_leaves"
    using l by (simp only: num_leaves_def mult.assoc pow4_split)
  finally show ?thesis using l q by (simp add: x span_at index_bound)
qed

lemma unat_cell: "is_cell x \<Longrightarrow> unat x = cell_lo x + cell_hi x"
  by (elim is_cell_cases) (simp add: span_at unat_cell_at algebra_simps)

lemma block_le:
  assumes "l \<le> 30" and "q \<le> 7 * 4 ^ l"
  shows "q * 4 ^ (30 - l) \<le> 7 * (4::nat) ^ 30"
proof -
  have "q * 4 ^ (30 - l) \<le> 7 * 4 ^ l * 4 ^ (30 - l)" using assms(2) by (rule mult_le_mono1)
  also have "\<dots> = 7 * 4 ^ 30" using assms(1) by (simp only: mult.assoc pow4_split)
  finally show ?thesis .
qed

lemma unat_range_min: "is_cell x \<Longrightarrow> unat (range_min x) = 2 * cell_lo x + 1"
proof (elim is_cell_cases)
  fix l q assume l: "l \<le> 30" and q: "q < 7 * 4 ^ l" and x: "x = cell_at l q"
  have "(q + 1) * 4 ^ (30 - l) \<le> 7 * (4::nat) ^ 30" using l q by (intro block_le) auto
  moreover have "q * 4 ^ (30 - l) < (q + 1) * 4 ^ (30 - l)" by simp
  ultimately have "q * 4 ^ (30 - l) < 7 * (4::nat) ^ 30" by (rule order.strict_trans2 [rotated])
  then show ?thesis
    using l q by (simp only: x range_min_at unat_cell_at span_at) simp
qed

lemma double_pred: "0 < n \<Longrightarrow> 2 * (n - 1) + 1 = 2 * n - (1::nat)"
  by simp

lemma unat_range_max: "is_cell x \<Longrightarrow> unat (range_max x) = 2 * cell_hi x - 1"
proof -
  assume v: "is_cell x"
  then obtain l q where l: "l \<le> 30" and q: "q < 7 * 4 ^ l" and x: "x = cell_at l q"
    by (rule is_cell_cases)
  have "(q + 1) * 4 ^ (30 - l) \<le> 7 * (4::nat) ^ 30" using l q by (intro block_le) auto
  then have "(q + 1) * 4 ^ (30 - l) - 1 < 7 * 4 ^ 30" by simp
  then have "unat (range_max x) = (2 * ((q + 1) * 4 ^ (30 - l) - 1) + 1) * 4 ^ (30 - 30)"
    using l q by (simp only: x range_max_at unat_cell_at)
  also have "\<dots> = 2 * ((q + 1) * 4 ^ (30 - l)) - 1"
    using double_pred [of "(q + 1) * 4 ^ (30 - l)"] by simp
  finally show ?thesis using l q by (simp only: x span_at)
qed

lemma cell_eqI:
  "is_cell x \<Longrightarrow> is_cell y \<Longrightarrow> cell_lo x = cell_lo y \<Longrightarrow> cell_hi x = cell_hi y \<Longrightarrow> x = y"
  by (metis unat_cell word_unat_eq_iff)

text \<open>Alignment: the cell of a finer level lies inside exactly one cell of a coarser level.\<close>

lemma aligned_block:
  fixes q r s k :: nat
  assumes "0 < s"
  shows "r div k = q \<Longrightarrow> 0 < k \<Longrightarrow> q * (k * s) \<le> r * s \<and> (r + 1) * s \<le> (q + 1) * (k * s)"
    and "r div k < q \<Longrightarrow> 0 < k \<Longrightarrow> (r + 1) * s \<le> q * (k * s)"
    and "q < r div k \<Longrightarrow> 0 < k \<Longrightarrow> (q + 1) * (k * s) \<le> r * s"
proof -
  { assume e: "r div k = q" and k: "0 < k"
    have "q * k \<le> r" using e by (metis div_times_less_eq_dividend)
    moreover have "r + 1 \<le> (q + 1) * k" using e k dividend_less_div_times [of k r] by simp
    ultimately show "q * (k * s) \<le> r * s \<and> (r + 1) * s \<le> (q + 1) * (k * s)"
      unfolding mult.assoc [symmetric] by (intro conjI mult_le_mono1) }
  { assume "r div k < q" and "0 < k"
    then have "r + 1 \<le> q * k" by (simp add: div_less_iff_less_mult Suc_le_eq)
    then show "(r + 1) * s \<le> q * (k * s)" unfolding mult.assoc [symmetric] by (rule mult_le_mono1) }
  { assume "q < r div k" and k: "0 < k"
    then have "(q + 1) * k \<le> r div k * k" by (intro mult_le_mono1) simp
    also have "\<dots> \<le> r" by (rule div_times_less_eq_dividend)
    finally show "(q + 1) * (k * s) \<le> r * s" unfolding mult.assoc [symmetric] by (rule mult_le_mono1) }
qed

lemma contains_at_iff:
  assumes "l \<le> 30" "q < 7 * 4 ^ l" "m \<le> 30" "r < 7 * 4 ^ m"
  shows "cell_contains (cell_at l q) (cell_at m r) \<longleftrightarrow> l \<le> m \<and> r div 4 ^ (m - l) = q"
proof -
  let ?s = "(4::nat) ^ (30 - l)" and ?t = "(4::nat) ^ (30 - m)"
  let ?x = "cell_at l q" and ?y = "cell_at m r"
  have v: "is_cell ?x" "is_cell ?y" using assms by (auto intro: is_cell_at)
  have c: "cell_contains ?x ?y \<longleftrightarrow>
      2 * cell_lo ?x + 1 \<le> cell_lo ?y + cell_hi ?y \<and> cell_lo ?y + cell_hi ?y \<le> 2 * cell_hi ?x - 1"
    by (simp add: cell_contains_def word_le_nat_alt unat_cell unat_range_min unat_range_max v)
  have x: "cell_lo ?x = q * ?s" "cell_hi ?x = (q + 1) * ?s"
    and y: "cell_lo ?y = r * ?t" "cell_hi ?y = (r + 1) * ?t"
    using assms by (simp_all add: span_at)
  show ?thesis
  proof (cases "l \<le> m")
    case True
    let ?k = "(4::nat) ^ (m - l)"
    have s: "?s = ?k * ?t" using True assms(3) by (rule span_split)
    consider "r div ?k = q" | "r div ?k < q" | "q < r div ?k" by linarith
    then show ?thesis
    proof cases
      case 1
      then have "cell_lo ?x \<le> cell_lo ?y \<and> cell_hi ?y \<le> cell_hi ?x"
        unfolding x y s using aligned_block(1) [of ?t r ?k q] by simp
      then have "2 * cell_lo ?x + 1 \<le> cell_lo ?y + cell_hi ?y \<and>
          cell_lo ?y + cell_hi ?y \<le> 2 * cell_hi ?x - 1"
        using cell_lo_less_hi [of ?y] by linarith
      then show ?thesis using 1 True c by blast
    next
      case 2
      then have "cell_hi ?y \<le> cell_lo ?x"
        unfolding x y s using aligned_block(2) [of ?t r ?k q] by simp
      then show ?thesis using 2 c cell_lo_less_hi [of ?y] by simp
    next
      case 3
      then have "cell_hi ?x \<le> cell_lo ?y"
        unfolding x y s using aligned_block(3) [of ?t q r ?k] by simp
      then have "\<not> cell_lo ?y + cell_hi ?y \<le> 2 * cell_hi ?x - 1"
        using cell_lo_less_hi [of ?x] cell_lo_less_hi [of ?y] by linarith
      then show ?thesis using 3 c by auto
    qed
  next
    case False
    then have "m < l" by simp
    then have "?t = 4 ^ Suc (l - Suc m) * ?s"
      using span_split [of m l] assms(1) by (metis Suc_diff_Suc less_imp_le)
    then have t: "?t = 2 * (2 * 4 ^ (l - Suc m) * ?s)" by simp
    have "cell_lo ?y + cell_hi ?y = (2 * r + 1) * ?t" unfolding y by (simp add: algebra_simps)
    also have "\<dots> = 2 * ((2 * r + 1) * (2 * 4 ^ (l - Suc m)) * ?s)" unfolding t by (simp only: ac_simps)
    finally obtain e where e: "cell_lo ?y + cell_hi ?y = 2 * (e * ?s)" by blast
    have "\<not> (q * ?s < e * ?s \<and> e * ?s < (q + 1) * ?s)"
      unfolding mult_less_cancel2 by auto
    then have "\<not> (2 * (q * ?s) + 1 \<le> 2 * (e * ?s) \<and> 2 * (e * ?s) \<le> 2 * ((q + 1) * ?s) - 1)"
      by linarith
    then show ?thesis using False c unfolding e x by blast
  qed
qed

lemma laminar_at:
  assumes "l \<le> m" "m \<le> 30" "q < 7 * 4 ^ l" "r < 7 * 4 ^ m"
  shows "(if r div 4 ^ (m - l) = q
          then cell_lo (cell_at l q) \<le> cell_lo (cell_at m r) \<and>
               cell_hi (cell_at m r) \<le> cell_hi (cell_at l q)
          else cell_hi (cell_at m r) \<le> cell_lo (cell_at l q) \<or>
               cell_hi (cell_at l q) \<le> cell_lo (cell_at m r))"
proof -
  let ?t = "(4::nat) ^ (30 - m)"
  have s: "(4::nat) ^ (30 - l) = 4 ^ (m - l) * ?t" using assms(1,2) by (rule span_split)
  have x: "cell_lo (cell_at l q) = q * 4 ^ (30 - l)" "cell_hi (cell_at l q) = (q + 1) * 4 ^ (30 - l)"
    and y: "cell_lo (cell_at m r) = r * ?t" "cell_hi (cell_at m r) = (r + 1) * ?t"
    using assms by (simp_all add: span_at)
  consider "r div 4 ^ (m - l) = q" | "r div 4 ^ (m - l) < q" | "q < r div 4 ^ (m - l)" by linarith
  then show ?thesis
    unfolding x y s using aligned_block(1) [of ?t r "4 ^ (m - l)" q] aligned_block(2) [of ?t r "4 ^ (m - l)" q]
      aligned_block(3) [of ?t q r "4 ^ (m - l)"]
    by cases simp_all
qed

lemma laminar:
  assumes "is_cell x" and "is_cell y"
  shows "cell_hi x \<le> cell_lo y \<or> cell_hi y \<le> cell_lo x \<or>
    cell_lo x \<le> cell_lo y \<and> cell_hi y \<le> cell_hi x \<or>
    cell_lo y \<le> cell_lo x \<and> cell_hi x \<le> cell_hi y"
proof -
  obtain l q where x: "x = cell_at l q" "l \<le> 30" "q < 7 * 4 ^ l" using assms(1) by (rule is_cell_cases)
  obtain m r where y: "y = cell_at m r" "m \<le> 30" "r < 7 * 4 ^ m" using assms(2) by (rule is_cell_cases)
  show ?thesis
    unfolding x(1) y(1)
    using laminar_at [of l m q r] laminar_at [of m l r q] x y by (cases "l \<le> m") (auto split: if_splits)
qed


section \<open>Predicates and navigation in terms of leaf intervals\<close>

lemma cell_span_at_cases:
  assumes "is_valid x"
  obtains l q where "l \<le> 30" and "q < 6 * 4 ^ l" and "q < 7 * 4 ^ l" and "x = cell_at l q"
  using assms index_bound by (blast elim: is_valid_cases)

lemma contains_iff [span_simps]:
  assumes "is_cell x" and "is_cell y"
  shows "cell_contains x y \<longleftrightarrow> cell_lo x \<le> cell_lo y \<and> cell_hi y \<le> cell_hi x"
proof -
  obtain l q where x: "x = cell_at l q" "l \<le> 30" "q < 7 * 4 ^ l" using assms(1) by (rule is_cell_cases)
  obtain m r where y: "y = cell_at m r" "m \<le> 30" "r < 7 * 4 ^ m" using assms(2) by (rule is_cell_cases)
  note c = contains_at_iff [OF x(2,3) y(2,3)]
  show ?thesis
  proof (cases "l \<le> m")
    case True
    then show ?thesis
      using c laminar_at [OF True y(2) x(3) y(3)] cell_lo_less_hi [of x] cell_lo_less_hi [of y]
      unfolding x(1) y(1) by (cases "r div 4 ^ (m - l) = q") (auto simp del: cell_lo_less_hi)
  next
    case False
    then have "(4::nat) ^ (30 - l) < 4 ^ (30 - m)" using x(2) by (intro power_strict_increasing) auto
    then have "cell_span x < cell_span y" using x y by (simp add: span_at)
    then show ?thesis using c False by (auto simp: x(1) y(1) cell_hi_eq)
  qed
qed

lemma intersects_iff [span_simps]:
  assumes "is_cell x" and "is_cell y"
  shows "cell_intersects x y \<longleftrightarrow> cell_lo y < cell_hi x \<and> cell_lo x < cell_hi y"
proof -
  have "cell_intersects x y \<longleftrightarrow>
      2 * cell_lo y + 1 \<le> 2 * cell_hi x - 1 \<and> 2 * cell_lo x + 1 \<le> 2 * cell_hi y - 1"
    by (simp add: cell_intersects_def word_le_nat_alt unat_range_min unat_range_max assms)
  then show ?thesis by linarith
qed

lemma less_iff [span_simps]:
  "is_cell x \<Longrightarrow> is_cell y \<Longrightarrow> x < y \<longleftrightarrow> cell_lo x + cell_hi x < cell_lo y + cell_hi y"
  by (simp add: word_less_nat_alt unat_cell)

lemma range_max_less_iff [span_simps]:
  assumes "is_cell x" and "is_cell y"
  shows "range_max x < range_min y \<longleftrightarrow> cell_hi x \<le> cell_lo y"
proof -
  have "range_max x < range_min y \<longleftrightarrow> 2 * cell_hi x - 1 < 2 * cell_lo y + 1"
    by (simp add: word_less_nat_alt unat_range_min unat_range_max assms)
  then show ?thesis using cell_lo_less_hi [of x] by linarith
qed

lemma contains_leaves:
  "is_cell x \<Longrightarrow> is_cell y \<Longrightarrow> cell_contains x y \<longleftrightarrow> leaves y \<subseteq> leaves x"
  by (simp add: leaves_def contains_iff)

lemma intersects_leaves:
  assumes "is_cell x" and "is_cell y"
  shows "cell_intersects x y \<longleftrightarrow> leaves x \<inter> leaves y \<noteq> {}"
proof -
  have "leaves x \<inter> leaves y = {max (cell_lo x) (cell_lo y)..<min (cell_hi x) (cell_hi y)}"
    by (simp add: leaves_def)
  then show ?thesis
    using assms cell_lo_less_hi [of x] cell_lo_less_hi [of y] by (simp add: span_simps)
qed

lemma card_leaves: "card (leaves x) = cell_span x"
  by (simp add: leaves_def cell_hi_eq)

lemma finite_leaves [simp]: "finite (leaves x)"
  by (simp add: leaves_def)

lemma leaves_nonempty [simp]: "leaves x \<noteq> {}"
  by (simp add: leaves_def)

lemma leaves_inj: "is_cell x \<Longrightarrow> is_cell y \<Longrightarrow> leaves x = leaves y \<Longrightarrow> x = y"
  using cell_lo_less_hi [of x] cell_lo_less_hi [of y]
  by (intro cell_eqI) (auto simp: leaves_def atLeastLessThan_eq_iff)

lemma child_valid:
  assumes "is_valid x" and "cell_lv x < 30" and "k < 4"
  shows "is_valid (child x k)"
    and "cell_lv (child x k) = Suc (cell_lv x)"
    and "cell_index (child x k) = 4 * cell_index x + k"
    and "4 * cell_span (child x k) = cell_span x"
    and "cell_lo (child x k) = cell_lo x + k * cell_span (child x k)"
    and "cell_hi (child x k) = cell_lo x + (k + 1) * cell_span (child x k)"
proof -
  obtain l q where x: "x = cell_at l q" and l: "l \<le> 30" and q: "q < 6 * 4 ^ l" "q < 7 * 4 ^ l"
    using assms(1) by (rule cell_span_at_cases)
  have l30: "l < 30" using assms(2) l q by (simp add: x span_at)
  have c: "child x k = cell_at (Suc l) (4 * q + k)" using l30 q by (simp add: x child_at)
  have b: "4 * q + k < 6 * 4 ^ Suc l" using q assms(3) by simp
  have b': "4 * q + k < 7 * 4 ^ Suc l" using index_bound [OF b] .
  show "is_valid (child x k)" using l30 b by (simp add: c is_valid_at)
  show "cell_lv (child x k) = Suc (cell_lv x)" "cell_index (child x k) = 4 * cell_index x + k"
    unfolding c unfolding x using l30 b' l q by (simp_all only: span_at Suc_leI)
  show s: "4 * cell_span (child x k) = cell_span x"
    unfolding c unfolding x using l30 b' l q by (simp only: span_at Suc_leI span_Suc)
  show "cell_lo (child x k) = cell_lo x + k * cell_span (child x k)"
    "cell_hi (child x k) = cell_lo x + (k + 1) * cell_span (child x k)"
    unfolding c unfolding x using l30 b' l q
    by (simp_all only: span_at Suc_leI span_Suc) (simp_all add: algebra_simps)
qed

lemma parent_valid:
  assumes "is_valid x" and "0 < cell_lv x"
  shows "is_valid (parent x)" and "Suc (cell_lv (parent x)) = cell_lv x"
    and "cell_index (parent x) = cell_index x div 4"
    and "child (parent x) (cell_index x mod 4) = x"
proof -
  obtain l q where x: "x = cell_at l q" and l: "l \<le> 30" and q: "q < 6 * 4 ^ l" "q < 7 * 4 ^ l"
    using assms(1) by (rule cell_span_at_cases)
  obtain m where m: "l = Suc m" using assms(2) l q by (cases l) (auto simp: x span_at)
  have p: "parent x = cell_at m (q div 4)" using l q by (simp add: x m parent_at')
  have b: "q div 4 < 6 * 4 ^ m" using q by (simp add: m)
  show "is_valid (parent x)" using l b by (simp add: p m is_valid_at)
  show "Suc (cell_lv (parent x)) = cell_lv x" "cell_index (parent x) = cell_index x div 4"
    unfolding p unfolding x m using l b q by (simp_all add: m span_at index_bound)
  show "child (parent x) (cell_index x mod 4) = x"
    unfolding p unfolding x m using l b q by (simp add: m span_at index_bound child_at)
qed

text \<open>Cell ids provide the interface that cell unions and cell indexes are built on.\<close>

interpretation cells: span_family is_valid cell_lo cell_hi
  using laminar by unfold_locales (simp_all add: cell_eqI)

end
