(* ===== verification/Cell_Navigation.thy ===== *)
theory Cell_Navigation
  imports Cell_Span
begin

text \<open>
  Moving along the Hilbert curve: \<open>next\<close>, \<open>prev\<close>, \<open>advance\<close> and their wrapping variants act on
  the index of a cell; \<open>parent\<close>, \<open>child\<close> and \<open>contains\<close> form a tree; \<open>maximum_tile\<close> ends on valid
  inputs and finds the largest aligned cell; \<open>GetCommonAncestorLevel\<close> finds the deepest common
  ancestor.
\<close>


section \<open>Steps along the curve\<close>

lemma step_shift_at: "l \<le> 30 \<Longrightarrow> q < 7 * 4 ^ l \<Longrightarrow> step_shift (cell_at l q) = 2 * (30 - l) + 1"
  by (simp add: step_shift_def cell_level_at nat_add_distrib nat_mult_distrib nat_diff_distrib)

lemma drop_step_shift:
  assumes "l \<le> 30" and "unat (w :: uint64) = (2 * q + c) * 4 ^ (30 - l)" and "c < 2"
  shows "drop_bit (2 * (30 - l) + 1) w = of_int (int q)"
proof -
  have "unat (drop_bit (2 * (30 - l) + 1) w) = unat w div 2 ^ (2 * (30 - l) + 1)"
    unfolding unat_drop_bit_eq by (simp only: drop_bit_eq_div)
  also have "\<dots> = (2 * q + c) * 4 ^ (30 - l) div (4 ^ (30 - l) * 2)"
    unfolding assms(2) by (simp only: pow4 power_add power_one_right)
  also have "\<dots> = (2 * q + c) div 2"
    by (simp only: div_mult2_eq nonzero_mult_div_cancel_right power_not_zero zero_neq_numeral
        not_False_eq_True)
  also have "\<dots> = q" using assms(3) by simp
  finally show ?thesis by (metis of_int_of_nat_eq of_nat_unat ucast_id)
qed

lemma add_steps:
  assumes "l \<le> 30" and "0 \<le> int q + n"
  shows "cell_at l q + push_bit (2 * (30 - l) + 1) (of_int n) = cell_at l (nat (int q + n))"
proof -
  have "of_nat (nat (int q + n)) = (of_int (int q + n) :: uint64)" using assms(2) by simp
  moreover have "(2 :: uint64) ^ (2 * (30 - l) + 1) = 2 * 4 ^ (30 - l)" by (simp add: power_mult)
  ultimately show ?thesis
    unfolding cell_at_def of_nat_mult of_nat_add push_bit_eq_mult by (simp add: algebra_simps)
qed

lemma index_small: "l \<le> 30 \<Longrightarrow> q \<le> 6 * 4 ^ l \<Longrightarrow> int q < 2 ^ 63"
proof -
  assume l: "l \<le> 30" and q: "q \<le> 6 * 4 ^ l"
  note q
  also have "6 * (4::nat) ^ l \<le> 6 * 4 ^ 30" using l by (intro mult_le_mono2 power_increasing) auto
  finally have "q \<le> 6 * 4 ^ 30" .
  then show ?thesis by simp
qed

lemma unat_diff_word: "y \<le> x \<Longrightarrow> unat (x - y) = unat x - unat (y :: uint64)"
  by (simp add: unat_sub)

lemma to_wrap_end:
  assumes "l \<le> 30" and "q < 6 * 4 ^ l"
  shows "unat (kWrapOffset - cell_at l q) = (2 * (6 * 4 ^ l - q - 1) + 1) * 4 ^ (30 - l)"
    and "unat (kWrapOffset + lsb (cell_at l q) - cell_at l q) = (2 * (6 * 4 ^ l - q)) * 4 ^ (30 - l)"
proof -
  let ?s = "(4::nat) ^ (30 - l)"
  have w: "unat kWrapOffset = 2 * (6 * 4 ^ l) * ?s"
    using pow4_split [OF assms(1)] by (simp only: unat_kWrapOffset mult.assoc)
  have x: "unat (cell_at l q) = (2 * q + 1) * ?s" using assms by (simp add: unat_cell_at index_bound)
  obtain d where d: "6 * 4 ^ l = q + 1 + d"
    using assms(2) by (metis Suc_eq_plus1 add.assoc add.commute less_imp_Suc_add)
  have xw: "unat (cell_at l q) \<le> unat kWrapOffset" unfolding w x d by (simp add: algebra_simps)
  have "unat (kWrapOffset - cell_at l q) = 2 * (q + 1 + d) * ?s - (2 * q + 1) * ?s"
    using unat_diff_word [of "cell_at l q" kWrapOffset] xw by (simp only: word_le_nat_alt w x d)
  also have "\<dots> = (2 * d + 1) * ?s" by (simp add: algebra_simps)
  finally show "unat (kWrapOffset - cell_at l q) = (2 * (6 * 4 ^ l - q - 1) + 1) * ?s"
    unfolding d by simp
  have s: "lsb (cell_at l q) = of_nat ?s"
    using assms by (simp add: lsb_cell_at index_bound lsb_for_level_of_nat)
  have k: "kWrapOffset = of_nat (2 * (q + 1 + d) * ?s)" using w unfolding d by (metis of_nat_unat ucast_id)
  have "kWrapOffset + lsb (cell_at l q) - cell_at l q = of_nat (2 * (d + 1) * ?s)"
    unfolding s k unfolding cell_at_def by (simp add: algebra_simps)
  moreover have "2 * (d + 1) * ?s \<le> unat kWrapOffset" unfolding w d by simp
  then have "2 * (d + 1) * ?s < 2 ^ LENGTH(64)" by (simp add: unat_kWrapOffset)
  ultimately show "unat (kWrapOffset + lsb (cell_at l q) - cell_at l q) = (2 * (6 * 4 ^ l - q)) * ?s"
    unfolding d by (simp only: unat_of_nat mod_less) simp
qed


lemma advance_at:
  assumes "l \<le> 30" and "q < 6 * 4 ^ l"
  shows "advance (cell_at l q) steps =
    cell_at l (nat (max 0 (min (6 * 4 ^ l) (int q + sint steps))))"
proof -
  define W where "W = 6 * (4::nat) ^ l"
  have qW: "q < W" and iW: "6 * 4 ^ l = int W" using assms(2) by (simp_all add: W_def)
  let ?x = "cell_at l q" and ?n = "sint steps"
  have q7: "q < 7 * 4 ^ l" using assms(2) by (rule index_bound)
  have steps: "steps = of_int ?n" by simp
  have W: "int W < 2 ^ 63" using index_small [OF assms(1) order_refl] by (simp only: W_def)
  have sh: "step_shift ?x = 2 * (30 - l) + 1" using assms(1) q7 by (rule step_shift_at)
  have mn: "drop_bit (2 * (30 - l) + 1) ?x = of_int (int q)"
    by (rule drop_step_shift [where c = 1]) (simp_all add: assms(1) unat_cell_at q7)
  have mx: "drop_bit (2 * (30 - l) + 1) (kWrapOffset + lsb ?x - ?x) = of_int (int (W - q))"
    by (rule drop_step_shift [where c = 0]) (simp_all only: assms to_wrap_end W_def add_0_right)
  have s1: "sint (- of_int (int q) :: int64) = - int q"
    using sint_of_int_small [of "- int q"] index_small [OF assms(1) less_imp_le [OF assms(2)]]
    by simp
  have s2: "sint (of_int (int (W - q)) :: int64) = int (W - q)"
    by (intro sint_of_int_small order.strict_trans1 [OF _ W]) (simp_all del: of_nat_mult)
  let ?r = "if steps = 0 then 0 else if ?n < 0 then max ?n (- int q) else min ?n (int (W - q))"
  have "advance ?x steps = ?x + push_bit (2 * (30 - l) + 1) (of_int ?r)"
    unfolding advance_def Let_def sh mn mx word_sless_alt s1 s2
    by (simp add: max_def min_def)
  also have "\<dots> = cell_at l (nat (int q + ?r))"
    using qW by (intro add_steps assms(1)) (auto simp: max_def min_def)
  also have "int q + ?r = max 0 (min (int W) (int q + ?n))"
    using qW by (auto simp: max_def min_def of_nat_diff)
  finally show ?thesis by (simp only: iW)
qed

lemma smod_mod: "(a smod b) mod b = a mod (b::int)"
proof -
  have "(a smod b + b * (a sdiv b)) mod b = a mod b" by (simp only: smod_mult_sdiv_eq)
  then show ?thesis by simp
qed

lemma smod_bounds:
  assumes "0 < (b::int)"
  shows "\<bar>a smod b\<bar> < b \<and> (a < 0 \<longrightarrow> a smod b \<le> 0) \<and> (0 \<le> a \<longrightarrow> 0 \<le> a smod b)"
  using assms by (auto simp: smod_int_alt_def sgn_if)

lemma advance_wrap_at:
  assumes "l \<le> 30" and "q < 6 * 4 ^ l"
  shows "advance_wrap (cell_at l q) steps =
    cell_at l (nat ((int q + sint steps) mod (6 * 4 ^ l)))"
proof -
  define W where "W = 6 * (4::nat) ^ l"
  have qW: "q < W" and iW: "6 * 4 ^ l = int W" using assms(2) by (simp_all add: W_def)
  let ?x = "cell_at l q" and ?n = "sint steps"
  have q7: "q < 7 * 4 ^ l" using assms(2) by (rule index_bound)
  have W: "int W < 2 ^ 63" using index_small [OF assms(1) order_refl] by (simp only: W_def)
  have sh: "step_shift ?x = 2 * (30 - l) + 1" using assms(1) q7 by (rule step_shift_at)
  have mn: "drop_bit (2 * (30 - l) + 1) ?x = of_int (int q)"
    by (rule drop_step_shift [where c = 1]) (simp_all add: assms(1) unat_cell_at q7)
  have mx: "drop_bit (2 * (30 - l) + 1) (kWrapOffset - ?x) = of_int (int (W - q - 1))"
    by (rule drop_step_shift [where c = 1]) (simp_all only: assms to_wrap_end W_def one_less_numeral_iff semiring_norm)
  have "unat kWrapOffset = (2 * W + 0) * 4 ^ (30 - l)"
    using pow4_split [OF assms(1)] by (simp add: unat_kWrapOffset W_def mult.assoc)
  then have wr: "drop_bit (2 * (30 - l) + 1) kWrapOffset = of_int (int W)"
    by (rule drop_step_shift [OF assms(1)]) simp
  have s1: "sint (- of_int (int q) :: int64) = - int q"
    using sint_of_int_small [of "- int q"] index_small [OF assms(1) less_imp_le [OF assms(2)]]
    by simp
  have s2: "sint (of_int (int (W - q - 1)) :: int64) = int (W - q - 1)"
    by (intro sint_of_int_small order.strict_trans1 [OF _ W]) (simp_all del: of_nat_mult)
  have s3: "sint (of_int (int W) :: int64) = int W"
    using W by (intro sint_of_int_small) auto
  let ?m = "?n smod int W"
  have Wpos: "0 < int W" using qW by simp
  have mr: "?m mod int W = ?n mod int W" by (rule smod_mod)
  have mb: "\<bar>?m\<bar> < int W" "?n < 0 \<Longrightarrow> ?m \<le> 0" "0 \<le> ?n \<Longrightarrow> 0 \<le> ?m"
    using smod_bounds [OF Wpos, of ?n] by blast+
  have m: "sint (of_int ?m :: int64) = ?m"
    using mb(1) W by (intro sint_of_int_small) linarith+
  let ?r = "if steps = 0 then 0 else if ?n < 0 then
              (if ?n < - int q then (if ?m < - int q then ?m + int W else ?m) else ?n)
            else if int (W - q - 1) < ?n then (if int (W - q - 1) < ?m then ?m - int W else ?m) else ?n"
  have r: "0 \<le> int q + ?r \<and> int q + ?r < int W"
    using qW mb by (auto simp: of_nat_diff)
  have "advance_wrap ?x steps = ?x + push_bit (2 * (30 - l) + 1) (of_int ?r)"
    unfolding advance_wrap_def Let_def sh mn mx wr word_sless_alt s1 s2 s3 m
    by simp
  also have "\<dots> = cell_at l (nat (int q + ?r))"
    using r by (intro add_steps assms(1)) blast
  also have "int q + ?r = (int q + ?r) mod int W" using r by simp
  also have "?r mod int W = ?n mod int W" using mr by auto
  then have "(int q + ?r) mod int W = (int q + ?n) mod int W" by (rule mod_add_cong [OF refl])
  finally show ?thesis by (simp only: iW)
qed


section \<open>The tree of cells\<close>

lemma is_leaf_iff: "is_valid x \<Longrightarrow> is_leaf x \<longleftrightarrow> cell_lv x = 30"
  by (elim cell_span_at_cases) (simp add: is_leaf_at span_at)

lemma is_face_iff: "is_valid x \<Longrightarrow> is_face x \<longleftrightarrow> cell_lv x = 0"
  by (elim cell_span_at_cases) (simp add: is_face_at span_at)

lemma contains_iff_index:
  assumes "is_valid x" and "is_valid y"
  shows "cell_contains x y \<longleftrightarrow>
    cell_lv x \<le> cell_lv y \<and> cell_index y div 4 ^ (cell_lv y - cell_lv x) = cell_index x"
  using assms by (auto elim!: cell_span_at_cases simp: contains_at_iff span_at)

lemma parent_at_cell:
  "is_valid x \<Longrightarrow> m \<le> cell_lv x \<Longrightarrow> parent_at x m = cell_at m (cell_index x div 4 ^ (cell_lv x - m))"
  by (elim cell_span_at_cases) (simp add: parent_at_at span_at)

lemma index_div_bound:
  assumes "q < 6 * 4 ^ l" and "m \<le> l"
  shows "q div 4 ^ (l - m) < 6 * (4::nat) ^ m"
proof -
  have "6 * (4::nat) ^ l = 6 * 4 ^ m * 4 ^ (l - m)" using assms(2) by (simp flip: power_add)
  then show ?thesis using assms(1) by (simp add: div_less_iff_less_mult)
qed

lemma parent_at_valid:
  assumes "is_valid x" and "m \<le> cell_lv x"
  shows "is_valid (parent_at x m)" and "cell_lv (parent_at x m) = m"
    and "cell_index (parent_at x m) = cell_index x div 4 ^ (cell_lv x - m)"
  using assms
  by (auto elim!: cell_span_at_cases simp: parent_at_at span_at index_div_bound index_bound
      intro!: is_valid_at)

lemma contains_parent_at:
  assumes "is_valid x" and "is_valid y"
  shows "cell_contains x y \<longleftrightarrow> cell_lv x \<le> cell_lv y \<and> parent_at y (cell_lv x) = x"
  using assms contains_iff_index [OF assms] parent_at_valid [OF assms(2)] parent_at_cell [OF assms(2)]
    cell_at_eq(1) [OF assms(1)] by (metis (no_types))

lemma strict_container:
  assumes "is_valid z" and "is_valid y" and "cell_contains z y" and "z \<noteq> y"
  shows "cell_lv z < cell_lv y" and "cell_contains z (parent y)"
proof -
  have c: "cell_lv z \<le> cell_lv y" "cell_index y div 4 ^ (cell_lv y - cell_lv z) = cell_index z"
    using assms(3) contains_iff_index [OF assms(1,2)] by auto
  have "cell_lv z \<noteq> cell_lv y"
    using c assms(4) cell_at_eq(1) [OF assms(1)] cell_at_eq(1) [OF assms(2)] by auto
  with c(1) show l: "cell_lv z < cell_lv y" by simp
  then have p: "is_valid (parent y)" "Suc (cell_lv (parent y)) = cell_lv y"
    "cell_index (parent y) = cell_index y div 4"
    using parent_valid [OF assms(2)] by auto
  have "cell_lv y - cell_lv z = Suc (cell_lv (parent y) - cell_lv z)" using l p(2) by simp
  then show "cell_contains z (parent y)"
    using c l p contains_iff_index [OF assms(1) p(1)] by (simp add: div_mult2_eq)
qed

lemma parent_contains: "is_valid x \<Longrightarrow> 0 < cell_lv x \<Longrightarrow> cell_contains (parent x) x"
  using parent_valid [of x] contains_iff_index [of "parent x" x]
  by (metis Suc_diff_le add.commute diff_self_eq_0 le_SucI order_refl plus_1_eq_Suc power_one_right add_diff_cancel_left')


section \<open>The largest tile before a limit\<close>

lemma range_max_ge_iff:
  assumes "is_cell y" and "is_cell lim" and "cell_lo y < cell_lo lim"
  shows "range_max y \<ge> lim \<longleftrightarrow> cell_lo lim < cell_hi y"
proof -
  have "range_max y \<ge> lim \<longleftrightarrow> cell_lo lim + cell_hi lim \<le> 2 * cell_hi y - 1"
    by (simp add: word_le_nat_alt unat_range_max unat_cell assms)
  then show ?thesis
    using laminar [OF assms(1,2)] assms(3) cell_lo_less_hi [of lim] by linarith
qed

lemma range_min_eq_iff:
  "is_cell x \<Longrightarrow> is_cell y \<Longrightarrow> range_min x = range_min y \<longleftrightarrow> cell_lo x = cell_lo y"
  by (simp add: word_unat_eq_iff unat_range_min)

text \<open>\<open>tile_for x lim y\<close>: of the cells that start where \<open>x\<close> starts and end before \<open>lim\<close>,
  \<open>y\<close> is the largest.\<close>

definition tile_for :: "cellid \<Rightarrow> cellid \<Rightarrow> cellid \<Rightarrow> bool" where
  "tile_for x lim y \<longleftrightarrow> is_valid y \<and> cell_lo y = cell_lo x \<and> cell_hi y \<le> cell_lo lim \<and>
     (\<forall>z. is_valid z \<longrightarrow> cell_lo z = cell_lo x \<longrightarrow> cell_hi z \<le> cell_lo lim \<longrightarrow> cell_hi z \<le> cell_hi y)"

lemma tile_shrink_spec:
  assumes "is_valid x" and "is_cell lim" and "cell_lo x < cell_lo lim" and "cell_lo lim < cell_hi x"
  shows "\<exists>y. tile_shrink lim x = Some y \<and> tile_for x lim y"
  using assms
proof (induction "30 - cell_lv x" arbitrary: x)
  case 0
  then have "cell_span x = 1" by (simp add: cell_span_def)
  then show ?case using 0 by (simp add: cell_hi_eq)
next
  case (Suc n)
  let ?c = "child x 0"
  have lv: "cell_lv x < 30" using Suc.hyps(2) by simp
  note c = child_valid [OF Suc.prems(1) lv, of 0, simplified]
  have big: "range_max ?c \<ge> lim \<longleftrightarrow> cell_lo lim < cell_hi ?c"
    using Suc.prems c by (intro range_max_ge_iff) auto
  show ?case
  proof (cases "cell_lo lim < cell_hi ?c")
    case True
    have "\<exists>y. tile_shrink lim ?c = Some y \<and> tile_for ?c lim y"
      using Suc c True by (intro Suc.hyps(1)) auto
    then show ?thesis
      using big True c by (subst tile_shrink.simps) (simp add: Let_def tile_for_def)
  next
    case False
    have "cell_hi z \<le> cell_hi ?c"
      if z: "is_valid z" "cell_lo z = cell_lo x" "cell_hi z \<le> cell_lo lim" for z
    proof (rule ccontr)
      assume "\<not> cell_hi z \<le> cell_hi ?c"
      then have "cell_contains z ?c" "z \<noteq> ?c" using z c by (auto simp: contains_iff)
      then have "cell_lv z < cell_lv ?c" using z c strict_container(1) by blast
      moreover have "cell_contains x z" "x \<noteq> z" using z Suc.prems by (auto simp: contains_iff)
      then have "cell_lv x < cell_lv z" using z Suc.prems strict_container(1) by blast
      ultimately show False using c by simp
    qed
    then show ?thesis
      using big False c by (subst tile_shrink.simps) (simp add: Let_def tile_for_def)
  qed
qed

lemma tile_grow_spec:
  assumes "is_valid x" and "is_cell lim" and "cell_hi x \<le> cell_lo lim"
  shows "\<exists>y. tile_grow lim (range_min x) x = Some y \<and> tile_for x lim y"
  using assms
proof (induction "cell_lv x" arbitrary: x)
  case 0
  have "cell_hi z \<le> cell_hi x" if z: "is_valid z" "cell_lo z = cell_lo x" for z
  proof (rule ccontr)
    assume "\<not> cell_hi z \<le> cell_hi x"
    then have "cell_contains z x" "z \<noteq> x" using z 0 by (auto simp: contains_iff)
    then show False using strict_container(1) [OF z(1) 0(2)] 0(1) by simp
  qed
  then show ?case
    using 0 by (subst tile_grow.simps) (simp add: is_face_iff tile_for_def)
next
  case (Suc n)
  let ?p = "parent x"
  have lv: "0 < cell_lv x" using Suc.hyps(2) by simp
  note p = parent_valid [OF Suc.prems(1) lv]
  have px: "cell_lo ?p \<le> cell_lo x" "cell_hi x \<le> cell_hi ?p"
    using parent_contains [OF Suc.prems(1) lv] p(1) Suc.prems(1) by (auto simp: contains_iff)
  have lolim: "cell_lo x < cell_lo lim" using Suc.prems(3) cell_lo_less_hi [of x] by linarith
  have stop: "range_min ?p \<noteq> range_min x \<or> range_max ?p \<ge> lim
      \<longleftrightarrow> cell_lo ?p \<noteq> cell_lo x \<or> cell_lo lim < cell_hi ?p"
    using p(1) Suc.prems lolim range_max_ge_iff [of ?p lim] px
    by (auto simp: range_min_eq_iff)
  have unf: "tile_grow lim (range_min x) x =
      (if cell_lo ?p \<noteq> cell_lo x \<or> cell_lo lim < cell_hi ?p then Some x
       else tile_grow lim (range_min x) ?p)"
    by (subst tile_grow.simps) (simp only: is_face_iff [OF Suc.prems(1)] stop Let_def lv neq0_conv
        if_False not_less_zero less_imp_neq [THEN not_sym])
  show ?case
  proof (cases "cell_lo ?p \<noteq> cell_lo x \<or> cell_lo lim < cell_hi ?p")
    case True
    have "cell_hi z \<le> cell_hi x"
      if z: "is_valid z" "cell_lo z = cell_lo x" "cell_hi z \<le> cell_lo lim" for z
    proof (rule ccontr)
      assume "\<not> cell_hi z \<le> cell_hi x"
      then have "cell_contains z x" "z \<noteq> x" using z Suc.prems by (auto simp: contains_iff)
      then have "cell_contains z ?p" using z Suc.prems strict_container(2) by blast
      then show False using True z px p(1) by (auto simp: contains_iff)
    qed
    then show ?thesis using True Suc.prems by (simp add: unf tile_for_def)
  next
    case False
    have "\<exists>y. tile_grow lim (range_min ?p) ?p = Some y \<and> tile_for ?p lim y"
      using Suc p False by (intro Suc.hyps(1)) auto
    moreover have "range_min ?p = range_min x"
      using False Suc.prems p by (simp add: range_min_eq_iff)
    ultimately show ?thesis using False by (simp add: unf tile_for_def)
  qed
qed

lemma maximum_tile_spec:
  assumes "is_valid x" and "is_cell lim"
  shows "cell_lo lim \<le> cell_lo x \<Longrightarrow> maximum_tile x lim = Some lim"
    and "cell_lo x < cell_lo lim \<Longrightarrow> \<exists>y. maximum_tile x lim = Some y \<and> tile_for x lim y"
proof -
  have ge: "range_min x \<ge> range_min lim \<longleftrightarrow> cell_lo lim \<le> cell_lo x"
    using assms by (simp add: word_le_nat_alt unat_range_min)
  show "cell_lo lim \<le> cell_lo x \<Longrightarrow> maximum_tile x lim = Some lim"
    using ge by (simp add: maximum_tile_def)
  assume lt: "cell_lo x < cell_lo lim"
  then show "\<exists>y. maximum_tile x lim = Some y \<and> tile_for x lim y"
    using ge tile_shrink_spec [OF assms lt] tile_grow_spec [OF assms]
      range_max_ge_iff [OF valid_is_cell [OF assms(1)] assms(2) lt]
    by (cases "cell_lo lim < cell_hi x") (simp_all add: maximum_tile_def not_less)
qed

end
