(* ===== verification/Cell_Ancestor.thy ===== *)
theory Cell_Ancestor
  imports Cell_Navigation
begin

text \<open>
  \<open>GetCommonAncestorLevel\<close> against the parents of the two cells, the wrapping successor and
  predecessor, and the decomposition of an id into face, position and level.
\<close>


section \<open>Common ancestors\<close>

lemma drop_bit_eq_iff_xor: "drop_bit k x = drop_bit k y \<longleftrightarrow> drop_bit k (x XOR y) = (0::'a::len word)"
  by (auto simp: bit_eq_iff bit_simps)

lemma drop_bit_0_iff: "drop_bit k (w::'a::len word) = 0 \<longleftrightarrow> unat w < 2 ^ k"
proof -
  have "drop_bit k w = 0 \<longleftrightarrow> unat (drop_bit k w) = 0" by (simp only: unsigned_eq_0_iff)
  also have "\<dots> \<longleftrightarrow> unat w div 2 ^ k = 0"
    unfolding unat_drop_bit_eq by (simp only: drop_bit_eq_div)
  finally show ?thesis by (simp add: div_eq_0_iff)
qed

lemma unat_div_level:
  assumes "is_valid x" and "m \<le> cell_lv x"
  shows "unat x div 2 ^ (2 * (30 - m) + 1) = cell_index x div 4 ^ (cell_lv x - m)"
proof -
  obtain l q where x: "x = cell_at l q" and l: "l \<le> 30" and q: "q < 6 * 4 ^ l" "q < 7 * 4 ^ l"
    using assms(1) by (rule cell_span_at_cases)
  have ml: "m \<le> l" using assms(2) l q by (simp add: x span_at)
  have "unat x div 2 ^ (2 * (30 - m) + 1) = (2 * q + 1) * 4 ^ (30 - l) div (4 ^ (30 - l) * (2 * 4 ^ (l - m)))"
    unfolding x unat_cell_at [OF l q(2)] power_add pow4 [symmetric] span_split [OF ml l]
    by (simp only: ac_simps power_one_right)
  also have "\<dots> = (2 * q + 1) div (2 * 4 ^ (l - m))"
    by (simp only: div_mult2_eq nonzero_mult_div_cancel_right power_not_zero zero_neq_numeral
        not_False_eq_True)
  also have "\<dots> = q div 4 ^ (l - m)" by (simp add: div_mult2_eq)
  finally show ?thesis using l q by (simp add: x span_at)
qed

lemma parents_eq_iff:
  assumes "is_valid x" and "is_valid y" and "m \<le> cell_lv x" and "m \<le> cell_lv y"
  shows "parent_at x m = parent_at y m \<longleftrightarrow> unat (x XOR y) < 2 ^ (2 * (30 - m) + 1)"
proof -
  let ?k = "2 * (30 - m) + 1"
  let ?i = "cell_index x div 4 ^ (cell_lv x - m)" and ?j = "cell_index y div 4 ^ (cell_lv y - m)"
  have "parent_at x m = parent_at y m \<longleftrightarrow> ?i = ?j"
  proof
    assume "parent_at x m = parent_at y m"
    then show "?i = ?j"
      using parent_at_valid(3) [OF assms(1,3)] parent_at_valid(3) [OF assms(2,4)] by simp
  next
    assume "?i = ?j"
    then show "parent_at x m = parent_at y m"
      by (simp only: parent_at_cell [OF assms(1,3)] parent_at_cell [OF assms(2,4)])
  qed
  also have "\<dots> \<longleftrightarrow> unat x div 2 ^ ?k = unat y div 2 ^ ?k"
    by (simp only: unat_div_level [OF assms(1,3)] unat_div_level [OF assms(2,4)])
  also have "\<dots> \<longleftrightarrow> unat (drop_bit ?k x) = unat (drop_bit ?k y)"
    unfolding unat_drop_bit_eq by (simp only: drop_bit_eq_div)
  also have "\<dots> \<longleftrightarrow> drop_bit ?k x = drop_bit ?k y" by (simp only: word_unat_eq_iff)
  finally show ?thesis unfolding drop_bit_eq_iff_xor drop_bit_0_iff .
qed

lemma lsb_level_le_iff:
  assumes "is_valid x"
  shows "unat (lsb x) < 2 ^ (2 * (30 - m) + 1) \<longleftrightarrow> m \<le> cell_lv x \<or> 30 < m \<and> cell_lv x = 30"
proof -
  obtain l q where x: "x = cell_at l q" and l: "l \<le> 30" and q: "q < 7 * 4 ^ l"
    using assms by (rule cell_span_at_cases)
  have "unat (lsb x) = 2 ^ (2 * (30 - l))" using l q by (simp add: x lsb_cell_at lsb_for_level_eq)
  then have "unat (lsb x) < 2 ^ (2 * (30 - m) + 1) \<longleftrightarrow> 2 * (30 - l) < 2 * (30 - m) + 1"
    by (simp only: power_strict_increasing_iff one_less_numeral_iff semiring_norm)
  then show ?thesis using l q by (auto simp: x span_at)
qed

lemma unat_max: "unat (max a b) = max (unat a) (unat (b::'a::len word))"
  by (simp add: max_def word_le_nat_alt)

lemma msb_exists: "(0::nat) < n \<Longrightarrow> \<exists>k. 2 ^ k \<le> n \<and> n < 2 ^ Suc k"
  using ex_power_ivl1 [of 2 n] by auto

lemma GetCommonAncestorLevel_spec:
  assumes "is_valid x" and "is_valid y" and "m \<le> 30"
  shows "int m \<le> GetCommonAncestorLevel x y \<longleftrightarrow>
    m \<le> cell_lv x \<and> m \<le> cell_lv y \<and> parent_at x m = parent_at y m"
proof -
  define bits where "bits = max (x XOR y) (max (lsb x) (lsb y))"
  have "x \<noteq> 0" using assms(1) by (auto simp: is_valid_def lsb_def)
  have "0 < unat (lsb x)"
    using assms(1) by (auto elim!: cell_span_at_cases simp: lsb_cell_at unat_lsb_for_level)
  then have "0 < unat bits" by (simp add: bits_def unat_max)
  then obtain k where k: "2 ^ k \<le> unat bits" "unat bits < 2 ^ Suc k" using msb_exists by blast
  have "GetCommonAncestorLevel x y = drop_bit 1 (max (60 - int k) (-1))"
    unfolding GetCommonAncestorLevel_def bits_def [symmetric] Let_def
    by (simp only: FindMSBSetNonZero64_eq [OF k])
  then have "int m \<le> GetCommonAncestorLevel x y \<longleftrightarrow> k \<le> 2 * (30 - m)"
    using assms(3) by (simp add: drop_bit_eq_div) linarith
  also have "\<dots> \<longleftrightarrow> unat bits < 2 ^ (2 * (30 - m) + 1)"
  proof
    assume "k \<le> 2 * (30 - m)"
    then have "(2::nat) ^ Suc k \<le> 2 ^ (2 * (30 - m) + 1)" by (intro power_increasing) auto
    with k(2) show "unat bits < 2 ^ (2 * (30 - m) + 1)" by linarith
  next
    assume "unat bits < 2 ^ (2 * (30 - m) + 1)"
    with k(1) have "(2::nat) ^ k < 2 ^ (2 * (30 - m) + 1)" by linarith
    then have "k < 2 * (30 - m) + 1"
      by (simp only: power_strict_increasing_iff one_less_numeral_iff semiring_norm)
    then show "k \<le> 2 * (30 - m)" by simp
  qed
  also have "\<dots> \<longleftrightarrow> unat (x XOR y) < 2 ^ (2 * (30 - m) + 1) \<and> m \<le> cell_lv x \<and> m \<le> cell_lv y"
    using lsb_level_le_iff [OF assms(1), of m] lsb_level_le_iff [OF assms(2), of m] assms(3)
    by (simp only: bits_def unat_max max_less_iff_conj) auto
  finally show ?thesis using parents_eq_iff [OF assms(1,2)] by blast
qed

lemma GetCommonAncestorLevel_range:
  "-1 \<le> GetCommonAncestorLevel x y \<and> GetCommonAncestorLevel x y \<le> 30"
proof -
  have "-1 \<le> FindMSBSetNonZero64 w" for w
    by (simp add: FindMSBSetNonZero64_def Log2FloorNonZero64_def)
  from this [of "max (x XOR y) (max (lsb x) (lsb y))"]
  have "max (60 - FindMSBSetNonZero64 (max (x XOR y) (max (lsb x) (lsb y)))) (-1) \<le> 61"
    by linarith
  moreover have "-1 \<le> v \<Longrightarrow> v \<le> 61 \<Longrightarrow> -1 \<le> v div 2 ^ 1 \<and> v div 2 ^ 1 \<le> 30" for v :: int
    by (simp; linarith)
  ultimately show ?thesis
    unfolding GetCommonAncestorLevel_def Let_def drop_bit_eq_div by (metis max.cobounded2)
qed

section \<open>Wrapping\<close>

lemma next_wrap_at [cell_simps]:
  assumes "l \<le> 30" and "q < 6 * 4 ^ l"
  shows "next_wrap (cell_at l q) = cell_at l (if Suc q = 6 * 4 ^ l then 0 else Suc q)"
proof -
  have n: "cell_next (cell_at l q) = cell_at l (Suc q)"
    using assms by (simp add: cell_next_at index_bound)
  have u: "unat (cell_at l (Suc q)) = (2 * Suc q + 1) * 4 ^ (30 - l)"
    using assms by (intro unat_cell_at) auto
  have w: "unat kWrapOffset = 2 * (6 * 4 ^ l) * 4 ^ (30 - l)"
    using pow4_split [OF assms(1)] by (simp only: unat_kWrapOffset mult.assoc)
  have lt: "cell_at l (Suc q) < kWrapOffset \<longleftrightarrow> Suc q \<noteq> 6 * 4 ^ l"
    unfolding word_less_nat_alt u w mult_less_cancel2 using assms(2) by auto
  have "kWrapOffset = of_nat (2 * (6 * 4 ^ l) * 4 ^ (30 - l))" using w by (metis of_nat_unat ucast_id)
  then have "Suc q = 6 * 4 ^ l \<Longrightarrow> cell_at l (Suc q) - kWrapOffset = cell_at l 0"
    by (simp add: cell_at_def algebra_simps)
  then show ?thesis using lt by (auto simp: next_wrap_def n)
qed

lemma prev_wrap_at [cell_simps]:
  assumes "l \<le> 30" and "q < 6 * 4 ^ l"
  shows "prev_wrap (cell_at l q) = cell_at l (if q = 0 then 6 * 4 ^ l - 1 else q - 1)"
proof (cases q)
  case 0
  let ?s = "(4::nat) ^ (30 - l)"
  have w: "unat kWrapOffset = 2 * (6 * 4 ^ l) * ?s"
    using pow4_split [OF assms(1)] by (simp only: unat_kWrapOffset mult.assoc)
  have s: "lsb (cell_at l 0) = of_nat ?s"
    using assms(1) by (simp add: lsb_cell_at lsb_for_level_of_nat)
  have p: "cell_prev (cell_at l 0) = - of_nat ?s"
    unfolding cell_prev_def s by (simp add: cell_at_def push_bit_eq_mult)
  have "?s \<le> 4 ^ 30" by (rule power_increasing) auto
  then have "unat (of_nat ?s :: uint64) = ?s" by (simp only: unat_of_nat) simp
  moreover have "- (of_nat ?s :: uint64) = of_nat (2 ^ 64 - ?s)"
    using \<open>?s \<le> 4 ^ 30\<close> by (simp add: of_nat_diff)
  moreover have "0 < ?s" by simp
  ultimately have "unat (- of_nat ?s :: uint64) = 2 ^ 64 - ?s"
    using \<open>?s \<le> 4 ^ 30\<close> by (simp only: unat_of_nat) simp
  moreover have "12 * 4 ^ 30 \<le> 2 ^ 64 - (?s :: nat)" using \<open>?s \<le> 4 ^ 30\<close> by simp
  ultimately have ge: "\<not> (- of_nat ?s < kWrapOffset)"
    by (simp only: word_less_nat_alt unat_kWrapOffset not_less)
  obtain d where d: "6 * 4 ^ l = Suc d" by (metis assms(2) less_imp_Suc_add)
  have k: "kWrapOffset = of_nat (2 * Suc d * ?s)" using w unfolding d by (metis of_nat_unat ucast_id)
  have "- of_nat ?s + kWrapOffset = cell_at l d"
    unfolding k cell_at_def by (simp add: algebra_simps)
  then show ?thesis using ge 0 d by (simp add: prev_wrap_def p)
next
  case (Suc r)
  have p: "cell_prev (cell_at l q) = cell_at l r" using assms Suc by (simp add: cell_prev_at)
  have u: "unat (cell_at l r) = (2 * r + 1) * 4 ^ (30 - l)"
    using assms Suc by (intro unat_cell_at) auto
  have w: "unat kWrapOffset = 2 * (6 * 4 ^ l) * 4 ^ (30 - l)"
    using pow4_split [OF assms(1)] by (simp only: unat_kWrapOffset mult.assoc)
  have "cell_at l r < kWrapOffset"
    unfolding word_less_nat_alt u w mult_less_cancel2 using assms(2) Suc by auto
  then show ?thesis unfolding prev_wrap_def p using Suc by simp
qed

section \<open>Face and position\<close>

lemma face_pos_or_1:
  "push_bit 61 (of_nat (face x)) + (pos x OR 1) = (x OR 1 :: uint64)"
proof -
  have f: "of_nat (face x) = drop_bit 61 x" by (simp add: face_def)
  have "push_bit 61 (drop_bit 61 x) + (pos x OR 1) = push_bit 61 (drop_bit 61 x) OR (pos x OR 1)"
    by (rule disjunctive_add) (auto simp: pos_def bit_simps bit_1_iff)
  also have "\<dots> = x OR 1"
    by (rule bit_word_eqI)
      (auto simp: pos_def bit_simps bit_1_iff, metis add_diff_inverse_nat)
  finally show ?thesis by (simp only: f)
qed


lemma parent_at_or_1:
  assumes "is_valid x"
  shows "parent_at (x OR 1) (cell_lv x) = x"
proof -
  obtain l q where x: "x = cell_at l q" and l: "l \<le> 30" and q: "q < 6 * 4 ^ l" "q < 7 * 4 ^ l"
    using assms by (rule cell_span_at_cases)
  show ?thesis
  proof (cases "l = 30")
    case True
    have "odd (unat x)" using l q True by (simp add: x unat_cell_at)
    then have "odd x" using word_bit_iff [of x 0] by (simp add: bit_0)
    then have "x OR 1 = x" by (simp add: or_one_eq)
    then show ?thesis using l q by (simp add: x span_at parent_at_at)
  next
    case False
    let ?k = "2 * (30 - l)"
    have "drop_bit ?k (x OR 1) = drop_bit ?k x"
      using False l by (intro bit_word_eqI) (auto simp: bit_simps bit_1_iff)
    then have "parent_at (x OR 1) l = parent_at x l"
      by (simp add: parent_at_def Let_def lsb_for_level_eq and_neg_exp)
    then show ?thesis using l q by (simp add: x span_at parent_at_at)
  qed
qed

lemma FromFacePosLevel_inverse:
  "is_valid x \<Longrightarrow> FromFacePosLevel (face x) (pos x) (cell_lv x) = x"
  using face_pos_or_1 [of x] parent_at_or_1 [of x] by (simp add: FromFacePosLevel_def)

end
