(* ===== verification/Cell_Union.thy ===== *)
theory Cell_Union
  imports Cell_Ancestor
begin

text \<open>
  \<^verbatim>\<open>S2CellUnion\<close> (\<^verbatim>\<open>s2/s2cell_union.h\<close> and \<^verbatim>\<open>.cc\<close>): a union is its vector \<open>cell_ids_\<close>.  Iterators
  into a vector are modelled by the list of the elements from the iterator to the end, so
  \<open>std::lower_bound\<close> over \<open>[i, end)\<close> is \<open>lower_bound\<close> of that suffix: the suffix from the
  partition point of the predicate.  \<open>Normalize\<close> overwrites a prefix of the vector while it
  reads the rest; the prefix \<open>ids[0..out)\<close> is the argument \<open>st\<close>, last element first.  Loops
  that end on valid inputs only are partial functions.
\<close>

type_synonym cell_union = "cellid list"

definition lower_bound :: "('a \<Rightarrow> 'b \<Rightarrow> bool) \<Rightarrow> 'a list \<Rightarrow> 'b \<Rightarrow> 'a list" where
  "lower_bound lt xs v = dropWhile (\<lambda>x. lt x v) xs"

definition AreSiblings :: "cellid \<Rightarrow> cellid \<Rightarrow> cellid \<Rightarrow> cellid \<Rightarrow> bool" where
  "AreSiblings a b c d =
     (if (a XOR b XOR c) \<noteq> d then False
      else let m0 = push_bit 1 (lsb d);
               mask = NOT (m0 + push_bit 1 m0);
               id_masked = d AND mask
           in a AND mask = id_masked \<and> b AND mask = id_masked \<and> c AND mask = id_masked \<and>
              \<not> is_face d)"

definition CU_IsValid :: "cell_union \<Rightarrow> bool" where
  "CU_IsValid ids \<longleftrightarrow>
     \<not> (length ids > 0 \<and> \<not> is_valid (ids ! 0)) \<and>
     list_all (\<lambda>i. is_valid (ids ! i) \<and> \<not> range_max (ids ! (i - 1)) \<ge> range_min (ids ! i))
       [1..<length ids]"

definition CU_IsNormalized :: "cell_union \<Rightarrow> bool" where
  "CU_IsNormalized ids \<longleftrightarrow>
     \<not> (length ids > 0 \<and> \<not> is_valid (ids ! 0)) \<and>
     list_all (\<lambda>i. is_valid (ids ! i) \<and> \<not> range_max (ids ! (i - 1)) \<ge> range_min (ids ! i) \<and>
         \<not> (i \<ge> 3 \<and> AreSiblings (ids ! (i - 3)) (ids ! (i - 2)) (ids ! (i - 1)) (ids ! i)))
       [1..<length ids]"

fun pop_contained :: "cellid \<Rightarrow> cellid list \<Rightarrow> cellid list" where
  "pop_contained x [] = []"
| "pop_contained x (t # st) = (if cell_contains x t then pop_contained x st else t # st)"

fun collapse :: "cellid list \<Rightarrow> cellid \<Rightarrow> cellid list" where
  "collapse (c # b # a # st) x =
     (if AreSiblings a b c x then collapse st (parent x) else x # c # b # a # st)"
| "collapse st x = x # st"

definition normalize_step :: "cellid list \<Rightarrow> cellid \<Rightarrow> cellid list" where
  "normalize_step st x =
     (case st of
        t # _ \<Rightarrow> if cell_contains t x then st else collapse (pop_contained x st) x
      | [] \<Rightarrow> collapse [] x)"

definition CU_Normalize :: "cellid list \<Rightarrow> cellid list" where
  "CU_Normalize ids = rev (foldl normalize_step [] (sort ids))"

definition CU_Init :: "cellid list \<Rightarrow> cell_union" where
  "CU_Init ids = CU_Normalize ids"

definition CU_WholeSphere :: cell_union where
  "CU_WholeSphere = CU_Init [cell_FromFace 0, cell_FromFace 1, cell_FromFace 2,
                             cell_FromFace 3, cell_FromFace 4, cell_FromFace 5]"

partial_function (option) tile_loop :: "cellid \<Rightarrow> cellid \<Rightarrow> cellid list \<Rightarrow> cellid list option" where
  "tile_loop lim x out =
     (if x \<noteq> lim
      then Option.bind (maximum_tile (cell_next x) lim) (\<lambda>y. tile_loop lim y (out @ [x]))
      else Some out)"

definition CU_FromBeginEnd :: "cellid \<Rightarrow> cellid \<Rightarrow> cell_union option" where
  "CU_FromBeginEnd b e = Option.bind (maximum_tile b e) (\<lambda>x. tile_loop e x [])"

definition CU_FromMinMax :: "cellid \<Rightarrow> cellid \<Rightarrow> cell_union option" where
  "CU_FromMinMax min_id max_id = CU_FromBeginEnd min_id (cell_next max_id)"

partial_function (option) push_range :: "cellid \<Rightarrow> cellid \<Rightarrow> cellid list \<Rightarrow> cellid list option" where
  "push_range e x out = (if x \<noteq> e then push_range e (cell_next x) (out @ [x]) else Some out)"

definition denorm_level :: "int \<Rightarrow> int \<Rightarrow> int \<Rightarrow> int" where
  "denorm_level min_level level_mod level =
     (let new_level = max min_level level
      in if level_mod > 1
         then min (int kMaxLevel)
                (new_level + (int kMaxLevel - (new_level - min_level)) smod level_mod)
         else new_level)"

definition denorm_cell :: "int \<Rightarrow> int \<Rightarrow> cellid \<Rightarrow> cellid list \<Rightarrow> cellid list option" where
  "denorm_cell min_level level_mod x out =
     (let level = cell_level x;
          new_level = denorm_level min_level level_mod level
      in if new_level = level then Some (out @ [x])
         else push_range (child_end_at x (nat new_level)) (child_begin_at x (nat new_level)) out)"

fun denorm_loop :: "cellid list \<Rightarrow> int \<Rightarrow> int \<Rightarrow> cellid list \<Rightarrow> cellid list option" where
  "denorm_loop [] min_level level_mod out = Some out"
| "denorm_loop (x # ids) min_level level_mod out =
     Option.bind (denorm_cell min_level level_mod x out)
       (\<lambda>out'. denorm_loop ids min_level level_mod out')"

definition CU_Denormalize :: "cellid list \<Rightarrow> int \<Rightarrow> int \<Rightarrow> cellid list option" where
  "CU_Denormalize ids min_level level_mod = denorm_loop ids min_level level_mod []"

definition EntirelyPrecedes :: "cellid \<Rightarrow> cellid \<Rightarrow> bool" where
  "EntirelyPrecedes a b \<longleftrightarrow> range_max a < range_min b"

definition CU_Contains :: "cell_union \<Rightarrow> cellid \<Rightarrow> bool" where
  "CU_Contains ids x =
     (case lower_bound EntirelyPrecedes ids x of [] \<Rightarrow> False | i # _ \<Rightarrow> cell_contains i x)"

definition CU_Intersects :: "cell_union \<Rightarrow> cellid \<Rightarrow> bool" where
  "CU_Intersects ids x =
     (case lower_bound EntirelyPrecedes ids x of [] \<Rightarrow> False | i # _ \<Rightarrow> cell_intersects i x)"

text \<open>The iterator \<open>i\<close> of the containment loop is never at the end when the loop reads it.\<close>

fun contains_loop :: "cellid list \<Rightarrow> cellid list \<Rightarrow> bool" where
  "contains_loop i [] = True"
| "contains_loop [] (y # ys) = False"
| "contains_loop (c # cs) (y # ys) =
     (let i = (if EntirelyPrecedes c y then lower_bound EntirelyPrecedes cs y else c # cs)
      in case i of [] \<Rightarrow> False
         | d # _ \<Rightarrow> if \<not> cell_contains d y then False else contains_loop i ys)"

definition CU_Contains_union :: "cell_union \<Rightarrow> cell_union \<Rightarrow> bool" where
  "CU_Contains_union x y =
     (if y = [] then True else if x = [] then False else contains_loop x y)"

lemma lower_bound_length [termination_simp]: "length (lower_bound p xs v) \<le> length xs"
  by (simp add: lower_bound_def length_dropWhile_le)

function CU_Intersects_union :: "cell_union \<Rightarrow> cell_union \<Rightarrow> bool" where
  "CU_Intersects_union [] y = False"
| "CU_Intersects_union (c # cs) [] = False"
| "CU_Intersects_union (c # cs) (d # ds) =
     (if EntirelyPrecedes c d then CU_Intersects_union (lower_bound EntirelyPrecedes cs d) (d # ds)
      else if EntirelyPrecedes d c
      then CU_Intersects_union (c # cs) (lower_bound EntirelyPrecedes ds c)
      else True)"
  by pat_completeness auto
termination
  by (relation "measure (\<lambda>(x, y). length x + length y)") (auto simp: lower_bound_length le_imp_less_Suc)

definition CU_Union :: "cell_union \<Rightarrow> cell_union \<Rightarrow> cell_union" where
  "CU_Union x y = CU_Init (x @ y)"

definition CU_Intersection_id :: "cell_union \<Rightarrow> cellid \<Rightarrow> cell_union" where
  "CU_Intersection_id ids x =
     (if CU_Contains ids x then [x]
      else takeWhile (\<lambda>i. i \<le> range_max x) (lower_bound (<) ids (range_min x)))"

function CU_GetIntersection :: "cell_union \<Rightarrow> cell_union \<Rightarrow> cell_union" where
  "CU_GetIntersection [] y = []"
| "CU_GetIntersection (i # is) [] = []"
| "CU_GetIntersection (i # is) (j # js) =
     (let imin = range_min i; jmin = range_min j
      in if imin > jmin
         then (if i \<le> range_max j then i # CU_GetIntersection is (j # js)
               else CU_GetIntersection (i # is) (lower_bound EntirelyPrecedes js i))
         else if jmin > imin
         then (if j \<le> range_max i then j # CU_GetIntersection (i # is) js
               else CU_GetIntersection (lower_bound EntirelyPrecedes is j) (j # js))
         else if i < j then i # CU_GetIntersection is (j # js)
         else j # CU_GetIntersection (i # is) js)"
  by pat_completeness auto
termination
  by (relation "measure (\<lambda>(x, y). length x + length y)") (auto simp: lower_bound_length le_imp_less_Suc)

definition CU_Intersection :: "cell_union \<Rightarrow> cell_union \<Rightarrow> cell_union" where
  "CU_Intersection x y = CU_GetIntersection x y"

partial_function (option) GetDifferenceInternal ::
  "cell_union \<Rightarrow> cellid \<Rightarrow> cellid list \<Rightarrow> cellid list option" where
  "GetDifferenceInternal y x out =
     (if \<not> CU_Intersects y x then Some (out @ [x])
      else if \<not> CU_Contains y x
      then let c0 = child_begin x; c1 = cell_next c0; c2 = cell_next c1; c3 = cell_next c2
           in Option.bind (GetDifferenceInternal y c0 out) (\<lambda>o0.
              Option.bind (GetDifferenceInternal y c1 o0) (\<lambda>o1.
              Option.bind (GetDifferenceInternal y c2 o1) (\<lambda>o2.
              GetDifferenceInternal y c3 o2)))
      else Some out)"

fun difference_loop :: "cellid list \<Rightarrow> cell_union \<Rightarrow> cellid list \<Rightarrow> cellid list option" where
  "difference_loop [] y out = Some out"
| "difference_loop (x # xs) y out =
     Option.bind (GetDifferenceInternal y x out) (\<lambda>out'. difference_loop xs y out')"

definition CU_Difference :: "cell_union \<Rightarrow> cell_union \<Rightarrow> cell_union option" where
  "CU_Difference x y = difference_loop x y []"

definition LeafCellsCovered :: "cell_union \<Rightarrow> uint64" where
  "LeafCellsCovered ids =
     foldl (\<lambda>num_leaves x.
       let inverted_level = int kMaxLevel - cell_level x
       in num_leaves + push_bit (nat (2 * inverted_level)) 1) 0 ids"

end
