(* ===== verification/Cell_Siblings.thy ===== *)
theory Cell_Siblings
  imports Cell_Union
begin

text \<open>
  The bit trick of \<open>AreSiblings\<close>: for valid ids in increasing order it holds exactly of the four
  children of a cell.
\<close>

section \<open>Words that agree outside a two-bit digit\<close>

lemma unat_bits3:
  "(n::nat) = n div 2 ^ (k + 3) * 2 ^ (k + 3) + n div 2 ^ (k + 1) mod 4 * 2 ^ (k + 1) + n mod 2 ^ (k + 1)"
proof -
  have "n = n div 2 ^ (k + 1) * 2 ^ (k + 1) + n mod 2 ^ (k + 1)"
    by (rule div_mult_mod_eq [symmetric])
  also have "n div 2 ^ (k + 1) = n div 2 ^ (k + 1) div 4 * 4 + n div 2 ^ (k + 1) mod 4" by simp
  also have "n div 2 ^ (k + 1) div 4 = n div 2 ^ (k + 3)"
  proof -
    have "(2::nat) ^ (k + 3) = 2 ^ (k + 1) * 4" by (simp add: power_add)
    then show ?thesis by (simp only: div_mult2_eq)
  qed
  finally show ?thesis by (simp add: power_add algebra_simps)
qed

lemma three_mask: "2 ^ K + push_bit 1 (2 ^ K) = push_bit K (mask 2 :: uint64)"
proof -
  have "(mask 2 :: uint64) = 3" by (simp add: mask_eq_exp_minus_1)
  then show ?thesis by (simp add: push_bit_eq_mult)
qed

lemma and_not_shifted_mask:
  fixes e d :: uint64
  assumes "e AND NOT (push_bit K (mask 2)) = d AND NOT (push_bit K (mask 2))"
    and "n < K \<or> K + 2 \<le> n"
  shows "bit e n \<longleftrightarrow> bit d n"
proof -
  have "bit (e AND NOT (push_bit K (mask 2))) n \<longleftrightarrow> bit (d AND NOT (push_bit K (mask 2))) n"
    using assms(1) by simp
  then show ?thesis using assms(2)
    by (cases "n < 64") (auto simp: bit_simps dest: bit_imp_le_length)
qed

lemma sibling_mask_agree:
  fixes e d :: uint64
  assumes "e AND NOT (2 ^ (k + 1) + push_bit 1 (2 ^ (k + 1))) = d AND NOT (2 ^ (k + 1) + push_bit 1 (2 ^ (k + 1)))"
  shows "unat e div 2 ^ (k + 3) = unat d div 2 ^ (k + 3)" and "unat e mod 2 ^ (k + 1) = unat d mod 2 ^ (k + 1)"
proof -
  have ag: "bit e n \<longleftrightarrow> bit d n" if "n < k + 1 \<or> k + 3 \<le> n" for n
    using assms that unfolding three_mask by (intro and_not_shifted_mask) auto
  have "drop_bit (k + 3) e = drop_bit (k + 3) d"
    using ag by (intro bit_word_eqI) (auto simp: bit_simps)
  then have "unat (drop_bit (k + 3) e) = unat (drop_bit (k + 3) d)" by (rule arg_cong)
  then show "unat e div 2 ^ (k + 3) = unat d div 2 ^ (k + 3)"
    unfolding unat_drop_bit_eq by (simp only: drop_bit_eq_div)
  have "take_bit (k + 1) e = take_bit (k + 1) d"
    using ag by (intro bit_word_eqI) (auto simp: bit_simps)
  then have "unat (take_bit (k + 1) e) = unat (take_bit (k + 1) d)" by (rule arg_cong)
  then show "unat e mod 2 ^ (k + 1) = unat d mod 2 ^ (k + 1)"
    unfolding unsigned_take_bit_eq by (simp only: take_bit_eq_mod)
qed

lemma bit_of_nat_small: "j < 2 ^ m \<Longrightarrow> m \<le> i \<Longrightarrow> \<not> bit (of_nat j :: 'a::len word) i"
proof -
  assume j: "j < 2 ^ m" and i: "m \<le> i"
  have "(2::nat) ^ m \<le> 2 ^ i" using i by (rule power_increasing) simp
  then have "j < 2 ^ i" using j by linarith
  then show ?thesis by (simp add: bit_simps) (simp add: bit_iff_odd)
qed

lemma digit_in_mask:
  fixes x :: uint64
  assumes "j < 4"
  shows "(x XOR push_bit K (of_nat j)) AND NOT (push_bit K (mask 2)) = x AND NOT (push_bit K (mask 2))"
    and "\<not> bit x K \<Longrightarrow> \<not> bit x (K + 1) \<Longrightarrow> x AND push_bit K (of_nat j) = 0"
proof -
  have h: "\<not> bit (of_nat j :: uint64) i" if "2 \<le> i" for i
    using bit_of_nat_small [of j 2 i] assms that by simp
  show "(x XOR push_bit K (of_nat j)) AND NOT (push_bit K (mask 2)) = x AND NOT (push_bit K (mask 2))"
    using h by (intro bit_word_eqI)
      (auto simp: bit_and_iff bit_not_iff bit_xor_iff bit_push_bit_iff bit_mask_iff not_less)
  assume "\<not> bit x K" "\<not> bit x (K + 1)"
  then have "\<not> bit x n \<or> n < K \<or> K + 2 \<le> n" for n
    by (metis add_2_eq_Suc' linorder_not_le not_less_eq_eq Suc_eq_plus1 le_antisym)
  then show "x AND push_bit K (of_nat j) = 0"
    using h by (intro bit_word_eqI) (fastforce simp: bit_and_iff bit_push_bit_iff)
qed

lemma cell_at_xor:
  assumes "l \<le> 30" and "j < 4" and "4 * r + 3 < 7 * 4 ^ l" and "0 < l"
  shows "cell_at l (4 * r + j) = cell_at l (4 * r) XOR push_bit (2 * (30 - l) + 1) (of_nat j)"
proof -
  let ?k = "2 * (30 - l)"
  have u: "unat (cell_at l (4 * r)) = (8 * r + 1) * 2 ^ ?k"
    using assms by (simp add: unat_cell_at pow4)
  have z: "\<not> bit (cell_at l (4 * r)) n" if "n = ?k + 1 \<or> n = ?k + 2" for n
  proof -
    have e: "(8 * r + 1) * 2 ^ ?k div 2 ^ (?k + i) = (8 * r + 1) div (2::nat) ^ i" for i
      by (simp only: power_add div_mult2_eq nonzero_mult_div_cancel_right power_not_zero
          zero_neq_numeral not_False_eq_True)
    have "even ((8 * r + 1) div (2::nat) ^ 1)" "even ((8 * r + 1) div (2::nat) ^ 2)"
      by (simp_all only: power2_eq_square power_one_right) presburger+
    then show ?thesis
      using that unfolding word_bit_iff u by (elim disjE) (simp_all only: e not_not)
  qed
  have "cell_at l (4 * r + j) = cell_at l (4 * r) + push_bit (?k + 1) (of_nat j)"
  proof -
    have "(2 :: uint64) ^ (?k + 1) = 2 * 4 ^ (30 - l)" by (simp add: power_mult)
    then show ?thesis
      unfolding cell_at_def push_bit_eq_mult by (simp add: algebra_simps)
  qed
  also have "\<dots> = cell_at l (4 * r) XOR push_bit (?k + 1) (of_nat j)"
    using z assms(2) by (intro disjunctive_add_eq_xor digit_in_mask(2)) auto
  finally show ?thesis .
qed

lemma AreSiblings_children:
  assumes "is_valid a" "is_valid b" "is_valid c" "is_valid d"
    and "a < b" "b < c" "c < d" and "AreSiblings a b c d"
  shows "\<exists>p. is_valid p \<and> cell_lv p < 30 \<and> a = child p 0 \<and> b = child p 1 \<and> c = child p 2 \<and> d = child p 3"
proof -
  obtain l q where d: "d = cell_at l q" and l: "l \<le> 30" and q: "q < 6 * 4 ^ l" "q < 7 * 4 ^ l"
    using assms(4) by (rule cell_span_at_cases)
  let ?k = "2 * (30 - l)"
  have lsb: "lsb d = 2 ^ ?k" using l q by (simp add: d lsb_cell_at lsb_for_level_eq)
  have "\<not> is_face d" using assms(8) by (simp add: AreSiblings_def Let_def split: if_splits)
  then have l0: "0 < l" using l q by (simp add: d is_face_at)
  let ?m = "NOT (2 ^ (?k + 1) + push_bit 1 (2 ^ (?k + 1))) :: uint64"
  have "push_bit 1 (lsb d) = 2 ^ (?k + 1)" by (simp add: lsb push_bit_eq_mult)
  then have ag: "a AND ?m = d AND ?m" "b AND ?m = d AND ?m" "c AND ?m = d AND ?m"
    using assms(8) by (simp_all add: AreSiblings_def Let_def split: if_splits)
  have k: "?k + 3 \<le> 64" using l0 by simp
  have ud: "unat d = (2 * q + 1) * 2 ^ ?k" using l q by (simp add: d unat_cell_at pow4)
  have d3: "unat d div 2 ^ (?k + 3) = q div 4"
  proof -
    have "unat d div 2 ^ (?k + 3) = (2 * q + 1) div 2 ^ 3"
      unfolding ud by (simp only: power_add div_mult2_eq nonzero_mult_div_cancel_right
        power_not_zero zero_neq_numeral not_False_eq_True)
    then show ?thesis by simp
  qed
  have d1: "unat d mod 2 ^ (?k + 1) = 2 ^ ?k"
  proof -
    have "unat d = 2 ^ ?k + q * 2 ^ (?k + 1)" unfolding ud by (simp add: algebra_simps)
    then show ?thesis by simp
  qed
  have child_of: "\<exists>j < 4. e = cell_at l (4 * (q div 4) + j)" if "e AND ?m = d AND ?m" for e
  proof -
    let ?j = "unat e div 2 ^ (?k + 1) mod 4"
    have "unat e = q div 4 * 2 ^ (?k + 3) + ?j * 2 ^ (?k + 1) + 2 ^ ?k"
      using unat_bits3 [of "unat e" ?k] sibling_mask_agree [OF that] by (simp only: d3 d1)
    also have "\<dots> = (2 * (4 * (q div 4) + ?j) + 1) * 4 ^ (30 - l)"
      by (simp add: power_add pow4 algebra_simps)
    finally have "e = cell_at l (4 * (q div 4) + ?j)"
      unfolding cell_at_def by (metis of_nat_unat ucast_id)
    then show ?thesis by (intro exI [of _ ?j]) simp
  qed
  obtain ja jb jc jd where j: "ja < 4" "jb < 4" "jc < 4" "jd < 4"
    and e: "a = cell_at l (4 * (q div 4) + ja)" "b = cell_at l (4 * (q div 4) + jb)"
      "c = cell_at l (4 * (q div 4) + jc)" "d = cell_at l (4 * (q div 4) + jd)"
    using child_of [OF ag(1)] child_of [OF ag(2)] child_of [OF ag(3)] child_of [of d] by blast
  obtain m where m: "l = Suc m" using l0 by (cases l) auto
  have b: "q div 4 < 6 * 4 ^ m" using q by (simp add: m)
  have b4: "4 * (q div 4) + j < 7 * 4 ^ l" if "j < 4" for j
    using b that by (simp add: m)
  have lt: "cell_at l (4 * (q div 4) + i) < cell_at l (4 * (q div 4) + j) \<longleftrightarrow> i < j"
    if "i < 4" "j < 4" for i j
    using b4 [OF that(1)] b4 [OF that(2)] l
    by (simp only: word_less_nat_alt unat_cell_at mult_less_cancel2) auto
  have "ja < jb" "jb < jc" "jc < jd" using assms(5-7) j unfolding e by (simp_all only: lt)
  then have jj: "ja = 0" "jb = 1" "jc = 2" "jd = 3" using j by auto
  have "is_valid (cell_at m (q div 4))" using b l m by (intro is_valid_at) auto
  moreover have "cell_lv (cell_at m (q div 4)) < 30" using b l m by (simp add: span_at index_bound)
  moreover have "child (cell_at m (q div 4)) j = cell_at l (4 * (q div 4) + j)" for j
    using b l m by (simp add: child_at index_bound)
  ultimately show ?thesis using e jj by metis
qed

lemma AreSiblings_of_children:
  assumes "is_valid p" and "cell_lv p < 30"
  shows "AreSiblings (child p 0) (child p 1) (child p 2) (child p 3)"
proof -
  obtain m r where p: "p = cell_at m r" and m: "m \<le> 30" and r: "r < 6 * 4 ^ m" "r < 7 * 4 ^ m"
    using assms(1) by (rule cell_span_at_cases)
  have m30: "m < 30" using assms(2) m r by (simp add: p span_at)
  let ?l = "Suc m"
  let ?k = "2 * (30 - ?l) + 1"
  define base where "base = cell_at ?l (4 * r)"
  have c: "child p j = base XOR push_bit ?k (of_nat j)" if "j < 4" for j
  proof -
    have "child p j = cell_at ?l (4 * r + j)" using m30 r by (simp add: p child_at)
    also have "\<dots> = base XOR push_bit ?k (of_nat j)"
      unfolding base_def using m30 r that by (intro cell_at_xor) auto
    finally show ?thesis .
  qed
  note d = child_valid [OF assms, of 3, simplified]
  have lsbd: "lsb (child p 3) = 2 ^ (2 * (30 - ?l))"
    using m30 r by (simp add: p child_at lsb_cell_at lsb_for_level_eq)
  have nf: "\<not> is_face (child p 3)" using d by (simp add: is_face_iff)
  have x: "push_bit ?k (0 :: uint64) XOR push_bit ?k 1 XOR push_bit ?k 2 = push_bit ?k 3"
    unfolding push_bit_xor [symmetric] by simp
  have xor: "child p 0 XOR child p 1 XOR child p 2 = child p 3"
    using x by (simp add: c xor.assoc xor.left_commute)
  have m0: "push_bit 1 (lsb (child p 3)) = 2 ^ ?k" by (simp add: lsbd push_bit_eq_mult)
  have ag: "child p j AND NOT (2 ^ ?k + push_bit 1 (2 ^ ?k)) = base AND NOT (2 ^ ?k + push_bit 1 (2 ^ ?k))"
    if "j < 4" for j
    using digit_in_mask(1) [OF that, of base ?k] unfolding c [OF that] three_mask .
  show ?thesis
    unfolding AreSiblings_def Let_def m0 using xor nf ag by simp
qed


section \<open>The four children of a cell\<close>

lemma parent_child:
  assumes "is_valid p" and "cell_lv p < 30" and "k < 4"
  shows "parent (child p k) = p"
proof -
  note c = child_valid [OF assms]
  have "is_valid (parent (child p k))" "cell_lv (parent (child p k)) = cell_lv p"
    "cell_index (parent (child p k)) = cell_index p"
    using parent_valid [OF c(1)] c(2,3) assms(3) by simp_all
  then show ?thesis using cell_at_eq(1) [of "parent (child p k)"] cell_at_eq(1) [OF assms(1)] by simp
qed

lemma child_span:
  assumes "is_valid p" and "cell_lv p < 30" and "k < 4"
  shows "cell_span (child p k) = cell_span p div 4"
  using child_valid(4) [OF assms] by simp

lemma leaves_children:
  assumes "is_valid p" and "cell_lv p < 30"
  shows "leaves p = (\<Union>k\<in>{..<4}. leaves (child p k))"
proof -
  define s where "s = cell_span p div 4"
  have s: "cell_span (child p k) = s" "cell_lo (child p k) = cell_lo p + k * s"
    "cell_hi (child p k) = cell_lo p + (k + 1) * s" if "k < 4" for k
    using child_valid(5,6) [OF assms that] child_span [OF assms that] by (simp_all add: s_def)
  have hi: "cell_hi p = cell_lo p + 4 * s"
    using child_valid(4) [OF assms, of 0] child_span [OF assms, of 0] by (simp add: cell_hi_eq s_def)
  then have s0: "0 < s" using cell_lo_less_hi [of p] by simp
  have "n \<in> leaves p \<longleftrightarrow> (\<exists>k<4. n \<in> leaves (child p k))" for n
  proof
    assume n: "n \<in> leaves p"
    define d where "d = n - cell_lo p"
    have d: "n = cell_lo p + d" "d < 4 * s" using n hi by (auto simp: d_def leaves_def)
    have "d div s < 4" using d(2) s0 by (simp add: div_less_iff_less_mult)
    moreover have "d div s * s \<le> d" "d < (d div s + 1) * s"
      using s0 dividend_less_div_times [of s d] by (simp_all add: algebra_simps)
    ultimately show "\<exists>k<4. n \<in> leaves (child p k)"
      using d by (intro exI [of _ "d div s"]) (simp add: leaves_def s)
  next
    assume "\<exists>k<4. n \<in> leaves (child p k)"
    then obtain k where k: "k < 4" "n \<in> leaves (child p k)" by blast
    have "(k + 1) * s \<le> 4 * s" using k(1) by (intro mult_le_mono1) simp
    moreover have "cell_lo p + k * s \<le> n" "n < cell_lo p + (k + 1) * s"
      using k(2) unfolding leaves_def s(2,3) [OF k(1)] by simp_all
    ultimately have "cell_lo p \<le> n" "n < cell_lo p + 4 * s" by linarith+
    then show "n \<in> leaves p" using hi by (simp add: leaves_def)
  qed
  then show ?thesis by auto
qed

lemma less_4: "k < (4::nat) \<longleftrightarrow> k = 0 \<or> k = 1 \<or> k = 2 \<or> k = 3"
  by auto

lemma children_touch:
  assumes "is_valid p" and "cell_lv p < 30" and "Suc k < 4"
  shows "cell_hi (child p k) = cell_lo (child p (Suc k))"
  using child_valid(6) [OF assms(1,2), of k] child_valid(5) [OF assms(1,2), of "Suc k"]
    child_span [OF assms(1,2), of k] child_span [OF assms(1,2), of "Suc k"] assms(3)
  by simp

end
