(* ===== verification/Cell_Normalize.thy ===== *)
theory Cell_Normalize
  imports Cell_Siblings
begin

text \<open>
  Valid and normalized cell unions.  A valid union is a list of valid cells, each before the next;
  what it covers is the set \<open>cover\<close> of its leaf positions.  A normalized union also has no four
  consecutive siblings.  The lemmas: the loops \<open>IsValid\<close> and \<open>IsNormalized\<close> decide these
  properties; in a normalized union every covered cell lies inside one member, so the normal form
  of a set of leaves is unique; \<open>Normalize\<close> computes it.  Its loop invariant is \<open>stack_ok\<close>: the
  output so far, last cell first, is a normalized union.
\<close>


section \<open>Valid unions\<close>

definition wf_union :: "cell_union \<Rightarrow> bool" where
  "wf_union xs \<longleftrightarrow> (\<forall>x\<in>set xs. is_valid x) \<and> sorted_wrt (\<lambda>x y. cell_hi x \<le> cell_lo y) xs"

definition cover :: "cell_union \<Rightarrow> nat set" where
  "cover xs = (\<Union>x\<in>set xs. leaves x)"

fun sib_free :: "cellid list \<Rightarrow> bool" where
  "sib_free (d # c # b # a # st) = (\<not> AreSiblings a b c d \<and> sib_free (c # b # a # st))"
| "sib_free st = True"

lemma cover_simps [simp]:
  "cover [] = {}" "cover (x # xs) = leaves x \<union> cover xs" "cover (xs @ ys) = cover xs \<union> cover ys"
  "cover (rev xs) = cover xs" "cover (sort xs) = cover xs"
  by (auto simp: cover_def)

lemma wf_union_simps [simp]:
  "wf_union []"
  "wf_union (x # xs) \<longleftrightarrow> is_valid x \<and> (\<forall>y\<in>set xs. cell_hi x \<le> cell_lo y) \<and> wf_union xs"
  by (auto simp: wf_union_def)

lemma wf_union_append:
  "wf_union (xs @ ys) \<longleftrightarrow> wf_union xs \<and> wf_union ys \<and> (\<forall>x\<in>set xs. \<forall>y\<in>set ys. cell_hi x \<le> cell_lo y)"
  by (auto simp: wf_union_def sorted_wrt_append)

lemma wf_union_valid: "wf_union xs \<Longrightarrow> x \<in> set xs \<Longrightarrow> is_valid x"
  by (simp add: wf_union_def)

lemma transp_before: "transp (\<lambda>x y. cell_hi x \<le> cell_lo y)"
  by (rule transpI) (metis cell_lo_less_hi less_imp_le order_trans)

lemma sorted_before_iff:
  "sorted_wrt (\<lambda>x y. cell_hi x \<le> cell_lo y) xs \<longleftrightarrow>
    (\<forall>i\<in>{1..<length xs}. cell_hi (xs ! (i - 1)) \<le> cell_lo (xs ! i))"
proof -
  have "sorted_wrt (\<lambda>x y. cell_hi x \<le> cell_lo y) xs \<longleftrightarrow>
      (\<forall>i. Suc i < length xs \<longrightarrow> cell_hi (xs ! i) \<le> cell_lo (xs ! Suc i))"
    by (rule sorted_wrt_iff_nth_Suc_transp [OF transp_before])
  also have "\<dots> \<longleftrightarrow> (\<forall>i\<in>{1..<length xs}. cell_hi (xs ! (i - 1)) \<le> cell_lo (xs ! i))"
  proof (intro iffI allI ballI impI)
    fix i assume "\<forall>i. Suc i < length xs \<longrightarrow> cell_hi (xs ! i) \<le> cell_lo (xs ! Suc i)"
      and "i \<in> {1..<length xs}"
    then show "cell_hi (xs ! (i - 1)) \<le> cell_lo (xs ! i)" by (cases i) auto
  next
    fix i assume "\<forall>i\<in>{1..<length xs}. cell_hi (xs ! (i - 1)) \<le> cell_lo (xs ! i)" and "Suc i < length xs"
    then show "cell_hi (xs ! i) \<le> cell_lo (xs ! Suc i)" by force
  qed
  finally show ?thesis .
qed

lemma all_valid_nth:
  "(\<forall>x\<in>set xs. is_valid x) \<longleftrightarrow> (length xs > 0 \<longrightarrow> is_valid (xs ! 0)) \<and> (\<forall>i\<in>{1..<length xs}. is_valid (xs ! i))"
proof -
  have "i = 0 \<or> i \<in> {1..<length xs}" if "i < length xs" for i using that by auto
  then show ?thesis
    unfolding all_set_conv_all_nth by (metis atLeastLessThan_iff length_pos_if_in_set nth_mem)
qed

lemma IsValid_iff: "CU_IsValid xs \<longleftrightarrow> wf_union xs"
proof -
  have "CU_IsValid xs \<longleftrightarrow> (length xs > 0 \<longrightarrow> is_valid (xs ! 0)) \<and>
      (\<forall>i\<in>{1..<length xs}. is_valid (xs ! i) \<and> range_max (xs ! (i - 1)) < range_min (xs ! i))"
    by (auto simp: CU_IsValid_def list_all_iff not_le)
  also have "\<dots> \<longleftrightarrow> (\<forall>x\<in>set xs. is_valid x) \<and>
      (\<forall>i\<in>{1..<length xs}. range_max (xs ! (i - 1)) < range_min (xs ! i))"
    unfolding all_valid_nth by blast
  also have "\<dots> \<longleftrightarrow> (\<forall>x\<in>set xs. is_valid x) \<and>
      (\<forall>i\<in>{1..<length xs}. cell_hi (xs ! (i - 1)) \<le> cell_lo (xs ! i))"
    by (intro conj_cong refl ball_cong range_max_less_iff valid_is_cell) auto
  finally show ?thesis by (simp add: wf_union_def sorted_before_iff)
qed

lemma sib_free_Cons:
  "sib_free (d # st) \<longleftrightarrow> (3 \<le> length st \<longrightarrow> \<not> AreSiblings (st ! 2) (st ! 1) (st ! 0) d) \<and> sib_free st"
proof (cases st rule: sib_free.cases)
  case (1 d c b a st)
  then show ?thesis by (simp add: numeral_2_eq_2)
qed (auto simp: numeral_3_eq_3 numeral_2_eq_2)

lemma sib_free_rev_iff:
  "sib_free (rev xs) \<longleftrightarrow>
    (\<forall>i\<in>{1..<length xs}. i \<ge> 3 \<longrightarrow> \<not> AreSiblings (xs ! (i - 3)) (xs ! (i - 2)) (xs ! (i - 1)) (xs ! i))"
proof (induction xs rule: rev_induct)
  case (snoc x xs)
  let ?S = "\<lambda>xs i. i \<ge> 3 \<longrightarrow> \<not> AreSiblings (xs ! (i - 3)) (xs ! (i - 2)) (xs ! (i - 1)) (xs ! i)"
  let ?n = "length xs"
  have "?S (xs @ [x]) i = ?S xs i" if "i < ?n" for i
  proof -
    have "i - 3 < ?n" "i - 2 < ?n" "i - 1 < ?n" using that by linarith+
    then show ?thesis using that by (simp only: nth_append if_True)
  qed
  then have old: "(\<forall>i\<in>{1..<?n}. ?S (xs @ [x]) i) \<longleftrightarrow> sib_free (rev xs)"
    using snoc by simp
  have new: "?S (xs @ [x]) ?n \<longleftrightarrow> (3 \<le> ?n \<longrightarrow> \<not> AreSiblings (rev xs ! 2) (rev xs ! 1) (rev xs ! 0) x)"
  proof (cases "3 \<le> ?n")
    case True
    then have "rev xs ! 2 = xs ! (?n - 3)" "rev xs ! 1 = xs ! (?n - 2)" "rev xs ! 0 = xs ! (?n - 1)"
      by (simp_all only: rev_nth) (simp_all add: rev_nth numeral_2_eq_2 numeral_3_eq_3)
    moreover have "?n - 3 < ?n" "?n - 2 < ?n" "?n - 1 < ?n" using True by linarith+
    ultimately show ?thesis by (simp only: nth_append if_True) simp
  qed simp
  have "{1..<length (xs @ [x])} = {1..<?n} \<union> (if 1 \<le> ?n then {?n} else {})"
    by (auto simp: Suc_le_eq less_Suc_eq)
  then have "(\<forall>i\<in>{1..<length (xs @ [x])}. ?S (xs @ [x]) i) \<longleftrightarrow>
      (\<forall>i\<in>{1..<?n}. ?S (xs @ [x]) i) \<and> (1 \<le> ?n \<longrightarrow> ?S (xs @ [x]) ?n)" by auto
  also have "\<dots> \<longleftrightarrow> sib_free (rev xs) \<and> ?S (xs @ [x]) ?n" unfolding old by auto
  also have "\<dots> \<longleftrightarrow> sib_free (rev (xs @ [x]))"
    unfolding new by (simp add: sib_free_Cons conj_commute)
  finally show ?case by blast
qed simp

lemma IsNormalized_iff: "CU_IsNormalized xs \<longleftrightarrow> wf_union xs \<and> sib_free (rev xs)"
proof -
  have "CU_IsNormalized xs \<longleftrightarrow> CU_IsValid xs \<and> sib_free (rev xs)"
    unfolding CU_IsNormalized_def CU_IsValid_def sib_free_rev_iff list_all_iff set_upt by blast
  then show ?thesis by (simp add: IsValid_iff)
qed

section \<open>Normalized unions\<close>

lemma sib_freeD:
  "sib_free (rev (us @ a # b # c # d # vs)) \<Longrightarrow> \<not> AreSiblings a b c d"
proof (induction vs rule: rev_induct)
  case (snoc v vs)
  then show ?case by (simp add: sib_free_Cons)
qed simp

lemma children_in_union:
  assumes "wf_union xs" and "is_valid p" and "cell_lv p < 30" and "\<forall>k<4. child p k \<in> set xs"
  shows "\<exists>us vs. xs = us @ child p 0 # child p 1 # child p 2 # child p 3 # vs"
proof -
  have v: "\<forall>x\<in>set xs. is_valid x" "sorted_wrt (\<lambda>x y. cell_hi x \<le> cell_lo y) xs" "distinct xs"
    using assms(1) cells.disjoint_distinct by (auto simp: wf_union_def)
  have adj: "\<exists>us vs. xs = us @ child p k # child p (Suc k) # vs" if "Suc k < 4" for k
    using assms(4) that children_touch [OF assms(2,3) that]
    by (intro cells.touching_adjacent v) auto
  obtain u0 w0 where e0: "xs = u0 @ child p 0 # child p 1 # w0" using adj [of 0] by auto
  obtain u1 w1 where e1: "xs = u1 @ child p 1 # child p 2 # w1" using adj [of 1] by (auto simp: numeral_2_eq_2)
  obtain u2 w2 where e2: "xs = u2 @ child p 2 # child p 3 # w2" using adj [of 2] by (auto simp: numeral_3_eq_3 numeral_2_eq_2)
  have split_unique: "us' = us @ [a] \<and> zs' = zs"
    if "xs = us @ a # b # zs" and "xs = us' @ b # zs'" for us us' a b zs zs'
    using that v(3) append_Cons_eq_iff [of b "us @ [a]" zs us' zs'] by auto
  have "w0 = child p 2 # w1" using split_unique [OF e0 e1] by simp
  moreover have "w1 = child p 3 # w2" using split_unique [OF e1 e2] by simp
  ultimately show ?thesis using e0 by blast
qed

text \<open>A cell covered by a normalized union lies inside one of its members.\<close>

lemma normalized_maximal:
  assumes "wf_union xs" and "sib_free (rev xs)" and "is_valid p" and "leaves p \<subseteq> cover xs"
  shows "\<exists>c\<in>set xs. cell_contains c p"
  using assms(3,4)
proof (induction "30 - cell_lv p" arbitrary: p)
  case 0
  then have lv: "cell_lv p = 30" using cell_at_eq(2) [OF 0(2)] by simp
  then have hi: "cell_hi p = cell_lo p + 1" by (simp add: cell_hi_eq cell_span_def)
  have "cell_lo p \<in> leaves p" by (simp add: leaves_def)
  then obtain c where c: "c \<in> set xs" "cell_lo p \<in> leaves c" using 0(3) by (auto simp: cover_def)
  then have "cell_contains c p"
    using wf_union_valid [OF assms(1)] 0(2) hi by (simp add: contains_iff leaves_def)
  with c(1) show ?case by blast
next
  case (Suc n)
  then have lv: "cell_lv p < 30" by simp
  have ex: "\<exists>c\<in>set xs. cell_contains c (child p k)" if k: "k < 4" for k
  proof (rule Suc(1))
    show "n = 30 - cell_lv (child p k)" using child_valid(2) [OF Suc(3) lv k] Suc(2) by simp
    show "is_valid (child p k)" using child_valid(1) [OF Suc(3) lv k] .
    show "leaves (child p k) \<subseteq> cover xs" using leaves_children [OF Suc(3) lv] Suc(4) k by blast
  qed
  show ?case
  proof (cases "\<forall>k<4. child p k \<in> set xs")
    case True
    then obtain us vs where "xs = us @ child p 0 # child p 1 # child p 2 # child p 3 # vs"
      using children_in_union [OF assms(1) Suc(3) lv] by blast
    then show ?thesis using assms(2) sib_freeD AreSiblings_of_children [OF Suc(3) lv] by metis
  next
    case False
    then obtain k where k: "k < 4" "child p k \<notin> set xs" by blast
    then obtain c where c: "c \<in> set xs" "cell_contains c (child p k)" using ex by blast
    have vc: "is_valid (child p k)" "0 < cell_lv (child p k)" using child_valid(1,2) [OF Suc(3) lv k(1)] by auto
    have "cell_contains c (parent (child p k))"
      using strict_container(2) [OF wf_union_valid [OF assms(1) c(1)] vc(1) c(2)] k c(1) by blast
    moreover have "parent (child p k) = p" using parent_child [OF Suc(3) lv k(1)] .
    ultimately show ?thesis using c(1) by auto
  qed
qed

section \<open>Uniqueness of the normal form\<close>

lemma wf_union_sorted: "wf_union xs \<Longrightarrow> sorted_wrt (<) xs"
proof (induction xs)
  case (Cons x xs)
  have "x < y" if "y \<in> set xs" for y
  proof -
    have "cell_hi x \<le> cell_lo y" "is_valid x" "is_valid y"
      using Cons.prems that by (auto dest: wf_union_valid)
    then show ?thesis using cell_lo_less_hi [of x] cell_lo_less_hi [of y]
      by (simp add: less_iff del: cell_lo_less_hi)
  qed
  with Cons show ?case by simp
qed simp

lemma contains_antisym:
  "is_valid x \<Longrightarrow> is_valid y \<Longrightarrow> cell_contains x y \<Longrightarrow> cell_contains y x \<Longrightarrow> x = y"
  by (auto simp: contains_leaves intro: leaves_inj)

lemma contains_trans:
  "is_valid x \<Longrightarrow> is_valid y \<Longrightarrow> is_valid z \<Longrightarrow> cell_contains x y \<Longrightarrow> cell_contains y z \<Longrightarrow> cell_contains x z"
  by (auto simp: contains_leaves)

lemma member_contains_eq:
  assumes "wf_union xs" and "x \<in> set xs" and "y \<in> set xs" and "cell_contains x y"
  shows "x = y"
proof (rule cells.overlap_eq)
  have v: "is_valid x" "is_valid y" using assms by (auto dest: wf_union_valid)
  then have "cell_lo x \<le> cell_lo y" "cell_hi y \<le> cell_hi x" using assms(4) by (simp_all add: contains_iff)
  then show "cell_lo x < cell_hi y" "cell_lo y < cell_hi x"
    using cell_lo_less_hi [of x] cell_lo_less_hi [of y] by linarith+
qed (use assms in \<open>auto simp: wf_union_def\<close>)

lemma normalized_subset:
  assumes "wf_union xs" "sib_free (rev xs)" "wf_union ys" "sib_free (rev ys)" "cover xs = cover ys"
  shows "set xs \<subseteq> set ys"
proof
  fix x assume x: "x \<in> set xs"
  have v: "is_valid x" using assms(1) x by (rule wf_union_valid)
  have "leaves x \<subseteq> cover ys" using x assms(5) by (auto simp: cover_def)
  then obtain y where y: "y \<in> set ys" "cell_contains y x"
    using normalized_maximal [OF assms(3,4) v] by blast
  have vy: "is_valid y" using assms(3) y(1) by (rule wf_union_valid)
  have "leaves y \<subseteq> cover xs" using y assms(5) by (auto simp: cover_def)
  then obtain z where z: "z \<in> set xs" "cell_contains z y"
    using normalized_maximal [OF assms(1,2) vy] by blast
  have vz: "is_valid z" using assms(1) z(1) by (rule wf_union_valid)
  have "z = x"
    using member_contains_eq [OF assms(1) z(1) x] contains_trans [OF vz vy v z(2) y(2)] by blast
  then show "x \<in> set ys" using contains_antisym [OF v vy] y z by metis
qed

lemma normalized_unique:
  assumes "CU_IsNormalized xs" and "CU_IsNormalized ys" and "cover xs = cover ys"
  shows "xs = ys"
proof -
  have n: "wf_union xs" "sib_free (rev xs)" "wf_union ys" "sib_free (rev ys)"
    using assms(1,2) by (simp_all only: IsNormalized_iff)
  then have "set xs = set ys"
    using normalized_subset [OF n assms(3)] normalized_subset [OF n(3,4,1,2) assms(3) [symmetric]]
    by (intro equalityI)
  moreover have "sorted xs" "distinct xs" "sorted ys" "distinct ys"
    using wf_union_sorted [OF n(1)] wf_union_sorted [OF n(3)] by (simp_all only: strict_sorted_iff)
  ultimately show ?thesis by (intro sorted_distinct_set_unique)
qed

section \<open>Normalize\<close>

definition stack_ok :: "cellid list \<Rightarrow> bool" where
  "stack_ok st \<longleftrightarrow> wf_union (rev st) \<and> sib_free st"

lemma stack_ok_Cons:
  "stack_ok (x # st) \<longleftrightarrow> stack_ok st \<and> is_valid x \<and> (\<forall>y\<in>set st. cell_hi y \<le> cell_lo x) \<and>
    (3 \<le> length st \<longrightarrow> \<not> AreSiblings (st ! 2) (st ! 1) (st ! 0) x)"
  by (auto simp: stack_ok_def wf_union_append sib_free_Cons)

lemma disjoint_less:
  assumes "is_valid x" "is_valid y" "x \<le> y" "\<not> cell_contains x y" "\<not> cell_contains y x"
  shows "cell_hi x \<le> cell_lo y"
proof -
  have "cell_hi x \<le> cell_lo y \<or> cell_hi y \<le> cell_lo x"
    using laminar [of x y] assms(1,2,4,5) contains_iff [of x y] contains_iff [of y x] by auto
  moreover have "\<not> cell_lo y + cell_hi y < cell_lo x + cell_hi x"
    using assms(1-3) less_iff [of y x] leD [of x y] by simp
  ultimately show ?thesis
    using cell_lo_less_hi [of x] cell_lo_less_hi [of y] by linarith
qed

lemma pop_contained_spec:
  assumes "stack_ok st" and "is_valid x" and "\<forall>t\<in>set st. t \<le> x"
    and "st \<noteq> [] \<longrightarrow> \<not> cell_contains (hd st) x"
  shows "stack_ok (pop_contained x st) \<and> (\<forall>y\<in>set (pop_contained x st). cell_hi y \<le> cell_lo x) \<and>
    set (pop_contained x st) \<subseteq> set st \<and> leaves x \<union> cover (pop_contained x st) = leaves x \<union> cover st"
  using assms
proof (induction x st rule: pop_contained.induct)
  case (2 x t st)
  have t: "stack_ok st" "is_valid t" "\<forall>y\<in>set st. cell_hi y \<le> cell_lo t" "t \<le> x"
    using 2(2,4) by (auto simp: stack_ok_Cons)
  have vs: "is_valid y" if "y \<in> set st" for y using t(1) that by (auto simp: stack_ok_def dest: wf_union_valid)
  show ?case
  proof (cases "cell_contains x t")
    case True
    have "\<not> cell_contains y x" if "y \<in> set st" for y
    proof
      assume "cell_contains y x"
      then have "cell_hi t \<le> cell_hi y" "cell_hi y \<le> cell_lo t"
        using contains_trans [OF vs [OF that] 2(3) t(2)] True t that vs [OF that] by (auto simp: contains_iff)
      then show False using cell_lo_less_hi [of t] by simp
    qed
    then have "stack_ok (pop_contained x st) \<and> (\<forall>y\<in>set (pop_contained x st). cell_hi y \<le> cell_lo x) \<and>
      set (pop_contained x st) \<subseteq> set st \<and> leaves x \<union> cover (pop_contained x st) = leaves x \<union> cover st"
      using 2(1) [OF True t(1) 2(3)] 2(4) by (cases st) auto
    moreover have "leaves t \<subseteq> leaves x" using True t(2) 2(3) by (simp add: contains_leaves)
    ultimately show ?thesis using True by auto
  next
    case False
    have "cell_hi t \<le> cell_lo x" using disjoint_less [OF t(2) 2(3) t(4)] False 2(5) by simp
    moreover have "cell_hi y \<le> cell_lo x" if "y \<in> set st" for y
      using bspec [OF t(3) that] \<open>cell_hi t \<le> cell_lo x\<close> cell_lo_less_hi [of t] by linarith
    ultimately have "cell_hi y \<le> cell_lo x" if "y \<in> set (t # st)" for y
      using that by auto
    then show ?thesis using False 2(2) by simp
  qed
qed simp

lemma collapse_spec:
  assumes "stack_ok st" and "is_valid x" and "\<forall>y\<in>set st. cell_hi y \<le> cell_lo x"
  shows "stack_ok (collapse st x) \<and> cover (collapse st x) = leaves x \<union> cover st \<and>
    (\<forall>t\<in>set (collapse st x). t \<in> set st \<or> t \<le> x)"
  using assms
proof (induction st x rule: collapse.induct)
  case (1 c b a st x)
  show ?case
  proof (cases "AreSiblings a b c x")
    case False
    then show ?thesis using 1(2-4) by (auto simp: stack_ok_Cons)
  next
    case True
    have v: "is_valid a" "is_valid b" "is_valid c" "stack_ok st"
      and o: "cell_hi a \<le> cell_lo b" "cell_hi b \<le> cell_lo c" "cell_hi c \<le> cell_lo x"
      and below: "\<forall>y\<in>set st. cell_hi y \<le> cell_lo a"
      using 1(2,4) by (auto simp: stack_ok_Cons)
    have w: "wf_union [a, b, c, x]"
      using v o 1(3) cell_lo_less_hi [of b] cell_lo_less_hi [of c] by (auto simp del: cell_lo_less_hi)
    then have "a < b" "b < c" "c < x" using wf_union_sorted by fastforce+
    then obtain p where p: "is_valid p" "cell_lv p < 30"
      and c: "a = child p 0" "b = child p 1" "c = child p 2" "x = child p 3"
      using AreSiblings_children [OF v(1-3) 1(3)] True by blast
    have par: "parent x = p" using parent_child [OF p] by (simp add: c)
    have cov: "leaves p = leaves a \<union> leaves b \<union> leaves c \<union> leaves x"
      unfolding leaves_children [OF p] c by (auto simp: less_4)
    have "cell_lo p = cell_lo a" using child_valid(5) [OF p, of 0] by (simp add: c)
    then have "\<forall>y\<in>set st. cell_hi y \<le> cell_lo (parent x)" using below par by simp
    then have ih: "stack_ok (collapse st p)" "cover (collapse st p) = leaves p \<union> cover st"
      "\<forall>t\<in>set (collapse st p). t \<in> set st \<or> t \<le> p"
      using 1(1) [OF True v(4)] p par by auto
    have "cell_lo p + cell_hi p < cell_lo x + cell_hi x"
    proof -
      have "cell_lo x = cell_lo p + 3 * (cell_span p div 4)" "cell_hi x = cell_lo p + 4 * (cell_span p div 4)"
        using child_valid(5,6) [OF p, of 3] child_span [OF p, of 3] by (simp_all add: c)
      moreover have "cell_span p = 4 * (cell_span p div 4)"
        using child_valid(4) [OF p, of 3] child_span [OF p, of 3] by simp
      ultimately show ?thesis using cell_span_pos [of p] cell_hi_eq [of p] by linarith
    qed
    then have "p < x" using p 1(3) by (simp add: less_iff)
    then show ?thesis using True par ih cov by auto
  qed
qed (auto simp: stack_ok_Cons)

lemma normalize_step_spec:
  assumes "stack_ok st" and "is_valid x" and "\<forall>t\<in>set st. t \<le> x"
  shows "stack_ok (normalize_step st x) \<and> cover (normalize_step st x) = leaves x \<union> cover st \<and>
    (\<forall>t\<in>set (normalize_step st x). t \<le> x)"
proof (cases "st \<noteq> [] \<and> cell_contains (hd st) x")
  case True
  then obtain t st' where st: "st = t # st'" by (cases st) auto
  then have "leaves x \<subseteq> leaves t"
    using True assms by (simp add: contains_leaves stack_ok_Cons)
  then show ?thesis using True assms by (auto simp: st normalize_step_def)
next
  case False
  then have e: "normalize_step st x = collapse (pop_contained x st) x"
    by (cases st) (auto simp: normalize_step_def)
  have p: "stack_ok (pop_contained x st)" "\<forall>y\<in>set (pop_contained x st). cell_hi y \<le> cell_lo x"
    "set (pop_contained x st) \<subseteq> set st" "leaves x \<union> cover (pop_contained x st) = leaves x \<union> cover st"
    using pop_contained_spec [OF assms] False by auto
  show ?thesis unfolding e
    using collapse_spec [OF p(1) assms(2) p(2)] p(3,4) assms(3) by auto
qed

lemma foldl_normalize_step:
  assumes "stack_ok st" and "\<forall>x\<in>set xs. is_valid x" and "sorted xs" and "\<forall>t\<in>set st. \<forall>x\<in>set xs. t \<le> x"
  shows "stack_ok (foldl normalize_step st xs) \<and> cover (foldl normalize_step st xs) = cover st \<union> cover xs"
  using assms
proof (induction xs arbitrary: st)
  case (Cons x xs)
  have s: "stack_ok (normalize_step st x)" "cover (normalize_step st x) = leaves x \<union> cover st"
    "\<forall>t\<in>set (normalize_step st x). t \<le> x"
    using normalize_step_spec [OF Cons(2), of x] Cons(3,5) by auto
  have "\<forall>t\<in>set (normalize_step st x). \<forall>y\<in>set xs. t \<le> y" using s(3) Cons(4) by (auto intro: order_trans)
  then show ?case using Cons(1) [OF s(1)] Cons(3,4) s(2) by auto
qed simp

lemma Normalize_spec:
  assumes "\<forall>x\<in>set ids. is_valid x"
  shows "CU_IsNormalized (CU_Normalize ids)" and "cover (CU_Normalize ids) = cover ids"
  using foldl_normalize_step [of "[]" "sort ids"] assms
  by (simp_all add: CU_Normalize_def IsNormalized_iff stack_ok_def)

lemma Normalize_eq:
  assumes "\<forall>x\<in>set ids. is_valid x" and "CU_IsNormalized xs" and "cover xs = cover ids"
  shows "CU_Normalize ids = xs"
  using normalized_unique [OF Normalize_spec(1) [OF assms(1)] assms(2)] Normalize_spec(2) [OF assms(1)] assms(3) by simp

end
