(* ===== verification/Cell_Union_Search.thy ===== *)
theory Cell_Union_Search
  imports Cell_Normalize
begin

text \<open>
  Queries on cell unions.  \<open>Contains\<close> and \<open>Intersects\<close> look at one member found by binary search;
  the interpretation \<open>cells\<close> of the interval interface shows that this member decides.  The
  versions for two unions advance through both vectors.  On a normalized union \<open>Contains\<close> is
  inclusion of leaf sets; on a valid one it asks for a single member that contains the target.
\<close>


section \<open>Binary search\<close>

lemma EntirelyPrecedes_iff:
  "is_valid x \<Longrightarrow> is_valid y \<Longrightarrow> EntirelyPrecedes x y \<longleftrightarrow> cell_hi x \<le> cell_lo y"
  by (simp add: EntirelyPrecedes_def range_max_less_iff)

lemma lower_bound_precedes:
  "wf_union xs \<Longrightarrow> is_valid t \<Longrightarrow>
    lower_bound EntirelyPrecedes xs t = dropWhile (\<lambda>c. cell_hi c \<le> cell_lo t) xs"
  unfolding lower_bound_def by (rule dropWhile_cong) (auto simp: EntirelyPrecedes_iff dest: wf_union_valid)

lemma wf_union_dropWhile: "wf_union xs \<Longrightarrow> wf_union (dropWhile P xs)"
  using wf_union_append [of "takeWhile P xs" "dropWhile P xs"] by simp

lemma wf_union_takeWhile: "wf_union xs \<Longrightarrow> wf_union (takeWhile P xs)"
  using wf_union_append [of "takeWhile P xs" "dropWhile P xs"] by simp

lemma Contains_iff:
  assumes "wf_union ids" and "is_valid x"
  shows "CU_Contains ids x \<longleftrightarrow> (\<exists>c\<in>set ids. cell_contains c x)"
proof -
  have v: "\<forall>c\<in>set ids. is_valid c" and s: "sorted_wrt (\<lambda>x y. cell_hi x \<le> cell_lo y) ids"
    using assms(1) by (auto simp: wf_union_def)
  have "CU_Contains ids x \<longleftrightarrow> (case dropWhile (\<lambda>c. cell_hi c \<le> cell_lo x) ids of [] \<Rightarrow> False
      | c # cs \<Rightarrow> cell_lo c \<le> cell_lo x \<and> cell_hi x \<le> cell_hi c)"
  proof (cases "dropWhile (\<lambda>c. cell_hi c \<le> cell_lo x) ids")
    case (Cons c cs)
    then have "is_valid c" using v set_dropWhileD [of c] by (metis list.set_intros(1))
    then show ?thesis using Cons assms(2) by (simp add: CU_Contains_def lower_bound_precedes [OF assms] contains_iff)
  next
    case Nil
    then show ?thesis by (simp only: CU_Contains_def lower_bound_precedes [OF assms] list.case)
  qed
  also have "\<dots> \<longleftrightarrow> (\<exists>c\<in>set ids. cell_lo c \<le> cell_lo x \<and> cell_hi x \<le> cell_hi c)"
    by (rule cells.search_contains [OF v s assms(2)])
  also have "\<dots> \<longleftrightarrow> (\<exists>c\<in>set ids. cell_contains c x)" using v assms(2) by (simp add: contains_iff)
  finally show ?thesis .
qed

lemma Contains_cover:
  assumes "CU_IsNormalized ids" and "is_valid x"
  shows "CU_Contains ids x \<longleftrightarrow> leaves x \<subseteq> cover ids"
proof -
  have w: "wf_union ids" "sib_free (rev ids)" using assms(1) by (simp_all add: IsNormalized_iff)
  have "leaves x \<subseteq> cover ids" if "c \<in> set ids" "cell_contains c x" for c
    using that wf_union_valid [OF w(1) that(1)] assms(2) by (auto simp: cover_def contains_leaves)
  then show ?thesis using Contains_iff [OF w(1) assms(2)] normalized_maximal [OF w assms(2)] by blast
qed

lemma Intersects_iff:
  assumes "wf_union ids" and "is_valid x"
  shows "CU_Intersects ids x \<longleftrightarrow> leaves x \<inter> cover ids \<noteq> {}"
proof -
  have v: "\<forall>c\<in>set ids. is_valid c" and s: "sorted_wrt (\<lambda>x y. cell_hi x \<le> cell_lo y) ids"
    using assms(1) by (auto simp: wf_union_def)
  have "CU_Intersects ids x \<longleftrightarrow> (case dropWhile (\<lambda>c. cell_hi c \<le> cell_lo x) ids of [] \<Rightarrow> False
      | c # cs \<Rightarrow> cell_lo x < cell_hi c \<and> cell_lo c < cell_hi x)"
  proof (cases "dropWhile (\<lambda>c. cell_hi c \<le> cell_lo x) ids")
    case (Cons c cs)
    then have "is_valid c" using v set_dropWhileD [of c] by (metis list.set_intros(1))
    then show ?thesis using Cons assms(2) by (simp add: CU_Intersects_def lower_bound_precedes [OF assms] intersects_iff)
  next
    case Nil
    then show ?thesis by (simp only: CU_Intersects_def lower_bound_precedes [OF assms] list.case)
  qed
  also have "\<dots> \<longleftrightarrow> (\<exists>c\<in>set ids. cell_lo x < cell_hi c \<and> cell_lo c < cell_hi x)"
    by (rule cells.search_intersects [OF v s assms(2)])
  also have "\<dots> \<longleftrightarrow> (\<exists>c\<in>set ids. leaves c \<inter> leaves x \<noteq> {})"
    using v assms(2) by (intro bex_cong refl) (simp add: intersects_iff flip: intersects_leaves)
  also have "\<dots> \<longleftrightarrow> leaves x \<inter> cover ids \<noteq> {}" by (auto simp: cover_def)
  finally show ?thesis .
qed

section \<open>Containment and intersection of unions\<close>

lemma cover_before:
  assumes "wf_union ys" and "is_valid t" and "\<forall>y\<in>set ys. cell_lo t \<le> cell_lo y"
  shows "cover (dropWhile (\<lambda>c. cell_hi c \<le> cell_lo t) xs) \<inter> cover ys = cover xs \<inter> cover ys"
proof -
  have "leaves c \<inter> cover ys = {}" if "cell_hi c \<le> cell_lo t" for c
    using assms(3) that by (fastforce simp: cover_def leaves_def)
  then have "cover (takeWhile (\<lambda>c. cell_hi c \<le> cell_lo t) xs) \<inter> cover ys = {}"
    by (auto simp: cover_def dest!: set_takeWhileD)
  then show ?thesis
    using cover_simps(3) [of "takeWhile (\<lambda>c. cell_hi c \<le> cell_lo t) xs" "dropWhile (\<lambda>c. cell_hi c \<le> cell_lo t) xs"]
    by (simp add: Int_Un_distrib2)
qed

lemma contains_after_drop:
  assumes "wf_union xs" and "is_valid t" and "is_valid y" and "cell_lo t \<le> cell_lo y"
  shows "(\<exists>c\<in>set (dropWhile (\<lambda>c. cell_hi c \<le> cell_lo t) xs). cell_contains c y) \<longleftrightarrow>
    (\<exists>c\<in>set xs. cell_contains c y)"
proof -
  have "\<not> cell_contains c y" if "c \<in> set xs" "cell_hi c \<le> cell_lo t" for c
    using that wf_union_valid [OF assms(1) that(1)] assms(3,4) cell_lo_less_hi [of y]
    by (auto simp: contains_iff simp del: cell_lo_less_hi)
  then have "c \<in> set xs \<Longrightarrow> cell_contains c y \<Longrightarrow> c \<in> set (dropWhile (\<lambda>c. cell_hi c \<le> cell_lo t) xs)" for c
    by (metis Un_iff set_append set_takeWhileD takeWhile_dropWhile_id)
  then show ?thesis by (meson set_dropWhileD)
qed

lemma head_only_contains:
  assumes "wf_union (c # cs)" and "is_valid y" and "\<not> cell_hi c \<le> cell_lo y"
  shows "(\<exists>d\<in>set (c # cs). cell_contains d y) \<longleftrightarrow> cell_contains c y"
proof -
  have "\<not> cell_contains d y" if "d \<in> set cs" for d
  proof -
    have "cell_hi c \<le> cell_lo d" "is_valid d" using assms(1) that by (auto dest: wf_union_valid)
    then show ?thesis using assms(2,3) by (auto simp: contains_iff)
  qed
  then show ?thesis by auto
qed

lemma contains_loop_iff:
  "wf_union i \<Longrightarrow> wf_union ys \<Longrightarrow>
    contains_loop i ys \<longleftrightarrow> (\<forall>y\<in>set ys. \<exists>c\<in>set i. cell_contains c y)"
proof (induction i ys rule: contains_loop.induct)
  case (3 c cs y ys)
  have v: "is_valid c" "is_valid y" "wf_union ys" "\<forall>z\<in>set ys. is_valid z \<and> cell_lo y \<le> cell_lo z"
    using 3(2,3) cell_lo_less_hi [of y] wf_union_valid [of "y # ys"]
    by (auto simp del: cell_lo_less_hi)
  let ?i = "dropWhile (\<lambda>c. cell_hi c \<le> cell_lo y) (c # cs)"
  define i where "i = (if EntirelyPrecedes c y then lower_bound EntirelyPrecedes cs y else c # cs)"
  have i: "i = ?i" using v 3(2) by (simp add: i_def EntirelyPrecedes_iff lower_bound_precedes)
  have wi: "wf_union i" unfolding i using 3(2) by (rule wf_union_dropWhile)
  have all: "(\<exists>d\<in>set i. cell_contains d z) \<longleftrightarrow> (\<exists>d\<in>set (c # cs). cell_contains d z)"
    if "z \<in> set (y # ys)" for z
    unfolding i using that v by (intro contains_after_drop [OF 3(2)]) auto
  have "contains_loop (c # cs) (y # ys) \<longleftrightarrow>
      (case i of [] \<Rightarrow> False | d # _ \<Rightarrow> cell_contains d y \<and> contains_loop i ys)"
    by (simp add: i_def Let_def split: list.split)
  also have "\<dots> \<longleftrightarrow> (\<exists>d\<in>set i. cell_contains d y) \<and> (\<forall>z\<in>set ys. \<exists>d\<in>set i. cell_contains d z)"
  proof (cases i)
    case (Cons d ds)
    have "\<not> cell_hi d \<le> cell_lo y" using hd_dropWhile [of "\<lambda>c. cell_hi c \<le> cell_lo y" "c # cs"] unfolding i [symmetric] Cons by simp
    then have "(\<exists>e\<in>set i. cell_contains e y) \<longleftrightarrow> cell_contains d y"
      using head_only_contains [of d ds y] wi v(2) Cons by simp
    moreover have "cell_contains d y \<Longrightarrow> contains_loop i ys \<longleftrightarrow> (\<forall>z\<in>set ys. \<exists>e\<in>set i. cell_contains e z)"
      using 3(1) [OF i_def, of d ds] Cons wi v(3) by simp
    ultimately show ?thesis unfolding Cons by auto
  qed simp
  finally show ?case using all by auto
qed auto

lemma Contains_union_iff:
  "wf_union x \<Longrightarrow> wf_union y \<Longrightarrow>
    CU_Contains_union x y \<longleftrightarrow> (\<forall>d\<in>set y. \<exists>c\<in>set x. cell_contains c d)"
  using contains_loop_iff [of x y] by (cases y) (auto simp: CU_Contains_union_def)

lemma Contains_union_cover:
  assumes "CU_IsNormalized x" and "wf_union y"
  shows "CU_Contains_union x y \<longleftrightarrow> cover y \<subseteq> cover x"
proof -
  have w: "wf_union x" using assms(1) by (simp add: IsNormalized_iff)
  have "CU_Contains_union x y \<longleftrightarrow> (\<forall>d\<in>set y. CU_Contains x d)"
    using Contains_union_iff [OF w assms(2)] Contains_iff [OF w] wf_union_valid [OF assms(2)] by blast
  also have "\<dots> \<longleftrightarrow> (\<forall>d\<in>set y. leaves d \<subseteq> cover x)"
    using Contains_cover [OF assms(1)] wf_union_valid [OF assms(2)] by blast
  finally show ?thesis by (auto simp: cover_def)
qed

lemma wf_union_starts: "wf_union (d # ds) \<Longrightarrow> \<forall>y\<in>set (d # ds). cell_lo d \<le> cell_lo y"
  using cell_lo_less_hi [of d] by (auto simp del: cell_lo_less_hi)

lemma Intersects_union_iff:
  "wf_union x \<Longrightarrow> wf_union y \<Longrightarrow> CU_Intersects_union x y \<longleftrightarrow> cover x \<inter> cover y \<noteq> {}"
proof (induction x y rule: CU_Intersects_union.induct)
  case (3 c cs d ds)
  have v: "is_valid c" "is_valid d" "wf_union cs" "wf_union ds" using 3(3,4) by auto
  note lc = wf_union_starts [OF 3(3)] and ld = wf_union_starts [OF 3(4)]
  consider "cell_hi c \<le> cell_lo d" | "\<not> cell_hi c \<le> cell_lo d" "cell_hi d \<le> cell_lo c"
    | "\<not> cell_hi c \<le> cell_lo d" "\<not> cell_hi d \<le> cell_lo c" by blast
  then show ?case
  proof cases
    case 1
    have "cover (c # cs) \<inter> cover (d # ds) = cover (dropWhile (\<lambda>c. cell_hi c \<le> cell_lo d) (c # cs)) \<inter> cover (d # ds)"
      using cover_before [OF 3(4) v(2) ld] by blast
    moreover have "CU_Intersects_union (dropWhile (\<lambda>c. cell_hi c \<le> cell_lo d) cs) (d # ds) \<longleftrightarrow>
        cover (dropWhile (\<lambda>c. cell_hi c \<le> cell_lo d) cs) \<inter> cover (d # ds) \<noteq> {}"
      using 3(1) 1 v 3(4) wf_union_dropWhile [OF v(3)]
      by (simp add: EntirelyPrecedes_iff lower_bound_precedes)
    ultimately show ?thesis using 1 v by (simp add: EntirelyPrecedes_iff lower_bound_precedes)
  next
    case 2
    have "cover (c # cs) \<inter> cover (d # ds) = cover (c # cs) \<inter> cover (dropWhile (\<lambda>e. cell_hi e \<le> cell_lo c) (d # ds))"
      using cover_before [OF 3(3) v(1) lc] by blast
    moreover have "CU_Intersects_union (c # cs) (dropWhile (\<lambda>e. cell_hi e \<le> cell_lo c) ds) \<longleftrightarrow>
        cover (c # cs) \<inter> cover (dropWhile (\<lambda>e. cell_hi e \<le> cell_lo c) ds) \<noteq> {}"
      using 3(2) 2 v 3(3) wf_union_dropWhile [OF v(4)]
      by (simp add: EntirelyPrecedes_iff lower_bound_precedes)
    ultimately show ?thesis using 2 v by (simp add: EntirelyPrecedes_iff lower_bound_precedes)
  next
    case 3
    have "max (cell_lo c) (cell_lo d) \<in> leaves c \<inter> leaves d"
      using 3 cell_lo_less_hi [of c] cell_lo_less_hi [of d] by (auto simp: leaves_def simp del: cell_lo_less_hi)
    then show ?thesis using 3 v by (auto simp: EntirelyPrecedes_iff)
  qed
qed simp_all

end
