(* ===== verification/Cell_Union_Algebra.thy ===== *)
theory Cell_Union_Algebra
  imports Cell_Union_Search
begin

text \<open>
  Union, intersection and difference of cell unions compute the union, intersection and
  difference of the sets of leaves, and give normalized results on normalized inputs.  The
  recursion of \<open>GetDifferenceInternal\<close> ends because a leaf cell that meets a valid union is
  contained in it.
\<close>


section \<open>Union and intersection\<close>

lemma Union_spec:
  assumes "\<forall>c\<in>set x. is_valid c" and "\<forall>c\<in>set y. is_valid c"
  shows "CU_IsNormalized (CU_Union x y)" and "cover (CU_Union x y) = cover x \<union> cover y"
  using Normalize_spec [of "x @ y"] assms by (auto simp: CU_Union_def CU_Init_def)

lemma cover_start:
  assumes "wf_union xs" and "wf_union zs" and "cover zs \<subseteq> cover xs" and "\<forall>c\<in>set xs. a \<le> cell_lo c"
  shows "\<forall>z\<in>set zs. a \<le> cell_lo z"
proof
  fix z assume "z \<in> set zs"
  then have "cell_lo z \<in> cover xs" using assms(3) by (fastforce simp: cover_def leaves_def)
  then obtain c where "c \<in> set xs" "cell_lo c \<le> cell_lo z" by (auto simp: cover_def leaves_def)
  then show "a \<le> cell_lo z" using assms(4) by force
qed

text \<open>No four siblings appear in a union whose cells are members of, or are bounded by cells of,
  unions that are already normalized.\<close>

lemma sib_free_intro:
  assumes "wf_union zs"
    and "\<And>p. is_valid p \<Longrightarrow> cell_lv p < 30 \<Longrightarrow> \<forall>k<4. child p k \<in> set zs \<Longrightarrow> False"
  shows "sib_free (rev zs)"
proof -
  have "\<not> AreSiblings a b c d" if z: "zs = us @ a # b # c # d # vs" for us a b c d vs
  proof
    assume s: "AreSiblings a b c d"
    have w: "wf_union [a, b, c, d]" using assms(1) by (auto simp: z wf_union_append)
    then have "a < b" "b < c" "c < d" using wf_union_sorted by fastforce+
    then obtain p where "is_valid p" "cell_lv p < 30"
      "a = child p 0" "b = child p 1" "c = child p 2" "d = child p 3"
      using AreSiblings_children [of a b c d] w s by auto
    then show False using assms(2) [of p] z by (auto simp: less_4)
  qed
  then show ?thesis
  proof (induction zs rule: rev_induct)
    case (snoc x zs)
    have "sib_free (rev zs)" using snoc(2) by (intro snoc(1)) (metis append.assoc append_Cons)
    moreover have "\<not> AreSiblings (rev zs ! 2) (rev zs ! 1) (rev zs ! 0) x" if "3 \<le> length zs"
    proof -
      have "3 \<le> length (rev zs)" using that by simp
      then obtain c b a us where r: "rev zs = c # b # a # us"
        unfolding numeral_3_eq_3 Suc_le_length_iff by blast
      then have "zs = rev (c # b # a # us)" by (rule iffD1 [OF rev_swap])
      then have "zs @ [x] = rev us @ a # b # c # x # []" by simp
      with r show ?thesis using snoc(2) by (simp add: numeral_2_eq_2)
    qed
    ultimately show ?case by (simp add: sib_free_Cons)
  qed simp
qed

lemma cover_children:
  "is_valid p \<Longrightarrow> cell_lv p < 30 \<Longrightarrow> \<forall>k<4. child p k \<in> set zs \<Longrightarrow> leaves p \<subseteq> cover zs"
  using leaves_children by (auto simp: cover_def)

lemma child_not_contains_parent:
  "is_valid p \<Longrightarrow> cell_lv p < 30 \<Longrightarrow> k < 4 \<Longrightarrow> \<not> cell_contains (child p k) p"
  using child_valid(1,2) [of p k] contains_parent_at [of "child p k" p] by simp

lemma contains_child:
  assumes "is_valid p" and "cell_lv p < 30" and "k < 4"
  shows "cell_contains p (child p k)"
  using leaves_children [OF assms(1,2)] assms(3) child_valid(1) [OF assms] assms(1)
  by (auto simp: contains_leaves)

lemma normalized_no_family:
  assumes "CU_IsNormalized xs" and "is_valid p" and "cell_lv p < 30" and "k < 4"
    and "child p k \<in> set xs" and "leaves p \<subseteq> cover xs"
  shows False
proof -
  have w: "wf_union xs" "sib_free (rev xs)" using assms(1) by (simp_all add: IsNormalized_iff)
  obtain c where c: "c \<in> set xs" "cell_contains c p" using normalized_maximal [OF w assms(2,6)] by blast
  have "cell_contains c (child p k)"
    using contains_trans [OF wf_union_valid [OF w(1) c(1)] assms(2) child_valid(1) [OF assms(2-4)] c(2)]
      contains_child [OF assms(2-4)] by blast
  then have "c = child p k" using member_contains_eq [OF w(1) c(1) assms(5)] by blast
  then show False using c(2) child_not_contains_parent [OF assms(2-4)] by simp
qed

lemma range_min_less_iff:
  "is_valid x \<Longrightarrow> is_valid y \<Longrightarrow> range_min x < range_min y \<longleftrightarrow> cell_lo x < cell_lo y"
  by (simp add: word_less_nat_alt unat_range_min)

lemma le_range_max_iff:
  assumes "is_valid x" and "is_valid y" and "cell_lo y < cell_lo x"
  shows "x \<le> range_max y \<longleftrightarrow> cell_lo x < cell_hi y"
    and "\<not> cell_lo x < cell_hi y \<longleftrightarrow> cell_hi y \<le> cell_lo x"
    and "cell_lo x < cell_hi y \<Longrightarrow> leaves x \<subseteq> leaves y"
proof -
  have "x \<le> range_max y \<longleftrightarrow> cell_lo x + cell_hi x \<le> 2 * cell_hi y - 1"
    using assms by (simp add: word_le_nat_alt unat_range_max unat_cell)
  then show "x \<le> range_max y \<longleftrightarrow> cell_lo x < cell_hi y"
    using laminar [OF valid_is_cell [OF assms(1)] valid_is_cell [OF assms(2)]] assms(3)
      cell_lo_less_hi [of x] cell_lo_less_hi [of y] by linarith
  show "\<not> cell_lo x < cell_hi y \<longleftrightarrow> cell_hi y \<le> cell_lo x" by auto
  show "cell_lo x < cell_hi y \<Longrightarrow> leaves x \<subseteq> leaves y"
    using laminar [of x y] assms by (auto simp: leaves_def)
qed

lemma disjoint_if_before: "cell_hi x \<le> cell_lo y \<Longrightarrow> leaves x \<inter> leaves y = {}"
  by (auto simp: leaves_def)

definition intersection_ok :: "cell_union \<Rightarrow> cell_union \<Rightarrow> cell_union \<Rightarrow> bool" where
  "intersection_ok x y zs \<longleftrightarrow> wf_union zs \<and> set zs \<subseteq> set x \<union> set y \<and> cover zs = cover x \<inter> cover y"

lemma intersection_ok_sym: "intersection_ok x y zs \<longleftrightarrow> intersection_ok y x zs"
  by (auto simp: intersection_ok_def)

lemma intersection_ok_take:
  assumes "wf_union (i # is)" and "wf_union ys" and "leaves i \<subseteq> cover ys"
    and "intersection_ok is ys zs"
  shows "intersection_ok (i # is) ys (i # zs)"
proof -
  have "\<forall>z\<in>set zs. cell_hi i \<le> cell_lo z"
    using assms(1,4) by (intro cover_start [of "is" zs]) (auto simp: intersection_ok_def)
  then show ?thesis using assms by (auto simp: intersection_ok_def)
qed

lemma intersection_ok_skip:
  assumes "wf_union (i # is)" and "wf_union ys" and "is_valid t"
    and "\<forall>y\<in>set ys. cell_lo t \<le> cell_lo y" and "cell_hi i \<le> cell_lo t"
    and "intersection_ok (dropWhile (\<lambda>c. cell_hi c \<le> cell_lo t) is) ys zs"
  shows "intersection_ok (i # is) ys zs"
  using cover_before [OF assms(2-4), of "i # is"] assms(5,6) set_dropWhileD
  by (fastforce simp: intersection_ok_def)

lemma GetIntersection_step:
  assumes "wf_union (i # is)" and "wf_union (j # js)" and "cell_lo j < cell_lo i"
    and "i \<le> range_max j \<Longrightarrow> intersection_ok is (j # js) r1"
    and "\<not> i \<le> range_max j \<Longrightarrow> intersection_ok (i # is) (lower_bound EntirelyPrecedes js i) r2"
  shows "intersection_ok (i # is) (j # js) (if i \<le> range_max j then i # r1 else r2)"
proof -
  have v: "is_valid i" "is_valid j" "wf_union js" using assms(1,2) by auto
  note r = le_range_max_iff [OF v(1,2) assms(3)]
  show ?thesis
  proof (cases "cell_lo i < cell_hi j")
    case True
    then have "leaves i \<subseteq> cover (j # js)" using r(3) by auto
    then show ?thesis using True r(1) intersection_ok_take [OF assms(1,2)] assms(4) by simp
  next
    case False
    then have h: "cell_hi j \<le> cell_lo i" using r(2) by simp
    have "intersection_ok (j # js) (i # is) r2"
      using assms(5) False r(1) lower_bound_precedes [OF v(3,1)]
      by (intro intersection_ok_skip [OF assms(2,1) v(1) wf_union_starts [OF assms(1)] h])
        (simp add: intersection_ok_sym)
    then show ?thesis using False r(1) by (simp add: intersection_ok_sym)
  qed
qed

lemma wf_union_lower_bound:
  "wf_union xs \<Longrightarrow> wf_union (lower_bound p xs v)"
  by (simp add: lower_bound_def wf_union_dropWhile)

lemma GetIntersection_spec:
  "wf_union x \<Longrightarrow> wf_union y \<Longrightarrow> intersection_ok x y (CU_GetIntersection x y)"
proof (induction x y rule: CU_GetIntersection.induct)
  case (1 y)
  then show ?case by (simp add: intersection_ok_def)
next
  case (2 i "is")
  then show ?case by (simp add: intersection_ok_def)
next
  case (3 i "is" j js)
  have v: "is_valid i" "is_valid j" "wf_union is" "wf_union js" using 3(7,8) by auto
  have lt: "range_min j < range_min i \<longleftrightarrow> cell_lo j < cell_lo i"
    "range_min i < range_min j \<longleftrightarrow> cell_lo i < cell_lo j"
    using v by (simp_all add: range_min_less_iff)
  consider "cell_lo j < cell_lo i" | "cell_lo i < cell_lo j" | "cell_lo i = cell_lo j" by linarith
  then show ?case
  proof cases
    case 1
    have "intersection_ok (i # is) (j # js)
      (if i \<le> range_max j then i # CU_GetIntersection is (j # js)
       else CU_GetIntersection (i # is) (lower_bound EntirelyPrecedes js i))"
      using 3(1,2) [OF refl refl] 1 lt v 3(7,8) wf_union_lower_bound [OF v(4), of EntirelyPrecedes i]
      by (intro GetIntersection_step [OF 3(7,8) 1]) simp_all
    then show ?thesis using 1 by (simp add: Let_def lt)
  next
    case 2
    have "intersection_ok (j # js) (i # is)
      (if j \<le> range_max i then j # CU_GetIntersection (i # is) js
       else CU_GetIntersection (lower_bound EntirelyPrecedes is j) (j # js))"
      using 3(3,4) [OF refl refl] 2 lt v 3(7,8) wf_union_lower_bound [OF v(3), of EntirelyPrecedes j]
      by (intro GetIntersection_step [OF 3(8,7) 2]) (simp_all add: intersection_ok_sym)
    then have "intersection_ok (i # is) (j # js)
      (if j \<le> range_max i then j # CU_GetIntersection (i # is) js
       else CU_GetIntersection (lower_bound EntirelyPrecedes is j) (j # js))"
      by (simp only: intersection_ok_sym)
    then show ?thesis using 2 by (simp add: Let_def lt)
  next
    case 3
    note eq = this
    show ?thesis
    proof (cases "i < j")
      case True
      then have "leaves i \<subseteq> cover (j # js)" using v eq by (auto simp: less_iff leaves_def)
      then have "intersection_ok (i # is) (j # js) (i # CU_GetIntersection is (j # js))"
        using \<open>wf_union (i # is)\<close> \<open>wf_union (j # js)\<close> "3.IH"(5) [OF refl refl] eq lt v True
        by (intro intersection_ok_take) simp_all
      then show ?thesis using eq True by (simp add: Let_def lt)
    next
      case False
      then have "leaves j \<subseteq> cover (i # is)" using v eq by (auto simp: less_iff leaves_def)
      then have "intersection_ok (j # js) (i # is) (j # CU_GetIntersection (i # is) js)"
        using \<open>wf_union (i # is)\<close> \<open>wf_union (j # js)\<close> "3.IH"(6) [OF refl refl] eq lt v False
        by (intro intersection_ok_take) (simp_all add: intersection_ok_sym)
      then have "intersection_ok (i # is) (j # js) (j # CU_GetIntersection (i # is) js)"
        by (simp only: intersection_ok_sym)
      then show ?thesis using eq False by (simp add: Let_def lt)
    qed
  qed
qed

lemma Intersection_spec:
  assumes "CU_IsNormalized x" and "CU_IsNormalized y"
  shows "CU_IsNormalized (CU_Intersection x y)" and "cover (CU_Intersection x y) = cover x \<inter> cover y"
proof -
  let ?z = "CU_Intersection x y"
  have w: "wf_union x" "wf_union y" using assms by (simp_all add: IsNormalized_iff)
  have ok: "wf_union ?z" "set ?z \<subseteq> set x \<union> set y" "cover ?z = cover x \<inter> cover y"
    using GetIntersection_spec [OF w] by (simp_all add: intersection_ok_def CU_Intersection_def)
  have "sib_free (rev ?z)"
  proof (rule sib_free_intro [OF ok(1)])
    fix p assume p: "is_valid p" "cell_lv p < 30" "\<forall>k<4. child p k \<in> set ?z"
    have "leaves p \<subseteq> cover x" "leaves p \<subseteq> cover y" using cover_children [OF p] ok(3) by auto
    moreover have "child p 0 \<in> set ?z" using p(3) by simp
    then have "child p 0 \<in> set x \<or> child p 0 \<in> set y" using ok(2) by blast
    ultimately show False
      using normalized_no_family [OF assms(1) p(1,2), of 0] normalized_no_family [OF assms(2) p(1,2), of 0] by auto
  qed
  then show "CU_IsNormalized ?z" using ok(1) by (simp add: IsNormalized_iff)
  show "cover ?z = cover x \<inter> cover y" by (rule ok(3))
qed


section \<open>Intersection with one cell\<close>

lemma take_drop_filter:
  fixes xs :: "'a::linorder list"
  assumes "sorted xs"
  shows "takeWhile (\<lambda>c. c \<le> b) (dropWhile (\<lambda>c. c < a) xs) = filter (\<lambda>c. a \<le> c \<and> c \<le> b) xs"
  using assms
proof (induction xs)
  case (Cons x xs)
  have "takeWhile (\<lambda>c. c \<le> b) ys = filter (\<lambda>c. a \<le> c \<and> c \<le> b) ys" if "sorted ys" "\<forall>y\<in>set ys. a \<le> y" for ys
    using that
  proof (induction ys)
    case (Cons y ys)
    have "filter (\<lambda>c. a \<le> c \<and> c \<le> b) ys = []" if "\<not> y \<le> b"
      using Cons.prems that by (auto simp: filter_empty_conv)
    then show ?case using Cons by auto
  qed simp
  note below = this [of "x # xs"]
  show ?case
  proof (cases "x < a")
    case True
    then show ?thesis using Cons by simp
  next
    case False
    then show ?thesis using below Cons.prems by force
  qed
qed simp

lemma Intersection_id_filter:
  assumes "wf_union ids" and "\<not> CU_Contains ids x"
  shows "CU_Intersection_id ids x = filter (cell_contains x) ids"
proof -
  have "sorted ids" using wf_union_sorted [OF assms(1)] by (simp add: strict_sorted_iff)
  then have "takeWhile (\<lambda>c. c \<le> range_max x) (dropWhile (\<lambda>c. c < range_min x) ids) =
      filter (\<lambda>c. range_min x \<le> c \<and> c \<le> range_max x) ids"
    by (rule take_drop_filter)
  then show ?thesis using assms(2)
    by (simp add: CU_Intersection_id_def lower_bound_def cell_contains_def [abs_def])
qed

lemma wf_union_filter: "wf_union xs \<Longrightarrow> wf_union (filter P xs)"
  by (simp add: wf_union_def sorted_wrt_filter)

lemma Intersection_id_spec:
  assumes "wf_union ids" and "is_valid x"
  shows "wf_union (CU_Intersection_id ids x)" and "cover (CU_Intersection_id ids x) = cover ids \<inter> leaves x"
    and "CU_IsNormalized ids \<Longrightarrow> CU_IsNormalized (CU_Intersection_id ids x)"
proof -
  let ?z = "CU_Intersection_id ids x"
  have c: "cover ?z = cover ids \<inter> leaves x \<and> wf_union ?z \<and> (set ?z \<subseteq> set ids \<or> ?z = [x])"
  proof (cases "CU_Contains ids x")
    case True
    then obtain c where "c \<in> set ids" "cell_contains c x" using Contains_iff [OF assms] by blast
    then have "leaves x \<subseteq> cover ids"
      using assms wf_union_valid by (fastforce simp: cover_def contains_leaves)
    then show ?thesis using True assms(2) by (auto simp: CU_Intersection_id_def)
  next
    case False
    have e: "?z = filter (cell_contains x) ids" by (rule Intersection_id_filter [OF assms(1) False])
    have "leaves c \<inter> leaves x = (if cell_contains x c then leaves c else {})" if c: "c \<in> set ids" for c
    proof -
      have v: "is_valid c" using wf_union_valid [OF assms(1) c] .
      have "\<not> cell_contains c x" using False Contains_iff [OF assms] c by blast
      then show ?thesis
        using laminar [OF valid_is_cell [OF v] valid_is_cell [OF assms(2)]] v assms(2)
        by (auto simp: contains_iff leaves_def)
    qed
    then have "(\<Union>c\<in>set ids. leaves c \<inter> leaves x) = (\<Union>c\<in>set ids. if cell_contains x c then leaves c else {})"
      by (intro SUP_cong refl)
    also have "\<dots> = cover ?z" by (auto simp: e cover_def split: if_splits)
    finally have "cover ?z = cover ids \<inter> leaves x" by (auto simp: cover_def)
    then show ?thesis using e wf_union_filter [OF assms(1)] by auto
  qed
  then show "wf_union ?z" "cover ?z = cover ids \<inter> leaves x" by auto
  assume n: "CU_IsNormalized ids"
  have "sib_free (rev ?z)"
  proof (cases "?z = [x]")
    case False
    show ?thesis
    proof (rule sib_free_intro)
      fix p assume p: "is_valid p" "cell_lv p < 30" "\<forall>k<4. child p k \<in> set ?z"
      have "leaves p \<subseteq> cover ids" using cover_children [OF p] c by auto
      moreover have "child p 0 \<in> set ?z" using p(3) by simp
      then have "child p 0 \<in> set ids" using c False by blast
      ultimately show False using normalized_no_family [OF n p(1,2), of 0] by simp
    qed (use c in blast)
  qed simp
  then show "CU_IsNormalized ?z" using c by (simp add: IsNormalized_iff)
qed

section \<open>Difference\<close>

lemma child_begin_child: "is_valid x \<Longrightarrow> cell_lv x < 30 \<Longrightarrow> child_begin x = child x 0"
  by (elim cell_span_at_cases) (simp add: child_begin_at' child_at span_at)

lemma next_child:
  assumes "is_valid x" and "cell_lv x < 30" and "Suc k < 4"
  shows "cell_next (child x k) = child x (Suc k)"
proof -
  obtain l q where x: "x = cell_at l q" and l: "l \<le> 30" and q: "q < 6 * 4 ^ l" "q < 7 * 4 ^ l"
    using assms(1) by (rule cell_span_at_cases)
  have l30: "l < 30" using assms(2) l q by (simp add: x span_at)
  have "4 * q + k < 7 * 4 ^ Suc l" using q assms(3) by simp
  then show ?thesis using l30 q by (simp add: x child_at cell_next_at)
qed

lemma children_list:
  assumes "is_valid x" and "cell_lv x < 30"
  shows "wf_union [child x 0, child x 1, child x 2, child x 3]"
    and "cover [child x 0, child x 1, child x 2, child x 3] = leaves x"
proof -
  have t: "cell_hi (child x 0) = cell_lo (child x 1)" "cell_hi (child x 1) = cell_lo (child x 2)"
    "cell_hi (child x 2) = cell_lo (child x 3)"
    using children_touch [OF assms, of 0] children_touch [OF assms, of 1] children_touch [OF assms, of 2]
    by (simp_all add: numeral_2_eq_2 numeral_3_eq_3)
  then show "wf_union [child x 0, child x 1, child x 2, child x 3]"
    using child_valid(1) [OF assms] cell_lo_less_hi [of "child x 1"] cell_lo_less_hi [of "child x 2"]
    by (auto simp del: cell_lo_less_hi)
  show "cover [child x 0, child x 1, child x 2, child x 3] = leaves x"
    unfolding leaves_children [OF assms] by (auto simp: cover_def less_4)
qed

lemma cover_inside:
  assumes "wf_union zs" and "cover zs \<subseteq> leaves x" and "z \<in> set zs"
  shows "cell_lo x \<le> cell_lo z" and "cell_hi z \<le> cell_hi x"
proof -
  have "leaves z \<subseteq> leaves x" using assms(2,3) by (auto simp: cover_def)
  then show "cell_lo x \<le> cell_lo z" "cell_hi z \<le> cell_hi x"
    using cell_lo_less_hi [of z] by (simp_all add: leaves_def del: cell_lo_less_hi)
qed

text \<open>The cells that \<open>GetDifferenceInternal\<close> appends for \<open>x\<close>: they cover \<open>x\<close> minus the union \<open>y\<close>,
  and each is \<open>x\<close> itself or has a parent that meets \<open>y\<close>.\<close>

definition diff_cell :: "cell_union \<Rightarrow> cellid \<Rightarrow> cell_union \<Rightarrow> bool" where
  "diff_cell y x zs \<longleftrightarrow> wf_union zs \<and> cover zs = leaves x - cover y \<and>
     (\<forall>z\<in>set zs. z = x \<or> leaves (parent z) \<inter> cover y \<noteq> {})"

lemma difference_loop_spec:
  assumes "wf_union xs"
    and "\<forall>x\<in>set xs. \<forall>out. \<exists>zs. GetDifferenceInternal y x out = Some (out @ zs) \<and> diff_cell y x zs"
  shows "\<exists>zs. difference_loop xs y out = Some (out @ zs) \<and> wf_union zs \<and> cover zs = cover xs - cover y \<and>
    (\<forall>z\<in>set zs. z \<in> set xs \<or> leaves (parent z) \<inter> cover y \<noteq> {})"
  using assms
proof (induction xs arbitrary: out)
  case (Cons x xs)
  obtain us where us: "GetDifferenceInternal y x out = Some (out @ us)" "diff_cell y x us"
    using Cons.prems(2) by (metis list.set_intros(1))
  obtain vs where vs: "difference_loop xs y (out @ us) = Some ((out @ us) @ vs)" "wf_union vs"
    "cover vs = cover xs - cover y" "\<forall>z\<in>set vs. z \<in> set xs \<or> leaves (parent z) \<inter> cover y \<noteq> {}"
    using Cons.IH [of "out @ us"] Cons.prems by auto
  have u: "wf_union us" "cover us = leaves x - cover y" using us(2) by (auto simp: diff_cell_def)
  have "cell_hi a \<le> cell_lo b" if a: "a \<in> set us" and b: "b \<in> set vs" for a b
  proof -
    have "cell_hi a \<le> cell_hi x" using cover_inside(2) [OF u(1) _ a, of x] u(2) by auto
    also have "\<dots> \<le> cell_lo b"
      using cover_start [OF _ vs(2), of xs "cell_hi x"] vs(3) Cons.prems(1) b by auto
    finally show ?thesis .
  qed
  then have "wf_union (us @ vs)" using u(1) vs(2) by (auto simp: wf_union_append)
  moreover have "cover (us @ vs) = cover (x # xs) - cover y" using u(2) vs(3) by auto
  ultimately show ?case
    using us vs by (intro exI [of _ "us @ vs"]) (auto simp: diff_cell_def)
qed simp

lemma GetDifferenceInternal_children:
  assumes "is_valid x" and "cell_lv x < 30" and "CU_Intersects y x" and "\<not> CU_Contains y x"
  shows "GetDifferenceInternal y x out = difference_loop [child x 0, child x 1, child x 2, child x 3] y out"
proof -
  have n: "cell_next (child x 0) = child x 1" "cell_next (child x 1) = child x 2"
    "cell_next (child x 2) = child x 3"
    using next_child [OF assms(1,2), of 0] next_child [OF assms(1,2), of 1] next_child [OF assms(1,2), of 2]
    by (simp_all add: numeral_2_eq_2 numeral_3_eq_3)
  have d: "difference_loop [] y = Some"
    "difference_loop (x # xs) y = (\<lambda>out. Option.bind (GetDifferenceInternal y x out) (difference_loop xs y))"
    for x xs by (simp_all add: fun_eq_iff)
  show ?thesis
    using assms(3,4) child_begin_child [OF assms(1,2)] n
    by (subst GetDifferenceInternal.simps) (simp add: Let_def d del: difference_loop.simps)
qed

lemma leaf_intersects_contains:
  assumes "wf_union y" and "is_valid x" and "cell_lv x = 30" and "CU_Intersects y x"
  shows "CU_Contains y x"
proof -
  have "cell_hi x = cell_lo x + 1" using assms(3) by (simp add: cell_hi_eq cell_span_def)
  moreover obtain c where c: "c \<in> set y" "leaves x \<inter> leaves c \<noteq> {}"
    using Intersects_iff [OF assms(1,2)] assms(4) by (auto simp: cover_def)
  ultimately have "leaves x \<subseteq> leaves c" by (auto simp: leaves_def)
  then show ?thesis
    using Contains_iff [OF assms(1,2)] c(1) contains_leaves [of c x] wf_union_valid [OF assms(1) c(1)] assms(2)
    by auto
qed

lemma GetDifferenceInternal_spec:
  assumes "wf_union y" and "is_valid x"
  shows "\<exists>zs. GetDifferenceInternal y x out = Some (out @ zs) \<and> diff_cell y x zs"
  using assms(2)
proof (induction "30 - cell_lv x" arbitrary: x out)
  have stop: "\<exists>zs. GetDifferenceInternal y x out = Some (out @ zs) \<and> diff_cell y x zs"
    if v: "is_valid x" and s: "\<not> CU_Intersects y x \<or> CU_Contains y x" for x out
  proof (cases "CU_Intersects y x")
    case False
    then have "diff_cell y x [x]"
      using Intersects_iff [OF assms(1) v] v by (auto simp: diff_cell_def)
    then show ?thesis using False
      by (intro exI [of _ "[x]"]) (subst GetDifferenceInternal.simps, simp)
  next
    case True
    then have c: "CU_Contains y x" using s by blast
    then obtain c where "c \<in> set y" "cell_contains c x" using Contains_iff [OF assms(1) v] by blast
    then have "leaves x \<subseteq> cover y" using wf_union_valid [OF assms(1)] v by (fastforce simp: cover_def contains_leaves)
    then have "diff_cell y x []" by (auto simp: diff_cell_def)
    then show ?thesis using True c
      by (intro exI [of _ "[]"]) (subst GetDifferenceInternal.simps, simp)
  qed
  {
    case 0
    then have "cell_lv x = 30" using cell_at_eq(2) [of x] by simp
    then show ?case using stop leaf_intersects_contains [OF assms(1)] 0 by blast
  next
    case (Suc n)
    then have lv: "cell_lv x < 30" by simp
    show ?case
    proof (cases "\<not> CU_Intersects y x \<or> CU_Contains y x")
      case True
      then show ?thesis using stop [OF Suc(3)] by blast
    next
      case False
      let ?cs = "[child x 0, child x 1, child x 2, child x 3]"
      note c = child_valid(1,2) [OF Suc(3) lv]
      have "\<exists>zs. GetDifferenceInternal y (child x k) out = Some (out @ zs) \<and> diff_cell y (child x k) zs"
        if "k < 4" for k out
        using Suc(1) [of "child x k" out] c [OF that] Suc(2) by simp
      then have ih: "\<forall>z\<in>set ?cs. \<forall>out. \<exists>zs. GetDifferenceInternal y z out = Some (out @ zs) \<and> diff_cell y z zs"
        by simp
      obtain zs where zs: "difference_loop ?cs y out = Some (out @ zs)" "wf_union zs"
        "cover zs = cover ?cs - cover y" "\<forall>z\<in>set zs. z \<in> set ?cs \<or> leaves (parent z) \<inter> cover y \<noteq> {}"
        using difference_loop_spec [OF children_list(1) [OF Suc(3) lv] ih] by blast
      have par: "parent z = x" if "z \<in> set ?cs" for z
        using that parent_child [OF Suc(3) lv] by auto
      have "leaves x \<inter> cover y \<noteq> {}" using False Intersects_iff [OF assms(1) Suc(3)] by blast
      then have "diff_cell y x zs"
        unfolding diff_cell_def using zs(2,3,4) children_list(2) [OF Suc(3) lv] par by metis
      then show ?thesis
        using zs(1) GetDifferenceInternal_children [OF Suc(3) lv] False by auto
    qed
  }
qed

lemma Difference_spec:
  assumes "wf_union x" and "wf_union y"
  obtains zs where "CU_Difference x y = Some zs" and "wf_union zs" and "cover zs = cover x - cover y"
    and "CU_IsNormalized x \<Longrightarrow> CU_IsNormalized zs"
proof -
  have "\<forall>c\<in>set x. \<forall>out. \<exists>zs. GetDifferenceInternal y c out = Some (out @ zs) \<and> diff_cell y c zs"
    using GetDifferenceInternal_spec [OF assms(2)] wf_union_valid [OF assms(1)] by blast
  from difference_loop_spec [OF assms(1) this, of "[]"]
  obtain zs where zs: "CU_Difference x y = Some zs" "wf_union zs" "cover zs = cover x - cover y"
    "\<forall>z\<in>set zs. z \<in> set x \<or> leaves (parent z) \<inter> cover y \<noteq> {}"
    by (auto simp: CU_Difference_def)
  have "CU_IsNormalized zs" if n: "CU_IsNormalized x"
  proof -
    have "sib_free (rev zs)"
    proof (rule sib_free_intro [OF zs(2)])
      fix p assume p: "is_valid p" "cell_lv p < 30" "\<forall>k<4. child p k \<in> set zs"
      have l: "leaves p \<subseteq> cover zs" using cover_children [OF p] .
      have "child p 0 \<in> set zs" "parent (child p 0) = p" using p parent_child [OF p(1,2)] by simp_all
      then have "child p 0 \<in> set x" using zs(3,4) l by force
      then show False using normalized_no_family [OF n p(1,2), of 0] l zs(3) by auto
    qed
    then show ?thesis using zs(2) by (simp add: IsNormalized_iff)
  qed
  then show ?thesis using that zs by blast
qed

end
