(* ===== verification/Cell_Union_Ranges.thy ===== *)
theory Cell_Union_Ranges
  imports Cell_Union_Algebra
begin

text \<open>
  Conversions of cell unions: \<open>Denormalize\<close> replaces each cell by its descendants at the next
  admissible level, \<open>FromBeginEnd\<close> tiles an interval of leaves with the largest cells possible,
  \<open>LeafCellsCovered\<close> counts leaves, \<open>WholeSphere\<close> is the normal form of the six faces.
\<close>


section \<open>Runs of cells of one level\<close>

lemma cell_at_inj:
  assumes "l \<le> 30" "q < 7 * 4 ^ l" "r < 7 * 4 ^ l"
  shows "cell_at l q = cell_at l r \<longleftrightarrow> q = r"
  using span_at(3) [OF assms(1,2)] span_at(3) [OF assms(1,3)] by metis

lemma push_range_at:
  assumes "l \<le> 30" and "b \<le> e" and "e < 7 * 4 ^ l"
  shows "push_range (cell_at l e) (cell_at l b) out = Some (out @ map (cell_at l) [b..<e])"
  using assms(2)
proof (induction "e - b" arbitrary: b out)
  case 0
  then show ?case by (subst push_range.simps) simp
next
  case (Suc n)
  then have b: "b < e" "b < 7 * 4 ^ l" using assms(3) by auto
  have "cell_at l b \<noteq> cell_at l e" using cell_at_inj [OF assms(1) b(2) assms(3)] b(1) by simp
  moreover have "push_range (cell_at l e) (cell_at l (Suc b)) (out @ [cell_at l b])
      = Some ((out @ [cell_at l b]) @ map (cell_at l) [Suc b..<e])"
    using Suc b(1) by simp
  ultimately show ?case
    using b assms(1) by (subst push_range.simps) (simp add: cell_next_at upt_conv_Cons)
qed

lemma level_run:
  assumes "l \<le> 30" and "b \<le> 6 * 4 ^ l" and "a \<le> b"
  shows "wf_union (map (cell_at l) [a..<b])"
    and "cover (map (cell_at l) [a..<b]) = {a * 4 ^ (30 - l)..<b * 4 ^ (30 - l)}"
proof -
  have "wf_union (map (cell_at l) [a..<b]) \<and>
      cover (map (cell_at l) [a..<b]) = {a * 4 ^ (30 - l)..<b * 4 ^ (30 - l)}"
    using assms(3,2)
  proof (induction b rule: dec_induct)
    case (step n)
    let ?s = "(4::nat) ^ (30 - l)"
    have n: "n < 6 * 4 ^ l" "n < 7 * 4 ^ l" using step.prems by auto
    have ih: "wf_union (map (cell_at l) [a..<n])"
      "cover (map (cell_at l) [a..<n]) = {a * ?s..<n * ?s}"
      using step by auto
    have lf: "leaves (cell_at l n) = {n * ?s..<(n + 1) * ?s}"
      using assms(1) n by (simp add: leaves_def span_at)
    have "cell_hi (cell_at l i) \<le> cell_lo (cell_at l n)" if "i < n" for i
    proof -
      have "(i + 1) * ?s \<le> n * ?s" using that by (intro mult_le_mono1) simp
      then show ?thesis using that n assms(1) by (simp add: span_at)
    qed
    then have "wf_union (map (cell_at l) [a..<Suc n])"
      using ih(1) step.hyps n(1) assms(1) by (auto simp: wf_union_append is_valid_at)
    moreover have "{a * ?s..<n * ?s} \<union> {n * ?s..<(n + 1) * ?s} = {a * ?s..<(n + 1) * ?s}"
      using step.hyps by (intro ivl_disj_un_two(3) mult_le_mono1) auto
    ultimately show ?case using ih(2) step.hyps lf by (simp add: Un_commute)
  qed simp
  then show "wf_union (map (cell_at l) [a..<b])"
    "cover (map (cell_at l) [a..<b]) = {a * 4 ^ (30 - l)..<b * 4 ^ (30 - l)}" by auto
qed

section \<open>Denormalize\<close>

definition denorm_ok :: "int \<Rightarrow> int \<Rightarrow> int \<Rightarrow> bool" where
  "denorm_ok m k d \<longleftrightarrow> m \<le> d \<and> d \<le> 30 \<and> (d = 30 \<or> (d - m) mod k = 0)"

lemma denorm_level_spec:
  assumes "0 \<le> m" "m \<le> 30" "1 \<le> k" "k \<le> 3" "0 \<le> l" "l \<le> 30"
  shows "l \<le> denorm_level m k l" and "denorm_ok m k (denorm_level m k l)"
    and "l \<le> d \<Longrightarrow> denorm_ok m k d \<Longrightarrow> denorm_level m k l \<le> d"
proof -
  define n where "n = max m l"
  have n: "m \<le> n" "l \<le> n" "n \<le> 30" using assms by (auto simp: n_def)
  have "k = 1 \<or> k = 2 \<or> k = 3" using assms by auto
  then have e: "denorm_level m k l = min 30 (n + (30 - (n - m)) mod k)"
    using n assms(1) by (auto simp: denorm_level_def n_def [symmetric] Let_def signed_modulo_int_def sgn_if) 
  show "l \<le> denorm_level m k l" unfolding e
    using n pos_mod_sign [of k "30 - (n - m)"] assms(3,6) by (auto simp del: pos_mod_sign)
  have k: "k = 1 \<or> k = 2 \<or> k = 3" by fact
  have "(n + (30 - (n - m)) mod k - m) mod k = 0"
    using k by (elim disjE) (simp_all, presburger+)
  then show "denorm_ok m k (denorm_level m k l)"
    unfolding e denorm_ok_def using n k by (auto simp: min_def)
  assume d: "l \<le> d" "denorm_ok m k d"
  then have "n \<le> d" by (simp add: denorm_ok_def n_def)
  show "denorm_level m k l \<le> d"
  proof (cases "d = 30")
    case False
    then have "(d - m) mod k = 0" using d by (simp add: denorm_ok_def)
    then have "n + (30 - (n - m)) mod k \<le> d"
      using k \<open>n \<le> d\<close> by (elim disjE) (simp_all, presburger+)
    then show ?thesis unfolding e by simp
  qed (simp add: e)
qed

lemma denorm_cell_spec:
  assumes "is_valid x" and "0 \<le> m" "m \<le> 30" "1 \<le> k" "k \<le> 3"
  shows "\<exists>zs. denorm_cell m k x out = Some (out @ zs) \<and> wf_union zs \<and> cover zs = leaves x \<and>
    (\<forall>z\<in>set zs. cell_level z = denorm_level m k (cell_level x))"
proof -
  obtain l q where x: "x = cell_at l q" and l: "l \<le> 30" and q: "q < 6 * 4 ^ l" "q < 7 * 4 ^ l"
    using assms(1) by (rule cell_span_at_cases)
  have lv: "cell_level x = int l" using l q by (simp add: x cell_level_at)
  define L where "L = nat (denorm_level m k (int l))"
  have d: "int l \<le> denorm_level m k (int l)" "denorm_level m k (int l) \<le> 30"
    using denorm_level_spec(1,2) [OF assms(2-5), of "int l"] l by (auto simp: denorm_ok_def)
  then have L: "denorm_level m k (int l) = int L" "l \<le> L" "L \<le> 30" by (auto simp: L_def)
  let ?zs = "map (cell_at L) [q * 4 ^ (L - l)..<(q + 1) * 4 ^ (L - l)]"
  have e: "(6::nat) * 4 ^ L = 6 * 4 ^ l * 4 ^ (L - l)" using pow4_split [OF L(2)] by (simp only: mult.assoc)
  have b: "(q + 1) * 4 ^ (L - l) \<le> 6 * 4 ^ L" unfolding e using q(1) by (intro mult_le_mono1) simp
  have ab: "q * 4 ^ (L - l) \<le> (q + 1) * 4 ^ (L - l)" by simp
  have s: "4 ^ (L - l) * 4 ^ (30 - L) = (4::nat) ^ (30 - l)" using span_split [OF L(2,3), where 'a = nat] by simp
  have "denorm_cell m k x out = Some (out @ ?zs)"
  proof (cases "L = l")
    case True
    then show ?thesis by (simp add: denorm_cell_def lv L(1)) (simp add: x)
  next
    case False
    have "(q + 1) * 4 ^ (L - l) < 7 * 4 ^ L" using b by (rule order.strict_trans1) simp
    then show ?thesis
      using False L push_range_at [OF L(3) ab] q
        child_begin_at_at [OF L(2,3) q(2)] child_end_at_at [OF L(2,3) q(2)]
      unfolding denorm_cell_def Let_def lv by (simp add: x)
  qed
  moreover have "cover ?zs = leaves x"
    using level_run(2) [OF L(3) b ab] l q s by (simp add: leaves_def x span_at algebra_simps)
  moreover have "cell_level z = denorm_level m k (cell_level x)" if z: "z \<in> set ?zs" for z
  proof -
    obtain i where i: "z = cell_at L i" "i < (q + 1) * 4 ^ (L - l)" using z unfolding set_map set_upt by auto
    then have "i < 7 * 4 ^ L" using b by (intro index_bound) (rule order.strict_trans2)
    then show ?thesis using i L by (simp add: lv cell_level_at)
  qed
  ultimately show ?thesis using level_run(1) [OF L(3) b ab] by blast
qed

lemma wf_union_concat:
  assumes "wf_union (x # xs)" and "wf_union us" and "cover us \<subseteq> leaves x"
    and "wf_union vs" and "cover vs \<subseteq> cover xs"
  shows "wf_union (us @ vs)"
proof -
  have "cell_hi a \<le> cell_lo b" if a: "a \<in> set us" and b: "b \<in> set vs" for a b
  proof -
    have "cell_hi a \<le> cell_hi x" using cover_inside(2) [OF assms(2,3) a] .
    also have "\<dots> \<le> cell_lo b"
      using cover_start [OF _ assms(4,5), of "cell_hi x"] assms(1) b by auto
    finally show ?thesis .
  qed
  then show ?thesis using assms(2,4) by (auto simp: wf_union_append)
qed

lemma denorm_loop_spec:
  assumes "wf_union ids" and "0 \<le> m" "m \<le> 30" "1 \<le> k" "k \<le> 3"
  shows "\<exists>zs. denorm_loop ids m k out = Some (out @ zs) \<and> wf_union zs \<and> cover zs = cover ids \<and>
    (\<forall>z\<in>set zs. denorm_ok m k (cell_level z))"
  using assms(1)
proof (induction ids arbitrary: out)
  case (Cons x xs)
  have v: "is_valid x" using Cons.prems by simp
  obtain us where us: "denorm_cell m k x out = Some (out @ us)" "wf_union us" "cover us = leaves x"
    "\<forall>z\<in>set us. cell_level z = denorm_level m k (cell_level x)"
    using denorm_cell_spec [OF v assms(2-5)] by blast
  have "0 \<le> cell_level x" "cell_level x \<le> 30" using v by (auto elim!: cell_span_at_cases simp: cell_level_at)
  then have ok: "\<forall>z\<in>set us. denorm_ok m k (cell_level z)"
    using us(4) denorm_level_spec(2) [OF assms(2-5)] by auto
  obtain vs where vs: "denorm_loop xs m k (out @ us) = Some ((out @ us) @ vs)" "wf_union vs"
    "cover vs = cover xs" "\<forall>z\<in>set vs. denorm_ok m k (cell_level z)"
    using Cons.IH [of "out @ us"] Cons.prems by auto
  have "wf_union (us @ vs)" using wf_union_concat [OF Cons.prems us(2) _ vs(2)] us(3) vs(3) by simp
  then show ?case using us vs ok by (intro exI [of _ "us @ vs"]) auto
qed simp

section \<open>Unions of leaf ranges\<close>

lemma maximum_tile_stop:
  assumes "is_cell x" and "is_cell lim" and "cell_lo lim \<le> cell_lo x"
  shows "maximum_tile x lim = Some lim"
proof -
  have "range_min x \<ge> range_min lim"
    using assms by (simp add: word_le_nat_alt unat_range_min)
  then show ?thesis by (simp add: maximum_tile_def)
qed

lemma next_after:
  assumes "is_valid x"
  shows "is_cell (cell_next x)" and "cell_lo (cell_next x) = cell_hi x"
    and "cell_hi x < num_leaves \<Longrightarrow> is_valid (cell_next x)"
proof -
  obtain l q where x: "x = cell_at l q" and l: "l \<le> 30" and q: "q < 6 * 4 ^ l" "q < 7 * 4 ^ l"
    using assms by (rule cell_span_at_cases)
  have "q + 1 \<le> 6 * 4 ^ l" using q(1) by simp
  also have "6 * 4 ^ l < 7 * (4::nat) ^ l" by simp
  finally have q1: "q + 1 < 7 * 4 ^ l" .
  have n: "cell_next x = cell_at l (q + 1)" using l q by (simp add: x cell_next_at)
  show "is_cell (cell_next x)" unfolding n using l q1 by (rule is_cell_at)
  show "cell_lo (cell_next x) = cell_hi x" unfolding n unfolding x using l q q1 by (simp add: span_at)
  assume "cell_hi x < num_leaves"
  then have "(q + 1) * 4 ^ (30 - l) < 6 * 4 ^ l * 4 ^ (30 - l)"
    using l q by (simp only: x span_at num_leaves_def mult.assoc pow4_split)
  then have "q + 1 < 6 * 4 ^ l" unfolding mult_less_cancel2 by (rule conjunct2)
  then show "is_valid (cell_next x)" unfolding n using l by (intro is_valid_at)
qed

lemma tile_loop_spec:
  assumes "is_cell s" and "is_cell lim" and "cell_lo s \<le> cell_lo lim" and "cell_lo lim \<le> num_leaves"
    and "cell_lo s < cell_lo lim \<Longrightarrow> is_valid s"
  shows "\<exists>zs. Option.bind (maximum_tile s lim) (\<lambda>x. tile_loop lim x out) = Some (out @ zs) \<and>
    wf_union zs \<and> cover zs = {cell_lo s..<cell_lo lim} \<and> (\<forall>z\<in>set zs. tile_for z lim z)"
  using assms
proof (induction "cell_lo lim - cell_lo s" arbitrary: s out rule: less_induct)
  case less
  show ?case
  proof (cases "cell_lo s < cell_lo lim")
    case False
    then have "maximum_tile s lim = Some lim" using less.prems by (intro maximum_tile_stop) auto
    then show ?thesis using False less.prems(3) by (intro exI [of _ "[]"]) (simp add: tile_loop.simps)
  next
    case True
    then obtain y where y: "maximum_tile s lim = Some y" "tile_for s lim y"
      using maximum_tile_spec(2) less.prems by blast
    have t: "is_valid y" "cell_lo y = cell_lo s" "cell_hi y \<le> cell_lo lim" "tile_for y lim y"
      using y(2) by (auto simp: tile_for_def)
    have ne: "y \<noteq> lim" using True t(2) by auto
    note n = next_after [OF t(1)]
    have lt: "cell_lo s < cell_hi y" using t(2) cell_lo_less_hi [of y] by simp
    have "\<exists>zs. Option.bind (maximum_tile (cell_next y) lim) (\<lambda>x. tile_loop lim x (out @ [y])) = Some ((out @ [y]) @ zs) \<and>
      wf_union zs \<and> cover zs = {cell_lo (cell_next y)..<cell_lo lim} \<and> (\<forall>z\<in>set zs. tile_for z lim z)"
      using n t less.prems(2,4) lt True by (intro less.hyps) (auto simp: diff_less_mono2)
    then obtain zs where zs:
      "Option.bind (maximum_tile (cell_next y) lim) (\<lambda>x. tile_loop lim x (out @ [y])) = Some ((out @ [y]) @ zs)"
      "wf_union zs" "cover zs = {cell_hi y..<cell_lo lim}" "\<forall>z\<in>set zs. tile_for z lim z"
      unfolding n(2) by blast
    have "\<forall>z\<in>set zs. cell_hi y \<le> cell_lo z"
    proof
      fix z assume "z \<in> set zs"
      then have "cell_lo z \<in> cover zs" by (auto simp: cover_def leaves_def intro!: bexI [of _ z])
      then show "cell_hi y \<le> cell_lo z" using zs(3) by simp
    qed
    then have "wf_union (y # zs)" using zs(2) t(1) by simp
    moreover have "cover (y # zs) = {cell_lo s..<cell_hi y} \<union> {cell_hi y..<cell_lo lim}"
      using zs(3) t(2) by (simp add: leaves_def)
    then have "cover (y # zs) = {cell_lo s..<cell_lo lim}"
      using ivl_disj_un_two(3) [OF less_imp_le [OF lt] t(3)] by simp
    moreover have "tile_loop lim y out = Some (out @ y # zs)"
      using zs(1) ne by (subst tile_loop.simps) simp
    ultimately show ?thesis using y(1) zs(4) t(4) by (intro exI [of _ "y # zs"]) auto
  qed
qed

lemma FromBeginEnd_spec:
  assumes "i \<le> j" and "j \<le> num_leaves"
  obtains zs where "CU_FromBeginEnd (cell_at 30 i) (cell_at 30 j) = Some zs"
    and "CU_IsNormalized zs" and "cover zs = {i..<j}"
proof -
  let ?b = "cell_at 30 i" and ?e = "cell_at 30 j"
  have ij: "i < 7 * 4 ^ 30" "j < 7 * 4 ^ 30" using assms by (simp_all add: num_leaves_def)
  have lo: "cell_lo ?b = i" "cell_lo ?e = j" using ij by (simp_all add: span_at)
  have c: "is_cell ?b" "is_cell ?e" using ij by (simp_all add: is_cell_at)
  have v: "i < j \<Longrightarrow> is_valid ?b" using assms by (intro is_valid_at) (simp_all add: num_leaves_def)
  obtain zs where zs: "CU_FromBeginEnd ?b ?e = Some zs" "wf_union zs" "cover zs = {i..<j}"
    "\<forall>z\<in>set zs. tile_for z ?e z"
    using tile_loop_spec [OF c, of "[]"] lo assms v by (auto simp: CU_FromBeginEnd_def)
  have "sib_free (rev zs)"
  proof (rule sib_free_intro [OF zs(2)])
    fix p assume p: "is_valid p" "cell_lv p < 30" "\<forall>k<4. child p k \<in> set zs"
    have "leaves p \<subseteq> {i..<j}" using cover_children [OF p] zs(3) by simp
    then have "cell_hi p \<le> j" using cell_lo_less_hi [of p] by (simp add: leaves_def del: cell_lo_less_hi)
    moreover have "child p 0 \<in> set zs" using p(3) by simp
    then have "tile_for (child p 0) ?e (child p 0)" using zs(4) by blast
    moreover have "cell_lo p = cell_lo (child p 0)" using child_valid(5) [OF p(1,2), of 0] by simp
    ultimately have "cell_hi p \<le> cell_hi (child p 0)" using p(1) by (simp add: tile_for_def lo(2))
    then show False
      using child_valid(6) [OF p(1,2), of 0] child_valid(4) [OF p(1,2), of 0]
        cell_span_pos [of "child p 0"] by (simp add: cell_hi_eq)
  qed
  then show ?thesis using that zs by (simp add: IsNormalized_iff)
qed

section \<open>Number of leaves\<close>

lemma cover_bounded: "wf_union xs \<Longrightarrow> cover xs \<subseteq> {..<num_leaves}"
  using cell_hi_le wf_union_valid by (fastforce simp: cover_def leaves_def)

lemma finite_cover [simp]: "finite (cover xs)"
  by (simp add: cover_def)

lemma LeafCellsCovered_loop:
  "wf_union ids \<Longrightarrow>
    foldl (\<lambda>num_leaves x. let inverted_level = int kMaxLevel - cell_level x
       in num_leaves + push_bit (nat (2 * inverted_level)) 1) (n :: uint64) ids = n + of_nat (card (cover ids))"
proof (induction ids arbitrary: n)
  case (Cons x xs)
  have v: "is_valid x" using Cons.prems by simp
  have "push_bit (nat (2 * (30 - cell_level x))) (1 :: uint64) = of_nat (cell_span x)"
  proof -
    obtain l q where x: "x = cell_at l q" and l: "l \<le> 30" and q: "q < 7 * 4 ^ l"
      using v by (rule cell_span_at_cases)
    have "nat (2 * (30 - int l)) = 2 * (30 - l)" using l by simp
    then show ?thesis using l q by (simp add: x cell_level_at span_at push_bit_eq_mult power_mult)
  qed
  moreover have "leaves x \<inter> cover xs = {}"
    using Cons.prems by (auto simp: cover_def leaves_def)
  then have "card (cover (x # xs)) = cell_span x + card (cover xs)"
    by (simp add: card_Un_disjoint card_leaves)
  ultimately show ?case using Cons by (simp add: Let_def)
qed simp

lemma LeafCellsCovered_spec:
  assumes "wf_union ids"
  shows "unat (LeafCellsCovered ids) = card (cover ids)"
proof -
  have "card (cover ids) \<le> card {..<num_leaves}"
    using cover_bounded [OF assms] by (intro card_mono) auto
  then have "card (cover ids) < 2 ^ LENGTH(64)" by (simp add: num_leaves_def)
  then have "unat (of_nat (card (cover ids)) :: uint64) = card (cover ids)"
    by (simp only: unat_of_nat mod_less)
  then show ?thesis using LeafCellsCovered_loop [OF assms, of 0] by (simp add: LeafCellsCovered_def)
qed

lemma WholeSphere_spec: "CU_IsNormalized CU_WholeSphere" "cover CU_WholeSphere = {..<num_leaves}"
proof -
  let ?f = "map (cell_at 0) [0..<6]"
  have e: "CU_WholeSphere = CU_Normalize ?f"
    by (simp add: CU_WholeSphere_def CU_Init_def FromFace_at upt_rec numeral_eq_Suc)
  have r: "wf_union ?f" "cover ?f = {..<num_leaves}"
    using level_run [of 0 6 0] by (simp_all add: num_leaves_def lessThan_atLeast0)
  then show "CU_IsNormalized CU_WholeSphere" "cover CU_WholeSphere = {..<num_leaves}"
    using Normalize_spec [of ?f] wf_union_valid [OF r(1)] unfolding e by auto
qed

end
