(* ===== verification/Cell_Id_Properties.thy ===== *)
theory Cell_Id_Properties
  imports Cell_Union_Ranges
begin

text \<open>
  The properties of \<^verbatim>\<open>S2CellId\<close> as a whole: the tree of cells, containment, the largest tile,
  common ancestors, and movement along the curve.
\<close>


lemma int_cell_lv: "is_valid x \<Longrightarrow> int (cell_lv x) = cell_level x"
  by (auto elim!: cell_span_at_cases simp: cell_level_at span_at)

lemma distance_at:
  assumes "l \<le> 30" and "q < 6 * 4 ^ l"
  shows "distance_from_begin (cell_at l q) = of_int (int q)"
  unfolding distance_from_begin_def step_shift_at [OF assms(1) index_bound [OF assms(2)]]
  by (rule drop_step_shift [where c = 1]) (simp_all add: assms unat_cell_at index_bound)

lemma same_face_iff:
  assumes "is_valid x" and "is_valid y"
  shows "face x = face y \<longleftrightarrow> parent_at x 0 = parent_at y 0"
proof -
  obtain l q where x: "x = cell_at l q" "l \<le> 30" "q < 6 * 4 ^ l" "q < 7 * 4 ^ l"
    using assms(1) by (rule cell_span_at_cases)
  obtain m r where y: "y = cell_at m r" "m \<le> 30" "r < 6 * 4 ^ m" "r < 7 * 4 ^ m"
    using assms(2) by (rule cell_span_at_cases)
  have "q div 4 ^ l < 7 * 4 ^ 0" "r div 4 ^ m < 7 * 4 ^ 0"
    using x y by (simp_all add: div_less_iff_less_mult)
  then show ?thesis
    unfolding x(1) y(1) using x(2-) y(2-) cell_at_inj [of 0 "q div 4 ^ l" "r div 4 ^ m"]
    by (simp add: face_at parent_at_at)
qed

lemma contains_ancestor_iff:
  assumes "is_valid z" and "is_valid x" and "m \<le> cell_lv x"
  shows "cell_contains z (parent_at x m) \<longleftrightarrow> cell_contains z x \<and> cell_lv z \<le> m"
proof -
  note p = parent_at_valid [OF assms(2,3)]
  have c: "cell_contains (parent_at x m) x"
    using contains_parent_at [OF p(1) assms(2)] p(2) assms(3) by simp
  show ?thesis
  proof
    assume "cell_contains z (parent_at x m)"
    then show "cell_contains z x \<and> cell_lv z \<le> m"
      using contains_trans [OF assms(1) p(1) assms(2) _ c] contains_parent_at [OF assms(1) p(1)] p(2) by auto
  next
    assume z: "cell_contains z x \<and> cell_lv z \<le> m"
    then have zi: "cell_index x div 4 ^ (cell_lv x - cell_lv z) = cell_index z"
      using contains_iff_index [OF assms(1,2)] by simp
    have "cell_lv x - cell_lv z = (cell_lv x - m) + (m - cell_lv z)" using z assms(3) by simp
    then have "cell_index (parent_at x m) div 4 ^ (m - cell_lv z) = cell_index z"
      using zi p(3) by (simp only: power_add div_mult2_eq)
    then show "cell_contains z (parent_at x m)" using contains_iff_index [OF assms(1) p(1)] p(2) z by simp
  qed
qed

lemma advance_wrap_by_one:
  assumes "l \<le> 30" and "q < 6 * 4 ^ l"
  shows "next_wrap (cell_at l q) = advance_wrap (cell_at l q) 1"
    and "prev_wrap (cell_at l q) = advance_wrap (cell_at l q) (-1)"
    and "prev_wrap (next_wrap (cell_at l q)) = cell_at l q"
    and "next_wrap (prev_wrap (cell_at l q)) = cell_at l q"
proof -
  define W where "W = (6::nat) * 4 ^ l"
  have q: "q < W" using assms(2) by (simp add: W_def)
  have W1: "1 < W"
  proof -
    have "(1::nat) \<le> 4 ^ l" by simp
    then show ?thesis unfolding W_def by linarith
  qed
  note nw = next_wrap_at [OF assms(1), folded W_def] and pw = prev_wrap_at [OF assms(1), folded W_def]
  have iW: "6 * 4 ^ l = int W" by (simp add: W_def)
  note aw = advance_wrap_at [OF assms, unfolded iW]
  have "nat ((int q + 1) mod int W) = (if Suc q = W then 0 else Suc q)"
    using q W1 by (auto simp: add.commute)
  then show "next_wrap (cell_at l q) = advance_wrap (cell_at l q) 1"
    unfolding aw nw [OF q] by simp
  have "nat ((int q - 1) mod int W) = (if q = 0 then W - 1 else q - 1)"
    using q W1 by (auto simp: zmod_minus1 nat_diff_distrib)
  then show "prev_wrap (cell_at l q) = advance_wrap (cell_at l q) (-1)"
    unfolding aw pw [OF q] by simp
  show "prev_wrap (next_wrap (cell_at l q)) = cell_at l q"
    unfolding nw [OF q] using q W1 by (auto simp: pw)
  show "next_wrap (prev_wrap (cell_at l q)) = cell_at l q"
    unfolding pw [OF q] using q W1 by (auto simp: nw)
qed

section \<open>Properties of cell ids\<close>

text \<open>The four children of a cell that is not a leaf are valid cells of the next level inside
  it; \<open>child_position\<close> tells which child a cell is, and \<open>parent\<close> undoes \<open>child\<close>.\<close>

theorem child_parent_roundtrip:
  assumes "is_valid x" and "cell_level x < int kMaxLevel" and "k < 4"
  shows "is_valid (child x k) \<and> cell_level (child x k) = cell_level x + 1 \<and>
    child_position (child x k) = k \<and> parent (child x k) = x \<and> cell_contains x (child x k)"
proof -
  have lv: "cell_lv x < 30" using assms(2) int_cell_lv [OF assms(1)] by simp
  note c = child_valid [OF assms(1) lv assms(3)]
  have "child_position (child x k) = cell_index (child x k) mod 4"
    using cell_at_eq [OF c(1)] child_position_at_at [of "cell_lv (child x k)" "cell_lv (child x k)" "cell_index (child x k)"]
    by (simp add: child_position_def index_bound flip: cell_lv_def)
  then have "child_position (child x k) = k" using c(3) assms(3) by simp
  then show ?thesis
    using c(1,2) int_cell_lv [OF assms(1)] int_cell_lv [OF c(1)] parent_child [OF assms(1) lv assms(3)]
      contains_child [OF assms(1) lv assms(3)] by simp
qed

theorem child_parent_roundtrip_witness:
  "is_valid (child (cell_FromFace 3) 2) \<and> parent (child (cell_FromFace 3) 2) = cell_FromFace 3"
proof -
  have v: "is_valid (cell_FromFace 3)" and l: "cell_level (cell_FromFace 3) < int kMaxLevel"
    by (simp_all add: FromFace_at is_valid_at cell_level_at)
  show ?thesis using child_parent_roundtrip [OF v l, of 2] by simp
qed

text \<open>C3: \<open>contains\<close>, which compares ids with \<open>range_min\<close> and \<open>range_max\<close>, is the ancestor
  relation, and the inclusion of the sets of leaf cells; two cells intersect only when one contains
  the other.\<close>

theorem contains_is_ancestor:
  assumes "is_valid x" and "is_valid y"
  shows "(cell_contains x y \<longleftrightarrow> cell_level x \<le> cell_level y \<and> parent_at y (nat (cell_level x)) = x) \<and>
    (cell_contains x y \<longleftrightarrow> leaves y \<subseteq> leaves x) \<and>
    (cell_intersects x y \<longleftrightarrow> cell_contains x y \<or> cell_contains y x)"
proof (intro conjI)
  show "cell_contains x y \<longleftrightarrow> cell_level x \<le> cell_level y \<and> parent_at y (nat (cell_level x)) = x"
    using contains_parent_at [OF assms] int_cell_lv [OF assms(1)] int_cell_lv [OF assms(2)]
    by (metis cell_lv_def of_nat_le_iff)
  show "cell_contains x y \<longleftrightarrow> leaves y \<subseteq> leaves x" using assms by (simp add: contains_leaves)
  show "cell_intersects x y \<longleftrightarrow> cell_contains x y \<or> cell_contains y x"
    using assms laminar [of x y] cell_lo_less_hi [of x] cell_lo_less_hi [of y]
    by (auto simp: intersects_iff contains_iff simp del: cell_lo_less_hi)
qed

theorem contains_is_ancestor_witness:
  "cell_contains (cell_FromFace 3) (child (cell_FromFace 3) 1)"
proof -
  have v: "is_valid (cell_FromFace 3)" "is_valid (child (cell_FromFace 3) 1)"
    and p: "cell_level (cell_FromFace 3) \<le> cell_level (child (cell_FromFace 3) 1)"
      "parent_at (child (cell_FromFace 3) 1) (nat (cell_level (cell_FromFace 3))) = cell_FromFace 3"
    by (simp_all add: FromFace_at child_at is_valid_at cell_level_at parent_at_at)
  show ?thesis using contains_is_ancestor [OF v] p by blast
qed

text \<open>C4: \<open>maximum_tile(limit)\<close> always returns.  For a limit at or before the start of the cell it
  returns the limit; otherwise the result is the largest cell that starts where the given cell
  starts and ends before the limit.\<close>

theorem maximum_tile_correct:
  assumes "is_valid x" and "is_cell limit"
  shows "\<exists>y. maximum_tile x limit = Some y \<and>
    (if range_min limit \<le> range_min x then y = limit
     else is_valid y \<and> range_min y = range_min x \<and> range_max y < range_min limit \<and>
       (\<forall>z. is_valid z \<longrightarrow> range_min z = range_min x \<longrightarrow> range_max z < range_min limit \<longrightarrow> cell_contains y z))"
proof (cases "cell_lo limit \<le> cell_lo x")
  case True
  then show ?thesis
    using maximum_tile_spec(1) [OF assms] assms by (simp add: word_le_nat_alt unat_range_min)
next
  case False
  then obtain y where y: "maximum_tile x limit = Some y" "tile_for x limit y"
    using maximum_tile_spec(2) [OF assms] by auto
  have t: "is_valid y" "cell_lo y = cell_lo x" "cell_hi y \<le> cell_lo limit"
    "\<And>z. is_valid z \<Longrightarrow> cell_lo z = cell_lo x \<Longrightarrow> cell_hi z \<le> cell_lo limit \<Longrightarrow> cell_hi z \<le> cell_hi y"
    using y(2) by (auto simp: tile_for_def)
  have "\<not> range_min limit \<le> range_min x" using False assms by (simp add: word_le_nat_alt unat_range_min)
  moreover have "cell_contains y z" if "is_valid z" "range_min z = range_min x" "range_max z < range_min limit" for z
    using that t assms by (simp add: contains_iff range_min_eq_iff range_max_less_iff)
  ultimately show ?thesis
    using y(1) t(1-3) assms by (auto simp: range_min_eq_iff range_max_less_iff)
qed

theorem maximum_tile_correct_witness:
  "\<exists>y. maximum_tile (cell_Begin 30) (cell_FromFace 2) = Some y \<and> is_valid y \<and>
    cell_contains y (cell_FromFace 0)"
proof -
  have e: "cell_Begin 30 = cell_at 30 0" "cell_FromFace 2 = cell_at 0 2" "cell_FromFace 0 = cell_at 0 0"
    by (simp_all add: FromFace_at Begin_at)
  have v: "is_valid (cell_Begin 30)" "is_cell (cell_FromFace 2)" "is_valid (cell_FromFace 0)"
    unfolding e by (simp_all add: is_valid_at is_cell_at)
  have "\<not> range_min (cell_FromFace 2) \<le> range_min (cell_Begin 30)"
    "range_min (cell_FromFace 0) = range_min (cell_Begin 30)"
    "range_max (cell_FromFace 0) < range_min (cell_FromFace 2)"
    using v by (simp_all add: word_le_nat_alt unat_range_min range_min_eq_iff range_max_less_iff)
      (simp_all add: e span_at)
  then show ?thesis using maximum_tile_correct [OF v(1,2)] v(3) by auto
qed

text \<open>\<open>GetCommonAncestorLevel\<close> is the level of the smallest cell that contains both arguments,
  and \<open>-1\<close> when they are on different faces.\<close>

theorem common_ancestor_correct:
  assumes "is_valid x" and "is_valid y"
  shows "if face x = face y
    then 0 \<le> GetCommonAncestorLevel x y \<and>
      (\<forall>z. is_valid z \<longrightarrow> (cell_contains z x \<and> cell_contains z y \<longleftrightarrow>
         cell_contains z (parent_at x (nat (GetCommonAncestorLevel x y))))) \<and>
      parent_at x (nat (GetCommonAncestorLevel x y)) = parent_at y (nat (GetCommonAncestorLevel x y))
    else GetCommonAncestorLevel x y = -1"
proof -
  define g where "g = GetCommonAncestorLevel x y"
  have sp: "int m \<le> g \<longleftrightarrow> m \<le> cell_lv x \<and> m \<le> cell_lv y \<and> parent_at x m = parent_at y m"
    if "m \<le> 30" for m unfolding g_def using assms that by (rule GetCommonAncestorLevel_spec)
  have rg: "-1 \<le> g" "g \<le> 30" using GetCommonAncestorLevel_range [of x y] by (simp_all add: g_def)
  have f: "face x = face y \<longleftrightarrow> 0 \<le> g" using sp [of 0] same_face_iff [OF assms] by simp
  have "(\<forall>z. is_valid z \<longrightarrow> (cell_contains z x \<and> cell_contains z y \<longleftrightarrow> cell_contains z (parent_at x (nat g)))) \<and>
      parent_at x (nat g) = parent_at y (nat g)" if "0 \<le> g"
  proof (intro conjI allI impI)
    have m: "nat g \<le> cell_lv x" "nat g \<le> cell_lv y"
      and eq: "parent_at x (nat g) = parent_at y (nat g)"
      using sp [of "nat g"] that rg by auto
    show "parent_at x (nat g) = parent_at y (nat g)" by (rule eq)
    fix z assume z: "is_valid z"
    have "cell_lv z \<le> 30" using cell_at_eq(2) [OF z] .
    note s = sp [OF this]
    note px = contains_ancestor_iff [OF z assms(1) m(1)] and py = contains_ancestor_iff [OF z assms(2) m(2)]
    have "cell_contains z x \<Longrightarrow> cell_contains z y \<Longrightarrow> cell_lv z \<le> nat g"
      using s contains_parent_at [OF z assms(1)] contains_parent_at [OF z assms(2)] by force
    then show "cell_contains z x \<and> cell_contains z y \<longleftrightarrow> cell_contains z (parent_at x (nat g))"
      using px py eq by metis
  qed
  moreover have "g = -1" if "\<not> 0 \<le> g" using that rg by linarith
  ultimately show ?thesis unfolding g_def [symmetric] f by auto
qed

theorem common_ancestor_correct_witness:
  "GetCommonAncestorLevel (cell_FromFace 1) (cell_FromFace 2) = -1"
proof -
  have v: "is_valid (cell_FromFace 1)" "is_valid (cell_FromFace 2)"
    and f: "face (cell_FromFace 1) \<noteq> face (cell_FromFace 2)"
    by (simp_all add: FromFace_at is_valid_at face_at)
  show ?thesis using common_ancestor_correct [OF v] f by simp
qed

text \<open>\<open>advance\<close> moves along the curve by any signed 64-bit number of steps and stops at the
  first cell and at \<open>End(level)\<close>; no step count makes it wrap around.\<close>

theorem advance_clamps:
  assumes "l \<le> kMaxLevel" and "q < 6 * 4 ^ l"
  shows "advance (cell_at l q) steps = cell_at l (nat (max 0 (min (6 * 4 ^ l) (int q + sint steps))))"
  using assms by (intro advance_at) simp_all

theorem advance_clamps_witness: "advance (cell_at 30 5) (-7) = cell_Begin 30"
  using advance_clamps [of 30 5 "-7"] by (simp add: Begin_at)

text \<open>C6: \<open>advance_wrap\<close> moves along the closed curve: the index of the cell changes by the number
  of steps modulo the number of cells of the level.  \<open>next_wrap\<close> and \<open>prev_wrap\<close> are its steps
  by one and are inverse to each other.\<close>

theorem advance_wrap_modular:
  assumes "is_valid x"
  shows "advance_wrap x steps =
      cell_at (cell_lv x) (nat ((int (cell_index x) + sint steps) mod (6 * 4 ^ cell_lv x))) \<and>
    next_wrap x = advance_wrap x 1 \<and> prev_wrap x = advance_wrap x (-1) \<and>
    prev_wrap (next_wrap x) = x \<and> next_wrap (prev_wrap x) = x"
proof -
  obtain l q where x: "x = cell_at l q" and l: "l \<le> 30" and q: "q < 6 * 4 ^ l" "q < 7 * 4 ^ l"
    using assms by (rule cell_span_at_cases)
  show ?thesis
    unfolding x using advance_wrap_at [OF l q(1), of steps] advance_wrap_by_one [OF l q(1)] l q
    by (simp add: span_at)
qed

theorem advance_wrap_modular_witness: "prev_wrap (next_wrap (cell_at 30 (6 * 4 ^ 30 - 1))) = cell_at 30 (6 * 4 ^ 30 - 1)"
proof -
  have "is_valid (cell_at 30 (6 * 4 ^ 30 - 1))" by (rule is_valid_at) simp_all
  then show ?thesis using advance_wrap_modular by blast
qed

text \<open>\<open>distance_from_begin\<close> and \<open>advance\<close> are inverse: a cell is reached from the first cell of
  its level by its distance.\<close>

theorem distance_advance_roundtrip:
  assumes "is_valid x"
  shows "0 \<le> sint (distance_from_begin x) \<and>
    advance (cell_Begin (nat (cell_level x))) (distance_from_begin x) = x"
proof -
  obtain l q where x: "x = cell_at l q" and l: "l \<le> 30" and q: "q < 6 * 4 ^ l" "q < 7 * 4 ^ l"
    using assms by (rule cell_span_at_cases)
  have d: "sint (distance_from_begin x) = int q"
    unfolding x distance_at [OF l q(1)]
    by (rule sint_of_int_small) (use index_small [OF l less_imp_le [OF q(1)]] in auto)
  have "advance (cell_at l 0) (distance_from_begin x) = cell_at l (nat (max 0 (min (6 * 4 ^ l) (int q))))"
    using advance_at [OF l, of 0] d by simp
  moreover have "int q \<le> int (6 * 4 ^ l)" using q(1) by (simp only: of_nat_le_iff less_imp_le)
  then have "int q \<le> 6 * 4 ^ l" by simp
  ultimately show ?thesis using d l q by (simp add: x cell_level_at Begin_at)
qed

theorem distance_advance_roundtrip_witness:
  "advance (cell_Begin (nat (cell_level (cell_FromFace 4)))) (distance_from_begin (cell_FromFace 4)) = cell_FromFace 4"
proof -
  have "is_valid (cell_FromFace 4)" by (simp add: FromFace_at is_valid_at)
  then show ?thesis using distance_advance_roundtrip by blast
qed

text \<open>Face, position along the curve and level determine a cell, and \<open>FromFacePosLevel\<close> rebuilds
  it from them.\<close>

theorem FromFacePosLevel_roundtrip:
  assumes "is_valid x"
  shows "FromFacePosLevel (face x) (pos x) (nat (cell_level x)) = x"
  using FromFacePosLevel_inverse [OF assms] by (simp add: cell_lv_def)

theorem FromFacePosLevel_roundtrip_witness:
  "FromFacePosLevel (face (cell_at 7 12345)) (pos (cell_at 7 12345)) (nat (cell_level (cell_at 7 12345))) = cell_at 7 12345"
proof -
  have "is_valid (cell_at 7 12345)" by (rule is_valid_at) simp_all
  then show ?thesis by (rule FromFacePosLevel_roundtrip)
qed

end
