(* ===== verification/Cell_Union_Properties.thy ===== *)
theory Cell_Union_Properties
  imports Cell_Union_Ranges
begin

text \<open>
  The properties of \<^verbatim>\<open>S2CellUnion\<close> as a whole, stated with the set \<open>cover\<close> of leaf positions that
  a union covers.
\<close>


section \<open>Properties of cell unions\<close>

text \<open>C1: on any list of valid cells \<open>Normalize\<close> returns a normalized union that covers the same
  leaves, and it is the only one: a normalized union is determined by the leaves it covers.  So
  normalizing does not depend on order or duplicates and changes nothing that is normalized.\<close>

theorem Normalize_correct:
  assumes "\<forall>x\<in>set ids. is_valid x"
  shows "CU_IsNormalized (CU_Normalize ids) \<and> cover (CU_Normalize ids) = cover ids \<and>
    (\<forall>xs. CU_IsNormalized xs \<and> cover xs = cover ids \<longrightarrow> xs = CU_Normalize ids)"
proof (intro conjI allI impI)
  show "CU_IsNormalized (CU_Normalize ids)" "cover (CU_Normalize ids) = cover ids"
    using Normalize_spec [OF assms] .
  fix xs assume "CU_IsNormalized xs \<and> cover xs = cover ids"
  then show "xs = CU_Normalize ids" using Normalize_eq [OF assms, of xs] by simp
qed

lemma example_cells:
  "is_valid (cell_at 2 5)" "is_valid (cell_at 1 1)" "is_valid (cell_at 0 4)"
  by (simp_all add: is_valid_at)

theorem Normalize_correct_witness:
  "CU_IsNormalized (CU_Normalize [cell_at 0 4, cell_at 2 5, cell_at 1 1])"
  using Normalize_correct [of "[cell_at 0 4, cell_at 2 5, cell_at 1 1]"] example_cells by simp

text \<open>\<open>IsValid\<close> accepts exactly the lists of valid cells whose leaf ranges follow each other,
  and \<open>IsNormalized\<close> exactly those that in addition hold no four children of one cell.\<close>

theorem IsValid_IsNormalized_correct:
  "(CU_IsValid ids \<longleftrightarrow> (\<forall>x\<in>set ids. is_valid x) \<and>
      sorted_wrt (\<lambda>x y. range_max x < range_min y) ids) \<and>
    (CU_IsNormalized ids \<longleftrightarrow> CU_IsValid ids \<and>
      \<not> (\<exists>p. is_valid p \<and> \<not> is_leaf p \<and> child p 0 \<in> set ids \<and> child p 1 \<in> set ids \<and>
          child p 2 \<in> set ids \<and> child p 3 \<in> set ids))"
proof
  show "CU_IsValid ids \<longleftrightarrow> (\<forall>x\<in>set ids. is_valid x) \<and>
      sorted_wrt (\<lambda>x y. range_max x < range_min y) ids"
  proof -
    have "sorted_wrt (\<lambda>x y. range_max x < range_min y) ids \<longleftrightarrow> sorted_wrt (\<lambda>x y. cell_hi x \<le> cell_lo y) ids"
      if "\<forall>x\<in>set ids. is_valid x"
      using that by (induction ids) (simp_all add: range_max_less_iff)
    then show ?thesis by (auto simp: IsValid_iff wf_union_def)
  qed
  let ?fam = "\<lambda>p. child p 0 \<in> set ids \<and> child p 1 \<in> set ids \<and> child p 2 \<in> set ids \<and> child p 3 \<in> set ids"
  have f4: "?fam p \<longleftrightarrow> (\<forall>k<4. child p k \<in> set ids)" for p by (auto simp: less_4)
  have "sib_free (rev ids) \<longleftrightarrow> \<not> (\<exists>p. is_valid p \<and> \<not> is_leaf p \<and> ?fam p)" if w: "wf_union ids"
  proof
    assume s: "sib_free (rev ids)"
    show "\<not> (\<exists>p. is_valid p \<and> \<not> is_leaf p \<and> ?fam p)"
    proof
      assume "\<exists>p. is_valid p \<and> \<not> is_leaf p \<and> ?fam p"
      then obtain p where p: "is_valid p" "\<not> is_leaf p" "\<forall>k<4. child p k \<in> set ids" unfolding f4 by blast
      have lv: "cell_lv p < 30" using p(1,2) is_leaf_iff [OF p(1)] cell_at_eq(2) [OF p(1)] by simp
      obtain us vs where "ids = us @ child p 0 # child p 1 # child p 2 # child p 3 # vs"
        using children_in_union [OF w p(1) lv p(3)] by blast
      then show False using s sib_freeD AreSiblings_of_children [OF p(1) lv] by metis
    qed
  next
    assume n: "\<not> (\<exists>p. is_valid p \<and> \<not> is_leaf p \<and> ?fam p)"
    show "sib_free (rev ids)"
    proof (rule sib_free_intro [OF w])
      fix p assume "is_valid p" "cell_lv p < 30" "\<forall>k<4. child p k \<in> set ids"
      then show False using n is_leaf_iff [of p] unfolding f4 by auto
    qed
  qed
  then show "CU_IsNormalized ids \<longleftrightarrow> CU_IsValid ids \<and> \<not> (\<exists>p. is_valid p \<and> \<not> is_leaf p \<and> ?fam p)"
    by (auto simp: IsNormalized_iff IsValid_iff)
qed

theorem IsValid_IsNormalized_correct_witness:
  "\<not> CU_IsNormalized (map (child (cell_FromFace 3)) [0, 1, 2, 3])"
proof -
  have "is_valid (cell_FromFace 3)" "\<not> is_leaf (cell_FromFace 3)"
    by (simp_all add: FromFace_at is_valid_at is_leaf_at)
  then show ?thesis
    using IsValid_IsNormalized_correct [of "map (child (cell_FromFace 3)) [0, 1, 2, 3]"]
    by (simp del: One_nat_def) blast
qed

text \<open>C5: on a normalized union \<open>Contains\<close> and \<open>Intersects\<close>, for one cell and for a second union,
  are inclusion and overlap of the sets of leaves covered, although each looks at few members.\<close>

theorem Contains_Intersects_correct:
  assumes "CU_IsNormalized ids" and "is_valid x" and "CU_IsValid ys"
  shows "(CU_Contains ids x \<longleftrightarrow> leaves x \<subseteq> cover ids) \<and>
    (CU_Intersects ids x \<longleftrightarrow> leaves x \<inter> cover ids \<noteq> {}) \<and>
    (CU_Contains_union ids ys \<longleftrightarrow> cover ys \<subseteq> cover ids) \<and>
    (CU_Intersects_union ids ys \<longleftrightarrow> cover ids \<inter> cover ys \<noteq> {})"
proof -
  have w: "wf_union ids" "wf_union ys" using assms by (simp_all add: IsNormalized_iff IsValid_iff)
  show ?thesis
    using Contains_cover [OF assms(1,2)] Intersects_iff [OF w(1) assms(2)]
      Contains_union_cover [OF assms(1) w(2)] Intersects_union_iff [OF w] by blast
qed

theorem Contains_Intersects_correct_witness:
  "CU_Contains [cell_FromFace 2] (cell_at 30 (2 * 4 ^ 30)) \<and> \<not> CU_Intersects_union [cell_FromFace 2] []"
proof -
  have v: "CU_IsNormalized [cell_FromFace 2]" "is_valid (cell_at 30 (2 * 4 ^ 30))" "CU_IsValid []"
    by (simp_all add: IsNormalized_iff IsValid_iff FromFace_at is_valid_at)
  have "leaves (cell_at 30 (2 * 4 ^ 30)) \<subseteq> cover [cell_FromFace 2]"
    by (simp add: FromFace_at leaves_def span_at)
  then show ?thesis using Contains_Intersects_correct [OF v] by simp
qed

text \<open>C2: union, intersection and difference of unions are union, intersection and difference of the
  sets of leaves; the results are normalized when the arguments are, and the recursion of the
  difference ends.\<close>

theorem set_operations_correct:
  assumes "CU_IsNormalized x" and "CU_IsNormalized y"
  shows "CU_IsNormalized (CU_Union x y) \<and> cover (CU_Union x y) = cover x \<union> cover y \<and>
    CU_IsNormalized (CU_Intersection x y) \<and> cover (CU_Intersection x y) = cover x \<inter> cover y \<and>
    (\<exists>z. CU_Difference x y = Some z \<and> CU_IsNormalized z \<and> cover z = cover x - cover y)"
proof -
  have w: "wf_union x" "wf_union y" using assms by (simp_all add: IsNormalized_iff)
  then have v: "\<forall>c\<in>set x. is_valid c" "\<forall>c\<in>set y. is_valid c" by (auto dest: wf_union_valid)
  obtain z where z: "CU_Difference x y = Some z" "cover z = cover x - cover y" "CU_IsNormalized z"
    using Difference_spec [OF w] assms(1) by metis
  show ?thesis using Union_spec [OF v] Intersection_spec [OF assms] z by blast
qed

theorem set_operations_correct_witness:
  "cover (CU_Intersection [cell_FromFace 2] [cell_FromFace 3]) = {} \<and>
    CU_Difference [cell_FromFace 2] [cell_at 1 9] \<noteq> None"
proof -
  have n: "CU_IsNormalized [cell_FromFace 2]" "CU_IsNormalized [cell_FromFace 3]" "CU_IsNormalized [cell_at 1 9]"
    by (simp_all add: IsNormalized_iff FromFace_at is_valid_at)
  have "leaves (cell_FromFace 2) \<inter> leaves (cell_FromFace 3) = {}"
    by (simp add: FromFace_at leaves_def span_at)
  then show ?thesis using set_operations_correct [OF n(1,2)] set_operations_correct [OF n(1,3)] by auto
qed

text \<open>The intersection of a valid union with one cell covers the common leaves and stays valid,
  and normalized if the union was.\<close>

theorem Intersection_id_correct:
  assumes "CU_IsValid ids" and "is_valid x"
  shows "CU_IsValid (CU_Intersection_id ids x) \<and> cover (CU_Intersection_id ids x) = cover ids \<inter> leaves x \<and>
    (CU_IsNormalized ids \<longrightarrow> CU_IsNormalized (CU_Intersection_id ids x))"
  using Intersection_id_spec [OF _ assms(2)] assms(1) by (simp add: IsValid_iff)

theorem Intersection_id_correct_witness:
  "cover (CU_Intersection_id [cell_at 1 1, cell_at 1 2] (cell_FromFace 0)) = leaves (cell_at 1 1) \<union> leaves (cell_at 1 2)"
proof -
  have v: "CU_IsValid [cell_at 1 1, cell_at 1 2]" "is_valid (cell_FromFace 0)"
    by (simp_all add: IsValid_iff FromFace_at is_valid_at span_at)
  have "cover [cell_at 1 1, cell_at 1 2] \<inter> leaves (cell_FromFace 0) = leaves (cell_at 1 1) \<union> leaves (cell_at 1 2)"
    by (auto simp: FromFace_at leaves_def span_at)
  then show ?thesis using Intersection_id_correct [OF v] by simp
qed

text \<open>\<open>Denormalize\<close> returns, for the arguments the code admits, a valid union with the same
  leaves in which every level is at least \<open>min_level\<close> and either a multiple of \<open>level_mod\<close> above
  it or the leaf level; normalizing it gives a normalized argument back.\<close>

theorem Denormalize_correct:
  assumes "CU_IsValid ids" and "0 \<le> min_level" "min_level \<le> int kMaxLevel" and "1 \<le> level_mod" "level_mod \<le> 3"
  shows "\<exists>out. CU_Denormalize ids min_level level_mod = Some out \<and> CU_IsValid out \<and> cover out = cover ids \<and>
    (\<forall>x\<in>set out. min_level \<le> cell_level x \<and>
      (cell_level x = int kMaxLevel \<or> (cell_level x - min_level) mod level_mod = 0)) \<and>
    (CU_IsNormalized ids \<longrightarrow> CU_Normalize out = ids)"
proof -
  have w: "wf_union ids" "min_level \<le> 30" using assms by (simp_all add: IsValid_iff)
  obtain out where out: "CU_Denormalize ids min_level level_mod = Some out" "wf_union out"
    "cover out = cover ids" "\<forall>z\<in>set out. denorm_ok min_level level_mod (cell_level z)"
    using denorm_loop_spec [OF w(1) assms(2) w(2) assms(4,5), of "[]"] by (auto simp: CU_Denormalize_def)
  then have "CU_IsNormalized ids \<Longrightarrow> CU_Normalize out = ids"
    using Normalize_eq [of out ids] wf_union_valid [OF out(2)] by simp
  then show ?thesis using out by (auto simp: IsValid_iff denorm_ok_def)
qed

theorem Denormalize_correct_witness:
  "\<exists>out. CU_Denormalize [cell_at 1 5] 3 2 = Some out \<and> CU_Normalize out = [cell_at 1 5]"
proof -
  have v: "CU_IsValid [cell_at 1 5]" "CU_IsNormalized [cell_at 1 5]"
    by (simp_all add: IsValid_iff IsNormalized_iff is_valid_at)
  show ?thesis using Denormalize_correct [OF v(1), of 3 2] v(2) by auto
qed

text \<open>\<open>FromBeginEnd\<close> on leaf positions returns the normalized union of exactly the leaves from
  \<open>begin\<close> up to, but not including, \<open>end\<close>, where \<open>end\<close> may be \<open>End(kMaxLevel)\<close>.\<close>

theorem FromBeginEnd_correct:
  assumes "i \<le> j" and "j \<le> 6 * 4 ^ kMaxLevel"
  shows "\<exists>ids. CU_FromBeginEnd (cell_at kMaxLevel i) (cell_at kMaxLevel j) = Some ids \<and>
    CU_IsNormalized ids \<and> cover ids = {i..<j}"
  using FromBeginEnd_spec [of i j] assms by (auto simp: num_leaves_def)

theorem FromBeginEnd_correct_witness:
  "\<exists>ids. CU_FromBeginEnd (cell_at kMaxLevel 3) (cell_End 30) = Some ids \<and> cover ids = {3..<6 * 4 ^ 30}"
  using FromBeginEnd_correct [of 3 "6 * 4 ^ 30"] by (auto simp: End_at)

text \<open>\<open>LeafCellsCovered\<close> is the number of leaves a valid union covers, without overflow, and the
  whole sphere has all of them.\<close>

theorem LeafCellsCovered_correct:
  assumes "CU_IsValid ids"
  shows "unat (LeafCellsCovered ids) = card (cover ids) \<and> cover ids \<subseteq> cover CU_WholeSphere \<and>
    unat (LeafCellsCovered CU_WholeSphere) = 6 * 4 ^ kMaxLevel"
proof -
  have w: "wf_union ids" "wf_union CU_WholeSphere"
    using assms WholeSphere_spec(1) by (simp_all add: IsValid_iff IsNormalized_iff)
  show ?thesis
    using LeafCellsCovered_spec [OF w(1)] LeafCellsCovered_spec [OF w(2)] cover_bounded [OF w(1)]
    by (simp add: WholeSphere_spec(2) num_leaves_def)
qed

theorem LeafCellsCovered_correct_witness: "unat (LeafCellsCovered [cell_at 29 7]) = 4"
proof -
  have v: "CU_IsValid [cell_at 29 7]" by (simp add: IsValid_iff is_valid_at)
  then show ?thesis using LeafCellsCovered_correct [OF v] by (simp add: leaves_def span_at)
qed

end
