(* ===== verification/Varint.thy ===== *)
theory Varint
  imports S2_Bits
begin

text \<open>
  \<^verbatim>\<open>Varint\<close> (\<^verbatim>\<open>s2/util/coding/varint.h\<close> and \<^verbatim>\<open>.cc\<close>): integers in groups of seven bits, lowest group
  first, the high bit of a byte telling that another one follows.  A pointer into a buffer is
  the list of the bytes from it to the end of the readable memory; the pointer just past a varint
  is what is left of that list, and a null result is \<open>None\<close>.  The routines without a limit do
  not check bounds; on a list that is too short the model also gives \<open>None\<close>, and the lemmas
  about them ask for a complete buffer.  For the routines that scan backwards the list holds the
  bytes before the pointer, nearest first, down to \<open>base\<close>.

  The source unrolls its loops.  A line
  \<^verbatim>\<open>byte = *(ptr++); result |= (byte & 127) << s; if (byte < c) goto done;\<close> is the row \<open>(s, c)\<close> of
  the table given to \<open>or_rows\<close>, and so on for the other line shapes.
\<close>


section \<open>Encoding\<close>

definition Encode32Inline :: "uint32 \<Rightarrow> byte list" where
  "Encode32Inline v =
     (let B = 128 in
      if v < push_bit 7 1 then [ucast v]
      else if v < push_bit 14 1 then [ucast (v OR B), ucast (drop_bit 7 v)]
      else if v < push_bit 21 1
      then [ucast (v OR B), ucast (drop_bit 7 v OR B), ucast (drop_bit 14 v)]
      else if v < push_bit 28 1
      then [ucast (v OR B), ucast (drop_bit 7 v OR B), ucast (drop_bit 14 v OR B),
            ucast (drop_bit 21 v)]
      else [ucast (v OR B), ucast (drop_bit 7 v OR B), ucast (drop_bit 14 v OR B),
            ucast (drop_bit 21 v OR B), ucast (drop_bit 28 v)])"

definition Encode32 :: "uint32 \<Rightarrow> byte list" where
  "Encode32 v = Encode32Inline v"

definition Encode64 :: "uint64 \<Rightarrow> byte list" where
  "Encode64 v =
     (if v < push_bit 28 1 then Encode32 (ucast v)
      else
        let x32 = ucast (v OR push_bit 7 1 OR push_bit 21 1) :: uint32;
            y32 = ucast (v OR push_bit 14 1 OR push_bit 28 1) :: uint32;
            start = [ucast x32, ucast (drop_bit 7 y32), ucast (drop_bit 14 x32), ucast (drop_bit 21 y32)]
        in if v < push_bit 35 1 then start @ [ucast (drop_bit 28 v)]
           else start @ ucast (drop_bit 28 v OR push_bit 7 1) # Encode32 (ucast (drop_bit 35 v)))"

definition Length32 :: "uint32 \<Rightarrow> nat" where
  "Length32 v =
     (let log2value = of_int (Log2FloorNonZero (v OR 1)) :: uint32
      in unat ((log2value * 9 + 73) div 64))"

definition Length64 :: "uint64 \<Rightarrow> nat" where
  "Length64 v =
     (let log2value = of_int (Log2FloorNonZero64 (v OR 1)) :: uint32
      in unat ((log2value * 9 + 73) div 64))"

text \<open>\<open>write_at s i bs\<close> is the buffer \<open>s\<close> after the bytes \<open>bs\<close> have been stored from index \<open>i\<close>.\<close>

definition write_at :: "byte list \<Rightarrow> nat \<Rightarrow> byte list \<Rightarrow> byte list" where
  "write_at s i bs = take i s @ bs @ drop (i + length bs) s"

definition Append32Slow :: "byte list \<Rightarrow> uint32 \<Rightarrow> byte list" where
  "Append32Slow s v =
     (let start = length s; s' = s @ replicate (Length32 v) 0 in write_at s' start (Encode32 v))"

definition Append64Slow :: "byte list \<Rightarrow> uint64 \<Rightarrow> byte list" where
  "Append64Slow s v =
     (let start = length s; s' = s @ replicate (Length64 v) 0 in write_at s' start (Encode64 v))"

definition Append32 :: "nat \<Rightarrow> byte list \<Rightarrow> uint32 \<Rightarrow> byte list" where
  "Append32 cap s v = (if v < 128 \<and> length s < cap then s @ [ucast v] else Append32Slow s v)"

definition Append64 :: "nat \<Rightarrow> byte list \<Rightarrow> uint64 \<Rightarrow> byte list" where
  "Append64 cap s v = (if v < 128 \<and> length s < cap then s @ [ucast v] else Append64Slow s v)"


section \<open>Parsing forwards\<close>

fun or_rows :: "(nat \<times> byte) list \<Rightarrow> 'a::len word \<Rightarrow> byte list \<Rightarrow> ('a word \<times> byte list) option" where
  "or_rows [] r p = None"
| "or_rows (row # rows) r [] = None"
| "or_rows ((s, c) # rows) r (b # p) =
     (let r' = r OR push_bit s (ucast (b AND 127))
      in if b < c then Some (r', p) else or_rows rows r' p)"

definition Parse32FallbackInline :: "byte list \<Rightarrow> (uint32 \<times> byte list) option" where
  "Parse32FallbackInline p =
     (case p of [] \<Rightarrow> None
      | b # p' \<Rightarrow> or_rows [(7, 128), (14, 128), (21, 128), (28, 16)] (ucast (b AND 127)) p')"

definition Parse32Fallback :: "byte list \<Rightarrow> (uint32 \<times> byte list) option" where
  "Parse32Fallback p = Parse32FallbackInline p"

definition Parse32 :: "byte list \<Rightarrow> (uint32 \<times> byte list) option" where
  "Parse32 p =
     (case p of [] \<Rightarrow> None | b # p' \<Rightarrow> if b < 128 then Some (ucast b, p') else Parse32Fallback p)"

definition Parse32Inline :: "byte list \<Rightarrow> (uint32 \<times> byte list) option" where
  "Parse32Inline p =
     (case p of [] \<Rightarrow> None
      | b # p' \<Rightarrow> if b < 128 then Some (ucast b, p') else Parse32FallbackInline p)"

definition Parse32WithLimit :: "byte list \<Rightarrow> (uint32 \<times> byte list) option" where
  "Parse32WithLimit p =
     (case p of [] \<Rightarrow> None
      | b # p' \<Rightarrow> if b < 128 then Some (ucast (b AND 127), p')
                  else or_rows [(7, 128), (14, 128), (21, 128), (28, 16)] (ucast (b AND 127)) p')"

text \<open>\<open>Parse64Fallback\<close>, the portable routine, collects 28-bit fragments in 32-bit registers.
  \<open>fragment\<close> runs the lines for one register; the flag tells whether a \<open>goto\<close> left them.\<close>

fun fragment :: "(nat \<times> byte) list \<Rightarrow> uint32 \<Rightarrow> byte list \<Rightarrow> (uint32 \<times> byte list \<times> bool) option" where
  "fragment [] r p = Some (r, p, False)"
| "fragment (row # rows) r [] = None"
| "fragment ((s, c) # rows) r (b # p) =
     (let r' = r OR push_bit s (ucast (b AND 127))
      in if b < c then Some (r', p, True) else fragment rows r' p)"

definition Parse64Fallback :: "byte list \<Rightarrow> (uint64 \<times> byte list) option" where
  "Parse64Fallback p =
     (case p of [] \<Rightarrow> None
      | b # p0 \<Rightarrow>
        Option.bind (fragment [(7, 128), (14, 128), (21, 128)] (ucast (b AND 127)) p0)
          (\<lambda>(res1, p1, done1).
        if done1 then Some (ucast res1, p1)
        else Option.bind (fragment [(0, 128), (7, 128), (14, 128), (21, 128)] 0 p1)
          (\<lambda>(res2, p2, done2).
        if done2 then Some (ucast res1 OR push_bit 28 (ucast res2), p2)
        else Option.bind (fragment [(0, 128), (7, 2)] 0 p2)
          (\<lambda>(res3, p3, done3).
        if done3
        then Some (ucast res1 OR push_bit 28 (ucast res2) OR push_bit 56 (ucast res3), p3)
        else None))))"

definition Parse64_portable :: "byte list \<Rightarrow> (uint64 \<times> byte list) option" where
  "Parse64_portable p =
     (case p of [] \<Rightarrow> None | b # p' \<Rightarrow> if b < 128 then Some (ucast b, p') else Parse64Fallback p)"

text \<open>\<open>Parse64FallbackPair\<close>, the x86-64 routine: a byte is sign-extended and shifted in from the
  left with ones from \<open>ones\<close> filling the low bits (\<open>shld\<close>), three registers are and-ed
  together, and the sign of a register tells whether the varint goes on.\<close>

definition shld :: "uint64 \<Rightarrow> nat \<Rightarrow> byte \<Rightarrow> uint64" where
  "shld ones n b = push_bit (n * 7) (scast b) OR drop_bit (64 - n * 7) ones"

definition Parse64FallbackPair :: "byte list \<Rightarrow> uint64 \<Rightarrow> (uint64 \<times> byte list) option" where
  "Parse64FallbackPair p res1 =
     (let ones = res1; B = (\<lambda>n. shld ones n (p ! n));
          stop = (\<lambda>n (v :: uint64). Some (v, drop n p));
          res2 = B 1
      in if \<not> (res2 <s 0) then stop 2 (res1 AND res2) else
      let res3 = B 2
      in if \<not> (res3 <s 0) then stop 3 (res1 AND res2 AND res3) else
      let res1 = res1 AND B 3
      in if 0 \<le>s res1 then stop 4 (res1 AND res2 AND res3) else
      let res2 = res2 AND B 4
      in if 0 \<le>s res2 then stop 5 (res1 AND res2 AND res3) else
      let res3 = res3 AND B 5
      in if 0 \<le>s res3 then stop 6 (res1 AND res2 AND res3) else
      let res1 = res1 AND B 6
      in if 0 \<le>s res1 then stop 7 (res1 AND res2 AND res3) else
      let res2 = res2 AND B 7
      in if 0 \<le>s res2 then stop 8 (res1 AND res2 AND res3) else
      let res3 = res3 AND B 8
      in if 0 \<le>s res3 then stop 9 (res1 AND res2 AND res3) else
      let byte = scast (p ! 9) :: uint64
      in if byte = 1 then stop 10 (res1 AND res2 AND res3)
         else if byte = 0
         then (let res3 = res3 XOR push_bit 63 1 in stop 10 (res1 AND res2 AND res3))
         else None)"

definition Parse64_x86 :: "byte list \<Rightarrow> (uint64 \<times> byte list) option" where
  "Parse64_x86 p =
     (case p of [] \<Rightarrow> None
      | b # p' \<Rightarrow>
        let byte = scast b :: int64
        in if 0 \<le>s byte then Some (byte, p') else Parse64FallbackPair p byte)"

fun add_rows :: "(nat \<times> byte) list \<Rightarrow> uint64 \<Rightarrow> byte list \<Rightarrow> (uint64 \<times> byte list) option" where
  "add_rows [] r p = None"
| "add_rows (row # rows) r [] = None"
| "add_rows ((s, c) # rows) r (b # p) =
     (let r' = r + push_bit s (ucast b - 1)
      in if b < c then Some (r', p) else add_rows rows r' p)"

definition Parse64WithLimit_x86 :: "byte list \<Rightarrow> (uint64 \<times> byte list) option" where
  "Parse64WithLimit_x86 p =
     (if 10 \<le> length p then Parse64_x86 p
      else case p of [] \<Rightarrow> None
      | b # p' \<Rightarrow> if b < 128 then Some (ucast b, p')
          else add_rows [(7, 128), (14, 128), (21, 128), (28, 128), (35, 128), (42, 128), (49, 128),
                         (56, 128), (63, 2)] (ucast b) p')"

definition Parse64WithLimit_portable :: "byte list \<Rightarrow> (uint64 \<times> byte list) option" where
  "Parse64WithLimit_portable p =
     (if 10 \<le> length p then Parse64_portable p
      else case p of [] \<Rightarrow> None
      | b # p' \<Rightarrow> if b < 128 then Some (ucast (b AND 127), p')
          else or_rows [(7, 128), (14, 128), (21, 128), (28, 128), (35, 128), (42, 128), (49, 128),
                        (56, 128), (63, 2)] (ucast (b AND 127)) p')"


section \<open>Skipping\<close>

fun skip_rows :: "byte list \<Rightarrow> byte list \<Rightarrow> byte list option" where
  "skip_rows [] p = None"
| "skip_rows (c # cs) [] = None"
| "skip_rows (c # cs) (b # p) = (if b < c then Some p else skip_rows cs p)"

definition Skip32 :: "byte list \<Rightarrow> byte list option" where
  "Skip32 p = skip_rows [128, 128, 128, 128, 16] p"

definition Skip64 :: "byte list \<Rightarrow> byte list option" where
  "Skip64 p = skip_rows [128, 128, 128, 128, 128, 128, 128, 128, 128, 2] p"


section \<open>Scanning backwards\<close>

fun skip_back_loop :: "nat \<Rightarrow> byte list \<Rightarrow> byte list option" where
  "skip_back_loop 0 q = None"
| "skip_back_loop (Suc n) [] = Some []"
| "skip_back_loop (Suc n) (b # q) = (if b < 128 then Some (b # q) else skip_back_loop n q)"

definition Skip32BackwardSlow :: "byte list \<Rightarrow> byte list option" where
  "Skip32BackwardSlow q =
     (case q of [] \<Rightarrow> None | b # q' \<Rightarrow> if b > 127 then None else skip_back_loop 5 q')"

definition Skip64BackwardSlow :: "byte list \<Rightarrow> byte list option" where
  "Skip64BackwardSlow q =
     (case q of [] \<Rightarrow> None | b # q' \<Rightarrow> if b > 127 then None else skip_back_loop 10 q')"

text \<open>The unrolled lines \<^verbatim>\<open>if (*(--ptr) < 128) return ptr+1;\<close>, \<open>n\<close> of them, without a test for \<open>base\<close>.\<close>

fun skip_back_rows :: "nat \<Rightarrow> byte list \<Rightarrow> byte list option" where
  "skip_back_rows 0 q = None"
| "skip_back_rows (Suc n) [] = None"
| "skip_back_rows (Suc n) (b # q) = (if b < 128 then Some (b # q) else skip_back_rows n q)"

definition Skip32Backward :: "byte list \<Rightarrow> byte list option" where
  "Skip32Backward q =
     (if length q > 5
      then case q of [] \<Rightarrow> None | b # q' \<Rightarrow> if b > 127 then None else skip_back_rows 5 q'
      else Skip32BackwardSlow q)"

definition Skip64Backward :: "byte list \<Rightarrow> byte list option" where
  "Skip64Backward q =
     (if length q > 10
      then case q of [] \<Rightarrow> None | b # q' \<Rightarrow> if b > 127 then None else skip_back_rows 10 q'
      else Skip64BackwardSlow q)"

text \<open>The value of a backward parse is \<open>None\<close> inside the result when the pointer returned is not
  null but \<open>OUTPUT\<close> has not been written.\<close>

fun back_rows :: "nat \<Rightarrow> 'a::len word \<Rightarrow> byte list \<Rightarrow> ('a word option \<times> byte list) option" where
  "back_rows 0 r q = None"
| "back_rows (Suc n) r [] = None"
| "back_rows (Suc n) r (b # q) =
     (if b < 128 then Some (Some r, b # q)
      else back_rows n (push_bit 7 r OR ucast (b AND 127)) q)"

definition skipped :: "byte list \<Rightarrow> byte list \<Rightarrow> byte list" where
  "skipped q rest = rev (take (length q - length rest) q)"

definition Parse32BackwardSlow :: "byte list \<Rightarrow> (uint32 option \<times> byte list) option" where
  "Parse32BackwardSlow q =
     (case Skip32BackwardSlow q of None \<Rightarrow> None
      | Some prev \<Rightarrow> Some (map_option fst (Parse32 (skipped q prev)), prev))"

definition Parse64BackwardSlow :: "byte list \<Rightarrow> (uint64 option \<times> byte list) option" where
  "Parse64BackwardSlow q =
     (case Skip64BackwardSlow q of None \<Rightarrow> None
      | Some prev \<Rightarrow> Some (map_option fst (Parse64_x86 (skipped q prev)), prev))"

definition Parse32Backward :: "byte list \<Rightarrow> (uint32 option \<times> byte list) option" where
  "Parse32Backward q =
     (if length q > 5
      then case q of [] \<Rightarrow> None | b # q' \<Rightarrow> if b > 127 then None else back_rows 5 (ucast b) q'
      else Parse32BackwardSlow q)"

definition Parse64Backward :: "byte list \<Rightarrow> (uint64 option \<times> byte list) option" where
  "Parse64Backward q =
     (if length q > 10
      then case q of [] \<Rightarrow> None | b # q' \<Rightarrow> if b > 127 then None else back_rows 10 (ucast b) q'
      else Parse64BackwardSlow q)"


section \<open>Sums of deltas\<close>

fun delta_loop :: "int64 \<Rightarrow> int64 \<Rightarrow> byte list \<Rightarrow> (int64 \<times> byte list) option" where
  "delta_loop acc shift [] = None"
| "delta_loop acc shift (b # p) =
     (let value = scast b :: int64;
          acc = acc + push_bit (unat shift) (value AND 0x7F);
          shift = (shift + 7) AND signed_drop_bit 7 value
      in if (acc OR value) <s 0 then delta_loop acc shift p else Some (acc, p))"

definition FastDecodeDeltas :: "byte list \<Rightarrow> int64 \<Rightarrow> (int64 \<times> byte list) option" where
  "FastDecodeDeltas p goal = map_option (\<lambda>(acc, p'). (goal + acc, p')) (delta_loop (- goal) 0 p)"

end
