(* ===== verification/Varint_Spec.thy ===== *)
theory Varint_Spec
  imports Varint
begin

text \<open>
  The format: \<open>venc n\<close> is the encoding of a number, \<open>vdec\<close> reads an encoding of any length
  (overlong ones included), and \<open>varint_parse n\<close> reads at most \<open>n\<close> bytes into a word, which is
  what every parser of \<open>Varint\<close> is compared with.  Then the tables of unrolled lines.
\<close>

section \<open>What a varint means\<close>

fun venc :: "nat \<Rightarrow> byte list" where
  "venc n = (if n < 128 then [of_nat n] else of_nat (n mod 128 + 128) # venc (n div 128))"

fun vdec :: "byte list \<Rightarrow> (nat \<times> byte list) option" where
  "vdec [] = None"
| "vdec (b # p) =
     (if b < 128 then Some (unat b, p)
      else map_option (\<lambda>(v, r). (unat b mod 128 + 128 * v, r)) (vdec p))"

declare venc.simps [simp del]

definition varint_parse :: "nat \<Rightarrow> byte list \<Rightarrow> ('a::len word \<times> byte list) option" where
  "varint_parse n p =
     (case vdec p of None \<Rightarrow> None
      | Some (v, r) \<Rightarrow> if length p - length r \<le> n \<and> v < 2 ^ LENGTH('a) then Some (of_nat v, r) else None)"

lemma byte_lt: "b < (of_nat c :: byte) \<longleftrightarrow> unat b < c" if "c < 256"
  using that by (simp add: word_less_nat_alt unat_of_nat)

lemma unat_byte [simp]: "unat (b::byte) < 256"
  using unsigned_less [of b] by simp

lemma vdec_length: "vdec p = Some (v, r) \<Longrightarrow> length r < length p"
  by (induction p arbitrary: v) (fastforce split: if_splits)+

lemma vdec_suffix: "vdec p = Some (v, r) \<Longrightarrow> \<exists>q. p = q @ r \<and> q \<noteq> [] \<and> last q < 128 \<and> (\<forall>b\<in>set (butlast q). \<not> b < 128)"
proof (induction p arbitrary: v)
  case (Cons b p)
  show ?case
  proof (cases "b < 128")
    case True
    then show ?thesis using Cons.prems by (intro exI [of _ "[b]"]) auto
  next
    case False
    then obtain v' where "vdec p = Some (v', r)" using Cons.prems by auto
    then obtain q where "p = q @ r" "q \<noteq> []" "last q < 128" "\<forall>b\<in>set (butlast q). \<not> b < 128"
      using Cons.IH by blast
    then show ?thesis using False by (intro exI [of _ "b # q"]) auto
  qed
qed simp

lemma vdec_venc: "vdec (venc n @ r) = Some (n, r)"
proof (induction n rule: venc.induct)
  case (1 n)
  show ?case
  proof (cases "n < 128")
    case True
    then have "(of_nat n :: byte) < 128" "unat (of_nat n :: byte) = n"
      by (simp_all add: word_less_nat_alt unat_of_nat)
    then show ?thesis using True by (subst venc.simps) simp
  next
    case False
    let ?b = "of_nat (n mod 128 + 128) :: byte"
    have u: "unat ?b = n mod 128 + 128" by (simp only: unat_of_nat) simp
    then have "\<not> ?b < 128" by (simp add: word_less_nat_alt del: of_nat_add)
    moreover have "unat ?b mod 128 = n mod 128" unfolding u by simp
    ultimately show ?thesis using False 1 by (subst venc.simps) (simp del: of_nat_add)
  qed
qed

lemma length_venc: "length (venc n) \<le> k \<longleftrightarrow> n < 128 ^ k \<and> 0 < k"
proof (induction k arbitrary: n)
  case 0
  then show ?case by (subst venc.simps) simp
next
  case (Suc k)
  show ?case
  proof (cases "n < 128")
    case True
    then have "n < 128 ^ Suc k" by (simp add: order.strict_trans2)
    then show ?thesis using True by (subst venc.simps) simp
  next
    case False
    then have "length (venc n) \<le> Suc k \<longleftrightarrow> n div 128 < 128 ^ k \<and> 0 < k"
      using Suc by (subst venc.simps) simp
    also have "\<dots> \<longleftrightarrow> n < 128 ^ Suc k"
      using False by (cases k) (auto simp: div_less_iff_less_mult mult.commute)
    finally show ?thesis by simp
  qed
qed

lemma parse_venc:
  assumes "LENGTH('a::len) \<le> 7 * n"
  shows "varint_parse n (venc (unat (v :: 'a word)) @ r) = Some (v, r)"
proof -
  have "unat v < 2 ^ LENGTH('a)" by (rule unsigned_less)
  also have "(2::nat) ^ LENGTH('a) \<le> 2 ^ (7 * n)" using assms by (rule power_increasing) simp
  finally have "unat v < 128 ^ n" by (simp add: power_mult)
  moreover have "0 < n" using assms by (cases n) auto
  ultimately show ?thesis by (simp add: varint_parse_def vdec_venc length_venc)
qed


lemma low7: "ucast (b AND 127 :: byte) = (of_nat (unat b mod 128) :: 'a::len word)"
proof -
  have "b AND 127 = take_bit 7 b" by (simp add: take_bit_eq_mask mask_eq_exp_minus_1)
  then have "unat (b AND 127) = unat b mod 128"
    by (simp only: unsigned_take_bit_eq) (simp add: take_bit_eq_mod)
  moreover have "ucast (b AND 127) = (of_nat (unat (b AND 127)) :: 'a word)" by simp
  ultimately show ?thesis by (simp only:)
qed

lemma or_eq_plus:
  fixes r :: "'a::len word"
  assumes "unat r < 2 ^ s"
  shows "r OR push_bit s x = r + push_bit s x"
proof (rule disjunctive_add [symmetric])
  fix n
  show "\<not> bit r n \<or> \<not> bit (push_bit s x) n"
  proof (cases "n < s")
    case False
    have "(2::nat) ^ s \<le> 2 ^ n" using False by (intro power_increasing) auto
    then have "unat r div 2 ^ n = 0" using assms by (intro div_less) linarith
    then show ?thesis by (simp add: word_bit_iff)
  qed (simp add: bit_simps)
qed

lemma or_step:
  fixes r :: "'a::len word"
  assumes "unat r < 2 ^ s"
  shows "r OR push_bit s (ucast (b AND 127 :: byte)) = r + of_nat (2 ^ s * (unat b mod 128))"
  unfolding or_eq_plus [OF assms] low7 by (simp add: push_bit_eq_mult mult.commute)

lemma step_bound:
  fixes r :: "'a::len word"
  assumes "unat r < 2 ^ s" and "s + 7 \<le> LENGTH('a)"
  shows "unat (r + of_nat (2 ^ s * (unat (b :: byte) mod 128))) < 2 ^ (s + 7)"
proof -
  have m: "unat b mod 128 \<le> 127" by simp
  have "unat r + 2 ^ s * (unat b mod 128) < 2 ^ s + 2 ^ s * 127"
    using assms(1) mult_le_mono2 [OF m, of "2 ^ s"] by linarith
  also have "\<dots> = (2::nat) ^ (s + 7)" by (simp add: power_add)
  finally have lt: "unat r + 2 ^ s * (unat b mod 128) < 2 ^ (s + 7)" .
  have "(2::nat) ^ (s + 7) \<le> 2 ^ LENGTH('a)" using assms(2) by (rule power_increasing) simp
  then have "unat (of_nat (unat r + 2 ^ s * (unat b mod 128)) :: 'a word) = unat r + 2 ^ s * (unat b mod 128)"
    using lt by (simp only: unat_of_nat) (intro mod_less, linarith)
  then show ?thesis using lt by simp
qed

definition rows_from :: "nat \<Rightarrow> nat \<Rightarrow> byte \<Rightarrow> (nat \<times> byte) list" where
  "rows_from k m c = map (\<lambda>i. (7 * i, 128)) [k..<m] @ [(7 * m, c)]"

lemma rows_from_step: "k < m \<Longrightarrow> rows_from k m c = (7 * k, 128) # rows_from (Suc k) m c"
  by (simp add: rows_from_def upt_conv_Cons)

lemma rows_from_last: "rows_from m m c = [(7 * m, c)]"
  by (simp add: rows_from_def)

definition parse_from :: "nat \<Rightarrow> 'a::len word \<Rightarrow> nat \<Rightarrow> byte list \<Rightarrow> ('a word \<times> byte list) option" where
  "parse_from k r n p =
     (case vdec p of None \<Rightarrow> None
      | Some (v, q) \<Rightarrow> if length p - length q \<le> n \<and> v < 2 ^ (LENGTH('a) - 7 * k)
                      then Some (r + of_nat (2 ^ (7 * k) * v), q) else None)"

lemma pow7: "7 * k + 7 \<le> L \<Longrightarrow> (2::nat) ^ (L - 7 * k) = 128 * 2 ^ (L - 7 * Suc k)"
proof -
  assume "7 * k + 7 \<le> L"
  then have "L - 7 * k = 7 + (L - 7 * Suc k)" by simp
  then show ?thesis by (simp only: power_add) simp
qed

lemma parse_from_more:
  assumes "7 * k + 7 \<le> LENGTH('a::len)" and "\<not> b < 128"
  shows "parse_from k (r :: 'a word) (Suc n) (b # p)
    = parse_from (Suc k) (r + of_nat (2 ^ (7 * k) * (unat b mod 128))) n p"
proof (cases "vdec p")
  case None
  then show ?thesis using assms(2) by (simp add: parse_from_def)
next
  case (Some vq)
  obtain v q where vq: "vq = (v, q)" by (cases vq)
  have l: "length q < length p" using vdec_length [of p v q] Some vq by simp
  have lt: "unat b mod 128 + 128 * v < 2 ^ (LENGTH('a) - 7 * k) \<longleftrightarrow> v < 2 ^ (LENGTH('a) - 7 * Suc k)"
  proof -
    have "unat b mod 128 + 128 * v < 128 * w \<longleftrightarrow> v < w" for w
      using mod_less_divisor [of 128 "unat b"] by linarith
    then show ?thesis unfolding pow7 [OF assms(1)] .
  qed
  have e: "2 ^ (7 * k) * (unat b mod 128 + 128 * v) = 2 ^ (7 * k) * (unat b mod 128) + 2 ^ (7 * Suc k) * v"
    by (simp add: algebra_simps power_add)
  show ?thesis
    unfolding parse_from_def vdec.simps Some vq using assms(2) l
    by (simp only: if_False option.map case_prod_conv option.case lt e) (auto simp: algebra_simps)
qed

lemma parse_from_stop:
  assumes "7 * k < LENGTH('a::len)" and "b < 128" and "unat b < 2 ^ (LENGTH('a) - 7 * k)" and "0 < n"
  shows "parse_from k (r :: 'a word) n (b # p) = Some (r + of_nat (2 ^ (7 * k) * unat b), p)"
  using assms by (simp add: parse_from_def)

lemma parse_from_last:
  assumes "7 * k < LENGTH('a::len)" and "LENGTH('a) \<le> 7 * k + 7"
  shows "parse_from k (r :: 'a word) (Suc 0) (b # p) =
    (if unat b < 2 ^ (LENGTH('a) - 7 * k) then Some (r + of_nat (2 ^ (7 * k) * unat b), p) else None)"
proof (cases "b < 128")
  case True
  then show ?thesis by (simp add: parse_from_def)
next
  case False
  have "(2::nat) ^ (LENGTH('a) - 7 * k) \<le> 2 ^ 7" using assms(2) by (intro power_increasing) auto
  then have "\<not> unat b < 2 ^ (LENGTH('a) - 7 * k)" using False by (simp add: word_less_nat_alt)
  moreover have "parse_from k r (Suc 0) (b # p) = None"
  proof (cases "vdec p")
    case (Some vq)
    then have "length (snd vq) < length p" using vdec_length [of p "fst vq" "snd vq"] by simp
    then show ?thesis using False Some by (auto simp: parse_from_def split: prod.split)
  qed (use False in \<open>simp add: parse_from_def\<close>)
  ultimately show ?thesis by simp
qed

lemma or_rows_parse:
  fixes r :: "'a::len word"
  assumes "k \<le> m" and "7 * m < LENGTH('a)" and "LENGTH('a) \<le> 7 * m + 7"
    and "unat c = 2 ^ (LENGTH('a) - 7 * m)" and "unat r < 2 ^ (7 * k)"
  shows "or_rows (rows_from k m c) r p = parse_from k r (Suc (m - k)) p"
  using assms(1,5)
proof (induction "m - k" arbitrary: k r p)
  case 0
  then have k: "k = m" by simp
  show ?case
  proof (cases p)
    case (Cons b p')
    have "b < c \<longleftrightarrow> unat b < 2 ^ (LENGTH('a) - 7 * m)" by (simp add: word_less_nat_alt assms(4))
    moreover have "unat b mod 128 = unat b" if "unat b < 2 ^ (LENGTH('a) - 7 * m)"
    proof -
      have "(2::nat) ^ (LENGTH('a) - 7 * m) \<le> 2 ^ 7" using assms(3) by (intro power_increasing) auto
      then show ?thesis using that by simp
    qed
    ultimately show ?thesis
      using 0(3) parse_from_last [OF assms(2,3), of r b p']
      by (simp add: k rows_from_last Cons or_step)
  qed (simp add: k rows_from_last parse_from_def)
next
  case (Suc d)
  then have km: "k < m" by simp
  have kL: "7 * k + 7 \<le> LENGTH('a)" using km assms(2) by simp
  show ?case
  proof (cases p)
    case (Cons b p')
    let ?r = "r + of_nat (2 ^ (7 * k) * (unat b mod 128))"
    have r: "r OR push_bit (7 * k) (ucast (b AND 127)) = ?r" using or_step [OF Suc(4)] .
    show ?thesis
    proof (cases "b < 128")
      case True
      have "(2::nat) ^ 7 \<le> 2 ^ (LENGTH('a) - 7 * k)" using kL by (intro power_increasing) auto
      moreover have ub: "unat b < 128" using True by (simp add: word_less_nat_alt)
      ultimately have "unat b < 2 ^ (LENGTH('a) - 7 * k)" by simp
      then show ?thesis
        using True ub parse_from_stop [of k b "Suc (m - k)" r p'] kL
        by (simp add: rows_from_step [OF km] Cons r)
    next
      case False
      have b: "unat ?r < 2 ^ (7 * Suc k)" using step_bound [OF Suc(4) kL, of b] by (simp add: add.commute)
      have "or_rows (rows_from (Suc k) m c) ?r p' = parse_from (Suc k) ?r (Suc (m - Suc k)) p'"
        using Suc(2) km by (intro Suc(1) b) auto
      moreover have "Suc (m - Suc k) = m - k" using km by simp
      ultimately show ?thesis
        using False parse_from_more [OF kL False, of r "m - k" p']
        by (simp add: rows_from_step [OF km] Cons r)
    qed
  qed (simp add: rows_from_step [OF km] parse_from_def)
qed

end
