(* ===== verification/Varint_Parse.thy ===== *)
theory Varint_Parse
  imports Varint_Spec
begin

text \<open>
  Every forward parser and skipper of \<open>Varint\<close> agrees with the specification on all inputs:
  the 32-bit ones, the portable 64-bit one (three 28-bit registers), the x86-64 one
  (sign-extension and masks) and the limited ones (sums instead of ors).
\<close>

lemma varint_parse_from: "varint_parse n p = (parse_from 0 0 n p :: ('a::len word \<times> byte list) option)"
  unfolding varint_parse_def parse_from_def mult_0_right diff_zero power_0 mult_1 add_0 ..

lemma parse_head_more:
  assumes "7 < LENGTH('a::len)" and "\<not> b < 128"
  shows "varint_parse (Suc n) (b # p) = parse_from 1 (ucast (b AND 127) :: 'a word) n p"
  using parse_from_more [of 0, OF _ assms(2), of "0 :: 'a word" n p] assms(1)
  by (simp add: varint_parse_from low7 flip: One_nat_def)

lemma parse_head_stop:
  assumes "7 < LENGTH('a::len)" and "b < 128" and "0 < n"
  shows "varint_parse n (b # p) = Some (ucast b :: 'a word, p)"
proof -
  have "unat b < 128" using assms(2) by (simp add: word_less_nat_alt)
  also have "(128::nat) = 2 ^ 7" by simp
  also have "\<dots> \<le> 2 ^ LENGTH('a)" using assms(1) by (intro power_increasing) auto
  finally show ?thesis using assms by (simp add: varint_parse_def)
qed

lemma small_byte_and: "b < 128 \<Longrightarrow> b AND 127 = (b :: byte)"
proof -
  assume "b < 128"
  then have "unat (take_bit 7 b) = unat b"
    by (simp only: unsigned_take_bit_eq) (simp add: take_bit_eq_mod word_less_nat_alt)
  then have "take_bit 7 b = b" by (simp only: word_unat_eq_iff)
  then show ?thesis by (simp add: take_bit_eq_mask mask_eq_exp_minus_1)
qed

lemma or_rows_head:
  fixes r :: "'a::len word"
  assumes "1 \<le> m" "7 * m < LENGTH('a)" and "LENGTH('a) \<le> 7 * m + 7"
    and "unat c = 2 ^ (LENGTH('a) - 7 * m)" and "\<not> b < 128"
  shows "or_rows (rows_from 1 m c) (ucast (b AND 127)) p = (varint_parse (Suc m) (b # p) :: ('a word \<times> byte list) option)"
proof -
  have L: "7 < LENGTH('a)" using assms(1,2) by linarith
  have "unat b mod 128 < 128" by simp
  also have "(128::nat) = 2 ^ 7" by simp
  also have "\<dots> \<le> 2 ^ LENGTH('a)" using L by (intro power_increasing) auto
  finally have "unat (ucast (b AND 127) :: 'a word) = unat b mod 128"
    unfolding low7 by (simp only: unat_of_nat mod_less)
  then have "unat (ucast (b AND 127) :: 'a word) < 2 ^ (7 * 1)" by simp
  then show ?thesis
    using or_rows_parse [OF assms(1-4)] assms(1) parse_head_more [OF L assms(5), of m p] by simp
qed

lemma rows32: "[(7, 128), (14, 128), (21, 128), (28, 16)] = rows_from 1 4 16"
  by (simp add: rows_from_def upt_rec)

lemma rows64: "[(7, 128), (14, 128), (21, 128), (28, 128), (35, 128), (42, 128), (49, 128), (56, 128), (63, 2)]
    = rows_from 1 9 2"
  by (simp add: rows_from_def upt_rec)

lemma Parse32FallbackInline_eq: "\<not> b < 128 \<Longrightarrow> Parse32FallbackInline (b # p) = varint_parse 5 (b # p)"
  using or_rows_head [of 4 16 b p, where 'a = 32]
  unfolding Parse32FallbackInline_def rows32 by simp

lemma Parse32_eq: "Parse32 p = varint_parse 5 p"
  by (cases p) (auto simp: Parse32_def Parse32Fallback_def Parse32FallbackInline_eq parse_head_stop
      varint_parse_def [of _ "[]"])

lemma Parse32Inline_eq: "Parse32Inline p = varint_parse 5 p"
  by (cases p) (auto simp: Parse32Inline_def Parse32FallbackInline_eq parse_head_stop
      varint_parse_def [of _ "[]"])

lemma Parse32WithLimit_eq: "Parse32WithLimit p = varint_parse 5 p"
proof (cases p)
  case (Cons b p')
  then show ?thesis
    using or_rows_head [of 4 16 b p', where 'a = 32]
    unfolding Parse32WithLimit_def rows32 by (simp add: parse_head_stop small_byte_and)
qed (simp add: Parse32WithLimit_def varint_parse_def)

lemma ucast_septet:
  "s \<le> 25 \<Longrightarrow> ucast (push_bit s (ucast (b AND 127 :: byte)) :: uint32) = (push_bit s (ucast (b AND 127)) :: uint64)"
proof -
  assume s: "s \<le> 25"
  have "\<not> bit (127 :: byte) i" if "7 \<le> i" for i
  proof -
    have "(127 :: byte) = mask 7" by (simp add: mask_eq_exp_minus_1)
    then have "bit (127 :: byte) i \<longleftrightarrow> bit (mask 7 :: byte) i" by (rule arg_cong)
    then show ?thesis using that by (simp only: bit_mask_iff) simp
  qed
  then have "\<not> bit (b AND 127) i" if "7 \<le> i" for i using that by (simp add: bit_and_iff)
  then have h: "bit x i \<Longrightarrow> i < 7" if "x = b AND 127" for x i using that by (metis linorder_not_le)
  define x where "x = b AND 127"
  have "ucast (push_bit s (ucast x) :: uint32) = (push_bit s (ucast x) :: uint64)"
    using s h [OF x_def] by (intro bit_word_eqI)
      (fastforce simp: bit_unsigned_iff bit_push_bit_iff)
  then show ?thesis by (simp only: x_def)
qed

lemma ucast_or: "ucast (x OR y :: uint32) = (ucast x OR ucast y :: uint64)"
  by (rule bit_word_eqI) (auto simp: bit_simps)

lemma fragment_or_rows:
  assumes "\<forall>(s, c)\<in>set rows. s \<le> 25"
  shows "or_rows (map (\<lambda>(s, c). (B + s, c)) rows @ rest) (A OR push_bit B (ucast r)) p =
    (case fragment rows r p of None \<Rightarrow> None
     | Some (r', p', done) \<Rightarrow> if done then Some (A OR push_bit B (ucast r') :: uint64, p')
                              else or_rows rest (A OR push_bit B (ucast r')) p')"
  using assms
proof (induction rows r p rule: fragment.induct)
  case (2 row rows r)
  then show ?case by (cases row) simp
next
  case (3 s c rows r b p)
  have "ucast (r OR push_bit s (ucast (b AND 127))) = (ucast r OR push_bit s (ucast (b AND 127)) :: uint64)"
    using ucast_septet [of s b] 3(2) by (simp add: ucast_or)
  then have e: "A OR push_bit B (ucast (r OR push_bit s (ucast (b AND 127))))
      = (A OR push_bit B (ucast r)) OR push_bit (B + s) (ucast (b AND 127))"
    by (simp add: push_bit_or or.assoc)
  show ?case using 3 by (simp add: Let_def e [symmetric])
qed simp

lemma or_rows_more: "or_rows rows r p = or_rows (map (\<lambda>(s, c). (0 + s, c)) rows @ []) (0 OR push_bit 0 r) p"
  by (simp add: case_prod_unfold)

lemma Parse64Fallback_eq:
  assumes "\<not> b < 128"
  shows "Parse64Fallback (b # p) = varint_parse 10 (b # p)"
proof -
  let ?R1 = "[(7, 128), (14, 128), (21, 128)] :: (nat \<times> byte) list"
  let ?R2 = "[(0, 128), (7, 128), (14, 128), (21, 128)] :: (nat \<times> byte) list"
  let ?R3 = "[(0, 128), (7, 2)] :: (nat \<times> byte) list"
  have u: "ucast (ucast (b AND 127) :: uint32) = (ucast (b AND 127) :: uint64)"
    using ucast_septet [of 0 b] by simp
  have "varint_parse 10 (b # p) = (or_rows (rows_from 1 9 2) (ucast (b AND 127)) p :: (uint64 \<times> _) option)"
    using or_rows_head [of 9 2 b p, where 'a = 64] assms by simp
  also have "rows_from 1 9 2 = map (\<lambda>(s, c). (0 + s, c)) ?R1 @ map (\<lambda>(s, c). (28 + s, c)) ?R2 @ map (\<lambda>(s, c). (56 + s, c)) ?R3 @ []"
    unfolding rows64 [symmetric] by simp
  also have "or_rows \<dots> (ucast (b AND 127) :: uint64) p = or_rows \<dots> (0 OR push_bit 0 (ucast (ucast (b AND 127) :: uint32))) p"
    by (simp only: u push_bit_0_id id_apply or.left_neutral)
  finally have v: "varint_parse 10 (b # p) = \<dots>" .
  have r2: "or_rows (map (\<lambda>(s, c). (28 + s, c)) ?R2 @ rest) A q = (case fragment ?R2 0 q of None \<Rightarrow> None
     | Some (r', p', done) \<Rightarrow> if done then Some (A OR push_bit 28 (ucast r') :: uint64, p')
                              else or_rows rest (A OR push_bit 28 (ucast r')) p')" for A rest q
    using fragment_or_rows [of ?R2 28 rest A 0 q] by simp
  have r3: "or_rows (map (\<lambda>(s, c). (56 + s, c)) ?R3 @ []) A q = (case fragment ?R3 0 q of None \<Rightarrow> None
     | Some (r', p', done) \<Rightarrow> if done then Some (A OR push_bit 56 (ucast r') :: uint64, p')
                              else or_rows [] (A OR push_bit 56 (ucast r')) p')" for A q
    using fragment_or_rows [of ?R3 56 "[]" A 0 q] by simp
  show ?thesis
    unfolding v Parse64Fallback_def
    by (subst fragment_or_rows, simp) (simp only: list.case r2 r3 push_bit_0_id id_apply or.left_neutral
        split: option.split prod.split bool.split if_split,
        auto simp: or.assoc split: option.splits)
qed


lemma Parse64_portable_eq: "Parse64_portable p = varint_parse 10 p"
  by (cases p) (auto simp: Parse64_portable_def Parse64Fallback_eq parse_head_stop varint_parse_def [of _ "[]"])

lemma Parse64WithLimit_portable_eq: "Parse64WithLimit_portable p = varint_parse 10 p"
proof (cases p)
  case (Cons b p')
  then show ?thesis
    using or_rows_head [of 9 2 b p', where 'a = 64]
    unfolding Parse64WithLimit_portable_def rows64
    by (simp add: Parse64_portable_eq parse_head_stop small_byte_and)
qed (simp add: Parse64WithLimit_portable_def varint_parse_def)

section \<open>The x86-64 routines\<close>

lemma byte_cases: obtains "unat (b :: byte) < 128" | x where "unat b = 128 + x" "x < 128"
proof (cases "unat b < 128")
  case False
  then have "unat b = 128 + (unat b - 128)" "unat b - 128 < 128" using unat_byte [of b] by linarith+
  then show ?thesis using that(2) by blast
qed (use that in blast)

lemma byte_split: "\<not> b < 128 \<Longrightarrow> unat (b :: byte) = unat b mod 128 + 128"
  by (cases b rule: byte_cases) (simp_all add: word_less_nat_alt)

lemma add_rows_parse:
  assumes "k \<le> 9"
  shows "add_rows (rows_from k 9 2) (r + 2 ^ (7 * k)) p = parse_from k r (Suc (9 - k)) p"
  using assms
proof (induction "9 - k" arbitrary: k r p)
  case 0
  then have k: "k = 9" by simp
  show ?case
  proof (cases p)
    case (Cons b p')
    have "b < 2 \<longleftrightarrow> unat b < 2 ^ (LENGTH(64) - 7 * 9)" by (simp add: word_less_nat_alt)
    moreover have "r + 2 ^ 63 + push_bit 63 (ucast b - 1) = r + of_nat (2 ^ (7 * 9) * unat b)"
      by (simp add: push_bit_eq_mult algebra_simps)
    ultimately show ?thesis
      using parse_from_last [of 9 r b p'] by (simp add: k rows_from_last Cons)
  qed (simp add: k rows_from_last parse_from_def)
next
  case (Suc d)
  then have km: "k < 9" by simp
  show ?case
  proof (cases p)
    case (Cons b p')
    have e: "r + 2 ^ (7 * k) + push_bit (7 * k) (ucast b - 1) = r + of_nat (2 ^ (7 * k) * unat b)"
      by (simp add: push_bit_eq_mult algebra_simps)
    show ?thesis
    proof (cases "b < 128")
      case True
      have "(2::nat) ^ 7 \<le> 2 ^ (LENGTH(64) - 7 * k)" using km by (intro power_increasing) auto
      then have "unat b < 2 ^ (LENGTH(64) - 7 * k)" using True by (simp add: word_less_nat_alt)
      then show ?thesis
        using True parse_from_stop [of k b "Suc (9 - k)" r p'] km e
        by (simp add: rows_from_step [OF km] Cons)
    next
      case False
      have "(2::nat) ^ (7 * k) * unat b = 2 ^ (7 * k) * (unat b mod 128) + 2 ^ (7 * Suc k)"
        by (subst byte_split [OF False]) (simp add: power_add algebra_simps)
      then have e2: "r + of_nat (2 ^ (7 * k) * unat b) = (r + of_nat (2 ^ (7 * k) * (unat b mod 128))) + 2 ^ (7 * Suc k)"
        by (simp add: algebra_simps)
      have "add_rows (rows_from (Suc k) 9 2) ((r + of_nat (2 ^ (7 * k) * (unat b mod 128))) + 2 ^ (7 * Suc k)) p'
          = parse_from (Suc k) (r + of_nat (2 ^ (7 * k) * (unat b mod 128))) (Suc (9 - Suc k)) p'"
        using Suc(2) km by (intro Suc(1)) auto
      moreover have "Suc (9 - Suc k) = 9 - k" using km by simp
      moreover have "7 * k + 7 \<le> LENGTH(64)" using km by simp
      note parse_from_more [OF this False, of r "9 - k" p']
      ultimately show ?thesis
        using False by (simp only: rows_from_step [OF km] Cons add_rows.simps Let_def e e2 if_False)
    qed
  qed (simp add: rows_from_step [OF km] parse_from_def)
qed

text \<open>The registers of \<open>Parse64FallbackPair\<close> take turns; their conjunction is the value read so
  far with all higher bits set.\<close>

fun pair_loop :: "byte list \<Rightarrow> uint64 \<Rightarrow> nat \<Rightarrow> nat \<Rightarrow> uint64 \<Rightarrow> uint64 \<Rightarrow> uint64 \<Rightarrow> (uint64 \<times> byte list) option" where
  "pair_loop p ones 0 n ra rb rc =
     (let byte = scast (p ! n) :: uint64
      in if byte = 1 then Some (ra AND rb AND rc, drop (Suc n) p)
         else if byte = 0 then Some (ra AND rb AND (rc XOR push_bit 63 1), drop (Suc n) p)
         else None)"
| "pair_loop p ones (Suc m) n ra rb rc =
     (let ra' = ra AND shld ones n (p ! n)
      in if 0 \<le>s ra' then Some (ra' AND rb AND rc, drop (Suc n) p)
         else pair_loop p ones m (Suc n) rb rc ra')"

lemma sle_iff: "(0 \<le>s (x :: uint64)) = (\<not> x <s 0)"
  by (simp add: word_sle_eq word_sless_alt not_less)

lemma FallbackPair_loop: "Parse64FallbackPair p res1 = pair_loop p res1 8 1 (-1) (-1) res1"
  unfolding Parse64FallbackPair_def Let_def
  by (simp add: numeral_eq_Suc sle_iff and.assoc and.commute and.left_commute)

lemma sless_bit: "(x :: uint64) <s 0 \<longleftrightarrow> bit x 63"
  using bit_last_iff [of x] by (simp add: word_sless_alt)

text \<open>One byte shifted in: the low bits of a continued byte are ones.\<close>

lemma sext_bit: "bit (scast (b :: byte) :: uint64) i \<longleftrightarrow> i < 64 \<and> bit b (min i 7)"
  by (simp add: bit_signed_iff min.commute)

lemma byte_bit7: "bit (b :: byte) 7 \<longleftrightarrow> \<not> b < 128"
proof (cases b rule: byte_cases)
  case (2 x)
  then have "unat b div 2 ^ 7 = 1" by (intro div_nat_eqI) simp_all
  then show ?thesis using 2 by (simp only: word_bit_iff) (simp add: word_less_nat_alt)
qed (simp add: word_bit_iff word_less_nat_alt)

lemma shld_eq:
  assumes "1 \<le> n" and "n \<le> 8" and "\<not> (c :: byte) < 128"
  shows "shld (scast c) n b = push_bit (7 * n) (scast b) OR mask (7 * n)"
proof -
  have "drop_bit (64 - n * 7) (scast c :: uint64) = mask (7 * n)"
  proof (rule bit_word_eqI)
    fix i assume "i < LENGTH(64)"
    moreover have "bit c 7" using assms(3) unfolding byte_bit7 .
    moreover have "min (64 - n * 7 + i) 7 = 7" using assms(1,2) by simp
    ultimately show "bit (drop_bit (64 - n * 7) (scast c :: uint64)) i = bit (mask (7 * n) :: uint64) i"
      using assms(1,2) unfolding bit_drop_bit_eq o_def sext_bit bit_mask_iff by auto
  qed
  then show ?thesis by (simp add: shld_def mult.commute)
qed

lemma sext_plus: "scast (b :: byte) = (of_nat (unat b mod 128) - (if b < 128 then 0 else 128) :: uint64)"
proof -
  have "sint b = int (unat b) - (if b < 128 then 0 else 256)"
  proof -
    have "sint b = uint b - 256 * of_bool (bit (uint b) 7)"
    proof -
      have "uint b < 2 ^ 8" using unsigned_less [of b, where 'a = int] by simp
      then have "take_bit 8 (uint b) = uint b" by (intro take_bit_int_eq_self) simp_all
      then show ?thesis by (simp add: sint_uint signed_take_bit_eq_take_bit_minus)
    qed
    moreover have "bit (uint b) 7 \<longleftrightarrow> bit b 7" by (simp add: bit_uint_iff)
    ultimately show ?thesis by (simp add: byte_bit7)
  qed
  moreover have "unat b mod 128 = (if b < 128 then unat b else unat b - 128)"
    by (cases b rule: byte_cases) (simp_all add: word_less_nat_alt)
  moreover have "scast b = (of_int (sint b) :: uint64)" by simp
  ultimately show ?thesis by (auto simp: word_less_nat_alt of_nat_diff)
qed

lemma and_step:
  fixes r :: uint64
  assumes "unat r < 2 ^ s" and "s \<le> 63"
  shows "(r - 2 ^ s) AND (push_bit s y OR mask s) = r + push_bit s y"
proof -
  have m: "- (2 ^ s) = push_bit s (- 1 :: uint64)" by (simp add: push_bit_eq_mult)
  have "r - 2 ^ s = r OR push_bit s (- 1)" using or_eq_plus [OF assms(1), of "- 1"] m by simp
  moreover have "\<not> bit r i" if "s \<le> i" for i
  proof -
    have "(2::nat) ^ s \<le> 2 ^ i" using that by (rule power_increasing) simp
    then have "unat r div 2 ^ i = 0" using assms(1) by (intro div_less) linarith
    then show ?thesis by (simp add: word_bit_iff)
  qed
  then have "(r OR push_bit s (- 1)) AND (push_bit s y OR mask s) = r OR push_bit s y"
    by (intro bit_word_eqI) (auto simp: bit_simps not_less)
  ultimately show ?thesis using or_eq_plus [OF assms(1), of y] by simp
qed

lemma sign_and: "(x AND y :: uint64) <s 0 \<longleftrightarrow> x <s 0 \<and> y <s 0"
  by (simp add: sless_bit bit_and_iff)

lemma shld_sign:
  assumes "1 \<le> n" and "n \<le> 8" and "\<not> (c :: byte) < 128"
  shows "shld (scast c) n b <s 0 \<longleftrightarrow> \<not> b < 128"
proof -
  have "min (63 - 7 * n) 7 = 7" "7 * n \<le> 63" "\<not> 63 < 7 * n" "63 - 7 * n < 64"
    using assms(1,2) by simp_all
  then have "bit (shld (scast c) n b) 63 \<longleftrightarrow> bit b 7"
    unfolding shld_eq [OF assms] bit_or_iff bit_push_bit_iff sext_bit bit_mask_iff by simp
  then show ?thesis unfolding sless_bit byte_bit7 .
qed

lemma pair_loop_parse:
  assumes "n + m = 9" and "1 \<le> n" and "\<not> (c :: byte) < 128"
    and "ra <s 0" "rb <s 0" "rc <s 0" and "ra AND rb AND rc = r - 2 ^ (7 * n)" and "unat r < 2 ^ (7 * n)"
    and "10 \<le> length p \<or> vdec (drop n p) \<noteq> None"
  shows "pair_loop p (scast c) m n ra rb rc = parse_from n r (Suc m) (drop n p)"
  using assms
proof (induction m arbitrary: n ra rb rc r)
  case 0
  then have n: "n = 9" by simp
  have "n < length p" using 0(9) n by (cases "length p \<le> 9") auto
  then have d: "drop n p = p ! n # drop (Suc n) p" by (rule Cons_nth_drop_Suc [symmetric])
  let ?b = "p ! n"
  have narrow: "ucast (scast (b' :: byte) :: uint64) = b'" for b'
    by (rule bit_word_eqI) (simp add: bit_unsigned_iff sext_bit min_def)
  have ext: "scast ?b = (scast x :: uint64) \<longleftrightarrow> ?b = x" for x using narrow by metis
  have one: "scast ?b = (1 :: uint64) \<longleftrightarrow> ?b = 1" and zero: "scast ?b = (0 :: uint64) \<longleftrightarrow> ?b = 0"
    using ext [of 1] ext [of 0] by simp_all
  have r63: "unat r < 2 ^ 63" using 0(8) n by simp
  then have "unat r div 2 ^ 63 = 0" by (rule div_less)
  then have r0: "\<not> bit r 63" by (simp add: word_bit_iff)
  have P: "push_bit 63 1 = (2 ^ 63 :: uint64)" by (simp add: push_bit_eq_mult)
  have "r - 2 ^ 63 = r + (2 ^ 63 :: uint64)" by simp
  also have "\<dots> = r OR push_bit 63 1" using or_eq_plus [OF r63, of 1] by (simp only: P)
  finally have acc: "ra AND rb AND rc = r OR push_bit 63 1" using 0(7) n by simp
  define T where "T = (push_bit 63 1 :: uint64)"
  have bT: "bit T i \<longleftrightarrow> i = 63" for i
    by (simp only: T_def bit_push_bit_iff bit_1_iff) auto
  have "bit ra 63" "bit rb 63" using 0(4,5) by (simp_all add: sless_bit)
  then have "ra AND rb AND (rc XOR T) = (ra AND rb AND rc) XOR T"
    by (intro bit_word_eqI) (auto simp: bit_and_iff bit_xor_iff bT)
  also have "\<dots> = r" unfolding acc T_def [symmetric] using r0
    by (intro bit_word_eqI) (auto simp: bit_or_iff bit_xor_iff bT)
  finally have clr: "ra AND rb AND (rc XOR push_bit 63 1) = r" by (simp only: T_def)
  have set1: "ra AND rb AND rc = r + of_nat (2 ^ (7 * 9) * 1)"
    unfolding acc using or_eq_plus [OF r63, of 1] P by simp
  have u2: "unat ?b < 2 ^ (LENGTH(64) - 7 * 9) \<longleftrightarrow> ?b = 0 \<or> ?b = 1"
  proof -
    have "unat ?b < 2 \<longleftrightarrow> unat ?b = 0 \<or> unat ?b = 1" by auto
    also have "\<dots> \<longleftrightarrow> ?b = 0 \<or> ?b = 1" by (simp only: word_unat_eq_iff unsigned_0 unsigned_1)
    finally show ?thesis by simp
  qed
  have pf: "parse_from 9 r (Suc 0) (drop n p) =
      (if ?b = 0 \<or> ?b = 1 then Some (r + of_nat (2 ^ (7 * 9) * unat ?b), drop (Suc n) p) else None)"
    unfolding d using parse_from_last [of 9 r ?b "drop (Suc n) p"] unfolding u2 by simp
  have pl: "pair_loop p (scast c) 0 n ra rb rc =
      (if ?b = 1 then Some (ra AND rb AND rc, drop (Suc n) p)
       else if ?b = 0 then Some (r, drop (Suc n) p) else None)"
    unfolding pair_loop.simps Let_def one zero clr ..
  have "pair_loop p (scast c) 0 n ra rb rc = parse_from 9 r (Suc 0) (drop n p)"
  proof (cases "?b = 1")
    case True
    then show ?thesis unfolding pf pl set1 by (simp only: unsigned_1 if_True simp_thms)
  next
    case False
    moreover have "r + of_nat (2 ^ (7 * 9) * unat (0 :: byte)) = r" by simp
    ultimately show ?thesis unfolding pf pl by (cases "?b = 0") simp_all
  qed
  then show ?case by (simp only: n)
next
  case (Suc m)
  have n8: "n \<le> 8" using Suc(2) by simp
  have "n < length p" using Suc(10) n8 by (cases "length p \<le> n") auto
  then have d: "drop n p = p ! n # drop (Suc n) p" by (rule Cons_nth_drop_Suc [symmetric])
  let ?b = "p ! n"
  let ?B = "shld (scast c) n ?b"
  have "ra AND ?B AND rb AND rc = (ra AND rb AND rc) AND ?B" by (simp add: ac_simps)
  also have "\<dots> = r + push_bit (7 * n) (scast ?b)"
    unfolding Suc(8) shld_eq [OF Suc(3) n8 Suc(4)] using Suc(9) n8 by (intro and_step) auto
  finally have v: "(ra AND ?B) AND rb AND rc = r + push_bit (7 * n) (scast ?b)" by (simp only: and.assoc)
  have s: "0 \<le>s ra AND ?B \<longleftrightarrow> ?b < 128"
    using Suc(5) shld_sign [OF Suc(3) n8 Suc(4)] by (simp add: sle_iff sign_and)
  have nL: "7 * n + 7 \<le> LENGTH(64)" using n8 by simp
  show ?case
  proof (cases "?b < 128")
    case True
    have "(2::nat) ^ 7 \<le> 2 ^ (LENGTH(64) - 7 * n)" using n8 by (intro power_increasing) auto
    moreover have ub: "unat ?b < 128" using True by (simp add: word_less_nat_alt)
    ultimately have "unat ?b < 2 ^ (LENGTH(64) - 7 * n)" by simp
    moreover have "push_bit (7 * n) (scast ?b) = (of_nat (2 ^ (7 * n) * unat ?b) :: uint64)"
      using True ub by (simp add: sext_plus push_bit_eq_mult mult.commute)
    ultimately show ?thesis
      using True s v parse_from_stop [of n ?b "Suc (Suc m)" r "drop (Suc n) p"] n8 by (simp add: d)
  next
    case False
    let ?r = "r + of_nat (2 ^ (7 * n) * (unat ?b mod 128))"
    have "push_bit (7 * n) (scast ?b) = (of_nat (2 ^ (7 * n) * (unat ?b mod 128)) - 2 ^ (7 * Suc n) :: uint64)"
      using False by (simp add: sext_plus push_bit_eq_mult algebra_simps power_add)
    then have v': "rb AND rc AND (ra AND ?B) = ?r - 2 ^ (7 * Suc n)"
      using v by (simp add: ac_simps)
    have "unat ?r < 2 ^ (7 * Suc n)" using step_bound [OF Suc(9) nL, of ?b] by (simp add: add.commute)
    moreover have "ra AND ?B <s 0" using s False by (simp add: sle_iff)
    moreover have "10 \<le> length p \<or> vdec (drop (Suc n) p) \<noteq> None" using Suc(10) False by (auto simp: d)
    ultimately have "pair_loop p (scast c) m (Suc n) rb rc (ra AND ?B) = parse_from (Suc n) ?r (Suc m) (drop (Suc n) p)"
      using Suc(2,6,7) v' by (intro Suc(1) [OF _ _ assms(3)]) auto
    then show ?thesis
      using False s parse_from_more [OF nL False, of r "Suc m" "drop (Suc n) p"] by (simp add: d Let_def)
  qed
qed


lemma Parse64_x86_eq:
  assumes "10 \<le> length p \<or> vdec p \<noteq> None"
  shows "Parse64_x86 p = varint_parse 10 p"
proof (cases p)
  case (Cons b p')
  have s: "0 \<le>s (scast b :: uint64) \<longleftrightarrow> b < 128"
    using byte_bit7 [of b] by (simp add: sle_iff sless_bit sext_bit)
  show ?thesis
  proof (cases "b < 128")
    case True
    then have "scast b = (ucast b :: uint64)"
      using sext_plus [of b] by (simp add: word_less_nat_alt)
    then show ?thesis using True s by (simp add: Parse64_x86_def Cons Let_def parse_head_stop)
  next
    case False
    have "(scast b :: uint64) = of_nat (unat b mod 128) - 2 ^ (7 * 1)"
      using sext_plus [of b] False by simp
    moreover have "unat (of_nat (unat b mod 128) :: uint64) < 2 ^ (7 * 1)"
    proof -
      have "unat b mod 128 < 128" by simp
      then show ?thesis by (simp add: unat_of_nat)
    qed
    moreover have "scast b <s (0 :: uint64)" using s False by (simp add: sle_iff)
    moreover have "- 1 <s (0 :: uint64)" by (simp add: sless_bit)
    moreover have "10 \<le> length p \<or> vdec (drop 1 p) \<noteq> None" using assms False by (auto simp: Cons)
    ultimately have "pair_loop p (scast b) 8 1 (- 1) (- 1) (scast b) = parse_from 1 (of_nat (unat b mod 128)) 9 p'"
      using pair_loop_parse [of 1 8 b "-1" "-1" "scast b" "of_nat (unat b mod 128)" p] False by (simp add: Cons)
    moreover have "varint_parse 10 (b # p') = parse_from 1 (of_nat (unat b mod 128) :: uint64) 9 p'"
      using parse_head_more [OF _ False, of 9 p', where 'a = 64] by (simp add: low7)
    ultimately show ?thesis
      using s False by (simp add: Parse64_x86_def Cons Let_def FallbackPair_loop)
  qed
qed (simp add: Parse64_x86_def varint_parse_def)

lemma Parse64WithLimit_x86_eq: "Parse64WithLimit_x86 p = varint_parse 10 p"
proof (cases "10 \<le> length p")
  case False
  show ?thesis
  proof (cases p)
    case (Cons b p')
    show ?thesis
    proof (cases "b < 128")
      case False
      have "(ucast b :: uint64) = of_nat (unat b mod 128) + 2 ^ (7 * 1)"
      proof -
        have "(ucast b :: uint64) = of_nat (unat b mod 128 + 128)"
          using byte_split [OF False] by simp
        then show ?thesis by simp
      qed
      moreover have "varint_parse 10 (b # p') = parse_from 1 (of_nat (unat b mod 128) :: uint64) 9 p'"
        using parse_head_more [OF _ False, of 9 p', where 'a = 64] by (simp add: low7)
      ultimately show ?thesis
        using add_rows_parse [of 1 "of_nat (unat b mod 128)" p'] \<open>\<not> 10 \<le> length p\<close> False
        unfolding Parse64WithLimit_x86_def rows64 by (simp add: Cons)
    qed (use \<open>\<not> 10 \<le> length p\<close> in \<open>simp add: Parse64WithLimit_x86_def Cons parse_head_stop\<close>)
  qed (simp add: Parse64WithLimit_x86_def varint_parse_def)
qed (simp add: Parse64WithLimit_x86_def Parse64_x86_eq)

section \<open>Skipping\<close>

lemma skip_rows_parse:
  assumes "k \<le> m" "7 * m < L" and "L \<le> 7 * m + 7" and "unat c = 2 ^ (L - 7 * m)"
  shows "skip_rows (replicate (m - k) 128 @ [c]) p =
    (case vdec p of None \<Rightarrow> None
     | Some (v, q) \<Rightarrow> if length p - length q \<le> Suc (m - k) \<and> v < 2 ^ (L - 7 * k) then Some q else None)"
  using assms(1)
proof (induction "m - k" arbitrary: k p)
  case 0
  then have k: "k = m" by simp
  show ?case
  proof (cases p)
    case (Cons b p')
    have lt: "b < c \<longleftrightarrow> unat b < 2 ^ (L - 7 * m)" by (simp add: word_less_nat_alt assms(4))
    have "(2::nat) ^ (L - 7 * m) \<le> 2 ^ 7" using assms(3) by (intro power_increasing) auto
    then have small: "b < c \<Longrightarrow> b < 128" using lt by (simp add: word_less_nat_alt)
    show ?thesis
    proof (cases "vdec p'")
      case (Some vq)
      then have "length (snd vq) < length p'" using vdec_length [of p' "fst vq" "snd vq"] by simp
      then show ?thesis using lt small Some by (auto simp: Cons k split: prod.split)
    qed (use lt small in \<open>auto simp: Cons k\<close>)
  qed (simp add: k)
next
  case (Suc d)
  then have km: "k < m" by simp
  have kL: "7 * k + 7 \<le> L" using km assms(2) by simp
  have e: "m - k = Suc (m - Suc k)" using km by simp
  show ?case
  proof (cases p)
    case (Cons b p')
    show ?thesis
    proof (cases "b < 128")
      case True
      have "(2::nat) ^ 7 \<le> 2 ^ (L - 7 * k)" using kL by (intro power_increasing) auto
      then have "unat b < 2 ^ (L - 7 * k)" using True by (simp add: word_less_nat_alt)
      then show ?thesis using True by (simp add: Cons e)
    next
      case False
      have ih: "skip_rows (replicate (m - Suc k) 128 @ [c]) p' =
        (case vdec p' of None \<Rightarrow> None
         | Some (v, q) \<Rightarrow> if length p' - length q \<le> Suc (m - Suc k) \<and> v < 2 ^ (L - 7 * Suc k) then Some q else None)"
        using Suc(2) km by (intro Suc(1)) auto
      show ?thesis
      proof (cases "vdec p'")
        case (Some vq)
        obtain v q where vq: "vq = (v, q)" by (cases vq)
        have l: "length q < length p'" using vdec_length [of p' v q] Some vq by simp
        have "unat b mod 128 + 128 * v < 128 * w \<longleftrightarrow> v < w" for w
          using mod_less_divisor [of 128 "unat b"] by linarith
        then have lt: "unat b mod 128 + 128 * v < 2 ^ (L - 7 * k) \<longleftrightarrow> v < 2 ^ (L - 7 * Suc k)"
          unfolding pow7 [OF kL] .
        have len: "length (b # p') - length q \<le> Suc (m - k) \<longleftrightarrow> length p' - length q \<le> Suc (m - Suc k)"
          using l by (simp add: e Suc_diff_le less_imp_le)
        show ?thesis
          using False ih unfolding Cons e vdec.simps Some vq
          by (simp only: replicate_Suc append_Cons skip_rows.simps if_False option.map option.case case_prod_conv lt
              len [unfolded e])
      qed (use False ih in \<open>simp add: Cons e\<close>)
    qed
  qed (simp add: e)
qed

lemma Skip64_eq: "Skip64 p = map_option snd (varint_parse 10 p :: (uint64 \<times> byte list) option)"
proof -
  have e: "[128, 128, 128, 128, 128, 128, 128, 128, 128, 2] = replicate (9 - 0) (128 :: byte) @ [2]"
    by (simp add: eval_nat_numeral)
  then show ?thesis
    using skip_rows_parse [of 0 9 64 2 p]
    unfolding Skip64_def e varint_parse_def by (auto split: option.split)
qed

lemma Skip32_eq: "Skip32 p = map_option snd (varint_parse 5 p :: (uint32 \<times> byte list) option)"
proof -
  have e: "[128, 128, 128, 128, 16] = replicate (4 - 0) (128 :: byte) @ [16]"
    by (simp add: eval_nat_numeral)
  then show ?thesis
    using skip_rows_parse [of 0 4 32 16 p]
    unfolding Skip32_def e varint_parse_def by (auto split: option.split)
qed

end
