(* ===== verification/Varint_Encode.thy ===== *)
theory Varint_Encode
  imports Varint_Parse
begin

text \<open>
  The encoders write \<open>venc\<close>, the length formulas give its length, the append routines append
  it, the backward routines find its start and the delta decoder sums.
\<close>

section \<open>Encoding\<close>

lemma septet_byte:
  fixes v :: "'a::len word" and w :: "'b::len word"
  assumes "\<And>j. j < 7 \<Longrightarrow> bit w j \<longleftrightarrow> bit v (s + j)" and "bit w 7"
  shows "(ucast w :: byte) = of_nat (unat v div 2 ^ s mod 128 + 128)"
proof -
  let ?y = "ucast (take_bit 7 (drop_bit s v)) :: byte"
  have u: "unat (take_bit 7 (drop_bit s v)) = unat v div 2 ^ s mod 128"
    by (simp only: unsigned_take_bit_eq unat_drop_bit_eq) (simp add: take_bit_eq_mod drop_bit_eq_div)
  have y: "?y = of_nat (unat v div 2 ^ s mod 128)" unfolding u [symmetric] by simp
  have "unat v div 2 ^ s mod 128 < 128" by simp
  then have y7: "unat ?y < 2 ^ 7" unfolding y by (simp add: unat_of_nat)
  have T: "bit (push_bit 7 1 :: byte) i \<longleftrightarrow> i = 7" for i
    by (simp only: bit_push_bit_iff bit_1_iff) auto
  have "ucast w = ?y OR push_bit 7 1"
  proof (rule bit_word_eqI)
    fix i assume "i < LENGTH(8)"
    then consider "i < 7" | "i = 7" by fastforce
    then show "bit (ucast w :: byte) i = bit (?y OR push_bit 7 1) i"
    proof cases
      case 1
      then have "bit w i = bit v (s + i)" by (rule assms(1))
      moreover have "bit v (s + i) \<Longrightarrow> s + i < LENGTH('a)" by (rule bit_imp_le_length)
      ultimately show ?thesis using 1 unfolding bit_or_iff T
        by (auto simp: bit_unsigned_iff bit_take_bit_iff bit_drop_bit_eq dest: bit_imp_le_length)
    next
      case 2
      then show ?thesis using assms(2) unfolding bit_or_iff T
        by (auto simp: bit_unsigned_iff dest: bit_imp_le_length)
    qed
  qed
  also have "\<dots> = ?y + push_bit 7 1" by (rule or_eq_plus [OF y7])
  also have "\<dots> = of_nat (unat v div 2 ^ s mod 128 + 128)" unfolding y by simp
  finally show ?thesis .
qed

lemma bit_128: "bit (128 :: 'a::len word) i \<longleftrightarrow> i = 7 \<and> 7 < LENGTH('a)"
proof -
  have "(128 :: 'a word) = push_bit 7 1" by (simp add: push_bit_eq_mult)
  then have "bit (128 :: 'a word) i \<longleftrightarrow> bit (push_bit 7 1 :: 'a word) i" by (rule arg_cong)
  then show ?thesis by (simp only: bit_push_bit_iff bit_1_iff) auto
qed

lemma septet_or:
  fixes v :: "'a::len word"
  assumes "7 < LENGTH('a)"
  shows "(ucast (drop_bit s v OR 128) :: byte) = of_nat (unat v div 2 ^ s mod 128 + 128)"
  using assms by (intro septet_byte) (simp_all only: bit_or_iff bit_drop_bit_eq bit_128 o_def, auto)

lemma last_byte: "(ucast (drop_bit s (v :: 'a::len word)) :: byte) = of_nat (unat v div 2 ^ s)"
proof -
  have "unat (drop_bit s v) = unat v div 2 ^ s"
    unfolding unat_drop_bit_eq by (simp only: drop_bit_eq_div)
  moreover have "(ucast w :: byte) = of_nat (unat w)" for w :: "'a word" by simp
  note this [of "drop_bit s v"]
  ultimately show ?thesis by (simp only:)
qed

lemma venc_stop: "n < 128 \<Longrightarrow> venc n = [of_nat n]"
  by (subst venc.simps) simp

lemma venc_more: "\<not> n < 128 \<Longrightarrow> venc n = of_nat (n mod 128 + 128) # venc (n div 128)"
  by (subst venc.simps) simp

lemma div_128: "n div 2 ^ s div 128 = n div (2::nat) ^ (s + 7)"
  by (simp add: power_add div_mult2_eq)

lemma venc_at_more:
  "2 ^ (s + 7) \<le> n \<Longrightarrow> venc (n div 2 ^ s) = of_nat (n div 2 ^ s mod 128 + 128) # venc (n div 2 ^ (s + 7))"
proof -
  assume "2 ^ (s + 7) \<le> n"
  then have "128 * 2 ^ s \<le> n" by (simp add: power_add mult.commute)
  then have "\<not> n div 2 ^ s < 128" by (simp add: div_less_iff_less_mult not_less)
  then show ?thesis by (simp only: venc_more div_128 not_False_eq_True)
qed

lemma venc_at_stop: "n < 2 ^ (s + 7) \<Longrightarrow> venc (n div 2 ^ s) = [of_nat (n div 2 ^ s)]"
proof -
  assume "n < 2 ^ (s + 7)"
  then have "n div 2 ^ s < 128" by (simp add: div_less_iff_less_mult power_add mult.commute)
  then show ?thesis by (rule venc_stop)
qed

lemma less_exp_iff: "k < LENGTH('a::len) \<Longrightarrow> (v :: 'a word) < push_bit k 1 \<longleftrightarrow> unat v < 2 ^ k"
  by (simp add: push_bit_eq_mult word_less_nat_alt)

lemma Encode32_eq: "Encode32 v = venc (unat v)"
proof -
  let ?n = "unat v"
  have h: "venc ?n = venc (?n div 2 ^ 0)" by simp
  note o = septet_or [of 0 v, simplified] septet_or [of 7 v] septet_or [of 14 v] septet_or [of 21 v]
  note l = last_byte [of 0 v, simplified] last_byte [of 7 v] last_byte [of 14 v] last_byte [of 21 v] last_byte [of 28 v]
  have lt: "v < push_bit 7 1 \<longleftrightarrow> ?n < 2 ^ 7" "v < push_bit 14 1 \<longleftrightarrow> ?n < 2 ^ 14"
    "v < push_bit 21 1 \<longleftrightarrow> ?n < 2 ^ 21" "v < push_bit 28 1 \<longleftrightarrow> ?n < 2 ^ 28"
    by (intro less_exp_iff; simp)+
  have "?n < 2 ^ LENGTH(32)" by (rule unsigned_less)
  then have "?n < 2 ^ 35" by simp
  then consider "?n < 2 ^ 7" | "2 ^ 7 \<le> ?n" "?n < 2 ^ 14" | "2 ^ 7 \<le> ?n" "2 ^ 14 \<le> ?n" "?n < 2 ^ 21"
    | "2 ^ 7 \<le> ?n" "2 ^ 14 \<le> ?n" "2 ^ 21 \<le> ?n" "?n < 2 ^ 28"
    | "2 ^ 7 \<le> ?n" "2 ^ 14 \<le> ?n" "2 ^ 21 \<le> ?n" "2 ^ 28 \<le> ?n" "?n < 2 ^ 35" by linarith
  then show ?thesis
    unfolding Encode32_def Encode32Inline_def Let_def lt
    using venc_at_more [of 0 ?n] venc_at_more [of 7 ?n] venc_at_more [of 14 ?n] venc_at_more [of 21 ?n]
      venc_at_stop [of ?n 0] venc_at_stop [of ?n 7] venc_at_stop [of ?n 14] venc_at_stop [of ?n 21]
      venc_at_stop [of ?n 28]
    by cases (simp_all add: o l)
qed

lemma bit_one_at: "k < LENGTH('a::len) \<Longrightarrow> bit (push_bit k 1 :: 'a word) i \<longleftrightarrow> i = k"
  by (simp only: bit_push_bit_iff bit_1_iff) auto

lemma unat_ucast_32: "unat (v :: uint64) < 2 ^ 32 \<Longrightarrow> unat (ucast v :: uint32) = unat v"
  by (simp add: unsigned_ucast_eq take_bit_eq_mod)

lemma Encode64_eq: "Encode64 v = venc (unat v)"
proof -
  let ?n = "unat v"
  have lt: "v < push_bit 28 1 \<longleftrightarrow> ?n < 2 ^ 28" "v < push_bit 35 1 \<longleftrightarrow> ?n < 2 ^ 35"
    by (intro less_exp_iff; simp)+
  have n64: "?n < 2 ^ LENGTH(64)" by (rule unsigned_less)
  show ?thesis
  proof (cases "?n < 2 ^ 28")
    case True
    then have "unat (ucast v :: uint32) = ?n" by (intro unat_ucast_32) simp
    then show ?thesis using True unfolding Encode64_def lt by (simp add: Encode32_eq)
  next
    case False
    define x32 where "x32 = (ucast (v OR push_bit 7 1 OR push_bit 21 1) :: uint32)"
    define y32 where "y32 = (ucast (v OR push_bit 14 1 OR push_bit 28 1) :: uint32)"
    have bx: "bit x32 i \<longleftrightarrow> i < 32 \<and> (bit v i \<or> i = 7 \<or> i = 21)" for i
      by (simp only: x32_def bit_unsigned_iff bit_or_iff ) (auto simp: bit_one_at simp del: push_bit_of_1)
    have b_y: "bit y32 i \<longleftrightarrow> i < 32 \<and> (bit v i \<or> i = 14 \<or> i = 28)" for i
      by (simp only: y32_def bit_unsigned_iff bit_or_iff ) (auto simp: bit_one_at simp del: push_bit_of_1)
    have b: "(ucast x32 :: byte) = of_nat (?n div 2 ^ 0 mod 128 + 128)"
      "(ucast (drop_bit 7 y32) :: byte) = of_nat (?n div 2 ^ 7 mod 128 + 128)"
      "(ucast (drop_bit 14 x32) :: byte) = of_nat (?n div 2 ^ 14 mod 128 + 128)"
      "(ucast (drop_bit 21 y32) :: byte) = of_nat (?n div 2 ^ 21 mod 128 + 128)"
      by (rule septet_byte; simp add: bit_drop_bit_eq bx b_y)+
    have start: "venc ?n = [ucast x32, ucast (drop_bit 7 y32), ucast (drop_bit 14 x32), ucast (drop_bit 21 y32)]
        @ venc (?n div 2 ^ 28)"
      using False venc_at_more [of 0 ?n] venc_at_more [of 7 ?n] venc_at_more [of 14 ?n] venc_at_more [of 21 ?n]
      unfolding b by simp
    show ?thesis
    proof (cases "?n < 2 ^ 35")
      case True
      then show ?thesis
        using False venc_at_stop [of ?n 28] last_byte [of 28 v]
        unfolding Encode64_def lt Let_def x32_def [symmetric] y32_def [symmetric] start by simp
    next
      case F35: False
      have p7: "push_bit 7 1 = (128 :: uint64)" by (simp add: push_bit_eq_mult)
      have m: "venc (?n div 2 ^ 28) = ucast (drop_bit 28 v OR push_bit 7 1) # venc (?n div 2 ^ 35)"
        using venc_at_more [of 28 ?n] F35 septet_or [of 28 v] unfolding p7 by simp
      have u: "unat (drop_bit 35 v) = ?n div 2 ^ 35"
        unfolding unat_drop_bit_eq by (simp only: drop_bit_eq_div)
      have "?n div 2 ^ 35 < 2 ^ 32" using n64 by (simp add: div_less_iff_less_mult)
      then have "unat (ucast (drop_bit 35 v) :: uint32) = ?n div 2 ^ 35"
        using unat_ucast_32 [of "drop_bit 35 v"] unfolding u by blast
      then have "Encode32 (ucast (drop_bit 35 v)) = venc (?n div 2 ^ 35)" by (simp only: Encode32_eq)
      then show ?thesis
        using False F35
        unfolding Encode64_def lt Let_def x32_def [symmetric] y32_def [symmetric] start m by simp
    qed
  qed
qed


lemma varint_length:
  fixes w :: "'a::len word"
  assumes "2 ^ k \<le> unat (w OR 1)" "unat (w OR 1) < 2 ^ Suc k"
  shows "length (venc (unat w)) = k div 7 + 1"
proof -
  have n: "unat (w OR 1) = unat w OR 1" by (simp add: unsigned_or_eq)
  have lt: "unat w OR 1 < 2 ^ (7 * j) \<longleftrightarrow> unat w < 2 ^ (7 * j)" if "0 < j" for j
  proof -
    have "even ((2::nat) ^ (7 * j))" using that by simp
    then obtain h where h: "(2::nat) ^ (7 * j) = 2 * h" by blast
    have "unat w OR 1 = 2 * (unat w div 2) + 1" by (rule nat_or_1)
    moreover have "x < 2 * h \<longleftrightarrow> 2 * (x div 2) + 1 < 2 * h" for x :: nat by presburger
    ultimately show ?thesis unfolding h by simp
  qed
  have "length (venc (unat w)) \<le> j \<longleftrightarrow> k div 7 + 1 \<le> j" for j
  proof (cases "0 < j")
    case True
    have "unat w < 128 ^ j \<longleftrightarrow> unat w OR 1 < 2 ^ (7 * j)" using lt [OF True] by (simp add: power_mult)
    also have "\<dots> \<longleftrightarrow> k < 7 * j"
    proof
      assume "unat w OR 1 < 2 ^ (7 * j)"
      with assms(1) have "(2::nat) ^ k < 2 ^ (7 * j)" unfolding n by linarith
      then show "k < 7 * j" by simp
    next
      assume "k < 7 * j"
      then have "(2::nat) ^ Suc k \<le> 2 ^ (7 * j)" by (intro power_increasing) auto
      with assms(2) show "unat w OR 1 < 2 ^ (7 * j)" unfolding n by linarith
    qed
    also have "\<dots> \<longleftrightarrow> k div 7 < j" by (simp add: div_less_iff_less_mult mult.commute)
    finally show ?thesis using True by (simp add: length_venc Suc_le_eq)
  qed (use length_venc [of "unat w" 0] in simp)
  then show ?thesis by (metis le_refl le_antisym)
qed

lemma length_formula:
  assumes "k < 64"
  shows "unat (((of_nat k :: uint32) * 9 + 73) div 64) = k div 7 + 1"
proof -
  have "\<forall>k\<in>set [0..<64]. (k * 9 + 73) div 64 = k div 7 + (1::nat)" by code_simp
  then have e: "(k * 9 + 73) div 64 = k div 7 + 1" using assms by simp
  have "(of_nat k :: uint32) * 9 + 73 = of_nat (k * 9 + 73)" by simp
  moreover have "unat (of_nat (k * 9 + 73) :: uint32) = k * 9 + 73"
    using assms by (simp only: unat_of_nat) simp
  ultimately show ?thesis by (simp only: unat_div_distrib e [symmetric]) simp
qed

lemma highest_bit:
  fixes w :: "'a::len word"
  obtains k where "2 ^ k \<le> unat (w OR 1)" "unat (w OR 1) < 2 ^ Suc k" "k < LENGTH('a)"
proof -
  have "unat (w OR 1) = 2 * (unat w div 2) + 1" by (simp only: unsigned_or_eq unsigned_1 nat_or_1)
  then have "0 < unat (w OR 1)" by simp
  then obtain k where "2 ^ k \<le> unat (w OR 1)" "unat (w OR 1) < 2 ^ Suc k" using ex_power_ivl1 [of 2 "unat (w OR 1)"] by auto
  then show ?thesis using that exp_le_unat_length by blast
qed

lemma Length64_eq: "Length64 v = length (venc (unat v))"
proof -
  obtain k where k: "2 ^ k \<le> unat (v OR 1)" "unat (v OR 1) < 2 ^ Suc k" "k < LENGTH(64)" by (rule highest_bit)
  have "Log2FloorNonZero64 (v OR 1) = int k" using FindMSBSetNonZero64_eq [OF k(1,2)] by (simp add: FindMSBSetNonZero64_def)
  then show ?thesis using varint_length [OF k(1,2)] length_formula [of k] k(3) by (simp add: Length64_def)
qed

lemma Length32_eq: "Length32 v = length (venc (unat v))"
proof -
  obtain k where k: "2 ^ k \<le> unat (v OR 1)" "unat (v OR 1) < 2 ^ Suc k" "k < LENGTH(32)" by (rule highest_bit)
  have "Log2FloorNonZero (v OR 1) = int k" using bit_width_eq [OF k(1,2)] by (simp add: Log2FloorNonZero_def)
  then show ?thesis using varint_length [OF k(1,2)] length_formula [of k] k(3) by (simp add: Length32_def)
qed

lemma write_at_end: "length bs = n \<Longrightarrow> write_at (s @ replicate n 0) (length s) bs = s @ bs"
  by (simp add: write_at_def)

lemma Append64_eq: "Append64 cap s v = s @ venc (unat v)"
proof -
  have "Append64Slow s v = s @ venc (unat v)"
    by (simp add: Append64Slow_def Length64_eq Encode64_eq write_at_end)
  moreover have "v < 128 \<Longrightarrow> venc (unat v) = [ucast v]"
    by (simp add: venc_stop word_less_nat_alt)
  ultimately show ?thesis by (simp add: Append64_def)
qed

lemma Append32_eq: "Append32 cap s v = s @ venc (unat v)"
proof -
  have "Append32Slow s v = s @ venc (unat v)"
    by (simp add: Append32Slow_def Length32_eq Encode32_eq write_at_end)
  moreover have "v < 128 \<Longrightarrow> venc (unat v) = [ucast v]"
    by (simp add: venc_stop word_less_nat_alt)
  ultimately show ?thesis by (simp add: Append32_def)
qed

section \<open>Backwards\<close>

definition chunk_value :: "byte list \<Rightarrow> nat \<Rightarrow> nat" where
  "chunk_value cs v = foldr (\<lambda>c v. unat c mod 128 + 128 * v) cs v"

lemma vdec_chunks:
  "\<forall>c\<in>set cs. \<not> c < 128 \<Longrightarrow> l < 128 \<Longrightarrow> vdec (cs @ l # r) = Some (chunk_value cs (unat l), r)"
  by (induction cs) (auto simp: chunk_value_def)

lemma venc_chunks:
  obtains cs l where "venc n = cs @ [l]" and "\<forall>c\<in>set cs. \<not> c < 128" and "l < 128" and "n = chunk_value cs (unat l)"
proof -
  obtain q where q: "venc n = q @ []" "q \<noteq> []" "last q < 128" "\<forall>b\<in>set (butlast q). \<not> b < 128"
    using vdec_suffix [of "venc n" n "[]"] vdec_venc [of n "[]"] by auto
  then have e: "venc n = butlast q @ [last q]" by simp
  have "vdec (venc n) = Some (chunk_value (butlast q) (unat (last q)), [])"
    unfolding e using q(3,4) by (intro vdec_chunks)
  then have "n = chunk_value (butlast q) (unat (last q))" using vdec_venc [of n "[]"] by simp
  then show ?thesis using that e q(3,4) by blast
qed

definition ends_varint :: "byte list \<Rightarrow> bool" where
  "ends_varint q \<longleftrightarrow> q = [] \<or> hd q < 128"

lemma skip_back_loop_chunks:
  assumes "\<forall>c\<in>set cs. \<not> c < 128" and "ends_varint q" and "length cs < n"
  shows "skip_back_loop n (cs @ q) = Some q"
  using assms
proof (induction cs arbitrary: n)
  case Nil
  then show ?case by (cases n; cases q) (auto simp: ends_varint_def)
next
  case (Cons c cs)
  then show ?case by (cases n) auto
qed

lemma skip_back_rows_chunks:
  assumes "\<forall>c\<in>set cs. \<not> c < 128" and "ends_varint q" and "q \<noteq> []" and "length cs < n"
  shows "skip_back_rows n (cs @ q) = Some q"
  using assms
proof (induction cs arbitrary: n)
  case Nil
  then show ?case by (cases n; cases q) (auto simp: ends_varint_def)
next
  case (Cons c cs)
  then show ?case by (cases n) auto
qed

lemma back_rows_chunks:
  fixes cs :: "byte list"
  assumes "\<forall>c\<in>set cs. \<not> c < 128" and "ends_varint q" and "q \<noteq> []" and "length cs < n" and "7 < LENGTH('a::len)"
  shows "back_rows n (of_nat v :: 'a word) (rev cs @ q) = Some (Some (of_nat (chunk_value cs v)), q)"
  using assms(1,4)
proof (induction cs arbitrary: n v rule: rev_induct)
  case Nil
  then show ?case using assms(2,3) by (cases n; cases q) (auto simp: ends_varint_def chunk_value_def)
next
  case (snoc c cs)
  obtain m where m: "n = Suc m" using snoc.prems by (cases n) auto
  let ?w = "of_nat (unat c mod 128) :: 'a word"
  have "unat c mod 128 < 128" by simp
  also have "(128::nat) \<le> 2 ^ LENGTH('a)" using power_increasing [of 7 "LENGTH('a)" "2::nat"] assms(5) by simp
  finally have "unat ?w < 2 ^ 7" by (simp add: unat_of_nat)
  then have "?w OR push_bit 7 (of_nat v) = ?w + push_bit 7 (of_nat v)" by (rule or_eq_plus)
  then have "push_bit 7 (of_nat v) OR ucast (c AND 127) = (of_nat (unat c mod 128 + 128 * v) :: 'a word)"
    by (simp add: low7 or.commute push_bit_eq_mult mult.commute)
  moreover have "back_rows m (of_nat (unat c mod 128 + 128 * v) :: 'a word) (rev cs @ q)
      = Some (Some (of_nat (chunk_value cs (unat c mod 128 + 128 * v))), q)"
    using snoc.prems m by (intro snoc.IH) auto
  ultimately show ?case using snoc.prems m by (simp add: chunk_value_def)
qed

lemma backward_skip_list:
  "skipped (rev e @ q) q = e"
  by (simp add: skipped_def)

lemma byte_gt_127: "\<not> (l :: byte) > 127 \<longleftrightarrow> l < 128"
  by (simp add: word_less_nat_alt not_less)  linarith

lemma Backward64:
  assumes "ends_varint q"
  shows "Skip64Backward (rev (Encode64 v) @ q) = Some q"
    and "Parse64Backward (rev (Encode64 v) @ q) = Some (Some v, q)"
proof -
  obtain cs l where e: "venc (unat v) = cs @ [l]" "\<forall>c\<in>set cs. \<not> c < 128" "l < 128" "unat v = chunk_value cs (unat l)"
    by (rule venc_chunks)
  have r: "rev (Encode64 v) @ q = l # rev cs @ q" by (simp add: Encode64_eq e(1))
  have rc: "\<forall>c\<in>set (rev cs). \<not> c < 128" using e(2) by simp
  have "unat v < 128 ^ 10" using unsigned_less [of v, where 'a = nat] by simp
  then have "length (venc (unat v)) \<le> 10" by (simp add: length_venc)
  then have len: "length (rev cs) < 10" by (simp add: e(1))
  have l: "\<not> l > 127" using e(3) by (simp only: byte_gt_127)
  have slow: "Skip64BackwardSlow (rev (Encode64 v) @ q) = Some q"
    using skip_back_loop_chunks [OF rc assms len] l by (simp add: Skip64BackwardSlow_def r)
  have q: "length (l # rev cs @ q) > 10 \<Longrightarrow> q \<noteq> []" using len by auto
  show "Skip64Backward (rev (Encode64 v) @ q) = Some q"
    using slow skip_back_rows_chunks [OF rc assms _ len] q l by (auto simp: Skip64Backward_def r)
  have "vdec (Encode64 v) \<noteq> None" using vdec_venc [of "unat v" "[]"] by (simp add: Encode64_eq)
  then have "Parse64_x86 (Encode64 v) = Some (v, [])"
    using parse_venc [of 10 v "[]"] by (simp add: Parse64_x86_eq) (simp add: Encode64_eq)
  then have ps: "Parse64BackwardSlow (rev (Encode64 v) @ q) = Some (Some v, q)"
    using slow by (simp add: Parse64BackwardSlow_def backward_skip_list)
  have "of_nat (chunk_value cs (unat l)) = v" using e(4) by (metis of_nat_unat ucast_id)
  then show "Parse64Backward (rev (Encode64 v) @ q) = Some (Some v, q)"
    using ps back_rows_chunks [OF e(2) assms, of 10 "unat l", where 'a = 64] q l len
    by (auto simp: Parse64Backward_def r)
qed

lemma Backward32:
  assumes "ends_varint q"
  shows "Skip32Backward (rev (Encode32 v) @ q) = Some q"
    and "Parse32Backward (rev (Encode32 v) @ q) = Some (Some v, q)"
proof -
  obtain cs l where e: "venc (unat v) = cs @ [l]" "\<forall>c\<in>set cs. \<not> c < 128" "l < 128" "unat v = chunk_value cs (unat l)"
    by (rule venc_chunks)
  have r: "rev (Encode32 v) @ q = l # rev cs @ q" by (simp add: Encode32_eq e(1))
  have rc: "\<forall>c\<in>set (rev cs). \<not> c < 128" using e(2) by simp
  have "unat v < 128 ^ 5" using unsigned_less [of v, where 'a = nat] by simp
  then have "length (venc (unat v)) \<le> 5" by (simp add: length_venc)
  then have len: "length (rev cs) < 5" by (simp add: e(1))
  have l: "\<not> l > 127" using e(3) by (simp only: byte_gt_127)
  have slow: "Skip32BackwardSlow (rev (Encode32 v) @ q) = Some q"
    using skip_back_loop_chunks [OF rc assms len] l by (simp add: Skip32BackwardSlow_def r)
  have q: "length (l # rev cs @ q) > 5 \<Longrightarrow> q \<noteq> []" using len by auto
  show "Skip32Backward (rev (Encode32 v) @ q) = Some q"
    using slow skip_back_rows_chunks [OF rc assms _ len] q l by (auto simp: Skip32Backward_def r)
  have "Parse32 (Encode32 v) = Some (v, [])"
    using parse_venc [of 5 v "[]"] by (simp add: Parse32_eq Encode32_eq)
  then have ps: "Parse32BackwardSlow (rev (Encode32 v) @ q) = Some (Some v, q)"
    using slow by (simp add: Parse32BackwardSlow_def backward_skip_list)
  have "of_nat (chunk_value cs (unat l)) = v" using e(4) by (metis of_nat_unat ucast_id)
  then show "Parse32Backward (rev (Encode32 v) @ q) = Some (Some v, q)"
    using ps back_rows_chunks [OF e(2) assms, of 5 "unat l", where 'a = 32] q l len
    by (auto simp: Parse32Backward_def r)
qed

section \<open>Sums of deltas\<close>

lemma low7_sext: "scast (b :: byte) AND 0x7F = (of_nat (unat b mod 128) :: int64)"
proof -
  have "(0x7F :: int64) = mask 7" by (simp add: mask_eq_exp_minus_1)
  then have "scast b AND 0x7F = take_bit 7 (scast b :: int64)" by (simp only: take_bit_eq_mask)
  also have "\<dots> = take_bit 7 (ucast b)"
    by (rule bit_word_eqI) (auto simp: bit_take_bit_iff sext_bit bit_unsigned_iff min_def)
  also have "\<dots> = of_nat (unat b mod 128)"
  proof -
    have "unat (take_bit 7 (ucast b :: int64)) = unat b mod 128"
    proof -
      have "unat b < 2 ^ 64" by (rule order.strict_trans [OF unat_byte]) simp
      then have "unat b mod 2 ^ 64 = unat b" by (rule mod_less)
      then show ?thesis by (simp only: unsigned_take_bit_eq) (simp add: take_bit_eq_mod unsigned_ucast_eq)
    qed
    then show ?thesis by (metis of_nat_unat ucast_id)
  qed
  finally show ?thesis .
qed

lemma sext_sign: "signed_drop_bit 7 (scast (b :: byte) :: int64) = (if b < 128 then 0 else - 1)"
proof -
  have "bit (signed_drop_bit 7 (scast b :: int64)) i \<longleftrightarrow> \<not> b < 128" if "i < 64" for i
  proof -
    have "bit (signed_drop_bit 7 (scast b :: int64)) i \<longleftrightarrow> bit b 7"
      using that by (auto simp: bit_signed_drop_bit_iff sext_bit min_def)
    then show ?thesis by (simp only: byte_bit7)
  qed
  then show ?thesis by (intro bit_word_eqI) auto
qed

lemma or_sign: "(x OR scast (b :: byte) :: int64) <s 0 \<longleftrightarrow> x <s 0 \<or> \<not> b < 128"
  unfolding sless_bit bit_or_iff sext_bit using byte_bit7 [of b] by simp

lemma delta_loop_venc:
  assumes "7 * k \<le> 63" and "k = 0 \<or> 0 < n" and "2 ^ (7 * k) * n < 2 ^ 63"
  shows "delta_loop acc (of_nat (7 * k)) (venc n @ p) =
    (let acc' = acc + of_nat (2 ^ (7 * k) * n)
     in if acc' <s 0 then delta_loop acc' 0 p else Some (acc', p))"
  using assms
proof (induction n arbitrary: k acc rule: venc.induct)
  case (1 n)
  have u: "unat (of_nat (7 * k) :: int64) = 7 * k" using 1(2) by (simp only: unat_of_nat) simp
  show ?case
  proof (cases "n < 128")
    case True
    have b: "(of_nat n :: byte) < 128" "unat (of_nat n :: byte) mod 128 = n"
      using True by (simp_all add: word_less_nat_alt unat_of_nat)
    have e: "push_bit (7 * k) (of_nat n) = (of_nat (2 ^ (7 * k) * n) :: int64)"
      by (simp add: push_bit_eq_mult mult.commute)
    show ?thesis
      unfolding venc_stop [OF True] append_Cons append_Nil delta_loop.simps Let_def u low7_sext sext_sign or_sign
      using b(1) by (simp only: b e if_True simp_thms and_zero_eq)
  next
    case False
    let ?b = "of_nat (n mod 128 + 128) :: byte"
    have ub: "unat ?b = n mod 128 + 128" by (simp only: unat_of_nat) simp
    have b: "\<not> ?b < 128" "unat ?b mod 128 = n mod 128"
      unfolding word_less_nat_alt ub by simp_all
    have k: "7 * Suc k \<le> 63"
    proof (rule ccontr)
      assume "\<not> 7 * Suc k \<le> 63"
      then have "63 \<le> 7 * k + 7" by simp
      then have "(2::nat) ^ 63 \<le> 2 ^ (7 * k + 7)" by (rule power_increasing) simp
      also have "\<dots> = 2 ^ (7 * k) * 128" by (simp add: power_add)
      also have "\<dots> \<le> 2 ^ (7 * k) * n" using False by simp
      finally show False using 1(4) by simp
    qed
    have split: "n = n mod 128 + 128 * (n div 128)" by simp
    have le: "2 ^ (7 * Suc k) * (n div 128) \<le> 2 ^ (7 * k) * n"
      using split by (simp add: power_add)
    have sh: "(of_nat (7 * k) + 7 :: int64) = of_nat (7 * Suc k)" by simp
    have e: "push_bit (7 * k) (of_nat (n mod 128)) = (of_nat (2 ^ (7 * k) * (n mod 128)) :: int64)"
      by (simp add: push_bit_eq_mult mult.commute)
    have tot: "acc + of_nat (2 ^ (7 * k) * (n mod 128)) + of_nat (2 ^ (7 * Suc k) * (n div 128)) = acc + of_nat (2 ^ (7 * k) * n)"
    proof -
      have "2 ^ (7 * k) * m + 2 ^ (7 * Suc k) * d = 2 ^ (7 * k) * (m + 128 * d)" for m d :: nat
        by (simp add: power_add algebra_simps)
      note this [of "n mod 128" "n div 128"]
      then show ?thesis by (simp only: add.assoc of_nat_add [symmetric] split [symmetric])
    qed
    have "delta_loop (acc + of_nat (2 ^ (7 * k) * (n mod 128))) (of_nat (7 * Suc k)) (venc (n div 128) @ p) =
      (let acc' = acc + of_nat (2 ^ (7 * k) * n) in if acc' <s 0 then delta_loop acc' 0 p else Some (acc', p))"
      unfolding tot [symmetric] using False k le 1(4) by (intro 1(1)) auto
    then show ?thesis
      unfolding venc_more [OF False] append_Cons delta_loop.simps Let_def u low7_sext sext_sign or_sign
      by (simp only: b e if_False simp_thms if_True sh and.right_neutral)
  qed
qed

lemma delta_sign:
  assumes "0 < sint goal" and "int s < 2 ^ 63"
  shows "(of_nat s - goal :: int64) <s 0 \<longleftrightarrow> int s < sint goal"
proof -
  have "sint goal < 2 ^ 63" using sint_less [of goal] by simp
  then have "sint (of_int (int s - sint goal) :: int64) = int s - sint goal"
    using assms by (intro sint_of_int_small) linarith+
  moreover have "of_int (int s - sint goal) = (of_nat s - goal :: int64)" by simp
  ultimately have "sint (of_nat s - goal :: int64) = int s - sint goal" by (simp only:)
  then show ?thesis by (simp add: word_sless_alt)
qed

lemma delta_run:
  assumes "0 < sint goal" and "int (s + sum_list xs) < sint goal" and "sint goal \<le> int (s + sum_list xs + x)"
    and "int (s + sum_list xs + x) < 2 ^ 63"
  shows "delta_loop (of_nat s - goal) 0 (concat (map venc (xs @ [x])) @ rest) =
    Some (of_nat (s + sum_list xs + x) - goal, rest)"
  using assms(2-4)
proof (induction xs arbitrary: s)
  case Nil
  have "x < 2 ^ 63" using Nil(3) by simp
  then show ?case
    using delta_loop_venc [of 0 x "of_nat s - goal" rest] delta_sign [OF assms(1), of "s + x"] Nil
    by (simp add: Let_def algebra_simps)
next
  case (Cons y ys)
  have "int (s + y) < 2 ^ 63" "y < 2 ^ 63" using Cons(4) by simp_all
  moreover have "int (s + y) < sint goal" using Cons(2) by simp
  ultimately have "delta_loop (of_nat s - goal) 0 (venc y @ concat (map venc (ys @ [x])) @ rest)
      = delta_loop (of_nat (s + y) - goal) 0 (concat (map venc (ys @ [x])) @ rest)"
    using delta_loop_venc [of 0 y "of_nat s - goal" "concat (map venc (ys @ [x])) @ rest"]
      delta_sign [OF assms(1), of "s + y"]
    by (simp add: Let_def algebra_simps)
  also have "\<dots> = Some (of_nat (s + y + sum_list ys + x) - goal, rest)"
    using Cons(2-4) by (intro Cons(1)) (simp_all add: algebra_simps)
  finally show ?case by (simp add: algebra_simps)
qed

lemma FastDecodeDeltas_eq:
  assumes "0 < sint goal" and "int (sum_list xs) < sint goal" and "sint goal \<le> int (sum_list xs + x)"
    and "int (sum_list xs + x) < 2 ^ 63"
  shows "FastDecodeDeltas (concat (map venc (xs @ [x])) @ rest) goal = Some (of_nat (sum_list xs + x), rest)"
  using delta_run [OF assms(1), of 0 xs x rest] assms(2-4) by (simp add: FastDecodeDeltas_def)

end
