(* ===== verification/Endian.thy ===== *)
theory Endian
  imports S2_Bits
begin

text \<open>
  \<^verbatim>\<open>s2/util/endian/endian.h\<close>: integers in memory.  The host is little-endian (\<^verbatim>\<open>IS_LITTLE_ENDIAN\<close>),
  so \<^verbatim>\<open>UNALIGNED_STORE\<close> of an integer writes its bytes lowest first (\<open>mem_bytes\<close>) and
  \<^verbatim>\<open>UNALIGNED_LOAD\<close> reads them back (\<open>mem_word\<close>).  A load takes the bytes at the pointer; the lemmas
  say that every load inverts its store and relate the two variable-length loads to the fixed ones.
\<close>

fun mem_bytes :: "nat \<Rightarrow> 'a::len word \<Rightarrow> byte list" where
  "mem_bytes 0 w = []"
| "mem_bytes (Suc n) w = ucast w # mem_bytes n (drop_bit 8 w)"

fun mem_word :: "byte list \<Rightarrow> 'a::len word" where
  "mem_word [] = 0"
| "mem_word (b # bs) = ucast b OR push_bit 8 (mem_word bs)"


section \<open>LittleEndian\<close>

definition Store16 :: "uint16 \<Rightarrow> byte list" where "Store16 v = mem_bytes 2 v"
definition Store32 :: "uint32 \<Rightarrow> byte list" where "Store32 v = mem_bytes 4 v"
definition Store64 :: "uint64 \<Rightarrow> byte list" where "Store64 v = mem_bytes 8 v"
definition Load16 :: "byte list \<Rightarrow> uint16" where "Load16 p = mem_word (take 2 p)"
definition Load32 :: "byte list \<Rightarrow> uint32" where "Load32 p = mem_word (take 4 p)"
definition Load64 :: "byte list \<Rightarrow> uint64" where "Load64 p = mem_word (take 8 p)"

text \<open>\<^verbatim>\<open>memcpy\<close> of the first three bytes of a word that starts as zero, and of the first three of \<open>v\<close>.\<close>

definition Load24 :: "byte list \<Rightarrow> uint32" where "Load24 p = mem_word (take 3 p @ [0])"
definition Store24 :: "uint32 \<Rightarrow> byte list" where "Store24 v = take 3 (mem_bytes 4 v)"

definition Load64VariableLength :: "byte list \<Rightarrow> nat \<Rightarrow> uint64" where
  "Load64VariableLength src len =
     fold (\<lambda>i val. val OR push_bit (8 * i) (ucast (src ! i))) [0..<len] 0"

definition Store64VariableLength :: "uint64 \<Rightarrow> nat \<Rightarrow> byte list" where
  "Store64VariableLength v len = take len (mem_bytes 8 v)"

definition MakeUint128 :: "uint64 \<Rightarrow> uint64 \<Rightarrow> 128 word" where
  "MakeUint128 high low = push_bit 64 (ucast high) OR ucast low"

definition Load128 :: "byte list \<Rightarrow> 128 word" where
  "Load128 p = MakeUint128 (Load64 (drop 8 p)) (Load64 p)"

definition Store128 :: "128 word \<Rightarrow> byte list" where
  "Store128 v = Store64 (ucast v) @ Store64 (ucast (drop_bit 64 v))"

definition Load128VariableLength :: "byte list \<Rightarrow> nat \<Rightarrow> 128 word" where
  "Load128VariableLength p len =
     (if len \<le> 8 then ucast (Load64VariableLength p len)
      else MakeUint128 (Load64VariableLength (drop 8 p) (len - 8)) (Load64 p))"


section \<open>BigEndian\<close>

definition BE_Load64VariableLength :: "byte list \<Rightarrow> nat \<Rightarrow> uint64" where
  "BE_Load64VariableLength src len =
     fold (\<lambda>i val. if i < len then push_bit 8 val OR ucast (src ! i) else val) [0..<8] 0"


section \<open>What the bytes of a word are\<close>

lemma length_mem_bytes [simp]: "length (mem_bytes n w) = n"
  by (induction n arbitrary: w) auto

lemma bit_mem_word:
  "bit (mem_word bs :: 'a::len word) i \<longleftrightarrow> i < LENGTH('a) \<and> i div 8 < length bs \<and> bit (bs ! (i div 8)) (i mod 8)"
proof (induction bs arbitrary: i)
  case (Cons b bs)
  show ?case
  proof (cases "i < 8")
    case True
    then show ?thesis by (auto simp: bit_simps)
  next
    case False
    then obtain j where i: "i = j + 8" by (metis le_add_diff_inverse2 not_less)
    have "\<not> bit b (j + 8)" using bit_imp_le_length [of b "j + 8"] by auto
    moreover have "(j + 8) div 8 = Suc (j div 8)" "(j + 8) mod 8 = j mod 8" by simp_all
    ultimately show ?thesis unfolding i by (auto simp: bit_simps Cons.IH)
  qed
qed simp

lemma nth_mem_bytes: "k < n \<Longrightarrow> mem_bytes n w ! k = ucast (drop_bit (8 * k) w)"
  by (induction n arbitrary: w k) (auto simp: nth_Cons drop_bit_drop_bit add.commute split: nat.splits)

lemma mem_bytes_append: "mem_bytes (m + n) w = mem_bytes m w @ mem_bytes n (drop_bit (8 * m) w)"
  by (induction m arbitrary: w) (auto simp: drop_bit_drop_bit add.commute)

lemma take_mem_bytes: "m \<le> n \<Longrightarrow> take m (mem_bytes n w) = mem_bytes m w"
  using mem_bytes_append [of m "n - m" w] by simp

lemma mem_word_bytes: "mem_word (mem_bytes n w) = take_bit (8 * n) (w :: 'a::len word)"
proof (rule bit_word_eqI)
  fix i assume i: "i < LENGTH('a)"
  show "bit (mem_word (mem_bytes n w) :: 'a word) i = bit (take_bit (8 * n) w) i"
  proof (cases "i div 8 < n")
    case True
    moreover have "i mod 8 + 8 * (i div 8) = i" by presburger
    ultimately show ?thesis using i
      by (auto simp: bit_mem_word nth_mem_bytes bit_simps add.commute)
  next
    case False
    then show ?thesis using i by (auto simp: bit_mem_word bit_simps)
  qed
qed

lemma mem_word_bytes_full [codec_simps]: "LENGTH('a) \<le> 8 * n \<Longrightarrow> mem_word (mem_bytes n (w :: 'a::len word)) = w"
  by (simp add: mem_word_bytes take_bit_word_eq_self)

lemma mem_bytes_word: "length bs = n \<Longrightarrow> 8 * n \<le> LENGTH('a) \<Longrightarrow> mem_bytes n (mem_word bs :: 'a::len word) = bs"
proof (induction bs arbitrary: n)
  case (Cons b bs)
  then obtain m where n: "n = Suc m" "length bs = m" by auto
  let ?w = "mem_word bs :: 'a word"
  have short: "take_bit (8 * m) ?w = ?w"
    using n(2) by (intro bit_word_eqI) (auto simp: bit_simps bit_mem_word less_mult_imp_div_less)
  have "drop_bit 8 (ucast b OR push_bit 8 ?w) = ?w"
  proof (rule bit_word_eqI)
    fix i assume i: "i < LENGTH('a)"
    have "\<not> bit b (8 + i)" using bit_imp_le_length [of b "8 + i"] by auto
    moreover have "bit ?w i \<Longrightarrow> i < 8 * m" using n(2) by (auto simp: bit_mem_word)
    ultimately show "bit (drop_bit 8 (ucast b OR push_bit 8 ?w)) i = bit ?w i"
      using i Cons.prems(2) n(1) by (auto simp: bit_simps)
  qed
  moreover have "ucast (ucast b OR push_bit 8 ?w) = b"
    using Cons.prems(2) n(1) by (intro bit_word_eqI) (auto simp: bit_simps)
  ultimately show ?case using Cons n by simp
qed simp


section \<open>Loads and stores\<close>

lemma length_Store [simp]:
  "length (Store16 a) = 2" "length (Store32 b) = 4" "length (Store64 c) = 8" "length (Store128 d) = 16"
  by (simp_all add: Store16_def Store32_def Store64_def Store128_def)

lemma Load_Store [codec_simps]:
  "Load16 (Store16 a @ r) = a" "Load32 (Store32 b @ r) = b" "Load64 (Store64 c @ r) = c"
  by (simp_all add: Load16_def Load32_def Load64_def Store16_def Store32_def Store64_def mem_word_bytes_full)

lemma MakeUint128_split: "MakeUint128 (ucast (drop_bit 64 v)) (ucast v) = v"
  unfolding MakeUint128_def by (intro bit_word_eqI) (auto simp: bit_simps)

lemma Load128_Store128 [codec_simps]: "Load128 (Store128 v @ r) = v"
  using MakeUint128_split [of v] by (simp add: Load128_def Store128_def Load_Store)

lemma Load24_Store24 [codec_simps]: "v < 2 ^ 24 \<Longrightarrow> Load24 (Store24 v @ r) = v"
proof -
  assume "v < 2 ^ 24"
  then have "unat v < 2 ^ 24" by (simp add: word_less_nat_alt)
  then have "unat (take_bit 24 v) = unat v" by (simp only: unsigned_take_bit_eq) (simp add: take_bit_eq_mod)
  then have "take_bit 24 v = v" by (simp only: word_unat_eq_iff)
  moreover have "mem_word (bs @ [0]) = (mem_word bs :: uint32)" for bs
    by (induction bs) auto
  ultimately show ?thesis using mem_word_bytes [of 3 v] take_mem_bytes [of 3 4 v]
    by (simp add: Load24_def Store24_def)
qed

lemma Load64VariableLength_bit:
  "bit (Load64VariableLength p len) i \<longleftrightarrow> i < 64 \<and> i div 8 < len \<and> bit (p ! (i div 8)) (i mod 8)"
proof (induction len arbitrary: i)
  case 0
  then show ?case by (simp add: Load64VariableLength_def)
next
  case (Suc len)
  have step: "Load64VariableLength p (Suc len) = Load64VariableLength p len OR push_bit (8 * len) (ucast (p ! len))"
    by (simp add: Load64VariableLength_def)
  show ?case
  proof (cases "i div 8 = len")
    case True
    then have "i - 8 * len = i mod 8" "8 * len \<le> i" by (auto simp: minus_mult_div_eq_mod)
    then show ?thesis unfolding step using True by (auto simp: bit_simps Suc.IH)
  next
    case False
    have "bit (p ! len) (i - 8 * len) \<Longrightarrow> i - 8 * len < 8" using bit_imp_le_length [of "p ! len"] by auto
    then have "\<not> (8 * len \<le> i \<and> bit (p ! len) (i - 8 * len))" using False by (auto simp: div_eq_dividend_iff)
    then show ?thesis unfolding step using False by (auto simp: bit_simps Suc.IH)
  qed
qed

lemma Load64VariableLength_eq:
  assumes "len \<le> length p"
  shows "Load64VariableLength p len = mem_word (take len p)"
  using assms by (intro bit_word_eqI) (auto simp: Load64VariableLength_bit bit_mem_word)

end
