(* ===== verification/Coder.thy ===== *)
theory Coder
  imports Varint_Encode Endian "HOL-Library.Monad_Syntax"
begin

text \<open>
  \<^verbatim>\<open>s2/util/coding/coder.h\<close> and \<^verbatim>\<open>.cc\<close>: the classes \<open>Encoder\<close> and \<open>Decoder\<close>.

  An \<open>Encoder\<close> is a buffer with a write position.  \<open>enc_buf\<close> is the memory from \<^verbatim>\<open>orig_\<close> to
  \<^verbatim>\<open>limit_\<close>, \<open>enc_pos\<close> is \<^verbatim>\<open>buf_ - orig_\<close>, \<open>enc_owned\<close> is \<^verbatim>\<open>orig_ == underlying_buffer_\<close>, and
  \<open>enc_raw\<close> stands for the unspecified contents of memory that the allocator hands out.
  A \<open>Decoder\<close> is a buffer with a read position.

  The put and get routines do not check bounds.  Every operation of the model returns an option,
  and \<open>None\<close> is a fault: an access outside the buffer or a failed \<^verbatim>\<open>S2_CHECK\<close>/\<^verbatim>\<open>S2_DCHECK\<close>.
  A routine that reports errors by returning \<^verbatim>\<open>false\<close> does so inside that option.  Sizes are
  naturals (the code's are \<^verbatim>\<open>size_t\<close>, and allocation of the sizes the code asks for succeeds).
\<close>

record encoder =
  enc_buf :: "byte list"
  enc_pos :: nat
  enc_owned :: bool
  enc_raw :: "nat \<Rightarrow> byte"

record decoder =
  dec_buf :: "byte list"
  dec_pos :: nat


section \<open>Encoder: state\<close>

definition Encoder_new :: "(nat \<Rightarrow> byte) \<Rightarrow> encoder" where
  "Encoder_new raw = \<lparr>enc_buf = [], enc_pos = 0, enc_owned = True, enc_raw = raw\<rparr>"

definition Encoder_on :: "byte list \<Rightarrow> (nat \<Rightarrow> byte) \<Rightarrow> encoder" where
  "Encoder_on buf raw = \<lparr>enc_buf = buf, enc_pos = 0, enc_owned = False, enc_raw = raw\<rparr>"

definition Encoder_reset :: "encoder \<Rightarrow> encoder" where
  "Encoder_reset e = e\<lparr>enc_buf := [], enc_pos := 0, enc_owned := True\<rparr>"

definition Encoder_reset_on :: "byte list \<Rightarrow> encoder \<Rightarrow> encoder" where
  "Encoder_reset_on buf e = e\<lparr>enc_buf := buf, enc_pos := 0, enc_owned := False\<rparr>"

definition Encoder_clear :: "encoder \<Rightarrow> encoder" where
  "Encoder_clear e = e\<lparr>enc_pos := 0\<rparr>"

text \<open>The move constructor and the move assignment (between different objects) give the new state
  and what is left of \<open>other\<close>.\<close>

definition Encoder_move :: "encoder \<Rightarrow> encoder \<times> encoder" where
  "Encoder_move other = (other, other\<lparr>enc_buf := [], enc_pos := 0, enc_owned := True\<rparr>)"

definition enc_length :: "encoder \<Rightarrow> nat" where "enc_length e = enc_pos e"
definition enc_avail :: "encoder \<Rightarrow> nat" where "enc_avail e = length (enc_buf e) - enc_pos e"
definition enc_capacity :: "encoder \<Rightarrow> nat" where "enc_capacity e = length (enc_buf e)"
definition ensure_allowed :: "encoder \<Rightarrow> bool" where "ensure_allowed e = enc_owned e"

definition NewBuffer :: "encoder \<Rightarrow> nat \<Rightarrow> byte list" where
  "NewBuffer e n = map (enc_raw e) [0..<n]"

definition EnsureSlowPath :: "nat \<Rightarrow> encoder \<Rightarrow> encoder option" where
  "EnsureSlowPath N e =
     (if \<not> ensure_allowed e then None else
      let current_len = enc_length e;
          new_buffer = NewBuffer e (max (current_len + N) (2 * current_len));
          new_buffer = write_at new_buffer 0 (take current_len (enc_buf e));
          e' = e\<lparr>enc_buf := new_buffer, enc_pos := current_len\<rparr>
      in if enc_avail e' \<ge> N then Some e' else None)"

definition Ensure :: "nat \<Rightarrow> encoder \<Rightarrow> encoder option" where
  "Ensure N e =
     (if \<not> ensure_allowed e then None else if enc_avail e < N then EnsureSlowPath N e else Some e)"

definition enc_skip :: "int \<Rightarrow> encoder \<Rightarrow> encoder option" where
  "enc_skip N e =
     (if 0 \<le> int (enc_pos e) + N \<and> int (enc_pos e) + N \<le> int (length (enc_buf e))
      then Some (e\<lparr>enc_pos := nat (int (enc_pos e) + N)\<rparr>) else None)"

definition RemoveLast :: "nat \<Rightarrow> encoder \<Rightarrow> encoder option" where
  "RemoveLast N e = enc_skip (- int N) e"

definition Resize :: "nat \<Rightarrow> encoder \<Rightarrow> encoder option" where
  "Resize N e = (if enc_length e \<ge> N then Some (e\<lparr>enc_pos := N\<rparr>) else None)"


section \<open>Encoder: writing\<close>

text \<open>\<open>put_bytes\<close> is a store through the writer's pointer, with the pointer moved behind it.\<close>

definition put_bytes :: "byte list \<Rightarrow> encoder \<Rightarrow> encoder option" where
  "put_bytes bs e =
     (if enc_pos e + length bs \<le> length (enc_buf e)
      then Some (e\<lparr>enc_buf := write_at (enc_buf e) (enc_pos e) bs, enc_pos := enc_pos e + length bs\<rparr>)
      else None)"

definition put8 :: "byte \<Rightarrow> encoder \<Rightarrow> encoder option" where "put8 v = put_bytes [v]"
definition put16 :: "uint16 \<Rightarrow> encoder \<Rightarrow> encoder option" where "put16 v = put_bytes (Store16 v)"
definition put32 :: "uint32 \<Rightarrow> encoder \<Rightarrow> encoder option" where "put32 v = put_bytes (Store32 v)"
definition put64 :: "uint64 \<Rightarrow> encoder \<Rightarrow> encoder option" where "put64 v = put_bytes (Store64 v)"
definition put128 :: "128 word \<Rightarrow> encoder \<Rightarrow> encoder option" where "put128 v = put_bytes (Store128 v)"

definition putn :: "byte list \<Rightarrow> nat \<Rightarrow> encoder \<Rightarrow> encoder option" where
  "putn mem n e = (if n \<le> length mem then put_bytes (take n mem) e else None)"

text \<open>\<open>memccpy mem c n\<close> is what is copied, up to and including the first \<open>c\<close>, at most \<open>n\<close> bytes.\<close>

fun memccpy :: "byte list \<Rightarrow> byte \<Rightarrow> nat \<Rightarrow> byte list option" where
  "memccpy mem c 0 = Some []"
| "memccpy [] c (Suc n) = None"
| "memccpy (b # mem) c (Suc n) = (if b = c then Some [b] else map_option (Cons b) (memccpy mem c n))"

definition putcn :: "byte list \<Rightarrow> byte \<Rightarrow> nat \<Rightarrow> encoder \<Rightarrow> encoder option" where
  "putcn mem c n e = do { bs \<leftarrow> memccpy mem c n; put_bytes bs e }"

definition puts :: "byte list \<Rightarrow> encoder \<Rightarrow> encoder option" where
  "puts mem e = putcn mem 0 (enc_avail e) e"

fun puts_without_null :: "byte list \<Rightarrow> encoder \<Rightarrow> encoder option" where
  "puts_without_null [] e = None"
| "puts_without_null (b # mem) e =
     (if b \<noteq> 0 \<and> enc_pos e < length (enc_buf e)
      then do { e' \<leftarrow> put_bytes [b] e; puts_without_null mem e' } else Some e)"

definition put_varint32 :: "uint32 \<Rightarrow> encoder \<Rightarrow> encoder option" where
  "put_varint32 v = put_bytes (Encode32 v)"
definition put_varint32_inline :: "uint32 \<Rightarrow> encoder \<Rightarrow> encoder option" where
  "put_varint32_inline v = put_bytes (Encode32Inline v)"
definition put_varint64 :: "uint64 \<Rightarrow> encoder \<Rightarrow> encoder option" where
  "put_varint64 v = put_bytes (Encode64 v)"
definition varint32_length :: "uint32 \<Rightarrow> nat" where "varint32_length v = Length32 v"
definition varint64_length :: "uint64 \<Rightarrow> nat" where "varint64_length v = Length64 v"


text \<open>A loop that writes the elements of a list.\<close>

fun each :: "('a \<Rightarrow> encoder \<Rightarrow> encoder option) \<Rightarrow> 'a list \<Rightarrow> encoder \<Rightarrow> encoder option" where
  "each f [] e = Some e"
| "each f (x # xs) e = do { e' \<leftarrow> f x e; each f xs e' }"

text \<open>A loop that decodes \<open>n\<close> elements and gives up at the first \<^verbatim>\<open>false\<close>.\<close>

fun times :: "(decoder \<Rightarrow> (('a \<times> decoder) option) option) \<Rightarrow> nat \<Rightarrow> decoder \<Rightarrow> (('a list \<times> decoder) option) option" where
  "times f 0 d = Some (Some ([], d))"
| "times f (Suc n) d =
     do { r \<leftarrow> f d;
          case r of None \<Rightarrow> Some None
          | Some (x, d) \<Rightarrow>
              do { r \<leftarrow> times f n d;
                   case r of None \<Rightarrow> Some None | Some (xs, d) \<Rightarrow> Some (Some (x # xs, d)) } }"


section \<open>Decoder\<close>

definition Decoder_on :: "byte list \<Rightarrow> decoder" where
  "Decoder_on buf = \<lparr>dec_buf = buf, dec_pos = 0\<rparr>"

definition Decoder_reset :: "byte list \<Rightarrow> decoder \<Rightarrow> decoder" where
  "Decoder_reset buf d = d\<lparr>dec_buf := buf, dec_pos := 0\<rparr>"

definition decoder_pos :: "decoder \<Rightarrow> nat" where "decoder_pos d = dec_pos d"
definition avail :: "decoder \<Rightarrow> nat" where "avail d = length (dec_buf d) - dec_pos d"

text \<open>The bytes at the decoder's pointer.\<close>

definition ptr :: "decoder \<Rightarrow> byte list" where "ptr d = drop (dec_pos d) (dec_buf d)"

definition skip :: "nat \<Rightarrow> decoder \<Rightarrow> decoder option" where
  "skip n d =
     (if dec_pos d + n \<le> length (dec_buf d) then Some (d\<lparr>dec_pos := dec_pos d + n\<rparr>) else None)"

definition getn :: "nat \<Rightarrow> decoder \<Rightarrow> (byte list \<times> decoder) option" where
  "getn n d = map_option (Pair (take n (ptr d))) (skip n d)"

definition get8 :: "decoder \<Rightarrow> (byte \<times> decoder) option" where
  "get8 d = map_option (map_prod hd id) (getn 1 d)"
definition get16 :: "decoder \<Rightarrow> (uint16 \<times> decoder) option" where
  "get16 d = map_option (map_prod Load16 id) (getn 2 d)"
definition get32 :: "decoder \<Rightarrow> (uint32 \<times> decoder) option" where
  "get32 d = map_option (map_prod Load32 id) (getn 4 d)"
definition get64 :: "decoder \<Rightarrow> (uint64 \<times> decoder) option" where
  "get64 d = map_option (map_prod Load64 id) (getn 8 d)"
definition get128 :: "decoder \<Rightarrow> (128 word \<times> decoder) option" where
  "get128 d = map_option (map_prod Load128 id) (getn 16 d)"

definition getcn :: "byte \<Rightarrow> nat \<Rightarrow> decoder \<Rightarrow> (byte list \<times> decoder) option" where
  "getcn c n d = do { bs \<leftarrow> memccpy (ptr d) c n; getn (length bs) d }"

text \<open>\<open>gets n dst d\<close> fills the memory \<open>dst\<close>.\<close>

definition gets :: "nat \<Rightarrow> byte list \<Rightarrow> decoder \<Rightarrow> (byte list \<times> decoder) option" where
  "gets n dst d =
     (if n = 0 then None else
      let len = (if n > 1 + avail d then avail d else n - 1)
      in if len < length dst
         then map_option (map_prod (write_at (dst[len := 0]) 0) id) (getcn 0 len d) else None)"

definition get_varint32 :: "decoder \<Rightarrow> (uint32 \<times> decoder) option" where
  "get_varint32 d =
     map_option (map_prod id (\<lambda>r. d\<lparr>dec_pos := length (dec_buf d) - length r\<rparr>)) (Parse32WithLimit (ptr d))"
definition get_varint64 :: "decoder \<Rightarrow> (uint64 \<times> decoder) option" where
  "get_varint64 d =
     map_option (map_prod id (\<lambda>r. d\<lparr>dec_pos := length (dec_buf d) - length r\<rparr>)) (Parse64WithLimit_x86 (ptr d))"


section \<open>Copying a varint from a decoder\<close>

definition CopyAndAdvance :: "nat \<Rightarrow> decoder \<Rightarrow> encoder \<Rightarrow> (bool \<times> decoder \<times> encoder) option" where
  "CopyAndAdvance N d e = do { (bs, d') \<leftarrow> getn N d; e' \<leftarrow> put_bytes bs e; Some (True, d', e') }"

text \<open>The \<^verbatim>\<open>do\<close> loop runs on the rest of the decoder's buffer and the rest of the encoder's memory;
  it gives the bytes written and whether the last of them ended a varint.\<close>

fun copy_loop :: "byte list \<Rightarrow> nat \<Rightarrow> byte list \<times> bool" where
  "copy_loop [] room = ([], False)"
| "copy_loop (c # p) 0 = ([], False)"
| "copy_loop (c # p) (Suc room) = (if c \<ge> 128 then map_prod (Cons c) id (copy_loop p room) else ([c], True))"

definition PutVarint64FromDecoderLessCommonSizes ::
  "decoder \<Rightarrow> encoder \<Rightarrow> (bool \<times> decoder \<times> encoder) option" where
  "PutVarint64FromDecoderLessCommonSizes d e =
     (if avail d \<ge> 10 \<and> enc_avail e \<ge> 10
      then
        let p = ptr d
        in if p ! 2 < 128 then CopyAndAdvance 3 d e
           else if p ! 3 < 128 then CopyAndAdvance 4 d e
           else if p ! 4 < 128 then CopyAndAdvance 5 d e
           else if p ! 5 < 128 then CopyAndAdvance 6 d e
           else if p ! 6 < 128 then CopyAndAdvance 7 d e
           else if p ! 7 < 128 then CopyAndAdvance 8 d e
           else if p ! 8 < 128 then CopyAndAdvance 9 d e
           else if p ! 9 < 2 then CopyAndAdvance 10 d e
           else Some (False, d, e)
      else
        let (bs, ok) = copy_loop (ptr d) (enc_avail e);
            e' = e\<lparr>enc_buf := write_at (enc_buf e) (enc_pos e) bs\<rparr>
        in if ok
           then Some (True, d\<lparr>dec_pos := dec_pos d + length bs\<rparr>, e'\<lparr>enc_pos := enc_pos e + length bs\<rparr>)
           else Some (False, d, e'))"

definition put_varint64_from_decoder ::
  "decoder \<Rightarrow> encoder \<Rightarrow> (bool \<times> decoder \<times> encoder) option" where
  "put_varint64_from_decoder d e =
     (if avail d > 0 \<and> ptr d ! 0 < 128
      then if enc_avail e = 0 then Some (False, d, e) else CopyAndAdvance 1 d e
      else if avail d > 1 \<and> ptr d ! 1 < 128
      then if enc_avail e \<le> 1 then Some (False, d, e) else CopyAndAdvance 2 d e
      else PutVarint64FromDecoderLessCommonSizes d e)"

end
