(* ===== verification/Codec.thy ===== *)
theory Codec
  imports Coder
begin

text \<open>
  What the routines of \<open>Encoder\<close> and \<open>Decoder\<close> promise: \<open>emits\<close> (in a good encoder with room, the
  operation succeeds and appends given bytes), \<open>reads\<close> (in front of given bytes, the operation
  returns a value and moves behind them), and the locale \<open>codec\<close> that pairs the two.
\<close>


section \<open>Encoders\<close>

definition enc_ok :: "encoder \<Rightarrow> bool" where
  "enc_ok e \<longleftrightarrow> enc_pos e \<le> length (enc_buf e)"

definition encoded :: "encoder \<Rightarrow> byte list" where
  "encoded e = take (enc_pos e) (enc_buf e)"

definition wrote :: "encoder \<Rightarrow> byte list \<Rightarrow> encoder \<Rightarrow> bool" where
  "wrote e bs e' \<longleftrightarrow> enc_ok e' \<and> encoded e' = encoded e @ bs \<and> enc_owned e' = enc_owned e"

text \<open>\<open>emits own n f bs m\<close>: given room for \<open>n\<close> bytes (and ownership of the buffer if \<open>own\<close>) \<open>f\<close>
  appends \<open>bs\<close> and leaves room for \<open>m\<close>.\<close>

definition emits :: "bool \<Rightarrow> nat \<Rightarrow> (encoder \<Rightarrow> encoder option) \<Rightarrow> byte list \<Rightarrow> nat \<Rightarrow> bool" where
  "emits own n f bs m \<longleftrightarrow>
     (\<forall>e. enc_ok e \<longrightarrow> (own \<longrightarrow> enc_owned e) \<longrightarrow> n \<le> enc_avail e \<longrightarrow>
       (\<exists>e'. f e = Some e' \<and> wrote e bs e' \<and> m \<le> enc_avail e'))"

lemma wrote_refl: "enc_ok e \<Longrightarrow> wrote e [] e"
  by (simp add: wrote_def)

lemma wrote_trans: "wrote e bs e' \<Longrightarrow> wrote e' cs e'' \<Longrightarrow> wrote e (bs @ cs) e''"
  by (simp add: wrote_def)

lemma length_encoded: "enc_ok e \<Longrightarrow> length (encoded e) = enc_length e"
  by (simp add: encoded_def enc_ok_def enc_length_def)

lemma put_bytes_ok:
  assumes "enc_ok e" "length bs \<le> enc_avail e"
  obtains e' where "put_bytes bs e = Some e'" "wrote e bs e'" "enc_avail e' = enc_avail e - length bs"
    "enc_length e' = enc_length e + length bs"
proof -
  let ?e = "e\<lparr>enc_buf := write_at (enc_buf e) (enc_pos e) bs, enc_pos := enc_pos e + length bs\<rparr>"
  have "put_bytes bs e = Some ?e" using assms by (simp add: put_bytes_def enc_ok_def enc_avail_def)
  moreover have "wrote e bs ?e" "enc_avail ?e = enc_avail e - length bs" "enc_length ?e = enc_length e + length bs"
    using assms by (simp_all add: wrote_def enc_ok_def encoded_def write_at_def enc_avail_def enc_length_def)
  ultimately show ?thesis by (rule that)
qed

lemma put_bytes_fault: "enc_ok e \<Longrightarrow> put_bytes bs e = None \<longleftrightarrow> enc_avail e < length bs"
  by (auto simp: put_bytes_def enc_ok_def enc_avail_def)

lemma emits_put: "emits own (length bs + n) (put_bytes bs) bs n"
  unfolding emits_def
proof (intro allI impI)
  fix e assume "enc_ok e" "length bs + n \<le> enc_avail e"
  moreover then obtain e' where "put_bytes bs e = Some e'" "wrote e bs e'" "enc_avail e' = enc_avail e - length bs"
    by (rule_tac put_bytes_ok [of e bs]) auto
  ultimately show "\<exists>e'. put_bytes bs e = Some e' \<and> wrote e bs e' \<and> n \<le> enc_avail e'"
    by (intro exI [of _ e']) auto
qed

lemma emits_Some: "emits own n Some [] n"
  by (auto simp: emits_def intro: wrote_refl)

lemma emits_bind:
  assumes "emits own n f bs m" "emits own m g cs k"
  shows "emits own n (\<lambda>e. f e \<bind> g) (bs @ cs) k"
  unfolding emits_def
proof (intro allI impI)
  fix e assume e: "enc_ok e" "own \<longrightarrow> enc_owned e" "n \<le> enc_avail e"
  then obtain e1 where 1: "f e = Some e1" "wrote e bs e1" "m \<le> enc_avail e1"
    using assms(1) unfolding emits_def by blast
  then have "enc_ok e1" "own \<longrightarrow> enc_owned e1" using e(2) by (simp_all add: wrote_def)
  then obtain e2 where "g e1 = Some e2" "wrote e1 cs e2" "k \<le> enc_avail e2"
    using assms(2) 1(3) unfolding emits_def by blast
  then show "\<exists>e'. f e \<bind> g = Some e' \<and> wrote e (bs @ cs) e' \<and> k \<le> enc_avail e'"
    using 1 wrote_trans by (intro exI [of _ e2]) auto
qed

lemma emits_weaken: "emits own n f bs m \<Longrightarrow> n \<le> n' \<Longrightarrow> m' \<le> m \<Longrightarrow> emits own n' f bs m'"
  unfolding emits_def by (meson le_trans)

lemma emits_own: "emits False n f bs m \<Longrightarrow> emits own n f bs m"
  unfolding emits_def by blast

lemma emitsD:
  assumes "emits own n f bs m" "enc_ok e" "own \<longrightarrow> enc_owned e" "n \<le> enc_avail e"
  obtains e' where "f e = Some e'" "wrote e bs e'"
  using assms unfolding emits_def by blast

text \<open>\<open>Ensure\<close> keeps what is encoded, whatever fresh memory contains.\<close>

lemma emits_Ensure: "emits True 0 (Ensure N) [] N"
  unfolding emits_def
proof (intro allI impI)
  fix e assume e: "enc_ok e" "True \<longrightarrow> enc_owned e" "0 \<le> enc_avail e"
  show "\<exists>e'. Ensure N e = Some e' \<and> wrote e [] e' \<and> N \<le> enc_avail e'"
  proof (cases "enc_avail e < N")
    case True
    let ?cap = "max (enc_pos e + N) (2 * enc_pos e)"
    let ?e = "e\<lparr>enc_buf := write_at (NewBuffer e ?cap) 0 (take (enc_pos e) (enc_buf e)), enc_pos := enc_pos e\<rparr>"
    have len: "length (enc_buf ?e) = ?cap"
      using e(1) by (simp add: write_at_def NewBuffer_def enc_ok_def)
    then have "EnsureSlowPath N e = Some ?e" "N \<le> enc_avail ?e"
      using e(2) by (simp_all add: EnsureSlowPath_def Let_def ensure_allowed_def enc_length_def enc_avail_def)
    moreover have "wrote e [] ?e"
      using e(1) len by (auto simp: wrote_def enc_ok_def encoded_def write_at_def)
    ultimately show ?thesis using True e(2) by (auto simp: Ensure_def ensure_allowed_def)
  next
    case False
    then show ?thesis using e by (auto simp: Ensure_def ensure_allowed_def intro: wrote_refl)
  qed
qed

lemma emits_Ensure_bind:
  assumes "emits True N f bs m"
  shows "emits True 0 (\<lambda>e. Ensure N e \<bind> f) bs m"
  using emits_bind [OF emits_Ensure assms] by simp

lemma emits_each:
  assumes "\<And>x n. x \<in> set xs \<Longrightarrow> emits own (length (bytes x) + n) (f x) (bytes x) n"
  shows "emits own (length (concat (map bytes xs)) + n) (each f xs) (concat (map bytes xs)) n"
  using assms
proof (induction xs)
  case Nil
  then show ?case using emits_Some by (simp add: emits_def wrote_refl)
next
  case (Cons x xs)
  have "emits own (length (bytes x) + (length (concat (map bytes xs)) + n))
    (\<lambda>e. f x e \<bind> each f xs) (bytes x @ concat (map bytes xs)) n"
    using Cons by (intro emits_bind [where m = "length (concat (map bytes xs)) + n"]) auto
  then show ?case by (simp add: add.assoc)
qed


section \<open>Decoders\<close>

definition past :: "nat \<Rightarrow> decoder \<Rightarrow> decoder" where
  "past n d = d\<lparr>dec_pos := dec_pos d + n\<rparr>"

definition reads :: "(decoder \<Rightarrow> ('a \<times> decoder) option) \<Rightarrow> byte list \<Rightarrow> 'a \<Rightarrow> bool" where
  "reads f bs v \<longleftrightarrow> (\<forall>d r. bs \<noteq> [] \<longrightarrow> ptr d = bs @ r \<longrightarrow> f d = Some (v, past (length bs) d))"

lemma ptr_past [simp]: "ptr (past n d) = drop n (ptr d)"
  by (simp add: ptr_def past_def add.commute)

lemma past_past [simp]: "past m (past n d) = past (n + m) d"
  by (simp add: past_def)

lemma past_0 [simp]: "past 0 d = d"
  by (simp add: past_def)

lemma avail_ptr: "avail d = length (ptr d)"
  by (simp add: avail_def ptr_def)

lemma ptr_Decoder_on [simp]: "ptr (Decoder_on bs) = bs"
  by (simp add: ptr_def Decoder_on_def)

lemma getn_eq: "n \<le> avail d \<Longrightarrow> dec_pos d \<le> length (dec_buf d) \<Longrightarrow> getn n d = Some (take n (ptr d), past n d)"
  by (simp add: getn_def skip_def avail_def past_def)

lemma pos_ok: "ptr d \<noteq> [] \<Longrightarrow> dec_pos d \<le> length (dec_buf d)"
  by (simp add: ptr_def)

lemma skip_eq: "n \<le> avail d \<Longrightarrow> dec_pos d \<le> length (dec_buf d) \<Longrightarrow> skip n d = Some (past n d)"
  by (simp add: skip_def avail_def past_def)

lemma reads_getn: "reads (getn (length bs)) bs bs"
  unfolding reads_def
proof (intro allI impI)
  fix d r assume "bs \<noteq> []" "ptr d = bs @ r"
  then show "getn (length bs) d = Some (bs, past (length bs) d)"
    using getn_eq [of "length bs" d] pos_ok [of d] by (simp add: avail_ptr)
qed

lemma reads_map:
  assumes "reads f bs v" "\<And>w d. g (w, d) = (h w, d)"
  shows "reads (\<lambda>d. map_option g (f d)) bs (h v)"
  using assms unfolding reads_def by (auto simp: assms(2))

lemma reads_get:
  "reads get8 [b] b" "reads get16 (Store16 w) w" "reads get32 (Store32 u) u" "reads get64 (Store64 x) x"
  "reads get128 (Store128 y) y"
  using reads_getn [of "[b]"] reads_getn [of "Store16 w"] reads_getn [of "Store32 u"] reads_getn [of "Store64 x"]
    reads_getn [of "Store128 y"] Load_Store [of _ "[]"] Load128_Store128 [of _ "[]"]
  unfolding reads_def get8_def get16_def get32_def get64_def get128_def by simp_all

lemma reads_varint:
  "reads get_varint32 (Encode32 u) u" "reads get_varint64 (Encode64 x) x"
proof -
  have pos: "d\<lparr>dec_pos := length (dec_buf d) - length r\<rparr> = past (length bs) d"
    if "ptr d = bs @ r" "bs \<noteq> []" for d bs r
  proof -
    have "length (dec_buf d) - dec_pos d = length bs + length r" "dec_pos d \<le> length (dec_buf d)"
      using arg_cong [OF that(1), of length] that pos_ok [of d] by (simp_all add: ptr_def)
    then have "length (dec_buf d) - length r = dec_pos d + length bs" by linarith
    then show ?thesis by (simp add: past_def)
  qed
  have "varint_parse 5 (Encode32 u @ r) = Some (u, r)" "varint_parse 10 (Encode64 x @ r) = Some (x, r)" for r
    unfolding Encode32_eq Encode64_eq by (rule parse_venc; simp)+
  then show "reads get_varint32 (Encode32 u) u" "reads get_varint64 (Encode64 x) x"
    using pos unfolding reads_def get_varint32_def get_varint64_def Parse32WithLimit_eq Parse64WithLimit_x86_eq
    by simp_all
qed

lemma readsD: "reads f bs v \<Longrightarrow> bs \<noteq> [] \<Longrightarrow> ptr d = bs @ r \<Longrightarrow> f d = Some (v, past (length bs) d)"
  unfolding reads_def by blast

lemma avail_ge: "ptr d = bs @ r \<Longrightarrow> length bs \<le> avail d"
  by (simp add: avail_ptr)


section \<open>Reading within bounds\<close>

definition good :: "decoder \<Rightarrow> bool" where
  "good d \<longleftrightarrow> dec_pos d \<le> length (dec_buf d)"

definition stays :: "decoder \<Rightarrow> decoder \<Rightarrow> bool" where
  "stays d d' \<longleftrightarrow> dec_buf d' = dec_buf d \<and> dec_pos d \<le> dec_pos d' \<and> good d'"

text \<open>\<open>checked f\<close>: on every input \<open>f\<close> reads only inside the buffer, and says \<^verbatim>\<open>true\<close> or \<^verbatim>\<open>false\<close>.\<close>

definition checked :: "(decoder \<Rightarrow> (('a \<times> decoder) option) option) \<Rightarrow> bool" where
  "checked f \<longleftrightarrow> (\<forall>d. good d \<longrightarrow> (f d = Some None \<or> (\<exists>v d'. f d = Some (Some (v, d')) \<and> stays d d')))"

lemma checkedD:
  assumes "checked f" "good d"
  obtains "f d = Some None" | v d' where "f d = Some (Some (v, d'))" "stays d d'"
  using assms unfolding checked_def by blast

lemma stays_refl: "good d \<Longrightarrow> stays d d"
  by (simp add: stays_def)

lemma stays_trans: "stays d d' \<Longrightarrow> stays d' d'' \<Longrightarrow> stays d d''"
  by (auto simp: stays_def)

lemma stays_good: "stays d d' \<Longrightarrow> good d'"
  by (simp add: stays_def)

lemma stays_past: "good d \<Longrightarrow> n \<le> avail d \<Longrightarrow> stays d (past n d)"
  by (auto simp: stays_def good_def past_def avail_def)

lemma checked_times: "checked f \<Longrightarrow> checked (times f n)"
proof (induction n)
  case 0
  then show ?case by (auto simp: checked_def stays_refl)
next
  case (Suc n)
  show ?case unfolding checked_def
  proof (intro allI impI)
    fix d assume g: "good d"
    show "times f (Suc n) d = Some None \<or> (\<exists>v d'. times f (Suc n) d = Some (Some (v, d')) \<and> stays d d')"
    proof (cases rule: checkedD [OF Suc.prems g])
      case (2 v d')
      show ?thesis
        by (cases rule: checkedD [OF Suc.IH [OF Suc.prems] stays_good [OF 2(2)]])
          (use 2 in \<open>auto intro: stays_trans\<close>)
    qed simp
  qed
qed

lemma get8_good: "good d \<Longrightarrow> 1 \<le> avail d \<Longrightarrow> get8 d = Some (hd (ptr d), past 1 d)"
  using getn_eq [of 1 d] by (cases "ptr d") (auto simp: get8_def good_def avail_ptr)

lemma get64_good: "good d \<Longrightarrow> 8 \<le> avail d \<Longrightarrow> get64 d = Some (Load64 (take 8 (ptr d)), past 8 d)"
  using getn_eq [of 8 d] by (simp add: get64_def good_def)

lemma get_varint_checked:
  "good d \<Longrightarrow> get_varint32 d = Some (u, d') \<Longrightarrow> stays d d'"
  "good d \<Longrightarrow> get_varint64 d = Some (v, d') \<Longrightarrow> stays d d'"
proof -
  have len: "length r \<le> length (ptr d)" if "varint_parse n (ptr d) = Some (w :: 'a::len word, r)" for w n r
    using that vdec_length by (auto simp: varint_parse_def less_imp_le split: option.splits if_splits)
  show "good d \<Longrightarrow> get_varint32 d = Some (u, d') \<Longrightarrow> stays d d'"
    "good d \<Longrightarrow> get_varint64 d = Some (v, d') \<Longrightarrow> stays d d'"
    unfolding get_varint32_def get_varint64_def Parse32WithLimit_eq Parse64WithLimit_x86_eq
    using len by (fastforce simp: stays_def good_def ptr_def)+
qed


section \<open>Codecs\<close>

text \<open>\<open>dec\<close> reads the bytes of a value; it may fault (\<open>None\<close>) or return \<^verbatim>\<open>false\<close> (\<open>Some None\<close>).\<close>

locale codec =
  fixes ok :: "'a \<Rightarrow> bool"
    and bytes :: "'a \<Rightarrow> byte list"
    and dec :: "decoder \<Rightarrow> (('a \<times> decoder) option) option"
  assumes dec_reads: "ok v \<Longrightarrow> ptr d = bytes v @ r \<Longrightarrow> dec d = Some (Some (v, past (length (bytes v)) d))"
begin

lemma prefix_free:
  assumes "ok v" "ok w" "bytes v @ r = bytes w @ s"
  shows "v = w \<and> r = s"
proof -
  have "dec (Decoder_on (bytes v @ r)) = Some (Some (v, past (length (bytes v)) (Decoder_on (bytes v @ r))))"
    using dec_reads [OF assms(1)] by simp
  moreover have "dec (Decoder_on (bytes v @ r)) = Some (Some (w, past (length (bytes w)) (Decoder_on (bytes v @ r))))"
    using dec_reads [OF assms(2)] assms(3) by simp
  ultimately have "v = w" by simp
  then show ?thesis using assms(3) by simp
qed

lemma dec_list:
  "\<forall>v\<in>set vs. ok v \<Longrightarrow> ptr d = concat (map bytes vs) @ r \<Longrightarrow>
    times dec (length vs) d = Some (Some (vs, past (length (concat (map bytes vs))) d))"
proof (induction vs arbitrary: d)
  case (Cons v vs)
  then have "dec d = Some (Some (v, past (length (bytes v)) d))"
    by (intro dec_reads [where r = "concat (map bytes vs) @ r"]) auto
  moreover have "times dec (length vs) (past (length (bytes v)) d)
      = Some (Some (vs, past (length (concat (map bytes vs))) (past (length (bytes v)) d)))"
    using Cons by (intro Cons.IH) auto
  ultimately show ?case by simp
qed simp

lemma injective: "ok v \<Longrightarrow> ok w \<Longrightarrow> bytes v = bytes w \<Longrightarrow> v = w"
  using prefix_free [of v w "[]" "[]"] by simp

end

text \<open>A codec whose writer asks for room itself.\<close>

locale growing_codec = codec +
  fixes enc :: "'a \<Rightarrow> encoder \<Rightarrow> encoder option"
  assumes enc_grows: "ok v \<Longrightarrow> emits True 0 (enc v) (bytes v) 0"
begin

lemma roundtrip:
  assumes "ok v" "enc_ok e" "enc_owned e"
  obtains e' where "enc v e = Some e'" "wrote e (bytes v) e'"
    "\<And>d junk. ptr d = drop (length (encoded e)) (encoded e' @ junk) \<Longrightarrow>
      dec d = Some (Some (v, past (length (bytes v)) d))"
proof -
  obtain e' where "enc v e = Some e'" "wrote e (bytes v) e'"
    using emitsD [OF enc_grows [OF assms(1)]] assms by auto
  then show ?thesis by (intro that) (auto simp: wrote_def intro: dec_reads [OF assms(1)])
qed

lemma enc_list: "\<forall>v\<in>set vs. ok v \<Longrightarrow> emits True 0 (each enc vs) (concat (map bytes vs)) 0"
proof (induction vs)
  case Nil
  then show ?case by (simp add: emits_def wrote_refl)
next
  case (Cons v vs)
  then have "emits True 0 (\<lambda>e. enc v e \<bind> each enc vs) (bytes v @ concat (map bytes vs)) 0"
    by (intro emits_bind [where m = 0] enc_grows) auto
  then show ?case by simp
qed

end

text \<open>A growing codec whose reader never leaves the buffer, whatever is in it.\<close>

locale checked_codec = growing_codec +
  assumes dec_checked: "checked dec"
begin

lemma dec_total: "good d \<Longrightarrow> dec d \<noteq> None"
  using checkedD [OF dec_checked] by blast

lemma dec_list_checked: "checked (times dec n)"
  by (rule checked_times [OF dec_checked])

end

text \<open>A codec whose writer needs room; with an \<open>Ensure\<close> in front it becomes a growing one.\<close>

locale raw_codec = codec +
  fixes room :: "'a \<Rightarrow> nat"
    and enc :: "'a \<Rightarrow> encoder \<Rightarrow> encoder option"
  assumes enc_fits: "ok v \<Longrightarrow> emits False (room v + n) (enc v) (bytes v) n"
begin

definition ensured :: "'a \<Rightarrow> encoder \<Rightarrow> encoder option" where
  "ensured v e = do { e' \<leftarrow> Ensure (room v) e; enc v e' }"

lemma ensured_grows: "ok v \<Longrightarrow> emits True 0 (ensured v) (bytes v) 0"
  unfolding ensured_def [abs_def]
  using emits_Ensure_bind [OF emits_own, OF enc_fits [of v 0]] by simp

lemma emits_list:
  assumes "\<forall>v\<in>set vs. ok v \<and> room v = length (bytes v)"
  shows "emits False (length (concat (map bytes vs)) + n) (each enc vs) (concat (map bytes vs)) n"
  using assms by (intro emits_each) (metis enc_fits)

end

sublocale raw_codec \<subseteq> grown: growing_codec ok bytes dec ensured
  by unfold_locales (rule ensured_grows)

text \<open>A getter that cannot return \<^verbatim>\<open>false\<close>.\<close>

definition always :: "('a \<times> decoder) option \<Rightarrow> (('a \<times> decoder) option) option" where
  "always = map_option Some"

lemma codec_put:
  assumes "\<And>v. reads get (bs v) v" "\<And>v. bs v \<noteq> []"
  shows "raw_codec (\<lambda>_. True) bs (\<lambda>d. always (get d)) (\<lambda>v. length (bs v)) (\<lambda>v. put_bytes (bs v))"
    and "raw_codec (\<lambda>_. True) bs (\<lambda>d. Some (get d)) (\<lambda>v. length (bs v)) (\<lambda>v. put_bytes (bs v))"
  using assms readsD [OF assms(1)] by (auto intro!: raw_codec.intro raw_codec_axioms.intro codec.intro emits_put simp: always_def)

lemma venc_not_Nil [simp]: "venc n \<noteq> []"
  by (subst venc.simps) simp

interpretation c8: raw_codec "\<lambda>_. True" "\<lambda>v. [v]" "\<lambda>d. always (get8 d)" "\<lambda>_. 1" put8
  using codec_put(1) [of get8 "\<lambda>v. [v]"] reads_get(1) by (simp add: put8_def [abs_def])

interpretation c16: raw_codec "\<lambda>_. True" Store16 "\<lambda>d. always (get16 d)" "\<lambda>_. 2" put16
  using codec_put(1) [of get16 Store16] reads_get(2) by (simp add: put16_def [abs_def] flip: length_greater_0_conv)

interpretation c32: raw_codec "\<lambda>_. True" Store32 "\<lambda>d. always (get32 d)" "\<lambda>_. 4" put32
  using codec_put(1) [of get32 Store32] reads_get(3) by (simp add: put32_def [abs_def] flip: length_greater_0_conv)

interpretation c64: raw_codec "\<lambda>_. True" Store64 "\<lambda>d. always (get64 d)" "\<lambda>_. 8" put64
  using codec_put(1) [of get64 Store64] reads_get(4) by (simp add: put64_def [abs_def] flip: length_greater_0_conv)

interpretation c128: raw_codec "\<lambda>_. True" Store128 "\<lambda>d. always (get128 d)" "\<lambda>_. 16" put128
  using codec_put(1) [of get128 Store128] reads_get(5) by (simp add: put128_def [abs_def] flip: length_greater_0_conv)

interpretation v32: raw_codec "\<lambda>_. True" Encode32 "\<lambda>d. Some (get_varint32 d)" varint32_length put_varint32
  using codec_put(2) [of get_varint32 Encode32] reads_varint(1)
  by (simp add: put_varint32_def [abs_def] varint32_length_def [abs_def] Encode32_eq Length32_eq)

interpretation v64: raw_codec "\<lambda>_. True" Encode64 "\<lambda>d. Some (get_varint64 d)" varint64_length put_varint64
  using codec_put(2) [of get_varint64 Encode64] reads_varint(2)
  by (simp add: put_varint64_def [abs_def] varint64_length_def [abs_def] Encode64_eq Length64_eq)

end
