(* ===== verification/Coder_Copy.thy ===== *)
theory Coder_Copy
  imports Codec
begin

text \<open>
  \<open>Encoder::put_varint64_from_decoder\<close>: its unrolled cases, its fast path and its bounded loop all
  copy exactly the bytes that \<open>get_varint64\<close> would consume.
\<close>


lemma copy_loop_skip:
  assumes "min (length p) room \<le> k"
  shows "case skip_rows (replicate k 128 @ x) p of
      Some r \<Rightarrow> (if length p - length r \<le> room then copy_loop p room = (take (length p - length r) p, True)
                else \<not> snd (copy_loop p room))
    | None \<Rightarrow> \<not> snd (copy_loop p room)"
  using assms
proof (induction p arbitrary: k room)
  case Nil
  then show ?case by (cases "replicate k 128 @ x") auto
next
  case (Cons c p)
  show ?case
  proof (cases room)
    case 0
    have "length r \<le> length p" if "skip_rows (replicate k 128 @ x) (c # p) = Some r" for r
    proof -
      have "length r < length q" if "skip_rows cs q = Some r" for cs q
        using that by (induction cs q rule: skip_rows.induct) (auto split: if_splits)
      then show ?thesis using that by fastforce
    qed
    then show ?thesis using 0 by (auto split: option.splits)
  next
    case (Suc n)
    then obtain j where k: "k = Suc j" using Cons.prems by (cases k) auto
    have r: "length r \<le> length p" if "skip_rows (replicate j 128 @ x) p = Some r" for r
    proof -
      have "length r < length q" if "skip_rows cs q = Some r" for cs q
        using that by (induction cs q rule: skip_rows.induct) (auto split: if_splits)
      then show ?thesis using that by fastforce
    qed
    show ?thesis
      using Cons.IH [of n j] Cons.prems Suc k r
      by (auto simp: Suc_diff_le not_less split: option.splits if_splits)
  qed
qed

lemma length_copy_loop: "length (fst (copy_loop p room)) \<le> room"
  by (induction p room rule: copy_loop.induct) (auto split: if_splits)

lemma CopyAndAdvance_eq:
  assumes "enc_ok e" "dec_pos d \<le> length (dec_buf d)" "n \<le> avail d" "n \<le> enc_avail e"
  shows "\<exists>e'. CopyAndAdvance n d e = Some (True, past n d, e') \<and> wrote e (take n (ptr d)) e'"
proof -
  have "length (take n (ptr d)) \<le> enc_avail e" using assms(4) by simp
  then obtain e' where "put_bytes (take n (ptr d)) e = Some e'" "wrote e (take n (ptr d)) e'"
    using put_bytes_ok [OF assms(1)] by metis
  then show ?thesis using getn_eq [OF assms(3,2)] by (simp add: CopyAndAdvance_def)
qed

definition copied :: "decoder \<Rightarrow> encoder \<Rightarrow> byte list option \<Rightarrow> (bool \<times> decoder \<times> encoder) option \<Rightarrow> bool" where
  "copied d e s res \<longleftrightarrow>
     (case s of
        Some r \<Rightarrow>
          (let n = avail d - length r
           in if n \<le> enc_avail e then \<exists>e'. res = Some (True, past n d, e') \<and> wrote e (take n (ptr d)) e'
              else \<exists>e'. res = Some (False, d, e') \<and> wrote e [] e')
      | None \<Rightarrow> \<exists>e'. res = Some (False, d, e') \<and> wrote e [] e')"

lemma LessCommonSizes_copied:
  assumes "enc_ok e" "dec_pos d \<le> length (dec_buf d)" "\<not> (avail d > 0 \<and> ptr d ! 0 < 128)"
    "\<not> (avail d > 1 \<and> ptr d ! 1 < 128)"
  shows "copied d e (Skip64 (ptr d)) (PutVarint64FromDecoderLessCommonSizes d e)"
proof (cases "avail d \<ge> 10 \<and> enc_avail e \<ge> 10")
  case True
  then have "length (ptr d) = 10 + (length (ptr d) - 10)" by (simp add: avail_ptr)
  then obtain b0 b1 b2 b3 b4 b5 b6 b7 b8 b9 r where p: "ptr d = b0 # b1 # b2 # b3 # b4 # b5 # b6 # b7 # b8 # b9 # r"
    by (auto simp: length_Suc_conv eval_nat_numeral)
  have b: "\<not> b0 < 128" "\<not> b1 < 128" using assms(3,4) p by (simp_all add: avail_ptr)
  have e: "PutVarint64FromDecoderLessCommonSizes d e =
      (case Skip64 (ptr d) of None \<Rightarrow> Some (False, d, e) | Some q \<Rightarrow> CopyAndAdvance (avail d - length q) d e)"
    using True b unfolding PutVarint64FromDecoderLessCommonSizes_def Skip64_def p avail_ptr
    by (simp del: length_greater_0_conv split del: if_split add: Let_def if_distrib [of "case_option _ _"] cong: if_cong)
  have "avail d - length q \<le> 10" if "Skip64 (ptr d) = Some q" for q
    using that b unfolding Skip64_def p avail_ptr by (auto split: if_splits)
  then show ?thesis
    using CopyAndAdvance_eq [OF assms(1,2)] True wrote_refl [OF assms(1)]
    unfolding e copied_def by (auto split: option.splits simp: avail_ptr)
next
  case False
  obtain bs ok where l: "copy_loop (ptr d) (enc_avail e) = (bs, ok)" by fastforce
  have len: "length bs \<le> enc_avail e" using length_copy_loop [of "ptr d" "enc_avail e"] l by simp
  let ?e = "e\<lparr>enc_buf := write_at (enc_buf e) (enc_pos e) bs\<rparr>"
  have bad: "wrote e [] ?e"
    using assms(1) len by (auto simp: wrote_def enc_ok_def encoded_def write_at_def enc_avail_def)
  have "put_bytes bs e = Some (?e\<lparr>enc_pos := enc_pos e + length bs\<rparr>)"
    using assms(1) len by (simp add: put_bytes_def enc_ok_def enc_avail_def)
  then have good: "wrote e bs (?e\<lparr>enc_pos := enc_pos e + length bs\<rparr>)"
    using put_bytes_ok [OF assms(1) len] by (metis option.inject)
  have res: "PutVarint64FromDecoderLessCommonSizes d e =
     (if ok then Some (True, past (length bs) d, ?e\<lparr>enc_pos := enc_pos e + length bs\<rparr>) else Some (False, d, ?e))"
    unfolding PutVarint64FromDecoderLessCommonSizes_def if_not_P [OF False] l by (simp add: past_def)
  have short: "min (length (ptr d)) (enc_avail e) \<le> 9" using False by (auto simp: avail_ptr)
  have "Skip64 (ptr d) = skip_rows (replicate 9 128 @ [2]) (ptr d)"
    by (simp add: Skip64_def eval_nat_numeral)
  then show ?thesis
    using copy_loop_skip [of "ptr d" "enc_avail e" 9 "[2]", OF short] l good bad
    by (auto simp: copied_def res avail_ptr Let_def split: option.splits if_splits)
qed

lemma put_varint64_from_decoder_copied:
  assumes "enc_ok e" "dec_pos d \<le> length (dec_buf d)"
  shows "copied d e (Skip64 (ptr d)) (put_varint64_from_decoder d e)"
proof (cases "avail d > 0 \<and> ptr d ! 0 < 128")
  case True
  then obtain b r where p: "ptr d = b # r" "b < 128" by (cases "ptr d") (auto simp: avail_ptr)
  then show ?thesis
    using CopyAndAdvance_eq [OF assms, of 1] wrote_refl [OF assms(1)]
    by (auto simp: copied_def put_varint64_from_decoder_def Skip64_def avail_ptr)
next
  case F: False
  show ?thesis
  proof (cases "avail d > 1 \<and> ptr d ! 1 < 128")
    case True
    then obtain b c r where p: "ptr d = b # c # r" "c < 128" "\<not> b < 128"
      using F by (cases "ptr d"; cases "tl (ptr d)") (auto simp: avail_ptr)
    then show ?thesis
      using CopyAndAdvance_eq [OF assms, of 2] wrote_refl [OF assms(1)]
      by (auto simp: copied_def put_varint64_from_decoder_def Skip64_def avail_ptr)
  next
    case False
    then show ?thesis using F LessCommonSizes_copied [OF assms F False]
      by (auto simp: put_varint64_from_decoder_def)
  qed
qed
lemma get_varint64_Skip:
  assumes "dec_pos d \<le> length (dec_buf d)"
  shows "map_option snd (get_varint64 d) = map_option (\<lambda>r. past (avail d - length r) d) (Skip64 (ptr d))"
proof -
  have "d\<lparr>dec_pos := length (dec_buf d) - length r\<rparr> = past (avail d - length r) d"
    if v: "varint_parse 10 (ptr d) = Some (v :: uint64, r)" for v r
  proof -
    obtain n where "vdec (ptr d) = Some (n, r)"
      using v by (cases "vdec (ptr d)") (auto simp: varint_parse_def split: if_splits)
    then have "length r < avail d" using vdec_length by (simp add: avail_ptr)
    then show ?thesis using assms by (simp add: past_def avail_def)
  qed
  then show ?thesis
    unfolding get_varint64_def Parse64WithLimit_x86_eq Skip64_eq
    by (cases "varint_parse 10 (ptr d) :: (uint64 \<times> byte list) option") auto
qed

end
