(* ===== verification/Cell_Token.thy ===== *)
theory Cell_Token
  imports Cell_Span Codec "HOL-Library.Char_ord" "HOL-Library.List_Lexorder"
begin

text \<open>
  The textual and binary forms of \<^verbatim>\<open>S2CellId\<close> (\<^verbatim>\<open>s2/s2cell_id.cc\<close>): tokens, debug strings, the
  64-bit encoding and the legacy token coder.  A decoding routine that returns \<^verbatim>\<open>false\<close> gives
  \<open>Some None\<close> (the position its decoder is left at is not modelled then); \<open>None\<close> is a fault.
\<close>


section \<open>Definitions\<close>

definition hex_digits :: string where "hex_digits = ''0123456789abcdef''"

fun HexFormatString :: "uint64 \<Rightarrow> nat \<Rightarrow> string" where
  "HexFormatString val 0 = []"
| "HexFormatString val (Suc n) = HexFormatString (drop_bit 4 val) n @ [hex_digits ! unat (val AND 0xF)]"

definition ToToken :: "cellid \<Rightarrow> string" where
  "ToToken x =
     (if x = 0 then ''X''
      else let num_zero_digits = FindLSBSetNonZero64 x div 4
           in HexFormatString (drop_bit (4 * num_zero_digits) x) (16 - num_zero_digits))"

definition hex_value :: "char \<Rightarrow> uint64 option" where
  "hex_value c =
     (if CHR ''0'' \<le> c \<and> c \<le> CHR ''9'' then Some (of_char c - of_char CHR ''0'')
      else if CHR ''a'' \<le> c \<and> c \<le> CHR ''f'' then Some (of_char c - of_char CHR ''a'' + 10)
      else if CHR ''A'' \<le> c \<and> c \<le> CHR ''F'' then Some (of_char c - of_char CHR ''A'' + 10)
      else None)"

fun token_loop :: "string \<Rightarrow> nat \<Rightarrow> uint64 \<Rightarrow> uint64 option" where
  "token_loop [] i x = Some x"
| "token_loop (c # cs) i x =
     (case hex_value c of None \<Rightarrow> None | Some d \<Rightarrow> token_loop cs (Suc i) (x OR push_bit (60 - 4 * i) d))"

definition FromToken :: "string \<Rightarrow> cellid" where
  "FromToken token =
     (if length token > 16 then cell_None
      else case token_loop token 0 0 of None \<Rightarrow> cell_None | Some x \<Rightarrow> x)"

text \<open>\<open>digit_char\<close> is a decimal digit; \<^verbatim>\<open>absl::Hex(id, kZeroPad16)\<close> prints sixteen hex digits.\<close>

definition digit_char :: "nat \<Rightarrow> char" where
  "digit_char k = ''0123456789'' ! k"

definition cell_ToString :: "cellid \<Rightarrow> string" where
  "cell_ToString x =
     (if \<not> is_valid x then ''Invalid: '' @ HexFormatString x 16
      else [digit_char (face x)] @ ''/'' @
        map (\<lambda>lvl. digit_char (child_position_at x lvl)) [1..<nat (cell_level x) + 1])"

fun debug_loop :: "string \<Rightarrow> cellid \<Rightarrow> cellid option" where
  "debug_loop [] x = Some x"
| "debug_loop (c # cs) x =
     (let child_pos = of_char c - of_char CHR ''0'' :: int
      in if child_pos < 0 \<or> child_pos > 3 then None else debug_loop cs (child x (nat child_pos)))"

definition FromDebugString :: "string \<Rightarrow> cellid" where
  "FromDebugString str =
     (let lvl = int (length str) - 2
      in if lvl < 0 \<or> lvl > int kMaxLevel then cell_None
         else let fc = of_char (str ! 0) - of_char CHR ''0'' :: int
              in if fc < 0 \<or> fc > 5 \<or> str ! 1 \<noteq> CHR ''/'' then cell_None
                 else case debug_loop (drop 2 str) (cell_FromFace (nat fc)) of
                   None \<Rightarrow> cell_None | Some x \<Rightarrow> x)"

definition cell_Encode :: "cellid \<Rightarrow> encoder \<Rightarrow> encoder option" where
  "cell_Encode x e = do { e \<leftarrow> Ensure 8 e; put64 x e }"

definition cell_Decode :: "decoder \<Rightarrow> ((cellid \<times> decoder) option) option" where
  "cell_Decode d =
     (if avail d < 8 then Some None else do { (x, d) \<leftarrow> get64 d; Some (Some (x, d)) })"

text \<open>The characters of a string in memory.\<close>

definition char_bytes :: "string \<Rightarrow> byte list" where "char_bytes = map of_char"
definition byte_chars :: "byte list \<Rightarrow> string" where "byte_chars = map (\<lambda>b. char_of (unat b))"

definition Coder_Encode :: "cellid \<Rightarrow> encoder \<Rightarrow> encoder option" where
  "Coder_Encode x e =
     (let token = ToToken x in do { e \<leftarrow> Ensure (length token + 1) e; puts (char_bytes token @ [0]) e })"

definition Coder_Decode :: "decoder \<Rightarrow> ((cellid \<times> decoder) option) option" where
  "Coder_Decode d =
     do { (bytes, d) \<leftarrow> getcn 0 (min (avail d) 17) d;
          let bytes_read = length bytes in
          if bytes_read = 0 \<or> bytes ! (bytes_read - 1) \<noteq> 0 then Some None
          else let token = byte_chars (take (bytes_read - 1) bytes); x = FromToken token
               in if x = cell_None \<and> token \<noteq> ''X'' then Some None else Some (Some (x, d)) }"


section \<open>Tokens\<close>

lemma length_HexFormatString [simp]: "length (HexFormatString w n) = n"
  by (induction n arbitrary: w) auto

lemma hex_digit_cases:
  assumes "k < 16"
  obtains "k \<in> set [0..<16]"
  using assms by auto

lemma hex_value_digit: "k < 16 \<Longrightarrow> hex_value (hex_digits ! k) = Some (of_nat k)"
proof -
  have "\<forall>k\<in>set [0..<16]. hex_value (hex_digits ! k) = Some (of_nat k)" by code_simp
  then show "k < 16 \<Longrightarrow> ?thesis" by simp
qed

lemma token_loop_append:
  "token_loop (s @ t) i x = Option.bind (token_loop s i x) (token_loop t (i + length s))"
  by (induction s arbitrary: i x) (auto split: option.splits)

lemma low_nibble: "(w :: uint64) AND 0xF = take_bit 4 w"
  by (simp add: take_bit_eq_mask mask_eq_exp_minus_1)

lemma nibble: "unat (w AND 0xF :: uint64) < 16" "of_nat (unat (w AND 0xF)) = w AND (0xF :: uint64)"
proof -
  have "unat (w AND 0xF) = unat w mod 16"
    unfolding low_nibble by (simp only: unsigned_take_bit_eq) (simp add: take_bit_eq_mod)
  then show "unat (w AND 0xF) < 16" by simp
qed simp

lemma token_loop_hex:
  assumes "i + n \<le> 16"
  shows "token_loop (HexFormatString w n) i x = Some (x OR push_bit (64 - 4 * (i + n)) (take_bit (4 * n) w))"
  using assms
proof (induction n arbitrary: w)
  case (Suc n)
  let ?s = "64 - 4 * (i + Suc n)"
  have "push_bit (64 - 4 * (i + n)) (take_bit (4 * n) (drop_bit 4 w)) OR push_bit ?s (take_bit 4 w)
      = push_bit ?s (take_bit (4 * Suc n) w)"
  proof (rule bit_word_eqI)
    fix j assume j: "j < LENGTH(64)"
    have s: "64 - 4 * (i + n) = ?s + 4" using Suc.prems by simp
    show "bit (push_bit (64 - 4 * (i + n)) (take_bit (4 * n) (drop_bit 4 w)) OR push_bit ?s (take_bit 4 w)) j
        = bit (push_bit ?s (take_bit (4 * Suc n) w)) j"
      unfolding s using j by (cases "?s + 4 \<le> j") (auto simp: bit_simps not_le)
  qed
  moreover have "?s = 60 - 4 * (i + n)" using Suc.prems by simp
  ultimately show ?case
    using Suc nibble [of w] hex_value_digit [of "unat (w AND 0xF)"]
    by (simp add: token_loop_append or.assoc low_nibble)
qed simp

lemma low_zero_digits:
  assumes "x \<noteq> 0" and "k = FindLSBSetNonZero64 x div 4"
  shows "k < 16" and "push_bit (4 * k) (drop_bit (4 * k) x) = (x :: uint64)"
    and "drop_bit (4 * k) x AND 0xF \<noteq> 0"
proof -
  let ?c = "FindLSBSetNonZero64 x"
  note c = FindLSBSetNonZero64_bit [OF assms(1)]
  have k: "4 * k \<le> ?c" "?c - 4 * k < 4" using assms(2) by presburger+
  show "k < 16" using c(1) assms(2) by simp
  have "4 * k \<le> i" if "bit x i" for i using c(3) [of i] k(1) that by (cases "i < ?c") auto
  then show "push_bit (4 * k) (drop_bit (4 * k) x) = x"
    by (intro bit_word_eqI) (auto simp: bit_simps)
  have "bit (drop_bit (4 * k) x AND 0xF) (?c - 4 * k)"
    unfolding low_nibble using c(1,2) k by (simp add: bit_simps)
  then show "drop_bit (4 * k) x AND 0xF \<noteq> 0" by auto
qed

lemma FromToken_ToToken: "FromToken (ToToken x) = x"
proof (cases "x = 0")
  case True
  have "hex_value (CHR ''X'') = None" by code_simp
  then show ?thesis using True by (simp add: ToToken_def FromToken_def cell_None_def)
next
  case False
  define k where "k = FindLSBSetNonZero64 x div 4"
  note k = low_zero_digits [OF False k_def]
  have "token_loop (HexFormatString (drop_bit (4 * k) x) (16 - k)) 0 0
      = Some (push_bit (4 * k) (take_bit (4 * (16 - k)) (drop_bit (4 * k) x)))"
    using k(1) by (subst token_loop_hex) (auto simp: right_diff_distrib')
  moreover have "take_bit (4 * (16 - k)) (drop_bit (4 * k) x) = drop_bit (4 * k) x"
    using k(1) by (intro bit_word_eqI) (auto simp: bit_simps dest: bit_imp_le_length)
  moreover have "\<not> 16 < 16 - k" by simp
  ultimately show ?thesis
    using False k(1,2) by (simp add: ToToken_def FromToken_def Let_def flip: k_def)
qed

end
