(* ===== verification/Cell_Token_Correct.thy ===== *)
theory Cell_Token_Correct
  imports Cell_Token
begin

text \<open>
  Tokens keep the order of non-zero ids, debug strings can be read back, and the two encodings of
  a cell id are codecs.
\<close>


section \<open>The order of tokens\<close>

fun hex_nibbles :: "uint64 \<Rightarrow> nat \<Rightarrow> nat list" where
  "hex_nibbles w 0 = []"
| "hex_nibbles w (Suc n) = hex_nibbles (drop_bit 4 w) n @ [unat (w AND 0xF)]"

fun nibbles_value :: "nat \<Rightarrow> nat list \<Rightarrow> nat" where
  "nibbles_value k [] = 0"
| "nibbles_value k (d # s) = d * 16 ^ (k - 1) + nibbles_value (k - 1) s"

lemma HexFormatString_nibbles: "HexFormatString w n = map ((!) hex_digits) (hex_nibbles w n)"
  by (induction n arbitrary: w) auto

lemma nibbles_less: "\<forall>d\<in>set (hex_nibbles w n). d < 16" and length_hex_nibbles [simp]: "length (hex_nibbles w n) = n"
  by (induction n arbitrary: w) (auto simp: nibble)

lemma nibbles_value_snoc:
  "length s < k \<Longrightarrow> nibbles_value k (s @ [d]) = nibbles_value k s + d * 16 ^ (k - Suc (length s))"
proof (induction s arbitrary: k)
  case (Cons a s)
  then have "length s < k - 1" "k - 1 - Suc (length s) = k - Suc (length (a # s))" by auto
  then show ?case using Cons.IH [of "k - 1"] by simp
qed simp

lemma nibbles_value_hex: "n \<le> k \<Longrightarrow> nibbles_value k (hex_nibbles w n) = (unat w mod 16 ^ n) * 16 ^ (k - n)"
proof (induction n arbitrary: w)
  case (Suc n)
  have u: "unat (w AND 0xF) = unat w mod 16"
    unfolding low_nibble by (simp only: unsigned_take_bit_eq) (simp add: take_bit_eq_mod)
  have d: "unat (drop_bit 4 w) = unat w div 16"
    unfolding unat_drop_bit_eq by (simp add: drop_bit_eq_div)
  have p: "(16::nat) ^ (k - n) = 16 * 16 ^ (k - Suc n)"
    using Suc.prems by (metis Suc_diff_Suc Suc_le_lessD power_Suc)
  have m: "unat w mod 16 ^ Suc n = 16 * (unat w div 16 mod 16 ^ n) + unat w mod 16"
    by (simp add: mod_mult2_eq)
  have "nibbles_value k (hex_nibbles w (Suc n))
      = nibbles_value k (hex_nibbles (drop_bit 4 w) n) + (unat w mod 16) * 16 ^ (k - Suc n)"
    using Suc.prems by (simp add: nibbles_value_snoc u)
  also have "\<dots> = (unat w div 16 mod 16 ^ n) * 16 ^ (k - n) + (unat w mod 16) * 16 ^ (k - Suc n)"
    using Suc by (simp add: d)
  also have "\<dots> = (unat w mod 16 ^ Suc n) * 16 ^ (k - Suc n)"
    unfolding p m by (simp add: algebra_simps)
  finally show ?case .
qed simp

lemma nibbles_value_bound: "\<forall>d\<in>set s. d < 16 \<Longrightarrow> length s \<le> k \<Longrightarrow> nibbles_value k s < 16 ^ k"
proof (induction s arbitrary: k)
  case (Cons d s)
  then obtain j where k: "k = Suc j" by (cases k) auto
  have "nibbles_value j s < 16 ^ j" using Cons k by simp
  moreover have "Suc d * 16 ^ j \<le> 16 * 16 ^ j" using Cons.prems by (intro mult_le_mono1) auto
  ultimately have "d * 16 ^ j + nibbles_value j s < 16 * 16 ^ j" unfolding mult_Suc by linarith
  then show ?case by (simp add: k)
qed simp

lemma nibbles_value_pos: "s \<noteq> [] \<Longrightarrow> last s \<noteq> 0 \<Longrightarrow> 0 < nibbles_value k s"
  by (induction s arbitrary: k) (auto split: if_splits)

lemma nibbles_order:
  assumes "\<forall>d\<in>set s. d < 16" "\<forall>d\<in>set t. d < 16" "length s \<le> k" "length t \<le> k"
    "s = [] \<or> last s \<noteq> 0" "t = [] \<or> last t \<noteq> 0"
  shows "s < t \<longleftrightarrow> nibbles_value k s < nibbles_value k t"
  using assms
proof (induction s arbitrary: t k)
  case Nil
  then show ?case using nibbles_value_pos [of t k] by (cases t) auto
next
  case (Cons a s)
  then obtain j where k: "k = Suc j" by (cases k) auto
  show ?case
  proof (cases t)
    case (Cons b u)
    have s: "nibbles_value j s < 16 ^ j" and u: "nibbles_value j u < 16 ^ j"
      using Cons.prems Cons k by (auto intro: nibbles_value_bound)
    have less: "c * 16 ^ j + x < d * 16 ^ j + y" if "c < d" "x < 16 ^ j" for c d x y :: nat
    proof -
      have "c * 16 ^ j + 16 ^ j \<le> d * 16 ^ j" using that(1) mult_le_mono1 [of "Suc c" d "16 ^ j"] by simp
      then show ?thesis using that(2) by linarith
    qed
    have IH: "s < u \<longleftrightarrow> nibbles_value j s < nibbles_value j u"
      using Cons.prems Cons k by (intro Cons.IH) (auto split: if_splits)
    consider "a < b" | "a = b" | "b < a" by linarith
    then show ?thesis
      using less [of a b "nibbles_value j s" "nibbles_value j u"] less [of b a "nibbles_value j u" "nibbles_value j s"] s u IH
      by cases (auto simp: Cons k)
  qed auto
qed

lemma hex_digits_less: "i < 16 \<Longrightarrow> j < 16 \<Longrightarrow> hex_digits ! i < hex_digits ! j \<longleftrightarrow> i < j"
proof -
  have "\<forall>i\<in>set [0..<16]. of_char (hex_digits ! i) = (if i < 10 then 48 + i else 87 + i)" by code_simp
  then show "i < 16 \<Longrightarrow> j < 16 \<Longrightarrow> ?thesis" by (simp add: less_char_def)
qed

lemma map_less_iff:
  assumes "\<And>i j. i \<in> set s \<Longrightarrow> j \<in> set t \<Longrightarrow> f i < f j \<longleftrightarrow> i < (j :: 'a :: linorder)"
    and "\<And>i j. i \<in> set s \<Longrightarrow> j \<in> set t \<Longrightarrow> f i = f j \<longleftrightarrow> i = j"
  shows "map f s < map f t \<longleftrightarrow> s < (t :: 'a list)"
  using assms by (induction s t rule: list_induct2') auto

lemma ToToken_less:
  assumes "x \<noteq> 0" "y \<noteq> 0"
  shows "ToToken x < ToToken y \<longleftrightarrow> x < y"
proof -
  define nib where "nib = (\<lambda>x. let k = FindLSBSetNonZero64 x div 4 in hex_nibbles (drop_bit (4 * k) x) (16 - k))"
  have tok: "ToToken x = map ((!) hex_digits) (nib x)" if "x \<noteq> 0" for x
    using that by (simp add: ToToken_def nib_def Let_def HexFormatString_nibbles)
  have dig: "\<forall>d\<in>set (nib x). d < 16" "length (nib x) \<le> 16" for x
    by (simp_all add: nib_def Let_def nibbles_less)
  have val: "nibbles_value 16 (nib x) = unat x" "last (nib x) \<noteq> 0" if x: "x \<noteq> 0" for x
  proof -
    define k where "k = FindLSBSetNonZero64 x div 4"
    note k = low_zero_digits [OF x k_def]
    have d: "unat (drop_bit (4 * k) x) = unat x div 16 ^ k"
      unfolding unat_drop_bit_eq by (simp add: drop_bit_eq_div power_mult)
    have "unat x < 16 ^ 16" using unsigned_less [of x, where 'a = nat] by simp
    also have "(16::nat) ^ 16 = 16 ^ (16 - k) * 16 ^ k" using k(1) by (simp flip: power_add)
    finally have "unat x div 16 ^ k < 16 ^ (16 - k)" by (simp add: less_mult_imp_div_less)
    then have "nibbles_value 16 (nib x) = unat x div 16 ^ k * 16 ^ k"
      using k(1) by (simp add: nib_def nibbles_value_hex d flip: k_def)
    also have "\<dots> = unat x"
    proof -
      have "unat (push_bit (4 * k) (drop_bit (4 * k) x)) = unat x div 16 ^ k * 16 ^ k mod 2 ^ 64"
        unfolding unsigned_push_bit_eq d by (simp add: push_bit_eq_mult power_mult take_bit_eq_mod)
      moreover have "unat x div 16 ^ k * 16 ^ k < 2 ^ 64"
        using unsigned_less [of x, where 'a = nat] by (intro le_less_trans [OF div_times_less_eq_dividend]) simp
      ultimately show ?thesis unfolding k(2) by simp
    qed
    finally show "nibbles_value 16 (nib x) = unat x" .
    obtain n where n: "16 - k = Suc n" using k(1) by (cases "16 - k") auto
    then show "last (nib x) \<noteq> 0" using k(3) by (simp add: nib_def unat_gt_0 flip: k_def)
  qed
  have "ToToken x < ToToken y \<longleftrightarrow> nib x < nib y"
    unfolding tok [OF assms(1)] tok [OF assms(2)]
  proof (rule map_less_iff)
    fix i j assume ij: "i \<in> set (nib x)" "j \<in> set (nib y)"
    then have "i < 16" "j < 16" using dig(1) by blast+
    then show "hex_digits ! i < hex_digits ! j \<longleftrightarrow> i < j" "hex_digits ! i = hex_digits ! j \<longleftrightarrow> i = j"
      using hex_digits_less [of i j] hex_digits_less [of j i] by (auto simp: neq_iff)
  qed
  also have "\<dots> \<longleftrightarrow> unat x < unat y"
    using nibbles_order [of "nib x" "nib y" 16] dig val assms by auto
  finally show ?thesis by (simp add: word_less_nat_alt)
qed
section \<open>Debug strings\<close>

lemma digit_char_value: "k < 10 \<Longrightarrow> of_char (digit_char k) = (48 + int k :: int)"
proof -
  have "\<forall>k\<in>set [0..<10]. of_char (digit_char k) = (48 + int k :: int)" by code_simp
  then show "k < 10 \<Longrightarrow> ?thesis" by simp
qed

lemma zero_char_value: "of_char CHR ''0'' = (48 :: int)"
  by code_simp

text \<open>Following the child positions of \<open>y\<close> from its ancestor at level \<open>m\<close> down.\<close>

lemma debug_loop_path:
  assumes "l \<le> 30" "q < 6 * 4 ^ l" "m \<le> n" "n \<le> l"
  shows "debug_loop (map (\<lambda>lvl. digit_char (child_position_at (cell_at l q) lvl)) [m + 1..<n + 1])
     (cell_at m (q div 4 ^ (l - m))) = Some (cell_at n (q div 4 ^ (l - n)))"
  using assms(3,4)
proof (induction "n - m" arbitrary: m)
  case (Suc d)
  then have m: "m < n" "m < l" and d: "d = n - (m + 1)" by simp_all
  let ?c = "q div 4 ^ (l - (m + 1)) mod 4"
  have q7: "q < 7 * 4 ^ l" using assms(2) by (rule index_bound)
  have q': "q div 4 ^ (l - m) < 7 * 4 ^ m"
  proof -
    have "q < 7 * 4 ^ m * 4 ^ (l - m)" using q7 pow4_split [of m l] m(2) by (simp add: mult.assoc)
    then show ?thesis by (simp add: less_mult_imp_div_less)
  qed
  have pos: "child_position_at (cell_at l q) (m + 1) = ?c"
    using m(2) assms(1) q7 by (intro child_position_at_at) auto
  have e: "4 * (q div 4 ^ (l - m)) + ?c = q div 4 ^ (l - (m + 1))"
  proof -
    have "l - m = Suc (l - (m + 1))" using m(2) by simp
    then have "q div 4 ^ (l - m) = q div 4 ^ (l - (m + 1)) div 4"
      by (simp only: power_Suc2 div_mult2_eq)
    then show ?thesis by (simp add: mult.commute)
  qed
  have "child (cell_at m (q div 4 ^ (l - m))) ?c = cell_at (m + 1) (q div 4 ^ (l - (m + 1)))"
    using m(2) assms(1) q' child_at [of m "q div 4 ^ (l - m)" ?c] e by simp
  moreover have "?c < 4" by simp
  then have "?c < 10" "\<not> 3 < ?c" by linarith+
  moreover note this
  moreover have "[Suc m..<Suc n] = Suc m # [Suc (Suc m)..<Suc n]" using m(1) by (intro upt_conv_Cons) simp
  ultimately show ?case
    using Suc.hyps(1) [OF d] Suc.prems(2) m pos digit_char_value [of ?c] zero_char_value
    by (simp add: Let_def del: upt_Suc)
qed simp

lemma FromDebugString_ToString:
  assumes "is_valid x"
  shows "FromDebugString (cell_ToString x) = x"
  using assms
proof (cases rule: is_valid_cases)
  case (1 l q)
  have q7: "q < 7 * 4 ^ l" using 1(2) by (rule index_bound)
  have f: "face x = q div 4 ^ l" "face x < 6"
    using 1 face_at [OF 1(1) q7] by (simp_all add: less_mult_imp_div_less)
  have lv: "cell_level x = int l" using 1 cell_level_at [OF 1(1) q7] by simp
  have "debug_loop (map (\<lambda>lvl. digit_char (child_position_at x lvl)) [1..<l + 1]) (cell_FromFace (face x)) = Some x"
    using debug_loop_path [OF 1(1,2), of 0 l] 1(3) f(1) by (simp add: FromFace_at)
  moreover have "of_char (digit_char (face x)) = (48 + int (face x) :: int)"
    using f(2) by (intro digit_char_value) simp
  ultimately show ?thesis
    using assms f(2) lv 1(1) zero_char_value
    by (simp add: cell_ToString_def FromDebugString_def Let_def)
qed


section \<open>Encodings\<close>

interpretation cell: checked_codec "\<lambda>_. True" Store64 cell_Decode cell_Encode
proof
  show "cell_Decode d = Some (Some (x, past (length (Store64 x)) d))" if p: "ptr d = Store64 x @ r" for x :: cellid and d r
  proof -
    have "get64 d = Some (x, past 8 d)"
      using readsD [OF reads_get(4) _ p] by (simp flip: length_greater_0_conv)
    then show ?thesis using avail_ge [OF p] by (simp add: cell_Decode_def)
  qed
  show "emits True 0 (cell_Encode x) (Store64 x) 0" for x
  proof -
    have "emits True 8 (put64 x) (Store64 x) 0" using emits_own [OF c64.enc_fits [where n = 0]] by simp
    then show ?thesis unfolding cell_Encode_def [abs_def] by (rule emits_Ensure_bind)
  qed
  show "checked cell_Decode"
    unfolding checked_def cell_Decode_def by (auto simp: get64_good stays_past)
qed

lemma of_char_byte: "unat (of_char c :: byte) = of_char c" and char_of_byte: "char_of (unat (of_char c :: byte)) = c"
proof -
  have "(of_char c :: byte) = of_nat (of_char c)" by (simp only: of_nat_of_char)
  then have "unat (of_char c :: byte) = of_char c mod 256" by (simp only: unat_of_nat) simp
  then show "unat (of_char c :: byte) = of_char c" by (simp add: nat_of_char_less_256)
  then show "char_of (unat (of_char c :: byte)) = c" by simp
qed

lemma byte_chars_char_bytes [codec_simps]: "byte_chars (char_bytes s) = s"
  by (induction s) (simp_all add: byte_chars_def char_bytes_def char_of_byte)

lemma memccpy_found: "c \<notin> set bs \<Longrightarrow> length bs < n \<Longrightarrow> memccpy (bs @ c # r) c n = Some (bs @ [c])"
proof (induction bs arbitrary: n)
  case Nil
  then show ?case by (cases n) auto
next
  case (Cons b bs)
  then show ?case by (cases n) auto
qed

lemma memccpy_some: "n \<le> length p \<Longrightarrow> \<exists>bs. memccpy p c n = Some bs \<and> length bs \<le> n"
proof (induction p arbitrary: n)
  case (Cons b p)
  show ?case
  proof (cases n)
    case (Suc m)
    then obtain bs where "memccpy p c m = Some bs" "length bs \<le> m" using Cons by auto
    then show ?thesis using Suc by auto
  qed simp
qed simp

lemma emits_puts: "0 \<notin> set bs \<Longrightarrow> emits own (length bs + 1) (puts (bs @ [0])) (bs @ [0]) 0"
proof -
  assume bs: "0 \<notin> set bs"
  have "puts (bs @ [0]) e = put_bytes (bs @ [0]) e" if "length bs + 1 \<le> enc_avail e" for e
    using that memccpy_found [OF bs, of "enc_avail e" "[]"] by (simp add: puts_def putcn_def)
  then show ?thesis
    using emits_put [of own "bs @ [0]" 0] unfolding emits_def by auto
qed

lemma token_bytes_nonzero: "0 \<notin> set (char_bytes (ToToken x))"
proof -
  have "\<forall>k\<in>set [0..<16]. (of_char (hex_digits ! k) :: byte) \<noteq> 0" by code_simp
  then have "(of_char (hex_digits ! k) :: byte) \<noteq> 0" if "k < 16" for k using that by simp
  then have "0 \<notin> set (char_bytes (HexFormatString w n))" for w n
    using nibbles_less [of w n] by (force simp: HexFormatString_nibbles char_bytes_def)
  moreover have "(of_char CHR ''X'' :: byte) \<noteq> 0" by code_simp
  ultimately show ?thesis by (auto simp: ToToken_def char_bytes_def Let_def)
qed

lemma length_ToToken: "length (ToToken x) \<le> 16"
  by (simp add: ToToken_def Let_def)

interpretation token: checked_codec "\<lambda>_. True" "\<lambda>x. char_bytes (ToToken x) @ [0]" Coder_Decode Coder_Encode
proof
  show "Coder_Decode d = Some (Some (x, past (length (char_bytes (ToToken x) @ [0])) d))"
    if p: "ptr d = (char_bytes (ToToken x) @ [0]) @ r" for x d r
  proof -
    let ?bs = "char_bytes (ToToken x)"
    have len: "length ?bs \<le> 16" using length_ToToken [of x] by (simp add: char_bytes_def)
    then have "memccpy (ptr d) 0 (min (avail d) 17) = Some (?bs @ [0])"
      using memccpy_found [OF token_bytes_nonzero, of x "min (avail d) 17" r] p by (simp add: avail_ptr)
    moreover have "getn (length (?bs @ [0])) d = Some (?bs @ [0], past (length (?bs @ [0])) d)"
      using p by (intro readsD [OF reads_getn]) auto
    moreover have "ToToken 0 = ''X''" by (simp add: ToToken_def)
    ultimately show ?thesis
      by (auto simp: Coder_Decode_def getcn_def nth_append byte_chars_char_bytes FromToken_ToToken cell_None_def)
  qed
  show "emits True 0 (Coder_Encode x) (char_bytes (ToToken x) @ [0]) 0" for x
    unfolding Coder_Encode_def [abs_def] Let_def
    using emits_puts [OF token_bytes_nonzero, of True x]
    by (intro emits_Ensure_bind) (simp add: char_bytes_def)
  show "checked Coder_Decode"
    unfolding checked_def
  proof (intro allI impI)
    fix d assume g: "good d"
    obtain bs where bs: "memccpy (ptr d) 0 (min (avail d) 17) = Some bs" "length bs \<le> min (avail d) 17"
      using memccpy_some [of "min (avail d) 17" "ptr d" 0] by (auto simp: avail_ptr)
    then have "getn (length bs) d = Some (take (length bs) (ptr d), past (length bs) d)"
      using g by (intro getn_eq) (auto simp: good_def)
    then show "Coder_Decode d = Some None \<or> (\<exists>v d'. Coder_Decode d = Some (Some (v, d')) \<and> stays d d')"
      using g bs by (auto simp: Coder_Decode_def getcn_def Let_def stays_past)
  qed
qed

end
