(* ===== verification/Coding_Properties.thy ===== *)
theory Coding_Properties
  imports Coder_Copy Cell_Token_Correct
begin

text \<open>
  The properties of the varint routines, of \<open>Encoder\<close> and \<open>Decoder\<close>, and of the textual and binary
  forms of a cell id.
\<close>


section \<open>Varints\<close>



text \<open>C8: what the encoders write is read back by every parser, followed by anything; the length
  formulas give the number of bytes written, at most five and ten, and the append routines add
  exactly those bytes whatever the spare capacity of the string.\<close>

theorem varint_roundtrip:
  "Parse32 (Encode32 w @ r) = Some (w, r) \<and> Parse32Inline (Encode32Inline w @ r) = Some (w, r) \<and>
   Parse32WithLimit (Encode32 w @ r) = Some (w, r) \<and>
   Parse64_portable (Encode64 v @ r) = Some (v, r) \<and> Parse64_x86 (Encode64 v @ r) = Some (v, r) \<and>
   Parse64WithLimit_portable (Encode64 v @ r) = Some (v, r) \<and> Parse64WithLimit_x86 (Encode64 v @ r) = Some (v, r) \<and>
   length (Encode32 w) = Length32 w \<and> Length32 w \<le> 5 \<and> length (Encode64 v) = Length64 v \<and> Length64 v \<le> 10 \<and>
   Append32 cap s w = s @ Encode32 w \<and> Append64 cap s v = s @ Encode64 v"
proof -
  have p: "varint_parse 5 (Encode32 w @ r) = Some (w, r)" "varint_parse 10 (Encode64 v @ r) = Some (v, r)"
    unfolding Encode32_eq Encode64_eq by (rule parse_venc; simp)+
  have i: "Encode32Inline w = Encode32 w" by (simp add: Encode32_def)
  have "vdec (Encode64 v @ r) \<noteq> None" by (simp add: Encode64_eq vdec_venc)
  then have x: "Parse64_x86 (Encode64 v @ r) = Some (v, r)" using Parse64_x86_eq p(2) by simp
  have "unat w < 128 ^ 5" "unat v < 128 ^ 10"
    using unsigned_less [of w, where 'a = nat] unsigned_less [of v, where 'a = nat] by simp_all
  then have "length (venc (unat w)) \<le> 5" "length (venc (unat v)) \<le> 10" by (simp_all add: length_venc)
  then show ?thesis
    using p x i by (simp add: Parse32_eq Parse32Inline_eq Parse32WithLimit_eq Parse64_portable_eq
      Parse64WithLimit_portable_eq Parse64WithLimit_x86_eq Encode32_eq Encode64_eq Length32_eq Length64_eq
      Append32_eq Append64_eq)
qed

text \<open>Behind an encoded varint, when the bytes before it are empty or end another varint, the
  backward skippers stop at its first byte and the backward parsers return its value; both the
  unrolled path and the bounded one near the start of the buffer.\<close>

theorem varint_backward:
  assumes "ends_varint q"
  shows "Skip64Backward (rev (Encode64 v) @ q) = Some q \<and> Parse64Backward (rev (Encode64 v) @ q) = Some (Some v, q) \<and>
    Skip32Backward (rev (Encode32 w) @ q) = Some q \<and> Parse32Backward (rev (Encode32 w) @ q) = Some (Some w, q)"
  using Backward64 [OF assms] Backward32 [OF assms] by blast

theorem varint_backward_witness:
  "Parse64Backward (rev (Encode64 300) @ [5]) = Some (Some 300, [5])"
  using varint_backward [of "[5]" 300] by (simp add: ends_varint_def)

text \<open>\<open>FastDecodeDeltas\<close> adds up varints until their sum reaches the goal and stops right
  behind the one that reached it, for sums below \<^verbatim>\<open>2^63\<close>.\<close>

theorem FastDecodeDeltas_correct:
  assumes "0 < sint goal" and "int (sum_list xs) < sint goal" and "sint goal \<le> int (sum_list xs + x)"
    and "int (sum_list xs + x) < 2 ^ 63"
  shows "FastDecodeDeltas (concat (map venc (xs @ [x])) @ rest) goal = Some (of_nat (sum_list xs + x), rest)"
  by (rule FastDecodeDeltas_eq [OF assms])

theorem FastDecodeDeltas_correct_witness:
  "FastDecodeDeltas (concat (map venc [3, 200, 50]) @ [9]) 250 = Some (253, [9])"
  using FastDecodeDeltas_correct [of 250 "[3, 200]" 50 "[9]"] by simp


section \<open>Encoder and Decoder\<close>

text \<open>\<open>Ensure(N)\<close> on an encoder that owns its buffer never fails, keeps what is encoded and
  leaves room for \<open>N\<close> bytes, whatever fresh memory contains; then a write of at most that many
  bytes is within the buffer and appends them.  Without room a write is a fault.\<close>

theorem Ensure_then_put:
  assumes "enc_ok e" and "enc_owned e" and "length bs \<le> N"
  shows "\<exists>e1 e2. Ensure N e = Some e1 \<and> encoded e1 = encoded e \<and> N \<le> enc_avail e1 \<and>
    put_bytes bs e1 = Some e2 \<and> enc_ok e2 \<and> enc_owned e2 \<and> encoded e2 = encoded e @ bs \<and>
    (put_bytes bs e = None \<longleftrightarrow> enc_avail e < length bs)"
proof -
  obtain e1 where 1: "Ensure N e = Some e1" "wrote e [] e1" "N \<le> enc_avail e1"
    using emits_Ensure [of N] assms(1,2) unfolding emits_def by auto
  then obtain e2 where "put_bytes bs e1 = Some e2" "wrote e1 bs e2"
    using put_bytes_ok [of e1 bs] assms(3) by (auto simp: wrote_def)
  then show ?thesis using 1 assms put_bytes_fault [OF assms(1)] by (auto simp: wrote_def)
qed

theorem Ensure_then_put_witness:
  "\<exists>e1 e2. Ensure 3 (Encoder_new (\<lambda>_. 0)) = Some e1 \<and> put_bytes [1, 2] e1 = Some e2 \<and> encoded e2 = [1, 2]"
proof -
  have "enc_ok (Encoder_new (\<lambda>_. 0))" "enc_owned (Encoder_new (\<lambda>_. 0))" "encoded (Encoder_new (\<lambda>_. 0)) = []"
    by (simp_all add: Encoder_new_def enc_ok_def encoded_def)
  then show ?thesis using Ensure_then_put [of "Encoder_new (\<lambda>_. 0)" "[1, 2]" 3] by auto
qed

text \<open>\<open>put_varint64_from_decoder\<close> never leaves either buffer; it returns true exactly when
  \<open>get_varint64\<close> would succeed and the encoder has room for those bytes, then moves the decoder as
  \<open>get_varint64\<close> does and appends the bytes it passed, and otherwise leaves the decoder where it
  was and the encoded bytes as they were.\<close>

theorem put_varint64_from_decoder_correct:
  assumes "enc_ok e" and "dec_pos d \<le> length (dec_buf d)"
  shows "\<exists>ok d' e'. put_varint64_from_decoder d e = Some (ok, d', e') \<and>
    (ok \<longleftrightarrow> (\<exists>v d1. get_varint64 d = Some (v, d1) \<and> dec_pos d1 - dec_pos d \<le> enc_avail e)) \<and>
    (ok \<longrightarrow> map_option snd (get_varint64 d) = Some d' \<and>
       wrote e (take (dec_pos d' - dec_pos d) (ptr d)) e') \<and>
    (\<not> ok \<longrightarrow> d' = d \<and> wrote e [] e')"
proof (cases "Skip64 (ptr d)")
  case None
  then have "get_varint64 d = None" using get_varint64_Skip [OF assms(2)] by (cases "get_varint64 d") auto
  then show ?thesis
    using put_varint64_from_decoder_copied [OF assms] None by (auto simp: copied_def)
next
  case (Some r)
  then obtain v where "get_varint64 d = Some (v, past (avail d - length r) d)"
    using get_varint64_Skip [OF assms(2)] by (cases "get_varint64 d") auto
  then show ?thesis
    using put_varint64_from_decoder_copied [OF assms] Some
    by (cases "avail d - length r \<le> enc_avail e") (auto simp: copied_def Let_def past_def)
qed

theorem put_varint64_from_decoder_correct_witness:
  "\<exists>ok d' e'. put_varint64_from_decoder (Decoder_on [200, 3, 9]) (Encoder_on [0, 0, 0] (\<lambda>_. 0)) = Some (ok, d', e') \<and> ok"
proof -
  have "enc_ok (Encoder_on [0, 0, 0] (\<lambda>_. 0))" "dec_pos (Decoder_on [200, 3, 9]) \<le> length (dec_buf (Decoder_on [200, 3, 9]))"
    by (simp_all add: enc_ok_def Encoder_on_def Decoder_on_def)
  moreover have "get_varint64 (Decoder_on [200, 3, 9]) = Some (456, \<lparr>dec_buf = [200, 3, 9], dec_pos = 2\<rparr>)"
    by code_simp
  moreover have "dec_pos (Decoder_on [200, 3, 9]) = 0" "enc_avail (Encoder_on [0, 0, 0] (\<lambda>_. 0)) = 3"
    by (simp_all add: Decoder_on_def Encoder_on_def enc_avail_def)
  ultimately show ?thesis
    using put_varint64_from_decoder_correct [of "Encoder_on [0, 0, 0] (\<lambda>_. 0)" "Decoder_on [200, 3, 9]"] by fastforce
qed


section \<open>Forms of a cell id\<close>

text \<open>C9: a token of at most sixteen characters can be read back for every 64-bit id, valid or not,
  and tokens of non-zero ids are ordered as strings the way the ids are ordered as numbers.
  The token of zero is \<^verbatim>\<open>"X"\<close>, which does not take part in that order.\<close>

theorem token_roundtrip_order:
  "FromToken (ToToken x) = x \<and> length (ToToken x) \<le> 16 \<and>
   (x \<noteq> 0 \<and> y \<noteq> 0 \<longrightarrow> (ToToken x < ToToken y \<longleftrightarrow> x < y)) \<and> ToToken 0 = ''X''"
  using FromToken_ToToken ToToken_less [of x y] length_ToToken by (auto simp: ToToken_def)

theorem token_roundtrip_order_witness:
  "ToToken 0x1000000000000000 < ToToken 0x3000000000000000"
  using token_roundtrip_order [of "0x1000000000000000" "0x3000000000000000"] by simp

text \<open>\<open>FromDebugString\<close> reads back \<open>ToString\<close> of every valid cell id.\<close>

theorem debug_string_roundtrip:
  assumes "is_valid x"
  shows "FromDebugString (cell_ToString x) = x"
  by (rule FromDebugString_ToString [OF assms])

theorem debug_string_roundtrip_witness:
  "FromDebugString (cell_ToString (cell_at 3 77)) = cell_at 3 77"
  using debug_string_roundtrip [of "cell_at 3 77"] by (simp add: is_valid_at)

text \<open>Both encodings of a cell id (eight bytes, or the token ended by a zero byte) succeed on
  every encoder that owns its buffer and append bytes from which their decoder gets the id and
  moves right behind it, whatever follows; on arbitrary bytes neither decoder reads outside its
  buffer.\<close>

theorem cell_encodings_roundtrip:
  assumes "enc_ok e" and "enc_owned e" and "good d"
  shows "(\<exists>e' bs. cell_Encode x e = Some e' \<and> wrote e bs e' \<and>
      (ptr d = bs @ r \<longrightarrow> cell_Decode d = Some (Some (x, past (length bs) d)))) \<and>
    (\<exists>e' bs. Coder_Encode x e = Some e' \<and> wrote e bs e' \<and>
      (ptr d = bs @ r \<longrightarrow> Coder_Decode d = Some (Some (x, past (length bs) d)))) \<and>
    cell_Decode d \<noteq> None \<and> Coder_Decode d \<noteq> None"
proof (intro conjI)
  obtain e1 where "cell_Encode x e = Some e1" "wrote e (Store64 x) e1"
    using emitsD [OF cell.enc_grows [where v = x]] assms(1,2) by auto
  then show "\<exists>e' bs. cell_Encode x e = Some e' \<and> wrote e bs e' \<and>
      (ptr d = bs @ r \<longrightarrow> cell_Decode d = Some (Some (x, past (length bs) d)))"
    by (metis cell.dec_reads)
  obtain e2 where "Coder_Encode x e = Some e2" "wrote e (char_bytes (ToToken x) @ [0]) e2"
    using emitsD [OF token.enc_grows [where v = x]] assms(1,2) by auto
  then show "\<exists>e' bs. Coder_Encode x e = Some e' \<and> wrote e bs e' \<and>
      (ptr d = bs @ r \<longrightarrow> Coder_Decode d = Some (Some (x, past (length bs) d)))"
    by (metis token.dec_reads)
qed (use cell.dec_total token.dec_total assms(3) in auto)

theorem cell_encodings_roundtrip_witness:
  "cell_Decode (Decoder_on [1, 2]) \<noteq> None"
proof -
  have "enc_ok (Encoder_new (\<lambda>_. 0))" "enc_owned (Encoder_new (\<lambda>_. 0))" "good (Decoder_on [1, 2])"
    by (simp_all add: Encoder_new_def enc_ok_def good_def Decoder_on_def)
  then show ?thesis using cell_encodings_roundtrip [of "Encoder_new (\<lambda>_. 0)" "Decoder_on [1, 2]"] by blast
qed

end
