(* ===== verification/Encoded_Uint.thy ===== *)
theory Encoded_Uint
  imports Codec
begin

text \<open>
  \<^verbatim>\<open>s2/encoded_uint_vector.h\<close>: vectors of unsigned integers with a fixed number of bytes per value,
  decoded on access.  The template parameter \<open>T\<close> is a word type of 16, 32 or 64 bits.  An
  \<open>EncodedUintVector\<close> points into the decoder's buffer; \<open>uv_data\<close> is the readable memory from that
  pointer on.  Accesses behind it are faults, and so is the signed overflow of \<^verbatim>\<open>i * len_\<close>.
\<close>

definition size_of :: "'a::len itself \<Rightarrow> nat" where
  "size_of _ = LENGTH('a) div 8"

record uint_vector =
  uv_data :: "byte list"
  uv_size :: uint32
  uv_len :: uint8

fun EncodeUintWithLength :: "'a::len word \<Rightarrow> nat \<Rightarrow> encoder \<Rightarrow> encoder option" where
  "EncodeUintWithLength x 0 e = (if x = 0 then Some e else None)"
| "EncodeUintWithLength x (Suc len) e =
     do { e \<leftarrow> put8 (ucast x) e; EncodeUintWithLength (drop_bit 8 x) len e }"

definition GetUintWithLength :: "byte list \<Rightarrow> nat \<Rightarrow> 'a::len word option" where
  "GetUintWithLength p len =
     (if length p < len then None
      else if len AND size_of TYPE('a) \<noteq> 0 then Some (mem_word (take (size_of TYPE('a)) p))
      else
        let x = 0; q = len;
            (x, q) = (if size_of TYPE('a) > 4 \<and> len AND 4 \<noteq> 0
                      then (ucast (Load32 (drop (q - 4) p)), q - 4) else (x, q));
            (x, q) = (if size_of TYPE('a) > 2 \<and> len AND 2 \<noteq> 0
                      then (push_bit 16 x + ucast (Load16 (drop (q - 2) p)), q - 2) else (x, q));
            (x, q) = (if size_of TYPE('a) > 1 \<and> len AND 1 \<noteq> 0
                      then (push_bit 8 x + ucast (p ! (q - 1)), q - 1) else (x, q))
        in Some x)"

definition DecodeUintWithLength :: "nat \<Rightarrow> decoder \<Rightarrow> (('a::len word \<times> decoder) option) option" where
  "DecodeUintWithLength len d =
     (if avail d < len then Some None
      else do { x \<leftarrow> GetUintWithLength (ptr d) len; d \<leftarrow> skip len d; Some (Some (x, d)) })"

definition uv_one_bits :: "'a::len word list \<Rightarrow> 'a word" where
  "uv_one_bits v = fold (\<lambda>x one_bits. one_bits OR x) v 1"

definition EncodeUintVector :: "'a::len word list \<Rightarrow> encoder \<Rightarrow> encoder option" where
  "EncodeUintVector v e =
     (let one_bits = uv_one_bits v;
          len = nat (drop_bit 3 (FindMSBSetNonZero64 (ucast one_bits)) + 1)
      in do { e \<leftarrow> Ensure (10 + length v * len) e;
              let size_len = (of_nat (length v) * of_nat (size_of TYPE('a))) OR of_nat (len - 1);
              e \<leftarrow> put_varint64 size_len e;
              each (\<lambda>x. EncodeUintWithLength x len) v e })"

definition UV_Init :: "'a::len itself \<Rightarrow> decoder \<Rightarrow> ((uint_vector \<times> decoder) option) option" where
  "UV_Init _ d =
     (case get_varint64 d of None \<Rightarrow> Some None
      | Some (size_len, d) \<Rightarrow>
        let sz = ucast (size_len div of_nat (size_of TYPE('a))) :: uint32;
            len = ucast (size_len AND (of_nat (size_of TYPE('a)) - 1)) + 1 :: uint8
        in if unat sz > (2 ^ 64 - 1) div size_of TYPE('a) then Some None
           else
             let bytes = ucast sz * ucast len :: uint64
             in if avail d < unat bytes then Some None
                else do { d' \<leftarrow> skip (unat bytes) d;
                          Some (Some (\<lparr>uv_data = ptr d, uv_size = sz, uv_len = len\<rparr>, d')) })"

definition UV_Clear :: "uint_vector \<Rightarrow> uint_vector" where
  "UV_Clear v = v\<lparr>uv_size := 0, uv_data := []\<rparr>"

definition uv_length :: "uint_vector \<Rightarrow> nat" where
  "uv_length v = unat (uv_size v)"

definition uv_nth :: "uint_vector \<Rightarrow> nat \<Rightarrow> 'a::len word option" where
  "uv_nth v i =
     (if i < uv_length v \<and> i * unat (uv_len v) < 2 ^ 31
      then GetUintWithLength (drop (i * unat (uv_len v)) (uv_data v)) (unat (uv_len v)) else None)"

function uv_lower_loop :: "byte list \<Rightarrow> nat \<Rightarrow> 'a::len word \<Rightarrow> nat \<Rightarrow> nat \<Rightarrow> nat option" where
  "uv_lower_loop data len target lo hi =
     (if lo < hi
      then let mid = (lo + hi) div 2
           in do { val \<leftarrow> GetUintWithLength (drop (mid * len) data) len;
                   if val < target then uv_lower_loop data len target (mid + 1) hi
                   else uv_lower_loop data len target lo mid }
      else Some lo)"
  by pat_completeness auto

termination by (relation "measure (\<lambda>(_, _, _, lo, hi). hi - lo)") auto

definition uv_lower_bound :: "uint_vector \<Rightarrow> 'a::len word \<Rightarrow> nat option" where
  "uv_lower_bound v target =
     (if 1 \<le> unat (uv_len v) \<and> unat (uv_len v) \<le> size_of TYPE('a)
      then uv_lower_loop (uv_data v) (unat (uv_len v)) target 0 (uv_length v) else None)"

text \<open>\<open>collect f n\<close> is a loop that fills element \<open>i\<close> of a vector of length \<open>n\<close> with \<open>f i\<close>.\<close>

definition collect :: "(nat \<Rightarrow> 'a option) \<Rightarrow> nat \<Rightarrow> 'a list option" where
  "collect f n = fold (\<lambda>i res. do { xs \<leftarrow> res; x \<leftarrow> f i; Some (xs @ [x]) }) [0..<n] (Some [])"

definition UV_Decode :: "uint_vector \<Rightarrow> 'a::len word list option" where
  "UV_Decode v = collect (uv_nth v) (uv_length v)"

definition UV_Encode :: "'a::len itself \<Rightarrow> uint_vector \<Rightarrow> encoder \<Rightarrow> encoder option" where
  "UV_Encode _ v e =
     (let size_len = (ucast (uv_size v) * of_nat (size_of TYPE('a))) OR ucast (uv_len v - 1) :: uint64
      in do { e \<leftarrow> Ensure (10 + unat size_len) e;
              e \<leftarrow> put_varint64 size_len e;
              putn (uv_data v) (unat (uv_size v * ucast (uv_len v))) e })"

end
