(* ===== verification/Encoded_Uint_Correct.thy ===== *)
theory Encoded_Uint_Correct
  imports Encoded_Uint
begin

text \<open>
  Reading an integer in power-of-two chunks gives its bytes, the header of a vector determines its
  size and width, and a view of a vector behaves like the list it was made from.
\<close>


section \<open>One value\<close>

lemma collect_Suc: "collect f (Suc n) = do { xs \<leftarrow> collect f n; x \<leftarrow> f n; Some (xs @ [x]) }"
  by (simp add: collect_def)

lemma collect_eq: "(\<And>i. i < n \<Longrightarrow> f i = Some (g i)) \<Longrightarrow> collect f n = Some (map g [0..<n])"
proof (induction n)
  case 0
  then show ?case by (simp add: collect_def)
next
  case (Suc n)
  then show ?case by (simp add: collect_Suc)
qed

lemma mem_word_append: "mem_word (xs @ ys) = mem_word xs OR push_bit (8 * length xs) (mem_word ys)"
  by (induction xs) (simp_all add: push_bit_or push_bit_push_bit or.assoc add.commute)

lemma mem_word_short: "unat (mem_word bs :: 'a::len word) < 2 ^ (8 * length bs)"
proof -
  have "take_bit (8 * length bs) (mem_word bs :: 'a word) = mem_word bs"
    by (rule bit_word_eqI) (auto simp: bit_simps bit_mem_word less_mult_imp_div_less)
  then have "unat (mem_word bs :: 'a word) = take_bit (8 * length bs) (unat (mem_word bs :: 'a word))"
    by (metis unsigned_take_bit_eq)
  then show ?thesis by (metis take_bit_nat_less_exp)
qed

lemma emits_UintWithLength:
  fixes x :: "'a::len word"
  shows "take_bit (8 * len) x = x \<Longrightarrow> emits own (len + n) (EncodeUintWithLength x len) (mem_bytes len x) n"
proof (induction len arbitrary: x)
  case 0
  then show ?case using emits_Some by simp
next
  case (Suc len)
  have "take_bit (8 * len) (drop_bit 8 x) = drop_bit 8 x"
    using Suc.prems by (metis drop_bit_take_bit diff_add_inverse mult_Suc_right)
  then have "emits own (len + n) (EncodeUintWithLength (drop_bit 8 x) len) (mem_bytes len (drop_bit 8 x)) n"
    by (rule Suc.IH)
  moreover have "emits own (Suc (len + n)) (put8 (ucast x)) [ucast x] (len + n)"
    using emits_put [of own "[ucast x]" "len + n"] by (simp add: put8_def)
  ultimately have "emits own (Suc (len + n)) (\<lambda>e. put8 (ucast x) e \<bind> EncodeUintWithLength (drop_bit 8 x) len)
      ([ucast x] @ mem_bytes len (drop_bit 8 x)) n"
    by (intro emits_bind)
  then show ?case by simp
qed

lemma ucast_mem_word:
  assumes "8 * length bs \<le> LENGTH('b)"
  shows "ucast (mem_word bs :: 'b::len word) = (mem_word bs :: 'a::len word)"
  using assms by (intro bit_word_eqI) (auto simp: bit_simps bit_mem_word less_mult_imp_div_less)

lemma step_word:
  assumes "8 * k \<le> LENGTH('b)" "k \<le> q" "q \<le> n" "n \<le> length p"
  shows "push_bit (8 * k) (mem_word (drop q (take n p))) + ucast (mem_word (take k (drop (q - k) p)) :: 'b::len word)
    = (mem_word (drop (q - k) (take n p)) :: 'a::len word)"
proof -
  have e: "drop (q - k) (take n p) = take k (drop (q - k) p) @ drop q (take n p)"
  proof -
    have "drop (q - k) (take n p) = take k (drop (q - k) (take n p)) @ drop k (drop (q - k) (take n p))"
      by (simp only: append_take_drop_id)
    moreover have "take k (drop (q - k) (take n p)) = take k (drop (q - k) p)"
    proof -
      have "k \<le> n - (q - k)" using assms by linarith
      then show ?thesis by (simp only: drop_take take_take min_absorb1)
    qed
    ultimately show ?thesis using assms by simp
  qed
  have l: "length (take k (drop (q - k) p)) = k" using assms by simp
  have s: "ucast (mem_word (take k (drop (q - k) p)) :: 'b word) = (mem_word (take k (drop (q - k) p)) :: 'a word)"
    using assms l by (intro ucast_mem_word) simp
  have "unat (mem_word (take k (drop (q - k) p)) :: 'a word) < 2 ^ (8 * k)"
    using mem_word_short [of "take k (drop (q - k) p)"] l by simp
  then show ?thesis unfolding s e mem_word_append l by (simp add: push_plus_word or.commute)
qed

lemma length_cases:
  assumes "n \<le> (8::nat)"
  obtains "n = 0" | "n = 1" | "n = 2" | "n = 3" | "n = 4" | "n = 5" | "n = 6" | "n = 7" | "n = 8"
  using assms by linarith

lemma GetUintWithLength_eq:
  assumes "LENGTH('a::len) \<in> {16, 32, 64}" "len \<le> size_of TYPE('a)" "len \<le> length p"
  shows "GetUintWithLength p len = Some (mem_word (take len p) :: 'a word)"
proof -
  let ?w = "\<lambda>q. mem_word (drop q (take len p)) :: 'a word"
  have 4: "(ucast (Load32 (drop (len - 4) p)) :: 'a word) = ?w (len - 4)" if "4 \<le> len"
    using step_word [of 4 len len p, where 'b = 32 and 'a = 'a] that assms by (simp add: Load32_def)
  have 2: "push_bit 16 (?w q) + ucast (Load16 (drop (q - 2) p)) = ?w (q - 2)" if "2 \<le> q" "q \<le> len" for q
    using step_word [of 2 q len p, where 'b = 16 and 'a = 'a] that assms by (simp add: Load16_def)
  have 1: "push_bit 8 (?w q) + ucast (p ! (q - 1)) = ?w (q - 1)" if "1 \<le> q" "q \<le> len" for q
  proof -
    have "take 1 (drop (q - 1) p) = [p ! (q - 1)]"
      using that assms(3) by (simp add: take_Suc_conv_app_nth)
    then show ?thesis using step_word [of 1 q len p, where 'b = 8 and 'a = 'a] that assms by simp
  qed
  have 0: "0 = ?w len" by simp
  have "len \<le> 8" using assms(1,2) by (auto simp: size_of_def)
  then show ?thesis
    using assms 4 2 [of len] 2 [of "len - 4"] 1 [of len] 1 [of "len - 2"] 1 [of "len - 4"] 1 [of "len - 6"]
    by (cases rule: length_cases) (auto simp: GetUintWithLength_def size_of_def)
qed
section \<open>Vectors\<close>

definition uv_width :: "'a::len word list \<Rightarrow> nat" where
  "uv_width v = nat (drop_bit 3 (FindMSBSetNonZero64 (ucast (uv_one_bits v))) + 1)"

definition uv_header :: "'a::len word list \<Rightarrow> uint64" where
  "uv_header v = (of_nat (length v) * of_nat (size_of TYPE('a))) OR of_nat (uv_width v - 1)"

definition uv_bytes :: "'a::len word list \<Rightarrow> byte list" where
  "uv_bytes v = Encode64 (uv_header v) @ concat (map (mem_bytes (uv_width v)) v)"

text \<open>\<open>uv_view vec xs\<close>: the encoded vector \<open>vec\<close> shows the values \<open>xs\<close>.\<close>

definition uv_view :: "uint_vector \<Rightarrow> 'a::len word list \<Rightarrow> bool" where
  "uv_view vec xs \<longleftrightarrow>
     uv_length vec = length xs \<and> 1 \<le> unat (uv_len vec) \<and> unat (uv_len vec) \<le> size_of TYPE('a) \<and>
     (\<forall>x\<in>set xs. take_bit (8 * unat (uv_len vec)) x = x) \<and>
     (\<exists>r. uv_data vec = concat (map (mem_bytes (unat (uv_len vec))) xs) @ r)"

lemma take_bit_word_eq_self_iff: "take_bit n (w :: 'a::len word) = w \<longleftrightarrow> unat w < 2 ^ n"
proof -
  have "take_bit n w = w \<longleftrightarrow> take_bit n (unat w) = unat w"
    by (metis unsigned_take_bit_eq word_unat_eq_iff)
  then show ?thesis by (simp add: take_bit_nat_eq_self_iff)
qed

lemma uv_one_bits_ge: "uv_one_bits v \<noteq> 0 \<and> (\<forall>x\<in>set v. x \<le> uv_one_bits v)"
proof -
  have "a \<le> fold (\<lambda>x b. b OR x) v a \<and> (\<forall>x\<in>set v. x \<le> fold (\<lambda>x b. b OR x) v a)" for a
  proof (induction v arbitrary: a)
    case (Cons y v)
    have "a \<le> a OR y" "y \<le> a OR y" by (simp_all add: le_word_or1 le_word_or2)
    then show ?case using Cons.IH [of "a OR y"] by auto
  qed simp
  then have "1 \<le> uv_one_bits v" "\<forall>x\<in>set v. x \<le> uv_one_bits v" by (simp_all add: uv_one_bits_def)
  moreover have "\<not> 1 \<le> (0 :: 'a word)" by simp
  ultimately show ?thesis by metis
qed

lemma uv_width:
  fixes v :: "'a::len word list"
  assumes "LENGTH('a) \<in> {16, 32, 64}"
  shows "1 \<le> uv_width v" "uv_width v \<le> size_of TYPE('a)" "\<forall>x\<in>set v. take_bit (8 * uv_width v) x = x"
proof -
  let ?o = "uv_one_bits v"
  have small: "unat (ucast ?o :: uint64) = unat ?o"
  proof -
    have "unat ?o < 2 ^ LENGTH('a)" by (rule unsigned_less)
    also have "(2::nat) ^ LENGTH('a) \<le> 2 ^ 64" using assms by (intro power_increasing) auto
    finally show ?thesis by (simp add: unsigned_ucast_eq take_bit_nat_eq_self)
  qed
  have "0 < unat ?o" using uv_one_bits_ge [of v] by (simp add: unat_gt_0)
  then obtain k where k: "2 ^ k \<le> unat ?o" "unat ?o < 2 ^ Suc k" using ex_power_ivl1 [of 2 "unat ?o"] by auto
  have msb: "FindMSBSetNonZero64 (ucast ?o) = int k"
    using k small by (intro FindMSBSetNonZero64_eq) simp_all
  have w: "uv_width v = k div 8 + 1"
    unfolding uv_width_def msb by (simp add: drop_bit_eq_div nat_add_distrib nat_div_distrib)
  have "k < LENGTH('a)" using k(1) by (rule exp_le_unat_length)
  then show "1 \<le> uv_width v" "uv_width v \<le> size_of TYPE('a)" using assms unfolding w by (auto simp: size_of_def)
  have "unat ?o < 2 ^ (8 * uv_width v)"
  proof -
    have "Suc k \<le> 8 * uv_width v" unfolding w by presburger
    then show ?thesis using k(2) by (meson le_trans less_le_trans one_le_numeral power_increasing)
  qed
  then show "\<forall>x\<in>set v. take_bit (8 * uv_width v) x = x"
    using uv_one_bits_ge [of v] unfolding take_bit_word_eq_self_iff word_le_nat_alt by (meson le_less_trans)
qed

lemma EncodeUintVector_emits:
  fixes v :: "'a::len word list"
  assumes "LENGTH('a) \<in> {16, 32, 64}"
  shows "emits True 0 (EncodeUintVector v) (uv_bytes v) 0"
proof -
  let ?w = "uv_width v" and ?c = "concat (map (mem_bytes (uv_width v)) v)"
  have len: "length ?c = length v * ?w" by (simp add: length_concat o_def sum_list_triv)
  have "emits True (length ?c + 0) (each (\<lambda>x. EncodeUintWithLength x ?w) v) ?c 0"
    using uv_width(3) [OF assms, of v] by (intro emits_each) (simp add: emits_UintWithLength)
  then have b: "emits True (length v * ?w) (each (\<lambda>x. EncodeUintWithLength x ?w) v) ?c 0" by (simp add: len)
  have "varint64_length (uv_header v) \<le> 10"
    using unsigned_less [of "uv_header v", where 'a = nat] by (simp add: varint64_length_def Length64_eq length_venc)
  then have a: "emits True (10 + length v * ?w) (put_varint64 (uv_header v)) (Encode64 (uv_header v)) (length v * ?w)"
    by (intro emits_weaken [OF emits_own [OF v64.enc_fits [where n = "length v * ?w"]]]) simp_all
  show ?thesis
    using emits_Ensure_bind [OF emits_bind [OF a b]]
    unfolding EncodeUintVector_def [abs_def] Let_def uv_bytes_def uv_width_def [symmetric] uv_header_def [symmetric] .
qed

lemma unat_uv_header:
  fixes v :: "'a::len word list"
  assumes "LENGTH('a) \<in> {16, 32, 64}" "length v < 2 ^ 32"
  shows "unat (uv_header v) = length v * size_of TYPE('a) + (uv_width v - 1)"
proof -
  have "\<exists>s. size_of TYPE('a) = 2 ^ s \<and> s \<le> 3"
    using assms(1) by (auto simp: size_of_def intro: exI [of _ 1] exI [of _ 2] exI [of _ 3])
  then obtain s where s: "size_of TYPE('a) = 2 ^ s" "s \<le> 3" by blast
  have w: "uv_width v - 1 < 2 ^ s" using uv_width [OF assms(1), of v] s(1) by simp
  also have "(2::nat) ^ s \<le> 8" using power_increasing [OF s(2), of "2::nat"] by simp
  finally have w8: "uv_width v - 1 < 8" .
  have u: "unat (of_nat (uv_width v - 1) :: uint64) = uv_width v - 1" using w8 by (simp add: unat_of_nat)
  have "uv_header v = push_bit s (of_nat (length v)) OR of_nat (uv_width v - 1)"
    unfolding uv_header_def s(1) by (simp add: push_bit_eq_mult)
  also have "\<dots> = push_bit s (of_nat (length v)) + of_nat (uv_width v - 1)"
    using w u by (intro push_plus_word [symmetric]) simp
  also have "\<dots> = of_nat (length v * size_of TYPE('a) + (uv_width v - 1))"
    unfolding s(1) by (simp add: push_bit_eq_mult)
  finally have "unat (uv_header v) = (length v * size_of TYPE('a) + (uv_width v - 1)) mod 2 ^ 64"
    by (simp only: unat_of_nat) simp
  moreover have "length v * size_of TYPE('a) + (uv_width v - 1) < 2 ^ 64"
  proof -
    have "length v * size_of TYPE('a) \<le> 2 ^ 32 * 8"
      using assms(2) \<open>2 ^ s \<le> 8\<close> s(1) by (intro mult_le_mono) simp_all
    then show ?thesis using w8 by simp
  qed
  ultimately show ?thesis by simp
qed

lemma UV_Init_reads:
  fixes v :: "'a::len word list"
  assumes "LENGTH('a) \<in> {16, 32, 64}" "length v < 2 ^ 32" "ptr d = uv_bytes v @ r"
  obtains vec where "UV_Init TYPE('a) d = Some (Some (vec, past (length (uv_bytes v)) d))" "uv_view vec v"
    "uv_len vec = of_nat (uv_width v)" "uv_size vec = of_nat (length v)"
proof -
  let ?c = "concat (map (mem_bytes (uv_width v)) v)" and ?s = "size_of TYPE('a)"
  let ?d = "past (length (Encode64 (uv_header v))) d"
  note w = uv_width [OF assms(1), of v]
  have s: "?s \<in> {2, 4, 8}" using assms(1) by (auto simp: size_of_def)
  have len: "length ?c = length v * uv_width v" by (simp add: length_concat o_def sum_list_triv)
  have g: "get_varint64 d = Some (uv_header v, ?d)"
    using assms(3) by (intro readsD [OF reads_varint(2)]) (auto simp: uv_bytes_def Encode64_eq)
  have us: "unat (of_nat ?s :: uint64) = ?s" using s by auto
  have div: "unat (uv_header v div of_nat ?s) = length v"
    using w s unfolding unat_div us unat_uv_header [OF assms(1,2)] by auto
  have "uv_header v AND (of_nat ?s - 1) = of_nat (unat (uv_header v) mod ?s)"
  proof -
    have "\<exists>k. ?s = 2 ^ k" using s by (auto intro: exI [of _ 1] exI [of _ 2] exI [of _ 3])
    then obtain k where k: "?s = 2 ^ k" by blast
    have "uv_header v AND (of_nat ?s - 1) = take_bit k (uv_header v)"
      unfolding k by (simp add: take_bit_eq_mask mask_eq_exp_minus_1)
    then have "unat (uv_header v AND (of_nat ?s - 1)) = unat (uv_header v) mod ?s"
      unfolding k by (simp only: unsigned_take_bit_eq) (simp add: take_bit_eq_mod)
    then show ?thesis by (metis of_nat_unat ucast_id)
  qed
  then have m: "uv_header v AND (of_nat ?s - 1) = of_nat (uv_width v - 1)"
  proof -
    have "uv_width v - 1 < ?s" using w by simp
    then have "unat (uv_header v) mod ?s = uv_width v - 1" unfolding unat_uv_header [OF assms(1,2)] by simp
    then show ?thesis using \<open>uv_header v AND (of_nat ?s - 1) = _\<close> by simp
  qed
  have w8: "uv_width v \<le> 8" using w(2) s by auto
  define vec where "vec = \<lparr>uv_data = ?c @ r, uv_size = of_nat (length v), uv_len = of_nat (uv_width v)\<rparr>"
  have sz: "ucast (uv_header v div of_nat ?s) = (of_nat (length v) :: uint32)"
    using div by (metis of_nat_unat ucast_id unsigned_ucast_eq)
  have "ucast (of_nat (uv_width v - 1) :: uint64) + 1 = (of_nat (uv_width v) :: uint8)"
  proof -
    have "unat (of_nat (uv_width v - 1) :: uint64) = uv_width v - 1" using w8 by (simp add: unat_of_nat)
    then have "ucast (of_nat (uv_width v - 1) :: uint64) = (of_nat (uv_width v - 1) :: uint8)"
      by (metis of_nat_unat)
    then show ?thesis using w(1) by (simp add: of_nat_diff)
  qed
  then have ln: "ucast (uv_header v AND (of_nat ?s - 1)) + 1 = (of_nat (uv_width v) :: uint8)" unfolding m .
  have ul: "unat (of_nat (uv_width v) :: uint8) = uv_width v" using w8 by (simp add: unat_of_nat)
  have un: "unat (of_nat (length v) :: uint32) = length v" using assms(2) by (simp add: unat_of_nat)
  have b: "unat (ucast (of_nat (length v) :: uint32) * ucast (of_nat (uv_width v) :: uint8) :: uint64) = length ?c"
  proof -
    have "length v * uv_width v \<le> 2 ^ 32 * 8" using assms(2) w8 by (intro mult_le_mono) simp_all
    moreover have "ucast (of_nat (length v) :: uint32) = (of_nat (length v) :: uint64)"
      "ucast (of_nat (uv_width v) :: uint8) = (of_nat (uv_width v) :: uint64)"
      using ul un by (metis of_nat_unat)+
    ultimately show ?thesis by (simp only: len unat_of_nat flip: of_nat_mult) simp
  qed
  show ?thesis
  proof (rule that [of vec])
    have p: "ptr ?d = ?c @ r" using assms(3) by (simp add: uv_bytes_def)
    have "ptr d \<noteq> []" using assms(3) by (auto simp: uv_bytes_def Encode64_eq)
    then have "length (Encode64 (uv_header v)) \<le> avail d" "dec_pos d \<le> length (dec_buf d)"
      using assms(3) pos_ok by (auto simp: uv_bytes_def avail_ptr)
    then have "dec_pos ?d \<le> length (dec_buf ?d)" by (simp add: past_def avail_def)
    then have "skip (length ?c) ?d = Some (past (length ?c) ?d)"
      using p by (intro skip_eq) (simp_all add: avail_ptr)
    moreover have "\<not> avail ?d < length ?c" using p by (simp add: avail_ptr)
    moreover have "\<not> unat (of_nat (length v) :: uint32) > (2 ^ 64 - 1) div ?s"
      using assms(2) s un by auto
    ultimately show "UV_Init TYPE('a) d = Some (Some (vec, past (length (uv_bytes v)) d))"
      unfolding UV_Init_def g option.case prod.case Let_def sz ln b p vec_def uv_bytes_def
      by (simp del: of_nat_mult)
    show "uv_view vec v"
      using w assms(2) ul un by (simp add: uv_view_def vec_def uv_length_def)
  qed (simp_all add: vec_def)
qed

section \<open>Reading a vector\<close>

lemma drop_concat_fixed:
  assumes "\<And>x. length (f x) = w" "i \<le> length xs"
  shows "drop (i * w) (concat (map f xs) @ r) = concat (map f (drop i xs)) @ r"
  using assms(2)
proof (induction xs arbitrary: i)
  case (Cons x xs)
  then show ?case using assms(1) by (cases i) auto
qed simp

lemma uv_view_get:
  fixes xs :: "'a::len word list"
  assumes "LENGTH('a) \<in> {16, 32, 64}" "uv_view vec xs" "i < length xs"
  shows "GetUintWithLength (drop (i * unat (uv_len vec)) (uv_data vec)) (unat (uv_len vec)) = Some (xs ! i)"
proof -
  let ?w = "unat (uv_len vec)"
  obtain r where r: "uv_data vec = concat (map (mem_bytes ?w) xs) @ r" and w: "?w \<le> size_of TYPE('a)"
    and x: "take_bit (8 * ?w) (xs ! i) = xs ! i"
    using assms(2,3) unfolding uv_view_def by auto
  have "drop i xs = xs ! i # drop (Suc i) xs" using assms(3) by (simp add: Cons_nth_drop_Suc)
  then have "drop (i * ?w) (uv_data vec) = mem_bytes ?w (xs ! i) @ (concat (map (mem_bytes ?w) (drop (Suc i) xs)) @ r)"
    using drop_concat_fixed [of "mem_bytes ?w" ?w i xs r] assms(3) r by simp
  then show ?thesis
    using GetUintWithLength_eq [OF assms(1) w, of "drop (i * ?w) (uv_data vec)"] x
    by (simp add: mem_word_bytes)
qed

lemma uv_view_nth:
  fixes xs :: "'a::len word list"
  assumes "LENGTH('a) \<in> {16, 32, 64}" "uv_view vec xs" "i < length xs" "i * unat (uv_len vec) < 2 ^ 31"
  shows "uv_nth vec i = Some (xs ! i)"
  using uv_view_get [OF assms(1-3)] assms by (simp add: uv_nth_def uv_view_def)

lemma uv_view_Decode:
  fixes xs :: "'a::len word list"
  assumes "LENGTH('a) \<in> {16, 32, 64}" "uv_view vec xs" "length xs * size_of TYPE('a) < 2 ^ 31"
  shows "UV_Decode vec = Some xs"
proof -
  have "i * unat (uv_len vec) < 2 ^ 31" if "i < length xs" for i
  proof -
    have "i * unat (uv_len vec) \<le> length xs * size_of TYPE('a)"
      using assms(2) that by (intro mult_le_mono) (auto simp: uv_view_def)
    then show ?thesis using assms(3) by simp
  qed
  then have "collect (uv_nth vec) (length xs) = Some (map ((!) xs) [0..<length xs])"
    using uv_view_nth [OF assms(1,2)] by (intro collect_eq) blast
  then show ?thesis using assms(2) by (simp add: UV_Decode_def uv_view_def map_nth)
qed

lemma uv_lower_loop_eq:
  fixes xs :: "'a::len word list"
  assumes "LENGTH('a) \<in> {16, 32, 64}" "uv_view vec xs" "sorted xs"
    and "lo \<le> length (takeWhile (\<lambda>x. x < t) xs)" "length (takeWhile (\<lambda>x. x < t) xs) \<le> hi" "hi \<le> length xs"
  shows "uv_lower_loop (uv_data vec) (unat (uv_len vec)) t lo hi = Some (length (takeWhile (\<lambda>x. x < t) xs))"
  using assms(4-6)
proof (induction "hi - lo" arbitrary: lo hi rule: less_induct)
  case less
  let ?m = "(lo + hi) div 2"
  show ?case
  proof (cases "lo < hi")
    case True
    then have m: "?m < length xs" "lo \<le> ?m" "?m < hi" using less.prems by auto
    have "uv_lower_loop (uv_data vec) (unat (uv_len vec)) t lo hi =
      (if xs ! ?m < t then uv_lower_loop (uv_data vec) (unat (uv_len vec)) t (?m + 1) hi
       else uv_lower_loop (uv_data vec) (unat (uv_len vec)) t lo ?m)"
      using True uv_view_get [OF assms(1,2) m(1)] by (subst uv_lower_loop.simps) (simp add: Let_def)
    then show ?thesis
      using less.hyps [of hi "?m + 1"] less.hyps [of ?m lo] less.prems m sorted_count_iff [OF assms(3) m(1), of t]
      by auto
  next
    case False
    then show ?thesis using less.prems by (subst uv_lower_loop.simps) simp
  qed
qed

lemma uv_lower_bound_eq:
  fixes xs :: "'a::len word list"
  assumes "LENGTH('a) \<in> {16, 32, 64}" "uv_view vec xs" "sorted xs"
  shows "uv_lower_bound vec t = Some (length (takeWhile (\<lambda>x. x < t) xs))"
  using uv_lower_loop_eq [OF assms, of 0 t "length xs"] assms(2)
  by (simp add: uv_lower_bound_def uv_view_def length_takeWhile_le)


section \<open>The codec\<close>

text \<open>A client that initializes a vector and decodes all of it.\<close>

definition uv_read :: "decoder \<Rightarrow> (('a::len word list \<times> decoder) option) option" where
  "uv_read d =
     do { r \<leftarrow> UV_Init TYPE('a) d;
          case r of None \<Rightarrow> Some None
          | Some (vec, d) \<Rightarrow> do { xs \<leftarrow> UV_Decode vec; Some (Some (xs, d)) } }"

definition uv_fits :: "'a::len word list \<Rightarrow> bool" where
  "uv_fits v \<longleftrightarrow> length v * size_of TYPE('a) < 2 ^ 31"

lemma uv_fits_less:
  fixes v :: "'a::len word list"
  assumes "LENGTH('a) \<in> {16, 32, 64}" "uv_fits v"
  shows "length v < 2 ^ 31" "length v < 2 ^ 32"
proof -
  have "length v * 1 \<le> length v * size_of TYPE('a)"
    using assms(1) by (intro mult_le_mono) (auto simp: size_of_def)
  then show "length v < 2 ^ 31"
    using assms(2) unfolding uv_fits_def mult_1_right by (rule le_less_trans)
  then show "length v < 2 ^ 32" by (rule less_trans) simp
qed

lemma uv_read_reads:
  fixes v :: "'a::len word list"
  assumes "LENGTH('a) \<in> {16, 32, 64}" "uv_fits v" "ptr d = uv_bytes v @ r"
  shows "uv_read d = Some (Some (v, past (length (uv_bytes v)) d))"
proof -
  obtain vec where vec: "UV_Init TYPE('a) d = Some (Some (vec, past (length (uv_bytes v)) d))" "uv_view vec v"
    by (rule UV_Init_reads [OF assms(1) uv_fits_less(2) [OF assms(1,2)] assms(3)])
  then have "UV_Decode vec = Some v" using assms(2) by (intro uv_view_Decode [OF assms(1)]) (simp_all add: uv_fits_def)
  then show ?thesis using vec(1) by (simp add: uv_read_def)
qed

interpretation uv16: growing_codec uv_fits uv_bytes uv_read "EncodeUintVector :: uint16 list \<Rightarrow> _"
  by unfold_locales (auto intro: uv_read_reads EncodeUintVector_emits)

interpretation uv32: growing_codec uv_fits uv_bytes uv_read "EncodeUintVector :: uint32 list \<Rightarrow> _"
  by unfold_locales (auto intro: uv_read_reads EncodeUintVector_emits)

interpretation uv64: growing_codec uv_fits uv_bytes uv_read "EncodeUintVector :: uint64 list \<Rightarrow> _"
  by unfold_locales (auto intro: uv_read_reads EncodeUintVector_emits)

lemma UV_Init_checked: "checked (UV_Init TYPE('a::len))"
  unfolding checked_def
proof (intro allI impI)
  fix d assume g: "good d"
  show "UV_Init TYPE('a) d = Some None \<or> (\<exists>v d'. UV_Init TYPE('a) d = Some (Some (v, d')) \<and> stays d d')"
  proof (cases "get_varint64 d")
    case None
    then show ?thesis by (simp add: UV_Init_def)
  next
    case (Some p)
    obtain h d1 where p: "p = (h, d1)" by fastforce
    have s: "stays d d1" using get_varint_checked(2) [OF g] Some p by simp
    have "skip n d1 = Some (past n d1) \<and> stays d (past n d1)" if "\<not> avail d1 < n" for n
      using that s stays_good [OF s] stays_past [of d1 n] stays_trans by (auto simp: good_def intro: skip_eq)
    then show ?thesis using Some p by (auto simp: UV_Init_def Let_def)
  qed
qed

text \<open>Encoding a view again writes the bytes it was made from.\<close>

lemma UV_Encode_emits:
  fixes v :: "'a::len word list"
  assumes "LENGTH('a) \<in> {16, 32, 64}" "uv_fits v" "uv_view vec v"
    and "uv_len vec = of_nat (uv_width v)" "uv_size vec = of_nat (length v)"
  shows "emits True 0 (UV_Encode TYPE('a) vec) (uv_bytes v) 0"
proof -
  let ?c = "concat (map (mem_bytes (uv_width v)) v)"
  note w = uv_width [OF assms(1), of v]
  have w8: "uv_width v \<le> 8" using w(2) assms(1) by (auto simp: size_of_def)
  have ul: "unat (uv_len vec) = uv_width v" using w8 by (simp add: assms(4) unat_of_nat)
  have un: "unat (uv_size vec) = length v" using assms(3) by (simp add: uv_view_def uv_length_def)
  obtain r where r: "uv_data vec = ?c @ r" using assms(3) unfolding uv_view_def ul by blast
  have len: "length ?c = length v * uv_width v" by (simp add: length_concat o_def sum_list_triv)
  have small: "length v * uv_width v < 2 ^ 31"
    using mult_le_mono2 [OF w(2)] assms(2) unfolding uv_fits_def by (rule le_less_trans)
  have "uv_len vec - 1 = of_nat (uv_width v - 1)" using w(1) by (simp add: assms(4) of_nat_diff)
  then have "unat (uv_len vec - 1) = uv_width v - 1" using w8 by (simp add: unat_of_nat)
  then have h: "(ucast (uv_size vec) * of_nat (size_of TYPE('a))) OR ucast (uv_len vec - 1) = uv_header v"
    unfolding uv_header_def by (metis of_nat_unat un)
  have "uv_size vec * ucast (uv_len vec) = (of_nat (length v * uv_width v) :: uint32)"
    by (metis assms(5) of_nat_mult of_nat_unat ul)
  then have n: "unat (uv_size vec * ucast (uv_len vec) :: uint32) = length ?c"
    using small by (simp only: len unat_of_nat) simp
  have b: "emits True (length ?c) (putn (uv_data vec) (length ?c)) ?c 0"
    using emits_put [of True ?c 0] unfolding putn_def [abs_def] r by simp
  have wide: "length ?c \<le> unat (uv_header v)"
  proof -
    have "length v * uv_width v \<le> length v * size_of TYPE('a)" using w(2) by (rule mult_le_mono2)
    then show ?thesis unfolding unat_uv_header [OF assms(1) uv_fits_less(2) [OF assms(1,2)]] len by linarith
  qed
  have "varint64_length (uv_header v) \<le> 10"
    using unsigned_less [of "uv_header v", where 'a = nat] by (simp add: varint64_length_def Length64_eq length_venc)
  then have a: "emits True (10 + unat (uv_header v)) (put_varint64 (uv_header v)) (Encode64 (uv_header v)) (length ?c)"
    using wide by (intro emits_weaken [OF emits_own [OF v64.enc_fits [where n = "length ?c"]]]) simp_all
  show ?thesis
    using emits_Ensure_bind [OF emits_bind [OF a b]]
    unfolding UV_Encode_def [abs_def] Let_def h n uv_bytes_def .
qed

end
