(* ===== verification/Encoded_Cell_Ids.thy ===== *)
theory Encoded_Cell_Ids
  imports Encoded_Uint_Correct Cell_Span
begin

text \<open>
  \<^verbatim>\<open>s2/encoded_s2cell_id_vector.h\<close> and \<^verbatim>\<open>.cc\<close>: a vector of cell ids as \<open>base + (delta << shift)\<close>.
  \<open>civ_base\<close> is the loop that chooses how many leading bytes of the smallest id make up the base,
  \<open>civ_choose\<close> the choice of base, its length and the shift.  Failed \<^verbatim>\<open>S2_DCHECK\<close>s are faults.
\<close>

record cell_id_vector =
  cv_deltas :: uint_vector
  cv_base :: uint64
  cv_shift :: nat

definition civ_scan :: "cellid list \<Rightarrow> uint64 \<times> uint64 \<times> uint64 \<times> uint64" where
  "civ_scan v =
     fold (\<lambda>x (v_or, v_and, v_min, v_max). (v_or OR x, v_and AND x, min v_min x, max v_max x))
       v (0, NOT 0, NOT 0, 0)"

definition civ_t_base :: "uint64 \<Rightarrow> nat \<Rightarrow> uint64" where
  "civ_t_base v_min len = v_min AND NOT (drop_bit (8 * len) (NOT 0))"

definition civ_base :: "nat \<Rightarrow> uint64 \<Rightarrow> uint64 \<Rightarrow> nat \<Rightarrow> uint64 \<times> nat \<times> int \<times> uint64" where
  "civ_base n v_min v_max e_shift =
     fold (\<lambda>len (e_base, e_base_len, e_max_delta_msb, e_bytes).
         let t_base = civ_t_base v_min len;
             t_max_delta_msb = max 0 (int (bit_width (drop_bit e_shift (v_max - t_base))) - 1);
             t_bytes = of_nat len + of_nat n * (of_int (drop_bit 3 t_max_delta_msb) + 1)
         in if t_bytes < e_bytes then (t_base, len, t_max_delta_msb, t_bytes)
            else (e_base, e_base_len, e_max_delta_msb, e_bytes))
       [0..<8] (0, 0, 0, NOT 0)"

definition civ_choose :: "cellid list \<Rightarrow> uint64 \<times> nat \<times> nat" where
  "civ_choose v =
     (let (v_or, v_and, v_min, v_max) = civ_scan v
      in if v_or > 0
         then
           let e_shift = min 56 (nat (int (FindLSBSetNonZero64 v_or) AND NOT 1));
               e_shift = (if v_and AND push_bit e_shift 1 \<noteq> 0 then e_shift + 1 else e_shift);
               (e_base, e_base_len, e_max_delta_msb, _) = civ_base (length v) v_min v_max e_shift;
               e_shift = (if odd e_shift \<and> e_max_delta_msb AND 7 \<noteq> 7 then e_shift - 1 else e_shift)
           in (e_base, e_base_len, e_shift)
         else (0, 0, 0))"

definition EncodeS2CellIdVector :: "cellid list \<Rightarrow> encoder \<Rightarrow> encoder option" where
  "EncodeS2CellIdVector v e =
     (let (e_base, e_base_len, e_shift) = civ_choose v
      in if e_base_len > 7 \<or> e_shift > 56 then None
         else
           let shift_code = e_shift div 2;
               shift_code = (if odd e_shift then min 31 (shift_code + 29) else shift_code);
               base_bytes = drop_bit (64 - 8 * max 1 e_base_len) e_base;
               deltas = map (\<lambda>x. drop_bit e_shift (x - e_base)) v
           in do { e \<leftarrow> Ensure (2 + e_base_len) e;
                   e \<leftarrow> put8 (push_bit 3 (of_nat shift_code) OR of_nat e_base_len) e;
                   e \<leftarrow> (if shift_code = 31 then put8 (of_nat (e_shift div 2)) e else Some e);
                   e \<leftarrow> EncodeUintWithLength base_bytes e_base_len e;
                   EncodeUintVector deltas e })"

definition CV_Init :: "decoder \<Rightarrow> ((cell_id_vector \<times> decoder) option) option" where
  "CV_Init d =
     (if avail d < 2 then Some None
      else do {
        (code_plus_len, d) \<leftarrow> get8 d;
        (shift_code, d) \<leftarrow>
          (let shift_code = unat (drop_bit 3 code_plus_len)
           in if shift_code = 31 then do { (b, d) \<leftarrow> get8 d; Some (29 + unat b, d) } else Some (shift_code, d));
        if shift_code > 56 then Some None
        else
          let base_len = unat (code_plus_len AND 7)
          in do {
            r \<leftarrow> DecodeUintWithLength base_len d;
            case r of None \<Rightarrow> Some None
            | Some (base, d) \<Rightarrow>
              let base = push_bit (64 - 8 * max 1 base_len) base;
                  (shift, base) = (if shift_code \<ge> 29
                                   then let shift = 2 * (shift_code - 29) + 1
                                        in (shift, base OR push_bit (shift - 1) 1)
                                   else (2 * shift_code, base))
              in do {
                r \<leftarrow> UV_Init TYPE(64) d;
                case r of None \<Rightarrow> Some None
                | Some (deltas, d) \<Rightarrow>
                  Some (Some (\<lparr>cv_deltas = deltas, cv_base = base, cv_shift = shift\<rparr>, d)) } } })"

definition cv_length :: "cell_id_vector \<Rightarrow> nat" where
  "cv_length cv = uv_length (cv_deltas cv)"

definition cv_nth :: "cell_id_vector \<Rightarrow> nat \<Rightarrow> cellid option" where
  "cv_nth cv i = do { delta \<leftarrow> uv_nth (cv_deltas cv) i; Some (push_bit (cv_shift cv) delta + cv_base cv) }"

definition cv_lower_bound :: "cell_id_vector \<Rightarrow> cellid \<Rightarrow> nat option" where
  "cv_lower_bound cv target =
     (if target \<le> cv_base cv then Some 0
      else if target \<ge> cell_End kMaxLevel then Some (cv_length cv)
      else uv_lower_bound (cv_deltas cv)
        (drop_bit (cv_shift cv) (target - cv_base cv + push_bit (cv_shift cv) 1 - 1)))"

definition CV_Decode :: "cell_id_vector \<Rightarrow> cellid list option" where
  "CV_Decode cv = collect (cv_nth cv) (cv_length cv)"

end
