(* ===== verification/Encoded_Cell_Ids_Correct.thy ===== *)
theory Encoded_Cell_Ids_Correct
  imports Encoded_Cell_Ids
begin

text \<open>
  Whatever base and shift the encoder of cell-id vectors chooses, \<open>base + (delta << shift)\<close> gives
  every id back, modulo nothing: the low bits that the shift drops are zero or the implicit bit.
\<close>


section \<open>The choice of base and shift\<close>

lemma civ_scan_fold:
  "fold (\<lambda>x (v_or, v_and, v_min, v_max). (v_or OR x, v_and AND x, min v_min x, max v_max x)) v (o0, a0, mn, mx) =
    (fold (\<lambda>x y. y OR x) v o0, fold (\<lambda>x y. y AND x) v a0, fold (\<lambda>x y. min y x) v mn, fold (\<lambda>x y. max y x) v mx)"
  by (induction v arbitrary: o0 a0 mn mx) auto

lemma bit_fold_or: "bit (fold (\<lambda>x y. y OR x) v (o0 :: uint64)) i \<longleftrightarrow> bit o0 i \<or> (\<exists>x\<in>set v. bit x i)"
  by (induction v arbitrary: o0) (auto simp: bit_simps)

lemma bit_fold_and: "bit (fold (\<lambda>x y. y AND x) v (a0 :: uint64)) i \<longleftrightarrow> bit a0 i \<and> (\<forall>x\<in>set v. bit x i)"
  by (induction v arbitrary: a0) (auto simp: bit_simps)

lemma fold_min_le: "fold (\<lambda>x y. min y x) v (m :: uint64) \<le> m \<and> (\<forall>x\<in>set v. fold (\<lambda>x y. min y x) v m \<le> x)"
proof (induction v arbitrary: m)
  case (Cons a v)
  then show ?case using Cons.IH [of "min m a"] by (auto simp: min.coboundedI2)
qed simp

lemma fold_min_in: "fold (\<lambda>x y. min y x) v (m :: uint64) \<in> insert m (set v)"
proof (induction v arbitrary: m)
  case (Cons a v)
  then show ?case using Cons.IH [of "min m a"] by (auto simp: min_def split: if_splits)
qed simp

lemma fold_min_top: "v \<noteq> [] \<Longrightarrow> fold (\<lambda>x y. min y x) v (NOT 0 :: uint64) \<in> set v"
proof -
  assume "v \<noteq> []"
  then obtain a u where v: "v = a # u" by (cases v) auto
  have "min (NOT 0) a = a" by (simp add: min.absorb2)
  then show ?thesis using fold_min_in [of u a] by (auto simp: v)
qed

lemma even_part: "nat (int l AND NOT 1) = 2 * (l div 2)"
proof -
  have "x AND NOT (mask k) = push_bit k (drop_bit k x)" for x :: int and k
    by (rule bit_eqI) (auto simp: bit_simps not_less)
  from this [of "int l" 1] show ?thesis by (simp add: push_bit_eq_mult drop_bit_eq_div nat_mult_distrib nat_div_distrib)
qed

text \<open>\<open>aligned s c x\<close>: the low \<open>s\<close> bits of \<open>x\<close> are \<open>c\<close>.\<close>

lemma aligned_or:
  assumes "v_or = fold (\<lambda>x y. y OR x) v (0 :: uint64)" "v_or \<noteq> 0" "e \<le> FindLSBSetNonZero64 v_or" "x \<in> set v"
  shows "take_bit e x = 0"
proof (rule bit_word_eqI)
  fix i :: nat
  assume "i < LENGTH(64)"
  show "bit (take_bit e x) i = bit 0 i"
  proof (cases "i < e")
    case True
    then have "\<not> bit v_or i" using FindLSBSetNonZero64_bit(3) [OF assms(2)] assms(3) by simp
    then show ?thesis using assms(1,4) by (auto simp: bit_simps bit_fold_or)
  qed (simp add: bit_simps)
qed

lemma aligned_and:
  assumes "fold (\<lambda>x y. y AND x) v (NOT 0) AND push_bit e 1 \<noteq> (0 :: uint64)" "x \<in> set v" "take_bit e x = 0"
  shows "take_bit (Suc e) x = 2 ^ e" "e < 64"
proof -
  have "\<exists>i. bit (fold (\<lambda>x y. y AND x) v (NOT 0) AND push_bit e 1 :: uint64) i"
    using assms(1) by (metis bit_eqI bit_0_eq bot_apply bot_bool_def)
  then have b: "e < 64" "bit x e" using assms(2) by (auto simp: bit_simps bit_fold_and bit_1_iff)
  show "e < 64" by (rule b)
  show "take_bit (Suc e) x = 2 ^ e"
  proof (rule bit_word_eqI)
    fix i assume "i < LENGTH(64)"
    have "\<not> bit x i" if "i < e" using arg_cong [OF assms(3), of "\<lambda>y. bit y i"] that by (simp add: bit_simps)
    then show "bit (take_bit (Suc e) x) i = bit (2 ^ e :: uint64) i"
      using b by (auto simp: bit_simps less_Suc_eq)
  qed
qed

lemma bit_t_base: "bit (civ_t_base m len) i \<longleftrightarrow> bit m i \<and> 64 \<le> i + 8 * len"
  by (auto simp: civ_t_base_def bit_simps dest: bit_imp_le_length)

text \<open>The base has, below the shift, the low bits of the ids or none.\<close>

lemma t_base_low:
  assumes "take_bit s m = 0 \<or> (\<exists>k. s = Suc k \<and> take_bit s m = 2 ^ k)"
  shows "take_bit s (civ_t_base m len) = 0 \<or> take_bit s (civ_t_base m len) = take_bit s m"
proof (cases "take_bit s m = 0")
  case True
  have "\<not> bit m i" if "i < s" for i using arg_cong [OF True, of "\<lambda>y. bit y i"] that bit_imp_le_length by (auto simp: bit_simps)
  then have "take_bit s (civ_t_base m len) = 0" by (intro bit_word_eqI) (auto simp: bit_simps bit_t_base)
  then show ?thesis ..
next
  case False
  then obtain k where k: "s = Suc k" "take_bit s m = 2 ^ k" using assms by auto
  have m: "bit m i \<longleftrightarrow> i = k" if "i < s" "i < 64" for i
    using arg_cong [OF k(2), of "\<lambda>y. bit y i"] that by (auto simp: bit_simps)
  show ?thesis
  proof (cases "64 \<le> k + 8 * len")
    case True
    then have "take_bit s (civ_t_base m len) = take_bit s m"
      using m by (intro bit_word_eqI) (auto simp: bit_simps bit_t_base)
    then show ?thesis ..
  next
    case False
    then have "take_bit s (civ_t_base m len) = 0"
      using m by (intro bit_word_eqI) (auto simp: bit_simps bit_t_base)
    then show ?thesis ..
  qed
qed

lemma shift_back:
  fixes z c :: uint64
  assumes "take_bit s c = c"
  shows "push_bit s (drop_bit s (push_bit s z + c)) = push_bit s z"
proof -
  have c: "bit c i \<Longrightarrow> i < s" for i using arg_cong [OF assms, of "\<lambda>y. bit y i"] by (auto simp: bit_simps)
  then have "push_bit s z AND c = 0" by (intro bit_word_eqI) (fastforce simp: bit_simps dest: c)
  then have "push_bit s z + c = push_bit s z OR c" by (rule disjunctive_add_eq_or)
  then show ?thesis using c by (intro bit_word_eqI) (auto simp: bit_simps)
qed

lemma delta_restores:
  fixes x b c :: uint64
  assumes "take_bit s x = c" "take_bit s b = 0 \<or> take_bit s b = c" "B = b OR c"
  shows "push_bit s (drop_bit s (x - b)) + B = x"
proof -
  have cc: "take_bit s c = c" unfolding assms(1) [symmetric] by simp
  let ?z = "drop_bit s x - drop_bit s b"
  have "x - b = (push_bit s (drop_bit s x) + c) - (push_bit s (drop_bit s b) + take_bit s b)"
    using bits_ident [of s x] bits_ident [of s b] assms(1) by simp
  then have d: "x - b = push_bit s ?z + (c - take_bit s b)" by (simp add: push_bit_eq_mult algebra_simps)
  have x: "push_bit s ?z + b + (c - take_bit s b) = x" using d by (simp add: algebra_simps)
  show ?thesis
  proof (cases "take_bit s b = c")
    case True
    have "bit c i \<Longrightarrow> bit b i" for i using arg_cong [OF True, of "\<lambda>y. bit y i"] by (auto simp: bit_simps)
    then have "B = b" unfolding assms(3) by (intro bit_word_eqI) (auto simp: bit_simps)
    then show ?thesis using True d x shift_back [of s 0 ?z] by simp
  next
    case False
    then have b0: "take_bit s b = 0" using assms(2) by simp
    have "\<not> bit b i" if "bit c i" for i
      using that arg_cong [OF b0, of "\<lambda>y. bit y i"] arg_cong [OF cc, of "\<lambda>y. bit y i"] bit_imp_le_length by (auto simp: bit_simps)
    then have "b AND c = 0" by (intro bit_word_eqI) (auto simp: bit_simps)
    then have "B = b + c" unfolding assms(3) by (simp add: disjunctive_add_eq_or)
    then show ?thesis using b0 d x shift_back [OF cc, of ?z] by (simp add: add.assoc)
  qed
qed


lemma t_base_le: "civ_t_base m len \<le> m"
  unfolding civ_t_base_def by (rule word_and_le2)

lemma or_le_of_low:
  fixes x b :: uint64
  assumes "b \<le> x" "s < 64" "take_bit s x = c" "take_bit s b = 0 \<or> take_bit s b = c"
  shows "b OR c \<le> x"
proof (cases "take_bit s b = c")
  case True
  have "bit c i \<Longrightarrow> bit b i" for i using arg_cong [OF True, of "\<lambda>y. bit y i"] by (auto simp: bit_simps)
  then have "b OR c = b" by (intro bit_word_eqI) (auto simp: bit_simps)
  then show ?thesis using assms(1) by simp
next
  case False
  then have b0: "take_bit s b = 0" using assms(4) by simp
  have cc: "take_bit s c = c" unfolding assms(3) [symmetric] by simp
  have "\<not> bit b i" if "bit c i" for i
    using that arg_cong [OF b0, of "\<lambda>y. bit y i"] arg_cong [OF cc, of "\<lambda>y. bit y i"] bit_imp_le_length by (auto simp: bit_simps)
  then have "b AND c = 0" by (intro bit_word_eqI) (auto simp: bit_simps)
  then have or: "b OR c = b + c" by (simp add: disjunctive_add_eq_or)
  have m: "unat b mod 2 ^ s = 0" "unat x mod 2 ^ s = unat c"
    using arg_cong [OF b0, of unat] arg_cong [OF assms(3), of unat]
    by (simp_all only: unsigned_take_bit_eq) (simp_all add: take_bit_eq_mod)
  have "unat b div 2 ^ s \<le> unat x div 2 ^ s" using assms(1) by (simp add: word_le_nat_alt div_le_mono)
  then have "unat b div 2 ^ s * 2 ^ s \<le> unat x div 2 ^ s * 2 ^ s" by simp
  then have le: "unat b + unat c \<le> unat x"
    using m div_mult_mod_eq [of "unat b" "2 ^ s"] div_mult_mod_eq [of "unat x" "2 ^ s"] by linarith
  then have "unat (b + c) = unat b + unat c"
    using unsigned_less [of x, where 'a = nat] by (intro unat_add_lem [THEN iffD1]) simp
  then show ?thesis using le or by (simp add: word_le_nat_alt)
qed

section \<open>The chosen parameters\<close>

text \<open>What the loop over base lengths leaves: a base made of leading bytes of the minimum, and a top
  bit position that is at most that of the largest delta.\<close>

definition base_inv :: "uint64 \<Rightarrow> nat \<Rightarrow> uint64 \<times> nat \<times> int \<times> uint64 \<Rightarrow> bool" where
  "base_inv v_min e_shift st \<longleftrightarrow>
     (case st of (b, len, msb, _) \<Rightarrow> len \<le> 7 \<and> b = civ_t_base v_min len \<and> 0 \<le> msb \<and> msb < int (64 - e_shift))"

lemma bit_width_le: "unat (w :: uint64) < 2 ^ k \<Longrightarrow> bit_width w \<le> k"
proof (cases "w = 0")
  case True
  have all: "takeWhile (\<lambda>i. True) xs = xs" for xs :: "nat list" by (induction xs) auto
  have "bit_width (0 :: uint64) = 0" by (simp add: bit_width_def all)
  then show ?thesis using True by simp
next
  case False
  then have "0 < unat w" by (simp add: unat_gt_0)
  then obtain j where j: "2 ^ j \<le> unat w" "unat w < 2 ^ Suc j" using ex_power_ivl1 [of 2 "unat w"] by auto
  assume "unat w < 2 ^ k"
  then have "(2::nat) ^ j < 2 ^ k" by (rule le_less_trans [OF j(1)])
  then have "j < k" by simp
  then show ?thesis using bit_width_eq [OF j] by simp
qed

lemma base_inv_fold:
  "base_inv v_min e st \<Longrightarrow> \<forall>len\<in>set lens. len \<le> 7 \<Longrightarrow> e < 64 \<Longrightarrow>
    base_inv v_min e (fold (\<lambda>len (e_base, e_base_len, e_max_delta_msb, e_bytes).
         let t_base = civ_t_base v_min len;
             t_max_delta_msb = max 0 (int (bit_width (drop_bit e (v_max - t_base))) - 1);
             t_bytes = of_nat len + of_nat n * (of_int (drop_bit 3 t_max_delta_msb) + 1)
         in if t_bytes < e_bytes then (t_base, len, t_max_delta_msb, t_bytes)
            else (e_base, e_base_len, e_max_delta_msb, e_bytes)) lens st)"
proof (induction lens arbitrary: st)
  case (Cons len lens)
  obtain b l msb by' where st: "st = (b, l, msb, by')" by (cases st)
  have "unat (drop_bit e (v_max - civ_t_base v_min len)) < 2 ^ (64 - e)"
  proof -
    have "unat (v_max - civ_t_base v_min len) < 2 ^ (64 - e) * 2 ^ e"
      using unsigned_less [of "v_max - civ_t_base v_min len", where 'a = nat] Cons.prems(3) by (simp flip: power_add)
    then show ?thesis unfolding unat_drop_bit_eq by (simp add: drop_bit_eq_div less_mult_imp_div_less)
  qed
  then have "bit_width (drop_bit e (v_max - civ_t_base v_min len)) \<le> 64 - e" by (rule bit_width_le)
  then show ?case
    using Cons.prems unfolding st fold.simps o_def
    by (intro Cons.IH) (auto simp: base_inv_def Let_def)
qed simp

lemma civ_base_inv: "e < 64 \<Longrightarrow> base_inv v_min e (civ_base n v_min v_max e)"
proof -
  assume e: "e < 64"
  have "civ_t_base v_min 0 = 0" by (intro bit_word_eqI) (simp add: bit_t_base)
  then show ?thesis using e unfolding civ_base_def by (intro base_inv_fold) (auto simp: base_inv_def)
qed

lemma civ_choose_good:
  assumes "civ_choose v = (b, bl, s)"
  shows "bl \<le> 7" "s \<le> 56" "\<exists>m. b = civ_t_base m bl"
    and "\<forall>x\<in>set v. push_bit s (drop_bit s (x - b)) + (b OR (if odd s then push_bit (s - 1) 1 else 0)) = x"
    and "\<forall>x\<in>set v. (b OR (if odd s then push_bit (s - 1) 1 else 0)) \<le> x"
proof -
  obtain v_or v_and v_min v_max where sc: "civ_scan v = (v_or, v_and, v_min, v_max)" by (cases "civ_scan v")
  then have o: "v_or = fold (\<lambda>x y. y OR x) v 0" "v_and = fold (\<lambda>x y. y AND x) v (NOT 0)"
    "v_min = fold (\<lambda>x y. min y x) v (NOT 0)"
    by (simp_all add: civ_scan_def civ_scan_fold)
  have "bl \<le> 7 \<and> s \<le> 56 \<and> (\<exists>m. b = civ_t_base m bl) \<and>
    (\<forall>x\<in>set v. push_bit s (drop_bit s (x - b)) + (b OR (if odd s then push_bit (s - 1) 1 else 0)) = x) \<and>
    (\<forall>x\<in>set v. (b OR (if odd s then push_bit (s - 1) 1 else 0)) \<le> x)"
  proof (cases "v_or = 0")
    case True
    have "x = 0" if "x \<in> set v" for x
    proof (rule bit_word_eqI)
      fix i
      have "\<not> bit v_or i" using True by simp
      then show "bit x i = bit 0 i" using that unfolding o bit_fold_or by auto
    qed
    moreover have "(b, bl, s) = (0, 0, 0)" using assms sc True by (simp add: civ_choose_def)
    ultimately show ?thesis by (auto simp: civ_t_base_def)
  next
    case False
    then have ne: "v \<noteq> []" using o(1) by auto
    let ?l = "FindLSBSetNonZero64 v_or"
    define e where "e = min 56 (nat (int ?l AND NOT 1))"
    have e: "even e" "e \<le> 56" "e \<le> ?l" unfolding e_def even_part by (auto simp: min_def)
    have low: "\<forall>x\<in>set v. take_bit e x = 0" using aligned_or [OF o(1) False e(3)] by blast
    define e' where "e' = (if v_and AND push_bit e 1 \<noteq> 0 then e + 1 else e)"
    have low': "\<forall>x\<in>set v. take_bit (Suc e) x = 2 ^ e" if "e' \<noteq> e"
      using aligned_and [of v e] low that unfolding e'_def o(2) by (metis (no_types, lifting))
    obtain b' bl' msb by' where cb: "civ_base (length v) v_min v_max e' = (b', bl', msb, by')"
      by (cases "civ_base (length v) v_min v_max e'")
    have "e' < 64" using e(2) by (simp add: e'_def)
    then have inv: "bl' \<le> 7" "b' = civ_t_base v_min bl'" "0 \<le> msb" "msb < int (64 - e')"
      using civ_base_inv [of e' v_min "length v" v_max] unfolding cb base_inv_def by simp_all
    have "civ_choose v = (b', bl', if odd e' \<and> msb AND 7 \<noteq> 7 then e' - 1 else e')"
      unfolding civ_choose_def sc Let_def prod.case e_def [symmetric]
      unfolding e'_def [symmetric] cb prod.case using False by (simp add: word_gt_0)
    then have r: "b = b'" "bl = bl'" "s = (if odd e' \<and> msb AND 7 \<noteq> 7 then e' - 1 else e')"
      using assms by simp_all
    have small: "s = e \<or> s = Suc e \<and> e' \<noteq> e \<and> msb AND 7 = 7"
      unfolding r(3) e'_def using e(1) by auto
    have s56: "s \<le> 56"
    proof (rule ccontr)
      assume "\<not> s \<le> 56"
      then have "e = 56" "e' = 57" "msb AND 7 = 7" using small e(2) by (auto simp: e'_def split: if_splits)
      moreover have "msb AND 7 = msb mod 8" using take_bit_eq_mask [of 3 msb] by (simp add: mask_eq_exp_minus_1 take_bit_eq_mod)
      ultimately show False using inv(3,4) by simp
    qed
    have vm: "v_min \<in> set v" unfolding o(3) by (rule fold_min_top [OF ne])
    define c where "c = (if odd s then push_bit (s - 1) 1 else (0 :: uint64))"
    have al: "\<forall>x\<in>set v. take_bit s x = c"
    proof (cases "s = e")
      case True
      then show ?thesis using low e(1) by (simp add: c_def)
    next
      case False
      then have "s = Suc e" "e' \<noteq> e" using small by auto
      then show ?thesis using low' e(1) by (simp add: c_def push_bit_eq_mult)
    qed
    have "take_bit s v_min = 0 \<or> (\<exists>k. s = Suc k \<and> take_bit s v_min = 2 ^ k)"
      using al vm by (cases s) (auto simp: c_def push_bit_eq_mult)
    then have "take_bit s b = 0 \<or> take_bit s b = c"
      using t_base_low [of s v_min bl'] al vm unfolding r(1) inv(2) by auto
    moreover from this have "\<forall>x\<in>set v. push_bit s (drop_bit s (x - b)) + (b OR c) = x"
      using al delta_restores [of s _ c b] by blast
    moreover have "b \<le> x" if "x \<in> set v" for x
    proof -
      have "v_min \<le> x" using that fold_min_le [of v "NOT 0"] o(3) by simp
      then show ?thesis using t_base_le [of v_min bl'] unfolding r(1) inv(2) by (rule order_trans [rotated])
    qed
    ultimately have "\<forall>x\<in>set v. push_bit s (drop_bit s (x - b)) + (b OR c) = x \<and> b OR c \<le> x"
      using al or_le_of_low [of b _ s c] s56 by auto
    then show ?thesis using inv(1,2) s56 unfolding r(1,2) c_def by blast
  qed
  then show "bl \<le> 7" "s \<le> 56" "\<exists>m. b = civ_t_base m bl"
    "\<forall>x\<in>set v. push_bit s (drop_bit s (x - b)) + (b OR (if odd s then push_bit (s - 1) 1 else 0)) = x"
    "\<forall>x\<in>set v. (b OR (if odd s then push_bit (s - 1) 1 else 0)) \<le> x"
    by blast+
qed


section \<open>The codec\<close>

definition cv_code :: "nat \<Rightarrow> nat" where
  "cv_code s = (if odd s then min 31 (s div 2 + 29) else s div 2)"

definition cv_deltas_of :: "cellid list \<Rightarrow> uint64 list" where
  "cv_deltas_of v = (let (b, bl, s) = civ_choose v in map (\<lambda>x. drop_bit s (x - b)) v)"

definition cv_bytes :: "cellid list \<Rightarrow> byte list" where
  "cv_bytes v =
     (let (b, bl, s) = civ_choose v
      in [push_bit 3 (of_nat (cv_code s)) OR of_nat bl] @
         (if cv_code s = 31 then [of_nat (s div 2)] else []) @
         mem_bytes bl (drop_bit (64 - 8 * max 1 bl) b) @ uv_bytes (cv_deltas_of v))"

lemma base_bytes:
  assumes "bl \<le> 7" "b = civ_t_base m bl"
  shows "take_bit (8 * bl) (drop_bit (64 - 8 * max 1 bl) b) = drop_bit (64 - 8 * max 1 bl) b"
    and "push_bit (64 - 8 * max 1 bl) (drop_bit (64 - 8 * max 1 bl) b) = b"
proof -
  have b: "bit b i \<Longrightarrow> 64 \<le> i + 8 * bl" "bit b i \<Longrightarrow> i < 64" for i
    using bit_imp_le_length [of b i] unfolding assms(2) bit_t_base by auto
  show "take_bit (8 * bl) (drop_bit (64 - 8 * max 1 bl) b) = drop_bit (64 - 8 * max 1 bl) b"
    using b(2) assms(1) b(1) by (intro bit_word_eqI) (fastforce simp: bit_simps max_def split: if_splits)
  have "64 - 8 * max 1 bl \<le> i" if "bit b i" for i using b [OF that] assms(1) by (auto simp: max_def)
  then show "push_bit (64 - 8 * max 1 bl) (drop_bit (64 - 8 * max 1 bl) b) = b"
    by (intro bit_word_eqI) (auto simp: bit_simps)
qed

lemma EncodeS2CellIdVector_emits: "emits True 0 (EncodeS2CellIdVector v) (cv_bytes v) 0"
proof -
  obtain b bl s where c: "civ_choose v = (b, bl, s)" by (cases "civ_choose v")
  note g = civ_choose_good [OF c]
  obtain m where m: "b = civ_t_base m bl" using g(3) by blast
  let ?hdr = "push_bit 3 (of_nat (cv_code s)) OR of_nat bl :: byte"
  let ?bb = "drop_bit (64 - 8 * max 1 bl) b"
  have d: "emits True 0 (EncodeUintVector (cv_deltas_of v)) (uv_bytes (cv_deltas_of v)) 0"
    by (intro EncodeUintVector_emits) simp
  have x: "emits True (bl + 0) (EncodeUintWithLength ?bb bl) (mem_bytes bl ?bb) 0"
    by (intro emits_UintWithLength base_bytes(1) [OF g(1) m])
  have k: "emits True (bl + 1) (\<lambda>e. if cv_code s = 31 then put8 (of_nat (s div 2)) e else Some e)
      (if cv_code s = 31 then [of_nat (s div 2)] else []) bl"
  proof (cases "cv_code s = 31")
    case True
    then show ?thesis using emits_put [of True "[of_nat (s div 2)]" bl] by (simp add: put8_def)
  next
    case False
    then show ?thesis using emits_weaken [OF emits_Some [of True bl], of "bl + 1" bl] by simp
  qed
  have h: "emits True (2 + bl) (put8 ?hdr) [?hdr] (bl + 1)"
    using emits_put [of True "[?hdr]" "bl + 1"] by (simp add: put8_def)
  have "EncodeS2CellIdVector v = (\<lambda>e. Ensure (2 + bl) e \<bind> (\<lambda>e. put8 ?hdr e \<bind>
      (\<lambda>e. (if cv_code s = 31 then put8 (of_nat (s div 2)) e else Some e) \<bind>
      (\<lambda>e. EncodeUintWithLength ?bb bl e \<bind> EncodeUintVector (cv_deltas_of v)))))"
    using g(1,2) by (intro ext) (simp add: EncodeS2CellIdVector_def c cv_code_def cv_deltas_of_def Let_def)
  moreover have "emits True 0 (\<lambda>e. Ensure (2 + bl) e \<bind> (\<lambda>e. put8 ?hdr e \<bind>
      (\<lambda>e. (if cv_code s = 31 then put8 (of_nat (s div 2)) e else Some e) \<bind>
      (\<lambda>e. EncodeUintWithLength ?bb bl e \<bind> EncodeUintVector (cv_deltas_of v))))) (cv_bytes v) 0"
    using emits_Ensure_bind [OF emits_bind [OF h emits_bind [OF k emits_bind [OF _ d]]]] x
    by (simp add: cv_bytes_def c)
  ultimately show ?thesis by simp
qed

lemma header_fields:
  assumes "code \<le> 31" "bl \<le> 7"
  shows "unat (drop_bit 3 (push_bit 3 (of_nat code) OR of_nat bl :: byte)) = code"
    and "unat ((push_bit 3 (of_nat code) OR of_nat bl :: byte) AND 7) = bl"
proof -
  have c: "code \<in> set [0..<32]" "bl \<in> set [0..<8]" using assms by auto
  have "\<forall>code\<in>set [0..<32]. \<forall>bl\<in>set [0..<8]. unat (drop_bit 3 (push_bit 3 (of_nat code) OR of_nat bl :: byte)) = code
      \<and> unat ((push_bit 3 (of_nat code) OR of_nat bl :: byte) AND 7) = bl" by code_simp
  then show "unat (drop_bit 3 (push_bit 3 (of_nat code) OR of_nat bl :: byte)) = code"
    "unat ((push_bit 3 (of_nat code) OR of_nat bl :: byte) AND 7) = bl" using c by blast+
qed

lemma good_past: "good d \<Longrightarrow> ptr d = bs @ r \<Longrightarrow> good (past (length bs) d)"
proof -
  assume "good d" "ptr d = bs @ r"
  moreover then have "length (dec_buf d) - dec_pos d = length bs + length r"
    by (metis length_append length_drop ptr_def)
  ultimately show ?thesis unfolding good_def past_def by simp
qed

lemma DecodeUint_reads:
  fixes x :: uint64
  assumes "take_bit (8 * len) x = x" "len \<le> 8" "good d" "ptr d = mem_bytes len x @ r"
  shows "DecodeUintWithLength len d = Some (Some (x, past len d))"
proof -
  have a: "len \<le> avail d" using assms(4) by (simp add: avail_ptr)
  then have "skip len d = Some (past len d)" using assms(3) by (intro skip_eq) (simp_all add: good_def)
  moreover have "GetUintWithLength (ptr d) len = Some (mem_word (take len (ptr d)) :: uint64)"
    using assms(2) a by (intro GetUintWithLength_eq) (simp_all add: size_of_def avail_ptr)
  ultimately show ?thesis using a assms(1,4) by (simp add: DecodeUintWithLength_def mem_word_bytes)
qed

text \<open>\<open>cv_view cv v\<close>: the decoded vector \<open>cv\<close> shows the ids \<open>v\<close>.\<close>

definition cv_view :: "cell_id_vector \<Rightarrow> cellid list \<Rightarrow> bool" where
  "cv_view cv v \<longleftrightarrow>
     (\<exists>ds. uv_view (cv_deltas cv) ds \<and> v = map (\<lambda>x. push_bit (cv_shift cv) x + cv_base cv) ds \<and>
       (\<forall>d\<in>set ds. unat (push_bit (cv_shift cv) d + cv_base cv) = unat d * 2 ^ cv_shift cv + unat (cv_base cv)) \<and>
       cv_shift cv \<le> 56)"

lemma CV_Init_reads:
  assumes "length v < 2 ^ 32" "ptr d = cv_bytes v @ r"
  obtains cv where "CV_Init d = Some (Some (cv, past (length (cv_bytes v)) d))" "cv_view cv v"
proof -
  obtain b bl s where c: "civ_choose v = (b, bl, s)" by (cases "civ_choose v")
  note g = civ_choose_good [OF c]
  obtain m where m: "b = civ_t_base m bl" using g(3) by blast
  let ?hdr = "push_bit 3 (of_nat (cv_code s)) OR of_nat bl :: byte"
  let ?bb = "drop_bit (64 - 8 * max 1 bl) b"
  let ?k = "if cv_code s = 31 then [of_nat (s div 2)] else [] :: byte list"
  have bytes: "cv_bytes v = [?hdr] @ ?k @ mem_bytes bl ?bb @ uv_bytes (cv_deltas_of v)"
    by (simp add: cv_bytes_def c)
  have p: "ptr d = [?hdr] @ ?k @ mem_bytes bl ?bb @ uv_bytes (cv_deltas_of v) @ r" using assms(2) bytes by simp
  have code: "cv_code s \<le> 31" using g(2) by (auto simp: cv_code_def)
  note hdr = header_fields [OF code g(1)]
  have gd: "good d" using pos_ok [of d] p by (simp add: good_def)
  define d1 where "d1 = past 1 d"
  have p1: "ptr d1 = ?k @ mem_bytes bl ?bb @ uv_bytes (cv_deltas_of v) @ r" using p by (simp add: d1_def)
  have g1: "good d1" using good_past [OF gd p] by (simp add: d1_def)
  have "uv_bytes (cv_deltas_of v) \<noteq> []" by (simp add: uv_bytes_def Encode64_eq)
  then have av: "\<not> avail d < 2" using p by (simp add: avail_ptr not_less)
  have get: "get8 d = Some (?hdr, d1)" using readsD [OF reads_get(1) _ p] by (simp add: d1_def)
  define d2 where "d2 = past (length ?k) d1"
  have p2: "ptr d2 = mem_bytes bl ?bb @ uv_bytes (cv_deltas_of v) @ r" using p1 by (simp add: d2_def)
  have g2: "good d2" unfolding d2_def by (rule good_past [OF g1 p1])
  define sc where "sc = (if cv_code s = 31 then 29 + s div 2 else cv_code s)"
  have sc: "(if cv_code s = 31 then do { (b, d) \<leftarrow> get8 d1; Some (29 + unat b, d) } else Some (cv_code s, d1)) = Some (sc, d2)"
  proof (cases "cv_code s = 31")
    case True
    have "unat (of_nat (s div 2) :: byte) = s div 2" using g(2) by (simp add: unat_of_nat)
    moreover have "ptr d1 = [of_nat (s div 2)] @ (mem_bytes bl ?bb @ uv_bytes (cv_deltas_of v) @ r)"
      using p1 True by simp
    note readsD [OF reads_get(1) _ this]
    ultimately show ?thesis using True by (simp add: sc_def d2_def)
  qed (simp add: sc_def d2_def)
  have s: "sc \<le> 56" "29 \<le> sc \<longleftrightarrow> odd s" "odd s \<Longrightarrow> 2 * (sc - 29) + 1 = s" "even s \<Longrightarrow> 2 * sc = s"
    using g(2) by (auto simp: sc_def cv_code_def min_def elim!: oddE split: if_splits)
  have dec: "DecodeUintWithLength bl d2 = Some (Some (?bb, past bl d2))"
    using base_bytes(1) [OF g(1) m] g(1) g2 p2 by (intro DecodeUint_reads) auto
  have "ptr (past bl d2) = uv_bytes (cv_deltas_of v) @ r" using p2 by simp
  then obtain vec where vec: "UV_Init TYPE(64) (past bl d2) = Some (Some (vec, past (length (uv_bytes (cv_deltas_of v))) (past bl d2)))"
    "uv_view vec (cv_deltas_of v)"
    using UV_Init_reads [of "cv_deltas_of v" "past bl d2" r] assms(1) by (auto simp: cv_deltas_of_def c)
  define cv where "cv = \<lparr>cv_deltas = vec, cv_base = b OR (if odd s then push_bit (s - 1) 1 else 0), cv_shift = s\<rparr>"
  have "CV_Init d = Some (Some (cv, past (length (uv_bytes (cv_deltas_of v))) (past bl d2)))"
    unfolding CV_Init_def if_not_P [OF av] get bind.bind_lunit prod.case hdr Let_def sc
    using s by (simp add: dec base_bytes(2) [OF g(1) m, unfolded One_nat_def] vec(1) cv_def)
  moreover have "past (length (uv_bytes (cv_deltas_of v))) (past bl d2) = past (length (cv_bytes v)) d"
    by (simp add: d2_def d1_def bytes add.assoc)
  moreover have "cv_view cv v"
  proof -
    have "map (\<lambda>x. push_bit s x + cv_base cv) (cv_deltas_of v) = v"
      using g(4) by (auto simp: cv_deltas_of_def c cv_def intro!: map_idI)
    moreover have "unat (push_bit s d + cv_base cv) = unat d * 2 ^ s + unat (cv_base cv)"
      if d: "d \<in> set (cv_deltas_of v)" for d
    proof -
      obtain x where x: "x \<in> set v" "d = drop_bit s (x - b)" using d by (auto simp: cv_deltas_of_def c)
      have e: "push_bit s d + cv_base cv = x" "cv_base cv \<le> x" using g(4,5) x by (auto simp: cv_def)
      then have "push_bit s d = x - cv_base cv" by (simp add: eq_diff_eq)
      then have "unat x = unat (push_bit s d) + unat (cv_base cv)"
        using e(2) by (simp add: unat_sub word_le_nat_alt)
      moreover have "unat (push_bit s d) = unat d * 2 ^ s"
      proof -
        have "unat d * 2 ^ s \<le> unat (x - b)" unfolding x(2) unat_drop_bit_eq by (simp add: drop_bit_eq_div)
        then have "unat d * 2 ^ s < 2 ^ 64" using unsigned_less [of "x - b", where 'a = nat] by simp
        then show ?thesis unfolding unsigned_push_bit_eq by (simp add: push_bit_eq_mult take_bit_nat_eq_self)
      qed
      ultimately show ?thesis using e(1) by simp
    qed
    ultimately show ?thesis
      using vec(2) g(2) by (auto simp: cv_view_def cv_def intro!: exI [of _ "cv_deltas_of v"])
  qed
  ultimately show ?thesis by (intro that) simp_all
qed

text \<open>Sizes for which indices do not overflow.\<close>

definition cv_fits :: "cellid list \<Rightarrow> bool" where
  "cv_fits v \<longleftrightarrow> length v * 8 < 2 ^ 31"

lemma cv_view_nth:
  assumes "cv_view cv v" "cv_fits v" "i < length v"
  shows "cv_nth cv i = Some (v ! i)"
proof -
  obtain ds where ds: "uv_view (cv_deltas cv) ds" "v = map (\<lambda>x. push_bit (cv_shift cv) x + cv_base cv) ds"
    using assms(1) by (auto simp: cv_view_def)
  have "unat (uv_len (cv_deltas cv)) \<le> 8" using ds(1) by (simp add: uv_view_def size_of_def)
  then have "i * unat (uv_len (cv_deltas cv)) \<le> length v * 8" using assms(3) by (intro mult_le_mono) auto
  then have "i * unat (uv_len (cv_deltas cv)) < 2 ^ 31" using assms(2) unfolding cv_fits_def by (rule le_less_trans)
  then have "uv_nth (cv_deltas cv) i = Some (ds ! i)"
    using ds assms(3) by (intro uv_view_nth) simp_all
  then show ?thesis using ds(2) assms(3) by (simp add: cv_nth_def)
qed

lemma cv_view_lower_bound:
  assumes "cv_view cv v" "sorted v" "\<forall>x\<in>set v. x < cell_End 30"
  shows "cv_lower_bound cv target = Some (length (takeWhile (\<lambda>x. x < target) v))"
proof -
  obtain ds where ds: "uv_view (cv_deltas cv) ds" "v = map (\<lambda>x. push_bit (cv_shift cv) x + cv_base cv) ds"
    and un: "\<forall>d\<in>set ds. unat (push_bit (cv_shift cv) d + cv_base cv) = unat d * 2 ^ cv_shift cv + unat (cv_base cv)"
    and s: "cv_shift cv \<le> 56"
    using assms(1) by (auto simp: cv_view_def)
  let ?s = "cv_shift cv" and ?b = "cv_base cv"
  let ?f = "\<lambda>d. push_bit ?s d + ?b"
  have len: "cv_length cv = length v" using ds by (simp add: cv_length_def uv_view_def)
  have tw: "takeWhile (\<lambda>x. x < target) v = map ?f (takeWhile (\<lambda>d. ?f d < target) ds)"
    unfolding ds(2) by (simp add: takeWhile_map o_def)
  show ?thesis
  proof (cases "target \<le> ?b")
    case True
    then have "\<not> ?f d < target" if "d \<in> set ds" for d
      using un that by (simp add: word_less_nat_alt word_le_nat_alt)
    then have "takeWhile (\<lambda>d. ?f d < target) ds = []" by (cases ds) auto
    then show ?thesis using True by (simp add: cv_lower_bound_def tw)
  next
    case b: False
    show ?thesis
    proof (cases "target \<ge> cell_End kMaxLevel")
      case True
      then have "takeWhile (\<lambda>x. x < target) v = v" using assms(3) by (auto simp: takeWhile_eq_all_conv)
      then show ?thesis unfolding cv_lower_bound_def using b True len by presburger
    next
      case e: False
      let ?q = "drop_bit ?s (target - ?b + push_bit ?s 1 - 1)"
      have "unat (cell_End 30) = (2 * (6 * 4 ^ 30) + 1) * 4 ^ (30 - 30)"
        unfolding End_at [OF order_refl] by (rule unat_cell_at) simp_all
      then have t: "unat target < 12 * 4 ^ 30 + 1" "unat ?b < unat target"
        using b e by (simp_all add: word_le_nat_alt)
      have p: "unat (push_bit ?s 1 :: uint64) = 2 ^ ?s" "(2::nat) ^ ?s \<le> 2 ^ 56" "0 < (2::nat) ^ ?s"
        using s power_increasing [OF s, of "2::nat"] by (simp_all add: push_bit_eq_mult)
      have d: "unat (target - ?b) = unat target - unat ?b" using t(2) by (simp add: unat_sub word_le_nat_alt)
      have "unat (target - ?b + push_bit ?s 1) = unat target - unat ?b + 2 ^ ?s"
        using d p t by (subst unat_add_lem [THEN iffD1]) simp_all
      then have "unat (target - ?b + push_bit ?s 1 - 1) = unat target - unat ?b + 2 ^ ?s - 1"
        using p(3) by (subst unat_minus_one) (auto simp: unat_eq_0)
      then have q: "unat ?q = (unat target - unat ?b + 2 ^ ?s - 1) div 2 ^ ?s"
        unfolding unat_drop_bit_eq by (simp add: drop_bit_eq_div)
      have iff: "?f d < target \<longleftrightarrow> d < ?q" if "d \<in> set ds" for d
      proof -
        have "?f d < target \<longleftrightarrow> unat d * 2 ^ ?s + unat ?b < unat target" using un that by (simp add: word_less_nat_alt)
        also have "\<dots> \<longleftrightarrow> (unat d + 1) * 2 ^ ?s \<le> unat target - unat ?b + 2 ^ ?s - 1"
          using t(2) by (simp add: algebra_simps) linarith
        also have "\<dots> \<longleftrightarrow> unat d + 1 \<le> unat ?q" unfolding q using p(3) by (simp only: less_eq_div_iff_mult_less_eq)
        finally show ?thesis by (simp add: word_less_nat_alt Suc_le_eq)
      qed
      have mono: "d \<le> d'" if "d \<in> set ds" "d' \<in> set ds" "?f d \<le> ?f d'" for d d'
        using un that p(3) by (simp add: word_le_nat_alt)
      have "sorted ds"
        using assms(2) unfolding ds(2) sorted_map by (rule sorted_wrt_mono_rel [rotated]) (rule mono)
      then have "uv_lower_bound (cv_deltas cv) ?q = Some (length (takeWhile (\<lambda>d. d < ?q) ds))"
        using ds(1) by (intro uv_lower_bound_eq) simp_all
      moreover have "takeWhile (\<lambda>d. ?f d < target) ds = takeWhile (\<lambda>d. d < ?q) ds"
        using iff by (intro takeWhile_cong) simp_all
      ultimately show ?thesis using b e by (simp add: cv_lower_bound_def tw)
    qed
  qed
qed

lemma cv_view_length: "cv_view cv v \<Longrightarrow> cv_length cv = length v"
  by (auto simp: cv_view_def cv_length_def uv_view_def)

lemma cv_view_Decode: "cv_view cv v \<Longrightarrow> cv_fits v \<Longrightarrow> CV_Decode cv = Some v"
  using collect_eq [of "length v" "cv_nth cv" "(!) v"] cv_view_nth [of cv v]
  by (simp add: CV_Decode_def cv_view_length map_nth)

definition cv_read :: "decoder \<Rightarrow> ((cellid list \<times> decoder) option) option" where
  "cv_read d =
     do { r \<leftarrow> CV_Init d;
          case r of None \<Rightarrow> Some None
          | Some (cv, d) \<Rightarrow> do { v \<leftarrow> CV_Decode cv; Some (Some (v, d)) } }"

interpretation cell_ids: growing_codec cv_fits cv_bytes cv_read EncodeS2CellIdVector
proof unfold_locales
  show "cv_read d = Some (Some (v, past (length (cv_bytes v)) d))"
    if v: "cv_fits v" and p: "ptr d = cv_bytes v @ r" for v d r
  proof -
    have "length v < 2 ^ 32" using v by (simp add: cv_fits_def)
    then obtain cv where "CV_Init d = Some (Some (cv, past (length (cv_bytes v)) d))" "cv_view cv v"
      by (rule CV_Init_reads [OF _ p])
    then show ?thesis using cv_view_Decode [OF _ v] by (simp add: cv_read_def)
  qed
qed (rule EncodeS2CellIdVector_emits)


section \<open>Arbitrary input\<close>

lemma DecodeUint_checked: "len \<le> 8 \<Longrightarrow> checked (DecodeUintWithLength len :: _ \<Rightarrow> ((uint64 \<times> _) option) option)"
  unfolding checked_def
proof (intro allI impI)
  fix d assume l: "len \<le> 8" and g: "good d"
  show "DecodeUintWithLength len d = Some None \<or>
    (\<exists>v d'. DecodeUintWithLength len d = Some (Some (v :: uint64, d')) \<and> stays d d')"
  proof (cases "avail d < len")
    case False
    then have "skip len d = Some (past len d)" using g by (intro skip_eq) (simp_all add: good_def)
    moreover have "GetUintWithLength (ptr d) len = Some (mem_word (take len (ptr d)) :: uint64)"
      using l False by (intro GetUintWithLength_eq) (simp_all add: size_of_def avail_ptr)
    ultimately show ?thesis using False g by (simp add: DecodeUintWithLength_def stays_past)
  qed (simp add: DecodeUintWithLength_def)
qed

lemma CV_Init_checked: "checked CV_Init"
  unfolding checked_def
proof (intro allI impI)
  fix d assume g: "good d"
  show "CV_Init d = Some None \<or> (\<exists>v d'. CV_Init d = Some (Some (v, d')) \<and> stays d d')"
  proof (cases "avail d < 2")
    case False
    define b where "b = hd (ptr d)"
    define d1 where "d1 = past 1 d"
    have 1: "get8 d = Some (b, d1)" "stays d d1"
      using False g by (auto simp: get8_good stays_past b_def d1_def)
    have g1: "good d1" "1 \<le> avail d1" using stays_good [OF 1(2)] False by (auto simp: d1_def avail_ptr)
    obtain sc d2 where 2: "(let shift_code = unat (drop_bit 3 b)
         in if shift_code = 31 then do { (b, d) \<leftarrow> get8 d1; Some (29 + unat b, d) } else Some (shift_code, d1)) = Some (sc, d2)"
      "stays d1 d2"
      using g1 stays_refl [OF g1(1)] stays_past [OF g1]
      by (cases "unat (drop_bit 3 b) = 31") (simp_all add: get8_good Let_def)
    have s2: "stays d d2" using stays_trans [OF 1(2)] 2(2) by simp
    show ?thesis
    proof (cases "sc > 56")
      case True
      then show ?thesis using False 1(1) 2(1) by (simp add: CV_Init_def)
    next
      case sc: False
      have "unat (b AND 7) \<le> 8"
      proof -
        have "b AND 7 = take_bit 3 b" by (simp add: take_bit_eq_mask mask_eq_exp_minus_1)
        then have "unat (b AND 7) = unat b mod 8" by (simp only: unsigned_take_bit_eq) (simp add: take_bit_eq_mod)
        then show ?thesis by simp
      qed
      from checkedD [OF DecodeUint_checked [OF this] stays_good [OF s2]]
      consider "DecodeUintWithLength (unat (b AND 7)) d2 = Some (None :: (uint64 \<times> _) option)"
        | base d3 where "DecodeUintWithLength (unat (b AND 7)) d2 = Some (Some (base :: uint64, d3))" "stays d2 d3"
        by metis
      then show ?thesis
      proof cases
        case no: 1
        then show ?thesis using False sc 1(1) 2(1) by (simp add: CV_Init_def)
      next
        case yes: 2
        from checkedD [OF UV_Init_checked stays_good [OF yes(2)]]
        consider "UV_Init TYPE(64) d3 = Some None" | vec d4 where "UV_Init TYPE(64) d3 = Some (Some (vec, d4))" "stays d3 d4"
          by metis
        then show ?thesis
        proof cases
          case empty: 1
          then show ?thesis using False sc 1(1) 2(1) yes by (simp add: CV_Init_def)
        next
          case full: 2
          have "stays d d4" using stays_trans [OF stays_trans [OF s2 yes(2)] full(2)] .
          moreover have "\<exists>cv. CV_Init d = Some (Some (cv, d4))"
            using False sc 1(1) 2(1) yes full(1) unfolding CV_Init_def Let_def
            by (cases "29 \<le> sc") (simp_all split del: if_split)
          ultimately show ?thesis by blast
        qed
      qed
    qed
  qed (simp add: CV_Init_def)
qed
end
