(* ===== verification/Encoded_Strings.thy ===== *)
theory Encoded_Strings
  imports Encoded_Uint_Correct
begin

text \<open>
  \<^verbatim>\<open>s2/encoded_string_vector.h\<close> and \<^verbatim>\<open>.cc\<close>: vectors of byte strings, written as the end offset of
  each string and then all bytes.  A \<open>StringVectorEncoder\<close> owns an \<open>Encoder\<close> in which strings are
  collected; the client of \<open>AddViaEncoder\<close> writes to that encoder.  The \<^verbatim>\<open>string_view\<close> and the
  \<open>Decoder\<close> of an element are the bytes they show, and it is a fault when those are not readable.
\<close>

record string_encoder =
  se_offsets :: "uint64 list"
  se_data :: encoder

record string_vector =
  sv_offsets :: uint_vector
  sv_data :: "byte list"

definition StringVectorEncoder :: "(nat \<Rightarrow> byte) \<Rightarrow> string_encoder" where
  "StringVectorEncoder raw = \<lparr>se_offsets = [], se_data = Encoder_new raw\<rparr>"

definition SE_Add :: "byte list \<Rightarrow> string_encoder \<Rightarrow> string_encoder option" where
  "SE_Add str se =
     (let se = se\<lparr>se_offsets := se_offsets se @ [of_nat (enc_length (se_data se))]\<rparr>
      in do { e \<leftarrow> Ensure (length str) (se_data se);
              e \<leftarrow> putn str (length str) e;
              Some (se\<lparr>se_data := e\<rparr>) })"

definition AddViaEncoder :: "string_encoder \<Rightarrow> string_encoder" where
  "AddViaEncoder se = se\<lparr>se_offsets := se_offsets se @ [of_nat (enc_length (se_data se))]\<rparr>"

definition SE_Encode :: "string_encoder \<Rightarrow> encoder \<Rightarrow> (string_encoder \<times> encoder) option" where
  "SE_Encode se e =
     (let se = se\<lparr>se_offsets := se_offsets se @ [of_nat (enc_length (se_data se))]\<rparr>
      in do { e \<leftarrow> EncodeUintVector (tl (se_offsets se)) e;
              e \<leftarrow> Ensure (enc_length (se_data se)) e;
              e \<leftarrow> putn (enc_buf (se_data se)) (enc_length (se_data se)) e;
              Some (se, e) })"

fun SE_Add_all :: "byte list list \<Rightarrow> string_encoder \<Rightarrow> string_encoder option" where
  "SE_Add_all [] se = Some se"
| "SE_Add_all (str # v) se = do { se \<leftarrow> SE_Add str se; SE_Add_all v se }"

definition SE_Encode_strings :: "(nat \<Rightarrow> byte) \<Rightarrow> byte list list \<Rightarrow> encoder \<Rightarrow> encoder option" where
  "SE_Encode_strings raw v e =
     do { string_vector \<leftarrow> SE_Add_all v (StringVectorEncoder raw);
          (_, e) \<leftarrow> SE_Encode string_vector e;
          Some e }"

definition SV_Init :: "decoder \<Rightarrow> ((string_vector \<times> decoder) option) option" where
  "SV_Init d =
     do { r \<leftarrow> UV_Init TYPE(64) d;
          case r of None \<Rightarrow> Some None
          | Some (offsets, d) \<Rightarrow>
            let sv = \<lparr>sv_offsets = offsets, sv_data = ptr d\<rparr>
            in if uv_length offsets > 0
               then do { len \<leftarrow> uv_nth offsets (uv_length offsets - 1);
                         if avail d < unat (len :: uint64) then Some None
                         else do { d \<leftarrow> skip (unat len) d; Some (Some (sv, d)) } }
               else Some (Some (sv, d)) }"

definition SV_Clear :: "string_vector \<Rightarrow> string_vector" where
  "SV_Clear sv = sv\<lparr>sv_offsets := UV_Clear (sv_offsets sv), sv_data := []\<rparr>"

definition sv_length :: "string_vector \<Rightarrow> nat" where
  "sv_length sv = uv_length (sv_offsets sv)"

definition sv_start :: "string_vector \<Rightarrow> nat \<Rightarrow> uint64 option" where
  "sv_start sv i = (if i = 0 then Some 0 else uv_nth (sv_offsets sv) (i - 1))"

definition sv_nth :: "string_vector \<Rightarrow> nat \<Rightarrow> byte list option" where
  "sv_nth sv i =
     do { start \<leftarrow> sv_start sv i;
          limit \<leftarrow> uv_nth (sv_offsets sv) i;
          if unat start + unat (limit - start) \<le> length (sv_data sv)
          then Some (take (unat (limit - start)) (drop (unat start) (sv_data sv))) else None }"

definition SV_GetDecoder :: "string_vector \<Rightarrow> nat \<Rightarrow> decoder option" where
  "SV_GetDecoder sv i =
     do { start \<leftarrow> sv_start sv i;
          limit \<leftarrow> uv_nth (sv_offsets sv) i;
          if unat start + unat (limit - start) \<le> length (sv_data sv)
          then Some (Decoder_on (take (unat (limit - start)) (drop (unat start) (sv_data sv)))) else None }"

definition SV_GetStart :: "string_vector \<Rightarrow> nat \<Rightarrow> byte list option" where
  "SV_GetStart sv i = do { start \<leftarrow> sv_start sv i; Some (drop (unat start) (sv_data sv)) }"

definition SV_Decode :: "string_vector \<Rightarrow> byte list list option" where
  "SV_Decode sv = collect (sv_nth sv) (sv_length sv)"

definition SV_Encode :: "string_vector \<Rightarrow> encoder \<Rightarrow> encoder option" where
  "SV_Encode sv e =
     do { e \<leftarrow> UV_Encode TYPE(64) (sv_offsets sv) e;
          if uv_length (sv_offsets sv) > 0
          then do { len \<leftarrow> uv_nth (sv_offsets sv) (uv_length (sv_offsets sv) - 1);
                    e \<leftarrow> Ensure (unat (len :: uint64)) e;
                    putn (sv_data sv) (unat len) e }
          else Some e }"


section \<open>Correctness\<close>

text \<open>The end offsets of strings that follow each other from offset \<open>k\<close>.\<close>

fun ends_from :: "nat \<Rightarrow> byte list list \<Rightarrow> uint64 list" where
  "ends_from k [] = []"
| "ends_from k (s # v) = of_nat (k + length s) # ends_from (k + length s) v"

definition sv_bytes :: "byte list list \<Rightarrow> byte list" where
  "sv_bytes v = uv_bytes (ends_from 0 v) @ concat v"

lemma length_ends_from [simp]: "length (ends_from k v) = length v"
  by (induction v arbitrary: k) auto

lemma ends_from_append: "ends_from k (u @ v) = ends_from k u @ ends_from (k + length (concat u)) v"
  by (induction u arbitrary: k) (auto simp: add.assoc)

lemma ends_from_nth:
  "i < length v \<Longrightarrow> ends_from k v ! i = of_nat (k + length (concat (take (Suc i) v)))"
proof (induction v arbitrary: k i)
  case (Cons s v)
  then show ?case by (cases i) (auto simp: add.assoc)
qed simp

text \<open>A \<open>StringVectorEncoder\<close> to which the strings \<open>v\<close> have been added.\<close>

definition se_holds :: "string_encoder \<Rightarrow> byte list list \<Rightarrow> bool" where
  "se_holds se v \<longleftrightarrow> enc_ok (se_data se) \<and> enc_owned (se_data se) \<and> encoded (se_data se) = concat v \<and>
     se_offsets se @ [of_nat (length (concat v))] = 0 # ends_from 0 v"

lemma se_holds_new: "se_holds (StringVectorEncoder raw) []"
  by (simp add: se_holds_def StringVectorEncoder_def Encoder_new_def enc_ok_def encoded_def)

lemma emits_putn: "emits own (length bs) (putn bs (length bs)) bs 0"
  using emits_put [of own bs 0] unfolding putn_def [abs_def] by simp

lemma SE_Add_holds:
  assumes "se_holds se v"
  obtains se' where "SE_Add str se = Some se'" "se_holds se' (v @ [str])"
proof -
  have "emits True 0 (\<lambda>e. Ensure (length str) e \<bind> putn str (length str)) str 0"
    by (intro emits_Ensure_bind emits_putn)
  then obtain e where e: "Ensure (length str) (se_data se) \<bind> putn str (length str) = Some e" "wrote (se_data se) str e"
    using emitsD assms unfolding se_holds_def by (metis le0)
  let ?se = "se\<lparr>se_offsets := se_offsets se @ [of_nat (enc_length (se_data se))], se_data := e\<rparr>"
  have "SE_Add str se = Some ?se" using e(1) by (auto simp: SE_Add_def Let_def split: bind_splits)
  moreover have "enc_length (se_data se) = length (concat v)"
    using assms length_encoded [of "se_data se"] by (simp add: se_holds_def)
  then have "se_holds ?se (v @ [str])"
    using assms e(2) by (simp add: se_holds_def wrote_def ends_from_append)
  ultimately show ?thesis by (rule that)
qed

lemma SE_Add_all_holds:
  assumes "se_holds se u"
  shows "\<exists>se'. SE_Add_all v se = Some se' \<and> se_holds se' (u @ v)"
  using assms
proof (induction v arbitrary: se u)
  case (Cons str v)
  obtain se1 where 1: "SE_Add str se = Some se1" "se_holds se1 (u @ [str])" by (rule SE_Add_holds [OF Cons.prems])
  then show ?case using Cons.IH [OF 1(2)] by simp
qed simp

lemma SE_Encode_emits:
  assumes "se_holds se v"
  shows "emits True 0 (\<lambda>e. map_option snd (SE_Encode se e)) (sv_bytes v) 0"
proof -
  let ?d = "se_data se"
  have len: "enc_length ?d = length (concat v)"
    using assms length_encoded [of "se_data se"] by (simp add: se_holds_def)
  have tl: "tl (se_offsets se @ [of_nat (enc_length ?d)]) = ends_from 0 v"
    using assms unfolding len by (simp add: se_holds_def)
  have "enc_length ?d \<le> length (enc_buf ?d)" "take (enc_length ?d) (enc_buf ?d) = concat v"
    using assms by (simp_all add: se_holds_def enc_ok_def encoded_def enc_length_def)
  then have p: "putn (enc_buf ?d) (enc_length ?d) = put_bytes (concat v)" by (simp add: putn_def [abs_def])
  have "emits True (enc_length ?d) (put_bytes (concat v)) (concat v) 0"
    using emits_put [of True "concat v" 0] len by simp
  then have "emits True 0 (\<lambda>e. EncodeUintVector (ends_from 0 v) e \<bind> (\<lambda>e. Ensure (enc_length ?d) e \<bind> put_bytes (concat v))) (sv_bytes v) 0"
    unfolding sv_bytes_def by (intro emits_bind [where m = 0] EncodeUintVector_emits emits_Ensure_bind) simp_all
  moreover have "map_option snd (SE_Encode se e) =
      EncodeUintVector (ends_from 0 v) e \<bind> (\<lambda>e. Ensure (enc_length ?d) e \<bind> put_bytes (concat v))" for e
    unfolding SE_Encode_def Let_def by (simp add: tl p map_conv_bind_option bind_assoc)
  ultimately show ?thesis by simp
qed

lemma SE_Encode_strings_emits: "emits True 0 (SE_Encode_strings raw v) (sv_bytes v) 0"
proof -
  obtain se where se: "SE_Add_all v (StringVectorEncoder raw) = Some se" "se_holds se v"
    using SE_Add_all_holds [OF se_holds_new, of v raw] by auto
  have "SE_Encode_strings raw v = (\<lambda>e. map_option snd (SE_Encode se e))"
  proof
    show "SE_Encode_strings raw v e = map_option snd (SE_Encode se e)" for e
      by (cases "SE_Encode se e") (simp_all add: SE_Encode_strings_def se(1) case_prod_unfold)
  qed
  then show ?thesis using SE_Encode_emits [OF se(2)] by simp
qed

text \<open>\<open>sv_view sv v\<close>: the string vector \<open>sv\<close> shows the strings \<open>v\<close>.\<close>

definition sv_view :: "string_vector \<Rightarrow> byte list list \<Rightarrow> bool" where
  "sv_view sv v \<longleftrightarrow> uv_view (sv_offsets sv) (ends_from 0 v) \<and> (\<exists>r. sv_data sv = concat v @ r)"

text \<open>Sizes for which offsets and indices do not overflow.\<close>

definition sv_fits :: "byte list list \<Rightarrow> bool" where
  "sv_fits v \<longleftrightarrow> length v * 8 < 2 ^ 31 \<and> length (concat v) < 2 ^ 64"

lemma sv_fits_ends: "sv_fits v \<Longrightarrow> uv_fits (ends_from 0 v)"
  by (simp add: sv_fits_def uv_fits_def size_of_def)

lemma sv_view_offset:
  assumes "sv_view sv v" "sv_fits v" "i < length v"
  shows "uv_nth (sv_offsets sv) i = Some (of_nat (length (concat (take (Suc i) v))) :: uint64)"
proof -
  have "unat (uv_len (sv_offsets sv)) \<le> 8"
    using assms(1) by (simp add: sv_view_def uv_view_def size_of_def)
  then have "i * unat (uv_len (sv_offsets sv)) \<le> length v * 8" using assms(3) by (intro mult_le_mono) auto
  then have "i * unat (uv_len (sv_offsets sv)) < 2 ^ 31" using assms(2) by (simp add: sv_fits_def)
  then show ?thesis
    using uv_view_nth [of "sv_offsets sv" "ends_from 0 v" i] assms ends_from_nth [OF assms(3), of 0]
    by (simp add: sv_view_def)
qed

lemma length_concat_take: "length (concat (take i v)) \<le> length (concat v)"
proof -
  have "concat v = concat (take i v) @ concat (drop i v)" by (metis append_take_drop_id concat_append)
  then show ?thesis by simp
qed

lemma sv_view_nth:
  assumes "sv_view sv v" "sv_fits v" "i < length v"
  shows "sv_nth sv i = Some (v ! i)" "SV_GetDecoder sv i = Some (Decoder_on (v ! i))"
    "\<exists>r. SV_GetStart sv i = Some (v ! i @ r)"
proof -
  let ?n = "\<lambda>i. length (concat (take i v))"
  have small: "?n j < 2 ^ 64" for j
    using le_less_trans [OF length_concat_take [of j v]] assms(2) by (simp add: sv_fits_def)
  have u: "unat (of_nat (?n j) :: uint64) = ?n j" for j using small [of j] by (simp add: unat_of_nat)
  have s: "sv_start sv i = Some (of_nat (?n i))"
    using sv_view_offset [OF assms(1,2), of "i - 1"] assms(3) by (cases i) (simp_all add: sv_start_def)
  have step: "?n (Suc i) = ?n i + length (v ! i)" using assms(3) by (simp add: take_Suc_conv_app_nth)
  have "of_nat (?n (Suc i)) - of_nat (?n i) = (of_nat (length (v ! i)) :: uint64)" unfolding step by simp
  moreover have "length (v ! i) < 2 ^ 64" using small [of "Suc i"] step by simp
  ultimately have d: "unat (of_nat (?n (Suc i)) - of_nat (?n i) :: uint64) = length (v ! i)"
    by (simp only: unat_of_nat) simp
  obtain r where r: "sv_data sv = concat v @ r" using assms(1) by (auto simp: sv_view_def)
  have "v = take i v @ v ! i # drop (Suc i) v" using assms(3) by (rule id_take_nth_drop)
  then have "concat v = concat (take i v) @ v ! i @ concat (drop (Suc i) v)"
    by (metis concat.simps(2) concat_append)
  then have data: "sv_data sv = concat (take i v) @ v ! i @ (concat (drop (Suc i) v) @ r)" by (simp add: r)
  note o = sv_view_offset [OF assms]
  show "sv_nth sv i = Some (v ! i)" "SV_GetDecoder sv i = Some (Decoder_on (v ! i))"
    using data by (simp_all add: sv_nth_def SV_GetDecoder_def s o u d)
  show "\<exists>r. SV_GetStart sv i = Some (v ! i @ r)"
    using data by (simp add: SV_GetStart_def s u)
qed

lemma sv_view_Decode: "sv_view sv v \<Longrightarrow> sv_fits v \<Longrightarrow> SV_Decode sv = Some v"
  using collect_eq [of "length v" "sv_nth sv" "(!) v"] sv_view_nth(1) [of sv v]
  by (simp add: SV_Decode_def sv_length_def sv_view_def uv_view_def map_nth)

lemma SV_Init_reads:
  assumes "sv_fits v" "ptr d = sv_bytes v @ r"
  obtains sv where "SV_Init d = Some (Some (sv, past (length (sv_bytes v)) d))" "sv_view sv v"
    "uv_len (sv_offsets sv) = of_nat (uv_width (ends_from 0 v))" "uv_size (sv_offsets sv) = of_nat (length v)"
proof -
  let ?e = "ends_from 0 v"
  let ?d = "past (length (uv_bytes ?e)) d"
  have e: "length ?e < 2 ^ 32" using assms(1) by (simp add: sv_fits_def)
  have "ptr d = uv_bytes ?e @ (concat v @ r)" using assms(2) by (simp add: sv_bytes_def)
  then obtain vec where vec: "UV_Init TYPE(64) d = Some (Some (vec, ?d))" "uv_view vec ?e"
    "uv_len vec = of_nat (uv_width ?e)" "uv_size vec = of_nat (length ?e)"
    using UV_Init_reads [of ?e d, OF _ e] by auto
  have p: "ptr ?d = concat v @ r" using assms(2) by (simp add: sv_bytes_def)
  define sv where "sv = \<lparr>sv_offsets = vec, sv_data = ptr ?d\<rparr>"
  have view: "sv_view sv v" using vec(2) p by (simp add: sv_view_def sv_def)
  have len: "uv_length vec = length v" using vec(2) by (simp add: uv_view_def)
  have "SV_Init d = Some (Some (sv, past (length (sv_bytes v)) d))"
  proof (cases "v = []")
    case True
    then show ?thesis using vec(1) len by (simp add: SV_Init_def sv_def sv_bytes_def)
  next
    case False
    have last: "uv_nth vec (length v - 1) = Some (of_nat (length (concat v)) :: uint64)"
      using sv_view_offset [OF view assms(1), of "length v - 1"] False by (simp add: sv_def)
    have u: "unat (of_nat (length (concat v)) :: uint64) = length (concat v)"
      using assms(1) by (simp add: sv_fits_def unat_of_nat)
    have "ptr d \<noteq> []" using assms(2) by (auto simp: sv_bytes_def uv_bytes_def Encode64_eq)
    then have "dec_pos d \<le> length (dec_buf d)" by (rule pos_ok)
    moreover have "length (uv_bytes ?e) \<le> avail d" using assms(2) by (simp add: avail_ptr sv_bytes_def)
    ultimately have "dec_pos ?d \<le> length (dec_buf ?d)" by (simp add: past_def avail_def)
    then have "skip (length (concat v)) ?d = Some (past (length (concat v)) ?d)"
      using p by (intro skip_eq) (simp_all add: avail_ptr)
    then show ?thesis
      using vec(1) last u p False len by (simp add: SV_Init_def sv_def sv_bytes_def avail_ptr)
  qed
  then show ?thesis using view vec(3,4) by (intro that [of sv]) (simp_all add: sv_def)
qed

text \<open>A client that initializes a string vector and decodes all of it.\<close>

definition sv_read :: "decoder \<Rightarrow> ((byte list list \<times> decoder) option) option" where
  "sv_read d =
     do { r \<leftarrow> SV_Init d;
          case r of None \<Rightarrow> Some None
          | Some (sv, d) \<Rightarrow> do { v \<leftarrow> SV_Decode sv; Some (Some (v, d)) } }"

interpretation strings: growing_codec sv_fits sv_bytes sv_read "SE_Encode_strings raw" for raw
proof unfold_locales
  show "sv_read d = Some (Some (v, past (length (sv_bytes v)) d))"
    if v: "sv_fits v" and p: "ptr d = sv_bytes v @ r" for v d r
  proof -
    obtain sv where "SV_Init d = Some (Some (sv, past (length (sv_bytes v)) d))" "sv_view sv v"
      by (rule SV_Init_reads [OF v p])
    then show ?thesis using sv_view_Decode [OF _ v] by (simp add: sv_read_def)
  qed
qed (rule SE_Encode_strings_emits)

lemma SV_Encode_emits:
  assumes "sv_fits v" "sv_view sv v" "uv_len (sv_offsets sv) = of_nat (uv_width (ends_from 0 v))"
    "uv_size (sv_offsets sv) = of_nat (length v)"
  shows "emits True 0 (SV_Encode sv) (sv_bytes v) 0"
proof -
  have a: "emits True 0 (UV_Encode TYPE(64) (sv_offsets sv)) (uv_bytes (ends_from 0 v)) 0"
    using assms sv_fits_ends [OF assms(1)] by (intro UV_Encode_emits) (simp_all add: sv_view_def)
  have len: "uv_length (sv_offsets sv) = length v" using assms(2) by (simp add: sv_view_def uv_view_def)
  show ?thesis
  proof (cases "v = []")
    case True
    then show ?thesis using a len by (simp add: SV_Encode_def [abs_def] sv_bytes_def)
  next
    case False
    have last: "uv_nth (sv_offsets sv) (length v - 1) = Some (of_nat (length (concat v)) :: uint64)"
      using sv_view_offset [OF assms(2,1), of "length v - 1"] False by simp
    have u: "unat (of_nat (length (concat v)) :: uint64) = length (concat v)"
      using assms(1) by (simp add: sv_fits_def unat_of_nat)
    obtain r where r: "sv_data sv = concat v @ r" using assms(2) by (auto simp: sv_view_def)
    have "emits True (length (concat v)) (putn (sv_data sv) (length (concat v))) (concat v) 0"
      using emits_put [of True "concat v" 0] unfolding putn_def [abs_def] r by simp
    then show ?thesis
      using emits_bind [OF a emits_Ensure_bind] last False
      by (simp add: SV_Encode_def [abs_def] sv_bytes_def len u)
  qed
qed

end
