(* ===== verification/Cell_Union_Coding.thy ===== *)
theory Cell_Union_Coding
  imports Cell_Token_Correct Cell_Union
begin

text \<open>
  The binary and textual forms of \<^verbatim>\<open>S2CellUnion\<close> (\<^verbatim>\<open>s2/s2cell_union.cc\<close>).  The flag
  \<^verbatim>\<open>s2cell_union_decode_max_num_cells\<close> is the parameter \<open>max_num_cells\<close>, converted to \<^verbatim>\<open>size_t\<close>.
\<close>

definition kCurrentLosslessEncodingVersionNumber :: byte where
  "kCurrentLosslessEncodingVersionNumber = 1"

definition CU_Encode :: "cellid list \<Rightarrow> encoder \<Rightarrow> encoder option" where
  "CU_Encode cell_ids e =
     do { e \<leftarrow> Ensure (1 + 8 * (1 + length cell_ids)) e;
          e \<leftarrow> put8 kCurrentLosslessEncodingVersionNumber e;
          e \<leftarrow> put64 (of_nat (length cell_ids)) e;
          each cell_Encode cell_ids e }"

definition CU_Decode :: "uint64 \<Rightarrow> decoder \<Rightarrow> ((cellid list \<times> decoder) option) option" where
  "CU_Decode max_num_cells d =
     (if avail d < 1 + 8 then Some None
      else do { (version, d) \<leftarrow> get8 d;
                if version > kCurrentLosslessEncodingVersionNumber then Some None
                else do { (num_cells, d) \<leftarrow> get64 d;
                          if num_cells > max_num_cells then Some None
                          else times cell_Decode (unat num_cells) d } })"

fun decimal :: "nat \<Rightarrow> string" where
  "decimal n = (if n < 10 then [digit_char n] else decimal (n div 10) @ [digit_char (n mod 10)])"

declare decimal.simps [simp del]

definition CU_ToString :: "cellid list \<Rightarrow> string" where
  "CU_ToString cell_ids =
     (let kMaxCount = 500;
          output = ''Size:'' @ decimal (length cell_ids) @ '' S2CellIds:'';
          output = fold (\<lambda>i output. (if i > 0 then output @ '','' else output) @ ToToken (cell_ids ! i))
                     [0..<min kMaxCount (length cell_ids)] output
      in if length cell_ids > kMaxCount then output @ '',...'' else output)"

definition CU_bytes :: "cellid list \<Rightarrow> byte list" where
  "CU_bytes ids = [1] @ Store64 (of_nat (length ids)) @ concat (map Store64 ids)"

lemma CU_Encode_emits: "emits True 0 (CU_Encode ids) (CU_bytes ids) 0"
proof -
  have a: "emits True (9 + 8 * length ids) (put8 1) [1] (8 + 8 * length ids)"
    using emits_own [OF c8.enc_fits [where n = "8 + 8 * length ids"]] by simp
  have b: "emits True (8 + 8 * length ids) (put64 (of_nat (length ids))) (Store64 (of_nat (length ids))) 0"
    by (intro emits_weaken [OF emits_own [OF c64.enc_fits [where n = 0]]]) simp_all
  have c: "emits True 0 (each cell_Encode ids) (concat (map Store64 ids)) 0"
    by (rule cell.enc_list) simp
  show ?thesis
    using emits_Ensure_bind [OF emits_bind [OF a emits_bind [OF b c]]]
    by (simp add: CU_Encode_def [abs_def] CU_bytes_def kCurrentLosslessEncodingVersionNumber_def)
qed

lemma CU_Decode_reads:
  assumes "length ids \<le> unat mx" "ptr d = CU_bytes ids @ r"
  shows "CU_Decode mx d = Some (Some (ids, past (length (CU_bytes ids)) d))"
proof -
  have "length ids < 2 ^ 64" using assms(1) unsigned_less [of mx, where 'a = nat] by simp
  then have n: "unat (of_nat (length ids) :: uint64) = length ids" by (simp add: unat_of_nat)
  have p: "ptr d = [1] @ (Store64 (of_nat (length ids)) @ concat (map Store64 ids) @ r)"
    using assms(2) by (simp add: CU_bytes_def)
  have 1: "get8 d = Some (1, past 1 d)" using readsD [OF reads_get(1) _ p] by simp
  have p2: "ptr (past 1 d) = Store64 (of_nat (length ids)) @ (concat (map Store64 ids) @ r)" using p by simp
  have p3: "ptr (past 8 (past 1 d)) = concat (map Store64 ids) @ r"
    unfolding ptr_past [of 8 "past 1 d"] p2 by simp
  have 2: "get64 (past 1 d) = Some (of_nat (length ids), past 8 (past 1 d))"
    using readsD [OF reads_get(4) _ p2] by (simp flip: length_greater_0_conv)
  have 3: "times cell_Decode (length ids) (past 8 (past 1 d))
      = Some (Some (ids, past (length (concat (map Store64 ids))) (past 8 (past 1 d))))"
    using p3 by (intro cell.dec_list) simp_all
  have "\<not> of_nat (length ids) > mx" using assms(1) n by (simp add: word_less_nat_alt not_less)
  moreover have "\<not> avail d < 9" using p by (simp add: avail_ptr)
  ultimately show ?thesis
    using 1 2 3 n by (simp add: CU_Decode_def kCurrentLosslessEncodingVersionNumber_def CU_bytes_def add.assoc)
qed

lemma CU_Decode_refuses:
  assumes "ptr d = CU_bytes ids @ r" "length ids < 2 ^ 64" "\<not> length ids \<le> unat mx"
  shows "CU_Decode mx d = Some None"
proof -
  have n: "unat (of_nat (length ids) :: uint64) = length ids" using assms(2) by (simp add: unat_of_nat)
  have p: "ptr d = [1] @ (Store64 (of_nat (length ids)) @ concat (map Store64 ids) @ r)"
    using assms(1) by (simp add: CU_bytes_def)
  have 1: "get8 d = Some (1, past 1 d)" using readsD [OF reads_get(1) _ p] by simp
  have p2: "ptr (past 1 d) = Store64 (of_nat (length ids)) @ (concat (map Store64 ids) @ r)" using p by simp
  have 2: "get64 (past 1 d) = Some (of_nat (length ids), past 8 (past 1 d))"
    using readsD [OF reads_get(4) _ p2] by (simp flip: length_greater_0_conv)
  have "of_nat (length ids) > mx" using assms(3) n by (simp add: word_less_nat_alt)
  then show ?thesis using 1 2 by (simp add: CU_Decode_def kCurrentLosslessEncodingVersionNumber_def)
qed

lemma CU_Decode_checked: "checked (CU_Decode mx)"
  unfolding checked_def
proof (intro allI impI)
  fix d assume g: "good d"
  show "CU_Decode mx d = Some None \<or> (\<exists>v d'. CU_Decode mx d = Some (Some (v, d')) \<and> stays d d')"
  proof (cases "avail d < 1 + 8")
    case False
    define d1 where "d1 = past 1 d"
    have 1: "get8 d = Some (hd (ptr d), d1)" "stays d d1"
      using False g by (auto simp: get8_good stays_past d1_def)
    define d2 where "d2 = past 8 d1"
    have av: "8 \<le> avail d1" using False by (simp add: d1_def avail_ptr)
    have 2: "get64 d1 = Some (Load64 (take 8 (ptr d1)), d2)" "stays d1 d2"
      using av stays_good [OF 1(2)] by (auto simp: d2_def get64_good stays_past)
    have s: "stays d d2" using stays_trans [OF 1(2) 2(2)] .
    let ?n = "Load64 (take 8 (ptr d1))"
    from checkedD [OF cell.dec_list_checked [of "unat ?n"] stays_good [OF s]]
    consider "times cell_Decode (unat ?n) d2 = Some None"
      | ids d3 where "times cell_Decode (unat ?n) d2 = Some (Some (ids, d3))" "stays d2 d3" by metis
    then show ?thesis
      using False 1(1) 2(1) s by cases (auto simp: CU_Decode_def intro: stays_trans)
  qed (simp add: CU_Decode_def)
qed

interpretation cell_union: checked_codec "\<lambda>ids. length ids \<le> unat mx" CU_bytes "CU_Decode mx" CU_Encode for mx
  by unfold_locales (auto intro: CU_Decode_reads CU_Encode_emits CU_Decode_checked)

end
