(* ===== verification/Encoded_Properties.thy ===== *)
theory Encoded_Properties
  imports Encoded_Cell_Ids_Correct Encoded_Strings Cell_Union_Coding
begin

text \<open>
  The properties of the encoded vectors (\<^verbatim>\<open>encoded_uint_vector.h\<close>, \<^verbatim>\<open>encoded_string_vector.h\<close>,
  \<^verbatim>\<open>encoded_s2cell_id_vector.h\<close>) and of the encoding of a cell union.
\<close>

lemma new_encoder: "enc_ok (Encoder_new raw)" "enc_owned (Encoder_new raw)"
  by (simp_all add: enc_ok_def Encoder_new_def)

text \<open>C12: \<open>EncodeUintVector\<close> of 16, 32 or 64-bit integers appends bytes from which \<open>Init\<close> opens a
  vector that shows them: its size, every element, the decoded list, and, when they are sorted, the
  position that \<open>lower_bound\<close> finds by binary search in the packed bytes; \<open>Encode\<close> of that view
  writes the same bytes again.\<close>

theorem uint_vector_roundtrip:
  fixes v :: "'a::len word list"
  assumes "LENGTH('a) \<in> {16, 32, 64}" and "uv_fits v" and "enc_ok e" and "enc_owned e"
  shows "\<exists>e' bs. EncodeUintVector v e = Some e' \<and> wrote e bs e' \<and>
    (ptr d = bs @ r \<longrightarrow> (\<exists>vec. UV_Init TYPE('a) d = Some (Some (vec, past (length bs) d)) \<and>
      uv_length vec = length v \<and> (\<forall>i<length v. uv_nth vec i = Some (v ! i)) \<and> UV_Decode vec = Some v \<and>
      (sorted v \<longrightarrow> uv_lower_bound vec t = Some (length (takeWhile (\<lambda>x. x < t) v))) \<and>
      (\<exists>e2. UV_Encode TYPE('a) vec e = Some e2 \<and> wrote e bs e2)))"
proof -
  obtain e' where e: "EncodeUintVector v e = Some e'" "wrote e (uv_bytes v) e'"
    using emitsD [OF EncodeUintVector_emits [OF assms(1)]] assms(3,4) by auto
  have "\<exists>vec. UV_Init TYPE('a) d = Some (Some (vec, past (length (uv_bytes v)) d)) \<and>
      uv_length vec = length v \<and> (\<forall>i<length v. uv_nth vec i = Some (v ! i)) \<and> UV_Decode vec = Some v \<and>
      (sorted v \<longrightarrow> uv_lower_bound vec t = Some (length (takeWhile (\<lambda>x. x < t) v))) \<and>
      (\<exists>e2. UV_Encode TYPE('a) vec e = Some e2 \<and> wrote e (uv_bytes v) e2)" if d: "ptr d = uv_bytes v @ r"
  proof -
    obtain vec where vec: "UV_Init TYPE('a) d = Some (Some (vec, past (length (uv_bytes v)) d))" "uv_view vec v"
      "uv_len vec = of_nat (uv_width v)" "uv_size vec = of_nat (length v)"
      by (rule UV_Init_reads [OF assms(1) uv_fits_less(2) [OF assms(1,2)] d])
    have "i * unat (uv_len vec) < 2 ^ 31" if "i < length v" for i
    proof -
      have "i * unat (uv_len vec) \<le> length v * size_of TYPE('a)"
        using that vec(2) by (intro mult_le_mono) (simp_all add: uv_view_def)
      then show ?thesis using assms(2) by (simp add: uv_fits_def)
    qed
    then have nth: "\<forall>i<length v. uv_nth vec i = Some (v ! i)" using uv_view_nth [OF assms(1) vec(2)] by blast
    have dec: "UV_Decode vec = Some v" using assms(2) by (intro uv_view_Decode [OF assms(1) vec(2)]) (simp add: uv_fits_def)
    obtain e2 where "UV_Encode TYPE('a) vec e = Some e2" "wrote e (uv_bytes v) e2"
      using emitsD [OF UV_Encode_emits [OF assms(1,2) vec(2-4)]] assms(3,4) by auto
    then show ?thesis
      using vec(1,2) nth dec uv_lower_bound_eq [OF assms(1) vec(2)] by (auto simp: uv_view_def)
  qed
  then show ?thesis using e by blast
qed

theorem uint_vector_roundtrip_witness:
  "\<exists>e'. EncodeUintVector [3 :: uint16, 700] (Encoder_new (\<lambda>_. 0)) = Some e'"
proof -
  have "LENGTH(16) \<in> {16, 32, 64}" "uv_fits [3 :: uint16, 700]" by (simp_all add: uv_fits_def size_of_def)
  then show ?thesis using uint_vector_roundtrip [OF _ _ new_encoder] by blast
qed

text \<open>C13: strings added to a \<open>StringVectorEncoder\<close>, or given to its static \<open>Encode\<close>, are written as
  bytes from which \<open>Init\<close> opens a vector that shows them: size, each string, a decoder over exactly
  the bytes of one string, a pointer to its start, the decoded list; \<open>Encode\<close> of that view
  writes the same bytes again.\<close>

theorem string_vector_roundtrip:
  assumes "sv_fits v" and "enc_ok e" and "enc_owned e"
  shows "\<exists>e' bs. SE_Encode_strings raw v e = Some e' \<and> wrote e bs e' \<and>
    (ptr d = bs @ r \<longrightarrow> (\<exists>sv. SV_Init d = Some (Some (sv, past (length bs) d)) \<and>
      sv_length sv = length v \<and> SV_Decode sv = Some v \<and>
      (\<forall>i<length v. sv_nth sv i = Some (v ! i) \<and> SV_GetDecoder sv i = Some (Decoder_on (v ! i)) \<and>
         (\<exists>s. SV_GetStart sv i = Some (v ! i @ s))) \<and>
      (\<exists>e2. SV_Encode sv e = Some e2 \<and> wrote e bs e2)))"
proof -
  obtain e' where e: "SE_Encode_strings raw v e = Some e'" "wrote e (sv_bytes v) e'"
    using emitsD [OF SE_Encode_strings_emits [of raw v]] assms(2,3) by auto
  have "\<exists>sv. SV_Init d = Some (Some (sv, past (length (sv_bytes v)) d)) \<and>
      sv_length sv = length v \<and> SV_Decode sv = Some v \<and>
      (\<forall>i<length v. sv_nth sv i = Some (v ! i) \<and> SV_GetDecoder sv i = Some (Decoder_on (v ! i)) \<and>
         (\<exists>s. SV_GetStart sv i = Some (v ! i @ s))) \<and>
      (\<exists>e2. SV_Encode sv e = Some e2 \<and> wrote e (sv_bytes v) e2)" if d: "ptr d = sv_bytes v @ r"
  proof -
    obtain sv where sv: "SV_Init d = Some (Some (sv, past (length (sv_bytes v)) d))" "sv_view sv v"
      "uv_len (sv_offsets sv) = of_nat (uv_width (ends_from 0 v))" "uv_size (sv_offsets sv) = of_nat (length v)"
      by (rule SV_Init_reads [OF assms(1) d])
    obtain e2 where "SV_Encode sv e = Some e2" "wrote e (sv_bytes v) e2"
      using emitsD [OF SV_Encode_emits [OF assms(1) sv(2-4)]] assms(2,3) by auto
    then show ?thesis
      using sv(1) sv_view_nth [OF sv(2) assms(1)] sv_view_Decode [OF sv(2) assms(1)] sv(2)
      by (auto simp: sv_length_def sv_view_def uv_view_def)
  qed
  then show ?thesis using e by blast
qed

theorem string_vector_roundtrip_witness:
  "\<exists>e'. SE_Encode_strings (\<lambda>_. 0) [[7, 8], [], [9]] (Encoder_new (\<lambda>_. 0)) = Some e'"
proof -
  have "sv_fits [[7, 8], [], [9]]" by (simp add: sv_fits_def)
  then show ?thesis using string_vector_roundtrip [OF _ new_encoder] by blast
qed

text \<open>C10: whatever base, shift and delta width \<open>EncodeS2CellIdVector\<close> chooses for a list of 64-bit
  ids (valid or not, sorted or not), the vector that \<open>Init\<close> opens on its bytes shows the list, and
  for a sorted list of ids below \<open>S2CellId::End\<close> its \<open>lower_bound\<close>, which searches among the packed
  deltas, finds the first id not less than the target.\<close>

theorem cell_id_vector_roundtrip:
  assumes "cv_fits v" and "enc_ok e" and "enc_owned e"
  shows "\<exists>e' bs. EncodeS2CellIdVector v e = Some e' \<and> wrote e bs e' \<and>
    (ptr d = bs @ r \<longrightarrow> (\<exists>cv. CV_Init d = Some (Some (cv, past (length bs) d)) \<and>
      cv_length cv = length v \<and> (\<forall>i<length v. cv_nth cv i = Some (v ! i)) \<and> CV_Decode cv = Some v \<and>
      (sorted v \<and> (\<forall>x\<in>set v. x < cell_End 30) \<longrightarrow>
         cv_lower_bound cv t = Some (length (takeWhile (\<lambda>x. x < t) v)))))"
proof -
  obtain e' where e: "EncodeS2CellIdVector v e = Some e'" "wrote e (cv_bytes v) e'"
    using emitsD [OF EncodeS2CellIdVector_emits] assms(2,3) by auto
  have l: "length v < 2 ^ 32" using assms(1) by (simp add: cv_fits_def)
  have "\<exists>cv. CV_Init d = Some (Some (cv, past (length (cv_bytes v)) d)) \<and>
      cv_length cv = length v \<and> (\<forall>i<length v. cv_nth cv i = Some (v ! i)) \<and> CV_Decode cv = Some v \<and>
      (sorted v \<and> (\<forall>x\<in>set v. x < cell_End 30) \<longrightarrow>
         cv_lower_bound cv t = Some (length (takeWhile (\<lambda>x. x < t) v)))" if d: "ptr d = cv_bytes v @ r"
  proof -
    obtain cv where cv: "CV_Init d = Some (Some (cv, past (length (cv_bytes v)) d))" "cv_view cv v"
      by (rule CV_Init_reads [OF l d])
    then show ?thesis
      using cv_view_length [OF cv(2)] cv_view_nth [OF cv(2) assms(1)] cv_view_Decode [OF cv(2) assms(1)]
        cv_view_lower_bound [OF cv(2)] by blast
  qed
  then show ?thesis using e by blast
qed

theorem cell_id_vector_roundtrip_witness:
  "\<exists>e'. EncodeS2CellIdVector [0x1000000000000000, 5] (Encoder_new (\<lambda>_. 0)) = Some e'"
proof -
  have "cv_fits [0x1000000000000000, 5]" by (simp add: cv_fits_def)
  then show ?thesis using cell_id_vector_roundtrip [OF _ new_encoder] by blast
qed

text \<open>A cell union of at most \<^verbatim>\<open>s2cell_union_decode_max_num_cells\<close> cells can be decoded from what
  \<open>Encode\<close> wrote, whatever follows; a longer one, which \<open>Encode\<close> writes all the same, is refused.\<close>

theorem cell_union_roundtrip:
  assumes "enc_ok e" and "enc_owned e" and "length ids < 2 ^ 64"
  shows "\<exists>e' bs. CU_Encode ids e = Some e' \<and> wrote e bs e' \<and> length bs = 9 + 8 * length ids \<and>
    (ptr d = bs @ r \<longrightarrow> CU_Decode mx d =
       Some (if length ids \<le> unat mx then Some (ids, past (length bs) d) else None))"
proof -
  obtain e' where e: "CU_Encode ids e = Some e'" "wrote e (CU_bytes ids) e'"
    using emitsD [OF CU_Encode_emits] assms(1,2) by auto
  have "length (CU_bytes ids) = 9 + 8 * length ids"
    by (simp add: CU_bytes_def length_concat o_def sum_list_triv)
  moreover have "CU_Decode mx d = Some (if length ids \<le> unat mx then Some (ids, past (length (CU_bytes ids)) d) else None)"
    if d: "ptr d = CU_bytes ids @ r"
    using CU_Decode_reads [OF _ d, of mx] CU_Decode_refuses [OF d assms(3), of mx] by simp
  ultimately show ?thesis using e by blast
qed

theorem cell_union_roundtrip_witness:
  "\<exists>e'. CU_Encode [0x1000000000000000, 5] (Encoder_new (\<lambda>_. 0)) = Some e'"
proof -
  have "length [0x1000000000000000, 5 :: cellid] < 2 ^ 64" by simp
  then show ?thesis using cell_union_roundtrip [OF new_encoder] by blast
qed

text \<open>C14: on every buffer and at every position in it, the decoders of a vector of integers, of a
  vector of cell ids and of a cell union return true or false without reading outside the buffer,
  and leave the position inside it.\<close>

theorem vector_decoders_safe:
  "checked (UV_Init TYPE(64)) \<and> checked (UV_Init TYPE(32)) \<and> checked CV_Init \<and> checked (CU_Decode mx)"
  by (intro conjI UV_Init_checked CV_Init_checked CU_Decode_checked)

end
