(* ===== verification/Cell_Iterator.thy ===== *)
theory Cell_Iterator
  imports Cell_Union_Search "HOL-Library.Monad_Syntax"
begin

text \<open>
  \<^verbatim>\<open>s2/s2cell_iterator.h\<close>, \<^verbatim>\<open>s2/s2cell_range_iterator.h\<close> and \<^verbatim>\<open>S2CellUnion::Iterator\<close> of
  \<^verbatim>\<open>s2/s2cell_union.h\<close>.  The virtual interface \<open>S2CellIterator\<close> is a record of operations on an
  iterator state; templates over an iterator type take that record.  Reading the id of an iterator
  that is done, or moving it on, is a fault (\<open>None\<close>).  A point enters the model as the leaf cell id
  that \<^verbatim>\<open>S2CellId(point)\<close> computes.
\<close>

datatype S2CellRelation = INDEXED | SUBDIVIDED | DISJOINT

record 'it iterator_ops =
  it_id :: "'it \<Rightarrow> cellid option"
  it_done :: "'it \<Rightarrow> bool"
  it_Begin :: "'it \<Rightarrow> 'it"
  it_Finish :: "'it \<Rightarrow> 'it"
  it_Next :: "'it \<Rightarrow> 'it option"
  it_Prev :: "'it \<Rightarrow> bool \<times> 'it"
  it_Seek :: "cellid \<Rightarrow> 'it \<Rightarrow> 'it"

definition LocateImpl_point :: "'it iterator_ops \<Rightarrow> 'it \<Rightarrow> cellid \<Rightarrow> (bool \<times> 'it) option" where
  "LocateImpl_point ops it target =
     (let it = it_Seek ops target it
      in do { found \<leftarrow> (if \<not> it_done ops it
                        then do { x \<leftarrow> it_id ops it; Some (range_min x \<le> target) } else Some False);
              if found then Some (True, it)
              else let (b, it) = it_Prev ops it
                   in if b then do { x \<leftarrow> it_id ops it; Some (range_max x \<ge> target, it) }
                      else Some (False, it) })"

definition LocateImpl :: "'it iterator_ops \<Rightarrow> 'it \<Rightarrow> cellid \<Rightarrow> (S2CellRelation \<times> 'it) option" where
  "LocateImpl ops it target =
     (let it = it_Seek ops (range_min target) it
      in do { r \<leftarrow> (if \<not> it_done ops it
                    then do { x \<leftarrow> it_id ops it;
                              if x \<ge> target \<and> range_min x \<le> target then Some (Some INDEXED)
                              else if x \<le> range_max target then Some (Some SUBDIVIDED)
                              else Some None }
                    else Some None);
              case r of Some rel \<Rightarrow> Some (rel, it)
              | None \<Rightarrow>
                let (b, it) = it_Prev ops it
                in if b then do { x \<leftarrow> it_id ops it;
                                  Some (if range_max x \<ge> target then INDEXED else DISJOINT, it) }
                   else Some (DISJOINT, it) })"


section \<open>S2CellUnion::Iterator\<close>

record cu_iterator =
  cu_cells :: "cellid list"
  cu_iter :: nat

definition CUI_done :: "cu_iterator \<Rightarrow> bool" where
  "CUI_done it = (cu_iter it = length (cu_cells it))"

definition CUI_id :: "cu_iterator \<Rightarrow> cellid option" where
  "CUI_id it = (if cu_iter it < length (cu_cells it) then Some (cu_cells it ! cu_iter it) else None)"

definition CUI_Begin :: "cu_iterator \<Rightarrow> cu_iterator" where
  "CUI_Begin it = it\<lparr>cu_iter := 0\<rparr>"

definition CUI_Finish :: "cu_iterator \<Rightarrow> cu_iterator" where
  "CUI_Finish it = it\<lparr>cu_iter := length (cu_cells it)\<rparr>"

definition CUI_Next :: "cu_iterator \<Rightarrow> cu_iterator option" where
  "CUI_Next it = (if cu_iter it < length (cu_cells it) then Some (it\<lparr>cu_iter := cu_iter it + 1\<rparr>) else None)"

definition CUI_Prev :: "cu_iterator \<Rightarrow> bool \<times> cu_iterator" where
  "CUI_Prev it = (if cu_iter it = 0 then (False, it) else (True, it\<lparr>cu_iter := cu_iter it - 1\<rparr>))"

definition CUI_Seek :: "cellid \<Rightarrow> cu_iterator \<Rightarrow> cu_iterator" where
  "CUI_Seek target it =
     it\<lparr>cu_iter := length (cu_cells it) - length (lower_bound (<) (cu_cells it) target)\<rparr>"

definition CUI_ops :: "cu_iterator iterator_ops" where
  "CUI_ops = \<lparr>it_id = CUI_id, it_done = CUI_done, it_Begin = CUI_Begin, it_Finish = CUI_Finish,
     it_Next = CUI_Next, it_Prev = CUI_Prev, it_Seek = CUI_Seek\<rparr>"

definition CUI_Locate :: "cu_iterator \<Rightarrow> cellid \<Rightarrow> (S2CellRelation \<times> cu_iterator) option" where
  "CUI_Locate it target = LocateImpl CUI_ops it target"

definition CUI_Locate_point :: "cu_iterator \<Rightarrow> cellid \<Rightarrow> (bool \<times> cu_iterator) option" where
  "CUI_Locate_point it target = LocateImpl_point CUI_ops it target"


section \<open>S2CellRangeIterator\<close>

record 'it range_iterator =
  ri_it :: 'it
  ri_min :: cellid
  ri_max :: cellid

text \<open>\<open>Refresh\<close> reads the id only when the iterator is not done, so it cannot fault on an
  iterator whose \<open>done\<close> and \<open>id\<close> agree; \<open>None\<close> keeps the old range.\<close>

definition Refresh :: "'it iterator_ops \<Rightarrow> 'it range_iterator \<Rightarrow> 'it range_iterator" where
  "Refresh ops r =
     (if it_done ops (ri_it r)
      then r\<lparr>ri_min := range_min cell_Sentinel, ri_max := range_max cell_Sentinel\<rparr>
      else case it_id ops (ri_it r) of
             Some x \<Rightarrow> r\<lparr>ri_min := range_min x, ri_max := range_max x\<rparr>
           | None \<Rightarrow> r)"

definition RI_id :: "'it iterator_ops \<Rightarrow> 'it range_iterator \<Rightarrow> cellid option" where
  "RI_id ops r = it_id ops (ri_it r)"

definition RI_done :: "'it iterator_ops \<Rightarrow> 'it range_iterator \<Rightarrow> bool" where
  "RI_done ops r = it_done ops (ri_it r)"

definition RI_Begin :: "'it iterator_ops \<Rightarrow> 'it range_iterator \<Rightarrow> 'it range_iterator" where
  "RI_Begin ops r = Refresh ops (r\<lparr>ri_it := it_Begin ops (ri_it r)\<rparr>)"

definition S2CellRangeIterator :: "'it iterator_ops \<Rightarrow> 'it \<Rightarrow> 'it range_iterator" where
  "S2CellRangeIterator ops it = RI_Begin ops \<lparr>ri_it = it, ri_min = 0, ri_max = 0\<rparr>"

definition RI_Next :: "'it iterator_ops \<Rightarrow> 'it range_iterator \<Rightarrow> 'it range_iterator option" where
  "RI_Next ops r = do { it \<leftarrow> it_Next ops (ri_it r); Some (Refresh ops (r\<lparr>ri_it := it\<rparr>)) }"

definition RI_Prev :: "'it iterator_ops \<Rightarrow> 'it range_iterator \<Rightarrow> bool \<times> 'it range_iterator" where
  "RI_Prev ops r = (let (status, it) = it_Prev ops (ri_it r) in (status, Refresh ops (r\<lparr>ri_it := it\<rparr>)))"

definition RI_Seek :: "'it iterator_ops \<Rightarrow> cellid \<Rightarrow> 'it range_iterator \<Rightarrow> 'it range_iterator" where
  "RI_Seek ops target r = Refresh ops (r\<lparr>ri_it := it_Seek ops target (ri_it r)\<rparr>)"

definition RI_Finish :: "'it iterator_ops \<Rightarrow> 'it range_iterator \<Rightarrow> 'it range_iterator" where
  "RI_Finish ops r = Refresh ops (r\<lparr>ri_it := it_Finish ops (ri_it r)\<rparr>)"

definition RI_ops :: "'it iterator_ops \<Rightarrow> 'it range_iterator iterator_ops" where
  "RI_ops ops = \<lparr>it_id = RI_id ops, it_done = RI_done ops, it_Begin = RI_Begin ops, it_Finish = RI_Finish ops,
     it_Next = RI_Next ops, it_Prev = RI_Prev ops, it_Seek = RI_Seek ops\<rparr>"

definition RI_Relation :: "'it range_iterator \<Rightarrow> 'b range_iterator \<Rightarrow> int" where
  "RI_Relation a b = (if ri_max a < ri_min b then -1 else if ri_min a > ri_max b then 1 else 0)"

definition RI_Locate_point :: "'it iterator_ops \<Rightarrow> 'it range_iterator \<Rightarrow> cellid \<Rightarrow> (bool \<times> 'it range_iterator) option" where
  "RI_Locate_point ops r target =
     do { (ret, it) \<leftarrow> LocateImpl_point ops (ri_it r) target; Some (ret, Refresh ops (r\<lparr>ri_it := it\<rparr>)) }"

definition RI_Locate :: "'it iterator_ops \<Rightarrow> 'it range_iterator \<Rightarrow> cellid \<Rightarrow> (S2CellRelation \<times> 'it range_iterator) option" where
  "RI_Locate ops r target =
     (let r = RI_Seek ops (range_min target) r
      in do { rel \<leftarrow> (if \<not> RI_done ops r
                      then do { x \<leftarrow> RI_id ops r;
                                if x \<ge> target \<and> ri_min r \<le> target then Some (Some INDEXED)
                                else if x \<le> range_max target then Some (Some SUBDIVIDED)
                                else Some None }
                      else Some None);
              case rel of Some rel \<Rightarrow> Some (rel, r)
              | None \<Rightarrow>
                let (b, r) = RI_Prev ops r
                in if b \<and> ri_max r \<ge> target then Some (INDEXED, r) else Some (DISJOINT, r) })"

definition RI_Locate_range ::
  "'it iterator_ops \<Rightarrow> 'b iterator_ops \<Rightarrow> 'it range_iterator \<Rightarrow> 'b range_iterator \<Rightarrow> (S2CellRelation \<times> 'it range_iterator) option" where
  "RI_Locate_range ops ops2 r target =
     (let r = RI_Seek ops (ri_min target) r
      in do { rel \<leftarrow> (if \<not> RI_done ops r
                      then do { x \<leftarrow> RI_id ops r;
                                t \<leftarrow> RI_id ops2 target;
                                if x \<ge> t \<and> ri_min r \<le> t then Some (Some INDEXED)
                                else if x \<le> ri_max target then Some (Some SUBDIVIDED)
                                else Some None }
                      else Some None);
              case rel of Some rel \<Rightarrow> Some (rel, r)
              | None \<Rightarrow>
                let (b, r) = RI_Prev ops r
                in if b then do { t \<leftarrow> RI_id ops2 target;
                                  Some (if ri_max r \<ge> t then INDEXED else DISJOINT, r) }
                   else Some (DISJOINT, r) })"

definition RI_SeekTo ::
  "'it iterator_ops \<Rightarrow> 'b iterator_ops \<Rightarrow> 'it range_iterator \<Rightarrow> 'b range_iterator \<Rightarrow> 'it range_iterator option" where
  "RI_SeekTo ops ops2 r target =
     (let r = RI_Seek ops (ri_min target) r
      in do { r \<leftarrow> (if RI_done ops r \<or> ri_min r > ri_max target
                    then let (b, r) = RI_Prev ops r
                         in if b then do { t \<leftarrow> RI_id ops2 target;
                                           if ri_max r < t then RI_Next ops r else Some r }
                            else Some r
                    else Some r);
              Some (Refresh ops r) })"

definition RI_SeekBeyond :: "'it iterator_ops \<Rightarrow> 'it range_iterator \<Rightarrow> 'b range_iterator \<Rightarrow> 'it range_iterator option" where
  "RI_SeekBeyond ops r target =
     (let r = RI_Seek ops (cell_next (ri_max target)) r
      in do { r \<leftarrow> (if \<not> RI_done ops r \<and> ri_min r \<le> ri_max target then RI_Next ops r else Some r);
              Some (Refresh ops r) })"

end
