(* ===== verification/Cell_Iterator_Laws.thy ===== *)
theory Cell_Iterator_Laws
  imports Cell_Iterator
begin

text \<open>
  The contract of an \<open>S2CellIterator\<close> as the locale \<open>cell_iterator\<close>: a position in a list of valid
  cells that are sorted and disjoint.  \<open>LocateImpl\<close> is proved correct for every iterator with that
  contract; a range iterator around such an iterator has the contract again and knows the range of
  the current cell.
\<close>


section \<open>Locating a cell in a sorted list of disjoint cells\<close>

definition locate_spec :: "cellid list \<Rightarrow> cellid \<Rightarrow> S2CellRelation \<Rightarrow> nat \<Rightarrow> bool" where
  "locate_spec xs t rel k \<longleftrightarrow>
     (case rel of
        INDEXED \<Rightarrow> k < length xs \<and> cell_contains (xs ! k) t
      | SUBDIVIDED \<Rightarrow> (\<forall>x\<in>set xs. \<not> cell_contains x t) \<and> k < length xs \<and> cell_contains t (xs ! k) \<and>
          (\<forall>j<k. \<not> cell_contains t (xs ! j))
      | DISJOINT \<Rightarrow> \<forall>x\<in>set xs. \<not> cell_intersects x t)"

definition first_from :: "cellid list \<Rightarrow> cellid \<Rightarrow> nat" where
  "first_from xs t = length (takeWhile (\<lambda>x. x < t) xs)"

lemma wf_union_nth:
  assumes "wf_union xs" "i < j" "j < length xs"
  shows "cell_hi (xs ! i) \<le> cell_lo (xs ! j)"
  using assms sorted_wrt_nth_less unfolding wf_union_def by blast

lemma wf_union_nth_valid: "wf_union xs \<Longrightarrow> i < length xs \<Longrightarrow> is_valid (xs ! i)"
  by (simp add: wf_union_def)

lemma wf_union_cells_sorted: "wf_union xs \<Longrightarrow> sorted xs"
  unfolding sorted_iff_nth_mono_less
proof (intro allI impI)
  fix i j assume w: "wf_union xs" and ij: "i < j" "j < length xs"
  have v: "is_valid (xs ! i)" "is_valid (xs ! j)" using w ij by (simp_all add: wf_union_nth_valid)
  then show "xs ! i \<le> xs ! j"
    using wf_union_nth [OF w ij] cell_lo_less_hi [of "xs ! i"] cell_lo_less_hi [of "xs ! j"]
    by (simp add: word_le_nat_alt unat_cell del: cell_lo_less_hi)
qed

lemma first_from_iff: "wf_union xs \<Longrightarrow> i < length xs \<Longrightarrow> xs ! i < t \<longleftrightarrow> i < first_from xs t"
  unfolding first_from_def by (rule sorted_count_iff [OF wf_union_cells_sorted])

lemma first_from_le: "first_from xs t \<le> length xs"
  by (simp add: first_from_def length_takeWhile_le)

text \<open>The comparisons of the code in terms of leaf intervals.\<close>

lemma cell_compare:
  assumes "is_valid x" "is_valid t"
  shows "t \<le> x \<longleftrightarrow> cell_lo t + cell_hi t \<le> cell_lo x + cell_hi x"
    and "range_min x \<le> t \<longleftrightarrow> 2 * cell_lo x + 1 \<le> cell_lo t + cell_hi t"
    and "x \<le> range_max t \<longleftrightarrow> cell_lo x + cell_hi x \<le> 2 * cell_hi t - 1"
    and "x < range_min t \<longleftrightarrow> cell_lo x + cell_hi x < 2 * cell_lo t + 1"
    and "range_max x \<ge> t \<longleftrightarrow> cell_lo t + cell_hi t \<le> 2 * cell_hi x - 1"
    and "range_max x < range_min t \<longleftrightarrow> 2 * cell_hi x - 1 < 2 * cell_lo t + 1"
    and "range_min x \<le> range_max t \<longleftrightarrow> 2 * cell_lo x + 1 \<le> 2 * cell_hi t - 1"
    and "cell_contains x t \<longleftrightarrow> cell_lo x \<le> cell_lo t \<and> cell_hi t \<le> cell_hi x"
    and "cell_intersects x t \<longleftrightarrow> cell_lo x < cell_hi t \<and> cell_lo t < cell_hi x"
proof -
  have c: "is_cell x" "is_cell t" using assms by simp_all
  show "t \<le> x \<longleftrightarrow> cell_lo t + cell_hi t \<le> cell_lo x + cell_hi x"
    "range_min x \<le> t \<longleftrightarrow> 2 * cell_lo x + 1 \<le> cell_lo t + cell_hi t"
    "x \<le> range_max t \<longleftrightarrow> cell_lo x + cell_hi x \<le> 2 * cell_hi t - 1"
    "x < range_min t \<longleftrightarrow> cell_lo x + cell_hi x < 2 * cell_lo t + 1"
    "range_max x \<ge> t \<longleftrightarrow> cell_lo t + cell_hi t \<le> 2 * cell_hi x - 1"
    "range_max x < range_min t \<longleftrightarrow> 2 * cell_hi x - 1 < 2 * cell_lo t + 1"
    "range_min x \<le> range_max t \<longleftrightarrow> 2 * cell_lo x + 1 \<le> 2 * cell_hi t - 1"
    by (simp_all add: word_le_nat_alt word_less_nat_alt unat_cell unat_range_min unat_range_max c)
  show "cell_contains x t \<longleftrightarrow> cell_lo x \<le> cell_lo t \<and> cell_hi t \<le> cell_hi x" by (rule contains_iff [OF c])
  show "cell_intersects x t \<longleftrightarrow> cell_lo x < cell_hi t \<and> cell_lo t < cell_hi x"
  proof -
    have "0 < cell_hi x" "0 < cell_hi t" using cell_lo_less_hi [of x] cell_lo_less_hi [of t] by linarith+
    then show ?thesis
      by (simp add: cell_intersects_def word_le_nat_alt unat_range_min unat_range_max c) linarith
  qed
qed

lemma in_own_range: "is_valid x \<Longrightarrow> range_min x \<le> x \<and> x \<le> range_max x"
  using cell_lo_less_hi [of x] by (simp add: cell_compare del: cell_lo_less_hi)

lemma locate_indexed:
  assumes "is_valid x" "x \<ge> t" "range_min x \<le> t"
  shows "cell_contains x t"
  using assms in_own_range [of x] unfolding cell_contains_def by auto

lemma locate_subdivided:
  assumes "is_valid x" "is_valid t" "\<not> x < range_min t" "x \<le> range_max t" "\<not> (x \<ge> t \<and> range_min x \<le> t)"
  shows "cell_contains t x" "\<not> cell_contains x t"
proof -
  show c: "cell_contains t x" using assms(3,4) by (simp add: cell_contains_def not_less)
  show "\<not> cell_contains x t"
  proof
    assume "cell_contains x t"
    then have "cell_lo x = cell_lo t" "cell_hi x = cell_hi t" using c assms(1,2) by (simp_all add: cell_compare)
    then show False
      using assms(1,2,5) cell_lo_less_hi [of t] by (simp add: cell_compare del: cell_lo_less_hi)
  qed
qed

lemma locate_pred:
  assumes "is_valid x" "is_valid t" "x < range_min t"
  shows "range_max x \<ge> t \<longleftrightarrow> cell_contains x t" "\<not> cell_contains t x"
  using assms in_own_range [of x] in_own_range [of t] unfolding cell_contains_def by auto

text \<open>Only the cells on both sides of the position that \<open>Seek\<close> finds can meet the target.\<close>

lemma meets_only:
  assumes w: "wf_union xs" and t: "is_valid t" and k: "k = first_from xs (range_min t)"
    and j: "j < length xs" and m: "cell_intersects (xs ! j) t"
  shows "j = k - 1 \<and> 0 < k \<and> cell_contains (xs ! j) t \<or>
    k \<le> j \<and> (j = k \<and> cell_contains (xs ! k) t \<or> cell_contains t (xs ! j) \<and> cell_contains t (xs ! k))"
proof (cases "j < k")
  case True
  then have kk: "k - 1 < length xs" "0 < k" using first_from_le [of xs "range_min t"] k by simp_all
  have less: "xs ! (k - 1) < range_min t" "xs ! j < range_min t"
    using first_from_iff [OF w kk(1)] first_from_iff [OF w j] True kk k by simp_all
  have v: "is_valid (xs ! j)" "is_valid (xs ! (k - 1))" using w j kk by (simp_all add: wf_union_nth_valid)
  have c: "cell_contains (xs ! j) t"
    using less(2) m v t laminar [of "xs ! j" t] cell_lo_less_hi [of "xs ! j"] cell_lo_less_hi [of t]
    by (simp add: cell_compare del: cell_lo_less_hi)
  have "j = k - 1"
  proof (rule ccontr)
    assume "j \<noteq> k - 1"
    then have "j < k - 1" using True by simp
    then have "cell_hi (xs ! j) \<le> cell_lo (xs ! (k - 1))" using wf_union_nth [OF w _ kk(1)] by blast
    then show False
      using c less(1) v t cell_lo_less_hi [of "xs ! (k - 1)"] cell_lo_less_hi [of t]
      by (simp add: cell_compare del: cell_lo_less_hi)
  qed
  then show ?thesis using c kk by simp
next
  case False
  have k': "k < length xs" using False j by simp
  have v: "is_valid (xs ! j)" "is_valid (xs ! k)" using w j k' by (simp_all add: wf_union_nth_valid)
  have ge: "\<not> xs ! j < range_min t" "\<not> xs ! k < range_min t"
    using first_from_iff [OF w j] first_from_iff [OF w k'] False k by simp_all
  have "j = k \<or> cell_hi (xs ! k) \<le> cell_lo (xs ! j)" using wf_union_nth [OF w _ j, of k] False by fastforce
  then have "j = k \<and> cell_contains (xs ! k) t \<or> cell_contains t (xs ! j) \<and> cell_contains t (xs ! k)"
    using m ge v t laminar [of "xs ! j" t] laminar [of "xs ! k" t]
      cell_lo_less_hi [of "xs ! j"] cell_lo_less_hi [of t] cell_lo_less_hi [of "xs ! k"]
    by (simp add: cell_compare del: cell_lo_less_hi) (elim disjE; auto simp del: cell_lo_less_hi)
  then show ?thesis using False by simp
qed

lemma contains_intersects: "is_valid x \<Longrightarrow> is_valid t \<Longrightarrow> cell_contains x t \<or> cell_contains t x \<Longrightarrow> cell_intersects x t"
  using cell_lo_less_hi [of x] cell_lo_less_hi [of t]
  by (auto simp: cell_compare simp del: cell_lo_less_hi)

lemma contains_unique:
  assumes w: "wf_union xs" and ij: "i < length xs" "j < length xs"
    and t: "is_valid t" and c: "cell_contains (xs ! i) t" "cell_intersects (xs ! j) t"
  shows "i = j"
proof (rule ccontr)
  assume "i \<noteq> j"
  then have "cell_hi (xs ! i) \<le> cell_lo (xs ! j) \<or> cell_hi (xs ! j) \<le> cell_lo (xs ! i)"
    using wf_union_nth [OF w] ij by (meson nat_neq_iff)
  then show False
    using c t wf_union_nth_valid [OF w ij(1)] wf_union_nth_valid [OF w ij(2)] by (auto simp: cell_compare)
qed


lemma leaf_range:
  assumes "is_valid t" "is_leaf t"
  shows "range_min t = t" "range_max t = t"
  using assms by (elim cell_span_at_cases; simp add: cell_simps)+


definition first_such :: "(cellid \<Rightarrow> bool) \<Rightarrow> cellid list \<Rightarrow> nat \<Rightarrow> bool" where
  "first_such P xs k \<longleftrightarrow> k \<le> length xs \<and> (\<forall>j<k. \<not> P (xs ! j)) \<and> (k < length xs \<longrightarrow> P (xs ! k))"

text \<open>What \<open>SeekTo\<close> and \<open>SeekBeyond\<close> decide, on the list.\<close>

lemma seek_to_stay:
  assumes w: "wf_union xs" and t: "is_valid t" and k: "k = first_from xs (range_min t)" "k < length xs"
    and r: "range_min (xs ! k) \<le> range_max t"
  shows "first_such (\<lambda>x. range_max x \<ge> range_min t) xs k"
  unfolding first_such_def
proof (intro conjI allI impI)
  have kv: "is_valid (xs ! k)" "\<not> xs ! k < range_min t"
    using w k first_from_iff [OF w k(2), of "range_min t"] by (simp_all add: wf_union_nth_valid)
  show "range_max (xs ! k) \<ge> range_min t" using kv in_own_range [OF kv(1)] by (meson not_less order_trans)
  fix j assume j: "j < k"
  then have jl: "j < length xs" using k by simp
  have jv: "is_valid (xs ! j)" "xs ! j < range_min t"
    using w j jl first_from_iff [OF w jl, of "range_min t"] k by (simp_all add: wf_union_nth_valid)
  have "cell_hi (xs ! j) \<le> cell_lo (xs ! k)" by (rule wf_union_nth [OF w j k(2)])
  then show "\<not> range_max (xs ! j) \<ge> range_min t"
    using r jv kv(1) t laminar [of "xs ! j" t] cell_lo_less_hi [of "xs ! j"] cell_lo_less_hi [of "xs ! k"] cell_lo_less_hi [of t]
    by (auto simp: cell_compare not_le simp del: cell_lo_less_hi)
qed (use k in simp)

lemma seek_to_back:
  assumes w: "wf_union xs" and t: "is_valid t" and k: "k = first_from xs (range_min t)"
    and r: "k < length xs \<Longrightarrow> range_min (xs ! k) > range_max t"
  shows "first_such (\<lambda>x. range_max x \<ge> range_min t) xs (if 0 < k \<and> \<not> range_max (xs ! (k - 1)) < t then k - 1 else k)"
proof -
  have le: "k \<le> length xs" using k by (simp add: first_from_le)
  have up: "range_max (xs ! k) \<ge> range_min t" if kl: "k < length xs"
    using r [OF kl] in_own_range [OF t] in_own_range [OF wf_union_nth_valid [OF w kl]]
    by (meson less_le_trans order_trans less_imp_le)
  have low: "cell_hi (xs ! j) \<le> cell_lo t \<longrightarrow> range_max (xs ! j) < range_min t" if "j < k" for j
  proof -
    have jl: "j < length xs" using that le by simp
    have "2 * cell_hi (xs ! j) - 1 < 2 * cell_lo t + 1" if "cell_hi (xs ! j) \<le> cell_lo t" using that by linarith
    then show ?thesis using wf_union_nth_valid [OF w jl] t by (simp add: cell_compare)
  qed
  have hi: "cell_hi (xs ! j) \<le> cell_lo t" if jk: "j < k" and n: "j < k - 1 \<or> \<not> t \<le> range_max (xs ! (k - 1))" for j
  proof -
    have jl: "j < length xs" and kl: "k - 1 < length xs" using jk le by simp_all
    have v: "is_valid (xs ! j)" "is_valid (xs ! (k - 1))" using w jl kl by (simp_all add: wf_union_nth_valid)
    have lt: "xs ! (k - 1) < range_min t" using first_from_iff [OF w kl, of "range_min t"] jk k by simp
    have ord: "j = k - 1 \<or> cell_hi (xs ! j) \<le> cell_lo (xs ! (k - 1))"
      using wf_union_nth [OF w _ kl, of j] jk by linarith
    show ?thesis
      using ord n lt v t laminar [of "xs ! (k - 1)" t]
        cell_lo_less_hi [of "xs ! j"] cell_lo_less_hi [of "xs ! (k - 1)"] cell_lo_less_hi [of t]
      by (auto simp: cell_compare simp del: cell_lo_less_hi not_le)
  qed
  have last: "range_max (xs ! (k - 1)) \<ge> range_min t" if "0 < k" "\<not> range_max (xs ! (k - 1)) < t"
    using that in_own_range [OF t] by (meson not_less order_trans)
  show ?thesis
    using le up last low hi by (auto simp: first_such_def not_le)
qed

lemma less_next_range_max:
  assumes "is_valid x" "is_valid t"
  shows "x < cell_next (range_max t) \<longleftrightarrow> cell_lo x + cell_hi x < 2 * cell_hi t + 1"
proof -
  have "unat (cell_next (range_max t)) = 2 * cell_hi t + 1"
    using assms(2)
  proof (cases rule: cell_span_at_cases)
    case (1 l q)
    have "q + 1 \<le> 6 * 4 ^ l" using 1(2) by simp
    then have "(q + 1) * 4 ^ (30 - l) \<le> 6 * 4 ^ l * (4::nat) ^ (30 - l)" by (rule mult_le_mono1)
    moreover have "6 * 4 ^ l * (4::nat) ^ (30 - l) = 6 * 4 ^ 30" using 1(1) by (simp flip: power_add)
    ultimately have p: "(q + 1) * 4 ^ (30 - l) \<le> 6 * (4::nat) ^ 30" "0 < (q + 1) * (4::nat) ^ (30 - l)" by simp_all
    then have m: "(q + 1) * 4 ^ (30 - l) - 1 < 7 * (4::nat) ^ 30" "(q + 1) * 4 ^ (30 - l) < 7 * (4::nat) ^ 30"
      "(q + 1) * 4 ^ (30 - l) - 1 + 1 = (q + 1) * (4::nat) ^ (30 - l)" by linarith+
    have "cell_next (range_max t) = cell_at 30 ((q + 1) * 4 ^ (30 - l))"
      unfolding 1(4) range_max_at [OF 1(1,3)] cell_next_at [OF order_refl m(1)] m(3) by (rule refl)
    then show ?thesis using unat_cell_at [OF order_refl m(2)] 1 by (simp add: span_at)
  qed
  then show ?thesis using assms by (simp add: word_less_nat_alt unat_cell)
qed

lemma seek_beyond:
  assumes w: "wf_union xs" and t: "is_valid t" and k: "k = first_from xs (cell_next (range_max t))"
  shows "first_such (\<lambda>x. range_min x > range_max t) xs
    (if k < length xs \<and> range_min (xs ! k) \<le> range_max t then k + 1 else k)"
proof -
  have le: "k \<le> length xs" using k by (simp add: first_from_le)
  have below: "\<not> range_min (xs ! j) > range_max t" if "j < k" for j
  proof -
    have jl: "j < length xs" using that le by simp
    have v: "is_valid (xs ! j)" "xs ! j < cell_next (range_max t)"
      using w jl that first_from_iff [OF w jl] by (simp_all add: wf_union_nth_valid k)
    have "cell_lo (xs ! j) < cell_hi t" using v t cell_lo_less_hi [of "xs ! j"]
      by (simp add: less_next_range_max del: cell_lo_less_hi)
    then show ?thesis using v(1) t by (simp add: cell_compare not_less)
  qed
  have after: "range_min (xs ! (k + 1)) > range_max t" if "k + 1 < length xs"
  proof -
    have v: "is_valid (xs ! k)" "is_valid (xs ! (k + 1))" "\<not> xs ! k < cell_next (range_max t)"
      using w that first_from_iff [OF w, of k] by (simp_all add: wf_union_nth_valid k)
    have "cell_hi t \<le> cell_lo (xs ! (k + 1))"
      using v t wf_union_nth [OF w, of k "k + 1"] that cell_lo_less_hi [of "xs ! k"]
      by (simp add: less_next_range_max del: cell_lo_less_hi)
    then have "\<not> range_min (xs ! (k + 1)) \<le> range_max t" using v t by (simp add: cell_compare)
    then show ?thesis by simp
  qed
  show ?thesis
    using le below after by (auto simp: first_such_def not_le less_Suc_eq)
qed


section \<open>The contract\<close>

definition ri_good :: "'it iterator_ops \<Rightarrow> ('it \<Rightarrow> bool) \<Rightarrow> 'it range_iterator \<Rightarrow> bool" where
  "ri_good ops good r \<longleftrightarrow> good (ri_it r) \<and> Refresh ops r = r"

lemma Refresh_it [simp]: "ri_it (Refresh ops r) = ri_it r"
  by (simp add: Refresh_def split: option.split)

lemma Refresh_Refresh [simp]: "Refresh ops (Refresh ops r) = Refresh ops r"
  by (simp add: Refresh_def split: option.split)

lemma ri_good_Refresh [simp]: "ri_good ops good (Refresh ops r) = good (ri_it r)"
  by (simp add: ri_good_def)

locale cell_iterator =
  fixes ops :: "'it iterator_ops"
    and good :: "'it \<Rightarrow> bool"
    and cells :: "cellid list"
    and at :: "'it \<Rightarrow> nat"
  assumes wf_cells: "good it \<Longrightarrow> wf_union cells"
    and at_le: "good it \<Longrightarrow> at it \<le> length cells"
    and done_at: "good it \<Longrightarrow> it_done ops it \<longleftrightarrow> at it = length cells"
    and id_at: "good it \<Longrightarrow> at it < length cells \<Longrightarrow> it_id ops it = Some (cells ! at it)"
    and good_Begin: "good it \<Longrightarrow> good (it_Begin ops it)"
    and at_Begin: "good it \<Longrightarrow> at (it_Begin ops it) = 0"
    and good_Finish: "good it \<Longrightarrow> good (it_Finish ops it)"
    and at_Finish: "good it \<Longrightarrow> at (it_Finish ops it) = length cells"
    and Next_at: "good it \<Longrightarrow> at it < length cells \<Longrightarrow>
      \<exists>it'. it_Next ops it = Some it' \<and> good it' \<and> at it' = at it + 1"
    and Prev_moves: "good it \<Longrightarrow> fst (it_Prev ops it) \<longleftrightarrow> 0 < at it"
    and good_Prev: "good it \<Longrightarrow> good (snd (it_Prev ops it))"
    and at_Prev: "good it \<Longrightarrow> at (snd (it_Prev ops it)) = at it - 1"
    and good_Seek: "good it \<Longrightarrow> good (it_Seek ops t it)"
    and at_Seek: "good it \<Longrightarrow> at (it_Seek ops t it) = first_from cells t"
begin

lemmas moves = done_at id_at good_Begin at_Begin good_Finish at_Finish good_Prev at_Prev good_Seek at_Seek

lemma Prev_cases:
  assumes "good it"
  obtains "at it = 0" "\<exists>it'. it_Prev ops it = (False, it') \<and> good it' \<and> at it' = 0"
  | it' where "0 < at it" "it_Prev ops it = (True, it')" "good it'" "at it' = at it - 1"
    "it_id ops it' = Some (cells ! (at it - 1))"
proof (cases "0 < at it")
  case True
  then have "at it - 1 < length cells" using at_le [OF assms] by linarith
  then show thesis
    using that(2) [of "snd (it_Prev ops it)"] True Prev_moves [OF assms] good_Prev [OF assms] at_Prev [OF assms]
      id_at [OF good_Prev [OF assms]] by (cases "it_Prev ops it") simp
next
  case False
  then show thesis
    using that(1) Prev_moves [OF assms] good_Prev [OF assms] at_Prev [OF assms] by (cases "it_Prev ops it") simp
qed

lemma Locate_correct:
  assumes g: "good it" and t: "is_valid t"
  shows "\<exists>rel it'. LocateImpl ops it t = Some (rel, it') \<and> good it' \<and> locate_spec cells t rel (at it')"
proof -
  define s where "s = it_Seek ops (range_min t) it"
  define k where "k = first_from cells (range_min t)"
  have w: "wf_union cells" by (rule wf_cells [OF g])
  have s: "good s" "at s = k" by (simp_all add: s_def k_def g moves)
  have meets: "j = k - 1 \<and> 0 < k \<and> cell_contains (cells ! j) t \<or>
    k \<le> j \<and> (j = k \<and> cell_contains (cells ! k) t \<or> cell_contains t (cells ! j) \<and> cell_contains t (cells ! k))"
    if "j < length cells" "cell_intersects (cells ! j) t" for j
    using meets_only [OF w t k_def that] .
  consider (here) "k < length cells" "cells ! k \<ge> t \<and> range_min (cells ! k) \<le> t"
    | (below) "k < length cells" "\<not> (cells ! k \<ge> t \<and> range_min (cells ! k) \<le> t)" "cells ! k \<le> range_max t"
    | (before) "k = length cells \<or> \<not> (cells ! k \<ge> t \<and> range_min (cells ! k) \<le> t) \<and> \<not> cells ! k \<le> range_max t"
    using at_le [OF s(1)] s(2) by fastforce
  then show ?thesis
  proof cases
    case here
    then have "LocateImpl ops it t = Some (INDEXED, s)"
      using s by (simp add: LocateImpl_def s_def [symmetric] Let_def moves)
    moreover have "cell_contains (cells ! k) t"
      using here w by (simp add: locate_indexed wf_union_nth_valid)
    ultimately show ?thesis using s here by (simp add: locate_spec_def)
  next
    case below
    then have "LocateImpl ops it t = Some (SUBDIVIDED, s)"
      using s by (simp add: LocateImpl_def s_def [symmetric] Let_def moves del: de_Morgan_conj not_le)
    moreover have kv: "is_valid (cells ! k)" "\<not> cells ! k < range_min t"
      using below w first_from_iff [OF w below(1), of "range_min t"] by (simp_all add: wf_union_nth_valid k_def)
    then have c: "cell_contains t (cells ! k)" "\<not> cell_contains (cells ! k) t"
      using locate_subdivided [OF kv(1) t kv(2) below(3,2)] by blast+
    moreover have "\<not> cell_contains (cells ! j) t" if j: "j < length cells" for j
      using contains_unique [OF w j below(1) t] contains_intersects [OF kv(1) t] c by blast
    moreover have "\<not> cell_contains t (cells ! j)" if j: "j < k" for j
    proof
      assume "cell_contains t (cells ! j)"
      moreover have jl: "j < length cells" using j below by simp
      ultimately have "cell_contains (cells ! j) t"
        using meets [OF jl] contains_intersects [OF wf_union_nth_valid [OF w jl] t] j by auto
      then show False
        using contains_unique [OF w jl below(1) t] contains_intersects [OF kv(1) t] c j by blast
    qed
    ultimately show ?thesis using s below by (auto simp: locate_spec_def in_set_conv_nth)
  next
    case before
    have out: "\<not> (cells ! k \<ge> t \<and> range_min (cells ! k) \<le> t)" "\<not> cells ! k \<le> range_max t" if "k < length cells"
      using before that by blast+
    have off: "LocateImpl ops it t =
      (let (b, it') = it_Prev ops s
       in if b then do { x \<leftarrow> it_id ops it'; Some (if range_max x \<ge> t then INDEXED else DISJOINT, it') }
          else Some (DISJOINT, it'))"
      using s out at_le [OF s(1)]
      by (cases "k = length cells")
         (simp_all add: LocateImpl_def s_def [symmetric] Let_def moves del: de_Morgan_conj not_le)
    have only: "j = k - 1 \<and> 0 < k \<and> cell_contains (cells ! j) t"
      if j: "j < length cells" "cell_intersects (cells ! j) t" for j
    proof -
      have "\<not> k \<le> j \<or> \<not> cell_contains (cells ! k) t \<and> \<not> cell_contains t (cells ! k)"
        using out j(1) in_own_range [OF t] unfolding cell_contains_def
        by (meson le_less_trans linear order_trans)
      then show ?thesis using meets [OF j] by blast
    qed
    show ?thesis
    proof (cases rule: Prev_cases [OF s(1)])
      case 1
      then show ?thesis using only s by (auto simp: off locate_spec_def in_set_conv_nth)
    next
      case (2 it')
      define x where "x = cells ! (k - 1)"
      have k1: "k - 1 < length cells" "0 < k" using 2 s at_le [OF s(1)] by simp_all
      have x: "is_valid x" "x < range_min t"
        using wf_union_nth_valid [OF w k1(1)] first_from_iff [OF w k1(1), of "range_min t"] k1 by (simp_all add: x_def k_def)
      have r: "LocateImpl ops it t = Some (if range_max x \<ge> t then INDEXED else DISJOINT, it')"
        using 2 s by (simp add: off x_def)
      show ?thesis
      proof (cases "cell_contains x t")
        case True
        then show ?thesis
          using r locate_pred(1) [OF x(1) t x(2)] 2 s k1 by (simp add: locate_spec_def x_def)
      next
        case False
        then have "\<forall>y\<in>set cells. \<not> cell_intersects y t"
          using only by (auto simp: in_set_conv_nth x_def)
        then show ?thesis
          using r False locate_pred(1) [OF x(1) t x(2)] 2 by (simp add: locate_spec_def)
      qed
    qed
  qed
qed

lemma Locate_point_correct:
  assumes g: "good it" and t: "is_valid t" "is_leaf t"
  shows "\<exists>b it'. LocateImpl_point ops it t = Some (b, it') \<and> good it' \<and>
    (b \<longleftrightarrow> (\<exists>x\<in>set cells. cell_contains x t)) \<and> (b \<longrightarrow> at it' < length cells \<and> cell_contains (cells ! at it') t)"
proof -
  have leaf: "range_min t = t" "range_max t = t" using leaf_range [OF t] by simp_all
  define s where "s = it_Seek ops t it"
  have s: "good s" "at s = first_from cells t" by (simp_all add: s_def g moves)
  have ge: "t \<le> cells ! at s" if "at s < length cells"
    using first_from_iff [OF wf_cells [OF g] that, of t] s by simp
  have eq: "LocateImpl_point ops it t = map_option (\<lambda>(rel, it'). (rel = INDEXED, it')) (LocateImpl ops it t)"
  proof (cases "at s < length cells")
    case True
    then show ?thesis
      using s ge leaf by (auto simp: LocateImpl_point_def LocateImpl_def s_def [symmetric] Let_def moves
          split: prod.split option.split bind_split)
  next
    case False
    then have fin: "it_done ops s" using s at_le [OF s(1)] moves(1) [OF s(1)] by simp
    show ?thesis
    proof (cases rule: Prev_cases [OF s(1)])
      case 1
      then show ?thesis
        using fin leaf by (auto simp: LocateImpl_point_def LocateImpl_def s_def [symmetric] Let_def)
    next
      case (2 it')
      then show ?thesis
        using fin leaf by (simp add: LocateImpl_point_def LocateImpl_def s_def [symmetric] Let_def)
    qed
  qed
  from Locate_correct [OF g t(1)] obtain rel it' where
    r: "LocateImpl ops it t = Some (rel, it')" "good it'" "locate_spec cells t rel (at it')" by blast
  have none: "\<forall>x\<in>set cells. \<not> cell_contains x t" if "rel \<noteq> INDEXED"
    using that r(3) contains_intersects wf_cells [OF g] t
    by (cases rel) (auto simp: locate_spec_def wf_union_def)
  have ex: "rel = INDEXED \<longleftrightarrow> (\<exists>x\<in>set cells. cell_contains x t)"
    using none r(3) by (cases "rel = INDEXED") (auto simp: locate_spec_def)
  show ?thesis
    using r ex by (auto simp: eq locate_spec_def)
qed

text \<open>A range iterator around such an iterator is such an iterator.\<close>

lemma ri_contract: "cell_iterator (RI_ops ops) (ri_good ops good) cells (\<lambda>r. at (ri_it r))"
proof (rule cell_iterator.intro, goal_cases)
  case (1 r) then show ?case using wf_cells [of "ri_it r"] by (simp add: ri_good_def)
next
  case (2 r) then show ?case using at_le [of "ri_it r"] by (simp add: ri_good_def)
next
  case (3 r) then show ?case by (simp add: ri_good_def RI_ops_def RI_done_def moves)
next
  case (4 r) then show ?case by (simp add: ri_good_def RI_ops_def RI_id_def moves)
next
  case (5 r) then show ?case using good_Begin by (simp add: RI_ops_def RI_Begin_def ri_good_def)
next
  case (6 r) then show ?case using at_Begin by (simp add: RI_ops_def RI_Begin_def ri_good_def)
next
  case (7 r) then show ?case using good_Finish by (simp add: RI_ops_def RI_Finish_def ri_good_def)
next
  case (8 r) then show ?case using at_Finish by (simp add: RI_ops_def RI_Finish_def ri_good_def)
next
  case (9 r)
  then have g: "good (ri_it r)" by (simp add: ri_good_def)
  then show ?case
    using Next_at [OF g 9(2)] by (fastforce simp: RI_ops_def RI_Next_def ri_good_def)
next
  case (10 r)
  then show ?case
    using Prev_moves by (simp add: RI_ops_def RI_Prev_def ri_good_def split_def Let_def)
next
  case (11 r)
  then show ?case using good_Prev by (simp add: RI_ops_def RI_Prev_def ri_good_def split_def Let_def)
next
  case (12 r)
  then show ?case using at_Prev by (simp add: RI_ops_def RI_Prev_def ri_good_def split_def Let_def)
next
  case (13 r t)
  then show ?case using good_Seek by (simp add: RI_ops_def RI_Seek_def ri_good_def)
next
  case (14 r t)
  then show ?case using at_Seek by (simp add: RI_ops_def RI_Seek_def ri_good_def)
qed

lemma ri_range:
  assumes "ri_good ops good r" "at (ri_it r) < length cells"
  shows "ri_min r = range_min (cells ! at (ri_it r))" "ri_max r = range_max (cells ! at (ri_it r))"
    "RI_id ops r = Some (cells ! at (ri_it r))" "\<not> RI_done ops r"
proof -
  have g: "good (ri_it r)" "Refresh ops r = r" using assms by (simp_all add: ri_good_def)
  have "Refresh ops r = r\<lparr>ri_min := range_min (cells ! at (ri_it r)), ri_max := range_max (cells ! at (ri_it r))\<rparr>"
    using g(1) assms(2) by (simp add: Refresh_def moves)
  then have "r = r\<lparr>ri_min := range_min (cells ! at (ri_it r)), ri_max := range_max (cells ! at (ri_it r))\<rparr>"
    using g(2) by simp
  then show "ri_min r = range_min (cells ! at (ri_it r))" "ri_max r = range_max (cells ! at (ri_it r))"
    by (metis range_iterator.select_convs range_iterator.surjective range_iterator.update_convs)+
  show "RI_id ops r = Some (cells ! at (ri_it r))" "\<not> RI_done ops r"
    using g(1) assms(2) by (simp_all add: RI_id_def RI_done_def moves)
qed

lemma ri_done: "ri_good ops good r \<Longrightarrow> RI_done ops r \<longleftrightarrow> at (ri_it r) = length cells"
  by (simp add: ri_good_def RI_done_def moves)

lemma RI_Seek_good:
  assumes "ri_good ops good r"
  shows "ri_good ops good (RI_Seek ops t r)" "at (ri_it (RI_Seek ops t r)) = first_from cells t"
  using assms by (simp_all add: ri_good_def RI_Seek_def moves)

lemma RI_Prev_good:
  assumes "ri_good ops good r" "RI_Prev ops r = (b, r')"
  shows "ri_good ops good r'" "at (ri_it r') = at (ri_it r) - 1" "b \<longleftrightarrow> 0 < at (ri_it r)"
  using assms Prev_moves [of "ri_it r"] by (auto simp: ri_good_def RI_Prev_def split_def Let_def moves)

lemma range_iterator_good:
  assumes "good it"
  shows "ri_good ops good (S2CellRangeIterator ops it)" "at (ri_it (S2CellRangeIterator ops it)) = 0"
  using assms by (simp_all add: S2CellRangeIterator_def RI_Begin_def moves)

lemma RI_Next_good:
  assumes "ri_good ops good r" "at (ri_it r) < length cells"
  shows "\<exists>r'. RI_Next ops r = Some r' \<and> ri_good ops good r' \<and> at (ri_it r') = at (ri_it r) + 1"
  using assms Next_at [of "ri_it r"] by (fastforce simp: ri_good_def RI_Next_def)

text \<open>The specialised \<open>Locate\<close> of a range iterator is \<open>LocateImpl\<close>.\<close>

lemma RI_Locate_eq:
  assumes g: "ri_good ops good r"
  shows "RI_Locate ops r t = LocateImpl (RI_ops ops) r t"
proof -
  define s where "s = RI_Seek ops (range_min t) r"
  obtain b p where p: "RI_Prev ops s = (b, p)" by fastforce
  have s: "ri_good ops good s" using RI_Seek_good [OF g] by (simp add: s_def)
  have pg: "ri_good ops good p" "at (ri_it p) = at (ri_it s) - 1" "b \<longleftrightarrow> 0 < at (ri_it s)"
    using RI_Prev_good [OF s p] by blast+
  have le: "at (ri_it s) \<le> length cells" using s at_le by (simp add: ri_good_def)
  have tail: "(if b \<and> t \<le> ri_max p then Some (INDEXED, p) else Some (DISJOINT, p)) =
    (if b then do { x \<leftarrow> RI_id ops p; Some (if range_max x \<ge> t then INDEXED else DISJOINT, p) } else Some (DISJOINT, p))"
    using ri_range [OF pg(1)] pg le by simp
  show ?thesis
    using ri_range [OF s] p le ri_done [OF s] tail
    by (cases "at (ri_it s) = length cells")
       (simp_all add: RI_Locate_def LocateImpl_def RI_ops_def s_def [symmetric])
qed

lemma RI_Locate_range_eq:
  assumes "ri_min u = range_min t" "ri_max u = range_max t" "RI_id ops2 u = Some t"
  shows "RI_Locate_range ops ops2 r u = RI_Locate ops r t"
  using assms
  by (auto simp: RI_Locate_range_def RI_Locate_def Let_def cong: if_cong option.case_cong split: prod.split)

lemma wf_ri: "ri_good ops good r \<Longrightarrow> wf_union cells"
  using wf_cells [of "ri_it r"] by (simp add: ri_good_def)

lemma Refresh_good: "ri_good ops good r \<Longrightarrow> Refresh ops r = r"
  by (simp add: ri_good_def)

lemma SeekTo_correct:
  assumes g: "ri_good ops good r" and t: "is_valid t"
    and u: "ri_min u = range_min t" "ri_max u = range_max t" "RI_id ops2 u = Some t"
  shows "\<exists>r'. RI_SeekTo ops ops2 r u = Some r' \<and> ri_good ops good r' \<and>
    first_such (\<lambda>x. range_max x \<ge> range_min t) cells (at (ri_it r'))"
proof -
  define s where "s = RI_Seek ops (range_min t) r"
  obtain b p where p: "RI_Prev ops s = (b, p)" by fastforce
  have s: "ri_good ops good s" "at (ri_it s) = first_from cells (range_min t)"
    using RI_Seek_good [OF g] by (simp_all add: s_def)
  have w: "wf_union cells" by (rule wf_ri [OF g])
  have pg: "ri_good ops good p" "at (ri_it p) = at (ri_it s) - 1" "b \<longleftrightarrow> 0 < at (ri_it s)"
    using RI_Prev_good [OF s(1) p] by blast+
  have le: "at (ri_it s) \<le> length cells" using s(1) at_le by (simp add: ri_good_def)
  show ?thesis
  proof (cases "at (ri_it s) < length cells \<and> range_min (cells ! at (ri_it s)) \<le> range_max t")
    case True
    then have "RI_SeekTo ops ops2 r u = Some s"
      using ri_range [OF s(1)] s u by (auto simp: RI_SeekTo_def s_def [symmetric] Refresh_good not_less)
    then show ?thesis using s seek_to_stay [OF w t s(2)] True by simp
  next
    case False
    then have rear: "RI_done ops s \<or> ri_min s > ri_max u"
      using ri_range [OF s(1)] ri_done [OF s(1)] le u by (cases "at (ri_it s) = length cells") simp_all
    have far: "at (ri_it s) < length cells \<Longrightarrow> range_min (cells ! at (ri_it s)) > range_max t" using False by simp
    show ?thesis
    proof (cases "at (ri_it s) = 0")
      case True
      then have "RI_SeekTo ops ops2 r u = Some p"
        using rear pg u by (simp add: RI_SeekTo_def s_def [symmetric] Refresh_good p)
      then show ?thesis using seek_to_back [OF w t s(2) far] pg True by simp
    next
      case False
      have k1: "at (ri_it p) < length cells" using pg(2) le False by simp
      obtain q where q: "RI_Next ops p = Some q" "ri_good ops good q" "at (ri_it q) = at (ri_it s)"
        using RI_Next_good [OF pg(1) k1] pg(2) False by auto
      have "RI_SeekTo ops ops2 r u = Some (if range_max (cells ! (at (ri_it s) - 1)) < t then q else p)"
        using rear False pg u q ri_range [OF pg(1) k1]
        by (simp add: RI_SeekTo_def s_def [symmetric] Refresh_good p)
      then show ?thesis using seek_to_back [OF w t s(2) far] False q pg by (auto split: if_splits)
    qed
  qed
qed

lemma SeekBeyond_correct:
  assumes g: "ri_good ops good r" and t: "is_valid t" and u: "ri_max u = range_max t"
  shows "\<exists>r'. RI_SeekBeyond ops r u = Some r' \<and> ri_good ops good r' \<and>
    first_such (\<lambda>x. range_min x > range_max t) cells (at (ri_it r'))"
proof -
  define s where "s = RI_Seek ops (cell_next (range_max t)) r"
  have s: "ri_good ops good s" "at (ri_it s) = first_from cells (cell_next (range_max t))"
    using RI_Seek_good [OF g] by (simp_all add: s_def)
  have w: "wf_union cells" by (rule wf_ri [OF g])
  have le: "at (ri_it s) \<le> length cells" using s(1) at_le by (simp add: ri_good_def)
  show ?thesis
  proof (cases "at (ri_it s) < length cells \<and> range_min (cells ! at (ri_it s)) \<le> range_max t")
    case True
    obtain q where q: "RI_Next ops s = Some q" "ri_good ops good q" "at (ri_it q) = at (ri_it s) + 1"
      using RI_Next_good [OF s(1)] True by auto
    have "RI_SeekBeyond ops r u = Some q"
      using True ri_range [OF s(1)] q u by (simp add: RI_SeekBeyond_def s_def [symmetric] Refresh_good)
    then show ?thesis using seek_beyond [OF w t s(2)] True q by simp
  next
    case False
    then have "RI_SeekBeyond ops r u = Some s"
      using ri_range [OF s(1)] ri_done [OF s(1)] s le u
      by (cases "at (ri_it s) = length cells") (simp_all add: RI_SeekBeyond_def s_def [symmetric] Refresh_good)
    then show ?thesis using seek_beyond [OF w t s(2)] False s by auto
  qed
qed

end


section \<open>The iterators of the library\<close>

definition cui_good :: "cellid list \<Rightarrow> cu_iterator \<Rightarrow> bool" where
  "cui_good cells it \<longleftrightarrow> wf_union cells \<and> cu_cells it = cells \<and> cu_iter it \<le> length cells"

lemma length_dropWhile_eq: "length xs - length (dropWhile P xs) = length (takeWhile P xs)"
  by (metis add_diff_cancel_right' length_append takeWhile_dropWhile_id)

lemma CUI_Seek_first: "cu_iter (CUI_Seek t it) = first_from (cu_cells it) t"
  by (simp add: CUI_Seek_def first_from_def lower_bound_def length_dropWhile_eq)

interpretation cui: cell_iterator CUI_ops "cui_good cells" cells cu_iter for cells
proof
qed (auto simp: cui_good_def CUI_ops_def CUI_done_def CUI_id_def CUI_Begin_def CUI_Finish_def CUI_Next_def CUI_Prev_def
  CUI_Seek_first CUI_Seek_def lower_bound_def length_dropWhile_eq first_from_def length_takeWhile_le)

interpretation cui_range: cell_iterator "RI_ops CUI_ops" "ri_good CUI_ops (cui_good cells)" cells "\<lambda>r. cu_iter (ri_it r)"
  for cells
  by (rule cui.ri_contract)

end
