(* ===== verification/Cell_Iterator_Properties.thy ===== *)
theory Cell_Iterator_Properties
  imports Cell_Iterator_Laws
begin

text \<open>
  The properties of \<open>S2CellUnion::Iterator\<close> and of an \<open>S2CellRangeIterator\<close> around it.
\<close>

text \<open>C11: on a cell union of sorted disjoint cells, \<open>Locate\<close> of any valid cell never reads past the
  end; from every position of the iterator it answers \<open>INDEXED\<close> and stops at the cell that contains
  the target, or, when no cell contains it, \<open>SUBDIVIDED\<close> and stops at the first cell inside it, or
  \<open>DISJOINT\<close> when none meets it.  \<open>Locate\<close> of a point is true exactly when some cell contains the
  leaf of the point, and stops at that cell.\<close>

theorem Locate_meets_spec:
  assumes "cui_good cells it" and "is_valid t"
  shows "(\<exists>rel it'. CUI_Locate it t = Some (rel, it') \<and> cui_good cells it' \<and>
      locate_spec cells t rel (cu_iter it')) \<and>
    (is_leaf t \<longrightarrow> (\<exists>b it'. CUI_Locate_point it t = Some (b, it') \<and> cui_good cells it' \<and>
      (b \<longleftrightarrow> (\<exists>x\<in>set cells. cell_contains x t)) \<and>
      (b \<longrightarrow> cu_iter it' < length cells \<and> cell_contains (cells ! cu_iter it') t)))"
  using cui.Locate_correct [OF assms] cui.Locate_point_correct [OF assms]
  unfolding CUI_Locate_def CUI_Locate_point_def by blast

theorem Locate_meets_spec_witness:
  "\<exists>it'. CUI_Locate \<lparr>cu_cells = [cell_at 0 3], cu_iter = 1\<rparr> (cell_at 2 50) = Some (INDEXED, it') \<and> cu_iter it' = 0"
proof -
  let ?it = "\<lparr>cu_cells = [cell_at 0 3], cu_iter = 1\<rparr>"
  have g: "cui_good [cell_at 0 3] ?it" "is_valid (cell_at 2 50)"
    by (simp_all add: cui_good_def wf_union_def is_valid_at)
  have c: "cell_contains (cell_at 0 3) (cell_at 2 50)"
    by (simp add: contains_iff is_valid_at span_at)
  then have i: "cell_intersects (cell_at 0 3) (cell_at 2 50)"
    using g by (intro contains_intersects) (simp_all add: is_valid_at)
  obtain rel it' where r: "CUI_Locate ?it (cell_at 2 50) = Some (rel, it')"
      "locate_spec [cell_at 0 3] (cell_at 2 50) rel (cu_iter it')"
    using Locate_meets_spec [OF g] by blast
  then show ?thesis using c i by (cases rel) (simp_all add: locate_spec_def)
qed

text \<open>C15: a range iterator over a cell union, given another one that stands on a valid cell:
  \<open>Locate\<close> of it is \<open>LocateImpl\<close> of its cell; \<open>SeekTo\<close> stops at the first cell that
  overlaps or follows the target and \<open>SeekBeyond\<close> at the first that follows it (at the end when there
  is none), and the cached range is that of the cell reached.\<close>

theorem range_iterator_seeks:
  assumes "ri_good CUI_ops (cui_good cells) r" and "ri_good CUI_ops (cui_good us) u"
    and "cu_iter (ri_it u) < length us" and "t = us ! cu_iter (ri_it u)"
  shows "RI_Locate_range CUI_ops CUI_ops r u = LocateImpl (RI_ops CUI_ops) r t \<and>
    (\<exists>r'. RI_SeekTo CUI_ops CUI_ops r u = Some r' \<and> ri_good CUI_ops (cui_good cells) r' \<and>
      first_such (\<lambda>x. range_max x \<ge> range_min t) cells (cu_iter (ri_it r'))) \<and>
    (\<exists>r'. RI_SeekBeyond CUI_ops r u = Some r' \<and> ri_good CUI_ops (cui_good cells) r' \<and>
      first_such (\<lambda>x. range_min x > range_max t) cells (cu_iter (ri_it r')))"
proof -
  have u: "ri_min u = range_min t" "ri_max u = range_max t" "RI_id CUI_ops u = Some t"
    using cui.ri_range [OF assms(2,3)] assms(4) by simp_all
  have t: "is_valid t"
    using assms(2-4) by (simp add: ri_good_def cui_good_def wf_union_nth_valid)
  show ?thesis
    using cui.RI_Locate_range_eq [of u t CUI_ops r, OF u] cui.RI_Locate_eq [OF assms(1)]
      cui.SeekTo_correct [OF assms(1) t u] cui.SeekBeyond_correct [OF assms(1) t u(2)] by simp
qed

theorem range_iterator_seeks_witness:
  "\<exists>r'. RI_SeekTo CUI_ops CUI_ops (S2CellRangeIterator CUI_ops \<lparr>cu_cells = [cell_at 0 3, cell_at 0 4], cu_iter = 0\<rparr>)
      (S2CellRangeIterator CUI_ops \<lparr>cu_cells = [cell_at 2 50], cu_iter = 0\<rparr>) = Some r'"
proof -
  have "cui_good [cell_at 0 3, cell_at 0 4] \<lparr>cu_cells = [cell_at 0 3, cell_at 0 4], cu_iter = 0\<rparr>"
    "cui_good [cell_at 2 50] \<lparr>cu_cells = [cell_at 2 50], cu_iter = 0\<rparr>"
    by (simp_all add: cui_good_def wf_union_def is_valid_at span_at)
  note g = cui.range_iterator_good [OF this(1)] cui.range_iterator_good [OF this(2)]
  show ?thesis
    using range_iterator_seeks [OF g(1) g(3)] g(4) by (metis length_Cons list.size(3) zero_less_Suc)
qed

end
