(* ===== verification/Hilbert.thy ===== *)
theory Hilbert
  imports Cell_Id
begin

text \<open>
  The Hilbert curve of \<^verbatim>\<open>s2/s2cell_id.cc\<close>: the traversal tables of \<^verbatim>\<open>s2/s2coords.cc\<close>, the two lookup
  tables that \<open>MaybeInit\<close> fills, and the conversions between a cell id and the face, the \<open>(i, j)\<close>
  coordinates and the orientation.  The C arrays \<open>lookup_pos\<close> and \<open>lookup_ij\<close> are functions from the
  index, zero at first.  The eight copies of the macro \<^verbatim>\<open>GET_BITS\<close> are a fold over
  \<open>k = 7, \<dots>, 0\<close>.  \<open>i\<close> and \<open>j\<close> are \<^verbatim>\<open>int\<close> arguments; the values read from the tables and the
  orientations are naturals.
\<close>

definition kSwapMask :: nat where "kSwapMask = 1"
definition kInvertMask :: nat where "kInvertMask = 2"

definition kIJtoPos :: "nat list list" where
  "kIJtoPos = [[0, 1, 3, 2], [0, 3, 1, 2], [2, 3, 1, 0], [2, 1, 3, 0]]"

definition kPosToIJ :: "nat list list" where
  "kPosToIJ = [[0, 1, 3, 2], [0, 2, 3, 1], [3, 2, 0, 1], [3, 1, 0, 2]]"

definition kPosToOrientation :: "nat list" where
  "kPosToOrientation = [kSwapMask, 0, 0, kInvertMask + kSwapMask]"

definition kLookupBits :: nat where "kLookupBits = 4"

record lookup_tables =
  lookup_pos :: "nat \<Rightarrow> nat"
  lookup_ij :: "nat \<Rightarrow> nat"

text \<open>The code stops at \<open>level == kLookupBits\<close>; it starts at level 0, so no higher level occurs.\<close>

function InitLookupCell :: "nat \<Rightarrow> nat \<Rightarrow> nat \<Rightarrow> nat \<Rightarrow> nat \<Rightarrow> nat \<Rightarrow> lookup_tables \<Rightarrow> lookup_tables" where
  "InitLookupCell level i j orig_orientation ps orientation t =
     (if level \<ge> kLookupBits
      then let ij = push_bit kLookupBits i + j
           in t\<lparr>lookup_pos := (lookup_pos t)(push_bit 2 ij + orig_orientation := push_bit 2 ps + orientation),
                lookup_ij := (lookup_ij t)(push_bit 2 ps + orig_orientation := push_bit 2 ij + orientation)\<rparr>
      else
        let level = level + 1; i = push_bit 1 i; j = push_bit 1 j; ps = push_bit 2 ps;
            r = kPosToIJ ! orientation;
            t = InitLookupCell level (i + drop_bit 1 (r ! 0)) (j + (r ! 0 AND 1)) orig_orientation
                  ps (orientation XOR kPosToOrientation ! 0) t;
            t = InitLookupCell level (i + drop_bit 1 (r ! 1)) (j + (r ! 1 AND 1)) orig_orientation
                  (ps + 1) (orientation XOR kPosToOrientation ! 1) t;
            t = InitLookupCell level (i + drop_bit 1 (r ! 2)) (j + (r ! 2 AND 1)) orig_orientation
                  (ps + 2) (orientation XOR kPosToOrientation ! 2) t
        in InitLookupCell level (i + drop_bit 1 (r ! 3)) (j + (r ! 3 AND 1)) orig_orientation
                  (ps + 3) (orientation XOR kPosToOrientation ! 3) t)"
  by pat_completeness auto

termination by (relation "measure (\<lambda>(level, _). kLookupBits - level)") auto

declare InitLookupCell.simps [simp del]

definition MaybeInit :: lookup_tables where
  "MaybeInit =
     (let t = \<lparr>lookup_pos = \<lambda>_. 0, lookup_ij = \<lambda>_. 0\<rparr>;
          t = InitLookupCell 0 0 0 0 0 0 t;
          t = InitLookupCell 0 0 0 kSwapMask 0 kSwapMask t;
          t = InitLookupCell 0 0 0 kInvertMask 0 kInvertMask t
      in InitLookupCell 0 0 0 (kSwapMask OR kInvertMask) 0 (kSwapMask OR kInvertMask) t)"

definition pos_GET_BITS :: "int \<Rightarrow> int \<Rightarrow> nat \<Rightarrow> uint64 \<times> nat \<Rightarrow> uint64 \<times> nat" where
  "pos_GET_BITS i j k = (\<lambda>(n, bits).
     let mask = push_bit kLookupBits 1 - 1;
         bits = bits + nat (push_bit (kLookupBits + 2) (drop_bit (k * kLookupBits) i AND mask));
         bits = bits + nat (push_bit 2 (drop_bit (k * kLookupBits) j AND mask));
         bits = lookup_pos MaybeInit bits;
         n = n OR push_bit (k * 2 * kLookupBits) (of_nat (drop_bit 2 bits))
     in (n, bits AND (kSwapMask OR kInvertMask)))"

definition FromFaceIJ :: "nat \<Rightarrow> int \<Rightarrow> int \<Rightarrow> cellid" where
  "FromFaceIJ fc i j =
     (let n = push_bit (kPosBits - 1) (of_nat fc);
          bits = fc AND kSwapMask;
          (n, bits) = fold (pos_GET_BITS i j) [7, 6, 5, 4, 3, 2, 1, 0] (n, bits)
      in n * 2 + 1)"

definition ij_GET_BITS :: "cellid \<Rightarrow> nat \<Rightarrow> nat \<times> nat \<times> nat \<Rightarrow> nat \<times> nat \<times> nat" where
  "ij_GET_BITS x k = (\<lambda>(i, j, bits).
     let nbits = (if k = 7 then kMaxLevel - 7 * kLookupBits else kLookupBits);
         bits = bits + push_bit 2 (unat (drop_bit (k * 2 * kLookupBits + 1) x AND (push_bit (2 * nbits) 1 - 1)));
         bits = lookup_ij MaybeInit bits;
         i = i + push_bit (k * kLookupBits) (drop_bit (kLookupBits + 2) bits);
         j = j + push_bit (k * kLookupBits) (drop_bit 2 bits AND (push_bit kLookupBits 1 - 1))
     in (i, j, bits AND (kSwapMask OR kInvertMask)))"

definition ToFaceIJOrientation :: "cellid \<Rightarrow> nat \<times> nat \<times> nat \<times> nat" where
  "ToFaceIJOrientation x =
     (let fc = face x;
          bits = fc AND kSwapMask;
          (i, j, bits) = fold (ij_GET_BITS x) [7, 6, 5, 4, 3, 2, 1, 0] (0, 0, bits);
          bits = (if lsb x AND 0x1111111111111110 \<noteq> 0 then bits XOR kSwapMask else bits)
      in (fc, i, j, bits))"

definition GetCenterSiTi :: "cellid \<Rightarrow> nat \<times> nat \<times> nat" where
  "GetCenterSiTi x =
     (let (fc, i, j, _) = ToFaceIJOrientation x;
          delta = (if is_leaf x then 1
                   else if (i XOR unat (drop_bit 2 x)) AND 1 \<noteq> 0 then 2 else 0)
      in (fc, 2 * i + delta, 2 * j + delta))"


section \<open>Neighbours\<close>

text \<open>\<open>FromFaceIJWrap\<close> projects coordinates that are off the face through floating-point coordinates;
  it is the parameter \<open>wrap\<close>.\<close>

definition FromFaceIJSame :: "(nat \<Rightarrow> int \<Rightarrow> int \<Rightarrow> cellid) \<Rightarrow> nat \<Rightarrow> int \<Rightarrow> int \<Rightarrow> bool \<Rightarrow> cellid" where
  "FromFaceIJSame wrap fc i j same_face = (if same_face then FromFaceIJ fc i j else wrap fc i j)"

definition GetEdgeNeighbors :: "(nat \<Rightarrow> int \<Rightarrow> int \<Rightarrow> cellid) \<Rightarrow> cellid \<Rightarrow> cellid list" where
  "GetEdgeNeighbors wrap x =
     (let level = nat (cell_level x);
          sz = int (GetSizeIJ_level level);
          (fc, i, j, _) = ToFaceIJOrientation x;
          i = int i; j = int j
      in [parent_at (FromFaceIJSame wrap fc i (j - sz) (j - sz \<ge> 0)) level,
          parent_at (FromFaceIJSame wrap fc (i + sz) j (i + sz < int kMaxSize)) level,
          parent_at (FromFaceIJSame wrap fc i (j + sz) (j + sz < int kMaxSize)) level,
          parent_at (FromFaceIJSame wrap fc (i - sz) j (i - sz \<ge> 0)) level])"

definition AppendVertexNeighbors :: "(nat \<Rightarrow> int \<Rightarrow> int \<Rightarrow> cellid) \<Rightarrow> cellid \<Rightarrow> nat \<Rightarrow> cellid list \<Rightarrow> cellid list" where
  "AppendVertexNeighbors wrap x level output =
     (let (fc, i, j, _) = ToFaceIJOrientation x;
          i = int i; j = int j;
          halfsize = int (GetSizeIJ_level (level + 1));
          sz = push_bit 1 halfsize;
          (ioffset, isame) = (if i AND halfsize \<noteq> 0 then (sz, i + sz < int kMaxSize) else (- sz, i - sz \<ge> 0));
          (joffset, jsame) = (if j AND halfsize \<noteq> 0 then (sz, j + sz < int kMaxSize) else (- sz, j - sz \<ge> 0));
          output = output @ [parent_at x level];
          output = output @ [parent_at (FromFaceIJSame wrap fc (i + ioffset) j isame) level];
          output = output @ [parent_at (FromFaceIJSame wrap fc i (j + joffset) jsame) level]
      in if isame \<or> jsame
         then output @ [parent_at (FromFaceIJSame wrap fc (i + ioffset) (j + joffset) (isame \<and> jsame)) level]
         else output)"

text \<open>The loop of \<open>AppendAllNeighbors\<close>, for a positive \<open>nbr_size\<close>: with \<open>nbr_size = 0\<close> it does not end.\<close>

partial_function (option) all_neighbors_loop ::
  "(nat \<Rightarrow> int \<Rightarrow> int \<Rightarrow> cellid) \<Rightarrow> nat \<Rightarrow> int \<Rightarrow> int \<Rightarrow> int \<Rightarrow> int \<Rightarrow> nat \<Rightarrow> int \<Rightarrow> cellid list \<Rightarrow> cellid list option" where
  "all_neighbors_loop wrap fc i j sz nbr_size nbr_level k output =
     (let (same_face, output) =
            (if k < 0 then (j + k \<ge> 0, output)
             else if k \<ge> sz then (j + k < int kMaxSize, output)
             else (True, output @
               [parent_at (FromFaceIJSame wrap fc (i + k) (j - nbr_size) (j - sz \<ge> 0)) nbr_level,
                parent_at (FromFaceIJSame wrap fc (i + k) (j + sz) (j + sz < int kMaxSize)) nbr_level]));
          output = output @
            [parent_at (FromFaceIJSame wrap fc (i - nbr_size) (j + k) (same_face \<and> i - sz \<ge> 0)) nbr_level,
             parent_at (FromFaceIJSame wrap fc (i + sz) (j + k) (same_face \<and> i + sz < int kMaxSize)) nbr_level]
      in if k \<ge> sz then Some output
         else all_neighbors_loop wrap fc i j sz nbr_size nbr_level (k + nbr_size) output)"

definition AppendAllNeighbors :: "(nat \<Rightarrow> int \<Rightarrow> int \<Rightarrow> cellid) \<Rightarrow> cellid \<Rightarrow> nat \<Rightarrow> cellid list \<Rightarrow> cellid list option" where
  "AppendAllNeighbors wrap x nbr_level output =
     (let (fc, i, j, _) = ToFaceIJOrientation x;
          sz = int (GetSizeIJ x);
          i = int i AND - sz;
          j = int j AND - sz;
          nbr_size = int (GetSizeIJ_level nbr_level)
      in all_neighbors_loop wrap fc i j sz nbr_size nbr_level (- nbr_size) output)"

end
