(* ===== verification/Hilbert_Curve.thy ===== *)
theory Hilbert_Curve
  imports Hilbert Cell_Span
begin

text \<open>
  The Hilbert curve as a recursive walk, and the lookup tables as four steps of it.
\<close>

section \<open>The walk\<close>

text \<open>\<open>walk n o p\<close>: the coordinates, in a grid of side \<open>2 ^ n\<close>, of the cell at position \<open>p\<close> of the
  curve that starts with orientation \<open>o\<close>, and the orientation of the curve inside that cell.\<close>

fun walk :: "nat \<Rightarrow> nat \<Rightarrow> nat \<Rightarrow> nat \<times> nat \<times> nat" where
  "walk 0 r p = (0, 0, r)"
| "walk (Suc n) r p =
     (let d = p div 4 ^ n; ij = kPosToIJ ! r ! d;
          (i, j, r') = walk n (r XOR kPosToOrientation ! d) (p mod 4 ^ n)
      in (ij div 2 * 2 ^ n + i, ij mod 2 * 2 ^ n + j, r'))"

declare walk.simps(2) [simp del]

lemma less4: "(r :: nat) < 4 \<longleftrightarrow> r = 0 \<or> r = 1 \<or> r = 2 \<or> r = 3"
  by linarith

lemma tables:
  assumes "r < 4" "d < 4"
  shows "kPosToIJ ! r ! d < 4" "r XOR kPosToOrientation ! d < 4" "kIJtoPos ! r ! (kPosToIJ ! r ! d) = d"
  using assms unfolding less4
  by (auto simp: kPosToIJ_def kIJtoPos_def kPosToOrientation_def kSwapMask_def kInvertMask_def)

lemma digit_less: "p < 4 ^ Suc n \<Longrightarrow> p div 4 ^ n < (4::nat)"
  by (simp add: less_mult_imp_div_less)

lemma quadrant_less: "x \<le> Suc 0 \<Longrightarrow> a < k \<Longrightarrow> x * k + a < 2 * k"
  by (cases x) auto

lemma walk_bounds:
  assumes "r < 4" "p < 4 ^ n" "walk n r p = (i, j, r')"
  shows "i < 2 ^ n" "j < 2 ^ n" "r' < 4"
proof -
  have "i < 2 ^ n \<and> j < 2 ^ n \<and> r' < 4"
    using assms
  proof (induction n arbitrary: r p i j r')
    case (Suc n)
    let ?d = "p div 4 ^ n"
    have d: "?d < 4" using Suc.prems(2) by (rule digit_less)
    note t = tables [OF Suc.prems(1) d]
    obtain a b c where w: "walk n (r XOR kPosToOrientation ! ?d) (p mod 4 ^ n) = (a, b, c)" by (metis prod_cases3)
    have "a < 2 ^ n \<and> b < 2 ^ n \<and> c < 4" by (rule Suc.IH [OF t(2) _ w]) simp
    moreover have "kPosToIJ ! r ! ?d div 2 \<le> 1" "kPosToIJ ! r ! ?d mod 2 \<le> 1" using t(1) by linarith+
    ultimately show ?case using Suc.prems(3) w by (auto simp: walk.simps(2) Let_def quadrant_less)
  qed simp
  then show "i < 2 ^ n" "j < 2 ^ n" "r' < 4" by simp_all
qed

lemma walk_add:
  assumes "p < 4 ^ (m + n)"
  shows "walk (m + n) r p =
    (let (i, j, r') = walk m r (p div 4 ^ n); (i', j', r'') = walk n r' (p mod 4 ^ n)
     in (i * 2 ^ n + i', j * 2 ^ n + j', r''))"
  using assms
proof (induction m arbitrary: r p)
  case 0
  then show ?case by (auto split: prod.split)
next
  case (Suc m)
  have e: "p div 4 ^ n div 4 ^ m = p div 4 ^ (m + n)" by (simp add: power_add mult.commute flip: div_mult2_eq)
  have f: "p mod 4 ^ (m + n) div 4 ^ n = p div 4 ^ n mod 4 ^ m" "p mod 4 ^ (m + n) mod 4 ^ n = p mod 4 ^ n"
    by (simp_all add: power_add mult.commute [of "4 ^ m"] mod_mult2_eq)
  show ?case
    by (simp add: walk.simps(2) Suc.IH f e Let_def algebra_simps power_add [of "2 :: nat"] split: prod.split)
qed

lemma walk_inj:
  assumes "r < 4" "p < 4 ^ n" "p' < 4 ^ n" "walk n r p = (i, j, a)" "walk n r p' = (i, j, b)"
  shows "p = p'"
  using assms
proof (induction n arbitrary: r p p' i j a b)
  case (Suc n)
  let ?d = "p div 4 ^ n" and ?d' = "p' div 4 ^ n"
  have d: "?d < 4" "?d' < 4" using Suc.prems(2,3) by (auto intro: digit_less)
  note t = tables [OF Suc.prems(1) d(1)] and t' = tables [OF Suc.prems(1) d(2)]
  obtain i1 j1 a1 where w: "walk n (r XOR kPosToOrientation ! ?d) (p mod 4 ^ n) = (i1, j1, a1)" by (metis prod_cases3)
  obtain i2 j2 a2 where w': "walk n (r XOR kPosToOrientation ! ?d') (p' mod 4 ^ n) = (i2, j2, a2)" by (metis prod_cases3)
  have b: "i1 < 2 ^ n" "j1 < 2 ^ n" "i2 < 2 ^ n" "j2 < 2 ^ n"
    using walk_bounds [OF t(2) _ w] walk_bounds [OF t'(2) _ w'] by simp_all
  let ?x = "kPosToIJ ! r ! ?d" and ?x' = "kPosToIJ ! r ! ?d'"
  have e: "?x div 2 * 2 ^ n + i1 = ?x' div 2 * 2 ^ n + i2" "?x mod 2 * 2 ^ n + j1 = ?x' mod 2 * 2 ^ n + j2"
    using Suc.prems(4,5) w w' by (simp_all add: walk.simps(2) Let_def)
  have "?x div 2 = ?x' div 2" "i1 = i2" "?x mod 2 = ?x' mod 2" "j1 = j2"
    using arg_cong [OF e(1), of "\<lambda>z. z div 2 ^ n"] arg_cong [OF e(1), of "\<lambda>z. z mod 2 ^ n"]
      arg_cong [OF e(2), of "\<lambda>z. z div 2 ^ n"] arg_cong [OF e(2), of "\<lambda>z. z mod 2 ^ n"] b by simp_all
  moreover then have "?x = ?x'" by (metis div_mult_mod_eq)
  then have dd: "?d = ?d'" using t(3) t'(3) by metis
  ultimately have "p mod 4 ^ n = p' mod 4 ^ n"
    using w w' by (intro Suc.IH [OF t(2)]) (simp_all add: dd)
  then show ?case using dd by (metis div_mult_mod_eq)
qed simp



section \<open>The lookup tables\<close>

text \<open>The cells that \<open>InitLookupCell\<close> reaches from a cell at \<open>(i, j)\<close> with position \<open>q\<close> and \<open>m\<close> more
  levels to go, in order.\<close>

definition entries :: "nat \<Rightarrow> nat \<Rightarrow> nat \<Rightarrow> nat \<Rightarrow> nat \<Rightarrow> (nat \<times> nat \<times> nat \<times> nat) list" where
  "entries m i j q r =
     map (\<lambda>p. case walk m r p of (a, b, r') \<Rightarrow> (i * 2 ^ m + a, j * 2 ^ m + b, q * 4 ^ m + p, r')) [0..<4 ^ m]"

definition write_entry :: "nat \<Rightarrow> nat \<times> nat \<times> nat \<times> nat \<Rightarrow> lookup_tables \<Rightarrow> lookup_tables" where
  "write_entry oo = (\<lambda>(i, j, q, r) t.
     t\<lparr>lookup_pos := (lookup_pos t)((i * 16 + j) * 4 + oo := q * 4 + r),
       lookup_ij := (lookup_ij t)(q * 4 + oo := (i * 16 + j) * 4 + r)\<rparr>)"

lemma upt_split: "i \<le> j \<Longrightarrow> j \<le> k \<Longrightarrow> [i..<k] = [i..<j] @ [j..<k]"
  by (metis le_add_diff_inverse upt_add_eq_append)

lemma upt_shift: "map (\<lambda>p. k + p) [0..<n] = [k..<k + n]"
  using map_add_upt [of k n] by (simp add: add.commute)

lemma upt_blocks: "[0..<4 * n] = [0..<n] @ map (\<lambda>p. n + p) [0..<n] @ map (\<lambda>p. 2 * n + p) [0..<n] @ map (\<lambda>p. 3 * n + p) [0..<n]"
proof -
  have "[0..<4 * n] = [0..<n] @ [n..<2 * n] @ [2 * n..<3 * n] @ [3 * n..<4 * n]"
    using upt_split [of 0 n "4 * n"] upt_split [of n "2 * n" "4 * n"]
      upt_split [of "2 * n" "3 * n" "4 * n"] by simp
  moreover have "map (\<lambda>p. n + p) [0..<n] = [n..<2 * n]" "map (\<lambda>p. 2 * n + p) [0..<n] = [2 * n..<3 * n]"
    "map (\<lambda>p. 3 * n + p) [0..<n] = [3 * n..<4 * n]"
    unfolding upt_shift by (simp_all add: mult_2 [symmetric] flip: add_mult_distrib)
  ultimately show ?thesis by simp
qed

lemma entries_Suc:
  "entries (Suc m) i j q r =
     concat (map (\<lambda>d. entries m (2 * i + kPosToIJ ! r ! d div 2) (2 * j + kPosToIJ ! r ! d mod 2) (4 * q + d)
       (r XOR kPosToOrientation ! d)) [0, 1, 2, 3])"
proof -
  have block: "map (\<lambda>p. case walk (Suc m) r p of (a, b, r') \<Rightarrow> (i * 2 ^ Suc m + a, j * 2 ^ Suc m + b, q * 4 ^ Suc m + p, r'))
      (map (\<lambda>p. d * 4 ^ m + p) [0..<4 ^ m]) =
    entries m (2 * i + kPosToIJ ! r ! d div 2) (2 * j + kPosToIJ ! r ! d mod 2) (4 * q + d) (r XOR kPosToOrientation ! d)" for d
    by (auto simp: entries_def walk.simps(2) Let_def algebra_simps split: prod.split)
  show ?thesis
    using block [of 0] block [of 1] block [of 2] block [of 3]
    unfolding entries_def [of "Suc m"] power_Suc [of "4 :: nat"] upt_blocks [of "4 ^ m"] map_append
    by simp
qed

lemma InitLookupCell_entries:
  assumes "level \<le> 4" "r < 4"
  shows "InitLookupCell level i j oo q r t = fold (write_entry oo) (entries (4 - level) i j q r) t"
  using assms
proof (induction "4 - level" arbitrary: level i j q r t)
  case 0
  then show ?case
    by (subst InitLookupCell.simps)
       (simp add: kLookupBits_def entries_def write_entry_def push_bit_eq_mult)
next
  case (Suc m)
  have l: "4 - level = Suc (4 - (level + 1))" "level + 1 \<le> 4" "m = 4 - (level + 1)" using Suc.hyps(2) by simp_all
  have e: "x AND 1 = x mod 2" "drop_bit 1 x = x div 2" for x :: nat by (simp_all add: drop_bit_eq_div)
  have IH: "InitLookupCell (level + 1) i' j' oo q' (r XOR kPosToOrientation ! d) t' =
      fold (write_entry oo) (entries m i' j' q' (r XOR kPosToOrientation ! d)) t'" if "d < 4" for i' j' q' d t'
    using Suc.hyps(1) [OF l(3) l(2) tables(2) [OF Suc.prems(2) that]] l(3) by simp
  show ?case
    unfolding l(1) entries_Suc
    using Suc.hyps(2) IH [of 0] IH [of 1] IH [of 2] IH [of 3]
    by (subst InitLookupCell.simps)
       (simp add: kLookupBits_def e drop_bit_eq_div push_bit_eq_mult Let_def mult.commute l(3))
qed


text \<open>Updates at distinct keys do not disturb each other.\<close>

lemma fold_upd_other: "y \<notin> k ` set xs \<Longrightarrow> fold (\<lambda>x f. f(k x := v x)) xs f y = f y"
  by (induction xs arbitrary: f) auto

lemma fold_upd_at: "inj_on k (set xs) \<Longrightarrow> x \<in> set xs \<Longrightarrow> fold (\<lambda>x f. f(k x := v x)) xs f (k x) = v x"
proof (induction xs arbitrary: f)
  case (Cons y xs)
  show ?case
  proof (cases "x \<in> set xs")
    case True
    then show ?thesis using Cons by simp
  next
    case False
    then have "x = y" "k y \<notin> k ` set xs" using Cons.prems by auto
    then show ?thesis by (simp add: fold_upd_other del: fun_upd_apply) (simp only: fun_upd_same)
  qed
qed simp

definition key :: "nat \<times> nat \<Rightarrow> nat" where
  "key = (\<lambda>(oo, p). p * 4 + oo)"

definition ij_of :: "nat \<times> nat \<Rightarrow> nat \<times> nat" where
  "ij_of = (\<lambda>(oo, p). case walk 4 oo p of (i, j, r) \<Rightarrow> (i * 16 + j, r))"

definition all_entries :: "(nat \<times> nat) list" where
  "all_entries = concat (map (\<lambda>oo. map (Pair oo) [0..<4 ^ 4]) [0, 1, 2, 3])"

lemma fold_write_tables:
  fixes xs :: "(nat \<times> nat) list"
  shows "fold (\<lambda>(oo, p). write_entry oo (case walk 4 oo p of (a, b, r) \<Rightarrow> (a, b, p, r))) xs t =
    t\<lparr>lookup_pos := fold (\<lambda>x f. f(fst (ij_of x) * 4 + fst x := snd x * 4 + snd (ij_of x))) xs (lookup_pos t),
      lookup_ij := fold (\<lambda>x f. f(key x := fst (ij_of x) * 4 + snd (ij_of x))) xs (lookup_ij t)\<rparr>"
proof (induction xs arbitrary: t)
  case (Cons x xs)
  obtain oo p a b r where x: "x = (oo, p)" "walk 4 oo p = (a, b, r)"
    by (cases x; cases "walk 4 (fst x) (snd x)") auto
  then have "write_entry oo (a, b, p, r) t =
      t\<lparr>lookup_pos := (lookup_pos t)(fst (ij_of x) * 4 + fst x := snd x * 4 + snd (ij_of x)),
        lookup_ij := (lookup_ij t)(key x := fst (ij_of x) * 4 + snd (ij_of x))\<rparr>"
    by (simp only: write_entry_def prod.case x ij_of_def key_def fst_conv snd_conv)
  then show ?case using Cons x by (simp del: fun_upd_apply)
qed simp

lemma MaybeInit_eq:
  "MaybeInit = fold (\<lambda>(oo, p). write_entry oo (case walk 4 oo p of (a, b, r) \<Rightarrow> (a, b, p, r))) all_entries
     \<lparr>lookup_pos = \<lambda>_. 0, lookup_ij = \<lambda>_. 0\<rparr>"
proof -
  have e: "InitLookupCell 0 0 0 oo 0 oo t =
      fold (\<lambda>(oo, p). write_entry oo (case walk 4 oo p of (a, b, r) \<Rightarrow> (a, b, p, r))) (map (Pair oo) [0..<4 ^ 4]) t"
    if "oo < 4" for oo t
    using InitLookupCell_entries [of 0 oo 0 0 oo 0 t] that
    by (simp add: entries_def fold_map o_def del: upt_conv_Cons)
  show ?thesis
    unfolding MaybeInit_def all_entries_def
    using e [of 0] e [of 1] e [of 2] e [of 3]
    by (simp add: kSwapMask_def kInvertMask_def Let_def del: upt_conv_Cons)
qed

lemma in_all_entries: "(oo, p) \<in> set all_entries \<longleftrightarrow> oo < 4 \<and> p < 256"
  by (auto simp: all_entries_def less4)

lemma lookup_ij_walk:
  assumes "r < 4" "p < 256" "walk 4 r p = (i, j, r')"
  shows "lookup_ij MaybeInit (p * 4 + r) = (i * 16 + j) * 4 + r'"
proof -
  have "inj_on key (set all_entries)"
  proof (rule inj_onI)
    fix x y assume xy: "x \<in> set all_entries" "y \<in> set all_entries" "key x = key y"
    obtain o1 p1 o2 p2 where p: "x = (o1, p1)" "y = (o2, p2)" by (metis surj_pair)
    have "p1 * 4 + o1 = p2 * 4 + o2" "o1 < 4" "o2 < 4" using xy by (simp_all add: p in_all_entries key_def)
    then have "o1 = o2 \<and> p1 = p2" by presburger
    then show "x = y" by (simp add: p)
  qed
  from fold_upd_at [OF this, of "(r, p)" "\<lambda>x. fst (ij_of x) * 4 + snd (ij_of x)"]
  show ?thesis
    using assms unfolding MaybeInit_eq fold_write_tables by (simp add: in_all_entries key_def ij_of_def del: fun_upd_apply)
qed

lemma digits_eq:
  assumes "j1 < 16" "j2 < 16" "(i1 * 16 + j1) * 4 + o1 = (i2 * 16 + j2) * 4 + o2" "o1 < 4" "o2 < (4 :: nat)"
  shows "o1 = o2 \<and> i1 = i2 \<and> j1 = j2"
proof -
  have "x * 4 + o1 = y * 4 + o2 \<Longrightarrow> o1 = o2 \<and> x = y" for x y using assms(4,5) by presburger
  from this [OF assms(3)] have "o1 = o2" "i1 * 16 + j1 = i2 * 16 + j2" by blast+
  then show ?thesis using assms(1,2) by presburger
qed

lemma lookup_pos_walk:
  assumes "r < 4" "p < 256" "walk 4 r p = (i, j, r')"
  shows "lookup_pos MaybeInit ((i * 16 + j) * 4 + r) = p * 4 + r'"
proof -
  have "inj_on (\<lambda>x. fst (ij_of x) * 4 + fst x) (set all_entries)"
  proof (rule inj_onI)
    fix x y assume xy: "x \<in> set all_entries" "y \<in> set all_entries"
      and e: "fst (ij_of x) * 4 + fst x = fst (ij_of y) * 4 + fst y"
    obtain o1 p1 o2 p2 where xp: "x = (o1, p1)" "y = (o2, p2)" by (metis surj_pair)
    obtain i1 j1 r1 where w1: "walk 4 o1 p1 = (i1, j1, r1)" by (cases "walk 4 o1 p1")
    obtain i2 j2 r2 where w2: "walk 4 o2 p2 = (i2, j2, r2)" by (cases "walk 4 o2 p2")
    note w = w1 w2
    have b: "o1 < 4" "o2 < 4" "p1 < 4 ^ 4" "p2 < 4 ^ 4" using xy by (simp_all add: xp in_all_entries)
    have "j1 < 16" "j2 < 16" using walk_bounds [OF b(1,3) w(1)] walk_bounds [OF b(2,4) w(2)] by simp_all
    moreover have "(i1 * 16 + j1) * 4 + o1 = (i2 * 16 + j2) * 4 + o2" using e w by (simp add: xp ij_of_def)
    ultimately have "o1 = o2 \<and> i1 = i2 \<and> j1 = j2" using b(1,2) by (intro digits_eq)
    then show "x = y" using walk_inj [OF b(1) b(3,4)] w by (simp add: xp)
  qed
  from fold_upd_at [OF this, of "(r, p)" "\<lambda>x. snd x * 4 + snd (ij_of x)"]
  show ?thesis
    using assms unfolding MaybeInit_eq fold_write_tables by (simp add: in_all_entries ij_of_def del: fun_upd_apply)
qed

end
