(* ===== verification/Hilbert_Correct.thy ===== *)
theory Hilbert_Correct
  imports Hilbert_Curve Cell_Navigation
begin

text \<open>
  \<open>ToFaceIJOrientation\<close>, \<open>FromFaceIJ\<close> and \<open>GetCenterSiTi\<close> in terms of the walk.
\<close>

section \<open>Eight groups of four digits\<close>

definition prefix_walk :: "nat \<Rightarrow> nat \<Rightarrow> nat \<Rightarrow> nat \<times> nat \<times> nat" where
  "prefix_walk r p k = walk (4 * (8 - k)) r (p div 4 ^ (4 * k))"

lemma high_digits:
  assumes "(p::nat) < 4 ^ 30" "k \<le> 8"
  shows "p div 4 ^ (4 * k) < 4 ^ (4 * (8 - k))"
proof -
  have "4 * (8 - k) + 4 * k = 32" using assms(2) by simp
  then have "(4::nat) ^ (4 * (8 - k)) * 4 ^ (4 * k) = 4 ^ 32" by (metis power_add)
  then show ?thesis using assms(1) by (simp add: less_mult_imp_div_less)
qed

lemma prefix_walk_step:
  assumes "k < 8" "p < 4 ^ 30" "prefix_walk r p (Suc k) = (i, j, r')" "walk 4 r' (p div 4 ^ (4 * k) mod 256) = (i', j', r'')"
  shows "prefix_walk r p k = (i * 16 + i', j * 16 + j', r'')"
proof -
  have m: "4 * (8 - k) = 4 * (8 - Suc k) + 4" using assms(1) by simp
  have b: "p div 4 ^ (4 * k) < 4 ^ (4 * (8 - Suc k) + 4)"
    using high_digits [of p k] assms(1,2) unfolding m by simp
  have e: "p div 4 ^ (4 * k) div 4 ^ 4 = p div 4 ^ (4 * Suc k)"
    by (simp add: power_add mult.commute flip: div_mult2_eq)
  show ?thesis
    using assms(3,4) unfolding prefix_walk_def m walk_add [OF b] e by simp
qed

lemma walk_zero:
  "r < 2 \<Longrightarrow> walk n r 0 = (0, 0, (r + n) mod 2)"
  "r < 2 \<Longrightarrow> walk n (2 + r) 0 = (2 ^ n - 1, 2 ^ n - 1, 2 + (r + n) mod 2)"
proof -
  have t: "0 XOR kPosToOrientation ! 0 = 1" "1 XOR kPosToOrientation ! 0 = 0" "2 XOR kPosToOrientation ! 0 = 3"
    "3 XOR kPosToOrientation ! 0 = (2 :: nat)" "kPosToIJ ! 0 ! 0 = 0" "kPosToIJ ! 1 ! 0 = 0" "kPosToIJ ! 2 ! 0 = 3" "kPosToIJ ! 3 ! 0 = 3"
    by (simp_all add: kPosToOrientation_def kPosToIJ_def kSwapMask_def)
  show "r < 2 \<Longrightarrow> walk n r 0 = (0, 0, (r + n) mod 2)"
  proof (induction n arbitrary: r)
    case (Suc n)
    then consider "r = 0" | "r = 1" by linarith
    then show ?case using Suc.IH [of 0] Suc.IH [of 1] by cases (simp_all add: walk.simps(2) t [simplified] mod_Suc)
  qed simp
  show "r < 2 \<Longrightarrow> walk n (2 + r) 0 = (2 ^ n - 1, 2 ^ n - 1, 2 + (r + n) mod 2)"
  proof (induction n arbitrary: r)
    case (Suc n)
    then consider "r = 0" | "r = 1" by linarith
    moreover have w: "walk n 2 0 = (2 ^ n - 1, 2 ^ n - 1, 2 + n mod 2)"
      "walk n 3 0 = (2 ^ n - 1, 2 ^ n - 1, 2 + (1 + n) mod 2)"
      using Suc.IH [of 0] Suc.IH [of 1] by (simp_all add: numeral_3_eq_3)
    have "walk (Suc n) 2 0 = (2 ^ Suc n - 1, 2 ^ Suc n - 1, 2 + Suc n mod 2)"
      using w(2) by (simp add: walk.simps(2) t [simplified] mult_2)
    moreover have "walk (Suc n) 3 0 = (2 ^ Suc n - 1, 2 ^ Suc n - 1, 2 + n mod 2)"
      using w(1) by (simp add: walk.simps(2) t [simplified] mult_2)
    ultimately show ?case by cases (simp_all add: numeral_3_eq_3)
  qed simp
qed

lemma prefix_walk_0:
  assumes "r < 2" "p < 4 ^ 30"
  shows "prefix_walk r p 0 = walk 30 r p"
proof -
  have "walk (2 + 30) r p = walk 30 r p"
    using assms walk_add [of p 2 30 r] walk_zero(1) [OF assms(1), of 2] by (simp split: prod.split)
  then show ?thesis by (simp add: prefix_walk_def)
qed

lemma prefix_walk_8: "p < 4 ^ 30 \<Longrightarrow> prefix_walk r p 8 = (0, 0, r)"
  by (simp add: prefix_walk_def)

lemma prefix_walk_bounds:
  assumes "r < 4" "p < 4 ^ 30" "k \<le> 8" "prefix_walk r p k = (i, j, r')"
  shows "r' < 4"
proof -
  have "p div 4 ^ (4 * k) < 4 ^ (4 * (8 - k))" by (rule high_digits [OF assms(2,3)])
  then show ?thesis using walk_bounds [OF assms(1)] assms(4) unfolding prefix_walk_def by blast
qed

lemma mask_low: "r < 4 \<Longrightarrow> r AND (kSwapMask OR kInvertMask) = r"
  unfolding less4 by (auto simp: kSwapMask_def kInvertMask_def)


section \<open>From the id to the coordinates\<close>

definition leaf_pos :: "cellid \<Rightarrow> nat" where
  "leaf_pos x = unat x div 2 mod 4 ^ 30"

lemma pow4_pow2: "(4::nat) ^ n = 2 ^ (2 * n)"
  by (simp add: power_mult)

lemma and_low: "(n::nat) AND 15 = n mod 16" "n AND 3 = n mod 4" "(i::int) AND 15 = i mod 16"
  using take_bit_eq_mask [of 4 n] take_bit_eq_mask [of 2 n] take_bit_eq_mask [of 4 i]
  by (simp_all add: take_bit_eq_mod mask_eq_exp_minus_1)

lemma packed_fields:
  fixes a b c :: nat
  assumes "b < 16" "c < 4"
  shows "drop_bit 6 ((a * 16 + b) * 4 + c) = a" "drop_bit 2 ((a * 16 + b) * 4 + c) AND 15 = b"
    "((a * 16 + b) * 4 + c) AND 3 = c"
proof -
  have "(a * 16 + b) * 4 + c = b * 4 + c + 64 * a" by simp
  moreover have "b * 4 + c < 64" using assms by simp
  ultimately have "((a * 16 + b) * 4 + c) div 64 = a" using div_mult_self2 [of 64 "b * 4 + c" a] by simp
  then show "drop_bit 6 ((a * 16 + b) * 4 + c) = a" by (simp add: drop_bit_eq_div)
  have m: "(x * 4 + c) div 4 = x" "(x * 4 + c) mod 4 = c" for x using assms(2) by presburger+
  have "(a * 16 + b) mod 16 = b" using assms(1) by simp
  then show "drop_bit 2 ((a * 16 + b) * 4 + c) AND 15 = b" "((a * 16 + b) * 4 + c) AND 3 = c"
    using m [of "a * 16 + b"] unfolding and_low drop_bit_eq_div by simp_all
qed

lemma group_bits:
  assumes "k < 8"
  shows "unat (drop_bit (k * 2 * kLookupBits + 1) x AND
      (push_bit (2 * (if k = 7 then kMaxLevel - 7 * kLookupBits else kLookupBits)) 1 - 1)) =
    leaf_pos x div 4 ^ (4 * k) mod 256"
proof -
  let ?m = "2 * (if k = 7 then kMaxLevel - 7 * kLookupBits else kLookupBits)"
  have m: "min 8 (60 - 8 * k) = ?m" using assms by (auto simp: kLookupBits_def)
  have "leaf_pos x div 4 ^ (4 * k) mod 256 = take_bit 8 (drop_bit (8 * k) (take_bit 60 (drop_bit 1 (unat x))))"
    by (simp add: leaf_pos_def pow4_pow2 take_bit_eq_mod drop_bit_eq_div)
  also have "\<dots> = take_bit ?m (drop_bit (8 * k + 1) (unat x))"
    by (simp add: drop_bit_take_bit m [symmetric] add.commute)
  also have "\<dots> = unat (take_bit ?m (drop_bit (8 * k + 1) x))"
    by (simp only: unsigned_take_bit_eq unat_drop_bit_eq)
  also have "take_bit ?m (drop_bit (8 * k + 1) x) = drop_bit (k * 2 * kLookupBits + 1) x AND (push_bit ?m 1 - 1)"
    unfolding take_bit_eq_mask mask_eq_exp_minus_1 by (simp add: push_bit_eq_mult kLookupBits_def)
  finally show ?thesis by simp
qed

definition ij_state :: "nat \<Rightarrow> nat \<times> nat \<times> nat \<Rightarrow> nat \<times> nat \<times> nat" where
  "ij_state k = (\<lambda>(i, j, r). (i * 2 ^ (4 * k), j * 2 ^ (4 * k), r))"

lemma ij_step:
  assumes "k < 8" "r < 4"
  shows "ij_GET_BITS x k (ij_state (Suc k) (prefix_walk r (leaf_pos x) (Suc k))) = ij_state k (prefix_walk r (leaf_pos x) k)"
proof -
  obtain i j r' where w: "prefix_walk r (leaf_pos x) (Suc k) = (i, j, r')" by (metis prod_cases3)
  have p: "leaf_pos x < 4 ^ 30" by (simp add: leaf_pos_def)
  have r': "r' < 4" using prefix_walk_bounds [OF assms(2) p _ w] assms(1) by simp
  let ?p = "leaf_pos x div 4 ^ (4 * k) mod 256"
  obtain a b c where v: "walk 4 r' ?p = (a, b, c)" by (metis prod_cases3)
  have b: "a < 16" "b < 16" "c < 4" using walk_bounds [OF r' _ v] by simp_all
  have l: "lookup_ij MaybeInit (r' + push_bit 2 ?p) = (a * 16 + b) * 4 + c"
    using lookup_ij_walk [OF r' _ v] by (simp add: push_bit_eq_mult add.commute)
  have d: "drop_bit 6 ((a * 16 + b) * 4 + c) = a" "drop_bit 2 ((a * 16 + b) * 4 + c) AND 15 = b"
    "((a * 16 + b) * 4 + c) AND 3 = c"
    using packed_fields [OF b(2,3)] by simp_all
  show ?thesis
    unfolding w prefix_walk_step [OF assms(1) p w v] ij_GET_BITS_def ij_state_def prod.case Let_def group_bits [OF assms(1)] l
    using d by (simp add: kLookupBits_def kSwapMask_def kInvertMask_def push_bit_eq_mult power_add algebra_simps)
qed

lemma ij_loop:
  assumes "r < 4" "n \<le> 8"
  shows "fold (ij_GET_BITS x) (rev [0..<n]) (ij_state n (prefix_walk r (leaf_pos x) n)) = ij_state 0 (prefix_walk r (leaf_pos x) 0)"
  using assms(2)
proof (induction n)
  case (Suc n)
  then show ?case using ij_step [of n r x] assms(1) by simp
qed simp

lemma ToFaceIJOrientation_walk:
  "ToFaceIJOrientation x =
     (let (i, j, r) = walk 30 (face x mod 2) (leaf_pos x)
      in (face x, i, j, if lsb x AND 0x1111111111111110 \<noteq> 0 then r XOR 1 else r))"
proof -
  have l: "[7, 6, 5, 4, 3, 2, 1, 0] = rev [0..<8]" by (simp add: upt_rec)
  have p: "leaf_pos x < 4 ^ 30" by (simp add: leaf_pos_def)
  have "face x AND 1 = face x mod 2" by simp
  have "fold (ij_GET_BITS x) (rev [0..<8]) (0, 0, face x mod 2) = walk 30 (face x mod 2) (leaf_pos x)"
    using ij_loop [of "face x mod 2" 8 x] prefix_walk_8 [OF p] prefix_walk_0 [OF _ p, of "face x mod 2"]
    by (simp add: ij_state_def split: prod.split)
  then show ?thesis
    unfolding ToFaceIJOrientation_def l by (simp add: kSwapMask_def and_one_eq Let_def split: prod.split)
qed


section \<open>From the coordinates to the id\<close>

definition pos_state :: "nat \<Rightarrow> nat \<Rightarrow> nat \<Rightarrow> nat \<times> nat \<times> nat \<Rightarrow> uint64 \<times> nat" where
  "pos_state fc p k = (\<lambda>(i, j, r). (push_bit (8 * k) (of_nat (fc * 4 ^ (30 - 4 * k) + p div 4 ^ (4 * k))), r))"

lemma prefix_coords:
  assumes "r < 4" "p < 4 ^ 30" "k \<le> 8" "prefix_walk r p 0 = (i, j, r')" "prefix_walk r p k = (a, b, r'')"
  shows "a = i div 2 ^ (4 * k)" "b = j div 2 ^ (4 * k)"
proof -
  have m: "(4::nat) * 8 = 4 * (8 - k) + 4 * k" using assms(3) by simp
  have b: "p < 4 ^ (4 * (8 - k) + 4 * k)" using assms(2) unfolding m [symmetric] by simp
  obtain a' b' c where w: "walk (4 * k) r'' (p mod 4 ^ (4 * k)) = (a', b', c)" by (metis prod_cases3)
  have r'': "r'' < 4" by (rule prefix_walk_bounds [OF assms(1,2,3,5)])
  have "a' < 2 ^ (4 * k)" "b' < 2 ^ (4 * k)" using walk_bounds [OF r'' _ w] by simp_all
  moreover have "walk (4 * (8 - k) + 4 * k) r p = (i, j, r')"
    using assms(4) unfolding prefix_walk_def m [symmetric] by simp
  then have "i = a * 2 ^ (4 * k) + a'" "j = b * 2 ^ (4 * k) + b'"
    using assms(5) w unfolding walk_add [OF b] prefix_walk_def by simp_all
  ultimately show "a = i div 2 ^ (4 * k)" "b = j div 2 ^ (4 * k)" by simp_all
qed

lemma or_group:
  fixes h y :: nat
  assumes "y < 2 ^ m"
  shows "push_bit s (push_bit m (of_nat h)) OR push_bit s (of_nat y) = push_bit s (of_nat (h * 2 ^ m + y) :: 'a::len word)"
proof -
  have "unat (of_nat y :: 'a word) < 2 ^ m"
    using assms by (simp add: unat_of_nat le_less_trans [OF mod_less_eq_dividend])
  then have "push_bit s (push_bit m (of_nat h) OR of_nat y) = push_bit s (push_bit m (of_nat h) + of_nat y :: 'a word)"
    by (simp only: push_plus_word)
  moreover have "push_bit m (of_nat h) + of_nat y = (of_nat (h * 2 ^ m + y) :: 'a word)"
    by (simp add: push_bit_eq_mult)
  ultimately show ?thesis by (simp only: push_bit_or)
qed

lemma pos_GET_BITS_eq:
  "pos_GET_BITS i j k (n, q) =
     (let bits = lookup_pos MaybeInit (q + nat (push_bit 6 (drop_bit (k * 4) i AND 15)) + nat (push_bit 2 (drop_bit (k * 4) j AND 15)))
      in (n OR push_bit (8 * k) (of_nat (drop_bit 2 bits)), bits AND 3))"
proof -
  have c: "push_bit kLookupBits 1 - 1 = (15 :: int)" "kLookupBits + 2 = 6" "k * kLookupBits = k * 4" "k * 2 * kLookupBits = 8 * k"
    "kSwapMask OR kInvertMask = 3"
    by (simp_all add: kLookupBits_def kSwapMask_def kInvertMask_def push_bit_eq_mult)
  show ?thesis unfolding pos_GET_BITS_def prod.case Let_def c ..
qed

lemma pos_step:
  assumes "k < 8" "r < 2" "p < 4 ^ 30" "walk 30 r p = (i, j, r')"
    and first: "k = 7 \<Longrightarrow> s = (push_bit 60 (of_nat fc), r)"
    and rest: "k < 7 \<Longrightarrow> s = pos_state fc p (Suc k) (prefix_walk r p (Suc k))"
  shows "pos_GET_BITS (int i) (int j) k s = pos_state fc p k (prefix_walk r p k)"
proof -
  have r: "r < 4" using assms(2) by simp
  obtain a b q where w: "prefix_walk r p (Suc k) = (a, b, q)" by (metis prod_cases3)
  have q: "q < 4" using prefix_walk_bounds [OF r assms(3) _ w] assms(1) by simp
  let ?p = "p div 4 ^ (4 * k) mod 256"
  obtain a' b' c where v: "walk 4 q ?p = (a', b', c)" by (metis prod_cases3)
  have bd: "a' < 16" "b' < 16" "c < 4" using walk_bounds [OF q _ v] by simp_all
  note pk = prefix_walk_step [OF assms(1,3) w v]
  have ij: "a * 16 + a' = i div 2 ^ (4 * k)" "b * 16 + b' = j div 2 ^ (4 * k)"
    using prefix_coords [OF r assms(3) _ _ pk] prefix_walk_0 [OF assms(2,3)] assms(1,4) by simp_all
  have lo: "nat (push_bit 6 (drop_bit (k * 4) (int i) AND 15)) = a' * 64" "nat (push_bit 2 (drop_bit (k * 4) (int j) AND 15)) = b' * 4"
  proof -
    have "drop_bit (k * 4) (int i) AND 15 = int (i div 2 ^ (4 * k) mod 16)" "drop_bit (k * 4) (int j) AND 15 = int (j div 2 ^ (4 * k) mod 16)"
      unfolding and_low drop_bit_eq_div by (simp_all add: zdiv_int zmod_int mult.commute)
    then show "nat (push_bit 6 (drop_bit (k * 4) (int i) AND 15)) = a' * 64" "nat (push_bit 2 (drop_bit (k * 4) (int j) AND 15)) = b' * 4"
      using bd unfolding ij [symmetric] by (simp_all add: push_bit_eq_mult nat_mult_distrib)
  qed
  have l: "lookup_pos MaybeInit (q + a' * 64 + b' * 4) = ?p * 4 + c"
    using lookup_pos_walk [OF q _ v] by (simp add: algebra_simps)
  have "(x * 4 + c) div 4 = x" "(x * 4 + c) mod 4 = c" for x using bd(3) by presburger+
  then have d: "drop_bit 2 (?p * 4 + c) = ?p" "(?p * 4 + c) AND 3 = c"
    unfolding and_low drop_bit_eq_div by simp_all
  have s: "s = (fst s, q)"
  proof (cases "k = 7")
    case True
    then show ?thesis using first w prefix_walk_8 [OF assms(3), of r] by simp
  next
    case False
    then show ?thesis using rest w assms(1) by (simp add: pos_state_def)
  qed
  have n: "fst s OR push_bit (8 * k) (of_nat ?p) = push_bit (8 * k) (of_nat (fc * 4 ^ (30 - 4 * k) + p div 4 ^ (4 * k)))"
  proof (cases "k = 7")
    case True
    have "p div 4 ^ 28 < 16" using assms(3) by (simp add: less_mult_imp_div_less)
    then have m: "?p = p div 4 ^ 28" "?p < 2 ^ 4" using True by simp_all
    have "fst s = push_bit (8 * k) (push_bit 4 (of_nat fc))" using first True by simp
    moreover have "fc * 2 ^ 4 + ?p = fc * 4 ^ (30 - 4 * k) + p div 4 ^ (4 * k)" using m(1) True by simp
    ultimately show ?thesis using or_group [OF m(2), of "8 * k" fc] by (simp only:)
  next
    case False
    let ?h = "fc * 4 ^ (30 - 4 * Suc k) + p div 4 ^ (4 * Suc k)"
    have "30 - 4 * k = 30 - 4 * Suc k + 4" using assms(1) False by simp
    then have "(4::nat) ^ (30 - 4 * k) = 4 ^ (30 - 4 * Suc k) * 4 ^ 4" by (metis power_add)
    moreover have "p div 4 ^ (4 * Suc k) = p div 4 ^ (4 * k) div 4 ^ 4" by (simp add: power_add mult.commute flip: div_mult2_eq)
    ultimately have h: "?h * 2 ^ 8 + ?p = fc * 4 ^ (30 - 4 * k) + p div 4 ^ (4 * k)" by (simp add: algebra_simps)
    have "fst s = push_bit (8 * k) (push_bit 8 (of_nat ?h))"
      using rest False assms(1) w by (simp add: pos_state_def add.commute [of _ 8] del: of_nat_add of_nat_mult)
    then show ?thesis using or_group [of ?p 8 "8 * k" ?h] by (simp only: h) simp
  qed
  show ?thesis
    unfolding pk pos_state_def prod.case n [symmetric]
    by (subst s) (simp only: pos_GET_BITS_eq lo l d Let_def)
qed


lemma FromFaceIJ_walk:
  assumes "p < 4 ^ 30" "walk 30 (fc mod 2) p = (i, j, r')"
  shows "FromFaceIJ fc (int i) (int j) = cell_at 30 (fc * 4 ^ 30 + p)"
proof -
  let ?r = "fc mod 2"
  let ?f = "pos_GET_BITS (int i) (int j)"
  have 7: "?f 7 (push_bit 60 (of_nat fc), ?r) = pos_state fc p 7 (prefix_walk ?r p 7)"
    using assms by (intro pos_step [where r' = r']) simp_all
  have "fold ?f (rev [0..<n]) (pos_state fc p n (prefix_walk ?r p n)) = pos_state fc p 0 (prefix_walk ?r p 0)" if "n \<le> 7" for n
    using that
  proof (induction n)
    case (Suc n)
    have "?f n (pos_state fc p (Suc n) (prefix_walk ?r p (Suc n))) = pos_state fc p n (prefix_walk ?r p n)"
      using assms Suc.prems by (intro pos_step [where r' = r']) simp_all
    then show ?case using Suc by simp
  qed simp
  note f = this [of 7]
  have "[7, 6, 5, 4, 3, 2, 1, 0] = 7 # rev [0..<7]" by (simp add: upt_rec)
  then have "fold ?f [7, 6, 5, 4, 3, 2, 1, 0] (push_bit 60 (of_nat fc), ?r) = pos_state fc p 0 (prefix_walk ?r p 0)"
    using f 7 by (simp del: upt.simps upt_rec_numeral)
  then show ?thesis
    using prefix_walk_0 [of ?r p] assms
    by (simp add: FromFaceIJ_def kSwapMask_def and_one_eq pos_state_def cell_at_def)
qed


section \<open>Cells as squares\<close>

text \<open>The square of a cell: its coordinates in the grid of its level, and its orientation.\<close>

definition square :: "cellid \<Rightarrow> nat \<times> nat \<times> nat" where
  "square x = walk (cell_lv x) (face x mod 2) (cell_index x mod 4 ^ cell_lv x)"

lemma square_at:
  assumes "l \<le> 30" "q < 7 * 4 ^ l"
  shows "square (cell_at l q) = walk l (q div 4 ^ l mod 2) (q mod 4 ^ l)"
  using assms by (simp add: square_def span_at face_at)

lemma block_mod: "c < k \<Longrightarrow> (q * k + c) mod (k * m) = (q mod m) * k + (c :: nat)"
  by (simp add: mod_mult2_eq)

lemma leaf_pos_at:
  assumes "l \<le> 30" "q < 7 * 4 ^ l"
  shows "leaf_pos (cell_at l q) = (q mod 4 ^ l) * 4 ^ (30 - l) + (if l = 30 then 0 else 2 * 4 ^ (29 - l))"
proof (cases "l = 30")
  case True
  then show ?thesis using assms unat_cell_at [OF assms] by (simp add: leaf_pos_def)
next
  case False
  then have l: "30 - l = Suc (29 - l)" using assms(1) by simp
  have "unat (cell_at l q) div 2 = q * 4 ^ (30 - l) + 2 * 4 ^ (29 - l)"
    unfolding unat_cell_at [OF assms] l power_Suc by simp
  moreover have "4 ^ 30 = (4 :: nat) ^ (30 - l) * 4 ^ l" using assms(1) by (simp flip: power_add)
  moreover have "2 * 4 ^ (29 - l) < (4 :: nat) ^ (30 - l)" unfolding l by simp
  ultimately show ?thesis
    using False block_mod [of "2 * 4 ^ (29 - l)" "4 ^ (30 - l)" q "4 ^ l"] by (simp only: leaf_pos_def if_False)
qed

definition centre_offset :: "nat \<Rightarrow> nat \<Rightarrow> nat" where
  "centre_offset l r = (if l = 30 then 0 else if r < 2 then 2 ^ (29 - l) else 2 ^ (29 - l) - 1)"

lemma walk_centre:
  assumes "l < 30" "r < 4"
  shows "walk (30 - l) r (2 * 4 ^ (29 - l)) =
    (centre_offset l r, centre_offset l r, if even (30 - l) then r XOR 1 else r)"
proof -
  define n where "n = 29 - l"
  have n: "30 - l = Suc n" using assms(1) by (simp add: n_def)
  have t: "kPosToOrientation ! 2 = 0" "kPosToIJ ! 0 ! 2 = 3" "kPosToIJ ! 1 ! 2 = 3" "kPosToIJ ! 2 ! 2 = 0" "kPosToIJ ! 3 ! 2 = 0"
    by (simp_all add: kPosToOrientation_def kPosToIJ_def)
  have z: "walk n 0 0 = (0, 0, n mod 2)" "walk n 1 0 = (0, 0, (1 + n) mod 2)"
    "walk n 2 0 = (2 ^ n - 1, 2 ^ n - 1, 2 + n mod 2)" "walk n 3 0 = (2 ^ n - 1, 2 ^ n - 1, 2 + (1 + n) mod 2)"
    using walk_zero(1) [of 0 n] walk_zero(1) [of 1 n] walk_zero(2) [of 0 n] walk_zero(2) [of 1 n]
    by (simp_all add: numeral_3_eq_3)
  have x: "n mod 2 = (if even (Suc n) then 1 else 0)" "Suc n mod 2 = (if even (Suc n) then 0 else 1)" by presburger+
  show ?thesis
    using assms(2) unfolding less4 n n_def [symmetric]
    using assms(1) z by (elim disjE) (simp_all add: walk.simps(2) t [simplified] x Let_def centre_offset_def n_def [symmetric])
qed

text \<open>The mask that tests for an odd number of curve reversals selects every fourth bit from 4 on.\<close>

lemma flip_mask_bit: "m \<le> 30 \<Longrightarrow> bit (0x1111111111111110 :: uint64) (2 * m) \<longleftrightarrow> 0 < m \<and> even m"
proof -
  have "\<forall>m \<in> set [0..<31]. bit (0x1111111111111110 :: uint64) (2 * m) \<longleftrightarrow> 0 < m \<and> even m"
    by code_simp
  then show "m \<le> 30 \<Longrightarrow> ?thesis" by simp
qed

lemma ToFaceIJOrientation_at:
  assumes "l \<le> 30" "q < 6 * 4 ^ l" "square (cell_at l q) = (i, j, r)"
  shows "ToFaceIJOrientation (cell_at l q) =
    (q div 4 ^ l, i * 2 ^ (30 - l) + centre_offset l r, j * 2 ^ (30 - l) + centre_offset l r, r)"
proof -
  let ?x = "cell_at l q" and ?f = "q div 4 ^ l"
  have q: "q < 7 * 4 ^ l" by (rule index_bound [OF assms(2)])
  have w: "walk l (?f mod 2) (q mod 4 ^ l) = (i, j, r)" using assms(3) square_at [OF assms(1) q] by simp
  have r: "r < 4" using walk_bounds [OF _ _ w] by simp
  have flip: "lsb ?x AND 0x1111111111111110 \<noteq> 0 \<longleftrightarrow> l < 30 \<and> even (30 - l)"
    using flip_mask_bit [of "30 - l"] exp_and_eq_0_iff [of "2 * (30 - l)", where 'a=64] assms(1)
    by (simp add: lsb_cell_at q lsb_for_level_eq) auto
  let ?c = "if l = 30 then 0 else 2 * 4 ^ (29 - l) :: nat"
  have c: "?c < 4 ^ (30 - l)" 
  proof (cases "l = 30")
    case False
    then have "30 - l = Suc (29 - l)" using assms(1) by simp
    then show ?thesis by simp
  qed simp
  have "q mod 4 ^ l < 4 ^ l" by simp
  then have b: "leaf_pos ?x < 4 ^ (l + (30 - l))"
    using assms(1) by (simp add: leaf_pos_def)
  have e: "leaf_pos ?x div 4 ^ (30 - l) = q mod 4 ^ l" "leaf_pos ?x mod 4 ^ (30 - l) = ?c"
    unfolding leaf_pos_at [OF assms(1) q] using c by simp_all
  have "walk (30 - l) r ?c = (centre_offset l r, centre_offset l r, if l < 30 \<and> even (30 - l) then r XOR 1 else r)"
    using walk_centre [OF _ r] assms(1) by (cases "l = 30") (auto simp: centre_offset_def)
  then have "walk (l + (30 - l)) (?f mod 2) (leaf_pos ?x) =
      (i * 2 ^ (30 - l) + centre_offset l r, j * 2 ^ (30 - l) + centre_offset l r,
       if l < 30 \<and> even (30 - l) then r XOR 1 else r)"
    unfolding walk_add [OF b] e w by (simp add: e)
  then show ?thesis
    using assms(1) unfolding ToFaceIJOrientation_walk face_at [OF assms(1) q] flip by (simp add: xor.assoc)
qed

lemma tables_inv:
  assumes "r < 4" "ij < 4"
  shows "kIJtoPos ! r ! ij < 4" "kPosToIJ ! r ! (kIJtoPos ! r ! ij) = ij"
  using assms unfolding less4 by (auto simp: kPosToIJ_def kIJtoPos_def)

lemma walk_surj:
  assumes "r < 4" "i < 2 ^ n" "j < 2 ^ n"
  shows "\<exists>p r'. p < 4 ^ n \<and> walk n r p = (i, j, r')"
  using assms
proof (induction n arbitrary: r i j)
  case (Suc n)
  let ?ij = "2 * (i div 2 ^ n) + j div 2 ^ n"
  let ?d = "kIJtoPos ! r ! ?ij"
  have b: "i div 2 ^ n < 2" "j div 2 ^ n < 2" using Suc.prems by (simp_all add: less_mult_imp_div_less)
  then have "?ij < 4" by linarith
  note d = tables_inv [OF Suc.prems(1) this]
  obtain p r' where p: "p < 4 ^ n" "walk n (r XOR kPosToOrientation ! ?d) p = (i mod 2 ^ n, j mod 2 ^ n, r')"
    using Suc.IH [OF tables(2) [OF Suc.prems(1) d(1)], of "i mod 2 ^ n" "j mod 2 ^ n"] by auto
  have "?d \<le> 3" using d(1) by simp
  then have "?d * 4 ^ n \<le> 3 * 4 ^ n" by (rule mult_le_mono1)
  then have "?d * 4 ^ n + p < 4 ^ Suc n" using p(1) unfolding power_Suc by linarith
  moreover have "?ij div 2 = i div 2 ^ n" "?ij mod 2 = j div 2 ^ n" using b(2) by simp_all
  moreover have "(?d * 4 ^ n + p) div 4 ^ n = ?d" "(?d * 4 ^ n + p) mod 4 ^ n = p" using p(1) by simp_all
  then have "walk (Suc n) r (?d * 4 ^ n + p) =
      (?ij div 2 * 2 ^ n + i mod 2 ^ n, ?ij mod 2 * 2 ^ n + j mod 2 ^ n, r')"
    using p(2) by (simp only: walk.simps(2) d(2) Let_def prod.case)
  ultimately have "?d * 4 ^ n + p < 4 ^ Suc n \<and> walk (Suc n) r (?d * 4 ^ n + p) = (i, j, r')"
    by (simp only: div_mult_mod_eq)
  then show ?case by blast
qed simp


lemma square_bounds:
  assumes "is_valid x" "square x = (i, j, r)"
  shows "i < 2 ^ cell_lv x" "j < 2 ^ cell_lv x" "r < 4"
proof -
  have "face x mod 2 < 4" "cell_index x mod 4 ^ cell_lv x < 4 ^ cell_lv x"
    by (simp_all add: less_le_trans [of "face x mod 2" 2])
  then show "i < 2 ^ cell_lv x" "j < 2 ^ cell_lv x" "r < 4"
    using assms(2) walk_bounds unfolding square_def by blast+
qed

lemma FromFaceIJ_parent:
  assumes "fc < 6" "l \<le> 30" "p < 4 ^ l" "walk l (fc mod 2) p = (i div 2 ^ (30 - l), j div 2 ^ (30 - l), r)"
    and "i < 2 ^ 30" "j < 2 ^ 30"
  shows "parent_at (FromFaceIJ fc (int i) (int j)) l = cell_at l (fc * 4 ^ l + p)"
proof -
  have f: "fc mod 2 < 4" by (simp add: less_le_trans [of "fc mod 2" 2])
  obtain P r' where P: "P < 4 ^ 30" "walk 30 (fc mod 2) P = (i, j, r')" using walk_surj [OF f assms(5,6)] by blast
  have l30: "30 = l + (30 - l)" using assms(2) by simp
  have pb: "P < 4 ^ (l + (30 - l))" using P(1) l30 by simp
  obtain a b c where w: "walk l (fc mod 2) (P div 4 ^ (30 - l)) = (a, b, c)" by (metis prod_cases3)
  have Pl: "P div 4 ^ (30 - l) < 4 ^ l" using pb by (simp add: power_add less_mult_imp_div_less)
  have c: "c < 4" using walk_bounds [OF f Pl w] by simp
  obtain a' b' c' where v: "walk (30 - l) c (P mod 4 ^ (30 - l)) = (a', b', c')" by (metis prod_cases3)
  have bd: "a' < 2 ^ (30 - l)" "b' < 2 ^ (30 - l)" using walk_bounds [OF c _ v] by simp_all
  have "walk (l + (30 - l)) (fc mod 2) P = (i, j, r')" using P(2) l30 by simp
  then have "i = a * 2 ^ (30 - l) + a'" "j = b * 2 ^ (30 - l) + b'"
    unfolding walk_add [OF pb] w prod.case v Let_def by simp_all
  then have "a = i div 2 ^ (30 - l)" "b = j div 2 ^ (30 - l)" using bd by simp_all
  then have p: "P div 4 ^ (30 - l) = p" using walk_inj [OF f Pl assms(3)] w assms(4) by simp
  have q: "fc * 4 ^ 30 + P < 6 * 4 ^ 30"
  proof -
    have "fc * 4 ^ 30 \<le> 5 * 4 ^ 30" using assms(1) by (intro mult_le_mono1) simp
    then show ?thesis using P(1) by simp
  qed
  have "(fc * 4 ^ 30 + P) div 4 ^ (30 - l) = fc * 4 ^ l + p"
  proof -
    have "(4::nat) ^ 30 = 4 ^ l * 4 ^ (30 - l)" using assms(2) by (simp flip: power_add)
    then have "fc * 4 ^ 30 + P = P + fc * 4 ^ l * 4 ^ (30 - l)" by simp
    then show ?thesis using p by (simp only: div_mult_self1 zero_neq_numeral power_not_zero not_False_eq_True)
  qed
  then show ?thesis
    using FromFaceIJ_walk [OF P] parent_at_at [OF assms(2) order_refl, of "fc * 4 ^ 30 + P"] index_bound [OF q] by simp
qed



section \<open>Continuity\<close>

text \<open>Where the curve leaves the square that it enters with orientation \<open>r\<close>.\<close>

definition entry :: "nat \<Rightarrow> nat \<Rightarrow> nat \<times> nat" where
  "entry n r = (if r < 2 then (0, 0) else (2 ^ n - 1, 2 ^ n - 1))"

definition exit :: "nat \<Rightarrow> nat \<Rightarrow> nat \<times> nat" where
  "exit n r = (if r = 0 \<or> r = 3 then (2 ^ n - 1, 0) else (0, 2 ^ n - 1))"

lemma walk_entry: "r < 4 \<Longrightarrow> \<exists>r'. walk n r 0 = (fst (entry n r), snd (entry n r), r')"
  using walk_zero(1) [of r n] walk_zero(2) [of "r - 2" n] le_add_diff_inverse [of 2 r]
  by (cases "r < 2") (auto simp: entry_def)

lemma orient_steps:
  "0 XOR kPosToOrientation ! 0 = 1" "0 XOR kPosToOrientation ! 1 = 0" "0 XOR kPosToOrientation ! 2 = 0" "0 XOR kPosToOrientation ! 3 = 3"
  "1 XOR kPosToOrientation ! 0 = 0" "1 XOR kPosToOrientation ! 1 = 1" "1 XOR kPosToOrientation ! 2 = 1" "1 XOR kPosToOrientation ! 3 = 2"
  "2 XOR kPosToOrientation ! 0 = 3" "2 XOR kPosToOrientation ! 1 = 2" "2 XOR kPosToOrientation ! 2 = 2" "2 XOR kPosToOrientation ! 3 = 1"
  "3 XOR kPosToOrientation ! 0 = 2" "3 XOR kPosToOrientation ! 1 = 3" "3 XOR kPosToOrientation ! 2 = 3" "3 XOR kPosToOrientation ! 3 = (0 :: nat)"
  by (simp_all add: kPosToOrientation_def kSwapMask_def kInvertMask_def)

lemma ij_steps:
  "kPosToIJ ! 0 ! 0 = 0" "kPosToIJ ! 0 ! 1 = 1" "kPosToIJ ! 0 ! 2 = 3" "kPosToIJ ! 0 ! 3 = 2"
  "kPosToIJ ! 1 ! 0 = 0" "kPosToIJ ! 1 ! 1 = 2" "kPosToIJ ! 1 ! 2 = 3" "kPosToIJ ! 1 ! 3 = 1"
  "kPosToIJ ! 2 ! 0 = 3" "kPosToIJ ! 2 ! 1 = 2" "kPosToIJ ! 2 ! 2 = 0" "kPosToIJ ! 2 ! 3 = 1"
  "kPosToIJ ! 3 ! 0 = 3" "kPosToIJ ! 3 ! 1 = 1" "kPosToIJ ! 3 ! 2 = 0" "kPosToIJ ! 3 ! 3 = 2"
  by (simp_all add: kPosToIJ_def)

lemma last_block: "0 < k \<Longrightarrow> (4 * k - 1) div k = (3 :: nat)" "0 < k \<Longrightarrow> (4 * k - 1) mod k = k - (1 :: nat)"
proof -
  assume k: "0 < k"
  then show d: "(4 * k - 1) div k = 3" by (intro div_nat_eqI) auto
  show "(4 * k - 1) mod k = k - 1" using minus_mult_div_eq_mod [of "4 * k - 1" k] d k by simp
qed

lemma walk_exit: "r < 4 \<Longrightarrow> \<exists>r'. walk n r (4 ^ n - 1) = (fst (exit n r), snd (exit n r), r')"
proof (induction n arbitrary: r)
  case 0
  then show ?case by (simp add: exit_def)
next
  case (Suc n)
  have d: "(4 ^ Suc n - 1) div 4 ^ n = (3 :: nat)" "(4 ^ Suc n - 1) mod 4 ^ n = (4 ^ n - 1 :: nat)"
    using last_block [of "4 ^ n"] by (simp_all only: power_Suc zero_less_power zero_less_numeral)
  obtain r' where "walk n (r XOR kPosToOrientation ! 3) (4 ^ n - 1) =
      (fst (exit n (r XOR kPosToOrientation ! 3)), snd (exit n (r XOR kPosToOrientation ! 3)), r')"
    using Suc.IH [OF tables(2) [OF Suc.prems, of 3]] by auto
  then show ?case
    using Suc.prems unfolding less4 walk.simps(2) d
    by (elim disjE) (simp_all add: orient_steps [simplified] ij_steps [simplified] exit_def Let_def mult_2)
qed

definition adjacent :: "nat \<times> nat \<Rightarrow> nat \<times> nat \<Rightarrow> bool" where
  "adjacent = (\<lambda>(i, j) (i', j'). i = i' \<and> (j' = j + 1 \<or> j = j' + 1) \<or> j = j' \<and> (i' = i + 1 \<or> i = i' + 1))"

lemma corner_adjacent:
  assumes "r < 4" "d < 3"
  shows "adjacent
    (kPosToIJ ! r ! d div 2 * 2 ^ n + fst (exit n (r XOR kPosToOrientation ! d)),
     kPosToIJ ! r ! d mod 2 * 2 ^ n + snd (exit n (r XOR kPosToOrientation ! d)))
    (kPosToIJ ! r ! (d + 1) div 2 * 2 ^ n + fst (entry n (r XOR kPosToOrientation ! (d + 1))),
     kPosToIJ ! r ! (d + 1) mod 2 * 2 ^ n + snd (entry n (r XOR kPosToOrientation ! (d + 1))))"
proof -
  obtain m where m: "(2::nat) ^ n = Suc m" using gr0_implies_Suc [of "2 ^ n"] by auto
  have "d = 0 \<or> d = 1 \<or> d = 2" using assms(2) by linarith
  then show ?thesis
    using assms(1) unfolding less4 exit_def entry_def m
    by (elim disjE) (simp_all add: orient_steps [simplified] ij_steps [simplified] adjacent_def numeral_2_eq_2 [symmetric] numeral_3_eq_3 [symmetric])
qed

lemma walk_adjacent:
  assumes "r < 4" "p + 1 < 4 ^ n" "walk n r p = (i, j, s)" "walk n r (p + 1) = (i', j', s')"
  shows "adjacent (i, j) (i', j')"
  using assms
proof (induction n arbitrary: r p i j s i' j' s')
  case (Suc n)
  let ?d = "p div 4 ^ n" and ?m = "p mod 4 ^ n"
  have d: "?d < 4" using Suc.prems(2) by (intro digit_less) simp
  show ?case
  proof (cases "?m + 1 < 4 ^ n")
    case True
    then have e: "(p + 1) div 4 ^ n = ?d" "(p + 1) mod 4 ^ n = ?m + 1"
      by (simp_all add: div_Suc mod_Suc)
    let ?r = "r XOR kPosToOrientation ! ?d"
    obtain a b c where w: "walk n ?r ?m = (a, b, c)" by (metis prod_cases3)
    obtain a' b' c' where w': "walk n ?r (?m + 1) = (a', b', c')" by (metis prod_cases3)
    have "adjacent (a, b) (a', b')" using Suc.IH [OF tables(2) [OF Suc.prems(1) d] True w w'] .
    then show ?thesis
      using Suc.prems(3,4) w w' unfolding walk.simps(2) e by (auto simp: Let_def adjacent_def)
  next
    case False
    then have m: "?m = 4 ^ n - 1" by (metis One_nat_def Suc_eq_plus1 Suc_lessI diff_Suc_1 mod_less_divisor zero_less_numeral zero_less_power)
    have e: "(p + 1) div 4 ^ n = ?d + 1" "(p + 1) mod 4 ^ n = 0"
      using m by (simp_all add: div_Suc mod_Suc)
    have d3: "?d < 3" using digit_less [OF Suc.prems(2)] e(1) by linarith
    obtain a where a: "walk n (r XOR kPosToOrientation ! ?d) (4 ^ n - 1) =
        (fst (exit n (r XOR kPosToOrientation ! ?d)), snd (exit n (r XOR kPosToOrientation ! ?d)), a)"
      using walk_exit [OF tables(2) [OF Suc.prems(1) d]] by blast
    obtain b where b: "walk n (r XOR kPosToOrientation ! (?d + 1)) 0 =
        (fst (entry n (r XOR kPosToOrientation ! (?d + 1))), snd (entry n (r XOR kPosToOrientation ! (?d + 1))), b)"
      using walk_entry [OF tables(2) [OF Suc.prems(1)], of "?d + 1" n] d3 by auto
    show ?thesis
      using corner_adjacent [OF Suc.prems(1) d3, of n] Suc.prems(3,4)
      unfolding walk.simps(2) e m Let_def a b prod.case prod.inject by (elim conjE) (simp only:)
  qed
qed simp

end
