(* ===== verification/Hilbert_Properties.thy ===== *)
theory Hilbert_Properties
  imports Hilbert_Correct Cell_Id_Properties
begin

text \<open>
  The properties of the Hilbert curve conversions: cells of a level are the squares of a grid on
  each face, consecutive cells of a face are neighbours in it.
\<close>

text \<open>The face of a cell and its coordinates in the grid of its level.\<close>

definition grid :: "cellid \<Rightarrow> nat \<times> nat \<times> nat" where
  "grid x = (case ToFaceIJOrientation x of (fc, i, j, _) \<Rightarrow> (fc, i div GetSizeIJ x, j div GetSizeIJ x))"

lemma GetSizeIJ_eq: "is_valid x \<Longrightarrow> GetSizeIJ x = 2 ^ (30 - cell_lv x)"
  unfolding GetSizeIJ_def GetSizeIJ_level_def cell_lv_def [symmetric]
  using unat_exp [of "30 - cell_lv x", where 'a = 64] by (simp add: push_bit_eq_mult)

lemma centre_offset_less:
  assumes "l \<le> 30"
  shows "centre_offset l r < 2 ^ (30 - l)"
proof (cases "l < 30")
  case True
  then have "(2::nat) ^ (30 - l) = 2 * 2 ^ (29 - l)" by (simp flip: power_Suc add: Suc_diff_Suc)
  then show ?thesis by (simp add: centre_offset_def less_imp_diff_less)
qed (use assms in \<open>auto simp: centre_offset_def\<close>)

lemma ToFaceIJOrientation_square:
  assumes "is_valid x" "square x = (i, j, r)"
  shows "ToFaceIJOrientation x =
    (face x, i * 2 ^ (30 - cell_lv x) + centre_offset (cell_lv x) r,
     j * 2 ^ (30 - cell_lv x) + centre_offset (cell_lv x) r, r)"
  using assms(1)
proof (cases rule: cell_span_at_cases)
  case (1 l q)
  then show ?thesis using ToFaceIJOrientation_at [OF 1(1,2)] assms(2) by (simp add: span_at face_at)
qed

lemma cell_lv_le: "is_valid x \<Longrightarrow> cell_lv x \<le> 30"
  by (elim cell_span_at_cases) (simp add: span_at)

lemma grid_square:
  assumes "is_valid x" "square x = (i, j, r)"
  shows "grid x = (face x, i, j)"
  using ToFaceIJOrientation_square [OF assms] centre_offset_less [of "cell_lv x" r] cell_lv_le [OF assms(1)]
  by (simp add: grid_def GetSizeIJ_eq assms(1))

lemma face_block: "fc < 6 \<Longrightarrow> p < n \<Longrightarrow> fc * n + p < 6 * (n :: nat)"
  using mult_le_mono1 [of fc 5 n] by linarith

lemma block_less: "a < m \<Longrightarrow> c < k \<Longrightarrow> a * k + c < m * (k :: nat)"
  using mult_le_mono1 [of "Suc a" m k] by simp

lemma FromFaceIJ_grid:
  assumes "fc < 6" "l \<le> 30" "i < 2 ^ 30" "j < 2 ^ 30"
  defines "x \<equiv> parent_at (FromFaceIJ fc (int i) (int j)) l"
  shows "is_valid x" "cell_lv x = l" "grid x = (fc, i div 2 ^ (30 - l), j div 2 ^ (30 - l))"
proof -
  have two: "(2::nat) ^ 30 = 2 ^ l * 2 ^ (30 - l)" using assms(2) by (simp flip: power_add)
  have "fc mod 2 < 4" by (simp add: less_le_trans [of "fc mod 2" 2])
  moreover have "i div 2 ^ (30 - l) < 2 ^ l" "j div 2 ^ (30 - l) < 2 ^ l"
    using assms(3,4) unfolding two by (simp_all add: less_mult_imp_div_less)
  ultimately obtain p r where p: "p < 4 ^ l" "walk l (fc mod 2) p = (i div 2 ^ (30 - l), j div 2 ^ (30 - l), r)"
    using walk_surj by blast
  have x: "x = cell_at l (fc * 4 ^ l + p)"
    unfolding x_def using assms p by (intro FromFaceIJ_parent)
  have q: "fc * 4 ^ l + p < 6 * 4 ^ l"
    using face_block assms(1) p(1) by blast
  then show "is_valid x" "cell_lv x = l" using assms(2) index_bound [OF q] by (simp_all add: x is_valid_at span_at)
  have "square x = (i div 2 ^ (30 - l), j div 2 ^ (30 - l), r)"
    unfolding x square_at [OF assms(2) index_bound [OF q]] using p by simp
  from grid_square [OF \<open>is_valid x\<close> this] show "grid x = (fc, i div 2 ^ (30 - l), j div 2 ^ (30 - l))"
    using p(1) assms(2) index_bound [OF q] by (simp add: x face_at)
qed


lemma FromFaceIJ_leaf:
  assumes "fc < 6" "i < 2 ^ 30" "j < 2 ^ 30"
  shows "is_valid (FromFaceIJ fc (int i) (int j))" "is_leaf (FromFaceIJ fc (int i) (int j))"
    "\<exists>r. ToFaceIJOrientation (FromFaceIJ fc (int i) (int j)) = (fc, i, j, r)"
proof -
  have "fc mod 2 < 4" by (simp add: less_le_trans [of "fc mod 2" 2])
  then obtain p r where p: "p < 4 ^ 30" "walk 30 (fc mod 2) p = (i, j, r)" using walk_surj assms(2,3) by blast
  note x = FromFaceIJ_walk [OF p]
  have q: "fc * 4 ^ 30 + p < 6 * 4 ^ 30" by (rule face_block [OF assms(1) p(1)])
  note q7 = index_bound [OF q]
  show "is_valid (FromFaceIJ fc (int i) (int j))" "is_leaf (FromFaceIJ fc (int i) (int j))"
    unfolding x using q q7 by (simp_all add: is_valid_at is_leaf_at)
  have f: "(fc * 4 ^ 30 + p) div 4 ^ 30 = fc" "(fc * 4 ^ 30 + p) mod 4 ^ 30 = p" using p(1) by simp_all
  have "square (cell_at 30 (fc * 4 ^ 30 + p)) = (i, j, r)"
    unfolding square_at [OF order_refl q7] f by (rule p(2))
  from ToFaceIJOrientation_at [OF order_refl q this]
  show "\<exists>r. ToFaceIJOrientation (FromFaceIJ fc (int i) (int j)) = (fc, i, j, r)"
    unfolding x f by (simp add: centre_offset_def)
qed

lemma ToFaceIJOrientation_back:
  assumes "is_valid x" "ToFaceIJOrientation x = (fc, i, j, r)"
  shows "fc = face x" "i < 2 ^ 30" "j < 2 ^ 30" "r < 4" "parent_at (FromFaceIJ fc (int i) (int j)) (cell_lv x) = x"
proof -
  let ?l = "cell_lv x"
  obtain I J r' where sq: "square x = (I, J, r')" by (metis prod_cases3)
  have e: "fc = face x" "i = I * 2 ^ (30 - ?l) + centre_offset ?l r'" "j = J * 2 ^ (30 - ?l) + centre_offset ?l r'" "r = r'"
    using assms(2) ToFaceIJOrientation_square [OF assms(1) sq] by auto
  note b = square_bounds [OF assms(1) sq] and l = cell_lv_le [OF assms(1)]
  note c = centre_offset_less [OF l, of r']
  have two: "(2::nat) ^ 30 = 2 ^ ?l * 2 ^ (30 - ?l)" using l by (simp flip: power_add)
  show "fc = face x" "r < 4" using e b by simp_all
  show ij: "i < 2 ^ 30" "j < 2 ^ 30" using b c unfolding e two by (simp_all add: block_less)
  have d: "i div 2 ^ (30 - ?l) = I" "j div 2 ^ (30 - ?l) = J" unfolding e using c by simp_all
  have fx: "face x < 6" using assms(1) by (simp add: is_valid_def)
  have p: "cell_index x mod 4 ^ ?l < 4 ^ ?l" by simp
  have "walk ?l (face x mod 2) (cell_index x mod 4 ^ ?l) = (i div 2 ^ (30 - ?l), j div 2 ^ (30 - ?l), r')"
    using sq d by (simp add: square_def)
  from FromFaceIJ_parent [OF fx l p this ij]
  have "parent_at (FromFaceIJ fc (int i) (int j)) ?l = cell_at ?l (face x * 4 ^ ?l + cell_index x mod 4 ^ ?l)"
    using e by simp
  also have "face x * 4 ^ ?l + cell_index x mod 4 ^ ?l = cell_index x"
    using assms(1) by (elim cell_span_at_cases) (simp add: span_at face_at div_mult_mod_eq)
  finally show "parent_at (FromFaceIJ fc (int i) (int j)) ?l = x"
    using assms(1) by (elim cell_span_at_cases) (simp add: span_at)
qed

lemma cell_of_index: "is_valid z \<Longrightarrow> cell_at (cell_lv z) (cell_index z) = z"
  by (elim cell_span_at_cases) (simp add: span_at)

lemma grid_inj:
  assumes "is_valid x" "is_valid y" "cell_lv x = cell_lv y" "grid x = grid y"
  shows "x = y"
proof -
  obtain i j r where x: "square x = (i, j, r)" by (metis prod_cases3)
  obtain i' j' r' where y: "square y = (i', j', r')" by (metis prod_cases3)
  have e: "face x = face y" "i = i'" "j = j'" using assms(4) grid_square [OF assms(1) x] grid_square [OF assms(2) y] by simp_all
  have "cell_index x mod 4 ^ cell_lv x = cell_index y mod 4 ^ cell_lv x"
    using x y unfolding square_def e assms(3) by (intro walk_inj [where r = "face y mod 2"]) (auto simp: less_le_trans [of "_ mod 2" 2])
  moreover have "cell_index z = face z * 4 ^ cell_lv z + cell_index z mod 4 ^ cell_lv z" if "is_valid z" for z
    using that by (elim cell_span_at_cases) (simp add: span_at face_at div_mult_mod_eq [symmetric])
  ultimately have "cell_index x = cell_index y" using e(1) assms(1-3) by metis
  then show ?thesis using assms(1-3) cell_of_index by metis
qed

lemma leaf_is_FromFaceIJ:
  assumes "is_valid y" "is_leaf y" "ToFaceIJOrientation y = (fc, i, j, r)"
  shows "y = FromFaceIJ fc (int i) (int j)"
proof -
  note b = ToFaceIJOrientation_back [OF assms(1,3)]
  have "fc < 6" using assms(1) b(1) by (simp add: is_valid_def)
  note v = FromFaceIJ_leaf [OF this b(2,3)]
  have "parent_at z 30 = z" if "is_valid z" "is_leaf z" for z
    using that by (elim cell_span_at_cases) (simp add: is_leaf_at parent_at_at)
  then show ?thesis using b(5) v(1,2) assms(1,2) is_leaf_iff [OF assms(1)] by simp
qed

lemma contains_leaf_grid:
  assumes "is_valid x" "is_valid y" "is_leaf y" "grid x = (fc, i, j)" "grid y = (fc', i', j')"
  shows "cell_contains x y \<longleftrightarrow> fc' = fc \<and> i' div GetSizeIJ x = i \<and> j' div GetSizeIJ x = j"
proof -
  let ?l = "cell_lv x"
  have y30: "cell_lv y = 30" using assms(2,3) is_leaf_iff by blast
  obtain f a b r where t: "ToFaceIJOrientation y = (f, a, b, r)" by (metis prod_cases4)
  have e: "f = fc'" "a = i'" "b = j'" using assms(2,5) t by (simp_all add: grid_def GetSizeIJ_eq y30)
  note b = ToFaceIJOrientation_back [OF assms(2) t]
  have f6: "f < 6" using assms(2) b(1) by (simp add: is_valid_def)
  note l = cell_lv_le [OF assms(1)]
  note p = FromFaceIJ_grid [OF f6 l b(2,3), folded leaf_is_FromFaceIJ [OF assms(2,3) t]]
  have "cell_contains x y \<longleftrightarrow> parent_at y ?l = x"
  proof -
    have "cell_contains x (parent_at y ?l) \<longleftrightarrow> cell_contains x y"
      using contains_ancestor_iff [OF assms(1,2), of ?l] y30 l by simp
    moreover have "cell_contains x (parent_at y ?l) \<longleftrightarrow> parent_at y ?l = x"
      using contains_iff_index [OF assms(1) p(1)] p(1,2) assms(1) cell_of_index by (metis diff_self_eq_0 div_by_1 le_refl power_0)
    ultimately show ?thesis by simp
  qed
  also have "\<dots> \<longleftrightarrow> grid (parent_at y ?l) = grid x"
    using grid_inj [OF p(1) assms(1) p(2)] by auto
  finally show ?thesis using assms(1,4) e p(3) by (simp add: GetSizeIJ_eq)
qed

lemma xor_mod_2: "(a XOR b) mod 2 = (if even a \<longleftrightarrow> even b then 0 else (1 :: nat))"
  using even_xor_iff [of a b] by (auto simp: mod2_eq_if)

lemma GetCenterSiTi_grid:
  assumes "is_valid x" "grid x = (fc, i, j)"
  shows "GetCenterSiTi x = (fc, (2 * i + 1) * GetSizeIJ x, (2 * j + 1) * GetSizeIJ x)"
proof -
  obtain a b r where sq: "square x = (a, b, r)" by (metis prod_cases3)
  have e: "fc = face x" "a = i" "b = j" using assms(2) grid_square [OF assms(1) sq] by simp_all
  from assms(1) show ?thesis
  proof (cases rule: cell_span_at_cases)
    case (1 l q)
    have lv: "cell_lv x = l" and leaf: "is_leaf x \<longleftrightarrow> l = 30" and u: "unat x = (2 * q + 1) * 4 ^ (30 - l)"
      using 1 by (simp_all add: span_at is_leaf_at unat_cell_at)
    note t = ToFaceIJOrientation_square [OF assms(1) sq, unfolded lv e(2,3), folded e(1)]
    show ?thesis
    proof (cases "l = 30")
      case True
      then show ?thesis
        using assms(1) by (simp add: GetCenterSiTi_def t leaf GetSizeIJ_eq lv centre_offset_def)
    next
      case False
      then have s: "30 - l = Suc (29 - l)" using 1(1) by simp
      have "unat (drop_bit 2 x) = unat x div 4" unfolding unat_drop_bit_eq by (simp add: drop_bit_eq_div)
      then have o: "odd (unat (drop_bit 2 x)) \<longleftrightarrow> 29 - l = 0" unfolding u s by auto
      obtain m where m: "(2::nat) ^ (29 - l) = Suc m" using gr0_implies_Suc [of "2 ^ (29 - l)"] by auto
      then have mo: "odd m \<longleftrightarrow> 29 - l \<noteq> 0" by (cases "29 - l") (auto dest: arg_cong [where f = even])
      have sz: "GetSizeIJ x = 2 * Suc m" using assms(1) s m by (simp add: GetSizeIJ_eq lv)
      show ?thesis
      proof (cases "r < 2")
        case True
        have "odd (i * 2 ^ (30 - l) + Suc m) \<longleftrightarrow> 29 - l = 0" using mo by (simp add: s)
        then show ?thesis
          using True False o m s by (simp add: GetCenterSiTi_def t leaf sz centre_offset_def Let_def and_one_eq xor_mod_2 algebra_simps)
      next
        case r2: False
        have "odd (i * 2 ^ (30 - l) + m) \<longleftrightarrow> 29 - l \<noteq> 0" using mo by (simp add: s)
        then show ?thesis
          using r2 False o m s by (simp add: GetCenterSiTi_def t leaf sz centre_offset_def Let_def and_one_eq xor_mod_2 algebra_simps)
      qed
    qed
  qed
qed


section \<open>Properties\<close>

text \<open>C16: \<open>FromFaceIJ\<close> and \<open>ToFaceIJOrientation\<close>, which work four levels at a time through the tables
  that \<open>MaybeInit\<close> fills, are inverse to each other: every face and pair of coordinates below
  \<^verbatim>\<open>2^30\<close> is a valid leaf cell with those coordinates, and the coordinates of a valid cell of any
  level lead to a leaf inside it.\<close>

theorem hilbert_roundtrip:
  "(fc < 6 \<and> i < 2 ^ 30 \<and> j < 2 ^ 30 \<longrightarrow>
      is_valid (FromFaceIJ fc (int i) (int j)) \<and> is_leaf (FromFaceIJ fc (int i) (int j)) \<and>
      (\<exists>r. ToFaceIJOrientation (FromFaceIJ fc (int i) (int j)) = (fc, i, j, r))) \<and>
   (is_valid x \<longrightarrow> (case ToFaceIJOrientation x of (fc', i', j', r') \<Rightarrow>
      fc' = face x \<and> i' < 2 ^ 30 \<and> j' < 2 ^ 30 \<and> r' < 4 \<and>
      parent_at (FromFaceIJ fc' (int i') (int j')) (nat (cell_level x)) = x))"
  using FromFaceIJ_leaf [of fc i j] ToFaceIJOrientation_back [of x]
  unfolding cell_lv_def by (cases "ToFaceIJOrientation x") auto

theorem hilbert_roundtrip_witness:
  "\<exists>r. ToFaceIJOrientation (FromFaceIJ 3 5 1000000000) = (3, 5, 1000000000, r)"
  using hilbert_roundtrip [of 3 5 1000000000] by simp

text \<open>C17: a cell is a square of the grid of its level: it contains exactly the leaf cells of its face
  whose coordinates, divided by the size of the cell, are its own, and \<open>GetCenterSiTi\<close> is the centre
  of that square in half units.\<close>

theorem cells_are_squares:
  assumes "is_valid x" and "is_valid y" and "is_leaf y" and "grid x = (fc, i, j)" and "grid y = (fc', i', j')"
  shows "(cell_contains x y \<longleftrightarrow> fc' = fc \<and> i' div GetSizeIJ x = i \<and> j' div GetSizeIJ x = j) \<and>
    GetCenterSiTi x = (fc, (2 * i + 1) * GetSizeIJ x, (2 * j + 1) * GetSizeIJ x)"
  using contains_leaf_grid [OF assms] GetCenterSiTi_grid [OF assms(1,4)] by blast

theorem cells_are_squares_witness:
  "\<exists>i j. GetCenterSiTi (cell_at 0 2) = (2, (2 * i + 1) * GetSizeIJ (cell_at 0 2), (2 * j + 1) * GetSizeIJ (cell_at 0 2))"
proof -
  have v: "is_valid (cell_at 0 2)" "is_valid (cell_at 30 9)" "is_leaf (cell_at 30 9)"
    by (simp_all add: is_valid_at is_leaf_at)
  obtain i j r where sx: "square (cell_at 0 2) = (i, j, r)" by (metis prod_cases3)
  obtain i' j' r' where sy: "square (cell_at 30 9) = (i', j', r')" by (metis prod_cases3)
  have "face (cell_at 0 2) = 2" by (simp add: face_at)
  then show ?thesis
    using cells_are_squares [OF v grid_square [OF v(1) sx] grid_square [OF v(2) sy]] by auto
qed

text \<open>C18: the curve is continuous on a face: consecutive cells of a level are squares that share an edge.\<close>

theorem hilbert_continuous:
  assumes "is_valid x" and "is_valid (cell_next x)" and "grid x = (fc, i, j)" and "grid (cell_next x) = (fc, i', j')"
  shows "adjacent (i, j) (i', j')"
proof -
  obtain l q where x: "l \<le> 30" "q < 6 * 4 ^ l" "q < 7 * 4 ^ l" "x = cell_at l q"
    using assms(1) by (rule cell_span_at_cases)
  have n: "cell_next x = cell_at l (q + 1)" using x by (simp add: cell_next_at)
  have q1: "q + 1 < 6 * 4 ^ l"
  proof (rule ccontr)
    assume "\<not> ?thesis"
    then have "q + 1 = 6 * 4 ^ l" using x(2) by simp
    then show False using assms(2) x(1) n face_at [of l "6 * 4 ^ l"] by (simp add: is_valid_def)
  qed
  note q17 = index_bound [OF q1]
  obtain a b r where sx: "square x = (a, b, r)" by (metis prod_cases3)
  obtain a' b' r' where sy: "square (cell_next x) = (a', b', r')" by (metis prod_cases3)
  have e: "q div 4 ^ l = fc" "a = i" "b = j" "(q + 1) div 4 ^ l = fc" "a' = i'" "b' = j'"
    using grid_square [OF assms(1) sx] grid_square [OF assms(2) sy] assms(3,4)
      face_at [OF x(1,3), folded x(4)] face_at [OF x(1) q17, folded n] by simp_all
  have m: "(q + 1) mod 4 ^ l = q mod 4 ^ l + 1" "q mod 4 ^ l + 1 < 4 ^ l"
    using e(1,4) by (auto simp: mod_Suc div_Suc split: if_splits) (metis Suc_lessI mod_less_divisor zero_less_numeral zero_less_power)
  have "walk l (fc mod 2) (q mod 4 ^ l) = (i, j, r)" "walk l (fc mod 2) (q mod 4 ^ l + 1) = (i', j', r')"
    using sx sy square_at [OF x(1,3), folded x(4)] square_at [OF x(1) q17, folded n] e m(1) by simp_all
  moreover have "fc mod 2 < 4" by (simp add: less_le_trans [of "fc mod 2" 2])
  ultimately show ?thesis using walk_adjacent [OF _ m(2)] by blast
qed

theorem hilbert_continuous_witness:
  "\<exists>i j i' j'. grid (cell_at 1 0) = (0, i, j) \<and> grid (cell_next (cell_at 1 0)) = (0, i', j') \<and> adjacent (i, j) (i', j')"
proof -
  have n: "cell_next (cell_at 1 0) = cell_at 1 1" by (simp add: cell_next_at)
  have v: "is_valid (cell_at 1 0)" "is_valid (cell_next (cell_at 1 0))" unfolding n by (simp_all add: is_valid_at)
  obtain i j r where sx: "square (cell_at 1 0) = (i, j, r)" by (metis prod_cases3)
  obtain i' j' r' where sy: "square (cell_next (cell_at 1 0)) = (i', j', r')" by (metis prod_cases3)
  have "face (cell_at 1 0) = 0" "face (cell_next (cell_at 1 0)) = 0" unfolding n by (simp_all add: face_at)
  then have g: "grid (cell_at 1 0) = (0, i, j)" "grid (cell_next (cell_at 1 0)) = (0, i', j')"
    using grid_square [OF v(1) sx] grid_square [OF v(2) sy] by simp_all
  then show ?thesis using hilbert_continuous [OF v g] by blast
qed

text \<open>C19: \<open>GetEdgeNeighbors\<close> returns four cells; where the square below, right of, above or left of the
  cell lies on the same face, the corresponding neighbour is the cell of the same level with that square,
  whatever the projection onto other faces does.\<close>

theorem edge_neighbors_correct:
  assumes "is_valid x" and "grid x = (fc, i, j)" and "n = 2 ^ nat (cell_level x)"
    and "k < 4" and "(i', j') = [(i, j - 1), (i + 1, j), (i, j + 1), (i - 1, j)] ! k"
    and "[0 < j, i + 1 < n, j + 1 < n, 0 < i] ! k"
  shows "length (GetEdgeNeighbors wrap x) = 4 \<and> is_valid (GetEdgeNeighbors wrap x ! k) \<and>
    cell_level (GetEdgeNeighbors wrap x ! k) = cell_level x \<and>
    grid (GetEdgeNeighbors wrap x ! k) = (fc, i', j')"
proof -
  let ?l = "cell_lv x" and ?s = "2 ^ (30 - cell_lv x) :: nat"
  have n: "n = 2 ^ ?l" using assms(3) by (simp add: cell_lv_def)
  have l: "?l \<le> 30" by (rule cell_lv_le [OF assms(1)])
  have f: "fc = face x" "fc < 6"
  proof -
    obtain a b r where "square x = (a, b, r)" by (metis prod_cases3)
    then show "fc = face x" using grid_square [OF assms(1)] assms(2) by simp
    then show "fc < 6" using assms(1) by (simp add: is_valid_def)
  qed
  obtain r where sq: "square x = (i, j, r)"
    using grid_square [OF assms(1)] assms(2) by (metis prod.inject prod_cases3)
  let ?c = "centre_offset ?l r"
  note ij = square_bounds [OF assms(1) sq] and c = centre_offset_less [OF l, of r]
  have t: "ToFaceIJOrientation x = (fc, i * ?s + ?c, j * ?s + ?c, r)"
    using ToFaceIJOrientation_square [OF assms(1) sq] f by simp
  have z: "int (GetSizeIJ_level ?l) = int ?s" using l by (simp add: GetSizeIJ_level_eq)
  have m: "int kMaxSize = int (2 ^ ?l * ?s)" using l by (simp flip: power_add)
  have below: "int (a * ?s + ?c) - int ?s = int ((a - 1) * ?s + ?c)" "int (a * ?s + ?c) - int ?s \<ge> 0" if "0 < a" for a
    using that by (cases a; simp)+
  have above: "int (a * ?s + ?c) + int ?s = int ((a + 1) * ?s + ?c)" for a
    by (simp add: algebra_simps)
  have inside: "int (a * ?s + ?c) < int kMaxSize" if "a < 2 ^ ?l" for a
    unfolding m of_nat_less_iff by (rule block_less [OF that c])
  have nbr: "is_valid y \<and> cell_level y = cell_level x \<and> grid y = (fc, a, b)"
    if "y = parent_at (FromFaceIJ fc (int (a * ?s + ?c)) (int (b * ?s + ?c))) ?l" "a < 2 ^ ?l" "b < 2 ^ ?l" for y a b
  proof -
    have "a * ?s + ?c < 2 ^ 30" "b * ?s + ?c < 2 ^ 30" using inside [OF that(2)] inside [OF that(3)] by (simp_all only: of_nat_less_iff kMaxSize_def kMaxLevel_def)
    from FromFaceIJ_grid [OF f(2) l this] c show ?thesis
      using int_cell_lv [of y] int_cell_lv [OF assms(1)] by (simp add: that(1))
  qed
  note E = GetEdgeNeighbors_def [of wrap x, unfolded cell_lv_def [symmetric] z t Let_def prod.case]
  have nth4: "[a, b, c, d] ! 0 = a" "[a, b, c, d] ! 1 = b" "[a, b, c, d] ! 2 = c" "[a, b, c, d] ! 3 = d" for a b c d :: cellid
    by simp_all
  have "k = 0 \<or> k = 1 \<or> k = 2 \<or> k = 3" using assms(4) by linarith
  then have "is_valid (GetEdgeNeighbors wrap x ! k) \<and> cell_level (GetEdgeNeighbors wrap x ! k) = cell_level x \<and>
      grid (GetEdgeNeighbors wrap x ! k) = (fc, i', j')"
  proof (elim disjE)
    assume k: "k = 0"
    then have a: "i' = i" "j' = j - 1" "0 < j" using assms(5,6) by simp_all
    show ?thesis
      unfolding a using ij
      by (intro nbr) (simp_all only: E k nth4 FromFaceIJSame_def below [OF a(3)] if_True, simp_all)
  next
    assume k: "k = 1"
    then have a: "i' = i + 1" "j' = j" "i + 1 < 2 ^ ?l" using assms(5,6) n by simp_all
    show ?thesis
      unfolding a using ij a(3)
      by (intro nbr) (simp_all only: E k nth4 FromFaceIJSame_def above inside [OF a(3)] if_True)
  next
    assume k: "k = 2"
    then have a: "i' = i" "j' = j + 1" "j + 1 < 2 ^ ?l" using assms(5,6) n by simp_all
    show ?thesis
      unfolding a using ij a(3)
      by (intro nbr) (simp_all only: E k nth4 FromFaceIJSame_def above inside [OF a(3)] if_True)
  next
    assume k: "k = 3"
    then have a: "i' = i - 1" "j' = j" "0 < i" using assms(5,6) by simp_all
    show ?thesis
      unfolding a using ij
      by (intro nbr) (simp_all only: E k nth4 FromFaceIJSame_def below [OF a(3)] if_True, simp_all)
  qed
  then show ?thesis by (simp add: GetEdgeNeighbors_def split_def Let_def)
qed

theorem edge_neighbors_correct_witness:
  "\<exists>i j. grid (GetEdgeNeighbors (\<lambda>_ _ _. 0) (cell_at 1 0) ! 2) = (0, i, j) \<or> grid (GetEdgeNeighbors (\<lambda>_ _ _. 0) (cell_at 1 0) ! 0) = (0, i, j)"
proof -
  have v: "is_valid (cell_at 1 0)" "face (cell_at 1 0) = 0" "cell_level (cell_at 1 0) = 1" "cell_lv (cell_at 1 0) = 1"
    by (simp_all add: is_valid_at face_at cell_level_at span_at)
  obtain i j r where sx: "square (cell_at 1 0) = (i, j, r)" by (metis prod_cases3)
  have g: "grid (cell_at 1 0) = (0, i, j)" using grid_square [OF v(1) sx] v(2) by simp
  have j: "j < 2" using square_bounds [OF v(1) sx] v(4) by simp
  show ?thesis
  proof (cases "j = 0")
    case True
    then show ?thesis
      using edge_neighbors_correct [OF v(1) g refl, of 2 i "j + 1" "\<lambda>_ _ _. 0"] v(3) by auto
  next
    case False
    then show ?thesis
      using edge_neighbors_correct [OF v(1) g refl, of 0 i "j - 1" "\<lambda>_ _ _. 0"] v(3) by auto
  qed
qed

end
