(* ===== verification/Cell_Expand.thy ===== *)
theory Cell_Expand
  imports Hilbert Cell_Union
begin

text \<open>
  \<^verbatim>\<open>S2CellUnion::Expand(int)\<close> of \<^verbatim>\<open>s2/s2cell_union.cc\<close>.  The loop runs over the cells from the last
  one to the first, so its argument is the reversed list; \<open>None\<close> means that it does not end.
\<close>

function expand_loop :: "(nat \<Rightarrow> int \<Rightarrow> int \<Rightarrow> cellid) \<Rightarrow> nat \<Rightarrow> cellid list \<Rightarrow> cellid list \<Rightarrow> cellid list option" where
  "expand_loop wrap expand_level [] output = Some output"
| "expand_loop wrap expand_level (x # xs) output =
     (let level_lsb = lsb_for_level expand_level;
          (x, xs) = (if lsb x < level_lsb
                     then let x = parent_at x expand_level in (x, dropWhile (cell_contains x) xs)
                     else (x, xs))
      in Option.bind (AppendAllNeighbors wrap x expand_level (output @ [x]))
           (expand_loop wrap expand_level xs))"
  by pat_completeness auto

termination
  by (relation "measure (\<lambda>(_, _, xs, _). length xs)")
     (auto simp: le_imp_less_Suc length_dropWhile_le Let_def split: if_splits prod.splits)

definition CU_Expand :: "(nat \<Rightarrow> int \<Rightarrow> int \<Rightarrow> cellid) \<Rightarrow> cellid list \<Rightarrow> nat \<Rightarrow> cell_union option" where
  "CU_Expand wrap ids expand_level =
     map_option CU_Init (expand_loop wrap expand_level (rev ids) [])"

end
