(* ===== verification/Region_Coverer.thy ===== *)
theory Region_Coverer
  imports Cell_Union
begin

text \<open>
  The options of \<^verbatim>\<open>S2RegionCoverer\<close> (\<^verbatim>\<open>s2/s2region_coverer.h\<close>) and the operations of
  \<^verbatim>\<open>s2/s2region_coverer.cc\<close> that work on a covering alone: level adjustment, the test for canonical
  coverings and the replacement of cells by an ancestor.  The fields are \<^verbatim>\<open>int\<close>s; \<open>%\<close> is the truncating
  remainder \<open>smod\<close>.
\<close>

record coverer_options =
  max_cells :: int
  min_level :: int
  max_level :: int
  level_mod :: int

definition kDefaultMaxCells :: int where "kDefaultMaxCells = 8"

definition coverer_Options :: coverer_options where
  "coverer_Options = \<lparr>max_cells = kDefaultMaxCells, min_level = 0, max_level = int kMaxLevel, level_mod = 1\<rparr>"

definition set_max_cells :: "int \<Rightarrow> 'a coverer_options_scheme \<Rightarrow> 'a coverer_options_scheme" where
  "set_max_cells n opts = opts\<lparr>max_cells := n\<rparr>"

definition set_min_level :: "int \<Rightarrow> 'a coverer_options_scheme \<Rightarrow> 'a coverer_options_scheme" where
  "set_min_level n opts = opts\<lparr>min_level := max 0 (min (int kMaxLevel) n)\<rparr>"

definition set_max_level :: "int \<Rightarrow> 'a coverer_options_scheme \<Rightarrow> 'a coverer_options_scheme" where
  "set_max_level n opts = opts\<lparr>max_level := max 0 (min (int kMaxLevel) n)\<rparr>"

definition set_fixed_level :: "int \<Rightarrow> 'a coverer_options_scheme \<Rightarrow> 'a coverer_options_scheme" where
  "set_fixed_level n opts = set_max_level n (set_min_level n opts)"

definition set_level_mod :: "int \<Rightarrow> 'a coverer_options_scheme \<Rightarrow> 'a coverer_options_scheme" where
  "set_level_mod n opts = opts\<lparr>level_mod := max 1 (min 3 n)\<rparr>"

definition true_max_level :: "'a coverer_options_scheme \<Rightarrow> int" where
  "true_max_level opts =
     (if level_mod opts = 1 then max_level opts
      else max_level opts - (max_level opts - min_level opts) smod level_mod opts)"

definition AdjustLevel :: "'a coverer_options_scheme \<Rightarrow> int \<Rightarrow> int" where
  "AdjustLevel opts level =
     (if level_mod opts > 1 \<and> level > min_level opts
      then level - (level - min_level opts) smod level_mod opts else level)"

text \<open>\<open>AdjustCellLevels\<close> compacts the vector in place: the accumulator is the output so far, reversed.\<close>

fun adjust_loop :: "'a coverer_options_scheme \<Rightarrow> cellid list \<Rightarrow> cellid list \<Rightarrow> cellid list" where
  "adjust_loop opts [] out = rev out"
| "adjust_loop opts (x # cells) out =
     (let level = cell_level x;
          new_level = AdjustLevel opts level;
          x = (if new_level \<noteq> level then parent_at x (nat new_level) else x)
      in if out \<noteq> [] \<and> cell_contains (hd out) x then adjust_loop opts cells out
         else adjust_loop opts cells (x # dropWhile (cell_contains x) out))"

definition AdjustCellLevels :: "'a coverer_options_scheme \<Rightarrow> cellid list \<Rightarrow> cellid list" where
  "AdjustCellLevels opts cells = (if level_mod opts = 1 then cells else adjust_loop opts cells [])"

fun canonical_loop :: "'a coverer_options_scheme \<Rightarrow> bool \<Rightarrow> cellid \<Rightarrow> int \<Rightarrow> cellid list \<Rightarrow> bool" where
  "canonical_loop opts too_many_cells prev_id same_parent_count [] = True"
| "canonical_loop opts too_many_cells prev_id same_parent_count (x # covering) =
     (if \<not> is_valid x then False
      else
        let level = cell_level x
        in if level < min_level opts \<or> level > true_max_level opts then False
           else if level_mod opts > 1 \<and> (level - min_level opts) smod level_mod opts \<noteq> 0 then False
           else if prev_id \<noteq> cell_None
           then
             if range_max prev_id \<ge> range_min x then False
             else if too_many_cells \<and> GetCommonAncestorLevel x prev_id \<ge> min_level opts then False
             else
               let plevel = level - level_mod opts
               in if plevel < min_level opts \<or> level \<noteq> cell_level prev_id \<or>
                     parent_at x (nat plevel) \<noteq> parent_at prev_id (nat plevel)
                  then canonical_loop opts too_many_cells x 1 covering
                  else if same_parent_count + 1 = push_bit (nat (2 * level_mod opts)) 1 then False
                  else canonical_loop opts too_many_cells x (same_parent_count + 1) covering
           else canonical_loop opts too_many_cells x same_parent_count covering)"

definition IsCanonical :: "'a coverer_options_scheme \<Rightarrow> cellid list \<Rightarrow> bool" where
  "IsCanonical opts covering =
     canonical_loop opts (length covering > unat (of_int (max_cells opts) :: uint64)) cell_None 1 covering"

text \<open>\<open>None\<close> is a loop that does not end.\<close>

partial_function (option) all_children_loop :: "cellid list \<Rightarrow> cellid \<Rightarrow> cellid \<Rightarrow> bool option" where
  "all_children_loop it end_id child_id =
     (if child_id = end_id then Some True
      else case it of [] \<Rightarrow> Some False
        | x # it' \<Rightarrow> if x \<noteq> child_id then Some False else all_children_loop it' end_id (cell_next child_id))"

definition ContainsAllChildren :: "'a coverer_options_scheme \<Rightarrow> cellid list \<Rightarrow> cellid \<Rightarrow> bool option" where
  "ContainsAllChildren opts covering x =
     (let it = lower_bound (<) covering (range_min x);
          level = nat (cell_level x + level_mod opts)
      in all_children_loop it (child_end_at x level) (child_begin_at x level))"

text \<open>With \<open>begin = end\<close> the code erases from behind the end, a fault.\<close>

definition ReplaceCellsWithAncestor :: "cellid list \<Rightarrow> cellid \<Rightarrow> cellid list option" where
  "ReplaceCellsWithAncestor covering x =
     (let before = takeWhile (\<lambda>y. y < range_min x) covering;
          from = drop (length before) covering;
          behind = dropWhile (\<lambda>y. y \<le> range_max x) from
      in if length from = length behind then None else Some (before @ [x] @ behind))"

end
