(* ===== verification/Term_Indexer.thy ===== *)
theory Term_Indexer
  imports Region_Coverer Cell_Token "HOL-Library.Monad_Syntax"
begin

text \<open>
  \<^verbatim>\<open>S2RegionTermIndexer\<close> (\<^verbatim>\<open>s2/s2region_term_indexer.h\<close> and \<^verbatim>\<open>.cc\<close>): the terms under which a region
  or a point is indexed and queried.  A region enters as the covering that the coverer computes for
  it, a point as the leaf cell id of \<^verbatim>\<open>S2CellId(point)\<close>.  \<open>None\<close> is a loop that does not end, which a
  \<open>level_mod\<close> of zero would cause.
\<close>

record indexer_options = coverer_options +
  points_only :: bool
  optimize_for_space :: bool
  marker_character :: char

definition indexer_Options :: indexer_options where
  "indexer_Options =
     set_level_mod 1 (set_max_level 16 (set_min_level 4 (set_max_cells 8
       (coverer_options.extend coverer_Options
         (indexer_options.fields False False (CHR ''$''))))))"

definition set_index_contains_points_only :: "bool \<Rightarrow> indexer_options \<Rightarrow> indexer_options" where
  "set_index_contains_points_only v opts = opts\<lparr>points_only := v\<rparr>"

definition set_optimize_for_space :: "bool \<Rightarrow> indexer_options \<Rightarrow> indexer_options" where
  "set_optimize_for_space v opts = opts\<lparr>optimize_for_space := v\<rparr>"

definition set_marker_character :: "char \<Rightarrow> indexer_options \<Rightarrow> indexer_options" where
  "set_marker_character ch opts = opts\<lparr>marker_character := ch\<rparr>"

datatype TermType = ANCESTOR | COVERING

definition GetTerm :: "indexer_options \<Rightarrow> TermType \<Rightarrow> cellid \<Rightarrow> string \<Rightarrow> string" where
  "GetTerm opts term_type x pfx =
     (if term_type = ANCESTOR then pfx @ ToToken x
      else pfx @ [marker_character opts] @ ToToken x)"

partial_function (option) point_terms_loop :: "indexer_options \<Rightarrow> cellid \<Rightarrow> string \<Rightarrow> int \<Rightarrow> string list \<Rightarrow> string list option" where
  "point_terms_loop opts x pfx level terms =
     (if level \<le> max_level opts
      then point_terms_loop opts x pfx (level + level_mod opts)
             (terms @ [GetTerm opts ANCESTOR (parent_at x (nat level)) pfx])
      else Some terms)"

definition GetIndexTerms_point :: "indexer_options \<Rightarrow> cellid \<Rightarrow> string \<Rightarrow> string list option" where
  "GetIndexTerms_point opts x pfx = point_terms_loop opts x pfx (min_level opts) []"

text \<open>The loop over the proper ancestors of a cell; index and query terms differ in the type of the terms.\<close>

partial_function (option) ancestor_terms_loop ::
  "indexer_options \<Rightarrow> TermType \<Rightarrow> cellid \<Rightarrow> cellid \<Rightarrow> string \<Rightarrow> int \<Rightarrow> string list \<Rightarrow> string list option" where
  "ancestor_terms_loop opts term_type x prev_id pfx level terms =
     (let level = level - level_mod opts
      in if level \<ge> min_level opts
         then
           let ancestor_id = parent_at x (nat level)
           in if prev_id \<noteq> cell_None \<and> cell_level prev_id > level \<and> parent_at prev_id (nat level) = ancestor_id
              then Some terms
              else ancestor_terms_loop opts term_type x prev_id pfx level
                     (terms @ [GetTerm opts term_type ancestor_id pfx])
         else Some terms)"

fun index_terms_loop :: "indexer_options \<Rightarrow> string \<Rightarrow> cellid \<Rightarrow> cellid list \<Rightarrow> string list \<Rightarrow> string list option" where
  "index_terms_loop opts pfx prev_id [] terms = Some terms"
| "index_terms_loop opts pfx prev_id (x # covering) terms =
     (let level = cell_level x;
          terms = (if level < true_max_level opts then terms @ [GetTerm opts COVERING x pfx] else terms);
          terms = (if level = true_max_level opts \<or> \<not> optimize_for_space opts
                   then terms @ [GetTerm opts ANCESTOR (parent_at x (nat level)) pfx] else terms)
      in do { terms \<leftarrow> ancestor_terms_loop opts ANCESTOR x prev_id pfx level terms;
              index_terms_loop opts pfx x covering terms })"

text \<open>The code stops with a failed check when the options say that only points are indexed.\<close>

definition GetIndexTermsForCanonicalCovering :: "indexer_options \<Rightarrow> cellid list \<Rightarrow> string \<Rightarrow> string list option" where
  "GetIndexTermsForCanonicalCovering opts covering pfx =
     (if points_only opts then None else index_terms_loop opts pfx cell_None covering [])"

partial_function (option) point_query_loop :: "indexer_options \<Rightarrow> cellid \<Rightarrow> string \<Rightarrow> int \<Rightarrow> string list \<Rightarrow> string list option" where
  "point_query_loop opts x pfx level terms =
     (if level \<ge> min_level opts
      then point_query_loop opts x pfx (level - level_mod opts)
             (terms @ [GetTerm opts COVERING (parent_at x (nat level)) pfx])
      else Some terms)"

definition GetQueryTerms_point :: "indexer_options \<Rightarrow> cellid \<Rightarrow> string \<Rightarrow> string list option" where
  "GetQueryTerms_point opts x pfx =
     (let level = true_max_level opts;
          terms = [GetTerm opts ANCESTOR (parent_at x (nat level)) pfx]
      in if points_only opts then Some terms else point_query_loop opts x pfx level terms)"

fun query_terms_loop :: "indexer_options \<Rightarrow> string \<Rightarrow> cellid \<Rightarrow> cellid list \<Rightarrow> string list \<Rightarrow> string list option" where
  "query_terms_loop opts pfx prev_id [] terms = Some terms"
| "query_terms_loop opts pfx prev_id (x # covering) terms =
     (let level = cell_level x;
          terms = terms @ [GetTerm opts ANCESTOR x pfx]
      in if points_only opts then query_terms_loop opts pfx prev_id covering terms
         else
           let terms = (if optimize_for_space opts \<and> level < true_max_level opts
                        then terms @ [GetTerm opts COVERING x pfx] else terms)
           in do { terms \<leftarrow> ancestor_terms_loop opts COVERING x prev_id pfx level terms;
                   query_terms_loop opts pfx x covering terms })"

definition GetQueryTermsForCanonicalCovering :: "indexer_options \<Rightarrow> cellid list \<Rightarrow> string \<Rightarrow> string list option" where
  "GetQueryTermsForCanonicalCovering opts covering pfx = query_terms_loop opts pfx cell_None covering []"

text \<open>A region is given by the covering that \<open>S2RegionCoverer::GetCovering\<close> returns for it.\<close>

definition GetIndexTerms_region :: "indexer_options \<Rightarrow> ('r \<Rightarrow> cellid list) \<Rightarrow> 'r \<Rightarrow> string \<Rightarrow> string list option" where
  "GetIndexTerms_region opts get_covering region pfx =
     GetIndexTermsForCanonicalCovering opts (get_covering region) pfx"

definition GetQueryTerms_region :: "indexer_options \<Rightarrow> ('r \<Rightarrow> cellid list) \<Rightarrow> 'r \<Rightarrow> string \<Rightarrow> string list option" where
  "GetQueryTerms_region opts get_covering region pfx =
     GetQueryTermsForCanonicalCovering opts (get_covering region) pfx"

end
