(* ===== verification/Level_Grid.thy ===== *)
theory Level_Grid
  imports Region_Coverer Cell_Ancestor
begin

text \<open>
  Valid options of a coverer and the levels a covering may use: \<open>min_level\<close> plus the multiples of
  \<open>level_mod\<close>, up to \<open>true_max_level\<close>.
\<close>

definition coverer_ok :: "'a coverer_options_scheme \<Rightarrow> bool" where
  "coverer_ok opts \<longleftrightarrow> 0 \<le> min_level opts \<and> min_level opts \<le> max_level opts \<and> max_level opts \<le> 30 \<and>
     1 \<le> level_mod opts \<and> level_mod opts \<le> 3"

definition on_grid :: "'a coverer_options_scheme \<Rightarrow> int \<Rightarrow> bool" where
  "on_grid opts l \<longleftrightarrow> min_level opts \<le> l \<and> l \<le> true_max_level opts \<and> (l - min_level opts) mod level_mod opts = 0"

definition fits :: "'a coverer_options_scheme \<Rightarrow> cellid \<Rightarrow> bool" where
  "fits opts x \<longleftrightarrow> is_valid x \<and> on_grid opts (cell_level x)"

lemma parent_chain:
  assumes "is_valid x" "m \<le> n" "n \<le> cell_lv x"
  shows "parent_at (parent_at x n) m = parent_at x m"
proof -
  note p = parent_at_valid [OF assms(1,3)]
  have "cell_lv x - m = (cell_lv x - n) + (n - m)" using assms(2,3) by simp
  then have "cell_index x div 4 ^ (cell_lv x - n) div 4 ^ (n - m) = cell_index x div 4 ^ (cell_lv x - m)"
    by (simp add: power_add flip: div_mult2_eq)
  then show ?thesis
    using parent_at_cell [OF p(1), of m] parent_at_cell [OF assms(1), of m] p assms by simp
qed

lemma level_lv: "is_valid x \<Longrightarrow> cell_level x = int (cell_lv x)"
  by (auto elim!: cell_span_at_cases simp: cell_level_at span_at)

lemma smod_mod_pos: "0 \<le> a \<Longrightarrow> 0 < b \<Longrightarrow> a smod b = a mod (b::int)"
  by (cases "a = 0") (simp_all add: smod_int_alt_def sgn_if)

lemma true_max_level_eq:
  assumes "coverer_ok opts"
  shows "true_max_level opts = max_level opts - (max_level opts - min_level opts) mod level_mod opts"
    and "on_grid opts (true_max_level opts)"
proof -
  let ?d = "max_level opts - min_level opts"
  have b: "0 \<le> ?d" "0 < level_mod opts" using assms by (simp_all add: coverer_ok_def)
  show t: "true_max_level opts = max_level opts - ?d mod level_mod opts"
    by (simp add: true_max_level_def smod_mod_pos [OF b])
  have "level_mod opts dvd ?d - ?d mod level_mod opts" by (rule dvd_minus_mod)
  then have "(true_max_level opts - min_level opts) mod level_mod opts = 0"
    unfolding t by (simp add: algebra_simps)
  moreover have "?d mod level_mod opts \<le> ?d" using b by (simp add: zmod_le_nonneg_dividend)
  ultimately show "on_grid opts (true_max_level opts)" by (simp add: on_grid_def t)
qed

lemma on_grid_bounds:
  assumes "coverer_ok opts" "on_grid opts l"
  shows "0 \<le> l" "l \<le> 30" "min_level opts \<le> l" "l \<le> max_level opts" "l \<le> true_max_level opts"
proof -
  have "0 \<le> (max_level opts - min_level opts) mod level_mod opts" using assms by (simp add: coverer_ok_def)
  then have "true_max_level opts \<le> max_level opts" using true_max_level_eq(1) [OF assms(1)] by linarith
  then show "0 \<le> l" "l \<le> 30" "min_level opts \<le> l" "l \<le> max_level opts" "l \<le> true_max_level opts"
    using assms by (simp_all add: on_grid_def coverer_ok_def)
qed

lemma on_grid_min_dvd: "on_grid opts l \<Longrightarrow> level_mod opts dvd l - min_level opts"
  unfolding on_grid_def by (intro mod_0_imp_dvd) blast

lemma on_grid_dvd:
  assumes "on_grid opts l" "on_grid opts m"
  shows "level_mod opts dvd l - m"
  using dvd_diff [OF on_grid_min_dvd [OF assms(1)] on_grid_min_dvd [OF assms(2)]] by simp

lemma on_grid_prev:
  assumes "coverer_ok opts" "on_grid opts l" "l - level_mod opts \<ge> min_level opts"
  shows "on_grid opts (l - level_mod opts)"
proof -
  have "level_mod opts dvd (l - min_level opts) - level_mod opts"
    by (rule dvd_diff [OF on_grid_min_dvd [OF assms(2)] dvd_refl])
  then have "(l - level_mod opts - min_level opts) mod level_mod opts = 0"
    by (simp add: algebra_simps)
  then show ?thesis using assms by (simp add: on_grid_def coverer_ok_def)
qed

lemma on_grid_step:
  assumes "coverer_ok opts" "on_grid opts l" "on_grid opts m" "m < l"
  shows "m \<le> l - level_mod opts"
  using zdvd_imp_le [OF on_grid_dvd [OF assms(2,3)]] assms(4) by linarith

lemma true_max_level_last:
  assumes "coverer_ok opts"
  shows "max_level opts < true_max_level opts + level_mod opts"
  using pos_mod_bound [of "level_mod opts" "max_level opts - min_level opts"] assms
  unfolding true_max_level_eq(1) [OF assms] by (simp add: coverer_ok_def)

lemma fits_contains:
  assumes "fits opts y" "is_valid x" "coverer_ok opts"
  shows "cell_contains y x \<longleftrightarrow> cell_level y \<le> cell_level x \<and> parent_at x (nat (cell_level y)) = y"
  using contains_parent_at [of y x] assms level_lv [of y] level_lv [of x] by (simp add: fits_def)

lemma fits_parent_at:
  assumes "coverer_ok opts" "is_valid x" "on_grid opts m" "m \<le> cell_level x"
  shows "fits opts (parent_at x (nat m))" "cell_level (parent_at x (nat m)) = m"
    "cell_contains (parent_at x (nat m)) x"
proof -
  have le: "nat m \<le> cell_lv x" using assms level_lv [OF assms(2)] by linarith
  note v = parent_at_valid [OF assms(2) le]
  show l: "cell_level (parent_at x (nat m)) = m"
    using v level_lv [OF v(1)] on_grid_bounds(1) [OF assms(1,3)] by simp
  show "fits opts (parent_at x (nat m))" using v(1) l assms(3) by (simp add: fits_def)
  show "cell_contains (parent_at x (nat m)) x"
    using contains_parent_at [OF v(1) assms(2)] v le by simp
qed


lemma on_grid_next:
  assumes "coverer_ok opts" "on_grid opts l" "l + level_mod opts \<le> max_level opts"
  shows "on_grid opts (l + level_mod opts)"
proof (cases "l = true_max_level opts")
  case True
  then show ?thesis using true_max_level_last [OF assms(1)] assms(3) by simp
next
  case False
  then have "l < true_max_level opts" using on_grid_bounds(5) [OF assms(1,2)] by simp
  then have "l + level_mod opts \<le> true_max_level opts"
    using on_grid_step [OF assms(1) true_max_level_eq(2) [OF assms(1)] assms(2)] by simp
  moreover have "(l + level_mod opts - min_level opts) mod level_mod opts = (l - min_level opts) mod level_mod opts"
    by (metis add_diff_eq add.commute mod_add_self1)
  ultimately show ?thesis using assms(1,2) by (simp add: on_grid_def coverer_ok_def)
qed

end
