(* ===== verification/Term_Match.thy ===== *)
theory Term_Match
  imports Term_Indexer Cell_Token_Correct Level_Grid
begin

text \<open>
  Which terms the indexer generates, and when an index term and a query term are equal.
\<close>

section \<open>Terms\<close>

definition alphanumeric :: "char \<Rightarrow> bool" where
  "alphanumeric c \<longleftrightarrow> CHR ''0'' \<le> c \<and> c \<le> CHR ''9'' \<or> CHR ''A'' \<le> c \<and> c \<le> CHR ''Z'' \<or> CHR ''a'' \<le> c \<and> c \<le> CHR ''z''"

lemma token_alphanumeric: "c \<in> set (ToToken x) \<Longrightarrow> alphanumeric c"
proof -
  have "\<forall>k\<in>set [0..<16]. alphanumeric (hex_digits ! k)" by code_simp
  then have "alphanumeric (hex_digits ! k)" if "k < 16" for k using that by simp
  then have "\<forall>c\<in>set (HexFormatString w n). alphanumeric c" for w n
    using nibbles_less [of w n] by (auto simp: HexFormatString_nibbles)
  moreover have "alphanumeric (CHR ''X'')" by code_simp
  ultimately show "c \<in> set (ToToken x) \<Longrightarrow> ?thesis" by (auto simp: ToToken_def Let_def split: if_splits)
qed

lemma GetTerm_inject:
  assumes "\<not> alphanumeric (marker_character opts)"
  shows "GetTerm opts t x pfx = GetTerm opts u y pfx \<longleftrightarrow> t = u \<and> x = y"
proof -
  have tok: "ToToken x = ToToken y \<longleftrightarrow> x = y" for x y by (metis FromToken_ToToken)
  have "ToToken x \<noteq> marker_character opts # s" for x s
    using token_alphanumeric [of "marker_character opts" x] assms by auto
  then show ?thesis
    using tok by (cases t; cases u) (auto simp: GetTerm_def dest: sym)
qed


section \<open>The loop over the ancestors\<close>

definition options_ok :: "indexer_options \<Rightarrow> bool" where
  "options_ok opts \<longleftrightarrow> coverer_ok opts \<and> \<not> alphanumeric (marker_character opts)"

lemma options_coverer: "options_ok opts \<Longrightarrow> coverer_ok opts"
  by (simp add: options_ok_def)

lemmas true_max_level_eq_t = true_max_level_eq [OF options_coverer]
  and true_max_level_last_t = true_max_level_last [OF options_coverer]
  and on_grid_bounds_t = on_grid_bounds [OF options_coverer]
  and on_grid_prev_t = on_grid_prev [OF options_coverer]
  and on_grid_step_t = on_grid_step [OF options_coverer]
  and fits_contains_t = fits_contains [OF _ _ options_coverer]
  and fits_parent_at_t = fits_parent_at [OF options_coverer]

text \<open>The terms for the ancestors of a cell below a level.\<close>

definition below :: "indexer_options \<Rightarrow> TermType \<Rightarrow> string \<Rightarrow> cellid \<Rightarrow> int \<Rightarrow> string set" where
  "below opts t pfx x l = {GetTerm opts t (parent_at x (nat m)) pfx | m. m < l \<and> on_grid opts m}"

lemma below_step:
  assumes "options_ok opts" "on_grid opts l"
  shows "below opts t pfx x l =
      (if l - level_mod opts \<ge> min_level opts
       then insert (GetTerm opts t (parent_at x (nat (l - level_mod opts))) pfx) (below opts t pfx x (l - level_mod opts))
       else {})"
proof -
  let ?m = "l - level_mod opts"
  have k: "level_mod opts \<ge> 1" using assms by (simp add: options_ok_def coverer_ok_def)
  have "{m. m < l \<and> on_grid opts m} =
      (if ?m \<ge> min_level opts then insert ?m {m. m < ?m \<and> on_grid opts m} else {})"
  proof (intro set_eqI iffI)
    fix m assume "m \<in> {m. m < l \<and> on_grid opts m}"
    then have m: "m < l" "on_grid opts m" by simp_all
    with on_grid_step_t [OF assms m(2,1)] on_grid_bounds_t(3) [OF assms(1) m(2)]
    show "m \<in> (if ?m \<ge> min_level opts then insert ?m {m. m < ?m \<and> on_grid opts m} else {})" by auto
  qed (use k on_grid_prev_t [OF assms] in \<open>auto split: if_splits\<close>)
  moreover have "below opts t pfx x n = (\<lambda>m. GetTerm opts t (parent_at x (nat m)) pfx) ` {m. m < n \<and> on_grid opts m}"
    for n by (auto simp: below_def)
  ultimately show ?thesis by (simp split: if_splits)
qed

lemma ancestor_terms_loop_ok:
  assumes o: "options_ok opts" and x: "is_valid x" and l: "on_grid opts l" "l \<le> cell_level x"
    and p: "prev = cell_None \<or> fits opts prev"
  shows "\<exists>ts. ancestor_terms_loop opts t x prev pfx l terms = Some ts \<and>
    set terms \<subseteq> set ts \<and> set ts \<subseteq> set terms \<union> below opts t pfx x l \<and>
    below opts t pfx x l \<subseteq> set ts \<union> (if prev = cell_None then {} else below opts t pfx prev (cell_level prev))"
  using l
proof (induction "nat (l - min_level opts)" arbitrary: l terms rule: less_induct)
  case less
  note simps = ancestor_terms_loop.simps [of opts t x prev pfx l terms]
  note step = below_step [OF o less.prems(1), of t pfx x]
  let ?m = "l - level_mod opts"
  show ?case
  proof (cases "?m \<ge> min_level opts")
    case False
    then show ?thesis using step by (simp add: simps)
  next
    case m: True
    have k: "level_mod opts \<ge> 1" using o by (simp add: options_ok_def coverer_ok_def)
    note gm = on_grid_prev_t [OF o less.prems(1) m]
    show ?thesis
    proof (cases "prev \<noteq> cell_None \<and> cell_level prev > ?m \<and> parent_at prev (nat ?m) = parent_at x (nat ?m)")
      case True
      have v: "is_valid prev" using p True by (simp add: fits_def)
      have "below opts t pfx x l \<subseteq> below opts t pfx prev (cell_level prev)"
      proof
        fix s assume "s \<in> below opts t pfx x l"
        then obtain m where s: "s = GetTerm opts t (parent_at x (nat m)) pfx" "m < l" "on_grid opts m"
          by (auto simp: below_def)
        have le: "m \<le> ?m" by (rule on_grid_step_t [OF o less.prems(1) s(3,2)])
        have "nat m \<le> nat ?m" "nat ?m \<le> cell_lv x" "nat ?m \<le> cell_lv prev"
          using le less.prems(2) True k level_lv [OF x] level_lv [OF v] by linarith+
        then have "parent_at x (nat m) = parent_at prev (nat m)"
          using True parent_chain [OF x] parent_chain [OF v] by metis
        then show "s \<in> below opts t pfx prev (cell_level prev)"
          using s le True unfolding below_def by (intro CollectI exI [of _ m]) simp
      qed
      then show ?thesis using m True by (auto simp: simps Let_def)
    next
      case False
      let ?t = "GetTerm opts t (parent_at x (nat ?m)) pfx"
      have "nat (?m - min_level opts) < nat (l - min_level opts)" "?m \<le> cell_level x"
        using m k less.prems(2) by linarith+
      from less.hyps [OF this(1) gm this(2), of "terms @ [?t]"] obtain ts where
        ts: "ancestor_terms_loop opts t x prev pfx ?m (terms @ [?t]) = Some ts"
        "set (terms @ [?t]) \<subseteq> set ts" "set ts \<subseteq> set (terms @ [?t]) \<union> below opts t pfx x ?m"
        "below opts t pfx x ?m \<subseteq> set ts \<union> (if prev = cell_None then {} else below opts t pfx prev (cell_level prev))"
        by blast
      have "ancestor_terms_loop opts t x prev pfx l terms = Some ts"
        using m ts(1) False by (subst simps) (auto simp: Let_def)
      moreover have "below opts t pfx x l = insert ?t (below opts t pfx x ?m)" using step m by simp
      ultimately show ?thesis using ts(2-4) by (intro exI [of _ ts]) auto
    qed
  qed
qed


section \<open>The terms of a covering\<close>

lemma below_eq:
  assumes "options_ok opts" "is_valid x"
  shows "below opts t pfx x (cell_level x) = {GetTerm opts t y pfx | y. fits opts y \<and> cell_contains y x \<and> y \<noteq> x}"
proof (intro set_eqI iffI)
  fix s assume "s \<in> below opts t pfx x (cell_level x)"
  then obtain m where "s = GetTerm opts t (parent_at x (nat m)) pfx" "m < cell_level x" "on_grid opts m"
    by (auto simp: below_def)
  moreover from fits_parent_at_t [OF assms, of m] calculation
  have "parent_at x (nat m) \<noteq> x" by auto
  ultimately show "s \<in> {GetTerm opts t y pfx | y. fits opts y \<and> cell_contains y x \<and> y \<noteq> x}"
    using fits_parent_at_t [OF assms, of m] by auto
next
  fix s assume "s \<in> {GetTerm opts t y pfx | y. fits opts y \<and> cell_contains y x \<and> y \<noteq> x}"
  then obtain y where y: "s = GetTerm opts t y pfx" "fits opts y" "cell_contains y x" "y \<noteq> x" by auto
  then have p: "cell_level y \<le> cell_level x" "parent_at x (nat (cell_level y)) = y"
    using fits_contains_t [OF _ assms(2,1)] by auto
  have "parent_at x (cell_lv x) = x"
    using contains_parent_at [OF assms(2,2)] assms(2) by (simp add: contains_iff)
  then have "cell_level y < cell_level x"
    using p y(4) level_lv [OF assms(2)] by (cases "cell_level y = cell_level x") auto
  then show "s \<in> below opts t pfx x (cell_level x)"
    using y p unfolding below_def fits_def by (intro CollectI exI [of _ "cell_level y"]) auto
qed

definition index_terms :: "indexer_options \<Rightarrow> string \<Rightarrow> cellid \<Rightarrow> string set" where
  "index_terms opts pfx x =
     {GetTerm opts COVERING x pfx | u::unit. cell_level x < true_max_level opts} \<union>
     {GetTerm opts ANCESTOR x pfx | u::unit. cell_level x = true_max_level opts \<or> \<not> optimize_for_space opts} \<union>
     below opts ANCESTOR pfx x (cell_level x)"

definition query_terms :: "indexer_options \<Rightarrow> string \<Rightarrow> cellid \<Rightarrow> string set" where
  "query_terms opts pfx x =
     {GetTerm opts ANCESTOR x pfx} \<union>
     {s. \<not> points_only opts \<and> (optimize_for_space opts \<and> cell_level x < true_max_level opts \<and> s = GetTerm opts COVERING x pfx
         \<or> s \<in> below opts COVERING pfx x (cell_level x))}"

lemma parent_at_self: "is_valid x \<Longrightarrow> parent_at x (nat (cell_level x)) = x"
  using contains_parent_at [of x x] level_lv [of x] by (simp add: contains_iff)

lemma index_terms_loop_ok:
  assumes o: "options_ok opts"
  shows "\<forall>x\<in>set covering. fits opts x \<Longrightarrow>
    prev = cell_None \<or> fits opts prev \<and> below opts ANCESTOR pfx prev (cell_level prev) \<subseteq> set terms \<Longrightarrow>
    \<exists>ts. index_terms_loop opts pfx prev covering terms = Some ts \<and>
      set ts = set terms \<union> (\<Union>x\<in>set covering. index_terms opts pfx x)"
proof (induction covering arbitrary: prev terms)
  case (Cons x covering)
  have x: "is_valid x" "on_grid opts (cell_level x)" using Cons.prems(1) by (simp_all add: fits_def)
  let ?t1 = "if cell_level x < true_max_level opts then terms @ [GetTerm opts COVERING x pfx] else terms"
  let ?t2 = "if cell_level x = true_max_level opts \<or> \<not> optimize_for_space opts
             then ?t1 @ [GetTerm opts ANCESTOR (parent_at x (nat (cell_level x))) pfx] else ?t1"
  let ?b = "below opts ANCESTOR pfx x (cell_level x)"
  obtain ts where ts: "ancestor_terms_loop opts ANCESTOR x prev pfx (cell_level x) ?t2 = Some ts"
    "set ?t2 \<subseteq> set ts" "set ts \<subseteq> set ?t2 \<union> ?b"
    "?b \<subseteq> set ts \<union> (if prev = cell_None then {} else below opts ANCESTOR pfx prev (cell_level prev))"
    using ancestor_terms_loop_ok [OF o x order_refl, of prev ANCESTOR pfx ?t2] Cons.prems(2) by blast
  have t2: "set ?t2 \<union> ?b = set terms \<union> index_terms opts pfx x"
    by (simp add: index_terms_def parent_at_self [OF x(1)])
  have "(if prev = cell_None then {} else below opts ANCESTOR pfx prev (cell_level prev)) \<subseteq> set ?t2"
    using Cons.prems(2) by auto
  then have s: "set ts = set terms \<union> index_terms opts pfx x" and "?b \<subseteq> set ts"
    using ts(2-4) unfolding t2 [symmetric] by blast+
  then obtain us where "index_terms_loop opts pfx x covering ts = Some us"
    "set us = set ts \<union> (\<Union>x\<in>set covering. index_terms opts pfx x)"
    using Cons.IH [of x ts] Cons.prems(1) by auto
  then show ?case using ts(1) s by (simp add: Let_def Un_assoc)
qed simp

lemma query_terms_loop_ok:
  assumes o: "options_ok opts"
  shows "\<forall>x\<in>set covering. fits opts x \<Longrightarrow>
    prev = cell_None \<or> fits opts prev \<and> below opts COVERING pfx prev (cell_level prev) \<subseteq> set terms \<Longrightarrow>
    \<exists>ts. query_terms_loop opts pfx prev covering terms = Some ts \<and>
      set ts = set terms \<union> (\<Union>x\<in>set covering. query_terms opts pfx x)"
proof (induction covering arbitrary: prev terms)
  case (Cons x covering)
  have x: "is_valid x" "on_grid opts (cell_level x)" using Cons.prems(1) by (simp_all add: fits_def)
  let ?t1 = "terms @ [GetTerm opts ANCESTOR x pfx]"
  let ?t2 = "if optimize_for_space opts \<and> cell_level x < true_max_level opts
             then ?t1 @ [GetTerm opts COVERING x pfx] else ?t1"
  let ?b = "below opts COVERING pfx x (cell_level x)"
  show ?case
  proof (cases "points_only opts")
    case True
    then have "query_terms opts pfx x = {GetTerm opts ANCESTOR x pfx}" by (simp add: query_terms_def)
    moreover obtain us where "query_terms_loop opts pfx prev covering ?t1 = Some us"
      "set us = set ?t1 \<union> (\<Union>x\<in>set covering. query_terms opts pfx x)"
      using Cons.IH [of prev ?t1] Cons.prems by auto
    ultimately show ?thesis using True by simp
  next
    case False
    obtain ts where ts: "ancestor_terms_loop opts COVERING x prev pfx (cell_level x) ?t2 = Some ts"
      "set ?t2 \<subseteq> set ts" "set ts \<subseteq> set ?t2 \<union> ?b"
      "?b \<subseteq> set ts \<union> (if prev = cell_None then {} else below opts COVERING pfx prev (cell_level prev))"
      using ancestor_terms_loop_ok [OF o x order_refl, of prev COVERING pfx ?t2] Cons.prems(2) by blast
    have t2: "set ?t2 \<union> ?b = set terms \<union> query_terms opts pfx x"
      using False by (auto simp: query_terms_def)
    have "(if prev = cell_None then {} else below opts COVERING pfx prev (cell_level prev)) \<subseteq> set ?t2"
      using Cons.prems(2) by auto
    then have s: "set ts = set terms \<union> query_terms opts pfx x" and "?b \<subseteq> set ts"
      using ts(2-4) unfolding t2 [symmetric] by blast+
    then obtain us where "query_terms_loop opts pfx x covering ts = Some us"
      "set us = set ts \<union> (\<Union>x\<in>set covering. query_terms opts pfx x)"
      using Cons.IH [of x ts] Cons.prems(1) by auto
    then show ?thesis using ts(1) s False by (simp add: Let_def Un_assoc)
  qed
qed simp


section \<open>Matching\<close>

lemma canonical_loop_fits:
  assumes "options_ok opts"
  shows "canonical_loop opts many prev k covering \<Longrightarrow> \<forall>x\<in>set covering. fits opts x"
proof (induction covering arbitrary: prev k)
  case (Cons x covering)
  have "\<exists>prev k. canonical_loop opts many prev k covering"
    and c: "is_valid x" "min_level opts \<le> cell_level x" "cell_level x \<le> true_max_level opts"
      "level_mod opts > 1 \<longrightarrow> (cell_level x - min_level opts) smod level_mod opts = 0"
    using Cons.prems by (auto simp: Let_def split: if_splits)
  moreover have "(cell_level x - min_level opts) mod level_mod opts = 0"
    using c assms smod_mod_pos [of "cell_level x - min_level opts" "level_mod opts"]
    by (cases "level_mod opts = 1") (auto simp: options_ok_def coverer_ok_def)
  ultimately show ?case using Cons.IH by (auto simp: fits_def on_grid_def)
qed simp

lemma fits_antisym: "fits opts x \<Longrightarrow> fits opts y \<Longrightarrow> cell_contains x y \<Longrightarrow> cell_contains y x \<Longrightarrow> x = y"
  by (auto simp: fits_def contains_leaves intro!: leaves_inj)

lemma proper_container_level:
  assumes "options_ok opts" "fits opts y" "fits opts x" "cell_contains y x" "y \<noteq> x"
  shows "cell_level y < cell_level x" "cell_level y < true_max_level opts"
proof -
  have x: "is_valid x" using assms by (simp add: fits_def)
  show l: "cell_level y < cell_level x"
    using fits_contains_t [OF assms(2) x assms(1)] parent_at_self [OF x] assms(4,5)
    by (cases "cell_level y = cell_level x") auto
  then show "cell_level y < true_max_level opts"
    using on_grid_bounds_t(5) [OF assms(1), of "cell_level x"] assms(3) by (simp add: fits_def)
qed

lemma term_sets:
  assumes "options_ok opts" "fits opts x"
  shows "GetTerm opts COVERING y pfx \<in> index_terms opts pfx x \<longleftrightarrow> y = x \<and> cell_level x < true_max_level opts"
    and "GetTerm opts ANCESTOR y pfx \<in> index_terms opts pfx x \<longleftrightarrow>
      y = x \<and> (cell_level x = true_max_level opts \<or> \<not> optimize_for_space opts) \<or>
      fits opts y \<and> cell_contains y x \<and> y \<noteq> x"
    and "GetTerm opts ANCESTOR y pfx \<in> query_terms opts pfx x \<longleftrightarrow> y = x"
    and "GetTerm opts COVERING y pfx \<in> query_terms opts pfx x \<longleftrightarrow> \<not> points_only opts \<and>
      (optimize_for_space opts \<and> cell_level x < true_max_level opts \<and> y = x \<or>
       fits opts y \<and> cell_contains y x \<and> y \<noteq> x)"
proof -
  have m: "\<not> alphanumeric (marker_character opts)" and v: "is_valid x"
    using assms by (simp_all add: options_ok_def coverer_ok_def fits_def)
  note defs = index_terms_def query_terms_def below_eq [OF assms(1) v]
  show "GetTerm opts COVERING y pfx \<in> index_terms opts pfx x \<longleftrightarrow> y = x \<and> cell_level x < true_max_level opts"
    by (simp add: defs GetTerm_inject [OF m])
  show "GetTerm opts ANCESTOR y pfx \<in> index_terms opts pfx x \<longleftrightarrow>
      y = x \<and> (cell_level x = true_max_level opts \<or> \<not> optimize_for_space opts) \<or>
      fits opts y \<and> cell_contains y x \<and> y \<noteq> x"
    by (simp add: defs GetTerm_inject [OF m])
  show "GetTerm opts ANCESTOR y pfx \<in> query_terms opts pfx x \<longleftrightarrow> y = x"
    by (simp add: defs GetTerm_inject [OF m])
  show "GetTerm opts COVERING y pfx \<in> query_terms opts pfx x \<longleftrightarrow> \<not> points_only opts \<and>
      (optimize_for_space opts \<and> cell_level x < true_max_level opts \<and> y = x \<or>
       fits opts y \<and> cell_contains y x \<and> y \<noteq> x)"
    by (simp add: defs GetTerm_inject [OF m])
qed

lemma index_terms_are_terms: "s \<in> index_terms opts pfx x \<Longrightarrow> \<exists>t y. s = GetTerm opts t y pfx"
  by (auto simp: index_terms_def below_def)

lemma common_terms:
  assumes "\<And>s. s \<in> S \<Longrightarrow> \<exists>t y. s = GetTerm opts t y pfx"
  shows "S \<inter> T \<noteq> {} \<longleftrightarrow>
    (\<exists>y. GetTerm opts ANCESTOR y pfx \<in> S \<inter> T) \<or> (\<exists>y. GetTerm opts COVERING y pfx \<in> S \<inter> T)"
proof
  assume "S \<inter> T \<noteq> {}"
  then obtain s where s: "s \<in> S \<inter> T" by auto
  with assms obtain t y where "s = GetTerm opts t y pfx" by blast
  with s show "(\<exists>y. GetTerm opts ANCESTOR y pfx \<in> S \<inter> T) \<or> (\<exists>y. GetTerm opts COVERING y pfx \<in> S \<inter> T)"
    by (cases t) auto
qed auto

lemma region_pair:
  assumes o: "options_ok opts" "\<not> points_only opts" and f: "fits opts a" "fits opts b"
  shows "index_terms opts pfx a \<inter> query_terms opts pfx b \<noteq> {} \<longleftrightarrow> cell_intersects a b"
proof -
  have v: "is_valid a" "is_valid b" using f by (simp_all add: fits_def)
  have le: "cell_level a \<le> true_max_level opts"
    using on_grid_bounds_t(5) [OF o(1), of "cell_level a"] f by (simp add: fits_def)
  note level = proper_container_level [OF o(1) f(1,2)]
  have "cell_intersects a b \<longleftrightarrow> cell_contains a b \<or> cell_contains b a"
    using v laminar [of a b] cell_lo_less_hi [of a] cell_lo_less_hi [of b]
    by (auto simp: intersects_iff contains_iff simp del: cell_lo_less_hi)
  also have "\<dots> \<longleftrightarrow> a = b \<or> cell_contains a b \<and> a \<noteq> b \<or> cell_contains b a \<and> b \<noteq> a"
    using contains_iff [of a a] v by auto
  also have "\<dots> \<longleftrightarrow> index_terms opts pfx a \<inter> query_terms opts pfx b \<noteq> {}"
    by (subst common_terms [OF index_terms_are_terms], assumption)
      (use level le o(2) f in \<open>cases "cell_level a = true_max_level opts"; cases "a = b";
        auto simp: term_sets [OF o(1) f(1)] term_sets [OF o(1) f(2)]\<close>)
  finally show ?thesis ..
qed

definition point_index_terms :: "indexer_options \<Rightarrow> string \<Rightarrow> cellid \<Rightarrow> string set" where
  "point_index_terms opts pfx p = {GetTerm opts ANCESTOR y pfx | y. fits opts y \<and> cell_contains y p}"

definition point_query_terms :: "indexer_options \<Rightarrow> string \<Rightarrow> cellid \<Rightarrow> string set" where
  "point_query_terms opts pfx p = insert (GetTerm opts ANCESTOR (parent_at p (nat (true_max_level opts))) pfx)
     {GetTerm opts COVERING y pfx | y. \<not> points_only opts \<and> fits opts y \<and> cell_contains y p}"

lemma grid_containers:
  assumes "options_ok opts" "is_valid p" "is_leaf p"
  shows "{f y | y. fits opts y \<and> cell_contains y p} = (\<lambda>m. f (parent_at p (nat m))) ` Collect (on_grid opts)"
proof (intro set_eqI iffI)
  fix s assume "s \<in> {f y | y. fits opts y \<and> cell_contains y p}"
  then obtain y where "s = f y" "fits opts y" "cell_contains y p" by auto
  then show "s \<in> (\<lambda>m. f (parent_at p (nat m))) ` Collect (on_grid opts)"
    using fits_contains_t [OF _ assms(2,1)] by (auto simp: fits_def intro!: image_eqI [of _ _ "cell_level y"])
next
  fix s assume "s \<in> (\<lambda>m. f (parent_at p (nat m))) ` Collect (on_grid opts)"
  then obtain m where m: "s = f (parent_at p (nat m))" "on_grid opts m" by auto
  have "cell_level p = 30" using assms(2,3) is_leaf_iff level_lv by simp
  then have "m \<le> cell_level p" using on_grid_bounds_t(2) [OF assms(1) m(2)] by simp
  from m(1) fits_parent_at_t [OF assms(1,2) m(2) this]
  show "s \<in> {f y | y. fits opts y \<and> cell_contains y p}" by blast
qed

lemma point_query_loop_ok:
  assumes o: "options_ok opts" and l: "l < min_level opts \<and> l \<ge> min_level opts - level_mod opts \<or> on_grid opts l"
  shows "\<exists>ts. point_query_loop opts p pfx l terms = Some ts \<and>
    set ts = set terms \<union> (\<lambda>m. GetTerm opts COVERING (parent_at p (nat m)) pfx) ` {m. m \<le> l \<and> on_grid opts m}"
  using l
proof (induction "nat (l - min_level opts + 1)" arbitrary: l terms rule: less_induct)
  case less
  note simps = point_query_loop.simps [of opts p pfx l terms]
  show ?case
  proof (cases "on_grid opts l")
    case False
    then have "(\<lambda>m. GetTerm opts COVERING (parent_at p (nat m)) pfx) ` {m. m \<le> l \<and> on_grid opts m} = {}" "\<not> l \<ge> min_level opts"
      using less.prems by (auto simp: on_grid_def)
    then show ?thesis by (simp only: simps if_False Un_empty_right simp_thms) simp
  next
    case True
    have k: "level_mod opts \<ge> 1" using o by (simp add: options_ok_def coverer_ok_def)
    note b = on_grid_bounds_t [OF o True]
    let ?t = "GetTerm opts COVERING (parent_at p (nat l)) pfx"
    have "nat (l - level_mod opts - min_level opts + 1) < nat (l - min_level opts + 1)" using k b by linarith
    moreover have "l - level_mod opts < min_level opts \<and> l - level_mod opts \<ge> min_level opts - level_mod opts
      \<or> on_grid opts (l - level_mod opts)"
      using on_grid_prev_t [OF o True] b by (cases "l - level_mod opts \<ge> min_level opts") auto
    ultimately obtain ts where ts: "point_query_loop opts p pfx (l - level_mod opts) (terms @ [?t]) = Some ts"
      "set ts = set (terms @ [?t]) \<union>
        (\<lambda>m. GetTerm opts COVERING (parent_at p (nat m)) pfx) ` {m. m \<le> l - level_mod opts \<and> on_grid opts m}"
      using less.hyps [of "l - level_mod opts" "terms @ [?t]"] by blast
    moreover have "{m. m \<le> l \<and> on_grid opts m} = insert l {m. m \<le> l - level_mod opts \<and> on_grid opts m}"
      using on_grid_step_t [OF o True] True k by (auto simp: le_less)
    ultimately show ?thesis using b by (simp add: simps)
  qed
qed

lemma point_terms_loop_ok:
  assumes o: "options_ok opts" and l: "l = true_max_level opts + level_mod opts \<or> on_grid opts l"
  shows "\<exists>ts. point_terms_loop opts p pfx l terms = Some ts \<and>
    set ts = set terms \<union> (\<lambda>m. GetTerm opts ANCESTOR (parent_at p (nat m)) pfx) ` {m. m \<ge> l \<and> on_grid opts m}"
  using l
proof (induction "nat (true_max_level opts + level_mod opts - l)" arbitrary: l terms rule: less_induct)
  case less
  note simps = point_terms_loop.simps [of opts p pfx l terms]
  have k: "level_mod opts \<ge> 1" using o by (simp add: options_ok_def coverer_ok_def)
  show ?case
  proof (cases "on_grid opts l")
    case False
    then have "\<not> l \<le> max_level opts" "(\<lambda>m. GetTerm opts ANCESTOR (parent_at p (nat m)) pfx) ` {m. m \<ge> l \<and> on_grid opts m} = {}"
      using less.prems true_max_level_last_t [OF o] k by (auto simp: on_grid_def)
    then show ?thesis by (simp only: simps if_False Un_empty_right simp_thms) simp
  next
    case True
    note b = on_grid_bounds_t [OF o True]
    let ?t = "GetTerm opts ANCESTOR (parent_at p (nat l)) pfx"
    have "nat (true_max_level opts + level_mod opts - (l + level_mod opts)) <
        nat (true_max_level opts + level_mod opts - l)" using k b by linarith
    moreover have "l + level_mod opts = true_max_level opts + level_mod opts \<or> on_grid opts (l + level_mod opts)"
    proof (cases "l = true_max_level opts")
      case False
      then have "l + level_mod opts \<le> true_max_level opts"
        using on_grid_step_t [OF o true_max_level_eq_t(2) [OF o] True] b by linarith
      moreover have "(l + level_mod opts - min_level opts) mod level_mod opts = (l - min_level opts) mod level_mod opts"
        by (metis add_diff_eq add.commute mod_add_self1)
      ultimately show ?thesis using True k by (simp add: on_grid_def)
    qed simp
    ultimately obtain ts where ts: "point_terms_loop opts p pfx (l + level_mod opts) (terms @ [?t]) = Some ts"
      "set ts = set (terms @ [?t]) \<union>
        (\<lambda>m. GetTerm opts ANCESTOR (parent_at p (nat m)) pfx) ` {m. m \<ge> l + level_mod opts \<and> on_grid opts m}"
      using less.hyps [of "l + level_mod opts" "terms @ [?t]"] by blast
    moreover have "l + level_mod opts \<le> n" if "on_grid opts n" "l < n" for n
      using on_grid_step_t [OF o that(1) True that(2)] by simp
    then have "{m. m \<ge> l \<and> on_grid opts m} = insert l {m. m \<ge> l + level_mod opts \<and> on_grid opts m}"
      using True k by (auto simp: le_less)
    ultimately show ?thesis using b by (simp add: simps)
  qed
qed

lemma canonical_fits:
  assumes "options_ok opts" "IsCanonical opts cov"
  shows "\<forall>x\<in>set cov. fits opts x"
  using canonical_loop_fits [OF assms(1)] assms(2) unfolding IsCanonical_def by blast

lemma index_point_terms:
  assumes "options_ok opts" "is_valid p" "is_leaf p"
  shows "\<exists>ts. GetIndexTerms_point opts p pfx = Some ts \<and> set ts = point_index_terms opts pfx p"
proof -
  have "on_grid opts (min_level opts)"
    using true_max_level_eq_t(2) [OF assms(1)] by (simp add: on_grid_def)
  moreover from this have "{m. m \<ge> min_level opts \<and> on_grid opts m} = Collect (on_grid opts)"
    by (auto simp: on_grid_def)
  ultimately show ?thesis
    using point_terms_loop_ok [OF assms(1), of "min_level opts" p pfx "[]"]
    unfolding GetIndexTerms_point_def point_index_terms_def grid_containers [OF assms, of "\<lambda>y. GetTerm opts ANCESTOR y pfx"]
    by simp
qed

lemma query_point_terms:
  assumes "options_ok opts" "is_valid p" "is_leaf p"
  shows "\<exists>ts. GetQueryTerms_point opts p pfx = Some ts \<and> set ts = point_query_terms opts pfx p"
proof (cases "points_only opts")
  case False
  have "{m. m \<le> true_max_level opts \<and> on_grid opts m} = Collect (on_grid opts)" by (auto simp: on_grid_def)
  then show ?thesis
    using point_query_loop_ok [OF assms(1) disjI2 [OF true_max_level_eq_t(2) [OF assms(1)]], of p pfx
      "[GetTerm opts ANCESTOR (parent_at p (nat (true_max_level opts))) pfx]"] False
      grid_containers [OF assms, of "\<lambda>y. GetTerm opts COVERING y pfx"]
    by (simp add: GetQueryTerms_point_def point_query_terms_def Let_def)
qed (simp add: GetQueryTerms_point_def point_query_terms_def)

lemma point_region_pair:
  assumes o: "options_ok opts" and f: "fits opts b" and p: "is_valid p" "is_leaf p"
  shows "point_index_terms opts pfx p \<inter> query_terms opts pfx b \<noteq> {} \<longleftrightarrow> cell_contains b p"
proof -
  have m: "\<not> alphanumeric (marker_character opts)" using o by (simp add: options_ok_def coverer_ok_def)
  have "point_index_terms opts pfx p \<inter> query_terms opts pfx b \<noteq> {} \<longleftrightarrow>
    GetTerm opts ANCESTOR b pfx \<in> point_index_terms opts pfx p"
    by (subst common_terms [of _ opts pfx]) (auto simp: point_index_terms_def term_sets [OF o f] GetTerm_inject [OF m])
  then show ?thesis using f by (auto simp: point_index_terms_def GetTerm_inject [OF m])
qed

lemma region_point_pair:
  assumes o: "options_ok opts" "\<not> points_only opts" and f: "fits opts a" and p: "is_valid p" "is_leaf p"
  shows "index_terms opts pfx a \<inter> point_query_terms opts pfx p \<noteq> {} \<longleftrightarrow> cell_contains a p"
proof -
  have m: "\<not> alphanumeric (marker_character opts)" using o by (simp add: options_ok_def coverer_ok_def)
  let ?q = "parent_at p (nat (true_max_level opts))"
  have "true_max_level opts \<le> cell_level p"
    using on_grid_bounds_t(2) [OF o(1) true_max_level_eq_t(2) [OF o(1)]] is_leaf_iff [OF p(1)] p(2) level_lv [OF p(1)]
    by simp
  note q = fits_parent_at_t [OF o(1) p(1) true_max_level_eq_t(2) [OF o(1)] this]
  have le: "cell_level a \<le> true_max_level opts"
    using on_grid_bounds_t(5) [OF o(1), of "cell_level a"] f by (simp add: fits_def)
  have "?q = a \<longleftrightarrow> cell_level a = true_max_level opts \<and> cell_contains a p"
    using fits_contains_t [OF f p(1) o(1)] q by auto
  moreover have "\<not> (cell_contains ?q a \<and> ?q \<noteq> a)"
    using proper_container_level [OF o(1) q(1) f] q(2) by auto
  ultimately show ?thesis
    by (subst common_terms [OF index_terms_are_terms])
      (assumption, use f le o(2) in \<open>auto simp: GetTerm_inject [OF m] term_sets [OF o(1) f] point_query_terms_def\<close>)
qed

lemma point_point_pair:
  assumes o: "options_ok opts" and p: "is_valid p" "is_leaf p" and q: "is_valid q" "is_leaf q"
  shows "point_index_terms opts pfx p \<inter> point_query_terms opts pfx q \<noteq> {} \<longleftrightarrow>
    parent_at p (nat (true_max_level opts)) = parent_at q (nat (true_max_level opts))"
proof -
  have m: "\<not> alphanumeric (marker_character opts)" using o by (simp add: options_ok_def coverer_ok_def)
  have l: "true_max_level opts \<le> cell_level x" if "is_valid x" "is_leaf x" for x
    using on_grid_bounds_t(2) [OF o true_max_level_eq_t(2) [OF o]] is_leaf_iff [OF that(1)] that(2) level_lv [OF that(1)]
    by simp
  let ?y = "parent_at q (nat (true_max_level opts))"
  note y = fits_parent_at_t [OF o q(1) true_max_level_eq_t(2) [OF o] l [OF q]]
  have "point_index_terms opts pfx p \<inter> point_query_terms opts pfx q \<noteq> {} \<longleftrightarrow> cell_contains ?y p"
    using y(1) by (auto simp: point_index_terms_def point_query_terms_def GetTerm_inject [OF m])
  also have "\<dots> \<longleftrightarrow> parent_at p (nat (true_max_level opts)) = ?y"
    using fits_contains_t [OF y(1) p(1) o] y(2) l [OF p] by simp
  finally show ?thesis .
qed

end
