(* ===== verification/Term_Properties.thy ===== *)
theory Term_Properties
  imports Term_Match
begin

text \<open>
  \<^verbatim>\<open>S2RegionTermIndexer\<close> finds what it should: index and query terms share a term exactly when the
  regions meet.
\<close>

section \<open>Regions against regions\<close>

text \<open>C26: for canonical coverings of the document and of the query, the index terms of the one and the
  query terms of the other have a common term if and only if a cell of the one intersects a cell of
  the other; both functions return, for either setting of \<open>optimize_for_space\<close> and every prefix.
\<close>

theorem region_terms_match:
  assumes "options_ok opts" and "\<not> points_only opts"
    and "IsCanonical opts document" and "IsCanonical opts query"
  shows "\<exists>index_ts query_ts.
    GetIndexTermsForCanonicalCovering opts document pfx = Some index_ts \<and>
    GetQueryTermsForCanonicalCovering opts query pfx = Some query_ts \<and>
    (set index_ts \<inter> set query_ts \<noteq> {} \<longleftrightarrow>
      (\<exists>a\<in>set document. \<exists>b\<in>set query. cell_intersects a b))"
proof -
  note f = canonical_fits [OF assms(1,3)] canonical_fits [OF assms(1,4)]
  obtain index_ts where i: "index_terms_loop opts pfx cell_None document [] = Some index_ts"
    "set index_ts = (\<Union>x\<in>set document. index_terms opts pfx x)"
    using index_terms_loop_ok [OF assms(1) f(1), of cell_None pfx "[]"] by auto
  obtain query_ts where q: "query_terms_loop opts pfx cell_None query [] = Some query_ts"
    "set query_ts = (\<Union>x\<in>set query. query_terms opts pfx x)"
    using query_terms_loop_ok [OF assms(1) f(2), of cell_None pfx "[]"] by auto
  have "set index_ts \<inter> set query_ts \<noteq> {} \<longleftrightarrow>
    (\<exists>a\<in>set document. \<exists>b\<in>set query. index_terms opts pfx a \<inter> query_terms opts pfx b \<noteq> {})"
    unfolding i(2) q(2) by blast
  also have "\<dots> \<longleftrightarrow> (\<exists>a\<in>set document. \<exists>b\<in>set query. cell_intersects a b)"
    using f region_pair [OF assms(1,2)] by blast
  finally show ?thesis
    using i(1) q(1) assms(2)
    by (simp add: GetIndexTermsForCanonicalCovering_def GetQueryTermsForCanonicalCovering_def)
qed

lemma default_options_ok: "options_ok indexer_Options" "\<not> points_only indexer_Options"
  by code_simp+

theorem region_terms_match_witness:
  "\<exists>index_ts query_ts.
    GetIndexTermsForCanonicalCovering indexer_Options [parent_at 1 5] ''s2:'' = Some index_ts \<and>
    GetQueryTermsForCanonicalCovering indexer_Options [parent_at 1 9] ''s2:'' = Some query_ts \<and>
    set index_ts \<inter> set query_ts \<noteq> {}"
proof -
  have c: "IsCanonical indexer_Options [parent_at 1 5]" "IsCanonical indexer_Options [parent_at 1 9]"
    by code_simp+
  have "cell_intersects (parent_at 1 5) (parent_at 1 9)" by code_simp
  then show ?thesis using region_terms_match [OF default_options_ok c, of "''s2:''"] by simp
qed


section \<open>Points\<close>

text \<open>C27: a point, given by its leaf cell, is found by a region query if and only if a cell of the
  query's covering contains it, also in an index that holds points only; a region is found by a point
  query if and only if a cell of its covering contains the point; and two points are found by each
  other if and only if they lie in the same cell at the last level used.
\<close>

theorem point_terms_match:
  assumes "options_ok opts" and "IsCanonical opts covering"
    and "is_valid p" and "is_leaf p" and "is_valid q" and "is_leaf q"
  shows "\<exists>point_ts pquery_ts query_ts.
    GetIndexTerms_point opts p pfx = Some point_ts \<and>
    GetQueryTerms_point opts q pfx = Some pquery_ts \<and>
    GetQueryTermsForCanonicalCovering opts covering pfx = Some query_ts \<and>
    (set point_ts \<inter> set query_ts \<noteq> {} \<longleftrightarrow> (\<exists>b\<in>set covering. cell_contains b p)) \<and>
    (set point_ts \<inter> set pquery_ts \<noteq> {} \<longleftrightarrow>
      parent_at p (nat (true_max_level opts)) = parent_at q (nat (true_max_level opts))) \<and>
    (\<not> points_only opts \<longrightarrow> (\<exists>index_ts. GetIndexTermsForCanonicalCovering opts covering pfx = Some index_ts \<and>
      (set index_ts \<inter> set pquery_ts \<noteq> {} \<longleftrightarrow> (\<exists>a\<in>set covering. cell_contains a q))))"
proof -
  note f = canonical_fits [OF assms(1,2)]
  obtain index_ts where i: "index_terms_loop opts pfx cell_None covering [] = Some index_ts"
    "set index_ts = (\<Union>x\<in>set covering. index_terms opts pfx x)"
    using index_terms_loop_ok [OF assms(1) f, of cell_None pfx "[]"] by auto
  obtain query_ts where r: "GetQueryTermsForCanonicalCovering opts covering pfx = Some query_ts"
    "set query_ts = (\<Union>x\<in>set covering. query_terms opts pfx x)"
    using query_terms_loop_ok [OF assms(1) f, of cell_None pfx "[]"]
    by (auto simp: GetQueryTermsForCanonicalCovering_def)
  obtain point_ts where p: "GetIndexTerms_point opts p pfx = Some point_ts" "set point_ts = point_index_terms opts pfx p"
    using index_point_terms [OF assms(1,3,4)] by blast
  obtain pquery_ts where q: "GetQueryTerms_point opts q pfx = Some pquery_ts" "set pquery_ts = point_query_terms opts pfx q"
    using query_point_terms [OF assms(1,5,6)] by blast
  have "set point_ts \<inter> set query_ts \<noteq> {} \<longleftrightarrow> (\<exists>b\<in>set covering. cell_contains b p)"
    unfolding p(2) r(2) using f point_region_pair [OF assms(1) _ assms(3,4), of _ pfx] by blast
  moreover have "set point_ts \<inter> set pquery_ts \<noteq> {} \<longleftrightarrow>
      parent_at p (nat (true_max_level opts)) = parent_at q (nat (true_max_level opts))"
    unfolding p(2) q(2) by (rule point_point_pair [OF assms(1,3,4,5,6)])
  moreover have "set index_ts \<inter> set pquery_ts \<noteq> {} \<longleftrightarrow> (\<exists>a\<in>set covering. cell_contains a q)" if "\<not> points_only opts"
    unfolding i(2) q(2) using f region_point_pair [OF assms(1) that _ assms(5,6), of _ pfx] by blast
  ultimately show ?thesis using i(1) r(1) p(1) q(1) by (simp add: GetIndexTermsForCanonicalCovering_def)
qed

theorem point_terms_match_witness:
  "\<exists>point_ts query_ts. GetIndexTerms_point indexer_Options 1 ''s2:'' = Some point_ts \<and>
    GetQueryTermsForCanonicalCovering indexer_Options [parent_at 1 5] ''s2:'' = Some query_ts \<and>
    set point_ts \<inter> set query_ts \<noteq> {}"
proof -
  have c: "IsCanonical indexer_Options [parent_at 1 5]" "is_valid 1" "is_leaf 1"
    "cell_contains (parent_at 1 5) 1" by code_simp+
  show ?thesis
    using point_terms_match [OF default_options_ok(1) c(1) c(2,3) c(2,3), of "''s2:''"] c(4) by auto
qed

end
