(* ===== verification/Coverer.thy ===== *)
theory Coverer
  imports Region_Coverer Hilbert "HOL-Library.Monad_Syntax"
begin

text \<open>
  The covering algorithm of \<^verbatim>\<open>s2/s2region_coverer.cc\<close>.  A region is what the algorithm asks of an
  \<^verbatim>\<open>S2Region\<close>: \<open>MayIntersect\<close>, \<open>Contains\<close> and \<open>GetCellUnionBound\<close>.  An \<^verbatim>\<open>S2Cell\<close> is the id it was made
  from, which is all that the coverer itself reads of it; the counter of created candidates, which is
  only logged, is left out.

  The priority queue is the list of its entries.  Which of the entries with the highest priority
  \<^verbatim>\<open>std::priority_queue::top\<close> returns is not specified; \<open>queue_top\<close> is the position of the one returned.
  \<open>union_bound\<close> is \<^verbatim>\<open>S2CellUnion::GetCellUnionBound\<close>, the cells around the bounding cap of a union.
\<close>

record region =
  MayIntersect :: "cellid \<Rightarrow> bool"
  region_Contains :: "cellid \<Rightarrow> bool"
  GetCellUnionBound :: "cellid list"

datatype candidate = Candidate (candidate_cell: cellid) (candidate_terminal: bool) (candidate_children: "candidate list")

record coverer_state =
  result :: "cellid list"
  pq :: "(int \<times> candidate) list"

definition Subdivide :: "cellid \<Rightarrow> cellid list" where
  "Subdivide x =
     (let a = child_begin x; b = cell_next a; c = cell_next b; d = cell_next c
      in if is_leaf x then [] else [a, b, c, d])"

definition max_children_shift :: "'a coverer_options_scheme \<Rightarrow> nat" where
  "max_children_shift opts = nat (2 * level_mod opts)"

definition NewCandidate :: "'a coverer_options_scheme \<Rightarrow> bool \<Rightarrow> region \<Rightarrow> cellid \<Rightarrow> candidate option" where
  "NewCandidate opts interior r x =
     (if \<not> MayIntersect r x then None
      else if cell_level x \<ge> min_level opts
      then if interior
           then if region_Contains r x then Some (Candidate x True [])
                else if cell_level x + level_mod opts > max_level opts then None
                else Some (Candidate x False [])
           else Some (Candidate x (cell_level x + level_mod opts > max_level opts \<or> region_Contains r x) [])
      else Some (Candidate x False []))"

text \<open>The children found so far and the number of terminal ones.\<close>

fun ExpandChildren ::
  "'a coverer_options_scheme \<Rightarrow> bool \<Rightarrow> region \<Rightarrow> cellid \<Rightarrow> nat \<Rightarrow> candidate list \<times> int \<Rightarrow> candidate list \<times> int" where
  "ExpandChildren opts interior r x num_levels acc =
     (let n = num_levels - 1
      in fold (\<lambda>y (cs, t).
           if n > 0
           then if MayIntersect r y then ExpandChildren opts interior r y n (cs, t) else (cs, t)
           else case NewCandidate opts interior r y of
                  None \<Rightarrow> (cs, t)
                | Some c \<Rightarrow> (cs @ [c], if candidate_terminal c then t + 1 else t))
         (Subdivide x) acc)"

definition AddCandidate ::
  "'a coverer_options_scheme \<Rightarrow> bool \<Rightarrow> region \<Rightarrow> candidate option \<Rightarrow> coverer_state \<Rightarrow> coverer_state" where
  "AddCandidate opts interior r candidate st =
     (case candidate of None \<Rightarrow> st
      | Some (Candidate x terminal cs) \<Rightarrow>
          if terminal then st\<lparr>result := result st @ [x]\<rparr>
          else
            let num_levels = (if cell_level x < min_level opts then 1 else level_mod opts);
                (cs, num_terminals) = ExpandChildren opts interior r x (nat num_levels) (cs, 0)
            in if cs = [] then st
               else if \<not> interior \<and> num_terminals = push_bit (max_children_shift opts) 1 \<and>
                       cell_level x \<ge> min_level opts
               then st\<lparr>result := result st @ [x]\<rparr>
               else
                 let priority = - (push_bit (max_children_shift opts)
                       (push_bit (max_children_shift opts) (cell_level x) + int (length cs)) + num_terminals)
                 in st\<lparr>pq := pq st @ [(priority, Candidate x False cs)]\<rparr>)"

text \<open>The children of a candidate, until an interior covering is full.\<close>

fun add_children ::
  "'a coverer_options_scheme \<Rightarrow> bool \<Rightarrow> region \<Rightarrow> candidate list \<Rightarrow> coverer_state \<Rightarrow> coverer_state" where
  "add_children opts interior r [] st = st"
| "add_children opts interior r (c # cs) st =
     (if interior \<and> length (result st) \<ge> unat (of_int (max_cells opts) :: uint64)
      then add_children opts interior r cs st
      else add_children opts interior r cs (AddCandidate opts interior r (Some c) st))"

partial_function (option) covering_loop ::
  "((int \<times> candidate) list \<Rightarrow> nat) \<Rightarrow> 'a coverer_options_scheme \<Rightarrow> bool \<Rightarrow> region \<Rightarrow> coverer_state \<Rightarrow> coverer_state option" where
  "covering_loop queue_top opts interior r st =
     (if pq st \<noteq> [] \<and> (\<not> interior \<or> length (result st) < unat (of_int (max_cells opts) :: uint64))
      then
        case pq st ! queue_top (pq st) of
          (_, Candidate x terminal cs) \<Rightarrow>
            let st = st\<lparr>pq := take (queue_top (pq st)) (pq st) @ drop (Suc (queue_top (pq st))) (pq st)\<rparr>
            in covering_loop queue_top opts interior r
                 (if interior \<or> cell_level x < min_level opts \<or> length cs = 1 \<or>
                     length (result st) + length (pq st) + length cs \<le> unat (of_int (max_cells opts) :: uint64)
                  then add_children opts interior r cs st
                  else AddCandidate opts interior r (Some (Candidate x True cs)) st)
      else Some st)"

text \<open>
  The simplification of \<open>CanonicalizeCovering\<close>: the last pair of neighbours with the deepest common
  ancestor is not preferred over an earlier one.
\<close>

fun best_pair :: "'a coverer_options_scheme \<Rightarrow> nat \<Rightarrow> cellid list \<Rightarrow> int \<times> int \<Rightarrow> int \<times> int" where
  "best_pair opts i (x # y # covering) (best_index, best_level) =
     (let level = AdjustLevel opts (GetCommonAncestorLevel x y)
      in best_pair opts (i + 1) (y # covering)
           (if level > best_level then (int i, level) else (best_index, best_level)))"
| "best_pair opts i covering best = best"

partial_function (option) merge_parents ::
  "'a coverer_options_scheme \<Rightarrow> cellid \<Rightarrow> int \<Rightarrow> cellid list \<Rightarrow> cellid list option" where
  "merge_parents opts x best_level covering =
     (if best_level > min_level opts
      then
        let best_level = best_level - level_mod opts;
            x = parent_at x (nat best_level)
        in do { all_children \<leftarrow> ContainsAllChildren opts covering x;
                if \<not> all_children then Some covering
                else do { covering \<leftarrow> ReplaceCellsWithAncestor covering x;
                          merge_parents opts x best_level covering } }
      else Some covering)"

partial_function (option) reduce_loop :: "'a coverer_options_scheme \<Rightarrow> cellid list \<Rightarrow> cellid list option" where
  "reduce_loop opts covering =
     (if length covering > unat (of_int (max_cells opts) :: uint64)
      then case best_pair opts 0 covering (-1, -1) of (best_index, best_level) \<Rightarrow>
        if best_level < min_level opts then Some covering
        else
          let x = parent_at (covering ! nat best_index) (nat best_level)
          in do { covering \<leftarrow> ReplaceCellsWithAncestor covering x;
                  covering \<leftarrow> merge_parents opts x best_level covering;
                  reduce_loop opts covering }
      else Some covering)"

text \<open>\<open>cover_union\<close> is the call of \<open>GetCovering\<close> on the covering as a region.\<close>

definition CanonicalizeCovering ::
  "(cellid list \<Rightarrow> cellid list option) \<Rightarrow> 'a coverer_options_scheme \<Rightarrow> cellid list \<Rightarrow> cellid list option" where
  "CanonicalizeCovering cover_union opts covering =
     (let covering =
            (if max_level opts < int kMaxLevel \<or> level_mod opts > 1
             then map (\<lambda>x. let level = cell_level x;
                               new_level = AdjustLevel opts (min level (max_level opts))
                           in if new_level \<noteq> level then parent_at x (nat new_level) else x) covering
             else covering);
          covering = CU_Normalize covering
      in do {
        covering \<leftarrow> (if min_level opts > 0 \<or> level_mod opts > 1
                     then CU_Denormalize covering (min_level opts) (level_mod opts)
                     else Some covering);
        let excess = sint (of_nat (length covering) - of_int (max_cells opts) :: uint64);
        if excess \<le> 0 \<or> IsCanonical opts covering then Some covering
        else if unat (of_int excess * of_nat (length covering) :: uint64) > 10000 then cover_union (CU_Init covering)
        else reduce_loop opts covering })"

definition union_region :: "(cellid list \<Rightarrow> cellid list) \<Rightarrow> cellid list \<Rightarrow> region" where
  "union_region union_bound ids =
     \<lparr>MayIntersect = CU_Intersects ids, region_Contains = CU_Contains ids, GetCellUnionBound = union_bound ids\<rparr>"

text \<open>
  \<open>GetCoveringInternal\<close> builds its initial candidates with a second coverer, whose \<open>CanonicalizeCovering\<close>
  may call \<open>GetCovering\<close> again: \<open>fuel\<close> bounds this nesting, and without fuel the result is \<open>None\<close>.
\<close>

definition finish_covering :: "'a coverer_options_scheme \<Rightarrow> cellid list \<Rightarrow> cellid list option" where
  "finish_covering opts cells =
     (let cells = CU_Normalize cells
      in if min_level opts > 0 \<or> level_mod opts > 1
         then CU_Denormalize cells (min_level opts) (level_mod opts) else Some cells)"

definition tmp_coverer :: "'a coverer_options_scheme \<Rightarrow> coverer_options" where
  "tmp_coverer opts = set_max_level (max_level opts) (set_max_cells (min 4 (max_cells opts)) coverer_Options)"

definition add_initial :: "'a coverer_options_scheme \<Rightarrow> bool \<Rightarrow> region \<Rightarrow> cellid list \<Rightarrow> coverer_state" where
  "add_initial opts interior r cells =
     fold (\<lambda>x. AddCandidate opts interior r (NewCandidate opts interior r x)) cells \<lparr>result = [], pq = []\<rparr>"

fun GetCoveringInternal ::
  "nat \<Rightarrow> (cellid list \<Rightarrow> cellid list) \<Rightarrow> ((int \<times> candidate) list \<Rightarrow> nat) \<Rightarrow> coverer_options \<Rightarrow> bool \<Rightarrow> region \<Rightarrow> cellid list option" where
  "GetCoveringInternal 0 union_bound queue_top opts interior r = None"
| "GetCoveringInternal (Suc fuel) union_bound queue_top opts interior r =
     do { cells \<leftarrow> CanonicalizeCovering
            (\<lambda>ids. GetCoveringInternal fuel union_bound queue_top (tmp_coverer opts) False (union_region union_bound ids))
            (tmp_coverer opts) (GetCellUnionBound r);
          st \<leftarrow> covering_loop queue_top opts interior r (add_initial opts interior r (AdjustCellLevels opts cells));
          finish_covering opts (result st) }"

definition GetCovering :: "nat \<Rightarrow> (cellid list \<Rightarrow> cellid list) \<Rightarrow> ((int \<times> candidate) list \<Rightarrow> nat) \<Rightarrow> coverer_options \<Rightarrow> region \<Rightarrow> cellid list option" where
  "GetCovering fuel union_bound queue_top opts r = GetCoveringInternal fuel union_bound queue_top opts False r"

definition GetInteriorCovering :: "nat \<Rightarrow> (cellid list \<Rightarrow> cellid list) \<Rightarrow> ((int \<times> candidate) list \<Rightarrow> nat) \<Rightarrow> coverer_options \<Rightarrow> region \<Rightarrow> cellid list option" where
  "GetInteriorCovering fuel union_bound queue_top opts r = GetCoveringInternal fuel union_bound queue_top opts True r"

definition CanonicalizeCovering_vector :: "nat \<Rightarrow> (cellid list \<Rightarrow> cellid list) \<Rightarrow> ((int \<times> candidate) list \<Rightarrow> nat) \<Rightarrow> coverer_options \<Rightarrow> cellid list \<Rightarrow> cellid list option" where
  "CanonicalizeCovering_vector fuel union_bound queue_top opts covering =
     CanonicalizeCovering (\<lambda>ids. GetCoveringInternal fuel union_bound queue_top opts False (union_region union_bound ids)) opts covering"

definition CanonicalizeCovering_union :: "nat \<Rightarrow> (cellid list \<Rightarrow> cellid list) \<Rightarrow> ((int \<times> candidate) list \<Rightarrow> nat) \<Rightarrow> coverer_options \<Rightarrow> cell_union \<Rightarrow> cell_union option" where
  "CanonicalizeCovering_union fuel union_bound queue_top opts covering =
     do { ids \<leftarrow> CanonicalizeCovering_vector fuel union_bound queue_top opts covering; Some (CU_Init ids) }"

definition GetFastCovering :: "nat \<Rightarrow> (cellid list \<Rightarrow> cellid list) \<Rightarrow> ((int \<times> candidate) list \<Rightarrow> nat) \<Rightarrow> coverer_options \<Rightarrow> region \<Rightarrow> cellid list option" where
  "GetFastCovering fuel union_bound queue_top opts r = CanonicalizeCovering_vector fuel union_bound queue_top opts (GetCellUnionBound r)"

text \<open>\<open>FloodFill\<close>: the frontier is used as a stack, its top is the head of the list.\<close>

definition visit_neighbors :: "cellid list \<Rightarrow> cellid set \<Rightarrow> cellid list \<Rightarrow> cellid set \<times> cellid list" where
  "visit_neighbors neighbors all frontier =
     fold (\<lambda>nbr (all, frontier). if nbr \<in> all then (all, frontier) else (insert nbr all, nbr # frontier))
       neighbors (all, frontier)"

partial_function (option) flood_loop ::
  "(cellid \<Rightarrow> cellid list) \<Rightarrow> region \<Rightarrow> cellid set \<Rightarrow> cellid list \<Rightarrow> cellid list \<Rightarrow> cellid list option" where
  "flood_loop neighbors r all frontier output =
     (case frontier of [] \<Rightarrow> Some output
      | x # frontier \<Rightarrow>
          if \<not> MayIntersect r x then flood_loop neighbors r all frontier output
          else case visit_neighbors (neighbors x) all frontier of
                 (all, frontier) \<Rightarrow> flood_loop neighbors r all frontier (output @ [x]))"

definition FloodFill :: "(nat \<Rightarrow> int \<Rightarrow> int \<Rightarrow> cellid) \<Rightarrow> region \<Rightarrow> cellid \<Rightarrow> cellid list option" where
  "FloodFill wrap r start = flood_loop (GetEdgeNeighbors wrap) r {start} [start] []"

definition GetSimpleCovering :: "(nat \<Rightarrow> int \<Rightarrow> int \<Rightarrow> cellid) \<Rightarrow> region \<Rightarrow> cellid \<Rightarrow> nat \<Rightarrow> cellid list option" where
  "GetSimpleCovering wrap r start level = FloodFill wrap r (parent_at start level)"

end
