(* ===== verification/Coverer_Sound.thy ===== *)
theory Coverer_Sound
  imports Coverer Level_Grid Cell_Union_Properties
begin

text \<open>
  The covering loop: whatever entry of the queue is taken first, it ends, no leaf of the region is
  lost, and in an interior covering every cell is inside the region.
\<close>

section \<open>Regions\<close>

text \<open>What \<^verbatim>\<open>S2Region\<close> promises of a region that consists of the leaves \<open>R\<close>.\<close>

definition region_ok :: "nat set \<Rightarrow> region \<Rightarrow> bool" where
  "region_ok R r \<longleftrightarrow>
     (\<forall>x. is_valid x \<longrightarrow> leaves x \<inter> R \<noteq> {} \<longrightarrow> MayIntersect r x) \<and>
     (\<forall>x. is_valid x \<longrightarrow> region_Contains r x \<longrightarrow> leaves x \<subseteq> R) \<and>
     (\<forall>x\<in>set (GetCellUnionBound r). is_valid x) \<and> R \<subseteq> cover (GetCellUnionBound r)"


section \<open>Candidates\<close>

lemma Subdivide_children:
  assumes "is_valid x" "cell_lv x < 30"
  shows "Subdivide x = map (child x) [0, 1, 2, 3]"
proof -
  obtain l q where x: "x = cell_at l q" "l \<le> 30" "q < 6 * 4 ^ l" "q < 7 * 4 ^ l"
    using assms(1) by (rule cell_span_at_cases)
  have "l < 30" using assms(2) x by (simp add: span_at)
  then show ?thesis
    using x unfolding Subdivide_def Let_def
    by (simp add: cell_simps numeral_2_eq_2 numeral_3_eq_3)
qed

lemma Subdivide_valid:
  assumes "is_valid x" "cell_lv x < 30"
  shows "y \<in> set (Subdivide x) \<Longrightarrow> is_valid y \<and> cell_lv y = Suc (cell_lv x)"
    and "cover (Subdivide x) = leaves x" and "length (Subdivide x) = 4"
  using child_valid(1,2) [OF assms] leaves_children [OF assms]
  by (auto simp: Subdivide_children [OF assms] cover_def less_4)

text \<open>A new candidate for a cell: terminal ones may go to the result, others can be expanded.\<close>

definition grid_or_above :: "'a coverer_options_scheme \<Rightarrow> int \<Rightarrow> bool" where
  "grid_or_above opts l \<longleftrightarrow> l < min_level opts \<or> on_grid opts l"

definition fresh :: "'a coverer_options_scheme \<Rightarrow> bool \<Rightarrow> region \<Rightarrow> candidate \<Rightarrow> bool" where
  "fresh opts interior r c \<longleftrightarrow> is_valid (candidate_cell c) \<and> candidate_children c = [] \<and>
     grid_or_above opts (cell_level (candidate_cell c)) \<and>
     (candidate_terminal c \<longrightarrow> cell_level (candidate_cell c) \<ge> min_level opts \<and>
        (interior \<longrightarrow> region_Contains r (candidate_cell c))) \<and>
     (\<not> candidate_terminal c \<longrightarrow> cell_level (candidate_cell c) < min_level opts \<or>
        cell_level (candidate_cell c) + level_mod opts \<le> max_level opts)"

lemma NewCandidate_fresh:
  "is_valid x \<Longrightarrow> grid_or_above opts (cell_level x) \<Longrightarrow> NewCandidate opts interior r x = Some c \<Longrightarrow>
    fresh opts interior r c \<and> candidate_cell c = x"
  by (auto simp: NewCandidate_def fresh_def split: if_splits)

lemma NewCandidate_None:
  "region_ok R r \<Longrightarrow> is_valid x \<Longrightarrow> NewCandidate opts False r x = None \<Longrightarrow> leaves x \<inter> R = {}"
  by (auto simp: NewCandidate_def region_ok_def split: if_splits)

lemma terminals_snoc:
  "int (length (filter candidate_terminal (xs @ [c]))) =
    (if candidate_terminal c then int (length (filter candidate_terminal xs)) + 1
     else int (length (filter candidate_terminal xs)))"
  by simp

declare ExpandChildren.simps [simp del]

text \<open>What the expansion of a cell adds to the children.\<close>

definition pending :: "candidate list \<Rightarrow> nat set" where
  "pending cs = (\<Union>c\<in>set cs. leaves (candidate_cell c))"

definition expansion :: "'a coverer_options_scheme \<Rightarrow> bool \<Rightarrow> region \<Rightarrow> nat \<Rightarrow> nat \<Rightarrow> candidate list \<Rightarrow> bool" where
  "expansion opts interior r l k cs \<longleftrightarrow> length cs \<le> k \<and> (\<forall>c\<in>set cs. fresh opts interior r c \<and> cell_lv (candidate_cell c) = l)"

lemma expand_fold:
  assumes step: "\<And>y cs t. y \<in> set ys \<Longrightarrow> \<exists>new. f y (cs, t) = (cs @ new, t + int (length (filter candidate_terminal new))) \<and>
      expansion opts interior r l k new \<and> pending new \<subseteq> leaves y \<and> (\<not> interior \<longrightarrow> leaves y \<inter> R \<subseteq> pending new)"
  shows "\<exists>new. fold f ys (cs, t) = (cs @ new, t + int (length (filter candidate_terminal new))) \<and>
      expansion opts interior r l (length ys * k) new \<and> pending new \<subseteq> cover ys \<and> (\<not> interior \<longrightarrow> cover ys \<inter> R \<subseteq> pending new)"
  using step
proof (induction ys arbitrary: cs t)
  case Nil
  then show ?case by (simp add: expansion_def cover_def pending_def)
next
  case (Cons y ys)
  obtain n1 where n1: "f y (cs, t) = (cs @ n1, t + int (length (filter candidate_terminal n1)))"
      "expansion opts interior r l k n1" "pending n1 \<subseteq> leaves y" "\<not> interior \<longrightarrow> leaves y \<inter> R \<subseteq> pending n1"
    using Cons.prems [of y cs t] by auto
  obtain n2 where n2: "fold f ys (cs @ n1, t + int (length (filter candidate_terminal n1))) =
      ((cs @ n1) @ n2, t + int (length (filter candidate_terminal n1)) + int (length (filter candidate_terminal n2)))"
      "expansion opts interior r l (length ys * k) n2" "pending n2 \<subseteq> cover ys" "\<not> interior \<longrightarrow> cover ys \<inter> R \<subseteq> pending n2"
    using Cons.IH [of "cs @ n1" "t + int (length (filter candidate_terminal n1))"] Cons.prems by auto
  have "fold f (y # ys) (cs, t) = (cs @ (n1 @ n2), t + int (length (filter candidate_terminal (n1 @ n2))))"
    using n1(1) n2(1) by simp
  moreover have "expansion opts interior r l (length (y # ys) * k) (n1 @ n2)"
    using n1(2) n2(2) by (auto simp: expansion_def)
  moreover have "pending (n1 @ n2) \<subseteq> cover (y # ys)"
    using n1(3) n2(3) by (auto simp: cover_def pending_def)
  moreover have "\<not> interior \<longrightarrow> cover (y # ys) \<inter> R \<subseteq> pending (n1 @ n2)"
    using n1(4) n2(4) by (auto simp: cover_def pending_def)
  ultimately show ?case by blast
qed

lemma ExpandChildren_spec:
  assumes o: "coverer_ok opts" and r: "region_ok R r"
  shows "is_valid x \<Longrightarrow> 0 < n \<Longrightarrow> cell_lv x + n \<le> 30 \<Longrightarrow> grid_or_above opts (int (cell_lv x + n)) \<Longrightarrow>
    \<exists>new. ExpandChildren opts interior r x n (cs, t) = (cs @ new, t + int (length (filter candidate_terminal new))) \<and>
      expansion opts interior r (cell_lv x + n) (4 ^ n) new \<and> pending new \<subseteq> leaves x \<and> (\<not> interior \<longrightarrow> leaves x \<inter> R \<subseteq> pending new)"
proof (induction n arbitrary: x cs t)
  case (Suc n)
  have lv: "cell_lv x < 30" using Suc.prems by simp
  note sub = Subdivide_valid [OF Suc.prems(1) lv]
  let ?f = "\<lambda>y (cs, t). if n > 0
     then if MayIntersect r y then ExpandChildren opts interior r y n (cs, t) else (cs, t)
     else case NewCandidate opts interior r y of None \<Rightarrow> (cs, t)
          | Some c \<Rightarrow> (cs @ [c], if candidate_terminal c then t + 1 else t)"
  have step: "\<exists>new. ?f y (cs, t) = (cs @ new, t + int (length (filter candidate_terminal new))) \<and>
      expansion opts interior r (cell_lv x + Suc n) (4 ^ n) new \<and> pending new \<subseteq> leaves y \<and> (\<not> interior \<longrightarrow> leaves y \<inter> R \<subseteq> pending new)"
    if y: "y \<in> set (Subdivide x)" for y cs t
  proof -
    have v: "is_valid y" "cell_lv y = Suc (cell_lv x)" using sub(1) [OF y] by auto
    show ?thesis
    proof (cases "n > 0")
      case True
      then have ih: "\<exists>new. ExpandChildren opts interior r y n (cs, t) = (cs @ new, t + int (length (filter candidate_terminal new))) \<and>
          expansion opts interior r (cell_lv x + Suc n) (4 ^ n) new \<and> pending new \<subseteq> leaves y \<and> (\<not> interior \<longrightarrow> leaves y \<inter> R \<subseteq> pending new)"
        using Suc.IH [of y cs t] v Suc.prems by simp
      show ?thesis
      proof (cases "MayIntersect r y")
        case False
        then have "leaves y \<inter> R = {}" using r v(1) unfolding region_ok_def by blast
        then show ?thesis using True False by (intro exI [of _ "[]"]) (simp add: expansion_def pending_def)
      qed (use True ih in simp)
    next
      case False
      show ?thesis
      proof (cases "NewCandidate opts interior r y")
        case None
        then have "\<not> interior \<longrightarrow> leaves y \<inter> R = {}" using NewCandidate_None [OF r v(1), of opts] by (cases interior) auto
        then show ?thesis using False None by (intro exI [of _ "[]"]) (simp add: expansion_def pending_def)
      next
        case (Some c)
        have "grid_or_above opts (cell_level y)" using Suc.prems(4) False v level_lv [OF v(1)] by simp
        from NewCandidate_fresh [OF v(1) this Some]
        show ?thesis using False Some v by (intro exI [of _ "[c]"]) (simp add: expansion_def pending_def)
      qed
    qed
  qed
  have "ExpandChildren opts interior r x (Suc n) (cs, t) = fold ?f (Subdivide x) (cs, t)"
    by (simp add: ExpandChildren.simps [of opts interior r x "Suc n"])
  with expand_fold [of "Subdivide x" ?f opts interior r "cell_lv x + Suc n" "4 ^ n" R cs t, OF step]
  show ?case unfolding sub(2,3) by simp
qed simp


section \<open>The state\<close>

definition entry_ok :: "'a coverer_options_scheme \<Rightarrow> bool \<Rightarrow> region \<Rightarrow> candidate \<Rightarrow> bool" where
  "entry_ok opts interior r c \<longleftrightarrow> is_valid (candidate_cell c) \<and> grid_or_above opts (cell_level (candidate_cell c)) \<and>
     pending (candidate_children c) \<subseteq> leaves (candidate_cell c) \<and>
     (\<forall>d\<in>set (candidate_children c). fresh opts interior r d)"

definition coverer_inv :: "'a coverer_options_scheme \<Rightarrow> bool \<Rightarrow> region \<Rightarrow> coverer_state \<Rightarrow> bool" where
  "coverer_inv opts interior r st \<longleftrightarrow>
     (\<forall>x\<in>set (result st). fits opts x \<and> (interior \<longrightarrow> region_Contains r x)) \<and>
     (\<forall>(p, c)\<in>set (pq st). entry_ok opts interior r c)"

text \<open>The leaves of the result and of the children still to be added.\<close>

definition reachable_leaves :: "coverer_state \<Rightarrow> nat set" where
  "reachable_leaves st = cover (result st) \<union> (\<Union>(p, c)\<in>set (pq st). pending (candidate_children c))"

definition weight :: "candidate \<Rightarrow> nat" where
  "weight c = 65 ^ (31 - cell_lv (candidate_cell c))"

definition queue_weight :: "coverer_state \<Rightarrow> nat" where
  "queue_weight st = (\<Sum>(p, c)\<leftarrow>pq st. Suc (sum_list (map weight (candidate_children c))))"


lemma expansion_weight:
  assumes "expansion opts interior r l k cs" and "k \<le> 64" and "m < l" and "m \<le> 30"
  shows "Suc (sum_list (map weight cs)) \<le> 65 ^ (31 - m)"
proof -
  have "weight c \<le> 65 ^ (30 - m)" if "c \<in> set cs" for c
    using assms that unfolding weight_def expansion_def by (intro power_increasing) auto
  then have "sum_list (map weight cs) \<le> length cs * 65 ^ (30 - m)"
    by (induction cs) (auto intro: add_mono)
  also have "\<dots> \<le> 64 * 65 ^ (30 - m)" using assms(1,2) by (intro mult_le_mono1) (simp add: expansion_def)
  finally have "Suc (sum_list (map weight cs)) \<le> 64 * 65 ^ (30 - m) + 65 ^ (30 - m)"
    using one_le_power [of "65::nat" "30 - m"] by linarith
  also have "\<dots> = 65 ^ Suc (30 - m)" by simp
  also have "Suc (30 - m) = 31 - m" using assms(4) by simp
  finally show ?thesis .
qed

definition levels_down :: "'a coverer_options_scheme \<Rightarrow> cellid \<Rightarrow> nat" where
  "levels_down opts x = nat (if cell_level x < min_level opts then 1 else level_mod opts)"

lemma levels_down_ok:
  assumes "coverer_ok opts" "fresh opts interior r c" "\<not> candidate_terminal c"
  defines "x \<equiv> candidate_cell c"
  shows "0 < levels_down opts x" "levels_down opts x \<le> 3" "cell_lv x + levels_down opts x \<le> 30"
    "grid_or_above opts (int (cell_lv x + levels_down opts x))"
proof -
  let ?n = "levels_down opts x"
  have v: "is_valid x" "cell_level x = int (cell_lv x)" using assms by (auto simp: fresh_def level_lv)
  have b: "0 \<le> min_level opts" "min_level opts \<le> max_level opts" "max_level opts \<le> 30" "1 \<le> level_mod opts" "level_mod opts \<le> 3"
    using assms(1) by (auto simp: coverer_ok_def)
  show n: "0 < ?n" "?n \<le> 3" using b by (auto simp: levels_down_def)
  have "cell_lv x + ?n \<le> 30 \<and> grid_or_above opts (int (cell_lv x + ?n))"
  proof (cases "cell_level x < min_level opts")
    case True
    then have "cell_lv x + ?n \<le> 30" "int (cell_lv x + ?n) \<le> min_level opts" using b v by (auto simp: levels_down_def)
    moreover have "on_grid opts (min_level opts)"
      using true_max_level_eq(2) [OF assms(1)] by (simp add: on_grid_def)
    ultimately show ?thesis unfolding grid_or_above_def by (cases "int (cell_lv x + ?n) = min_level opts") auto
  next
    case False
    then have l: "cell_level x + level_mod opts \<le> max_level opts" "on_grid opts (cell_level x)"
      using assms by (auto simp: fresh_def grid_or_above_def)
    then have "on_grid opts (cell_level x + level_mod opts)" by (intro on_grid_next [OF assms(1)])
    then show ?thesis using l b v False by (auto simp: levels_down_def grid_or_above_def)
  qed
  then show "cell_lv x + ?n \<le> 30" "grid_or_above opts (int (cell_lv x + ?n))" by auto
qed

lemma reachable_leaves_result:
  "reachable_leaves (st\<lparr>result := result st @ [x]\<rparr>) = reachable_leaves st \<union> leaves x"
  by (auto simp: reachable_leaves_def cover_def)

lemma AddCandidate_spec:
  assumes o: "coverer_ok opts" and r: "region_ok R r" and f: "fresh opts interior r c" and i: "coverer_inv opts interior r st"
  defines "st' \<equiv> AddCandidate opts interior r (Some c) st"
  shows "coverer_inv opts interior r st'"
    and "queue_weight st' \<le> queue_weight st + weight c"
    and "\<not> interior \<Longrightarrow> (reachable_leaves st \<union> leaves (candidate_cell c)) \<inter> R \<subseteq> reachable_leaves st'"
proof -
  obtain x t where c: "c = Candidate x t []" using f by (cases c) (auto simp: fresh_def)
  have x: "is_valid x" "grid_or_above opts (cell_level x)" using f by (auto simp: c fresh_def)
  have add: "coverer_inv opts interior r (st\<lparr>result := result st @ [x]\<rparr>)"
    "queue_weight (st\<lparr>result := result st @ [x]\<rparr>) = queue_weight st"
    if "cell_level x \<ge> min_level opts" "interior \<longrightarrow> region_Contains r x"
    using i x that by (auto simp: coverer_inv_def fits_def grid_or_above_def queue_weight_def)
  have "coverer_inv opts interior r st' \<and> queue_weight st' \<le> queue_weight st + weight c \<and>
    (\<not> interior \<longrightarrow> (reachable_leaves st \<union> leaves x) \<inter> R \<subseteq> reachable_leaves st')"
  proof (cases t)
    case True
    then have "st' = st\<lparr>result := result st @ [x]\<rparr>" by (simp add: st'_def c AddCandidate_def)
    then show ?thesis using add f True by (simp add: c fresh_def reachable_leaves_result)
  next
    case False
    note n = levels_down_ok [OF o f, simplified c candidate.sel, OF False]
    let ?n = "levels_down opts x"
    obtain new where e: "ExpandChildren opts interior r x ?n ([], 0) = (new, int (length (filter candidate_terminal new)))"
      "expansion opts interior r (cell_lv x + ?n) (4 ^ ?n) new" "pending new \<subseteq> leaves x"
      "\<not> interior \<longrightarrow> leaves x \<inter> R \<subseteq> pending new"
      using ExpandChildren_spec [OF o r x(1) n(1,3,4), of interior "[]" 0] by auto
    have "st' = (if new = [] then st
        else if \<not> interior \<and> int (length (filter candidate_terminal new)) = push_bit (max_children_shift opts) 1 \<and>
          cell_level x \<ge> min_level opts then st\<lparr>result := result st @ [x]\<rparr>
        else st\<lparr>pq := pq st @ [(- (push_bit (max_children_shift opts)
            (push_bit (max_children_shift opts) (cell_level x) + int (length new)) +
            int (length (filter candidate_terminal new))), Candidate x False new)]\<rparr>)"
      using False e(1) unfolding st'_def c levels_down_def by (simp add: AddCandidate_def Let_def)
    then consider (empty) "new = []" "st' = st"
      | (parent) "st' = st\<lparr>result := result st @ [x]\<rparr>" "\<not> interior" "cell_level x \<ge> min_level opts"
      | (push) p where "st' = st\<lparr>pq := pq st @ [(p, Candidate x False new)]\<rparr>"
      by (metis (full_types))
    then show ?thesis
    proof cases
      case empty
      then show ?thesis using i e(4) by (auto simp: pending_def)
    next
      case parent
      then show ?thesis using add by (simp add: reachable_leaves_result)
    next
      case push
      have "entry_ok opts interior r (Candidate x False new)"
        using x e(2,3) by (simp add: entry_ok_def expansion_def)
      then have "coverer_inv opts interior r st'" using i by (auto simp: push coverer_inv_def)
      moreover have "(4::nat) ^ ?n \<le> 4 ^ 3" using n(2) by (intro power_increasing) auto
      then have "Suc (sum_list (map weight new)) \<le> weight c"
        using expansion_weight [OF e(2), of "cell_lv x"] n(1,3) by (simp add: weight_def c)
      then have "queue_weight st' \<le> queue_weight st + weight c" by (simp add: push queue_weight_def)
      moreover have "reachable_leaves st' = reachable_leaves st \<union> pending new"
        by (auto simp: push reachable_leaves_def)
      ultimately show ?thesis using e(4) by auto
    qed
  qed
  then show "coverer_inv opts interior r st'" "queue_weight st' \<le> queue_weight st + weight c"
    "\<not> interior \<Longrightarrow> (reachable_leaves st \<union> leaves (candidate_cell c)) \<inter> R \<subseteq> reachable_leaves st'"
    by (simp_all add: c)
qed

lemma add_children_spec:
  assumes o: "coverer_ok opts" and r: "region_ok R r"
  shows "\<forall>c\<in>set cs. fresh opts interior r c \<Longrightarrow> coverer_inv opts interior r st \<Longrightarrow>
    coverer_inv opts interior r (add_children opts interior r cs st) \<and>
    queue_weight (add_children opts interior r cs st) \<le> queue_weight st + sum_list (map weight cs) \<and>
    (\<not> interior \<longrightarrow> (reachable_leaves st \<union> pending cs) \<inter> R \<subseteq> reachable_leaves (add_children opts interior r cs st))"
proof (induction cs arbitrary: st)
  case (Cons c cs)
  have f: "fresh opts interior r c" using Cons.prems by simp
  note a = AddCandidate_spec [OF o r f Cons.prems(2)]
  have ih: "coverer_inv opts interior r (add_children opts interior r cs st)"
      "queue_weight (add_children opts interior r cs st) \<le> queue_weight st + sum_list (map weight cs)"
      "\<not> interior \<longrightarrow> (reachable_leaves st \<union> pending cs) \<inter> R \<subseteq> reachable_leaves (add_children opts interior r cs st)"
    if "coverer_inv opts interior r st" for st using Cons.IH [OF _ that] Cons.prems by auto
  let ?st = "AddCandidate opts interior r (Some c) st"
  show ?case
  proof (cases "interior \<and> length (result st) \<ge> unat (of_int (max_cells opts) :: uint64)")
    case True
    then show ?thesis using ih [OF Cons.prems(2)] by simp
  next
    case False
    then have "add_children opts interior r (c # cs) st = add_children opts interior r cs ?st"
      by (simp only: add_children.simps if_False)
    moreover have "(reachable_leaves st \<union> pending (c # cs)) \<inter> R \<subseteq> reachable_leaves (add_children opts interior r cs ?st)"
      if "\<not> interior" using a(3) ih(3) [OF a(1)] that by (auto simp: pending_def)
    ultimately show ?thesis using ih [OF a(1)] a(2) by simp
  qed
qed (simp add: pending_def)


section \<open>The loop\<close>

definition picks :: "((int \<times> candidate) list \<Rightarrow> nat) \<Rightarrow> bool" where
  "picks queue_top \<longleftrightarrow> (\<forall>q. q \<noteq> [] \<longrightarrow> queue_top q < length q)"

lemma take_drop_nth: "i < length xs \<Longrightarrow> xs = take i xs @ xs ! i # drop (Suc i) xs"
  by (simp add: id_take_nth_drop)

lemma pop_queue:
  assumes "i < length (pq st)" "pq st ! i = (p, c)" and i: "coverer_inv opts interior r st"
  defines "st' \<equiv> st\<lparr>pq := take i (pq st) @ drop (Suc i) (pq st)\<rparr>"
  shows "coverer_inv opts interior r st'" "entry_ok opts interior r c"
    "queue_weight st = queue_weight st' + Suc (sum_list (map weight (candidate_children c)))"
    "reachable_leaves st = reachable_leaves st' \<union> pending (candidate_children c)"
proof -
  obtain q1 q2 where q: "q1 = take i (pq st)" "q2 = drop (Suc i) (pq st)" by simp
  have e: "pq st = q1 @ (p, c) # q2" using take_drop_nth [OF assms(1)] assms(2) by (simp add: q)
  have st': "st' = st\<lparr>pq := q1 @ q2\<rparr>" by (simp add: st'_def q)
  show "coverer_inv opts interior r st'" "entry_ok opts interior r c"
    using i by (auto simp: st' e coverer_inv_def)
  show "queue_weight st = queue_weight st' + Suc (sum_list (map weight (candidate_children c)))"
    by (simp add: st' e queue_weight_def)
  show "reachable_leaves st = reachable_leaves st' \<union> pending (candidate_children c)"
    by (auto simp: st' e reachable_leaves_def)
qed

lemma covering_loop_spec:
  assumes o: "coverer_ok opts" and r: "region_ok R r" and t: "picks queue_top"
  shows "coverer_inv opts interior r st \<Longrightarrow>
    \<exists>st'. covering_loop queue_top opts interior r st = Some st' \<and> coverer_inv opts interior r st' \<and>
      (\<not> interior \<longrightarrow> pq st' = [] \<and> reachable_leaves st \<inter> R \<subseteq> reachable_leaves st')"
proof (induction "queue_weight st" arbitrary: st rule: less_induct)
  case less
  note simps = covering_loop.simps [of queue_top opts interior r st]
  show ?case
  proof (cases "pq st \<noteq> [] \<and> (\<not> interior \<or> length (result st) < unat (of_int (max_cells opts) :: uint64))")
    case False
    then show ?thesis using less.prems by (simp only: simps if_False) auto
  next
    case True
    let ?i = "queue_top (pq st)"
    have i: "?i < length (pq st)" using True t by (simp add: picks_def)
    obtain p x tm cs where c: "pq st ! ?i = (p, Candidate x tm cs)" by (metis candidate.exhaust prod.exhaust)
    define st1 where "st1 = st\<lparr>pq := take ?i (pq st) @ drop (Suc ?i) (pq st)\<rparr>"
    note pop = pop_queue [OF i c less.prems, folded st1_def, simplified candidate.sel]
    define st2 where "st2 = (if interior \<or> cell_level x < min_level opts \<or> length cs = 1 \<or>
        length (result st1) + length (pq st1) + length cs \<le> unat (of_int (max_cells opts) :: uint64)
      then add_children opts interior r cs st1
      else AddCandidate opts interior r (Some (Candidate x True cs)) st1)"
    have step: "covering_loop queue_top opts interior r st = covering_loop queue_top opts interior r st2"
      unfolding simps if_P [OF True] c by (simp only: prod.case candidate.case Let_def st1_def st2_def)
    have s2: "coverer_inv opts interior r st2 \<and> queue_weight st2 < queue_weight st \<and>
      (\<not> interior \<longrightarrow> reachable_leaves st \<inter> R \<subseteq> reachable_leaves st2)"
    proof (cases "interior \<or> cell_level x < min_level opts \<or> length cs = 1 \<or>
        length (result st1) + length (pq st1) + length cs \<le> unat (of_int (max_cells opts) :: uint64)")
      case True
      then have "st2 = add_children opts interior r cs st1" by (simp only: st2_def if_True)
      moreover have "\<forall>c\<in>set cs. fresh opts interior r c" using pop(2) by (simp add: entry_ok_def)
      note add_children_spec [OF o r this pop(1)]
      ultimately show ?thesis using pop(3,4) by simp
    next
      case False
      then have "st2 = st1\<lparr>result := result st1 @ [x]\<rparr>" "\<not> interior" "cell_level x \<ge> min_level opts"
        by (simp_all add: st2_def AddCandidate_def)
      moreover have "fits opts x" "pending cs \<subseteq> leaves x"
        using pop(2) calculation(3) by (auto simp: entry_ok_def grid_or_above_def fits_def)
      ultimately show ?thesis
        using pop(1,3,4) by (auto simp: coverer_inv_def queue_weight_def reachable_leaves_result)
    qed
    then obtain st' where "covering_loop queue_top opts interior r st2 = Some st'" "coverer_inv opts interior r st'"
      "\<not> interior \<longrightarrow> pq st' = [] \<and> reachable_leaves st2 \<inter> R \<subseteq> reachable_leaves st'"
      using less.hyps [of st2] by blast
    then show ?thesis using s2 unfolding step by blast
  qed
qed

lemma add_initial_spec:
  assumes o: "coverer_ok opts" and r: "region_ok R r"
    and c: "\<forall>x\<in>set cells. is_valid x \<and> grid_or_above opts (cell_level x)"
  shows "coverer_inv opts interior r (add_initial opts interior r cells)"
    and "\<not> interior \<Longrightarrow> cover cells \<inter> R \<subseteq> reachable_leaves (add_initial opts interior r cells)"
proof -
  have "coverer_inv opts interior r (fold (\<lambda>x. AddCandidate opts interior r (NewCandidate opts interior r x)) cells st) \<and>
    (\<not> interior \<longrightarrow> (reachable_leaves st \<union> cover cells) \<inter> R \<subseteq>
      reachable_leaves (fold (\<lambda>x. AddCandidate opts interior r (NewCandidate opts interior r x)) cells st))"
    if "coverer_inv opts interior r st" for st
    using c that
  proof (induction cells arbitrary: st)
    case (Cons x cells)
    have x: "is_valid x" "grid_or_above opts (cell_level x)" using Cons.prems by auto
    show ?case
    proof (cases "NewCandidate opts interior r x")
      case None
      then have "\<not> interior \<longrightarrow> leaves x \<inter> R = {}" using NewCandidate_None [OF r x(1), of opts] by (cases interior) auto
      moreover have "AddCandidate opts interior r None st = st" by (simp add: AddCandidate_def)
      ultimately show ?thesis using Cons.IH [of st] Cons.prems None by (auto simp: cover_def)
    next
      case (Some c)
      note f = NewCandidate_fresh [OF x Some]
      note a = AddCandidate_spec [OF o r conjunct1 [OF f] Cons.prems(2)]
      let ?st = "AddCandidate opts interior r (Some c) st"
      have x': "(reachable_leaves st \<union> leaves x) \<inter> R \<subseteq> reachable_leaves ?st" if "\<not> interior"
        using a(3) [OF that] f by simp
      let ?st' = "fold (\<lambda>x. AddCandidate opts interior r (NewCandidate opts interior r x)) cells ?st"
      have ih: "coverer_inv opts interior r ?st'"
        "\<not> interior \<longrightarrow> (reachable_leaves ?st \<union> cover cells) \<inter> R \<subseteq> reachable_leaves ?st'"
        using Cons.IH [OF _ a(1)] Cons.prems by auto
      have "cover (x # cells) = leaves x \<union> cover cells" by (simp add: cover_def)
      then have "\<not> interior \<longrightarrow> (reachable_leaves st \<union> cover (x # cells)) \<inter> R \<subseteq> reachable_leaves ?st'"
        using ih(2) x' by blast
      then show ?thesis using ih(1) unfolding fold.simps comp_apply Some by blast
    qed
  qed (simp add: cover_def)
  from this [of "\<lparr>result = [], pq = []\<rparr>"]
  show "coverer_inv opts interior r (add_initial opts interior r cells)"
    "\<not> interior \<Longrightarrow> cover cells \<inter> R \<subseteq> reachable_leaves (add_initial opts interior r cells)"
    by (auto simp: add_initial_def coverer_inv_def)
qed

end
