(* ===== verification/Coverer_Canonical.thy ===== *)
theory Coverer_Canonical
  imports Coverer_Sound
begin

text \<open>
  The functions that put a covering into canonical form: they return, never uncover a leaf, and leave
  valid, disjoint cells of the levels that the options allow.
\<close>

section \<open>Normalizing and denormalizing\<close>

lemma member_cover: "x \<in> set xs \<Longrightarrow> leaves x \<subseteq> cover xs"
  by (auto simp: cover_def)

lemma Normalize_coarser:
  assumes v: "\<forall>y\<in>set ids. is_valid y" and x: "x \<in> set (CU_Normalize ids)"
  shows "\<exists>y\<in>set ids. cell_contains x y"
proof -
  note n = Normalize_spec [OF v]
  have w: "wf_union (CU_Normalize ids)" "sib_free (rev (CU_Normalize ids))" using n(1) by (simp_all add: IsNormalized_iff)
  have vx: "is_valid x" by (rule wf_union_valid [OF w(1) x])
  have "cell_lo x \<in> leaves x" by (simp add: leaves_def)
  then have "cell_lo x \<in> cover (CU_Normalize ids)" using x unfolding cover_def by blast
  then have "cell_lo x \<in> cover ids" by (simp only: n(2))
  then obtain y where y: "y \<in> set ids" "cell_lo x \<in> leaves y" unfolding cover_def by blast
  have "leaves y \<subseteq> cover (CU_Normalize ids)" unfolding n(2) by (rule member_cover [OF y(1)])
  then obtain c where c: "c \<in> set (CU_Normalize ids)" "cell_contains c y"
    using normalized_maximal [OF w, of y] v y(1) by auto
  have vc: "is_valid c" by (rule wf_union_valid [OF w(1) c(1)])
  have "leaves y \<subseteq> leaves c" using c(2) vc v y(1) by (simp add: contains_leaves)
  then have "cell_lo c \<le> cell_lo x" "cell_lo x < cell_hi c" using y(2) by (auto simp: leaves_def)
  then have "c = x"
  proof -
    have s: "\<forall>z\<in>set (CU_Normalize ids). is_valid z" "sorted_wrt (\<lambda>x y. cell_hi x \<le> cell_lo y) (CU_Normalize ids)"
      using w(1) unfolding wf_union_def by blast+
    have l: "cell_lo c < cell_hi x" by (rule le_less_trans [OF _ cell_lo_less_hi]) fact
    show ?thesis by (rule cells.overlap_eq [OF s c(1) x l]) fact
  qed
  then show ?thesis using c(2) y(1) by (intro bexI [of _ y]) simp_all
qed

lemma contains_level:
  "is_valid x \<Longrightarrow> is_valid y \<Longrightarrow> cell_contains x y \<Longrightarrow> cell_level x \<le> cell_level y"
  using contains_parent_at [of x y] level_lv [of x] level_lv [of y] by simp

lemma denorm_loop_levels:
  assumes "0 \<le> m" "m \<le> 30" "1 \<le> k" "k \<le> 3"
  shows "\<forall>x\<in>set ids. is_valid x \<Longrightarrow> denorm_loop ids m k out = Some zs \<Longrightarrow>
    \<forall>z\<in>set zs. z \<in> set out \<or> (\<exists>x\<in>set ids. cell_level z = denorm_level m k (cell_level x))"
proof (induction ids arbitrary: out)
  case (Cons x ids)
  have x: "is_valid x" using Cons.prems by simp
  from denorm_cell_spec [OF x assms, of out] obtain us where us: "denorm_cell m k x out = Some (out @ us)"
      "\<forall>z\<in>set us. cell_level z = denorm_level m k (cell_level x)" by blast
  then have "\<forall>z\<in>set zs. z \<in> set (out @ us) \<or> (\<exists>x\<in>set ids. cell_level z = denorm_level m k (cell_level x))"
    using Cons.IH [of "out @ us"] Cons.prems by simp
  then show ?case using us(2) by auto
qed simp

lemma denorm_ok_grid:
  assumes "coverer_ok opts" "denorm_ok (min_level opts) (level_mod opts) d" "d \<le> true_max_level opts"
  shows "on_grid opts d"
proof (cases "d = 30")
  case True
  then have "true_max_level opts = d"
    using assms on_grid_bounds(2) [OF assms(1) true_max_level_eq(2) [OF assms(1)]] by simp
  then show ?thesis using true_max_level_eq(2) [OF assms(1)] by simp
qed (use assms in \<open>simp add: denorm_ok_def on_grid_def\<close>)

lemma grid_denorm_ok:
  assumes "coverer_ok opts" "on_grid opts d"
  shows "denorm_ok (min_level opts) (level_mod opts) d"
  using on_grid_bounds(2,3) [OF assms] assms(2) unfolding denorm_ok_def on_grid_def by blast

lemma finish_covering_spec:
  assumes o: "coverer_ok opts" and v: "\<forall>x\<in>set cells. is_valid x \<and> cell_level x \<le> true_max_level opts"
  shows "\<exists>out. finish_covering opts cells = Some out \<and> wf_union out \<and> cover out = cover cells \<and>
    (\<forall>x\<in>set out. fits opts x)"
proof -
  have m: "0 \<le> min_level opts" "min_level opts \<le> 30" "1 \<le> level_mod opts" "level_mod opts \<le> 3"
    using o by (auto simp: coverer_ok_def)
  have v': "\<forall>x\<in>set cells. is_valid x" using v by blast
  let ?n = "CU_Normalize cells"
  have w: "wf_union ?n" "cover ?n = cover cells" using Normalize_spec [OF v'] by (simp_all add: IsNormalized_iff)
  have vn: "is_valid x" "cell_level x \<le> true_max_level opts" if x: "x \<in> set ?n" for x
  proof -
    show vx: "is_valid x" using w(1) x by (rule wf_union_valid)
    obtain y where "y \<in> set cells" "cell_contains x y" using Normalize_coarser [OF v' x] by blast
    then show "cell_level x \<le> true_max_level opts" using v contains_level [OF vx, of y] by force
  qed
  show ?thesis
  proof (cases "min_level opts > 0 \<or> level_mod opts > 1")
    case False
    then have "fits opts x" if "x \<in> set ?n" for x
      using vn [OF that] m level_lv [of x] by (auto simp: fits_def on_grid_def)
    then show ?thesis using False w by (simp add: finish_covering_def)
  next
    case True
    obtain zs where z: "CU_Denormalize ?n (min_level opts) (level_mod opts) = Some zs" "wf_union zs"
      "cover zs = cover ?n" "\<forall>z\<in>set zs. denorm_ok (min_level opts) (level_mod opts) (cell_level z)"
      using denorm_loop_spec [OF w(1) m, of "[]"] by (auto simp: CU_Denormalize_def)
    have "fits opts z" if zz: "z \<in> set zs" for z
    proof -
      obtain x where x: "x \<in> set ?n" "cell_level z = denorm_level (min_level opts) (level_mod opts) (cell_level x)"
        using denorm_loop_levels [OF m, of ?n "[]" zs] z(1) zz vn(1) by (auto simp: CU_Denormalize_def)
      have "0 \<le> cell_level x" "cell_level x \<le> 30"
        using vn(1) [OF x(1)] by (auto elim!: cell_span_at_cases simp: cell_level_at)
      then have "cell_level z \<le> true_max_level opts"
        using denorm_level_spec(3) [OF m, of "cell_level x" "true_max_level opts"] vn(2) [OF x(1)] x(2)
          grid_denorm_ok [OF o true_max_level_eq(2) [OF o]] by simp
      then show ?thesis using denorm_ok_grid [OF o] z(4) zz wf_union_valid [OF z(2) zz] by (simp add: fits_def)
    qed
    then show ?thesis using True z w(2) by (simp add: finish_covering_def)
  qed
qed


section \<open>Replacing cells by an ancestor\<close>

lemma below_range_min:
  assumes "is_valid y" "is_valid x" "\<not> (cell_contains y x \<and> y \<noteq> x)"
  shows "y < range_min x \<longleftrightarrow> cell_hi y \<le> cell_lo x"
    and "y \<le> range_max x \<longleftrightarrow> cell_lo y < cell_hi x"
proof -
  have n: "cell_lo y < cell_hi y" "cell_lo x < cell_hi x" by simp_all
  have d: "cell_hi y \<le> cell_lo x \<or> cell_hi x \<le> cell_lo y \<or> cell_lo x \<le> cell_lo y \<and> cell_hi y \<le> cell_hi x"
    using laminar [of y x] assms contains_iff [of y x] cell_eqI [of y x] by auto
  have "y < range_min x \<longleftrightarrow> cell_lo y + cell_hi y < 2 * cell_lo x + 1"
    using assms by (simp add: word_less_nat_alt unat_range_min unat_cell)
  then show "y < range_min x \<longleftrightarrow> cell_hi y \<le> cell_lo x" using d n by linarith
  have "y \<le> range_max x \<longleftrightarrow> cell_lo y + cell_hi y \<le> 2 * cell_hi x - 1"
    using assms by (simp add: word_le_nat_alt unat_range_max unat_cell)
  then show "y \<le> range_max x \<longleftrightarrow> cell_lo y < cell_hi x" using d n by linarith
qed

lemma drop_ended: "wf_union xs \<Longrightarrow> z \<in> set (dropWhile (\<lambda>y. cell_hi y \<le> a) xs) \<Longrightarrow> a < cell_hi z"
proof (induction xs)
  case (Cons x xs)
  show ?case
  proof (cases "cell_hi x \<le> a \<or> z = x")
    case False
    then have "cell_hi x \<le> cell_lo z" using Cons.prems by auto
    then show ?thesis using False cell_lo_less_hi [of z] by linarith
  qed (use Cons in \<open>auto split: if_splits\<close>)
qed simp

lemma drop_started: "wf_union xs \<Longrightarrow> z \<in> set (dropWhile (\<lambda>y. cell_lo y < b) xs) \<Longrightarrow> b \<le> cell_lo z"
proof (induction xs)
  case (Cons x xs)
  show ?case
  proof (cases "cell_lo x < b \<or> z = x")
    case False
    then have "cell_hi x \<le> cell_lo z" using Cons.prems by auto
    then show ?thesis using False cell_lo_less_hi [of x] by linarith
  qed (use Cons in \<open>auto split: if_splits\<close>)
qed simp

lemma ReplaceCellsWithAncestor_spec:
  assumes w: "wf_union covering" and x: "is_valid x" and y: "y \<in> set covering" "cell_contains x y"
  shows "\<exists>us vs ws. covering = us @ vs @ ws \<and> y \<in> set vs \<and>
    (\<forall>v\<in>set vs. cell_contains x v) \<and> (\<forall>u\<in>set us \<union> set ws. \<not> cell_contains x u) \<and>
    ReplaceCellsWithAncestor covering x = Some (us @ [x] @ ws) \<and> wf_union (us @ [x] @ ws)"
proof -
  have v: "\<forall>z\<in>set covering. is_valid z" using w wf_union_valid by blast
  have n: "\<not> (cell_contains z x \<and> z \<noteq> x)" if z: "z \<in> set covering" for z
  proof
    assume c: "cell_contains z x \<and> z \<noteq> x"
    then have "cell_contains z y" using contains_trans [of z x y] v z x y by blast
    then have "z = y" by (rule member_contains_eq [OF w z y(1)])
    then show False using c contains_antisym [of z x] v z x y(2) by blast
  qed
  define us from' where "us = takeWhile (\<lambda>y. cell_hi y \<le> cell_lo x) covering"
    and "from' = dropWhile (\<lambda>y. cell_hi y \<le> cell_lo x) covering"
  define vs ws where "vs = takeWhile (\<lambda>y. cell_lo y < cell_hi x) from'"
    and "ws = dropWhile (\<lambda>y. cell_lo y < cell_hi x) from'"
  have e: "covering = us @ from'" "from' = vs @ ws" by (simp_all add: us_def from'_def vs_def ws_def)
  have b: "takeWhile (\<lambda>y. y < range_min x) covering = us"
    unfolding us_def using below_range_min(1) [OF _ x n] v by (intro takeWhile_cong) auto
  have d: "dropWhile (\<lambda>y. y \<le> range_max x) from' = ws"
    unfolding ws_def using below_range_min(2) [OF _ x n] v e(1) by (intro dropWhile_cong) auto
  have wf: "wf_union us" "wf_union vs" "wf_union ws" using w by (simp_all add: e wf_union_append)
  have u: "cell_hi z \<le> cell_lo x" if "z \<in> set us" for z
    using that unfolding us_def by (auto dest: set_takeWhileD)
  have f: "cell_lo x < cell_hi z" if "z \<in> set from'" for z
    using that drop_ended [OF w] by (simp add: from'_def)
  have wl: "cell_hi x \<le> cell_lo z" if "z \<in> set ws" for z
    using that drop_started [of from' z "cell_hi x"] w by (simp add: ws_def e(1) wf_union_append)
  have m: "cell_contains x z" if z: "z \<in> set vs" for z
  proof -
    have "cell_lo x < cell_hi z" "cell_lo z < cell_hi x"
      using z f [of z] e(2) unfolding vs_def by (auto dest: set_takeWhileD)
    then have "cell_contains x z \<or> cell_contains z x"
      using laminar [of x z] x v z e contains_iff [of x z] contains_iff [of z x] by auto
    then show ?thesis using n [of z] z e x by (auto simp: contains_iff)
  qed
  have no: "\<not> cell_contains x z" if z: "z \<in> set us \<union> set ws" for z
  proof
    assume "cell_contains x z"
    then have "cell_lo x \<le> cell_lo z \<and> cell_hi z \<le> cell_hi x" using contains_iff [of x z] x v z e by auto
    then show False using u [of z] wl [of z] z cell_lo_less_hi [of z] by auto
  qed
  have "y \<in> set vs" using y no [of y] e by auto
  then have ne: "length from' \<noteq> length ws" using e(2) by auto
  have "\<forall>z\<in>set ws. cell_hi x \<le> cell_lo z" "\<forall>z\<in>set us. cell_hi z \<le> cell_lo x"
    "\<forall>z\<in>set us. \<forall>z'\<in>set ws. cell_hi z \<le> cell_lo z'"
    using wl u w by (auto simp: e wf_union_append)
  then have "wf_union (us @ [x] @ ws)" using wf x by (auto simp: wf_union_append)
  moreover have "ReplaceCellsWithAncestor covering x = Some (us @ [x] @ ws)"
    unfolding ReplaceCellsWithAncestor_def b Let_def using d ne e(1) by simp
  ultimately show ?thesis using e m no \<open>y \<in> set vs\<close> by blast
qed


text \<open>What a simplification of a covering must keep.\<close>

definition coarser :: "'a coverer_options_scheme \<Rightarrow> cellid list \<Rightarrow> cellid list \<Rightarrow> bool" where
  "coarser opts covering out \<longleftrightarrow> wf_union out \<and> (\<forall>x\<in>set out. fits opts x) \<and> cover covering \<subseteq> cover out \<and>
     length out \<le> length covering"

lemma coarser_trans: "coarser opts a b \<Longrightarrow> coarser opts b c \<Longrightarrow> coarser opts a c"
  by (auto simp: coarser_def)

lemma coarser_refl: "wf_union a \<Longrightarrow> \<forall>x\<in>set a. fits opts x \<Longrightarrow> coarser opts a a"
  by (simp add: coarser_def)

lemma Replace_coarser:
  assumes w: "wf_union covering" "\<forall>z\<in>set covering. fits opts z"
    and x: "fits opts x" and y: "y \<in> set covering" "cell_contains x y"
  shows "\<exists>out. ReplaceCellsWithAncestor covering x = Some out \<and> coarser opts covering out \<and> x \<in> set out"
    and "z \<in> set covering \<Longrightarrow> z \<noteq> y \<Longrightarrow> cell_contains x z \<Longrightarrow>
      \<exists>out. ReplaceCellsWithAncestor covering x = Some out \<and> length out < length covering"
proof -
  have vx: "is_valid x" using x by (simp add: fits_def)
  obtain us vs ws where r: "covering = us @ vs @ ws" "y \<in> set vs" "\<forall>v\<in>set vs. cell_contains x v"
    "\<forall>u\<in>set us \<union> set ws. \<not> cell_contains x u"
    "ReplaceCellsWithAncestor covering x = Some (us @ [x] @ ws)" "wf_union (us @ [x] @ ws)"
    using ReplaceCellsWithAncestor_spec [OF w(1) vx y] by blast
  have "leaves v \<subseteq> leaves x" if "v \<in> set vs" for v
    using that r(1,3) w(2) vx contains_leaves [of x v] by (simp add: fits_def)
  then have "cover vs \<subseteq> leaves x" by (auto simp: cover_def)
  then have "cover covering \<subseteq> cover (us @ [x] @ ws)" unfolding r(1) cover_simps by blast
  moreover have "length vs \<ge> 1" using r(2) by (cases vs) auto
  ultimately have "coarser opts covering (us @ [x] @ ws)"
    using r(1,6) w(2) x unfolding coarser_def by auto
  then show "\<exists>out. ReplaceCellsWithAncestor covering x = Some out \<and> coarser opts covering out \<and> x \<in> set out"
    using r(5) by auto
  assume "z \<in> set covering" "z \<noteq> y" "cell_contains x z"
  then have "z \<in> set vs" using r(1,4) by auto
  then have "card {y, z} \<le> card (set vs)" using r(2) by (intro card_mono) auto
  then have "2 \<le> length vs" using \<open>z \<noteq> y\<close> card_length [of vs] by simp
  then show "\<exists>out. ReplaceCellsWithAncestor covering x = Some out \<and> length out < length covering"
    using r(1,5) by simp
qed

lemma all_children_loop_total: "all_children_loop it e c \<noteq> None"
proof (induction it arbitrary: c)
  case Nil
  show ?case by (subst all_children_loop.simps) (simp del: not_None_eq)
next
  case (Cons x it)
  then show ?case by (simp add: all_children_loop.simps [of "x # it"] del: not_None_eq)
qed

lemma ContainsAllChildren_total: "ContainsAllChildren opts covering x \<noteq> None"
  by (simp add: ContainsAllChildren_def all_children_loop_total Let_def del: not_None_eq)

lemma merge_parents_spec:
  assumes o: "coverer_ok opts"
  shows "wf_union covering \<Longrightarrow> \<forall>z\<in>set covering. fits opts z \<Longrightarrow> fits opts x \<Longrightarrow> x \<in> set covering \<Longrightarrow>
    \<exists>out. merge_parents opts x (cell_level x) covering = Some out \<and> coarser opts covering out"
proof (induction "nat (cell_level x)" arbitrary: x covering rule: less_induct)
  case less
  note simps = merge_parents.simps [of opts x "cell_level x" covering]
  show ?case
  proof (cases "cell_level x > min_level opts")
    case False
    then show ?thesis using coarser_refl less.prems by (simp add: simps)
  next
    case True
    have x: "is_valid x" "on_grid opts (cell_level x)" using less.prems(3) by (simp_all add: fits_def)
    let ?m = "cell_level x - level_mod opts" let ?p = "parent_at x (nat ?m)"
    have k: "1 \<le> level_mod opts" using o by (simp add: coverer_ok_def)
    have "on_grid opts (min_level opts)"
      using true_max_level_eq(2) [OF o] by (simp add: on_grid_def)
    then have "?m \<ge> min_level opts" using on_grid_step [OF o x(2), of "min_level opts"] True by simp
    then have gm: "on_grid opts ?m" by (rule on_grid_prev [OF o x(2)])
    note p = fits_parent_at [OF o x(1) gm]
    have p: "fits opts ?p" "cell_level ?p = ?m" "cell_contains ?p x" using p k by simp_all
    obtain b where b: "ContainsAllChildren opts covering ?p = Some b"
      using ContainsAllChildren_total [of opts covering ?p] by blast
    show ?thesis
    proof (cases b)
      case False
      then show ?thesis using True b coarser_refl less.prems by (simp add: simps Let_def)
    next
      case True
      obtain c where c: "ReplaceCellsWithAncestor covering ?p = Some c" "coarser opts covering c" "?p \<in> set c"
        using Replace_coarser(1) [OF less.prems(1,2) p(1) less.prems(4) p(3)] by blast
      have "nat (cell_level ?p) < nat (cell_level x)"
        using p(2) k on_grid_bounds(1) [OF o gm] by simp
      from less.hyps [OF this _ _ p(1) c(3)] c(2) obtain out where
        out: "merge_parents opts ?p (cell_level ?p) c = Some out" "coarser opts c out"
        by (auto simp: coarser_def)
      have "merge_parents opts x (cell_level x) covering = Some out"
        using \<open>cell_level x > min_level opts\<close> b True c(1) out(1) p(2) by (simp add: simps Let_def)
      then show ?thesis using coarser_trans [OF c(2) out(2)] by blast
    qed
  qed
qed


lemma AdjustLevel_grid:
  assumes o: "coverer_ok opts" and l: "l \<le> max_level opts"
  shows "grid_or_above opts (AdjustLevel opts l)" "AdjustLevel opts l \<le> l" "l \<ge> min_level opts \<Longrightarrow> AdjustLevel opts l \<ge> min_level opts"
    "AdjustLevel opts l \<le> true_max_level opts"
proof -
  have k: "1 \<le> level_mod opts" and mm: "min_level opts \<le> true_max_level opts" "on_grid opts (min_level opts)"
    using o true_max_level_eq(2) [OF o] by (auto simp: coverer_ok_def on_grid_def)
  have "grid_or_above opts (AdjustLevel opts l) \<and> AdjustLevel opts l \<le> l \<and>
    (l \<ge> min_level opts \<longrightarrow> AdjustLevel opts l \<ge> min_level opts) \<and> AdjustLevel opts l \<le> true_max_level opts"
  proof (cases "level_mod opts > 1 \<and> l > min_level opts")
    case True
    let ?d = "l - min_level opts"
    have d: "AdjustLevel opts l = l - ?d mod level_mod opts"
      using True by (simp add: AdjustLevel_def smod_mod_pos)
    have b: "0 \<le> ?d mod level_mod opts" "?d mod level_mod opts \<le> ?d" "?d mod level_mod opts < level_mod opts"
      using True by (simp_all add: zmod_le_nonneg_dividend)
    have "level_mod opts dvd ?d - ?d mod level_mod opts" by (rule dvd_minus_mod)
    then have g: "(AdjustLevel opts l - min_level opts) mod level_mod opts = 0" unfolding d by (simp add: algebra_simps)
    have t: "level_mod opts dvd true_max_level opts - min_level opts"
      by (rule on_grid_min_dvd [OF true_max_level_eq(2) [OF o]])
    have "AdjustLevel opts l \<le> true_max_level opts"
    proof (rule ccontr)
      assume n: "\<not> AdjustLevel opts l \<le> true_max_level opts"
      have "level_mod opts dvd AdjustLevel opts l - true_max_level opts"
        using dvd_diff [OF mod_0_imp_dvd [OF g] t] by simp
      then have "level_mod opts \<le> AdjustLevel opts l - true_max_level opts" using n by (intro zdvd_imp_le) auto
      then show False using true_max_level_last [OF o] d b l by linarith
    qed
    then show ?thesis using g d b by (auto simp: grid_or_above_def on_grid_def)
  next
    case False
    then have e: "AdjustLevel opts l = l" by (auto simp: AdjustLevel_def)
    show ?thesis
    proof (cases "level_mod opts > 1")
      case True
      then have "l \<le> min_level opts" using False by simp
      then show ?thesis using e mm by (cases "l = min_level opts") (auto simp: grid_or_above_def)
    next
      case m: False
      then have "level_mod opts = 1" using k by simp
      then have "true_max_level opts = max_level opts" by (simp add: true_max_level_def)
      then show ?thesis using e l \<open>level_mod opts = 1\<close> by (auto simp: grid_or_above_def on_grid_def)
    qed
  qed
  then show "grid_or_above opts (AdjustLevel opts l)" "AdjustLevel opts l \<le> l" "l \<ge> min_level opts \<Longrightarrow> AdjustLevel opts l \<ge> min_level opts"
    "AdjustLevel opts l \<le> true_max_level opts" by blast+
qed

lemma best_pair_spec:
  "best_pair opts i xs (bi, bl) = (bi', bl') \<Longrightarrow> (bi', bl') = (bi, bl) \<or>
    (\<exists>j. Suc j < length xs \<and> bi' = int (i + j) \<and> bl' = AdjustLevel opts (GetCommonAncestorLevel (xs ! j) (xs ! Suc j)))"
proof (induction opts i xs "(bi, bl)" arbitrary: bi bl rule: best_pair.induct)
  case (1 opts i x y xs bi bl)
  let ?l = "AdjustLevel opts (GetCommonAncestorLevel x y)"
  let ?b = "if ?l > bl then (int i, ?l) else (bi, bl)"
  have "best_pair opts (i + 1) (y # xs) ?b = (bi', bl')" using 1(2) by (simp add: Let_def)
  from 1(1) [OF refl, of "fst ?b" "snd ?b"] this
  consider "(bi', bl') = ?b"
    | j where "Suc j < length (y # xs)" "bi' = int (i + 1 + j)"
      "bl' = AdjustLevel opts (GetCommonAncestorLevel ((y # xs) ! j) ((y # xs) ! Suc j))"
    by auto
  then show ?case
  proof cases
    case 1
    then show ?thesis by (cases "?l > bl") (auto intro!: exI [of _ 0])
  next
    case 2
    then show ?thesis by (intro disjI2 exI [of _ "Suc j"]) auto
  qed
qed auto

lemma reduce_loop_spec:
  assumes o: "coverer_ok opts"
  shows "wf_union covering \<Longrightarrow> \<forall>z\<in>set covering. fits opts z \<Longrightarrow>
    \<exists>out. reduce_loop opts covering = Some out \<and> coarser opts covering out"
proof (induction "length covering" arbitrary: covering rule: less_induct)
  case less
  note simps = reduce_loop.simps [of opts covering]
  obtain bi bl where b: "best_pair opts 0 covering (-1, -1) = (bi, bl)" by force
  have m0: "0 \<le> min_level opts" using o by (simp add: coverer_ok_def)
  show ?case
  proof (cases "length covering > unat (of_int (max_cells opts) :: uint64) \<and> \<not> bl < min_level opts")
    case False
    then have "reduce_loop opts covering = Some covering" using b by (auto simp: simps)
    then show ?thesis using coarser_refl less.prems by blast
  next
    case True
    then obtain j where j: "Suc j < length covering" "bi = int j"
      "bl = AdjustLevel opts (GetCommonAncestorLevel (covering ! j) (covering ! Suc j))"
      using best_pair_spec [OF b] m0 by auto
    let ?y = "covering ! j" and ?z = "covering ! Suc j"
    let ?g = "GetCommonAncestorLevel ?y ?z" and ?x = "parent_at ?y (nat bl)"
    have yz: "?y \<in> set covering" "?z \<in> set covering" using j(1) by auto
    have v: "is_valid ?y" "is_valid ?z" "on_grid opts (cell_level ?y)" using less.prems(2) yz by (auto simp: fits_def)
    have w: "cell_hi ?y \<le> cell_lo ?z" using less.prems(1) j(1) sorted_wrt_nth_less [of "\<lambda>x y. cell_hi x \<le> cell_lo y" covering j "Suc j"] by (simp add: wf_union_def)
    then have ne: "?z \<noteq> ?y" by auto
    have bl0: "0 \<le> bl" using True m0 by linarith
    have g30: "?g \<le> 30" using GetCommonAncestorLevel_range by blast
    have g0: "bl \<le> ?g" unfolding j(3) AdjustLevel_def
      by (auto simp: smod_mod_pos)
    have "nat bl \<le> 30" using g0 g30 bl0 by linarith
    from GetCommonAncestorLevel_spec [OF v(1,2) this] g0 bl0
    have c: "nat bl \<le> cell_lv ?y" "nat bl \<le> cell_lv ?z" "parent_at ?y (nat bl) = parent_at ?z (nat bl)" by auto
    have gy: "?g \<le> cell_level ?y"
      using GetCommonAncestorLevel_spec [OF v(1,2), of "nat ?g"] g30 g0 bl0 level_lv [OF v(1)] by linarith
    then have "?g \<le> max_level opts" using on_grid_bounds(4) [OF o v(3)] by simp
    from AdjustLevel_grid(1) [OF o this] have gb: "on_grid opts bl"
      using True j(3) by (simp add: grid_or_above_def)
    have bly: "bl \<le> cell_level ?y" "bl \<le> cell_level ?z" using c level_lv v bl0 by (simp_all add: nat_le_iff)
    note px = fits_parent_at [OF o v(1) gb bly(1)]
    have xz: "cell_contains ?x ?z" using fits_parent_at(3) [OF o v(2) gb bly(2)] c(3) by simp
    obtain r where r: "ReplaceCellsWithAncestor covering ?x = Some r" "coarser opts covering r" "?x \<in> set r"
      using Replace_coarser(1) [OF less.prems px(1) yz(1) px(3)] by blast
    have short: "length r < length covering"
      using Replace_coarser(2) [OF less.prems px(1) yz(1) px(3) yz(2) ne xz] r(1) by auto
    obtain c where c: "merge_parents opts ?x bl r = Some c" "coarser opts r c"
      using merge_parents_spec [OF o, of r ?x] r px by (auto simp: coarser_def)
    have "length c < length covering" using short c(2) by (simp add: coarser_def)
    from less.hyps [OF this] c(2) obtain out where out: "reduce_loop opts c = Some out" "coarser opts c out"
      by (auto simp: coarser_def)
    have "reduce_loop opts covering = Some out"
      using True b r(1) c(1) out(1) j(2) by (simp add: simps)
    then show ?thesis using coarser_trans [OF coarser_trans [OF r(2) c(2)] out(2)] by blast
  qed
qed


section \<open>Canonicalizing a covering\<close>

text \<open>A call that covers a normalized union, as \<open>GetCovering\<close> on that union does.\<close>

definition covers_unions :: "'a coverer_options_scheme \<Rightarrow> (cellid list \<Rightarrow> cellid list option) \<Rightarrow> bool" where
  "covers_unions opts cover_union \<longleftrightarrow> (\<forall>ids. CU_IsNormalized ids \<longrightarrow>
     (\<exists>out. cover_union ids = Some out \<and> wf_union out \<and> (\<forall>x\<in>set out. fits opts x) \<and> cover ids \<subseteq> cover out))"

definition adjusted :: "'a coverer_options_scheme \<Rightarrow> cellid \<Rightarrow> cellid" where
  "adjusted opts x =
     (let level = cell_level x; new_level = AdjustLevel opts (min level (max_level opts))
      in if new_level \<noteq> level then parent_at x (nat new_level) else x)"

lemma max_level_step:
  assumes o: "coverer_ok opts" and x: "is_valid x"
  defines "n \<equiv> AdjustLevel opts (min (cell_level x) (max_level opts))"
  shows "is_valid (adjusted opts x)" and "cell_level (adjusted opts x) = n"
    and "leaves x \<subseteq> leaves (adjusted opts x)" and "n \<le> true_max_level opts"
proof -
  have l: "0 \<le> cell_level x" using x level_lv by simp
  have "0 \<le> n" using AdjustLevel_grid [OF o, of "min (cell_level x) (max_level opts)"] l o
    by (cases "min (cell_level x) (max_level opts) \<ge> min_level opts") (auto simp: n_def coverer_ok_def AdjustLevel_def)
  moreover have "n \<le> cell_level x"
    using AdjustLevel_grid(2) [OF o, of "min (cell_level x) (max_level opts)"] by (simp add: n_def)
  ultimately have le: "nat n \<le> cell_lv x" and ni: "n = int (nat n)" using level_lv [OF x] by auto
  note p = parent_at_valid [OF x le]
  have c: "cell_contains (parent_at x (nat n)) x" using contains_parent_at [OF p(1) x] p le by simp
  have "cell_level (parent_at x (nat n)) = n" using level_lv [OF p(1)] p(2) ni by simp
  moreover have "leaves x \<subseteq> leaves (parent_at x (nat n))" using c p(1) x by (simp add: contains_leaves)
  moreover have "adjusted opts x = (if n \<noteq> cell_level x then parent_at x (nat n) else x)"
    by (simp add: adjusted_def n_def Let_def)
  ultimately show "is_valid (adjusted opts x)" "cell_level (adjusted opts x) = n"
    "leaves x \<subseteq> leaves (adjusted opts x)"
    using p(1) x by simp_all
  show "n \<le> true_max_level opts"
    using AdjustLevel_grid(4) [OF o, of "min (cell_level x) (max_level opts)"] by (simp add: n_def)
qed

text \<open>The covering is first restricted to the levels allowed; the rest only makes it coarser.\<close>

definition restrict_levels :: "'a coverer_options_scheme \<Rightarrow> cellid list \<Rightarrow> cellid list" where
  "restrict_levels opts covering =
     (if max_level opts < int kMaxLevel \<or> level_mod opts > 1
      then map (adjusted opts) covering
      else covering)"

lemma restrict_levels_spec:
  assumes o: "coverer_ok opts" and v: "\<forall>x\<in>set covering. is_valid x"
  shows "\<forall>x\<in>set (restrict_levels opts covering). is_valid x \<and> cell_level x \<le> true_max_level opts"
    and "cover covering \<subseteq> cover (restrict_levels opts covering)"
    and "length (restrict_levels opts covering) = length covering"
proof -
  note s = max_level_step [OF o]
  have "cell_level x \<le> true_max_level opts" if "is_valid x" "\<not> (max_level opts < int kMaxLevel \<or> level_mod opts > 1)" for x
  proof -
    have "cell_level x \<le> 30" using that(1) by (auto elim!: cell_span_at_cases simp: cell_level_at)
    moreover have "true_max_level opts = max_level opts" "max_level opts = 30"
      using that(2) o by (auto simp: true_max_level_def coverer_ok_def)
    ultimately show ?thesis by simp
  qed
  then show "\<forall>x\<in>set (restrict_levels opts covering). is_valid x \<and> cell_level x \<le> true_max_level opts"
    using v s by (auto simp: restrict_levels_def)
  show "cover covering \<subseteq> cover (restrict_levels opts covering)"
    using v s(3) by (auto simp: restrict_levels_def cover_def)
  show "length (restrict_levels opts covering) = length covering" by (simp add: restrict_levels_def)
qed

lemma CanonicalizeCovering_alt:
  "CanonicalizeCovering cover_union opts covering =
     Option.bind (finish_covering opts (restrict_levels opts covering))
       (\<lambda>covering. let excess = sint (of_nat (length covering) - of_int (max_cells opts) :: uint64)
          in if excess \<le> 0 \<or> IsCanonical opts covering then Some covering
             else if unat (of_int excess * of_nat (length covering) :: uint64) > 10000 then cover_union (CU_Init covering)
             else reduce_loop opts covering)"
proof -
  have a: "adjusted opts = (\<lambda>x. if AdjustLevel opts (min (cell_level x) (max_level opts)) \<noteq> cell_level x
      then parent_at x (nat (AdjustLevel opts (min (cell_level x) (max_level opts)))) else x)"
    by (rule ext) (simp only: adjusted_def Let_def)
  show ?thesis by (simp only: CanonicalizeCovering_def finish_covering_def restrict_levels_def a Let_def)
qed

lemma CanonicalizeCovering_spec:
  assumes o: "coverer_ok opts" and v: "\<forall>x\<in>set covering. is_valid x" and c: "covers_unions opts cover_union"
  shows "\<exists>out. CanonicalizeCovering cover_union opts covering = Some out \<and> wf_union out \<and>
    (\<forall>x\<in>set out. fits opts x) \<and> cover covering \<subseteq> cover out"
proof -
  note r = restrict_levels_spec [OF o v]
  obtain f where f: "finish_covering opts (restrict_levels opts covering) = Some f" "wf_union f"
    "cover f = cover (restrict_levels opts covering)" "\<forall>x\<in>set f. fits opts x"
    using finish_covering_spec [OF o r(1)] by blast
  have cf: "cover covering \<subseteq> cover f" using r(2) f(3) by simp
  have vf: "\<forall>x\<in>set f. is_valid x" using f(4) by (simp add: fits_def)
  obtain u where u: "cover_union (CU_Init f) = Some u" "wf_union u" "\<forall>x\<in>set u. fits opts x" "cover f \<subseteq> cover u"
    using c Normalize_spec [OF vf] unfolding covers_unions_def CU_Init_def by metis
  obtain d where d: "reduce_loop opts f = Some d" "coarser opts f d"
    using reduce_loop_spec [OF o f(2,4)] by blast
  show ?thesis
    unfolding CanonicalizeCovering_alt f(1) bind.bind_lunit Let_def
    using f cf u d by (auto simp: coarser_def)
qed

section \<open>Adjusting the initial cells\<close>

lemma adjust_loop_spec:
  assumes o: "coverer_ok opts"
  shows "\<forall>x\<in>set cells. is_valid x \<and> cell_level x \<le> max_level opts \<Longrightarrow>
    \<forall>x\<in>set out. is_valid x \<and> grid_or_above opts (cell_level x) \<Longrightarrow>
    (\<forall>x\<in>set (adjust_loop opts cells out). is_valid x \<and> grid_or_above opts (cell_level x)) \<and>
    cover cells \<union> cover out \<subseteq> cover (adjust_loop opts cells out)"
proof (induction cells arbitrary: out)
  case (Cons x cells)
  let ?n = "AdjustLevel opts (cell_level x)"
  let ?y = "adjusted opts x"
  have x: "is_valid x" "cell_level x \<le> max_level opts" using Cons.prems(1) by auto
  have y: "is_valid ?y" "cell_level ?y = ?n" "leaves x \<subseteq> leaves ?y"
    using max_level_step [OF o x(1)] x(2) by (simp_all add: min_absorb1)
  have ye: "?y = (if ?n \<noteq> cell_level x then parent_at x (nat ?n) else x)"
    using x(2) by (simp add: adjusted_def min_absorb1 Let_def)
  have eq: "adjust_loop opts (x # cells) out = (if out \<noteq> [] \<and> cell_contains (hd out) ?y then adjust_loop opts cells out
      else adjust_loop opts cells (?y # dropWhile (cell_contains ?y) out))"
    by (simp only: adjust_loop.simps Let_def ye)
  have g: "grid_or_above opts (cell_level ?y)" using AdjustLevel_grid(1) [OF o x(2)] y(2) by simp
  show ?case
  proof (cases "out \<noteq> [] \<and> cell_contains (hd out) ?y")
    case True
    then have "leaves ?y \<subseteq> leaves (hd out)" using Cons.prems(2) y(1) contains_leaves [of "hd out" ?y] by simp
    then have "leaves x \<subseteq> cover out" using y(3) True by (cases out) auto
    moreover have "adjust_loop opts (x # cells) out = adjust_loop opts cells out"
      by (simp only: eq if_P [OF True])
    moreover have "\<forall>x\<in>set (adjust_loop opts cells out). is_valid x \<and> grid_or_above opts (cell_level x)"
      "cover cells \<union> cover out \<subseteq> cover (adjust_loop opts cells out)"
      using Cons.IH [of out] Cons.prems by simp_all
    ultimately show ?thesis by (simp del: adjust_loop.simps) blast
  next
    case False
    let ?o = "?y # dropWhile (cell_contains ?y) out"
    have "cover out \<subseteq> cover ?o"
    proof -
      have "leaves z \<subseteq> leaves ?y" if "z \<in> set (takeWhile (cell_contains ?y) out)" for z
        using set_takeWhileD [OF that] y(1) Cons.prems(2) contains_leaves [of ?y z] by simp
      then have "cover (takeWhile (cell_contains ?y) out) \<subseteq> leaves ?y" by (auto simp: cover_def)
      moreover have "cover out = cover (takeWhile (cell_contains ?y) out) \<union> cover (dropWhile (cell_contains ?y) out)"
        by (metis cover_simps(3) takeWhile_dropWhile_id)
      ultimately show ?thesis by auto
    qed
    have e: "adjust_loop opts (x # cells) out = adjust_loop opts cells ?o"
      by (simp only: eq if_not_P [OF False])
    have t: "\<forall>x\<in>set cells. is_valid x \<and> cell_level x \<le> max_level opts" using Cons.prems(1) by simp
    have "\<forall>z\<in>set ?o. is_valid z \<and> grid_or_above opts (cell_level z)"
      using y(1) g Cons.prems(2) by (auto dest: set_dropWhileD)
    from Cons.IH [OF t this, folded e]
    have "\<forall>x\<in>set (adjust_loop opts (x # cells) out). is_valid x \<and> grid_or_above opts (cell_level x)"
      "cover cells \<union> cover ?o \<subseteq> cover (adjust_loop opts (x # cells) out)" by blast+
    moreover have "cover (x # cells) \<union> cover out \<subseteq> cover cells \<union> cover ?o"
      using y(3) \<open>cover out \<subseteq> cover ?o\<close> by auto
    ultimately show ?thesis by (intro conjI) (assumption | erule (1) subset_trans [rotated])+
  qed
qed simp

lemma AdjustCellLevels_spec:
  assumes o: "coverer_ok opts" and v: "\<forall>x\<in>set cells. is_valid x \<and> cell_level x \<le> max_level opts"
  shows "\<forall>x\<in>set (AdjustCellLevels opts cells). is_valid x \<and> grid_or_above opts (cell_level x)"
    and "cover cells \<subseteq> cover (AdjustCellLevels opts cells)"
proof -
  have "grid_or_above opts l" if "level_mod opts = 1" "l \<le> max_level opts" for l
    using AdjustLevel_grid(1) [OF o that(2)] that(1) by (simp add: AdjustLevel_def)
  then show "\<forall>x\<in>set (AdjustCellLevels opts cells). is_valid x \<and> grid_or_above opts (cell_level x)"
    "cover cells \<subseteq> cover (AdjustCellLevels opts cells)"
    using adjust_loop_spec [OF o v, of "[]"] v by (auto simp: AdjustCellLevels_def)
qed


section \<open>Short coverings\<close>

text \<open>A short covering is never handed to \<open>GetCovering\<close>.\<close>

lemma pop_contained_length: "length (pop_contained x st) \<le> length st"
  by (induction st) auto

lemma collapse_length: "length (collapse st x) \<le> Suc (length st)"
  by (induction st x rule: collapse.induct) (auto intro: le_trans)

lemma Normalize_length: "length (CU_Normalize ids) \<le> length ids"
proof -
  have step: "length (normalize_step st x) \<le> Suc (length st)" for st x
    unfolding normalize_step_def using collapse_length [of "[]" x] collapse_length [of "pop_contained x st" x]
      pop_contained_length [of x st] by (auto split: list.splits intro: le_trans)
  have "length (foldl normalize_step st xs) \<le> length st + length xs" for st xs
  proof (induction xs arbitrary: st)
    case (Cons x xs)
    show ?case using Cons.IH [of "normalize_step st x"] step [of st x] by simp
  qed simp
  from this [of "[]" "sort ids"] show ?thesis by (simp add: CU_Normalize_def)
qed

lemma sint_difference:
  assumes "0 \<le> a" "a < 2 ^ 31" "n \<le> 100"
  shows "sint (of_nat n - of_int a :: uint64) = int n - a"
proof -
  have "(of_nat n - of_int a :: uint64) = of_int (int n - a)" by simp
  also have "sint \<dots> = int n - a" using assms by (intro sint_of_int_small) auto
  finally show ?thesis .
qed

lemma unat_of_nat_le: "unat (of_nat n :: uint64) \<le> n"
  by (simp add: unsigned_of_nat take_bit_eq_mod)

lemma CanonicalizeCovering_short:
  assumes o: "coverer_ok opts" "min_level opts = 0" "level_mod opts = 1" and m: "0 \<le> max_cells opts" "max_cells opts < 2 ^ 31"
    and v: "\<forall>x\<in>set covering. is_valid x" and short: "length covering \<le> 100"
  shows "CanonicalizeCovering f opts covering = CanonicalizeCovering g opts covering"
proof -
  let ?n = "CU_Normalize (restrict_levels opts covering)"
  have f: "finish_covering opts (restrict_levels opts covering) = Some ?n"
    using o by (simp add: finish_covering_def)
  have l: "length ?n \<le> 100"
    using Normalize_length [of "restrict_levels opts covering"] restrict_levels_spec(3) [OF o(1) v] short by linarith
  let ?e = "int (length ?n) - max_cells opts"
  have e: "sint (of_nat (length ?n) - of_int (max_cells opts) :: uint64) = ?e"
    using l m by (intro sint_difference) auto
  have "\<not> unat (of_int ?e * of_nat (length ?n) :: uint64) > 10000" if "0 < ?e"
  proof -
    obtain k where k: "?e = int k" using \<open>0 < ?e\<close> nonneg_int_cases [of ?e] by force
    have "k * length ?n \<le> 100 * 100" using k m l by (intro mult_le_mono) auto
    moreover have "unat (of_int ?e * of_nat (length ?n) :: uint64) \<le> k * length ?n"
      unfolding k by (simp add: unat_of_nat_le flip: of_nat_mult)
    ultimately show ?thesis by simp
  qed
  then show ?thesis
    unfolding CanonicalizeCovering_alt f bind.bind_lunit Let_def e by auto
qed


section \<open>Coverings\<close>

definition bounds_unions :: "(cellid list \<Rightarrow> cellid list) \<Rightarrow> bool" where
  "bounds_unions union_bound \<longleftrightarrow> (\<forall>ids. CU_IsNormalized ids \<longrightarrow>
     (\<forall>x\<in>set (union_bound ids). is_valid x) \<and> cover ids \<subseteq> cover (union_bound ids) \<and> length (union_bound ids) \<le> 100)"

lemma union_region_ok:
  assumes "bounds_unions union_bound" and n: "CU_IsNormalized ids"
  shows "region_ok (cover ids) (union_region union_bound ids)"
proof -
  have "CU_Intersects ids x \<longleftrightarrow> leaves x \<inter> cover ids \<noteq> {}" "CU_Contains ids x \<longleftrightarrow> leaves x \<subseteq> cover ids" if "is_valid x" for x
    using Intersects_iff [OF _ that] Contains_cover [OF n that] n by (simp_all add: IsNormalized_iff)
  then show ?thesis using assms by (auto simp: region_ok_def union_region_def bounds_unions_def)
qed

lemma tmp_coverer_ok:
  assumes "coverer_ok opts"
  shows "coverer_ok (tmp_coverer opts)" "min_level (tmp_coverer opts) = 0" "level_mod (tmp_coverer opts) = 1"
    "max_level (tmp_coverer opts) = max_level opts" "max_cells (tmp_coverer opts) = min 4 (max_cells opts)"
  using assms by (simp_all add: coverer_ok_def tmp_coverer_def coverer_Options_def set_max_level_def set_max_cells_def)

lemma covering_from_cells:
  assumes o: "coverer_ok opts" and r: "region_ok R r" and t: "picks queue_top"
    and c: "\<forall>x\<in>set cells. is_valid x \<and> cell_level x \<le> max_level opts" and R: "R \<subseteq> cover cells"
  shows "\<exists>st out. covering_loop queue_top opts interior r (add_initial opts interior r (AdjustCellLevels opts cells)) = Some st \<and>
    finish_covering opts (result st) = Some out \<and> wf_union out \<and> (\<forall>x\<in>set out. fits opts x) \<and>
    (if interior then cover out \<subseteq> R else R \<subseteq> cover out)"
proof -
  note a = AdjustCellLevels_spec [OF o c]
  note i = add_initial_spec [OF o r a(1)]
  obtain st where st: "covering_loop queue_top opts interior r (add_initial opts interior r (AdjustCellLevels opts cells)) = Some st"
    "coverer_inv opts interior r st"
    "\<not> interior \<longrightarrow> pq st = [] \<and> reachable_leaves (add_initial opts interior r (AdjustCellLevels opts cells)) \<inter> R \<subseteq> reachable_leaves st"
    using covering_loop_spec [OF o r t i(1)] by blast
  have f: "\<forall>x\<in>set (result st). fits opts x" using st(2) by (simp add: coverer_inv_def)
  then have "\<forall>x\<in>set (result st). is_valid x \<and> cell_level x \<le> true_max_level opts"
    by (simp add: fits_def on_grid_def)
  from finish_covering_spec [OF o this] obtain out where
    out: "finish_covering opts (result st) = Some out" "wf_union out" "cover out = cover (result st)" "\<forall>x\<in>set out. fits opts x"
    by blast
  have "cover (result st) \<subseteq> R" if interior
    using that st(2) r f by (auto simp: coverer_inv_def region_ok_def cover_def fits_def)
  moreover have "R \<subseteq> cover (result st)" if "\<not> interior"
  proof -
    have "R \<subseteq> reachable_leaves st" using i(2) a(2) R st(3) that by blast
    then show ?thesis using st(3) that by (simp add: reachable_leaves_def)
  qed
  ultimately show ?thesis using st(1) out by auto
qed

lemma whole_sphere_covers:
  assumes "coverer_ok opts"
  shows "covers_unions opts (\<lambda>ids. finish_covering opts (map cell_FromFace [0, 1, 2, 3, 4, 5]))"
  unfolding covers_unions_def
proof (intro allI impI)
  fix ids assume ids: "CU_IsNormalized ids"
  let ?faces = "map cell_FromFace [0, 1, 2, 3, 4, 5]"
  have v: "\<forall>x\<in>set ?faces. is_valid x" by (simp add: FromFace_at is_valid_at)
  have "\<forall>x\<in>set ?faces. cell_level x = 0" by (simp add: FromFace_at cell_level_at)
  then have w: "\<forall>x\<in>set ?faces. is_valid x \<and> cell_level x \<le> true_max_level opts"
    using v on_grid_bounds(1) [OF assms true_max_level_eq(2) [OF assms]] by metis
  obtain out where out: "finish_covering opts ?faces = Some out" "wf_union out" "cover out = cover ?faces"
      "\<forall>x\<in>set out. fits opts x"
    using finish_covering_spec [OF assms w] by blast
  have "CU_WholeSphere = CU_Normalize ?faces" by (simp add: CU_WholeSphere_def CU_Init_def)
  then have "cover CU_WholeSphere = cover ?faces" using Normalize_spec(2) [OF v] by (simp only:)
  moreover have "cover ids \<subseteq> cover CU_WholeSphere"
    unfolding WholeSphere_spec(2) by (rule cover_bounded) (use ids in \<open>simp add: IsNormalized_iff\<close>)
  ultimately show "\<exists>out. finish_covering opts ?faces = Some out \<and> wf_union out \<and> (\<forall>x\<in>set out. fits opts x) \<and>
      cover ids \<subseteq> cover out"
    using out by metis
qed

text \<open>What a covering of the leaves \<open>R\<close> is, and the call for a union inside \<open>CanonicalizeCovering\<close>.\<close>

definition is_covering :: "'a coverer_options_scheme \<Rightarrow> bool \<Rightarrow> nat set \<Rightarrow> cellid list \<Rightarrow> bool" where
  "is_covering opts interior R out \<longleftrightarrow> wf_union out \<and> (\<forall>x\<in>set out. fits opts x) \<and>
     (if interior then cover out \<subseteq> R else R \<subseteq> cover out)"

definition retry :: "nat \<Rightarrow> (cellid list \<Rightarrow> cellid list) \<Rightarrow> ((int \<times> candidate) list \<Rightarrow> nat) \<Rightarrow> coverer_options \<Rightarrow> cellid list \<Rightarrow> cellid list option" where
  "retry fuel union_bound queue_top opts ids =
     GetCoveringInternal fuel union_bound queue_top opts False (union_region union_bound ids)"

lemma retry_eq: "retry fuel union_bound queue_top opts =
    (\<lambda>ids. GetCoveringInternal fuel union_bound queue_top opts False (union_region union_bound ids))"
  by (rule ext) (simp only: retry_def)

lemma GetCoveringInternal_Suc:
  assumes "CanonicalizeCovering (retry fuel union_bound queue_top (tmp_coverer opts)) (tmp_coverer opts) (GetCellUnionBound r) = Some cells"
    and "covering_loop queue_top opts interior r (add_initial opts interior r (AdjustCellLevels opts cells)) = Some st"
  shows "GetCoveringInternal (Suc fuel) union_bound queue_top opts interior r = finish_covering opts (result st)"
  using assms unfolding retry_eq by (simp only: GetCoveringInternal.simps bind.bind_lunit)

lemma covering_step:
  assumes o: "coverer_ok opts" and r: "region_ok R r" and t: "picks queue_top"
    and c: "CanonicalizeCovering (retry fuel union_bound queue_top (tmp_coverer opts)) (tmp_coverer opts) (GetCellUnionBound r) = Some cells"
      "\<forall>x\<in>set cells. fits (tmp_coverer opts) x" "cover (GetCellUnionBound r) \<subseteq> cover cells"
  shows "\<exists>out. GetCoveringInternal (Suc fuel) union_bound queue_top opts interior r = Some out \<and> is_covering opts interior R out"
proof -
  have v: "\<forall>x\<in>set cells. is_valid x \<and> cell_level x \<le> max_level opts"
  proof
    fix x assume "x \<in> set cells"
    then have "is_valid x" "on_grid (tmp_coverer opts) (cell_level x)" using c(2) by (simp_all add: fits_def)
    then show "is_valid x \<and> cell_level x \<le> max_level opts"
      using on_grid_bounds(4) [OF tmp_coverer_ok(1) [OF o], of "cell_level x"] tmp_coverer_ok(4) [OF o] by simp
  qed
  have "R \<subseteq> cover (GetCellUnionBound r)" using r by (simp add: region_ok_def)
  then have "R \<subseteq> cover cells" using c(3) by (rule subset_trans)
  from covering_from_cells [OF o r t v this, of interior] obtain st out where
    l: "covering_loop queue_top opts interior r (add_initial opts interior r (AdjustCellLevels opts cells)) = Some st"
    and f: "finish_covering opts (result st) = Some out" "wf_union out" "\<forall>x\<in>set out. fits opts x"
      "if interior then cover out \<subseteq> R else R \<subseteq> cover out" by blast
  have "GetCoveringInternal (Suc fuel) union_bound queue_top opts interior r = Some out"
    using GetCoveringInternal_Suc [OF c(1) l] f(1) by (rule trans)
  moreover have "is_covering opts interior R out" using f(2-4) unfolding is_covering_def by blast
  ultimately show ?thesis by blast
qed

lemma short_bound_covering:
  assumes o: "coverer_ok opts" "0 \<le> max_cells opts" and t: "picks queue_top" and r: "region_ok R r"
    and l: "length (GetCellUnionBound r) \<le> 100"
  shows "\<exists>out. GetCoveringInternal (Suc fuel) union_bound queue_top opts interior r = Some out \<and> is_covering opts interior R out"
proof -
  note tmp = tmp_coverer_ok [OF o(1)]
  have v: "\<forall>x\<in>set (GetCellUnionBound r). is_valid x" using r by (simp add: region_ok_def)
  have m: "0 \<le> max_cells (tmp_coverer opts)" "max_cells (tmp_coverer opts) < 2 ^ 31" using o(2) tmp(5) by simp_all
  let ?whole = "\<lambda>ids. finish_covering (tmp_coverer opts) (map cell_FromFace [0, 1, 2, 3, 4, 5])"
  obtain cells where cells: "CanonicalizeCovering ?whole (tmp_coverer opts) (GetCellUnionBound r) = Some cells"
    "\<forall>x\<in>set cells. fits (tmp_coverer opts) x" "cover (GetCellUnionBound r) \<subseteq> cover cells"
    using CanonicalizeCovering_spec [OF tmp(1) v whole_sphere_covers [OF tmp(1)]] by blast
  note covering_step [OF o(1) r t _ cells(2,3)]
  then show ?thesis using cells(1) CanonicalizeCovering_short [OF tmp(1-3) m v l] by metis
qed

lemma GetCoveringInternal_spec:
  assumes o: "coverer_ok opts" "0 \<le> max_cells opts" and b: "bounds_unions union_bound" and t: "picks queue_top"
    and r: "region_ok R r"
  shows "\<exists>out. GetCoveringInternal (Suc (Suc fuel)) union_bound queue_top opts interior r = Some out \<and> is_covering opts interior R out"
proof -
  note tmp = tmp_coverer_ok [OF o(1)]
  have v: "\<forall>x\<in>set (GetCellUnionBound r). is_valid x" using r by (simp add: region_ok_def)
  have m: "0 \<le> max_cells (tmp_coverer opts)" using o(2) tmp(5) by simp
  have "covers_unions (tmp_coverer opts) (retry (Suc fuel) union_bound queue_top (tmp_coverer opts))"
    unfolding covers_unions_def
  proof (intro allI impI)
    fix ids assume i: "CU_IsNormalized ids"
    have "length (GetCellUnionBound (union_region union_bound ids)) \<le> 100"
      using b i by (simp add: union_region_def bounds_unions_def)
    from short_bound_covering [OF tmp(1) m t union_region_ok [OF b i] this, of fuel union_bound False]
    show "\<exists>out. retry (Suc fuel) union_bound queue_top (tmp_coverer opts) ids = Some out \<and>
        wf_union out \<and> (\<forall>x\<in>set out. fits (tmp_coverer opts) x) \<and> cover ids \<subseteq> cover out"
      by (simp only: retry_def is_covering_def if_False)
  qed
  from CanonicalizeCovering_spec [OF tmp(1) v this] obtain cells where
    cells: "CanonicalizeCovering (retry (Suc fuel) union_bound queue_top (tmp_coverer opts)) (tmp_coverer opts) (GetCellUnionBound r) = Some cells"
    "\<forall>x\<in>set cells. fits (tmp_coverer opts) x" "cover (GetCellUnionBound r) \<subseteq> cover cells" by blast
  show ?thesis by (rule covering_step [OF o(1) r t cells])
qed

lemma CanonicalizeCovering_vector_spec:
  assumes o: "coverer_ok opts" "0 \<le> max_cells opts" and b: "bounds_unions union_bound" and t: "picks queue_top"
    and v: "\<forall>x\<in>set covering. is_valid x"
  shows "\<exists>out. CanonicalizeCovering_vector (Suc fuel) union_bound queue_top opts covering = Some out \<and>
    wf_union out \<and> (\<forall>x\<in>set out. fits opts x) \<and> cover covering \<subseteq> cover out"
proof -
  have "covers_unions opts (retry (Suc fuel) union_bound queue_top opts)"
    unfolding covers_unions_def
  proof (intro allI impI)
    fix ids assume i: "CU_IsNormalized ids"
    have "length (GetCellUnionBound (union_region union_bound ids)) \<le> 100"
      using b i by (simp add: union_region_def bounds_unions_def)
    from short_bound_covering [OF o t union_region_ok [OF b i] this, of fuel union_bound False]
    show "\<exists>out. retry (Suc fuel) union_bound queue_top opts ids = Some out \<and>
        wf_union out \<and> (\<forall>x\<in>set out. fits opts x) \<and> cover ids \<subseteq> cover out"
      by (simp only: retry_def is_covering_def if_False)
  qed
  from CanonicalizeCovering_spec [OF o(1) v this] show ?thesis
    by (simp only: CanonicalizeCovering_vector_def retry_eq)
qed

end
