(* ===== verification/Coverer_Properties.thy ===== *)
theory Coverer_Properties
  imports Coverer_Canonical Term_Match
begin

text \<open>
  What \<^verbatim>\<open>S2RegionCoverer\<close> promises, and what it means for the term indexer that uses it.
\<close>

section \<open>Coverings\<close>

text \<open>C20: for valid options and a region that keeps its contract, \<open>GetCovering\<close> returns valid, sorted and
  disjoint cells of the allowed levels that together hold every leaf of the region, and
  \<open>GetInteriorCovering\<close> such cells that hold no other leaf.  Both return whichever entries of the
  queue are preferred among those of the same priority, and two levels of nesting are enough.\<close>

theorem GetCovering_correct:
  assumes "coverer_ok opts" and "0 \<le> max_cells opts" and "bounds_unions union_bound" and "picks queue_top"
    and "region_ok R r" and "2 \<le> fuel"
  shows "\<exists>exterior inner.
    GetCovering fuel union_bound queue_top opts r = Some exterior \<and>
    GetInteriorCovering fuel union_bound queue_top opts r = Some inner \<and>
    CU_IsValid exterior \<and> CU_IsValid inner \<and> cover inner \<subseteq> R \<and> R \<subseteq> cover exterior \<and>
    (\<forall>x\<in>set exterior \<union> set inner. min_level opts \<le> cell_level x \<and> cell_level x \<le> true_max_level opts \<and>
      (cell_level x - min_level opts) mod level_mod opts = 0)"
proof -
  obtain n where n: "fuel = Suc (Suc n)" using assms(6) le_Suc_ex [of 2 fuel] by auto
  note spec = GetCoveringInternal_spec [OF assms(1-5), of n]
  obtain a where a: "GetCoveringInternal fuel union_bound queue_top opts False r = Some a" "is_covering opts False R a"
    using spec [of False, folded n] by (elim exE conjE)
  obtain b where b: "GetCoveringInternal fuel union_bound queue_top opts True r = Some b" "is_covering opts True R b"
    using spec [of True, folded n] by (elim exE conjE)
  have w: "CU_IsValid a" "CU_IsValid b" "cover b \<subseteq> R" "R \<subseteq> cover a" "\<forall>x\<in>set a \<union> set b. fits opts x"
    using a(2) b(2) unfolding is_covering_def IsValid_iff by (simp_all add: ball_Un)
  then have "\<forall>x\<in>set a \<union> set b. min_level opts \<le> cell_level x \<and> cell_level x \<le> true_max_level opts \<and>
      (cell_level x - min_level opts) mod level_mod opts = 0"
    unfolding fits_def on_grid_def by blast
  with w(1-4) show ?thesis
    using a(1) b(1) unfolding GetCovering_def GetInteriorCovering_def
    by (intro exI [of _ a] exI [of _ b] conjI)
qed

definition face_region :: region where
  "face_region = \<lparr>MayIntersect = (\<lambda>x. cell_intersects (cell_FromFace 2) x),
     region_Contains = (\<lambda>x. cell_contains (cell_FromFace 2) x), GetCellUnionBound = [cell_FromFace 2]\<rparr>"

lemma face_region_ok: "region_ok (leaves (cell_FromFace 2)) face_region"
proof -
  have "is_valid (cell_FromFace 2)" by (simp add: FromFace_at is_valid_at)
  then show ?thesis by (auto simp: region_ok_def face_region_def contains_leaves intersects_leaves)
qed

lemma whole_bound: "bounds_unions (\<lambda>ids. CU_WholeSphere)"
proof -
  have "\<forall>x\<in>set CU_WholeSphere. is_valid x"
    using WholeSphere_spec(1) wf_union_valid by (auto simp: IsNormalized_iff)
  moreover have "length CU_WholeSphere \<le> 100"
    using Normalize_length by (simp add: CU_WholeSphere_def CU_Init_def) (rule le_trans [OF Normalize_length], simp)
  ultimately show ?thesis
    using cover_bounded WholeSphere_spec(2) by (auto simp: bounds_unions_def IsNormalized_iff)
qed

theorem GetCovering_correct_witness:
  "\<exists>out. GetCovering 2 (\<lambda>ids. CU_WholeSphere) (\<lambda>q. 0) coverer_Options face_region = Some out \<and>
    leaves (cell_FromFace 2) \<subseteq> cover out"
proof -
  have o: "coverer_ok coverer_Options" "0 \<le> max_cells coverer_Options"
    by (simp_all add: coverer_ok_def coverer_Options_def kDefaultMaxCells_def)
  have t: "picks (\<lambda>q. 0)" by (simp add: picks_def)
  show ?thesis using GetCovering_correct [OF o whole_bound t face_region_ok, of 2] by auto
qed


section \<open>The invariant of the search\<close>

text \<open>C25: adding a candidate and every round of the covering loop keep the invariant of the search: the cells of
  the result are valid, of an allowed level and, for interior coverings, inside the region; every
  queued candidate has fresh children inside its cell.  The loop ends, and without an interior
  covering no leaf of the region that can be reached from the result or the queue is lost.\<close>

theorem covering_search_invariant:
  assumes "coverer_ok opts" and "region_ok R r" and "picks queue_top" and "coverer_inv opts interior r st"
  shows "(\<forall>c. fresh opts interior r c \<longrightarrow> coverer_inv opts interior r (AddCandidate opts interior r (Some c) st)) \<and>
    (\<exists>st'. covering_loop queue_top opts interior r st = Some st' \<and> coverer_inv opts interior r st' \<and>
      (\<not> interior \<longrightarrow> pq st' = [] \<and> reachable_leaves st \<inter> R \<subseteq> cover (result st')))"
proof (intro conjI allI impI)
  show "coverer_inv opts interior r (AddCandidate opts interior r (Some c) st)" if "fresh opts interior r c" for c
    by (rule AddCandidate_spec(1) [OF assms(1,2) that assms(4)])
  obtain st' where st': "covering_loop queue_top opts interior r st = Some st'" "coverer_inv opts interior r st'"
    "\<not> interior \<longrightarrow> pq st' = [] \<and> reachable_leaves st \<inter> R \<subseteq> reachable_leaves st'"
    using covering_loop_spec [OF assms] by blast
  moreover have "reachable_leaves st' = cover (result st')" if "pq st' = []" using that by (simp add: reachable_leaves_def)
  ultimately show "\<exists>st'. covering_loop queue_top opts interior r st = Some st' \<and> coverer_inv opts interior r st' \<and>
      (\<not> interior \<longrightarrow> pq st' = [] \<and> reachable_leaves st \<inter> R \<subseteq> cover (result st'))" by metis
qed

theorem covering_search_invariant_witness:
  "\<exists>st'. covering_loop (\<lambda>q. length q - 1) coverer_Options False face_region \<lparr>result = [cell_FromFace 2], pq = []\<rparr> = Some st' \<and>
    leaves (cell_FromFace 2) \<subseteq> cover (result st')"
proof -
  have o: "coverer_ok coverer_Options" by (simp add: coverer_ok_def coverer_Options_def)
  have t: "picks (\<lambda>q. length q - 1)" by (simp add: picks_def)
  have "fits coverer_Options (cell_FromFace 2)"
    by (simp add: fits_def on_grid_def FromFace_at is_valid_at cell_level_at coverer_Options_def true_max_level_def)
  then have i: "coverer_inv coverer_Options False face_region \<lparr>result = [cell_FromFace 2], pq = []\<rparr>"
    by (simp add: coverer_inv_def)
  show ?thesis using covering_search_invariant [OF o face_region_ok t i] by (auto simp: reachable_leaves_def)
qed


section \<open>The coverer and the indexer together\<close>

text \<open>C24: when two regions have a leaf in common, the index terms made from the covering of the one and the
  query terms made from the covering of the other have a common term: a query misses no document.\<close>

theorem indexed_regions_are_found:
  assumes "options_ok opts" and "\<not> points_only opts" and "0 \<le> max_cells opts"
    and "bounds_unions union_bound" and "picks queue_top"
    and "region_ok D document" and "region_ok Q query" and "D \<inter> Q \<noteq> {}"
  defines "get_covering \<equiv> \<lambda>r. the (GetCovering 2 union_bound queue_top (coverer_options.truncate opts) r)"
  shows "\<exists>index_ts query_ts. GetIndexTerms_region opts get_covering document pfx = Some index_ts \<and>
    GetQueryTerms_region opts get_covering query pfx = Some query_ts \<and> set index_ts \<inter> set query_ts \<noteq> {}"
proof -
  let ?o = "coverer_options.truncate opts"
  have sel: "min_level ?o = min_level opts" "max_level ?o = max_level opts" "level_mod ?o = level_mod opts"
    "max_cells ?o = max_cells opts" by (simp_all add: coverer_options.truncate_def)
  then have o: "coverer_ok ?o" "0 \<le> max_cells ?o" using assms(1,3) by (simp_all add: options_ok_def coverer_ok_def)
  have f: "fits ?o x = fits opts x" for x using sel by (simp add: fits_def on_grid_def true_max_level_def)
  have c: "\<exists>out. get_covering r = out \<and> (\<forall>x\<in>set out. fits opts x) \<and> R \<subseteq> cover out" if "region_ok R r" for R r
    using GetCoveringInternal_spec [OF o assms(4,5) that, of 0 False]
    unfolding get_covering_def GetCovering_def is_covering_def f numeral_2_eq_2 by auto
  obtain a where a: "get_covering document = a" "\<forall>x\<in>set a. fits opts x" "D \<subseteq> cover a" using c [OF assms(6)] by blast
  obtain b where b: "get_covering query = b" "\<forall>x\<in>set b. fits opts x" "Q \<subseteq> cover b" using c [OF assms(7)] by blast
  obtain p x y where p: "p \<in> leaves x" "x \<in> set a" "p \<in> leaves y" "y \<in> set b"
    using a(3) b(3) assms(8) unfolding cover_def by blast
  then have "cell_intersects x y"
    using a(2) b(2) intersects_leaves [of x y] by (auto simp: fits_def)
  then have "index_terms opts pfx x \<inter> query_terms opts pfx y \<noteq> {}"
    using region_pair [OF assms(1,2)] a(2) b(2) p by blast
  moreover obtain index_ts where "index_terms_loop opts pfx cell_None a [] = Some index_ts"
    "set index_ts = (\<Union>x\<in>set a. index_terms opts pfx x)"
    using index_terms_loop_ok [OF assms(1) a(2), of cell_None pfx "[]"] by auto
  moreover obtain query_ts where "query_terms_loop opts pfx cell_None b [] = Some query_ts"
    "set query_ts = (\<Union>x\<in>set b. query_terms opts pfx x)"
    using query_terms_loop_ok [OF assms(1) b(2), of cell_None pfx "[]"] by auto
  ultimately show ?thesis
    using assms(2) a(1) b(1) p unfolding GetIndexTerms_region_def GetQueryTerms_region_def
      GetIndexTermsForCanonicalCovering_def GetQueryTermsForCanonicalCovering_def by auto
qed

theorem indexed_regions_are_found_witness:
  "\<exists>index_ts query_ts.
    GetIndexTerms_region indexer_Options (\<lambda>r. the (GetCovering 2 (\<lambda>ids. CU_WholeSphere) (\<lambda>q. 0)
      (coverer_options.truncate indexer_Options) r)) face_region ''s2:'' = Some index_ts \<and>
    GetQueryTerms_region indexer_Options (\<lambda>r. the (GetCovering 2 (\<lambda>ids. CU_WholeSphere) (\<lambda>q. 0)
      (coverer_options.truncate indexer_Options) r)) face_region ''s2:'' = Some query_ts \<and>
    set index_ts \<inter> set query_ts \<noteq> {}"
proof -
  have o: "options_ok indexer_Options" "\<not> points_only indexer_Options" "0 \<le> max_cells indexer_Options"
    by code_simp+
  have t: "picks (\<lambda>q. 0)" by (simp add: picks_def)
  have ne: "leaves (cell_FromFace 2) \<inter> leaves (cell_FromFace 2) \<noteq> {}" by simp
  show ?thesis
    by (rule indexed_regions_are_found [OF o whole_bound t face_region_ok face_region_ok ne])
qed

end
