(* ===== verification/Cell_Index.thy ===== *)
theory Cell_Index
  imports Cell_Union "HOL-Library.Monad_Syntax" "HOL-Library.Product_Lexorder"
begin

text \<open>
  \<^verbatim>\<open>S2CellIndex\<close> (\<^verbatim>\<open>s2/s2cell_index.h\<close> and \<^verbatim>\<open>.cc\<close>): a collection of labelled cells.  After \<open>Build\<close> the nodes of
  \<open>cell_tree\<close> form a forest by their parent indices, and each node of \<open>range_nodes\<close> holds the first leaf
  of a range and the index of the smallest cell that contains the range.  Iterators are positions in
  these vectors.  \<open>None\<close> is an access outside a vector or a loop that does not end.
\<close>


section \<open>The index\<close>

type_synonym label = int

record cell_node =
  node_cell :: cellid
  node_label :: label
  node_parent :: int

record range_node =
  range_start :: cellid
  range_contents :: int

record cell_index =
  cell_tree :: "cell_node list"
  range_nodes :: "range_node list"

definition kDoneContents :: label where "kDoneContents = -1"

definition CI_empty :: cell_index where
  "CI_empty = \<lparr>cell_tree = [], range_nodes = []\<rparr>"

definition CI_num_cells :: "cell_index \<Rightarrow> nat" where
  "CI_num_cells ix = length (cell_tree ix)"

definition CI_Add :: "cellid \<Rightarrow> label \<Rightarrow> cell_index \<Rightarrow> cell_index" where
  "CI_Add x l ix = ix\<lparr>cell_tree := cell_tree ix @ [\<lparr>node_cell = x, node_label = l, node_parent = -1\<rparr>]\<rparr>"

definition CI_Add_union :: "cell_union \<Rightarrow> label \<Rightarrow> cell_index \<Rightarrow> cell_index" where
  "CI_Add_union cell_ids l ix = fold (\<lambda>x. CI_Add x l) cell_ids ix"

definition CI_Clear :: "cell_index \<Rightarrow> cell_index" where
  "CI_Clear ix = ix\<lparr>cell_tree := [], range_nodes := []\<rparr>"


section \<open>Building\<close>

datatype delta = Delta (delta_start: cellid) (delta_cell: cellid) (delta_label: label)

definition delta_less :: "delta \<Rightarrow> delta \<Rightarrow> bool" where
  "delta_less x y \<longleftrightarrow>
     (if delta_start x < delta_start y then True
      else if delta_start y < delta_start x then False
      else if delta_cell y < delta_cell x then True
      else if delta_cell x < delta_cell y then False
      else delta_label x < delta_label y)"

text \<open>
  \<open>std::sort\<close> by \<open>delta_less\<close>: the order is the lexicographic order of the key, which tells different deltas
  apart, so there is only one sorted permutation.
\<close>

definition delta_key :: "delta \<Rightarrow> cellid \<times> cellid \<times> label" where
  "delta_key d = (delta_start d, NOT (delta_cell d), delta_label d)"

definition node_deltas :: "cell_node \<Rightarrow> delta list" where
  "node_deltas n =
     [Delta (range_min (node_cell n)) (node_cell n) (node_label n),
      Delta (cell_next (range_max (node_cell n))) cell_Sentinel (-1)]"

definition build_deltas :: "cell_node list \<Rightarrow> delta list" where
  "build_deltas nodes =
     sort_key delta_key (concat (map node_deltas nodes) @
       [Delta (cell_Begin kMaxLevel) cell_None (-1), Delta (cell_End kMaxLevel) cell_None (-1)])"

definition build_step :: "delta \<Rightarrow> cell_node list \<times> int \<Rightarrow> (cell_node list \<times> int) option" where
  "build_step d st =
     (case st of (tree, contents) \<Rightarrow>
        if delta_label d \<ge> 0
        then Some (tree @ [\<lparr>node_cell = delta_cell d, node_label = delta_label d, node_parent = contents\<rparr>],
                   int (length tree))
        else if delta_cell d = cell_Sentinel
        then if 0 \<le> contents \<and> nat contents < length tree then Some (tree, node_parent (tree ! nat contents)) else None
        else Some (tree, contents))"

fun build_group :: "cellid \<Rightarrow> delta list \<Rightarrow> cell_node list \<times> int \<Rightarrow> (delta list \<times> cell_node list \<times> int) option" where
  "build_group start [] st = Some ([], st)"
| "build_group start (d # ds) st =
     (if delta_start d = start
      then Option.bind (build_step d st) (\<lambda>st. build_group start ds st)
      else Some (d # ds, st))"

partial_function (option) build_loop ::
  "delta list \<Rightarrow> cell_node list \<times> int \<Rightarrow> range_node list \<Rightarrow> (cell_node list \<times> range_node list) option" where
  "build_loop ds st ranges =
     (case ds of [] \<Rightarrow> Some (fst st, ranges)
      | d # _ \<Rightarrow>
          (case build_group (delta_start d) ds st of None \<Rightarrow> None
           | Some (ds, st) \<Rightarrow>
               build_loop ds st (ranges @ [\<lparr>range_start = delta_start d, range_contents = snd st\<rparr>])))"

definition CI_Build :: "cell_index \<Rightarrow> cell_index option" where
  "CI_Build ix =
     do { (tree, ranges) \<leftarrow> build_loop (build_deltas (cell_tree ix)) ([], -1) (range_nodes ix);
          Some (ix\<lparr>cell_tree := tree, range_nodes := ranges\<rparr>) }"


section \<open>Iterators\<close>

text \<open>\<open>CellIterator\<close>: the nodes in the order of the tree.\<close>

definition CellIt_done :: "cell_index \<Rightarrow> nat \<Rightarrow> bool" where
  "CellIt_done ix it \<longleftrightarrow> it = length (cell_tree ix)"

definition CellIt_Next :: "nat \<Rightarrow> nat" where "CellIt_Next it = it + 1"

definition CellIt_labelled_cell :: "cell_index \<Rightarrow> nat \<Rightarrow> (cellid \<times> label) option" where
  "CellIt_labelled_cell ix it =
     (if it < length (cell_tree ix) then Some (node_cell (cell_tree ix ! it), node_label (cell_tree ix ! it)) else None)"

text \<open>\<open>RangeIterator\<close> and \<open>NonEmptyRangeIterator\<close>: the last range node is a sentinel.\<close>

definition RangeIt_start_id :: "cell_index \<Rightarrow> nat \<Rightarrow> cellid option" where
  "RangeIt_start_id ix it = (if it < length (range_nodes ix) then Some (range_start (range_nodes ix ! it)) else None)"

definition RangeIt_limit_id :: "cell_index \<Rightarrow> nat \<Rightarrow> cellid option" where
  "RangeIt_limit_id ix it = RangeIt_start_id ix (it + 1)"

definition RangeIt_done :: "cell_index \<Rightarrow> nat \<Rightarrow> bool" where
  "RangeIt_done ix it \<longleftrightarrow> it + 1 \<ge> length (range_nodes ix)"

definition RangeIt_Begin :: nat where "RangeIt_Begin = 0"

definition RangeIt_Finish :: "cell_index \<Rightarrow> nat" where
  "RangeIt_Finish ix = length (range_nodes ix) - 1"

definition RangeIt_Next :: "nat \<Rightarrow> nat" where "RangeIt_Next it = it + 1"

definition RangeIt_Prev :: "nat \<Rightarrow> bool \<times> nat" where
  "RangeIt_Prev it = (if it = 0 then (False, it) else (True, it - 1))"

definition RangeIt_Seek :: "cell_index \<Rightarrow> cellid \<Rightarrow> nat option" where
  "RangeIt_Seek ix target =
     (case length (takeWhile (\<lambda>n. \<not> target < range_start n) (range_nodes ix)) of
        0 \<Rightarrow> None | Suc it \<Rightarrow> Some it)"

definition RangeIt_is_empty :: "cell_index \<Rightarrow> nat \<Rightarrow> bool option" where
  "RangeIt_is_empty ix it =
     (if it < length (range_nodes ix) then Some (range_contents (range_nodes ix ! it) = kDoneContents) else None)"

definition RangeIt_Advance :: "cell_index \<Rightarrow> int \<Rightarrow> nat \<Rightarrow> bool \<times> nat" where
  "RangeIt_Advance ix n it =
     (if n \<ge> int (length (range_nodes ix)) - 1 - int it then (False, it) else (True, nat (int it + n)))"

partial_function (option) NonEmpty_skip :: "cell_index \<Rightarrow> nat \<Rightarrow> nat option" where
  "NonEmpty_skip ix it =
     do { e \<leftarrow> RangeIt_is_empty ix it;
          if e \<and> \<not> RangeIt_done ix it then NonEmpty_skip ix (RangeIt_Next it) else Some it }"

definition NonEmpty_Begin :: "cell_index \<Rightarrow> nat option" where
  "NonEmpty_Begin ix = NonEmpty_skip ix RangeIt_Begin"

definition NonEmpty_Next :: "cell_index \<Rightarrow> nat \<Rightarrow> nat option" where
  "NonEmpty_Next ix it = NonEmpty_skip ix (RangeIt_Next it)"

fun NonEmpty_Prev :: "cell_index \<Rightarrow> nat \<Rightarrow> (bool \<times> nat) option" where
  "NonEmpty_Prev ix 0 =
     do { e \<leftarrow> RangeIt_is_empty ix 0;
          it \<leftarrow> (if e \<and> \<not> RangeIt_done ix 0 then NonEmpty_Next ix 0 else Some 0);
          Some (False, it) }"
| "NonEmpty_Prev ix (Suc it) =
     do { e \<leftarrow> RangeIt_is_empty ix it; if \<not> e then Some (True, it) else NonEmpty_Prev ix it }"

definition NonEmpty_Seek :: "cell_index \<Rightarrow> cellid \<Rightarrow> nat option" where
  "NonEmpty_Seek ix target = do { it \<leftarrow> RangeIt_Seek ix target; NonEmpty_skip ix it }"

text \<open>\<open>ContentsIterator\<close>: the cells that contain a range, without those met for an earlier range.\<close>

record contents_iterator =
  prev_start_id :: cellid
  node_cutoff :: int
  next_node_cutoff :: int
  it_node :: cell_node

definition CI_set_done :: "contents_iterator \<Rightarrow> contents_iterator" where
  "CI_set_done c = c\<lparr>it_node := (it_node c)\<lparr>node_label := kDoneContents\<rparr>\<rparr>"

definition ContentsIt_Clear :: "contents_iterator \<Rightarrow> contents_iterator" where
  "ContentsIt_Clear c = CI_set_done (c\<lparr>prev_start_id := cell_None, node_cutoff := -1, next_node_cutoff := -1\<rparr>)"

definition ContentsIt_init :: contents_iterator where
  "ContentsIt_init = ContentsIt_Clear
     \<lparr>prev_start_id = cell_None, node_cutoff = -1, next_node_cutoff = -1,
      it_node = \<lparr>node_cell = cell_None, node_label = kDoneContents, node_parent = -1\<rparr>\<rparr>"

definition ContentsIt_done :: "contents_iterator \<Rightarrow> bool" where
  "ContentsIt_done c \<longleftrightarrow> node_label (it_node c) = kDoneContents"

definition tree_node :: "cell_index \<Rightarrow> int \<Rightarrow> cell_node option" where
  "tree_node ix i = (if 0 \<le> i \<and> nat i < length (cell_tree ix) then Some (cell_tree ix ! nat i) else None)"

definition ContentsIt_StartUnion :: "cell_index \<Rightarrow> nat \<Rightarrow> contents_iterator \<Rightarrow> contents_iterator option" where
  "ContentsIt_StartUnion ix rng c =
     do { start \<leftarrow> RangeIt_start_id ix rng;
          let c = (if start < prev_start_id c then c\<lparr>node_cutoff := -1\<rparr> else c);
          let c = c\<lparr>prev_start_id := start\<rparr>;
          let contents = range_contents (range_nodes ix ! rng);
          c \<leftarrow> (if contents \<le> node_cutoff c then Some (CI_set_done c)
                else do { n \<leftarrow> tree_node ix contents; Some (c\<lparr>it_node := n\<rparr>) });
          Some (c\<lparr>next_node_cutoff := contents\<rparr>) }"

definition ContentsIt_Next :: "cell_index \<Rightarrow> contents_iterator \<Rightarrow> contents_iterator option" where
  "ContentsIt_Next ix c =
     (if node_parent (it_node c) \<le> node_cutoff c
      then Some (CI_set_done (c\<lparr>node_cutoff := next_node_cutoff c\<rparr>))
      else do { n \<leftarrow> tree_node ix (node_parent (it_node c)); Some (c\<lparr>it_node := n\<rparr>) })"


section \<open>Visiting the cells that intersect a union\<close>

type_synonym 's visitor = "cellid \<Rightarrow> label \<Rightarrow> 's \<Rightarrow> bool \<times> 's"

partial_function (option) visit_contents ::
  "cell_index \<Rightarrow> 's visitor \<Rightarrow> contents_iterator \<Rightarrow> 's \<Rightarrow> (bool \<times> contents_iterator \<times> 's) option" where
  "visit_contents ix visitor c s =
     (if ContentsIt_done c then Some (True, c, s)
      else case visitor (node_cell (it_node c)) (node_label (it_node c)) s of (ok, s) \<Rightarrow>
        if \<not> ok then Some (False, c, s)
        else do { c \<leftarrow> ContentsIt_Next ix c; visit_contents ix visitor c s })"

partial_function (option) visit_ranges ::
  "cell_index \<Rightarrow> 's visitor \<Rightarrow> cellid \<Rightarrow> nat \<Rightarrow> contents_iterator \<Rightarrow> 's \<Rightarrow> (bool \<times> nat \<times> contents_iterator \<times> 's) option" where
  "visit_ranges ix visitor limit rng c s =
     do { start \<leftarrow> RangeIt_start_id ix rng;
          if start \<le> limit
          then do { c \<leftarrow> ContentsIt_StartUnion ix rng c;
                    (ok, c, s) \<leftarrow> visit_contents ix visitor c s;
                    if \<not> ok then Some (False, rng, c, s)
                    else visit_ranges ix visitor limit (RangeIt_Next rng) c s }
          else Some (True, rng, c, s) }"

definition next_target :: "cell_union \<Rightarrow> cellid \<Rightarrow> nat \<Rightarrow> nat" where
  "next_target target start it =
     (let it = it + 1
      in if it < length target \<and> range_max (target ! it) < start
         then let it = it + 1 + length (takeWhile (\<lambda>y. y < start) (drop (it + 1) target))
              in if range_max (target ! (it - 1)) \<ge> start then it - 1 else it
         else it)"

partial_function (option) visit_targets ::
  "cell_index \<Rightarrow> cell_union \<Rightarrow> 's visitor \<Rightarrow> nat \<Rightarrow> nat \<Rightarrow> contents_iterator \<Rightarrow> 's \<Rightarrow> (bool \<times> 's) option" where
  "visit_targets ix target visitor it rng c s =
     do { limit \<leftarrow> RangeIt_limit_id ix rng;
          rng \<leftarrow> (if limit \<le> range_min (target ! it) then RangeIt_Seek ix (range_min (target ! it)) else Some rng);
          (ok, rng, c, s) \<leftarrow> visit_ranges ix visitor (range_max (target ! it)) rng c s;
          if \<not> ok then Some (False, s)
          else do { start \<leftarrow> RangeIt_start_id ix rng;
                    let it = next_target target start it;
                    if it < length target then visit_targets ix target visitor it rng c s else Some (True, s) } }"

definition CI_VisitIntersectingCells :: "cell_index \<Rightarrow> cell_union \<Rightarrow> 's visitor \<Rightarrow> 's \<Rightarrow> (bool \<times> 's) option" where
  "CI_VisitIntersectingCells ix target visitor s =
     (if target = [] then Some (True, s)
      else visit_targets ix target visitor 0 RangeIt_Begin ContentsIt_init s)"

definition CI_GetIntersectingLabels :: "cell_index \<Rightarrow> cell_union \<Rightarrow> label set option" where
  "CI_GetIntersectingLabels ix target =
     map_option snd (CI_VisitIntersectingCells ix target (\<lambda>x l labels. (True, insert l labels)) {})"

end
