(* ===== verification/Cell_Index_Build.thy ===== *)
theory Cell_Index_Build
  imports Cell_Index Cell_Normalize "HOL-Library.Multiset"
begin

text \<open>
  What \<open>Build\<close> produces: the tree holds the labelled cells in the order in which they begin, and the
  parents of the contents of a range are the labelled cells that contain the range.
\<close>

section \<open>Leaf positions\<close>

lemma cell_Begin_leaf: "cell_Begin kMaxLevel = cell_at 30 0" and cell_End_leaf: "cell_End kMaxLevel = cell_at 30 num_leaves"
  by (simp_all add: Begin_at End_at num_leaves_def)

lemma unat_leaf: "p \<le> num_leaves \<Longrightarrow> unat (cell_at 30 p) = 2 * p + 1"
  by (subst unat_cell_at) (simp_all add: num_leaves_def)

lemma leaf_le_iff: "p \<le> num_leaves \<Longrightarrow> q \<le> num_leaves \<Longrightarrow> cell_at 30 p \<le> cell_at 30 q \<longleftrightarrow> p \<le> q"
  by (simp add: word_le_nat_alt unat_leaf)

lemma leaf_less_iff: "p \<le> num_leaves \<Longrightarrow> q \<le> num_leaves \<Longrightarrow> cell_at 30 p < cell_at 30 q \<longleftrightarrow> p < q"
  by (simp add: word_less_nat_alt unat_leaf)

lemma leaf_eq_iff: "p \<le> num_leaves \<Longrightarrow> q \<le> num_leaves \<Longrightarrow> cell_at 30 p = cell_at 30 q \<longleftrightarrow> p = q"
  using leaf_le_iff [of p q] leaf_le_iff [of q p] by auto

lemma cell_lo_le: "is_valid x \<Longrightarrow> cell_lo x < num_leaves"
  using cell_hi_le [of x] cell_lo_less_hi [of x] by linarith

lemma range_min_leaf: "is_valid x \<Longrightarrow> range_min x = cell_at 30 (cell_lo x)"
  using cell_lo_le [of x] by (simp add: word_unat_eq_iff unat_range_min unat_leaf)

lemma range_max_next_leaf:
  assumes "is_valid x"
  shows "cell_next (range_max x) = cell_at 30 (cell_hi x)"
proof -
  obtain l q where x: "x = cell_at l q" and l: "l \<le> 30" and q: "q < 6 * 4 ^ l" "q < 7 * 4 ^ l"
    using assms by (rule cell_span_at_cases)
  have h: "cell_hi x = (q + 1) * 4 ^ (30 - l)" using l q by (simp add: x span_at)
  have "0 < (4::nat) ^ (30 - l)" by simp
  then have p: "Suc ((q + 1) * 4 ^ (30 - l) - 1) = cell_hi x" unfolding h by simp
  have "(q + 1) * 4 ^ (30 - l) - 1 < 7 * 4 ^ 30"
    using cell_hi_le [OF assms] h by (simp add: num_leaves_def)
  then show ?thesis
    using l q h p unfolding x by (simp only: range_max_at cell_next_at order_refl Suc_eq_plus1)
qed

section \<open>Paths in the tree\<close>

definition forest :: "cell_node list \<Rightarrow> bool" where
  "forest tree \<longleftrightarrow> (\<forall>j<length tree. -1 \<le> node_parent (tree ! j) \<and> node_parent (tree ! j) < int j)"

function path :: "cell_node list \<Rightarrow> int \<Rightarrow> nat list" where
  "path tree i =
     (if 0 \<le> i \<and> nat i < length tree \<and> node_parent (tree ! nat i) < i
      then nat i # path tree (node_parent (tree ! nat i)) else [])"
  by auto
termination by (relation "measure (\<lambda>(tree, i). nat (i + 1))") auto

declare path.simps [simp del]

definition in_tree :: "cell_node list \<Rightarrow> int \<Rightarrow> bool" where
  "in_tree tree i \<longleftrightarrow> -1 \<le> i \<and> i < int (length tree)"

lemma path_done [simp]: "path tree (-1) = []"
  by (simp add: path.simps)

lemma path_step:
  "forest tree \<Longrightarrow> i < length tree \<Longrightarrow> path tree (int i) = i # path tree (node_parent (tree ! i))"
  by (subst path.simps) (simp add: forest_def)

lemma parent_in_tree:
  assumes "forest tree" "j < length tree"
  shows "node_parent (tree ! j) < int j" "in_tree tree (node_parent (tree ! j))"
proof -
  have "-1 \<le> node_parent (tree ! j) \<and> node_parent (tree ! j) < int j" using assms by (simp add: forest_def)
  then show "node_parent (tree ! j) < int j" "in_tree tree (node_parent (tree ! j))"
    using assms(2) by (auto simp: in_tree_def)
qed

lemma in_tree_cases:
  assumes "in_tree tree i"
  obtains "i = -1" | j where "i = int j" "j < length tree"
proof (cases "i = -1")
  case False
  then have "i = int (nat i)" "nat i < length tree" using assms by (auto simp: in_tree_def)
  then show ?thesis using that(2) by blast
qed (use that in simp)

lemma path_Cons:
  assumes "forest tree" "in_tree tree i" "path tree i = j # js"
  shows "i = int j \<and> j < length tree \<and> js = path tree (node_parent (tree ! j)) \<and> in_tree tree (node_parent (tree ! j))"
  using assms(2)
proof (cases rule: in_tree_cases)
  case (2 k)
  then show ?thesis using path_step [OF assms(1) 2(2)] parent_in_tree [OF assms(1) 2(2)] assms(3) by auto
qed (use assms(3) in simp)

lemma path_Nil: "forest tree \<Longrightarrow> in_tree tree i \<Longrightarrow> path tree i = [] \<Longrightarrow> i = -1"
  by (erule in_tree_cases) (auto simp: path_step)

lemma path_induct [consumes 2, case_names root node]:
  assumes "forest tree" "in_tree tree i" "P (-1)"
    and "\<And>j. j < length tree \<Longrightarrow> P (node_parent (tree ! j)) \<Longrightarrow> P (int j)"
  shows "P i"
  using assms(2)
proof (induction "nat (i + 1)" arbitrary: i rule: less_induct)
  case less
  from less.prems show ?case
  proof (cases rule: in_tree_cases)
    case (2 j)
    note p = parent_in_tree [OF assms(1) 2(2)]
    have "P (node_parent (tree ! j))" using p 2(1) by (intro less.hyps) (auto simp: in_tree_def)
    then show ?thesis using assms(4) 2 by blast
  qed (use assms(3) in simp)
qed

lemma forest_snoc:
  "forest tree \<Longrightarrow> in_tree tree (node_parent n) \<Longrightarrow> forest (tree @ [n])"
  by (auto simp: forest_def in_tree_def nth_append less_Suc_eq)

lemma path_snoc:
  assumes "forest tree" "in_tree tree i" "in_tree tree (node_parent n)"
  shows "path (tree @ [n]) i = path tree i"
  using assms(1,2)
proof (induction rule: path_induct)
  case (node j)
  have "path (tree @ [n]) (int j) = j # path (tree @ [n]) (node_parent ((tree @ [n]) ! j))"
    using path_step [OF forest_snoc [OF assms(1,3)]] node(1) by simp
  then show ?case using node path_step [OF assms(1) node(1)] by (simp add: nth_append)
qed simp

lemma path_less:
  assumes "forest tree" "in_tree tree i"
  shows "\<forall>j\<in>set (path tree i). int j \<le> i \<and> j < length tree"
  using assms
proof (induction rule: path_induct)
  case (node j)
  then show ?case using path_step [OF assms(1) node(1)] parent_in_tree(1) [OF assms(1) node(1)] by force
qed simp


section \<open>Deltas\<close>

definition node_item :: "cell_node \<Rightarrow> cellid \<times> label" where
  "node_item n = (node_cell n, node_label n)"

definition nodes_ok :: "cell_node list \<Rightarrow> bool" where
  "nodes_ok nodes \<longleftrightarrow> (\<forall>n\<in>set nodes. is_valid (node_cell n) \<and> 0 \<le> node_label n)"

definition delta_pos :: "delta \<Rightarrow> nat" where
  "delta_pos d = unat (delta_start d) div 2"

lemma delta_pos_leaf [simp]: "p \<le> num_leaves \<Longrightarrow> delta_pos (Delta (cell_at 30 p) x l) = p"
  by (simp add: delta_pos_def unat_leaf)

text \<open>The key orders the deltas as \<open>operator<\<close> does.\<close>

lemma delta_less_key: "delta_less x y \<longleftrightarrow> delta_key x < delta_key y"
proof -
  have c: "unat (NOT a) + unat a = unat (-1 :: uint64)" for a :: uint64
  proof -
    have "NOT a = -1 - a" by (simp add: not_eq_complement)
    then show ?thesis using unat_diff_word [of a "-1"] word_le_nat_alt [of a "-1"] by (simp add: word_order.extremum)
  qed
  then have n: "NOT a < NOT b \<longleftrightarrow> b < (a :: uint64)" for a b
    unfolding word_less_nat_alt using c [of a] c [of b] by linarith
  have "NOT a \<le> NOT b \<longleftrightarrow> b \<le> a" for a b :: uint64 using n [of b a] by (simp only: not_less [symmetric])
  then show ?thesis by (auto simp: delta_less_def delta_key_def less_prod_def n)
qed

lemma set_build_deltas:
  assumes "nodes_ok nodes"
  shows "set (build_deltas nodes) =
    (\<lambda>n. Delta (cell_at 30 (cell_lo (node_cell n))) (node_cell n) (node_label n)) ` set nodes \<union>
    (\<lambda>n. Delta (cell_at 30 (cell_hi (node_cell n))) cell_Sentinel (-1)) ` set nodes \<union>
    {Delta (cell_at 30 0) cell_None (-1), Delta (cell_at 30 num_leaves) cell_None (-1)}"
  using assms unfolding build_deltas_def cell_Begin_leaf cell_End_leaf
  by (auto simp: node_deltas_def nodes_ok_def range_min_leaf range_max_next_leaf)

lemma build_deltas_cases:
  assumes "nodes_ok nodes" "d \<in> set (build_deltas nodes)"
  obtains (begins) n where "n \<in> set nodes" "d = Delta (cell_at 30 (cell_lo (node_cell n))) (node_cell n) (node_label n)"
      "delta_pos d = cell_lo (node_cell n)"
    | (ends) n where "n \<in> set nodes" "d = Delta (cell_at 30 (cell_hi (node_cell n))) cell_Sentinel (-1)"
      "delta_pos d = cell_hi (node_cell n)"
    | (bound) p where "p \<le> num_leaves" "d = Delta (cell_at 30 p) cell_None (-1)" "delta_pos d = p"
proof -
  have v: "cell_hi (node_cell n) \<le> num_leaves" "cell_lo (node_cell n) \<le> num_leaves" if "n \<in> set nodes" for n
    using assms(1) that cell_hi_le [of "node_cell n"] cell_lo_le [of "node_cell n"] by (auto simp: nodes_ok_def)
  show ?thesis using assms(2) unfolding set_build_deltas [OF assms(1)]
    using that v by auto
qed

lemma delta_start_pos:
  assumes "nodes_ok nodes" "d \<in> set (build_deltas nodes)"
  shows "delta_start d = cell_at 30 (delta_pos d)" "delta_pos d \<le> num_leaves"
proof -
  have v: "cell_hi (node_cell n) \<le> num_leaves" "cell_lo (node_cell n) \<le> num_leaves" if "n \<in> set nodes" for n
    using assms(1) that cell_hi_le [of "node_cell n"] cell_lo_le [of "node_cell n"] by (auto simp: nodes_ok_def)
  show "delta_start d = cell_at 30 (delta_pos d)" "delta_pos d \<le> num_leaves"
    using assms(2) by (cases rule: build_deltas_cases [OF assms]; use v in auto)+
qed

lemma sorted_build_deltas: "sorted (map delta_key (build_deltas nodes))"
  by (simp add: build_deltas_def)

lemma Sentinel_valid:
  assumes "is_valid x"
  shows "x < cell_Sentinel"
proof -
  have "unat x \<noteq> unat cell_Sentinel"
    using assms cell_hi_le [OF assms] unat_cell [of x] cell_lo_less_hi [of x]
    by (simp add: cell_Sentinel_def num_leaves_def unsigned_minus_1_eq_mask mask_eq_exp_minus_1 del: cell_lo_less_hi)
  then have "x \<noteq> cell_Sentinel" by auto
  then show ?thesis by (simp add: cell_Sentinel_def word_order.not_eq_extremum)
qed

lemma None_less_valid: "is_valid x \<Longrightarrow> cell_None < x"
  using unat_cell [of x] cell_lo_less_hi [of x] by (simp add: cell_None_def word_less_nat_alt del: cell_lo_less_hi)

lemma mset_build_deltas:
  assumes "nodes_ok nodes"
  shows "mset (build_deltas nodes) =
    image_mset (\<lambda>n. Delta (cell_at 30 (cell_lo (node_cell n))) (node_cell n) (node_label n)) (mset nodes) +
    image_mset (\<lambda>n. Delta (cell_at 30 (cell_hi (node_cell n))) cell_Sentinel (-1)) (mset nodes) +
    {#Delta (cell_at 30 0) cell_None (-1), Delta (cell_at 30 num_leaves) cell_None (-1)#}"
proof -
  have "mset (concat (map node_deltas nodes)) =
    image_mset (\<lambda>n. Delta (cell_at 30 (cell_lo (node_cell n))) (node_cell n) (node_label n)) (mset nodes) +
    image_mset (\<lambda>n. Delta (cell_at 30 (cell_hi (node_cell n))) cell_Sentinel (-1)) (mset nodes)"
    using assms
    by (induction nodes) (auto simp: nodes_ok_def node_deltas_def range_min_leaf range_max_next_leaf)
  then show ?thesis unfolding build_deltas_def cell_Begin_leaf cell_End_leaf by simp
qed

text \<open>The deltas of one start: ends, then beginnings, then bounds.\<close>

lemma rank_split:
  assumes "sorted_wrt (\<lambda>x y. f x \<le> (f y :: nat)) xs" and "\<forall>x\<in>set xs. f x < 3"
  shows "xs = filter (\<lambda>x. f x = 0) xs @ filter (\<lambda>x. f x = 1) xs @ filter (\<lambda>x. f x = 2) xs"
  using assms
proof (induction xs)
  case (Cons x xs)
  have ih: "xs = filter (\<lambda>x. f x = 0) xs @ filter (\<lambda>x. f x = 1) xs @ filter (\<lambda>x. f x = 2) xs"
    using Cons by simp
  consider "f x = 0" | "f x = 1" "\<forall>y\<in>set xs. f y \<noteq> 0" | "f x = 2" "\<forall>y\<in>set xs. f y \<noteq> 0 \<and> f y \<noteq> 1"
  proof (cases "f x = 0 \<or> f x = 1")
    case False
    then have "f x = 2" using Cons.prems(2) by force
    then show ?thesis using that(3) Cons.prems(1) by force
  qed (use that Cons.prems(1) in force)
  then show ?case
  proof cases
    case 1
    then show ?thesis using ih by simp
  next
    case 2
    then have "filter (\<lambda>x. f x = 0) xs = []" by (simp add: filter_empty_conv)
    then show ?thesis using 2 ih by simp
  next
    case 3
    then have "filter (\<lambda>x. f x = 0) xs = []" "filter (\<lambda>x. f x = 1) xs = []" by (simp_all add: filter_empty_conv)
    then show ?thesis using 3 ih by simp
  qed
qed simp

lemma drop_smallest:
  assumes "sorted_wrt (\<lambda>x y. f x \<le> (f y :: nat)) xs" and "\<forall>x\<in>set xs. p \<le> f x"
  shows "drop (length (filter (\<lambda>x. f x = p) xs)) xs = filter (\<lambda>x. p < f x) xs"
  using assms
proof (induction xs)
  case (Cons x xs)
  show ?case
  proof (cases "f x = p")
    case False
    then have n: "\<forall>y\<in>set (x # xs). p < f y" using Cons.prems by force
    then have "filter (\<lambda>y. f y = p) (x # xs) = []" by (auto simp: filter_empty_conv)
    moreover have "filter (\<lambda>y. p < f y) (x # xs) = x # xs" using n by (simp only: filter_id_conv)
    ultimately show ?thesis by simp
  qed (use Cons in simp)
qed simp


section \<open>One start\<close>

fun build_steps :: "delta list \<Rightarrow> cell_node list \<times> int \<Rightarrow> (cell_node list \<times> int) option" where
  "build_steps [] st = Some st"
| "build_steps (d # ds) st = Option.bind (build_step d st) (build_steps ds)"

lemma build_steps_append: "build_steps (ds @ es) st = Option.bind (build_steps ds st) (build_steps es)"
proof (induction ds arbitrary: st)
  case (Cons d ds)
  then show ?case by (cases "build_step d st") auto
qed simp

lemma build_group_steps:
  "\<forall>d\<in>set G. delta_start d = s \<Longrightarrow> R = [] \<or> delta_start (hd R) \<noteq> s \<Longrightarrow>
    build_group s (G @ R) st = Option.bind (build_steps G st) (\<lambda>st. Some (R, st))"
proof (induction G arbitrary: st)
  case Nil
  then show ?case by (cases R) auto
next
  case (Cons d G)
  then show ?case by (cases "build_step d st") auto
qed

lemma build_steps_ends:
  assumes "forest tree"
  shows "in_tree tree c \<Longrightarrow> k \<le> length (path tree c) \<Longrightarrow>
    \<exists>c'. build_steps (replicate k (Delta s cell_Sentinel (-1))) (tree, c) = Some (tree, c') \<and>
      in_tree tree c' \<and> path tree c' = drop k (path tree c)"
proof (induction k arbitrary: c)
  case (Suc k)
  obtain j js where j: "path tree c = j # js" using Suc.prems(2) by (cases "path tree c") auto
  note p = path_Cons [OF assms Suc.prems(1) j]
  have "build_step (Delta s cell_Sentinel (-1)) (tree, c) = Some (tree, node_parent (tree ! j))"
    using p by (simp add: build_step_def)
  moreover have "k \<le> length (path tree (node_parent (tree ! j)))" using Suc.prems(2) p j by simp
  ultimately show ?case using Suc.IH p j by auto
qed simp

lemma build_steps_begins:
  assumes "\<forall>d\<in>set ds. 0 \<le> delta_label d"
  shows "forest tree \<Longrightarrow> in_tree tree c \<Longrightarrow>
    \<exists>ns c'. build_steps ds (tree, c) = Some (tree @ ns, c') \<and> forest (tree @ ns) \<and> in_tree (tree @ ns) c' \<and>
      map node_item ns = map (\<lambda>d. (delta_cell d, delta_label d)) ds \<and>
      path (tree @ ns) c' = rev [length tree..<length tree + length ns] @ path tree c \<and>
      (\<forall>i. in_tree tree i \<longrightarrow> path (tree @ ns) i = path tree i)"
  using assms
proof (induction ds arbitrary: tree c)
  case (Cons d ds)
  let ?n = "\<lparr>node_cell = delta_cell d, node_label = delta_label d, node_parent = c\<rparr>"
  have f: "forest (tree @ [?n])" using forest_snoc Cons.prems(1,2) by simp
  have t: "in_tree (tree @ [?n]) (int (length tree))" by (simp add: in_tree_def)
  obtain ns c' where ns: "build_steps ds (tree @ [?n], int (length tree)) = Some ((tree @ [?n]) @ ns, c')"
    "forest ((tree @ [?n]) @ ns)" "in_tree ((tree @ [?n]) @ ns) c'"
    "map node_item ns = map (\<lambda>d. (delta_cell d, delta_label d)) ds"
    "path ((tree @ [?n]) @ ns) c' = rev [length (tree @ [?n])..<length (tree @ [?n]) + length ns] @
      path (tree @ [?n]) (int (length tree))"
    "\<forall>i. in_tree (tree @ [?n]) i \<longrightarrow> path ((tree @ [?n]) @ ns) i = path (tree @ [?n]) i"
    using Cons.IH [OF f t] Cons.prems(3) by auto
  have p: "path (tree @ [?n]) (int (length tree)) = length tree # path tree c"
    using path_step [OF f, of "length tree"] path_snoc [OF Cons.prems(1,2), of ?n] Cons.prems(2) by simp
  have s: "path (tree @ [?n]) i = path tree i" "in_tree (tree @ [?n]) i" if "in_tree tree i" for i
    using path_snoc [OF Cons.prems(1) that, of ?n] Cons.prems(2) that by (auto simp: in_tree_def)
  have u: "rev [length tree..<length tree + length (?n # ns)] =
      rev [length (tree @ [?n])..<length (tree @ [?n]) + length ns] @ [length tree]"
    using upt_conv_Cons [of "length tree" "length tree + length (?n # ns)"] by (simp del: upt_Suc)
  have a: "tree @ ?n # ns = (tree @ [?n]) @ ns" by simp
  have "build_steps (d # ds) (tree, c) = Some (tree @ ?n # ns, c')"
    using ns(1) Cons.prems(3) by (simp add: build_step_def)
  moreover have "map node_item (?n # ns) = map (\<lambda>d. (delta_cell d, delta_label d)) (d # ds)"
    using ns(4) by (simp add: node_item_def)
  moreover have "path (tree @ ?n # ns) c' = rev [length tree..<length tree + length (?n # ns)] @ path tree c"
    unfolding a ns(5) u p by simp
  moreover have "\<forall>i. in_tree tree i \<longrightarrow> path (tree @ ?n # ns) i = path tree i"
    unfolding a using ns(6) s by simp
  ultimately show ?case using ns(2,3) unfolding a [symmetric] by blast
qed simp

lemma build_steps_bounds:
  "\<forall>d\<in>set ds. delta_label d = -1 \<and> delta_cell d = cell_None \<Longrightarrow> build_steps ds st = Some st"
  by (induction ds arbitrary: st) (auto simp: build_step_def cell_None_def cell_Sentinel_def split: prod.splits)


definition node_lo :: "cell_node list \<Rightarrow> nat \<Rightarrow> nat" where "node_lo tree j = cell_lo (node_cell (tree ! j))"
definition node_hi :: "cell_node list \<Rightarrow> nat \<Rightarrow> nat" where "node_hi tree j = cell_hi (node_cell (tree ! j))"

definition begin_ordered :: "cell_node list \<Rightarrow> bool" where
  "begin_ordered tree \<longleftrightarrow> sorted_wrt (\<lambda>x y. cell_lo (node_cell x) < cell_lo (node_cell y) \<or>
     cell_lo (node_cell x) = cell_lo (node_cell y) \<and> node_cell y \<le> node_cell x) tree"

definition build_inv :: "cell_node list \<Rightarrow> nat \<Rightarrow> cell_node list \<Rightarrow> int \<Rightarrow> bool" where
  "build_inv nodes q tree c \<longleftrightarrow>
     mset (map node_item tree) = filter_mset (\<lambda>it. cell_lo (fst it) < q) (mset (map node_item nodes)) \<and>
     begin_ordered tree \<and> forest tree \<and> in_tree tree c \<and>
     path tree c = rev (filter (\<lambda>j. q \<le> node_hi tree j) [0..<length tree])"

lemma tree_items:
  assumes "nodes_ok nodes" "mset (map node_item tree) = filter_mset P (mset (map node_item nodes))"
  shows "nodes_ok tree" and "n \<in> set tree \<Longrightarrow> P (node_item n)"
proof -
  have s: "set (map node_item tree) \<subseteq> set (map node_item nodes)" "\<forall>it\<in>set (map node_item tree). P it"
    using arg_cong [OF assms(2), of set_mset] by auto
  show "n \<in> set tree \<Longrightarrow> P (node_item n)" using s(2) by simp
  have "is_valid (node_cell n) \<and> 0 \<le> node_label n" if "n \<in> set tree" for n
  proof -
    obtain m where "m \<in> set nodes" "node_item n = node_item m" using s(1) \<open>n \<in> set tree\<close> by auto
    then show ?thesis using assms(1) by (auto simp: nodes_ok_def node_item_def)
  qed
  then show "nodes_ok tree" by (simp add: nodes_ok_def)
qed

lemma open_nested:
  assumes "nodes_ok tree" "begin_ordered tree" "i < j" "j < length tree" "node_lo tree i \<le> p" "p < node_hi tree i"
    "node_lo tree j \<le> p" "p < node_hi tree j"
  shows "node_hi tree j \<le> node_hi tree i"
proof -
  have v: "is_valid (node_cell (tree ! i))" "is_valid (node_cell (tree ! j))"
    using assms(1,3,4) by (auto simp: nodes_ok_def)
  have o: "node_lo tree i < node_lo tree j \<or> node_lo tree i = node_lo tree j \<and> node_cell (tree ! j) \<le> node_cell (tree ! i)"
    using assms(2-4) sorted_wrt_nth_less unfolding begin_ordered_def node_lo_def by blast
  have "node_lo tree j + node_hi tree j \<le> node_lo tree i + node_hi tree i"
    if "node_cell (tree ! j) \<le> node_cell (tree ! i)"
    using that v unat_cell [of "node_cell (tree ! i)"] unat_cell [of "node_cell (tree ! j)"]
    by (simp add: word_le_nat_alt node_lo_def node_hi_def)
  then show ?thesis
    using o laminar [of "node_cell (tree ! i)" "node_cell (tree ! j)"] v assms(5-8)
    unfolding node_lo_def node_hi_def by fastforce
qed

lemma length_filter_mset: "length (filter P xs) = size (filter_mset P (mset xs))"
  by (simp flip: mset_filter)

lemma filter_upt_length: "length (filter (\<lambda>j. P (xs ! j)) [0..<length xs]) = length (filter P xs)"
proof -
  have "length (filter P (map ((!) xs) [0..<length xs])) = length (filter (\<lambda>j. P (xs ! j)) [0..<length xs])"
    by (simp add: filter_map comp_def)
  then show ?thesis by (simp add: map_nth)
qed

lemma end_count:
  assumes "nodes_ok nodes" "p \<le> num_leaves"
    and "mset (map node_item tree) = filter_mset (\<lambda>it. cell_lo (fst it) < p) (mset (map node_item nodes))"
  shows "length (filter (\<lambda>d. delta_cell d = cell_Sentinel) (filter (\<lambda>d. delta_pos d = p) (build_deltas nodes))) =
    length (filter (\<lambda>j. node_hi tree j = p) [0..<length tree])"
proof -
  let ?e = "\<lambda>n. Delta (cell_at 30 (cell_hi (node_cell n))) cell_Sentinel (-1)"
  let ?b = "\<lambda>n. Delta (cell_at 30 (cell_lo (node_cell n))) (node_cell n) (node_label n)"
  let ?P = "\<lambda>d. delta_pos d = p \<and> delta_cell d = cell_Sentinel"
  have v: "cell_hi (node_cell n) \<le> num_leaves" "node_cell n \<noteq> cell_Sentinel" if "n \<in> set nodes" for n
    using assms(1) that cell_hi_le [of "node_cell n"] Sentinel_valid [of "node_cell n"] by (auto simp: nodes_ok_def)
  have "filter_mset ?P (image_mset ?e (mset nodes)) = image_mset ?e (filter_mset (\<lambda>n. cell_hi (node_cell n) = p) (mset nodes))"
    unfolding filter_mset_image_mset using v by (intro arg_cong [where f = "image_mset ?e"] filter_mset_cong) auto
  moreover have "filter_mset ?P (image_mset ?b (mset nodes)) = {#}"
    unfolding filter_mset_image_mset using v by (auto simp: filter_mset_eq_conv)
  moreover have "cell_None \<noteq> cell_Sentinel" by (simp add: cell_None_def cell_Sentinel_def)
  ultimately have "size (filter_mset ?P (mset (build_deltas nodes))) = size (filter_mset (\<lambda>n. cell_hi (node_cell n) = p) (mset nodes))"
    unfolding mset_build_deltas [OF assms(1)] by simp
  also have "\<dots> = size (filter_mset (\<lambda>it. cell_hi (fst it) = p) (mset (map node_item nodes)))"
    by (simp add: filter_mset_image_mset node_item_def)
  also have "filter_mset (\<lambda>it. cell_hi (fst it) = p) (mset (map node_item nodes)) =
      filter_mset (\<lambda>it. cell_hi (fst it) = p) (mset (map node_item tree))"
    unfolding assms(3) filter_filter_mset
    by (intro filter_mset_cong) (use cell_lo_less_hi in auto)
  also have "size \<dots> = length (filter (\<lambda>n. cell_hi (node_cell n) = p) tree)"
    by (simp add: length_filter_mset filter_mset_image_mset node_item_def)
  also have "\<dots> = length (filter (\<lambda>j. node_hi tree j = p) [0..<length tree])"
    unfolding node_hi_def by (rule filter_upt_length [symmetric])
  finally show ?thesis unfolding filter_filter length_filter_mset [where xs = "build_deltas nodes"] .
qed


lemma begin_items:
  assumes "nodes_ok nodes" "p \<le> num_leaves"
  shows "filter_mset (\<lambda>d. delta_pos d = p \<and> 0 \<le> delta_label d) (mset (build_deltas nodes)) =
    image_mset (\<lambda>it. Delta (cell_at 30 (cell_lo (fst it))) (fst it) (snd it))
      (filter_mset (\<lambda>it. cell_lo (fst it) = p) (mset (map node_item nodes)))"
proof -
  let ?e = "\<lambda>n. Delta (cell_at 30 (cell_hi (node_cell n))) cell_Sentinel (-1)"
  let ?b = "\<lambda>n. Delta (cell_at 30 (cell_lo (node_cell n))) (node_cell n) (node_label n)"
  let ?P = "\<lambda>d. delta_pos d = p \<and> 0 \<le> delta_label d"
  have v: "cell_lo (node_cell n) \<le> num_leaves" "0 \<le> node_label n" if "n \<in> set nodes" for n
    using assms(1) that cell_lo_le [of "node_cell n"] by (auto simp: nodes_ok_def)
  have "filter_mset ?P (image_mset ?b (mset nodes)) = image_mset ?b (filter_mset (\<lambda>n. cell_lo (node_cell n) = p) (mset nodes))"
    unfolding filter_mset_image_mset using v by (intro arg_cong [where f = "image_mset ?b"] filter_mset_cong) auto
  moreover have "filter_mset ?P (image_mset ?e (mset nodes)) = {#}"
    unfolding filter_mset_image_mset by (auto simp: filter_mset_eq_conv)
  ultimately show ?thesis
    unfolding mset_build_deltas [OF assms(1)]
    by (simp add: filter_mset_image_mset node_item_def image_mset.compositionality comp_def)
qed

definition delta_rank :: "delta \<Rightarrow> nat" where
  "delta_rank d = (if delta_cell d = cell_Sentinel then 0 else if 0 \<le> delta_label d then 1 else 2)"

lemma rank_mono:
  assumes "nodes_ok nodes" "d \<in> set (build_deltas nodes)" "d' \<in> set (build_deltas nodes)"
    and "delta_pos d = delta_pos d'" "delta_key d \<le> delta_key d'"
  shows "delta_rank d \<le> delta_rank d'"
proof -
  have s: "delta_start d = delta_start d'" using delta_start_pos(1) [OF assms(1)] assms(2-4) by simp
  have "\<not> delta_less d' d" using assms(5) by (simp add: delta_less_key not_less)
  then have k: "delta_cell d' \<le> delta_cell d" using s by (auto simp: delta_less_def split: if_splits)
  have v: "is_valid (node_cell n)" "0 \<le> node_label n" if "n \<in> set nodes" for n
    using assms(1) that by (auto simp: nodes_ok_def)
  have nv: "\<not> node_cell n \<le> cell_None" "\<not> cell_Sentinel \<le> node_cell n" "node_cell n \<noteq> cell_Sentinel" if "n \<in> set nodes" for n
    using None_less_valid [OF v(1) [OF that]] Sentinel_valid [OF v(1) [OF that]] by auto
  have ns: "\<not> cell_Sentinel \<le> cell_None" "cell_None \<noteq> cell_Sentinel" by (simp_all add: cell_None_def cell_Sentinel_def)
  show ?thesis
    using k by (cases rule: build_deltas_cases [OF assms(1,2)]; cases rule: build_deltas_cases [OF assms(1,3)])
      (auto simp: delta_rank_def nv ns v)
qed

lemma pops:
  assumes "nodes_ok tree" "begin_ordered tree" "\<forall>j<length tree. node_lo tree j < p"
  shows "drop (length (filter (\<lambda>j. node_hi tree j = p) [0..<length tree])) (rev (filter (\<lambda>j. p \<le> node_hi tree j) [0..<length tree])) =
    rev (filter (\<lambda>j. p < node_hi tree j) [0..<length tree])"
proof -
  let ?A = "rev (filter (\<lambda>j. p \<le> node_hi tree j) [0..<length tree])"
  have "sorted_wrt (\<lambda>i j. node_hi tree j \<le> node_hi tree i) (filter (\<lambda>j. p \<le> node_hi tree j) [0..<length tree])"
    unfolding sorted_wrt_iff_nth_less
  proof (intro allI impI)
    let ?B = "filter (\<lambda>j. p \<le> node_hi tree j) [0..<length tree]"
    fix a b assume ab: "a < b" "b < length ?B"
    have "sorted_wrt (<) ?B" by (rule sorted_wrt_filter) simp
    then have l: "?B ! a < ?B ! b" using ab by (rule sorted_wrt_nth_less)
    have m: "?B ! a \<in> set ?B" "?B ! b \<in> set ?B"
      by (rule nth_mem, use ab in linarith)+
    have mem: "x < length tree \<and> p \<le> node_hi tree x" if "x \<in> set ?B" for x using that by simp
    then have n: "node_lo tree (?B ! a) < p" "node_lo tree (?B ! b) < p" "p \<le> node_hi tree (?B ! a)" "p \<le> node_hi tree (?B ! b)"
      "?B ! b < length tree" using assms(3) mem [OF m(1)] mem [OF m(2)] by blast+
    then show "node_hi tree (?B ! b) \<le> node_hi tree (?B ! a)"
      using open_nested [OF assms(1,2) l n(5), of "p - 1"] by linarith
  qed
  then have "sorted_wrt (\<lambda>i j. node_hi tree i \<le> node_hi tree j) ?A" by (simp add: sorted_wrt_rev)
  from drop_smallest [OF this, of p]
  have "drop (length (filter (\<lambda>j. node_hi tree j = p) ?A)) ?A = filter (\<lambda>j. p < node_hi tree j) ?A" by simp
  moreover have "filter (\<lambda>j. node_hi tree j = p) ?A = rev (filter (\<lambda>j. node_hi tree j = p) [0..<length tree])"
    unfolding rev_filter [symmetric] filter_filter by (intro arg_cong [where f = rev] filter_cong) auto
  moreover have "filter (\<lambda>j. p < node_hi tree j) ?A = rev (filter (\<lambda>j. p < node_hi tree j) [0..<length tree])"
    unfolding rev_filter [symmetric] filter_filter by (intro arg_cong [where f = rev] filter_cong) auto
  ultimately show ?thesis by simp
qed

lemma begin_ordered_append:
  assumes "begin_ordered tree" "\<forall>n\<in>set tree. cell_lo (node_cell n) < p" "\<forall>n\<in>set ns. cell_lo (node_cell n) = p"
    and "sorted_wrt (\<lambda>x y. node_cell y \<le> node_cell x) ns"
  shows "begin_ordered (tree @ ns)"
proof -
  have "begin_ordered ns" unfolding begin_ordered_def
    using assms(4) by (rule sorted_wrt_mono_rel [rotated]) (use assms(3) in auto)
  then show ?thesis using assms(1-3) by (auto simp: begin_ordered_def sorted_wrt_append)
qed

lemma group_step:
  assumes ok: "nodes_ok nodes" "p \<le> num_leaves" and inv: "build_inv nodes p tree c"
  shows "\<exists>ns c'. build_steps (filter (\<lambda>d. delta_pos d = p) (build_deltas nodes)) (tree, c) = Some (tree @ ns, c') \<and>
    build_inv nodes (Suc p) (tree @ ns) c' \<and> (\<forall>n\<in>set ns. cell_lo (node_cell n) = p) \<and>
    (\<forall>i. in_tree tree i \<longrightarrow> path (tree @ ns) i = path tree i)"
proof -
  define G where "G = filter (\<lambda>d. delta_pos d = p) (build_deltas nodes)"
  have i: "mset (map node_item tree) = filter_mset (\<lambda>it. cell_lo (fst it) < p) (mset (map node_item nodes))"
    "begin_ordered tree" "forest tree" "in_tree tree c"
    "path tree c = rev (filter (\<lambda>j. p \<le> node_hi tree j) [0..<length tree])"
    using inv by (simp_all add: build_inv_def)
  note t = tree_items [OF ok(1) i(1)]
  have lo: "\<forall>n\<in>set tree. cell_lo (node_cell n) < p" using t(2) by (force simp: node_item_def)
  have G: "d \<in> set (build_deltas nodes)" "delta_pos d = p" "delta_start d = cell_at 30 p" if "d \<in> set G" for d
    using that delta_start_pos(1) [OF ok(1), of d] by (auto simp: G_def)
  have sorted: "sorted_wrt (\<lambda>x y. delta_key x \<le> delta_key y) G"
    using sorted_build_deltas [of nodes] unfolding G_def sorted_map by (rule sorted_wrt_filter)
  have "sorted_wrt (\<lambda>x y. delta_rank x \<le> delta_rank y) G"
    using sorted by (rule sorted_wrt_mono_rel [rotated]) (use G rank_mono [OF ok(1)] in auto)
  from rank_split [OF this] have split: "G = filter (\<lambda>d. delta_rank d = 0) G @ filter (\<lambda>d. delta_rank d = 1) G @ filter (\<lambda>d. delta_rank d = 2) G"
    by (simp add: delta_rank_def)
  define E where "E = Delta (cell_at 30 p) cell_Sentinel (-1)"
  define C O' N where "C = filter (\<lambda>d. delta_rank d = 0) G" and "O' = filter (\<lambda>d. delta_rank d = 1) G" and "N = filter (\<lambda>d. delta_rank d = 2) G"
  have sp: "G = C @ O' @ N" using split by (simp only: C_def O'_def N_def)
  have v: "is_valid (node_cell n)" "0 \<le> node_label n" "node_cell n \<noteq> cell_Sentinel" if "n \<in> set nodes" for n
    using ok(1) that Sentinel_valid [of "node_cell n"] by (auto simp: nodes_ok_def)
  have ns: "cell_None \<noteq> cell_Sentinel" by (simp add: cell_None_def cell_Sentinel_def)
  have kinds: "(delta_rank d = 0 \<longrightarrow> d = E) \<and> (delta_rank d = 1 \<longrightarrow> 0 \<le> delta_label d \<and> is_valid (delta_cell d) \<and> cell_lo (delta_cell d) = p) \<and>
      (delta_rank d = 2 \<longrightarrow> delta_label d = -1 \<and> delta_cell d = cell_None)" if d: "d \<in> set G" for d
    using G(2,3) [OF d] by (cases rule: build_deltas_cases [OF ok(1) G(1) [OF d]]) (auto simp: delta_rank_def E_def v ns)
  have C: "C = replicate (length C) E"
    using kinds by (intro replicate_length_same [symmetric]) (auto simp: C_def)
  have "C = filter (\<lambda>d. delta_cell d = cell_Sentinel) G" by (auto simp: C_def delta_rank_def intro: filter_cong)
  then have lc: "length C = length (filter (\<lambda>j. node_hi tree j = p) [0..<length tree])"
    unfolding G_def using end_count [OF ok i(1)] by simp
  have "length C \<le> length (path tree c)"
  proof -
    have "filter (\<lambda>j. node_hi tree j = p) [0..<length tree] =
        filter (\<lambda>j. node_hi tree j = p) (filter (\<lambda>j. p \<le> node_hi tree j) [0..<length tree])"
      unfolding filter_filter by (intro filter_cong) auto
    then show ?thesis unfolding lc i(5) length_rev by (metis length_filter_le)
  qed
  from build_steps_ends [OF i(3,4) this, of "cell_at 30 p"] obtain c1 where
    c1: "build_steps C (tree, c) = Some (tree, c1)" "in_tree tree c1" "path tree c1 = drop (length C) (path tree c)"
    unfolding E_def [symmetric] C [symmetric] by blast
  have "\<forall>j<length tree. node_lo tree j < p" using lo by (simp add: node_lo_def)
  from pops [OF t(1) i(2) this] have p1: "path tree c1 = rev (filter (\<lambda>j. p < node_hi tree j) [0..<length tree])"
    unfolding c1(3) lc i(5) .
  have "\<forall>d\<in>set O'. 0 \<le> delta_label d" using kinds by (auto simp: O'_def)
  from build_steps_begins [OF this i(3) c1(2)] obtain ns c2 where
    n: "build_steps O' (tree, c1) = Some (tree @ ns, c2)" "forest (tree @ ns)" "in_tree (tree @ ns) c2"
      "map node_item ns = map (\<lambda>d. (delta_cell d, delta_label d)) O'"
      "path (tree @ ns) c2 = rev [length tree..<length tree + length ns] @ path tree c1"
      "\<forall>i. in_tree tree i \<longrightarrow> path (tree @ ns) i = path tree i" by blast
  have "build_steps N (tree @ ns, c2) = Some (tree @ ns, c2)"
    using kinds by (intro build_steps_bounds) (auto simp: N_def)
  then have b: "build_steps G (tree, c) = Some (tree @ ns, c2)"
    unfolding sp build_steps_append using c1(1) n(1) by simp
  have cells: "map node_cell ns = map delta_cell O'"
    using arg_cong [OF n(4), of "map fst"] by (simp add: node_item_def comp_def)
  have nlo: "\<forall>n\<in>set ns. cell_lo (node_cell n) = p \<and> is_valid (node_cell n)"
  proof
    fix n assume "n \<in> set ns"
    then have "node_cell n \<in> set (map delta_cell O')" unfolding cells [symmetric] by simp
    then show "cell_lo (node_cell n) = p \<and> is_valid (node_cell n)" using kinds by (auto simp: O'_def)
  qed
  have "sorted_wrt (\<lambda>x y. delta_cell y \<le> delta_cell x) O'"
  proof (rule sorted_wrt_mono_rel [OF _ sorted_wrt_filter [OF sorted, of "\<lambda>d. delta_rank d = 1", folded O'_def]])
    fix x y assume "x \<in> set O'" "y \<in> set O'" "delta_key x \<le> delta_key y"
    then have "\<not> delta_less y x" "delta_start x = delta_start y" using G(3) by (auto simp: delta_less_key O'_def)
    then show "delta_cell y \<le> delta_cell x" by (auto simp: delta_less_def split: if_splits)
  qed
  then have "sorted_wrt (\<lambda>x y. y \<le> x) (map delta_cell O')" by (simp add: sorted_wrt_map)
  then have so: "sorted_wrt (\<lambda>x y. node_cell y \<le> node_cell x) ns" unfolding cells [symmetric] by (simp add: sorted_wrt_map)
  have ord: "begin_ordered (tree @ ns)" using begin_ordered_append [OF i(2) lo _ so] nlo by blast
  have "mset (map node_item ns) = image_mset (\<lambda>d. (delta_cell d, delta_label d)) (mset O')" unfolding n(4) by simp
  also have "mset O' = filter_mset (\<lambda>d. delta_pos d = p \<and> 0 \<le> delta_label d) (mset (build_deltas nodes))"
  proof -
    have "O' = filter (\<lambda>d. 0 \<le> delta_label d) G"
      unfolding O'_def
    proof (intro filter_cong refl)
      fix d assume "d \<in> set G"
      from kinds [OF this] show "delta_rank d = 1 \<longleftrightarrow> 0 \<le> delta_label d"
        by (auto simp: delta_rank_def E_def split: if_splits)
    qed
    then show ?thesis unfolding G_def by (simp add: filter_filter_mset conj_commute)
  qed
  also have "image_mset (\<lambda>d. (delta_cell d, delta_label d)) \<dots> = filter_mset (\<lambda>it. cell_lo (fst it) = p) (mset (map node_item nodes))"
    unfolding begin_items [OF ok] by (simp add: image_mset.compositionality comp_def)
  finally have "mset (map node_item (tree @ ns)) = filter_mset (\<lambda>it. cell_lo (fst it) < p) (mset (map node_item nodes)) +
      filter_mset (\<lambda>it. cell_lo (fst it) = p) (mset (map node_item nodes))" using i(1) by simp
  also have "\<dots> = filter_mset (\<lambda>it. cell_lo (fst it) < Suc p) (mset (map node_item nodes))"
    by (rule multiset_eqI) (auto simp: less_Suc_eq)
  finally have ms: "mset (map node_item (tree @ ns)) = filter_mset (\<lambda>it. cell_lo (fst it) < Suc p) (mset (map node_item nodes))" .
  have "path (tree @ ns) c2 = rev (filter (\<lambda>j. Suc p \<le> node_hi (tree @ ns) j) [0..<length (tree @ ns)])"
  proof -
    have a: "filter (\<lambda>j. Suc p \<le> node_hi (tree @ ns) j) [0..<length tree] = filter (\<lambda>j. p < node_hi tree j) [0..<length tree]"
      by (intro filter_cong) (auto simp: node_hi_def nth_append)
    have b: "filter (\<lambda>j. Suc p \<le> node_hi (tree @ ns) j) [length tree..<length tree + length ns] = [length tree..<length tree + length ns]"
    proof (intro filter_True ballI)
      fix j assume j: "j \<in> set [length tree..<length tree + length ns]"
      then have "ns ! (j - length tree) \<in> set ns" by auto
      then show "Suc p \<le> node_hi (tree @ ns) j"
        using nlo cell_lo_less_hi [of "node_cell (ns ! (j - length tree))"] j by (auto simp: node_hi_def nth_append)
    qed
    have "[0..<length (tree @ ns)] = [0..<length tree] @ [length tree..<length tree + length ns]"
      using upt_add_eq_append [of 0 "length tree" "length ns"] by simp
    then have "filter (\<lambda>j. Suc p \<le> node_hi (tree @ ns) j) [0..<length (tree @ ns)] =
        filter (\<lambda>j. p < node_hi tree j) [0..<length tree] @ [length tree..<length tree + length ns]"
      by (simp only: filter_append a b)
    then show ?thesis unfolding n(5) p1 by (simp only: rev_append)
  qed
  then have "build_inv nodes (Suc p) (tree @ ns) c2" unfolding build_inv_def using ms ord n(2,3) by (intro conjI)
  then show ?thesis using b nlo n(6) unfolding G_def by (intro exI [of _ ns] exI [of _ c2] conjI) (blast | assumption)+
qed


section \<open>All starts\<close>

lemma nodes_ok_delta_pos:
  assumes "nodes_ok nodes"
  shows "delta_pos ` set (build_deltas nodes) =
    (cell_lo \<circ> node_cell) ` set nodes \<union> (cell_hi \<circ> node_cell) ` set nodes \<union> {0, num_leaves}"
proof -
  have v: "cell_hi (node_cell n) \<le> num_leaves" "cell_lo (node_cell n) \<le> num_leaves" if "n \<in> set nodes" for n
    using assms that cell_hi_le [of "node_cell n"] cell_lo_le [of "node_cell n"] by (auto simp: nodes_ok_def)
  then show ?thesis unfolding set_build_deltas [OF assms] image_Un image_image
    by (intro arg_cong2 [where f = "(\<union>)"] image_cong) (auto simp: comp_def)
qed

lemma build_inv_advance:
  assumes "nodes_ok nodes" "build_inv nodes q tree c" "q \<le> p" "\<forall>d\<in>set (build_deltas nodes). q \<le> delta_pos d \<longrightarrow> p \<le> delta_pos d"
  shows "build_inv nodes p tree c"
proof -
  have i: "mset (map node_item tree) = filter_mset (\<lambda>it. cell_lo (fst it) < q) (mset (map node_item nodes))"
    "begin_ordered tree" "forest tree" "in_tree tree c" "path tree c = rev (filter (\<lambda>j. q \<le> node_hi tree j) [0..<length tree])"
    using assms(2) by (simp_all add: build_inv_def)
  have far: "q \<le> x \<longleftrightarrow> p \<le> x" if "x = cell_lo (node_cell n) \<or> x = cell_hi (node_cell n)" "n \<in> set nodes" for x n
  proof -
    have "x \<in> delta_pos ` set (build_deltas nodes)" unfolding nodes_ok_delta_pos [OF assms(1)] using that by auto
    then show ?thesis using assms(3,4) by force
  qed
  have "mset (map node_item tree) = filter_mset (\<lambda>it. cell_lo (fst it) < p) (mset (map node_item nodes))"
    unfolding i(1)
  proof (intro filter_mset_cong refl)
    fix it assume "it \<in># mset (map node_item nodes)"
    then obtain n where "n \<in> set nodes" "fst it = node_cell n" by (auto simp: node_item_def)
    then show "cell_lo (fst it) < q \<longleftrightarrow> cell_lo (fst it) < p" using far [of "cell_lo (fst it)" n] by (simp add: not_le [symmetric])
  qed
  moreover have "filter (\<lambda>j. q \<le> node_hi tree j) [0..<length tree] = filter (\<lambda>j. p \<le> node_hi tree j) [0..<length tree]"
  proof (intro filter_cong refl)
    fix j assume "j \<in> set [0..<length tree]"
    then have "node_item (tree ! j) \<in> set_mset (mset (map node_item tree))" by simp
    then obtain n where "n \<in> set nodes" "node_item n = node_item (tree ! j)" unfolding i(1) by auto
    then show "q \<le> node_hi tree j \<longleftrightarrow> p \<le> node_hi tree j"
      using far [of "node_hi tree j" n] by (simp add: node_hi_def node_item_def)
  qed
  ultimately show ?thesis using i by (simp add: build_inv_def)
qed

definition range_pos :: "range_node \<Rightarrow> nat" where
  "range_pos r = unat (range_start r) div 2"

text \<open>A range lists the nodes that contain it, the last one first.\<close>

definition range_ok :: "cell_node list \<Rightarrow> range_node \<Rightarrow> bool" where
  "range_ok tree r \<longleftrightarrow> range_start r = cell_at 30 (range_pos r) \<and> range_pos r \<le> num_leaves \<and> in_tree tree (range_contents r) \<and>
     path tree (range_contents r) =
       rev (filter (\<lambda>j. node_lo tree j \<le> range_pos r \<and> range_pos r < node_hi tree j) [0..<length tree])"

lemma range_ok_append:
  assumes "build_inv nodes (Suc p) tree c" "\<forall>n\<in>set ms. p < cell_lo (node_cell n)" "path (tree @ ms) c = path tree c" "p \<le> num_leaves"
  shows "range_ok (tree @ ms) \<lparr>range_start = cell_at 30 p, range_contents = c\<rparr>"
proof -
  have i: "mset (map node_item tree) = filter_mset (\<lambda>it. cell_lo (fst it) < Suc p) (mset (map node_item nodes))"
     "in_tree tree c" "path tree c = rev (filter (\<lambda>j. Suc p \<le> node_hi tree j) [0..<length tree])"
    using assms(1) by (simp_all add: build_inv_def)
  have lo: "node_lo tree j \<le> p" if "j < length tree" for j
  proof -
    have "node_item (tree ! j) \<in> set_mset (mset (map node_item tree))" using that by simp
    then show ?thesis unfolding i(1) by (auto simp: node_lo_def node_item_def)
  qed
  let ?P = "\<lambda>j. node_lo (tree @ ms) j \<le> p \<and> p < node_hi (tree @ ms) j"
  have a: "filter ?P [0..<length tree] = filter (\<lambda>j. Suc p \<le> node_hi tree j) [0..<length tree]"
    by (intro filter_cong) (use lo in \<open>auto simp: node_hi_def node_lo_def nth_append\<close>)
  have b: "filter ?P [length tree..<length tree + length ms] = []"
  proof (intro filter_False ballI)
    fix j assume j: "j \<in> set [length tree..<length tree + length ms]"
    then have "ms ! (j - length tree) \<in> set ms" by auto
    then show "\<not> ?P j" using assms(2) j by (auto simp: node_lo_def nth_append)
  qed
  have "[0..<length (tree @ ms)] = [0..<length tree] @ [length tree..<length tree + length ms]"
    using upt_add_eq_append [of 0 "length tree" "length ms"] by simp
  then have "filter ?P [0..<length (tree @ ms)] = filter (\<lambda>j. Suc p \<le> node_hi tree j) [0..<length tree]"
    by (simp only: filter_append a b append_Nil2)
  then show ?thesis using i assms(3,4) by (auto simp: range_ok_def range_pos_def unat_leaf in_tree_def)
qed

lemma build_loop_Nil: "build_loop [] st ranges = Some (fst st, ranges)"
  by (subst build_loop.simps) simp

lemma build_loop_Cons:
  "build_group (delta_start d) (d # ds) st = Some (ds', st') \<Longrightarrow>
    build_loop (d # ds) st ranges = build_loop ds' st' (ranges @ [\<lparr>range_start = delta_start d, range_contents = snd st'\<rparr>])"
  by (subst build_loop.simps) simp

lemma split_sorted:
  assumes "sorted_wrt (\<lambda>x y. f x \<le> (f y :: nat)) xs"
  shows "filter (\<lambda>x. q \<le> f x) xs = filter (\<lambda>x. f x = q) xs @ filter (\<lambda>x. Suc q \<le> f x) xs"
  using assms
proof (induction xs)
  case (Cons x xs)
  show ?case
  proof (cases "f x = q")
    case False
    consider "f x < q" | "\<forall>y\<in>set (x # xs). q < f y" using False Cons.prems by force
    then show ?thesis
    proof cases
      case 2
      then have "filter (\<lambda>x. f x = q) (x # xs) = []" "filter (\<lambda>x. q \<le> f x) (x # xs) = x # xs"
          "filter (\<lambda>x. Suc q \<le> f x) (x # xs) = x # xs"
        unfolding filter_id_conv filter_empty_conv by (force simp: Suc_le_eq)+
      then show ?thesis by (simp only: append_Nil)
    qed (use Cons in simp)
  qed (use Cons in simp)
qed simp

lemma build_deltas_pos_sorted:
  assumes "nodes_ok nodes"
  shows "sorted_wrt (\<lambda>x y. delta_pos x \<le> delta_pos y) (build_deltas nodes)"
proof (rule sorted_wrt_mono_rel [OF _ sorted_build_deltas [of nodes, unfolded sorted_map]])
  fix x y assume xy: "x \<in> set (build_deltas nodes)" "y \<in> set (build_deltas nodes)" "delta_key x \<le> delta_key y"
  then have "delta_start x \<le> delta_start y" by (auto simp: delta_key_def less_eq_prod_def split: if_splits)
  then show "delta_pos x \<le> delta_pos y" by (simp add: delta_pos_def word_le_nat_alt div_le_mono)
qed

lemma build_loop_correct:
  assumes ok: "nodes_ok nodes"
  shows "build_inv nodes q tree c \<Longrightarrow> q \<le> Suc num_leaves \<Longrightarrow>
    \<exists>ms rs c'. build_loop (filter (\<lambda>d. q \<le> delta_pos d) (build_deltas nodes)) (tree, c) ranges = Some (tree @ ms, ranges @ rs) \<and>
      build_inv nodes (Suc num_leaves) (tree @ ms) c' \<and> (\<forall>n\<in>set ms. q \<le> cell_lo (node_cell n)) \<and>
      (\<forall>i. in_tree tree i \<longrightarrow> path (tree @ ms) i = path tree i) \<and> sorted_wrt (<) (map range_pos rs) \<and>
      range_pos ` set rs = delta_pos ` set (filter (\<lambda>d. q \<le> delta_pos d) (build_deltas nodes)) \<and>
      (\<forall>r\<in>set rs. range_ok (tree @ ms) r)"
proof (induction "Suc num_leaves - q" arbitrary: q tree c ranges rule: less_induct)
  case less
  let ?D = "\<lambda>q. filter (\<lambda>d. q \<le> delta_pos d) (build_deltas nodes)"
  note sorted = build_deltas_pos_sorted [OF ok]
  show ?case
  proof (cases "?D q")
    case Nil
    then have "build_inv nodes (Suc num_leaves) tree c"
      by (intro build_inv_advance [OF ok less.prems]) (auto simp: filter_empty_conv)
    then show ?thesis unfolding Nil build_loop_Nil
      by (intro exI [of _ "[]"] exI [of _ c]) simp
  next
    case (Cons d ds)
    define p where "p = delta_pos d"
    have d: "d \<in> set (build_deltas nodes)" "q \<le> p"
      using arg_cong [OF Cons, of set] unfolding p_def by auto
    have first: "p \<le> delta_pos e" if "e \<in> set (?D q)" for e
      using sorted_wrt_filter [OF sorted, of "\<lambda>d. q \<le> delta_pos d"] that unfolding Cons p_def by auto
    have p: "p \<le> num_leaves" "delta_start d = cell_at 30 p" using delta_start_pos [OF ok d(1)] by (simp_all add: p_def)
    have "?D q = ?D p" by (intro filter_cong refl) (use first d(2) in auto)
    also have "\<dots> = filter (\<lambda>d. delta_pos d = p) (build_deltas nodes) @ ?D (Suc p)" by (rule split_sorted [OF sorted])
    finally have D: "?D q = filter (\<lambda>d. delta_pos d = p) (build_deltas nodes) @ ?D (Suc p)" .
    have "build_inv nodes p tree c"
      by (intro build_inv_advance [OF ok less.prems(1) d(2)]) (use first in auto)
    from group_step [OF ok p(1) this] obtain ns c1 where
      n: "build_steps (filter (\<lambda>d. delta_pos d = p) (build_deltas nodes)) (tree, c) = Some (tree @ ns, c1)"
        "build_inv nodes (Suc p) (tree @ ns) c1" "\<forall>n\<in>set ns. cell_lo (node_cell n) = p"
        "\<forall>i. in_tree tree i \<longrightarrow> path (tree @ ns) i = path tree i" by (elim exE conjE)
    have start: "delta_start e = cell_at 30 (delta_pos e)" "delta_pos e \<le> num_leaves" if "e \<in> set (build_deltas nodes)" for e
      using delta_start_pos [OF ok that] by simp_all
    have g: "build_group (delta_start d) (?D q) (tree, c) = Some (?D (Suc p), (tree @ ns, c1))"
      unfolding D
    proof (rule trans [OF build_group_steps])
      show "\<forall>e\<in>set (filter (\<lambda>d. delta_pos d = p) (build_deltas nodes)). delta_start e = delta_start d"
        using start p by simp
      show "?D (Suc p) = [] \<or> delta_start (hd (?D (Suc p))) \<noteq> delta_start d"
      proof (intro disjCI, rule ccontr)
        assume "\<not> delta_start (hd (?D (Suc p))) \<noteq> delta_start d" "?D (Suc p) \<noteq> []"
        then have "hd (?D (Suc p)) \<in> set (?D (Suc p))" "delta_start (hd (?D (Suc p))) = delta_start d" by (simp_all del: set_filter)
        then show False using start p by (auto simp: leaf_eq_iff)
      qed
    qed (simp add: n(1))
    have step: "build_loop (?D q) (tree, c) ranges =
        build_loop (?D (Suc p)) (tree @ ns, c1) (ranges @ [\<lparr>range_start = cell_at 30 p, range_contents = c1\<rparr>])"
      using build_loop_Cons [OF g [unfolded Cons], of ranges] unfolding Cons by (simp only: snd_conv p(2))
    have "Suc num_leaves - Suc p < Suc num_leaves - q" "Suc p \<le> Suc num_leaves" using d(2) p(1) by linarith+
    from less.hyps [OF this(1) n(2) this(2), of "ranges @ [\<lparr>range_start = cell_at 30 p, range_contents = c1\<rparr>]"] obtain ms rs c2 where
      m: "build_loop (?D (Suc p)) (tree @ ns, c1) (ranges @ [\<lparr>range_start = cell_at 30 p, range_contents = c1\<rparr>]) =
          Some ((tree @ ns) @ ms, (ranges @ [\<lparr>range_start = cell_at 30 p, range_contents = c1\<rparr>]) @ rs)"
        "build_inv nodes (Suc num_leaves) ((tree @ ns) @ ms) c2" "\<forall>n\<in>set ms. Suc p \<le> cell_lo (node_cell n)"
        "\<forall>i. in_tree (tree @ ns) i \<longrightarrow> path ((tree @ ns) @ ms) i = path (tree @ ns) i" "sorted_wrt (<) (map range_pos rs)"
        "range_pos ` set rs = delta_pos ` set (?D (Suc p))" "\<forall>r\<in>set rs. range_ok ((tree @ ns) @ ms) r"
      by (elim exE conjE)
    define r where "r = \<lparr>range_start = cell_at 30 p, range_contents = c1\<rparr>"
    have "in_tree (tree @ ns) c1" using n(2) by (simp add: build_inv_def)
    then have r: "range_ok ((tree @ ns) @ ms) r" unfolding r_def using n(2) m(3,4) p(1)
      by (intro range_ok_append) (auto simp: Suc_le_eq)
    have rp: "range_pos r = p" using p(1) by (simp add: r_def range_pos_def unat_leaf)
    have "build_loop (?D q) (tree, c) ranges = Some (tree @ (ns @ ms), ranges @ (r # rs))"
      unfolding step m(1) r_def by simp
    moreover have "build_inv nodes (Suc num_leaves) (tree @ (ns @ ms)) c2" using m(2) by simp
    moreover have "\<forall>n\<in>set (ns @ ms). q \<le> cell_lo (node_cell n)" using n(3) m(3) d(2) by force
    moreover have "\<forall>i. in_tree tree i \<longrightarrow> path (tree @ (ns @ ms)) i = path tree i"
      using n(4) m(4) by (auto simp: in_tree_def)
    moreover have "sorted_wrt (<) (map range_pos (r # rs))"
    proof -
      have "\<forall>x\<in>range_pos ` set rs. p < x" unfolding m(6) by auto
      then show ?thesis using m(5) rp by simp
    qed
    moreover have "range_pos ` set (r # rs) = delta_pos ` set (?D q)"
    proof -
      have "delta_pos ` set (filter (\<lambda>d. delta_pos d = p) (build_deltas nodes)) = {p}" using d(1) p_def by auto
      then show ?thesis unfolding D set_append image_Un using m(6) rp by simp
    qed
    moreover have "\<forall>x\<in>set (r # rs). range_ok (tree @ (ns @ ms)) x" using m(7) r by simp
    ultimately show ?thesis
      by (intro exI [of _ "ns @ ms"] exI [of _ "r # rs"] exI [of _ c2] conjI)
  qed
qed

end
