(* ===== verification/Cell_Index_Visit.thy ===== *)
theory Cell_Index_Visit
  imports Cell_Index_Build Cell_Union_Search
begin

text \<open>
  \<^verbatim>\<open>VisitIntersectingCells\<close> on a built index: the list of the nodes that are visited is a function of the ranges
  that are scanned, and these are the ranges that meet the target.
\<close>

section \<open>A built index\<close>

definition index_ok :: "cell_index \<Rightarrow> (cellid \<times> label) multiset \<Rightarrow> bool" where
  "index_ok ix items \<longleftrightarrow>
     nodes_ok (cell_tree ix) \<and> mset (map node_item (cell_tree ix)) = items \<and>
     forest (cell_tree ix) \<and> begin_ordered (cell_tree ix) \<and>
     sorted_wrt (<) (map range_pos (range_nodes ix)) \<and>
     range_pos ` set (range_nodes ix) =
       (cell_lo \<circ> node_cell) ` set (cell_tree ix) \<union> (cell_hi \<circ> node_cell) ` set (cell_tree ix) \<union> {0, num_leaves} \<and>
     (\<forall>r\<in>set (range_nodes ix). range_ok (cell_tree ix) r)"

lemma build_index_ok:
  assumes "nodes_ok (cell_tree ix)" "range_nodes ix = []"
  shows "\<exists>ix'. CI_Build ix = Some ix' \<and> index_ok ix' (mset (map node_item (cell_tree ix)))"
proof -
  have "build_inv (cell_tree ix) 0 [] (-1)" by (simp add: build_inv_def begin_ordered_def forest_def in_tree_def)
  from build_loop_correct [OF assms(1) this, of "[]"] obtain tree rs c where
    b: "build_loop (build_deltas (cell_tree ix)) ([], -1) [] = Some (tree, rs)"
      "build_inv (cell_tree ix) (Suc num_leaves) tree c" "sorted_wrt (<) (map range_pos rs)"
      "range_pos ` set rs = delta_pos ` set (build_deltas (cell_tree ix))" "\<forall>r\<in>set rs. range_ok tree r"
    by auto
  have "filter_mset (\<lambda>it. cell_lo (fst it) < Suc num_leaves) (mset (map node_item (cell_tree ix))) =
      filter_mset (\<lambda>it. True) (mset (map node_item (cell_tree ix)))"
  proof (intro filter_mset_cong refl)
    fix it assume "it \<in># mset (map node_item (cell_tree ix))"
    then have "cell_lo (fst it) < num_leaves"
      using assms(1) cell_lo_le by (auto simp: node_item_def nodes_ok_def)
    then show "cell_lo (fst it) < Suc num_leaves \<longleftrightarrow> True" by simp
  qed
  then have m: "mset (map node_item tree) = mset (map node_item (cell_tree ix))"
    using b(2) by (simp add: build_inv_def)
  have s: "node_item ` set tree = node_item ` set (cell_tree ix)"
    using arg_cong [OF m, of set_mset] by (simp only: set_mset_mset set_map)
  have "nodes_ok tree"
    by (rule tree_items(1) [OF assms(1), of _ "\<lambda>_. True"], unfold m, simp)
  moreover have "(cell_lo \<circ> node_cell) ` set (cell_tree ix) = (cell_lo \<circ> node_cell) ` set tree"
      "(cell_hi \<circ> node_cell) ` set (cell_tree ix) = (cell_hi \<circ> node_cell) ` set tree"
    using arg_cong [OF s, of "image (cell_lo \<circ> fst)"] arg_cong [OF s, of "image (cell_hi \<circ> fst)"]
    by (simp_all add: image_image node_item_def comp_def)
  moreover note nodes_ok_delta_pos [OF assms(1)]
  ultimately have "index_ok \<lparr>cell_tree = tree, range_nodes = rs\<rparr> (mset (map node_item (cell_tree ix)))"
    using b m by (simp add: index_ok_def build_inv_def)
  moreover have "CI_Build ix = Some \<lparr>cell_tree = tree, range_nodes = rs\<rparr>"
    using b(1) assms(2) by (simp add: CI_Build_def)
  ultimately show ?thesis by blast
qed


section \<open>The visited nodes\<close>

fun visit_list :: "'s visitor \<Rightarrow> (cellid \<times> label) list \<Rightarrow> 's \<Rightarrow> bool \<times> 's" where
  "visit_list visitor [] s = (True, s)"
| "visit_list visitor ((x, l) # its) s =
     (case visitor x l s of (ok, s) \<Rightarrow> if \<not> ok then (False, s) else visit_list visitor its s)"

lemma visit_list_append:
  "visit_list visitor (as @ bs) s =
     (case visit_list visitor as s of (ok, s) \<Rightarrow> if ok then visit_list visitor bs s else (False, s))"
  by (induction visitor as s rule: visit_list.induct) (auto split: prod.splits)

definition range_path :: "cell_index \<Rightarrow> nat \<Rightarrow> nat list" where
  "range_path ix k = path (cell_tree ix) (range_contents (range_nodes ix ! k))"

definition rpos :: "cell_index \<Rightarrow> nat \<Rightarrow> nat" where
  "rpos ix k = range_pos (range_nodes ix ! k)"

fun fresh :: "cell_index \<Rightarrow> int \<Rightarrow> nat list \<Rightarrow> nat list" where
  "fresh ix N [] = []"
| "fresh ix N (k # ks) = filter (\<lambda>j. N < int j) (range_path ix k) @ fresh ix (max N (range_contents (range_nodes ix ! k))) ks"

definition cutoff :: "cell_index \<Rightarrow> int \<Rightarrow> nat list \<Rightarrow> int" where
  "cutoff ix N ks = fold (\<lambda>k N. max N (range_contents (range_nodes ix ! k))) ks N"

lemma cutoff_simps [simp]:
  "cutoff ix N [] = N"
  "cutoff ix N (k # ks) = cutoff ix (max N (range_contents (range_nodes ix ! k))) ks"
  by (simp_all add: cutoff_def)

lemma fresh_append: "fresh ix N (ks @ ms) = fresh ix N ks @ fresh ix (cutoff ix N ks) ms"
  by (induction ix N ks rule: fresh.induct) simp_all

definition items_at :: "cell_index \<Rightarrow> nat list \<Rightarrow> (cellid \<times> label) list" where
  "items_at ix js = map (\<lambda>j. node_item (cell_tree ix ! j)) js"

lemma items_at_append [simp]: "items_at ix (as @ bs) = items_at ix as @ items_at ix bs"
  by (simp add: items_at_def)

lemma path_down:
  assumes "forest tree" "in_tree tree i"
  shows "sorted_wrt (>) (path tree i)"
  using assms
proof (induction rule: path_induct)
  case (node j)
  note p = parent_in_tree [OF assms(1) node(1)]
  have "\<forall>k\<in>set (path tree (node_parent (tree ! j))). k < j"
    using path_less [OF assms(1) p(2)] p(1) by force
  then show ?case using node path_step [OF assms(1) node(1)] by simp
qed simp

lemma down_distinct: "sorted_wrt (>) (xs :: nat list) \<Longrightarrow> distinct xs"
  by (induction xs) auto

text \<open>The parents of a node whose index exceeds the cutoff.\<close>

lemma visit_contents_path:
  assumes ok: "nodes_ok (cell_tree ix)" "forest (cell_tree ix)"
  shows "in_tree (cell_tree ix) i \<Longrightarrow> -1 \<le> N \<Longrightarrow> N < i \<Longrightarrow> it_node c = cell_tree ix ! nat i \<Longrightarrow> node_cutoff c = N \<Longrightarrow>
    next_node_cutoff c = M \<Longrightarrow>
    (case visit_list visitor (items_at ix (filter (\<lambda>j. N < int j) (path (cell_tree ix) i))) s of (v, s') \<Rightarrow>
      \<exists>c'. visit_contents ix visitor c s = Some (v, c', s') \<and> (v \<longrightarrow> node_cutoff c' = M \<and> prev_start_id c' = prev_start_id c))"
proof (induction "nat (i + 1)" arbitrary: i c s rule: less_induct)
  case less
  let ?t = "cell_tree ix"
  from less.prems(1) obtain j where j: "i = int j" "j < length ?t"
    by (rule in_tree_cases) (use less.prems in auto)
  note p = parent_in_tree [OF ok(2) j(2)]
  let ?P = "\<lambda>j. N < int j" and ?q = "node_parent (?t ! j)"
  have pth: "filter ?P (path ?t i) = j # filter ?P (path ?t ?q)"
    using path_step [OF ok(2) j(2)] j(1) less.prems(3) by simp
  have n: "it_node c = ?t ! j" using less.prems(4) j(1) by simp
  have "0 \<le> node_label (?t ! j)" using ok(1) j(2) by (simp add: nodes_ok_def)
  then have nd: "\<not> ContentsIt_done c" by (simp add: ContentsIt_done_def kDoneContents_def n)
  obtain v1 s1 where v1: "visitor (node_cell (?t ! j)) (node_label (?t ! j)) s = (v1, s1)" by fastforce
  have it: "items_at ix (j # js) = (node_cell (?t ! j), node_label (?t ! j)) # items_at ix js" for js
    by (simp add: items_at_def node_item_def)
  note vc = visit_contents.simps [of ix visitor c s]
  show ?case
  proof (cases v1)
    case False
    then show ?thesis unfolding pth it using vc nd v1 by (simp add: n)
  next
    case True
    then have step: "visit_contents ix visitor c s = Option.bind (ContentsIt_Next ix c) (\<lambda>c. visit_contents ix visitor c s1)"
      using vc nd v1 by (simp add: n)
    show ?thesis
    proof (cases "?q \<le> N")
      case True
      have "\<not> N < int k" if "k \<in> set (path ?t ?q)" for k
        using path_less [OF ok(2) p(2)] that True by fastforce
      then have e: "filter ?P (path ?t ?q) = []" by (simp add: filter_empty_conv)
      define c1 where "c1 = CI_set_done (c\<lparr>node_cutoff := next_node_cutoff c\<rparr>)"
      have "ContentsIt_Next ix c = Some c1" using True less.prems(5) by (simp add: ContentsIt_Next_def n c1_def)
      moreover have "visit_contents ix visitor c1 s1 = Some (True, c1, s1)"
        using visit_contents.simps [of ix visitor c1 s1] by (simp add: ContentsIt_done_def c1_def CI_set_done_def)
      ultimately show ?thesis unfolding pth e it step using v1 \<open>v1\<close> less.prems(6)
        by (simp add: items_at_def c1_def CI_set_done_def)
    next
      case False
      define c1 where "c1 = c\<lparr>it_node := ?t ! nat ?q\<rparr>"
      have "ContentsIt_Next ix c = Some c1" using False less.prems(2,5) p
        by (simp add: ContentsIt_Next_def n c1_def tree_node_def in_tree_def)
      moreover have "case visit_list visitor (items_at ix (filter ?P (path ?t ?q))) s1 of (v, s') \<Rightarrow>
          \<exists>c'. visit_contents ix visitor c1 s1 = Some (v, c', s') \<and> (v \<longrightarrow> node_cutoff c' = M \<and> prev_start_id c' = prev_start_id c1)"
        using False less.prems p j by (intro less.hyps) (auto simp: c1_def in_tree_def)
      ultimately show ?thesis unfolding pth it step using v1 \<open>v1\<close> by (simp add: c1_def)
    qed
  qed
qed


text \<open>The nodes on the path of a later range that are not above the cutoff were visited.\<close>

lemma sorted_starts:
  "index_ok ix items \<Longrightarrow> i < j \<Longrightarrow> j < length (range_nodes ix) \<Longrightarrow> rpos ix i < rpos ix j"
  unfolding index_ok_def rpos_def by (auto simp: sorted_wrt_map dest: sorted_wrt_nth_less)

lemma range_nodes_ok:
  assumes "index_ok ix items" "k < length (range_nodes ix)"
  shows "range_ok (cell_tree ix) (range_nodes ix ! k)"
  using assms by (simp add: index_ok_def)

lemma set_range_path:
  assumes "index_ok ix items" "k < length (range_nodes ix)"
  shows "set (range_path ix k) = {j. j < length (cell_tree ix) \<and> node_lo (cell_tree ix) j \<le> rpos ix k \<and> rpos ix k < node_hi (cell_tree ix) j}"
  using range_nodes_ok [OF assms] by (auto simp: range_ok_def range_path_def rpos_def)

lemma contents_in_tree:
  "index_ok ix items \<Longrightarrow> k < length (range_nodes ix) \<Longrightarrow> in_tree (cell_tree ix) (range_contents (range_nodes ix ! k))"
  using range_nodes_ok by (simp add: range_ok_def)

lemma range_path_le:
  assumes "index_ok ix items" "k < length (range_nodes ix)" "j \<in> set (range_path ix k)"
  shows "int j \<le> range_contents (range_nodes ix ! k)"
  using path_less [of "cell_tree ix" "range_contents (range_nodes ix ! k)"] contents_in_tree [OF assms(1,2)] assms
  by (auto simp: index_ok_def range_path_def)

lemma contents_on_path:
  assumes "index_ok ix items" "k < length (range_nodes ix)" "range_contents (range_nodes ix ! k) \<noteq> -1"
  shows "nat (range_contents (range_nodes ix ! k)) \<in> set (range_path ix k)"
  using contents_in_tree [OF assms(1,2)]
proof (cases rule: in_tree_cases)
  case (2 j)
  have "forest (cell_tree ix)" using assms(1) by (simp add: index_ok_def)
  then show ?thesis using path_step [of "cell_tree ix" j] 2 by (simp add: range_path_def)
qed (use assms(3) in simp)

text \<open>A cutoff that was reached over the ranges \<open>ks\<close>.\<close>

definition cut_by :: "cell_index \<Rightarrow> int \<Rightarrow> nat list \<Rightarrow> bool" where
  "cut_by ix N ks \<longleftrightarrow> (N = -1 \<or> (\<exists>k\<in>set ks. range_contents (range_nodes ix ! k) = N)) \<and>
     (\<forall>k\<in>set ks. range_contents (range_nodes ix ! k) \<le> N)"

lemma cut_by_snoc:
  assumes "cut_by ix N ks"
  shows "cut_by ix (max N (range_contents (range_nodes ix ! k))) (ks @ [k])"
  using assms by (force simp: cut_by_def max_def)

lemma cut_path:
  assumes ix: "index_ok ix items" and "cut_by ix N ks" "\<forall>k'\<in>set ks. k' < k" "k < length (range_nodes ix)" "j \<in> set (range_path ix k)"
  shows "int j \<le> N \<longleftrightarrow> (\<exists>k'\<in>set ks. j \<in> set (range_path ix k'))"
proof
  let ?t = "cell_tree ix"
  assume jN: "int j \<le> N"
  then obtain k' where k': "k' \<in> set ks" "range_contents (range_nodes ix ! k') = N" using assms(2) by (auto simp: cut_by_def)
  have lt: "k' < k" "k' < length (range_nodes ix)" using assms(3,4) k'(1) by auto
  have m: "nat N \<in> set (range_path ix k')" using contents_on_path [OF ix lt(2)] k'(2) jN by simp
  have N: "nat N < length ?t" "node_lo ?t (nat N) \<le> rpos ix k'" using m unfolding set_range_path [OF ix lt(2)] by simp_all
  have "j \<le> nat N" using jN by simp
  then have "node_lo ?t j \<le> node_lo ?t (nat N)"
  proof (cases "j = nat N")
    case False
    have "begin_ordered ?t" using ix by (simp add: index_ok_def)
    then have "sorted_wrt (\<lambda>x y. cell_lo (node_cell x) < cell_lo (node_cell y) \<or>
     cell_lo (node_cell x) = cell_lo (node_cell y) \<and> node_cell y \<le> node_cell x) ?t" by (simp add: begin_ordered_def)
    from sorted_wrt_nth_less [OF this, of j "nat N"] show ?thesis using False \<open>j \<le> nat N\<close> N(1) by (auto simp: node_lo_def)
  qed simp
  then have "j \<in> set (range_path ix k')"
    using N assms(5) sorted_starts [OF ix lt(1) assms(4)] unfolding set_range_path [OF ix lt(2)] set_range_path [OF ix assms(4)] by auto
  then show "\<exists>k'\<in>set ks. j \<in> set (range_path ix k')" using k'(1) by blast
next
  assume "\<exists>k'\<in>set ks. j \<in> set (range_path ix k')"
  then obtain k' where k': "k' \<in> set ks" "j \<in> set (range_path ix k')" by blast
  have "int j \<le> range_contents (range_nodes ix ! k')" using range_path_le [OF ix _ k'(2)] assms(3,4) k'(1) by force
  then show "int j \<le> N" using assms(2) k'(1) by (force simp: cut_by_def)
qed

lemma fresh_correct:
  assumes "index_ok ix items" "sorted_wrt (<) (ls @ ks)" "\<forall>k\<in>set (ls @ ks). k < length (range_nodes ix)" "cut_by ix N ls"
  shows "distinct (fresh ix N ks) \<and>
    set (fresh ix N ks) = (\<Union>k\<in>set (ls @ ks). set (range_path ix k)) - (\<Union>k\<in>set ls. set (range_path ix k))"
  using assms(2-4)
proof (induction ks arbitrary: ls N)
  case (Cons k ks)
  let ?U = "\<lambda>ks. \<Union>k\<in>set ks. set (range_path ix k)"
  have k: "k < length (range_nodes ix)" "\<forall>k'\<in>set ls. k' < k" using Cons.prems(1,2) by (auto simp: sorted_wrt_append)
  have ih: "distinct (fresh ix (max N (range_contents (range_nodes ix ! k))) ks)"
    "set (fresh ix (max N (range_contents (range_nodes ix ! k))) ks) = ?U ((ls @ [k]) @ ks) - ?U (ls @ [k])"
    using Cons.IH [of "ls @ [k]"] Cons.prems(1,2) cut_by_snoc [OF Cons.prems(3)] by simp_all
  have "\<not> N < int j \<longleftrightarrow> j \<in> ?U ls" if "j \<in> set (range_path ix k)" for j
    using cut_path [OF assms(1) Cons.prems(3) k(2,1) that] by auto
  then have s: "set (filter (\<lambda>j. N < int j) (range_path ix k)) = set (range_path ix k) - ?U ls" by auto
  have "distinct (range_path ix k)"
    unfolding range_path_def using assms(1)
    by (intro down_distinct path_down contents_in_tree [OF assms(1) k(1)]) (simp add: index_ok_def)
  moreover have "?U (ls @ k # ks) - ?U ls = (set (range_path ix k) - ?U ls) \<union> (?U ((ls @ [k]) @ ks) - ?U (ls @ [k]))" by auto
  ultimately show ?case using ih s by auto
qed simp

end
