(* ===== verification/Cell_Index_Scan.thy ===== *)
theory Cell_Index_Scan
  imports Cell_Index_Visit
begin

text \<open>
  The scan of the ranges: the loop over the targets calls the visitor on the nodes of exactly the ranges
  that meet a target, in increasing order.
\<close>

section \<open>Words and positions\<close>

lemma starts_at:
  assumes "index_ok ix items" "k < length (range_nodes ix)"
  shows "range_start (range_nodes ix ! k) = cell_at 30 (rpos ix k)" "rpos ix k \<le> num_leaves"
    "RangeIt_start_id ix k = Some (cell_at 30 (rpos ix k))"
  using range_nodes_ok [OF assms] assms(2) by (simp_all add: range_ok_def rpos_def RangeIt_start_id_def)

lemma start_le_max:
  "is_valid y \<Longrightarrow> p \<le> num_leaves \<Longrightarrow> cell_at 30 p \<le> range_max y \<longleftrightarrow> p < cell_hi y"
  using cell_lo_less_hi [of y] by (auto simp: word_le_nat_alt unat_leaf unat_range_max simp del: cell_lo_less_hi)

lemma limit_le_min:
  "is_valid y \<Longrightarrow> p \<le> num_leaves \<Longrightarrow> cell_at 30 p \<le> range_min y \<longleftrightarrow> p \<le> cell_lo y"
  by (simp add: word_le_nat_alt unat_leaf unat_range_min)

lemma less_start:
  "is_valid y \<Longrightarrow> p \<le> num_leaves \<Longrightarrow> y < cell_at 30 p \<longleftrightarrow> cell_lo y + cell_hi y \<le> 2 * p"
  by (auto simp: word_less_nat_alt unat_leaf unat_cell)

lemma takeWhile_length:
  "i < length (takeWhile P xs) \<Longrightarrow> P (xs ! i)"
  "length (takeWhile P xs) < length xs \<Longrightarrow> \<not> P (xs ! length (takeWhile P xs))"
  by (metis nth_mem set_takeWhileD takeWhile_nth) (rule nth_length_takeWhile)


section \<open>One range\<close>

lemma range_step:
  assumes ix: "index_ok ix items" and k: "k < length (range_nodes ix)" and N: "-1 \<le> node_cutoff c"
    and prev: "prev_start_id c \<le> range_start (range_nodes ix ! k)"
  shows "case visit_list visitor (items_at ix (filter (\<lambda>j. node_cutoff c < int j) (range_path ix k))) s of (v, s') \<Rightarrow>
    \<exists>c1 c2. ContentsIt_StartUnion ix k c = Some c1 \<and> visit_contents ix visitor c1 s = Some (v, c2, s') \<and>
      (v \<longrightarrow> node_cutoff c2 = max (node_cutoff c) (range_contents (range_nodes ix ! k)) \<and>
        prev_start_id c2 = range_start (range_nodes ix ! k))"
proof -
  let ?i = "range_contents (range_nodes ix ! k)"
  have ok: "nodes_ok (cell_tree ix)" "forest (cell_tree ix)" "in_tree (cell_tree ix) ?i"
    using ix contents_in_tree [OF ix k] by (simp_all add: index_ok_def)
  have s: "RangeIt_start_id ix k = Some (range_start (range_nodes ix ! k))" using k by (simp add: RangeIt_start_id_def)
  have np: "\<not> range_start (range_nodes ix ! k) < prev_start_id c" using prev by simp
  show ?thesis
  proof (cases "?i \<le> node_cutoff c")
    case True
    then have e: "filter (\<lambda>j. node_cutoff c < int j) (range_path ix k) = []"
      using range_path_le [OF ix k] by (force simp: filter_empty_conv)
    define c1 where "c1 = (CI_set_done (c\<lparr>prev_start_id := range_start (range_nodes ix ! k)\<rparr>))\<lparr>next_node_cutoff := ?i\<rparr>"
    have "ContentsIt_StartUnion ix k c = Some c1"
      using True s np by (simp add: ContentsIt_StartUnion_def c1_def Let_def)
    moreover have "visit_contents ix visitor c1 s = Some (True, c1, s)"
      using visit_contents.simps [of ix visitor c1 s] by (simp add: ContentsIt_done_def c1_def CI_set_done_def)
    ultimately show ?thesis unfolding e using True
      by (simp add: items_at_def c1_def CI_set_done_def)
  next
    case False
    define c1 where "c1 = c\<lparr>prev_start_id := range_start (range_nodes ix ! k), it_node := cell_tree ix ! nat ?i, next_node_cutoff := ?i\<rparr>"
    have "tree_node ix ?i = Some (cell_tree ix ! nat ?i)" using False N ok(3) by (simp add: tree_node_def in_tree_def)
    then have st: "ContentsIt_StartUnion ix k c = Some c1"
      using False s np by (simp add: ContentsIt_StartUnion_def c1_def Let_def)
    have "case visit_list visitor (items_at ix (filter (\<lambda>j. node_cutoff c < int j) (path (cell_tree ix) ?i))) s of (v, s') \<Rightarrow>
      \<exists>c'. visit_contents ix visitor c1 s = Some (v, c', s') \<and> (v \<longrightarrow> node_cutoff c' = ?i \<and> prev_start_id c' = prev_start_id c1)"
      using False N by (intro visit_contents_path [OF ok]) (simp_all add: c1_def)
    then show ?thesis using st False by (auto simp: range_path_def c1_def split: prod.splits)
  qed
qed

section \<open>The ranges of one target\<close>

lemma visit_ranges_run:
  assumes ix: "index_ok ix items" and y: "is_valid y" and stp: "stp < length (range_nodes ix)" "cell_hi y \<le> rpos ix stp"
  shows "rng \<le> stp \<Longrightarrow> \<forall>k\<in>{rng..<stp}. rpos ix k < cell_hi y \<Longrightarrow> -1 \<le> node_cutoff c \<Longrightarrow>
    prev_start_id c \<le> range_start (range_nodes ix ! rng) \<Longrightarrow>
    (case visit_list visitor (items_at ix (fresh ix (node_cutoff c) [rng..<stp])) s of (v, s') \<Rightarrow>
      \<exists>r c'. visit_ranges ix visitor (range_max y) rng c s = Some (v, r, c', s') \<and>
        (v \<longrightarrow> r = stp \<and> node_cutoff c' = cutoff ix (node_cutoff c) [rng..<stp] \<and> prev_start_id c' \<le> range_start (range_nodes ix ! stp)))"
proof (induction "stp - rng" arbitrary: rng c s)
  case 0
  then have r: "rng = stp" by simp
  have "\<not> cell_at 30 (rpos ix stp) \<le> range_max y" using start_le_max [OF y, of "rpos ix stp"] starts_at [OF ix stp(1)] stp(2) by simp
  then have "visit_ranges ix visitor (range_max y) stp c s = Some (True, stp, c, s)"
    using visit_ranges.simps [of ix visitor "range_max y" stp c s] starts_at [OF ix stp(1)] by simp
  then show ?case using r 0 by (simp add: items_at_def)
next
  case (Suc n)
  have lt: "rng < stp" "rng < length (range_nodes ix)" using Suc.hyps(2) stp(1) by simp_all
  have up: "[rng..<stp] = rng # [Suc rng..<stp]" using upt_conv_Cons [OF lt(1)] .
  let ?N = "max (node_cutoff c) (range_contents (range_nodes ix ! rng))"
  let ?L = "items_at ix (filter (\<lambda>j. node_cutoff c < int j) (range_path ix rng))"
  have "cell_at 30 (rpos ix rng) \<le> range_max y"
    using start_le_max [OF y, of "rpos ix rng"] starts_at [OF ix lt(2)] Suc.prems(2) lt(1) by simp
  then have vr: "visit_ranges ix visitor (range_max y) rng c s =
      do { c \<leftarrow> ContentsIt_StartUnion ix rng c;
           (ok, c, s) \<leftarrow> visit_contents ix visitor c s;
           if \<not> ok then Some (False, rng, c, s) else visit_ranges ix visitor (range_max y) (RangeIt_Next rng) c s }"
    using visit_ranges.simps [of ix visitor "range_max y" rng c s] starts_at [OF ix lt(2)] by simp
  have nx: "RangeIt_Next rng = Suc rng" by (simp add: RangeIt_Next_def)
  obtain v s1 where vl: "visit_list visitor ?L s = (v, s1)" by fastforce
  from range_step [OF ix lt(2) Suc.prems(3,4), of visitor s] obtain c1 c2 where
    c: "ContentsIt_StartUnion ix rng c = Some c1" "visit_contents ix visitor c1 s = Some (v, c2, s1)"
      "v \<longrightarrow> node_cutoff c2 = ?N \<and> prev_start_id c2 = range_start (range_nodes ix ! rng)"
    unfolding vl prod.case by (elim exE conjE)
  show ?case
  proof (cases v)
    case False
    then show ?thesis unfolding up fresh.simps items_at_append visit_list_append using vl c by (simp add: vr nx)
  next
    case True
    have mono: "range_start (range_nodes ix ! rng) \<le> range_start (range_nodes ix ! Suc rng)"
    proof -
      have "Suc rng < length (range_nodes ix)" using lt(1) stp(1) by simp
      then show ?thesis
        using sorted_starts [OF ix, of rng "Suc rng"] starts_at [OF ix lt(2)] starts_at [OF ix, of "Suc rng"] by (simp add: leaf_le_iff)
    qed
    have "case visit_list visitor (items_at ix (fresh ix (node_cutoff c2) [Suc rng..<stp])) s1 of (v, s') \<Rightarrow>
      \<exists>r c'. visit_ranges ix visitor (range_max y) (Suc rng) c2 s1 = Some (v, r, c', s') \<and>
        (v \<longrightarrow> r = stp \<and> node_cutoff c' = cutoff ix (node_cutoff c2) [Suc rng..<stp] \<and> prev_start_id c' \<le> range_start (range_nodes ix ! stp))"
      using Suc.hyps(2) Suc.prems c(3) True lt mono by (intro Suc.hyps(1)) auto
    then show ?thesis unfolding up fresh.simps items_at_append visit_list_append using vl c True
      by (simp add: vr nx split: prod.splits)
  qed
qed

section \<open>The next target\<close>

lemma target_nth:
  assumes "wf_union ts" "i < j" "j < length ts"
  shows "cell_hi (ts ! i) \<le> cell_lo (ts ! j)" "is_valid (ts ! i)" "is_valid (ts ! j)"
  using assms sorted_wrt_nth_less [of "\<lambda>x y. cell_hi x \<le> cell_lo y" ts i j] by (simp_all add: wf_union_def)

lemma next_target_correct:
  assumes ts: "wf_union ts" and q: "q \<le> num_leaves" and it: "it < length ts"
  defines "n \<equiv> next_target ts (cell_at 30 q) it"
  shows "it < n" and "\<forall>i. it < i \<and> i < n \<and> i < length ts \<longrightarrow> cell_hi (ts ! i) \<le> q"
    and "n < length ts \<Longrightarrow> q < cell_hi (ts ! n)"
proof -
  have v: "is_valid (ts ! i)" if "i < length ts" for i using ts that by (simp add: wf_union_def)
  have gt: "range_max (ts ! i) < cell_at 30 q \<longleftrightarrow> cell_hi (ts ! i) \<le> q" if "i < length ts" for i
    using start_le_max [OF v [OF that] q] by (simp add: not_le [symmetric])
  have lt: "ts ! i < cell_at 30 q \<longleftrightarrow> cell_lo (ts ! i) + cell_hi (ts ! i) \<le> 2 * q" if "i < length ts" for i
    using less_start [OF v [OF that] q] .
  have "it < n \<and> (\<forall>i. it < i \<and> i < n \<and> i < length ts \<longrightarrow> cell_hi (ts ! i) \<le> q) \<and> (n < length ts \<longrightarrow> q < cell_hi (ts ! n))"
  proof (cases "it + 1 < length ts \<and> range_max (ts ! (it + 1)) < cell_at 30 q")
    case False
    then have "n = it + 1" unfolding n_def next_target_def Let_def by (rule if_not_P)
    then show ?thesis using False gt [of "it + 1"] by auto
  next
    case True
    define W where "W = takeWhile (\<lambda>y. y < cell_at 30 q) (drop (it + 2) ts)"
    define m where "m = it + 2 + length W"
    have "length W \<le> length (drop (it + 2) ts)" unfolding W_def by (rule length_takeWhile_le)
    then have m: "it + 2 \<le> m" "m \<le> length ts" using True by (auto simp: m_def)
    have below: "ts ! i < cell_at 30 q" if im: "it + 2 \<le> i" "i < m" for i
    proof -
      obtain d where d: "i = it + 2 + d" using le_Suc_ex [OF im(1)] by blast
      then have "d < length W" using im by (simp add: m_def)
      from takeWhile_length(1) [OF this [unfolded W_def]] show ?thesis using d im m(2) by simp
    qed
    have stop: "\<not> ts ! m < cell_at 30 q" if "m < length ts"
      using takeWhile_length(2) [of "\<lambda>y. y < cell_at 30 q" "drop (it + 2) ts"] that by (simp add: W_def m_def)
    have n: "n = (if range_max (ts ! (m - 1)) \<ge> cell_at 30 q then m - 1 else m)"
      using True by (simp add: n_def next_target_def Let_def m_def W_def)
    have first: "cell_hi (ts ! (it + 1)) \<le> q" using True gt [of "it + 1"] by simp
    have skipped: "cell_hi (ts ! i) \<le> q" if i: "it < i" "Suc i < m" for i
    proof (cases "i = it + 1")
      case False
      have "ts ! Suc i < cell_at 30 q" using below i by simp
      then have "cell_lo (ts ! Suc i) + cell_hi (ts ! Suc i) \<le> 2 * q" using lt [of "Suc i"] i m(2) by simp
      then show ?thesis using target_nth(1) [OF ts, of i "Suc i"] cell_lo_less_hi [of "ts ! Suc i"] i m(2) by linarith
    qed (use first in simp)
    show ?thesis
    proof (cases "cell_at 30 q \<le> range_max (ts ! (m - 1))")
      case T: True
      then have q': "q < cell_hi (ts ! (m - 1))" using gt [of "m - 1"] m True by (simp add: not_le [symmetric])
      then have "m - 1 \<noteq> it + 1" using first by auto
      then show ?thesis using n T q' m skipped by auto
    next
      case F: False
      then have stp: "cell_hi (ts ! (m - 1)) \<le> q" using gt [of "m - 1"] m True by (simp add: not_le)
      have "q < cell_hi (ts ! m)" if "m < length ts"
        using stop [OF that] lt [OF that] cell_lo_less_hi [of "ts ! m"] by linarith
      moreover have "cell_hi (ts ! i) \<le> q" if "it < i" "i < m" for i
        using skipped [of i] stp that by (cases "i = m - 1") auto
      ultimately show ?thesis using n F m by auto
    qed
  qed
  then show "it < n" "\<forall>i. it < i \<and> i < n \<and> i < length ts \<longrightarrow> cell_hi (ts ! i) \<le> q"
    "n < length ts \<Longrightarrow> q < cell_hi (ts ! n)" by blast+
qed


section \<open>All targets\<close>

lemma range_ends:
  assumes "index_ok ix items"
  shows "range_nodes ix \<noteq> []" "rpos ix 0 = 0" "rpos ix (length (range_nodes ix) - 1) = num_leaves"
proof -
  let ?K = "length (range_nodes ix)"
  have at: "\<exists>k<?K. rpos ix k = p" if "p \<in> {0, num_leaves}" for p
  proof -
    have "p \<in> range_pos ` set (range_nodes ix)" using that assms by (auto simp: index_ok_def)
    then show ?thesis by (auto simp: rpos_def in_set_conv_nth)
  qed
  from at [of 0] obtain i where i: "i < ?K" "rpos ix i = 0" by blast
  then show "range_nodes ix \<noteq> []" by auto
  show "rpos ix 0 = 0" using sorted_starts [OF assms, of 0 i] i by (cases "i = 0") auto
  from at [of num_leaves] obtain j where j: "j < ?K" "rpos ix j = num_leaves" by blast
  show "rpos ix (?K - 1) = num_leaves"
  proof (rule ccontr)
    assume n: "rpos ix (?K - 1) \<noteq> num_leaves"
    then have "j < ?K - 1" using j by (cases "j = ?K - 1") auto
    moreover have k: "?K - 1 < ?K" using j(1) by linarith
    ultimately have "rpos ix j < rpos ix (?K - 1)" by (rule sorted_starts [OF assms])
    then show False using starts_at(2) [OF assms k] j(2) by linarith
  qed
qed

lemma Seek_correct:
  assumes ix: "index_ok ix items" and y: "is_valid y"
  shows "\<exists>k. RangeIt_Seek ix (range_min y) = Some k \<and> Suc k < length (range_nodes ix) \<and>
    rpos ix k \<le> cell_lo y \<and> cell_lo y < rpos ix (Suc k)"
proof -
  let ?P = "\<lambda>n. \<not> range_min y < range_start n"
  define m where "m = length (takeWhile ?P (range_nodes ix))"
  have P: "?P (range_nodes ix ! k) \<longleftrightarrow> rpos ix k \<le> cell_lo y" if "k < length (range_nodes ix)" for k
    using limit_le_min [OF y, of "rpos ix k"] starts_at [OF ix that] by (simp add: not_less)
  have in_tw: "?P (range_nodes ix ! k)" if "k < m" for k
    using takeWhile_length(1) [of k ?P] that by (simp add: m_def)
  have K: "0 < length (range_nodes ix)" using range_ends(1) [OF ix] by simp
  have m: "m < length (range_nodes ix)"
  proof (rule ccontr)
    assume "\<not> m < length (range_nodes ix)"
    then have "rpos ix (length (range_nodes ix) - 1) \<le> cell_lo y"
      using in_tw [of "length (range_nodes ix) - 1"] P [of "length (range_nodes ix) - 1"] K by simp
    then show False using cell_lo_le [OF y] range_ends(3) [OF ix] by simp
  qed
  then have "\<not> ?P (range_nodes ix ! m)" using takeWhile_length(2) [of ?P "range_nodes ix"] by (simp add: m_def)
  then have lo: "cell_lo y < rpos ix m" using P [OF m] by simp
  then obtain k where k: "m = Suc k" using range_ends(2) [OF ix] by (cases m) auto
  have "rpos ix k \<le> cell_lo y" using in_tw [of k] P [of k] k m by simp
  then show ?thesis using lo k m by (auto simp: RangeIt_Seek_def m_def [symmetric])
qed

definition range_meets :: "cell_index \<Rightarrow> nat \<Rightarrow> cellid \<Rightarrow> bool" where
  "range_meets ix k y \<longleftrightarrow> rpos ix k < cell_hi y \<and> cell_lo y < rpos ix (Suc k)"

lemma first_past:
  assumes ix: "index_ok ix items" and y: "is_valid y" and r: "rng < length (range_nodes ix)" "rpos ix rng < cell_hi y"
  shows "\<exists>stp. rng < stp \<and> stp < length (range_nodes ix) \<and> cell_hi y \<le> rpos ix stp \<and> (\<forall>k\<in>{rng..<stp}. rpos ix k < cell_hi y)"
proof -
  let ?Q = "\<lambda>k. rng < k \<and> cell_hi y \<le> rpos ix k"
  define e where "e = length (range_nodes ix) - 1"
  have e: "cell_hi y \<le> rpos ix e" using range_ends(3) [OF ix] cell_hi_le [OF y] by (simp add: e_def)
  then have "rng \<noteq> e" using r(2) by auto
  then have Q: "?Q e" using r(1) e by (simp add: e_def)
  define m where "m = (LEAST k. ?Q k)"
  have "?Q m" unfolding m_def using Q by (rule LeastI)
  moreover have "m \<le> e" unfolding m_def using Q by (rule Least_le)
  moreover have "rpos ix k < cell_hi y" if "k \<in> {rng..<m}" for k
  proof (cases "k = rng")
    case False
    have "\<not> ?Q k" using that not_less_Least [of k ?Q] by (simp add: m_def)
    then show ?thesis using that False by simp
  qed (use r(2) in simp)
  moreover have "m < length (range_nodes ix)" using r(1) \<open>m \<le> e\<close> by (simp add: e_def)
  ultimately show ?thesis by blast
qed

lemma visit_targets_run:
  assumes ix: "index_ok ix items" and ts: "wf_union ts"
  shows "it < length ts \<Longrightarrow> rng < length (range_nodes ix) \<Longrightarrow> rpos ix rng < cell_hi (ts ! it) \<Longrightarrow>
    \<exists>ks. sorted_wrt (<) ks \<and>
      set ks = {k. rng \<le> k \<and> Suc k < length (range_nodes ix) \<and> (\<exists>i. it \<le> i \<and> i < length ts \<and> range_meets ix k (ts ! i))} \<and>
      (\<forall>visitor (s :: 's) c. -1 \<le> node_cutoff c \<longrightarrow> prev_start_id c \<le> range_start (range_nodes ix ! rng) \<longrightarrow>
        visit_targets ix ts visitor it rng c s = Some (visit_list visitor (items_at ix (fresh ix (node_cutoff c) ks)) s))"
proof (induction "length ts - it" arbitrary: it rng rule: less_induct)
  case less
  define y where "y = ts ! it"
  have v: "is_valid (ts ! i)" if "i < length ts" for i using ts that by (simp add: wf_union_def)
  have y: "is_valid y" "rpos ix rng < cell_hi y" using v less.prems by (simp_all add: y_def)
  let ?K = "length (range_nodes ix)"
  have mono: "rpos ix i \<le> rpos ix j" if "i \<le> j" "j < ?K" for i j
    using sorted_starts [OF ix, of i j] that by (cases "i = j") auto
  have "rng \<noteq> ?K - 1" using y cell_hi_le [OF y(1)] range_ends(3) [OF ix] by auto
  then have rng: "Suc rng < ?K" using less.prems(2) by simp
  have lim: "RangeIt_limit_id ix rng = Some (cell_at 30 (rpos ix (Suc rng)))" "rpos ix (Suc rng) \<le> num_leaves"
    using starts_at [OF ix rng] by (simp_all add: RangeIt_limit_id_def)
  note le_min = limit_le_min [OF y(1) lim(2)]
  obtain r1 where r1: "(if cell_at 30 (rpos ix (Suc rng)) \<le> range_min y then RangeIt_Seek ix (range_min y) else Some rng) = Some r1"
      "rng \<le> r1" "Suc r1 < ?K" "rpos ix r1 < cell_hi y" "cell_lo y < rpos ix (Suc r1)" "\<forall>k. rng \<le> k \<and> k < r1 \<longrightarrow> rpos ix (Suc k) \<le> cell_lo y"
  proof (cases "rpos ix (Suc rng) \<le> cell_lo y")
    case True
    from Seek_correct [OF ix y(1)] obtain k where
      k: "RangeIt_Seek ix (range_min y) = Some k" "Suc k < ?K" "rpos ix k \<le> cell_lo y" "cell_lo y < rpos ix (Suc k)" by blast
    have "rng \<le> k" using mono [of "Suc k" "Suc rng"] k(4) True rng by (cases "rng \<le> k") auto
    moreover have "rpos ix (Suc j) \<le> cell_lo y" if "j < k" for j using mono [of "Suc j" k] that k(2,3) by simp
    moreover have "rpos ix k < cell_hi y" using k(3) cell_lo_less_hi [of y] by linarith
    ultimately show ?thesis using k True by (intro that [of k]) (simp_all add: le_min)
  next
    case False
    then show ?thesis using rng y(2) by (intro that [of rng]) (simp_all add: le_min)
  qed
  from first_past [OF ix y(1) _ r1(4)] r1(3) obtain r2 where
    r2: "r1 < r2" "r2 < ?K" "cell_hi y \<le> rpos ix r2" "\<forall>k\<in>{r1..<r2}. rpos ix k < cell_hi y" by auto
  define n where "n = next_target ts (cell_at 30 (rpos ix r2)) it"
  have q: "rpos ix r2 \<le> num_leaves" "RangeIt_start_id ix r2 = Some (cell_at 30 (rpos ix r2))" using starts_at [OF ix r2(2)] by simp_all
  note nt = next_target_correct [OF ts q(1) less.prems(1), folded n_def]
  let ?S = "\<lambda>r i0. {k. r \<le> k \<and> Suc k < ?K \<and> (\<exists>i. i0 \<le> i \<and> i < length ts \<and> range_meets ix k (ts ! i))}"
  have S: "?S rng it = {r1..<r2} \<union> ?S r2 n"
  proof (intro set_eqI iffI)
    fix k assume "k \<in> ?S rng it"
    then obtain i where k: "rng \<le> k" "Suc k < ?K" "it \<le> i" "i < length ts" "range_meets ix k (ts ! i)" by blast
    have lo: "cell_lo y \<le> cell_lo (ts ! i)"
    proof (cases "i = it")
      case False
      then have "cell_hi y \<le> cell_lo (ts ! i)" using target_nth(1) [OF ts, of it i] k(3,4) by (simp add: y_def)
      then show ?thesis using cell_lo_less_hi [of y] by linarith
    qed (simp add: y_def)
    have "r1 \<le> k" using r1(6) k(1,5) lo by (cases "r1 \<le> k") (force simp: range_meets_def)+
    moreover have "n \<le> i" if "r2 \<le> k"
    proof (rule ccontr)
      assume "\<not> n \<le> i"
      then have "cell_hi (ts ! i) \<le> rpos ix r2" using nt(2) k(3,4) r2(3) by (cases "i = it") (auto simp: y_def)
      then show False using mono [OF that] k(2,5) by (simp add: range_meets_def)
    qed
    ultimately show "k \<in> {r1..<r2} \<union> ?S r2 n" using k by (cases "r2 \<le> k") auto
  next
    fix k assume "k \<in> {r1..<r2} \<union> ?S r2 n"
    then show "k \<in> ?S rng it"
    proof
      assume k: "k \<in> {r1..<r2}"
      then have "range_meets ix k y" using r2 r1(5) mono [of "Suc r1" "Suc k"] by (auto simp: range_meets_def)
      then show ?thesis using k r1(2) r2(2) less.prems(1) by (auto simp: y_def)
    next
      assume "k \<in> ?S r2 n"
      then obtain i where "r2 \<le> k" "Suc k < ?K" "n \<le> i" "i < length ts" "range_meets ix k (ts ! i)" by blast
      moreover have "rng \<le> k" "it \<le> i" using calculation r1(2) r2(1) nt(1) by linarith+
      ultimately show ?thesis by blast
    qed
  qed
  have up: "sorted_wrt (<) ([r1..<r2] @ ks)" if "sorted_wrt (<) ks" "\<forall>k\<in>set ks. r2 \<le> k" for ks
    using that by (force simp: sorted_wrt_append)
  have start: "range_start (range_nodes ix ! rng) \<le> range_start (range_nodes ix ! r1)"
    using mono [OF r1(2)] r1(3) starts_at [OF ix less.prems(2)] starts_at [OF ix, of r1] by (simp add: leaf_le_iff)
  obtain ks where
    ks: "sorted_wrt (<) ks" "set ks = ?S r2 n"
      "\<forall>visitor (s :: 's) c. -1 \<le> node_cutoff c \<longrightarrow> prev_start_id c \<le> range_start (range_nodes ix ! r2) \<longrightarrow>
        (if n < length ts then visit_targets ix ts visitor n r2 c s else Some (True, s)) =
        Some (visit_list visitor (items_at ix (fresh ix (node_cutoff c) ks)) s)"
  proof (cases "n < length ts")
    case True
    have "length ts - n < length ts - it" using nt(1) less.prems(1) by linarith
    from less.hyps [OF this True r2(2) nt(3) [OF True]] obtain ks where
      k: "sorted_wrt (<) ks" "set ks = ?S r2 n"
        "\<forall>visitor (s :: 's) c. -1 \<le> node_cutoff c \<longrightarrow> prev_start_id c \<le> range_start (range_nodes ix ! r2) \<longrightarrow>
        visit_targets ix ts visitor n r2 c s = Some (visit_list visitor (items_at ix (fresh ix (node_cutoff c) ks)) s)"
      by (elim exE conjE)
    show ?thesis by (rule that [OF k(1,2)]) (use k(3) True in simp)
  next
    case False
    then show ?thesis by (intro that [of "[]"]) (auto simp: items_at_def)
  qed
  have "visit_targets ix ts visitor it rng c s =
      Some (visit_list visitor (items_at ix (fresh ix (node_cutoff c) ([r1..<r2] @ ks))) s)"
    if c: "-1 \<le> node_cutoff c" "prev_start_id c \<le> range_start (range_nodes ix ! rng)" for visitor c and s :: 's
  proof -
    let ?L = "items_at ix (fresh ix (node_cutoff c) [r1..<r2])"
    have vt: "visit_targets ix ts visitor it rng c s =
        do { (ok, rng, c, s) \<leftarrow> visit_ranges ix visitor (range_max y) r1 c s;
             if \<not> ok then Some (False, s)
             else do { start \<leftarrow> RangeIt_start_id ix rng;
                    let it = next_target ts start it;
                    if it < length ts then visit_targets ix ts visitor it rng c s else Some (True, s) } }"
      using visit_targets.simps [of ix ts visitor it rng c s, folded y_def, unfolded lim(1) Option.bind.simps r1(1)] .
    obtain v s1 where vl: "visit_list visitor ?L s = (v, s1)" by fastforce
    have "prev_start_id c \<le> range_start (range_nodes ix ! r1)" using c(2) start by (rule order_trans)
    from visit_ranges_run [OF ix y(1) r2(2,3) less_imp_le [OF r2(1)] r2(4) c(1) this, of visitor s]
    obtain r c1 where r: "visit_ranges ix visitor (range_max y) r1 c s = Some (v, r, c1, s1)"
      "v \<longrightarrow> r = r2 \<and> node_cutoff c1 = cutoff ix (node_cutoff c) [r1..<r2] \<and> prev_start_id c1 \<le> range_start (range_nodes ix ! r2)"
      unfolding vl prod.case by (elim exE conjE)
    show ?thesis
    proof (cases v)
      case False
      then show ?thesis unfolding fresh_append items_at_append visit_list_append vt r(1) vl by simp
    next
      case True
      have "-1 \<le> cutoff ix N ks" if "-1 \<le> N" for N ks
        using that by (induction ks arbitrary: N) auto
      then have "(if n < length ts then visit_targets ix ts visitor n r2 c1 s1 else Some (True, s1)) =
          Some (visit_list visitor (items_at ix (fresh ix (node_cutoff c1) ks)) s1)"
        using ks(3) r(2) True c(1) by simp
      moreover obtain w s2 where "visit_list visitor (items_at ix (fresh ix (cutoff ix (node_cutoff c) [r1..<r2]) ks)) s1 = (w, s2)"
        by fastforce
      ultimately show ?thesis unfolding fresh_append items_at_append visit_list_append vt r(1) vl
        using r(2) True q(2) by (cases "n < length ts") (simp_all add: n_def [symmetric] Let_def)
    qed
  qed
  then show ?case
    by (intro exI [of _ "[r1..<r2] @ ks"]) (use up [OF ks(1)] ks(2) S in auto)
qed


section \<open>The visited cells\<close>

lemma meets_target:
  assumes ix: "index_ok ix items" and y: "is_valid y" and j: "j < length (cell_tree ix)"
  shows "(\<exists>k. Suc k < length (range_nodes ix) \<and> range_meets ix k y \<and> j \<in> set (range_path ix k)) \<longleftrightarrow>
    cell_intersects (node_cell (cell_tree ix ! j)) y"
proof -
  let ?x = "node_cell (cell_tree ix ! j)"
  have x: "is_valid ?x" using ix j by (simp add: index_ok_def nodes_ok_def)
  have int: "cell_intersects ?x y \<longleftrightarrow> cell_lo y < cell_hi ?x \<and> cell_lo ?x < cell_hi y"
    using x y by (intro intersects_iff) simp_all
  have bound: "\<exists>k<length (range_nodes ix). rpos ix k = p" if "p = cell_lo ?x \<or> p = cell_hi ?x" for p
  proof -
    have "p \<in> range_pos ` set (range_nodes ix)" using that j ix by (auto simp: index_ok_def)
    then show ?thesis by (auto simp: rpos_def in_set_conv_nth)
  qed
  note path = set_range_path [OF ix]
  show ?thesis
  proof
    assume "\<exists>k. Suc k < length (range_nodes ix) \<and> range_meets ix k y \<and> j \<in> set (range_path ix k)"
    then obtain k where k: "Suc k < length (range_nodes ix)" "range_meets ix k y" "j \<in> set (range_path ix k)" by blast
    have n: "cell_lo ?x \<le> rpos ix k" "rpos ix k < cell_hi ?x"
      using k(3) unfolding path [OF Suc_lessD [OF k(1)]] by (simp_all add: node_lo_def node_hi_def)
    from bound obtain e where e: "e < length (range_nodes ix)" "rpos ix e = cell_hi ?x" by blast
    have "k < e" using sorted_starts [OF ix, of e k] n(2) e k(1) by (cases e k rule: linorder_cases) auto
    then have "rpos ix (Suc k) \<le> rpos ix e" using sorted_starts [OF ix, of "Suc k" e] e(1) by (cases "Suc k = e") auto
    then show "cell_intersects ?x y" unfolding int using k(2) n e(2) by (auto simp: range_meets_def)
  next
    assume "cell_intersects ?x y"
    then have i: "cell_lo y < cell_hi ?x" "cell_lo ?x < cell_hi y" by (simp_all add: int)
    define l where "l = (if cell_lo y < cell_lo ?x then ?x else y)"
    have l: "is_valid l" "cell_lo ?x \<le> cell_lo l" "cell_lo l < cell_hi ?x" "cell_lo y \<le> cell_lo l" "cell_lo l < cell_hi y"
      using i x y cell_lo_less_hi [of ?x] cell_lo_less_hi [of y] by (simp_all add: l_def)
    from Seek_correct [OF ix l(1)] obtain k where
      k: "Suc k < length (range_nodes ix)" "rpos ix k \<le> cell_lo l" "cell_lo l < rpos ix (Suc k)" by blast
    have "cell_lo ?x \<le> rpos ix k"
    proof -
      from bound obtain e where e: "e < length (range_nodes ix)" "rpos ix e = cell_lo ?x" by blast
      have "e \<le> k"
      proof (rule ccontr)
        assume "\<not> e \<le> k"
        then have "rpos ix (Suc k) \<le> rpos ix e" using sorted_starts [OF ix, of "Suc k" e] e(1) by (cases "Suc k = e") auto
        then show False using k(3) l(2) e(2) by simp
      qed
      then show ?thesis using sorted_starts [OF ix, of e k] k(1) e(2) by (cases "e = k") auto
    qed
    then have "j \<in> set (range_path ix k)" unfolding path [OF Suc_lessD [OF k(1)]]
      using j k(2) l(3) by (simp add: node_lo_def node_hi_def)
    moreover have "range_meets ix k y" using k l by (simp add: range_meets_def)
    ultimately show "\<exists>k. Suc k < length (range_nodes ix) \<and> range_meets ix k y \<and> j \<in> set (range_path ix k)" using k(1) by blast
  qed
qed

lemma mset_items_at:
  assumes "distinct js" "set js = {j. j < length (cell_tree ix) \<and> P (node_item (cell_tree ix ! j))}"
  shows "mset (items_at ix js) = filter_mset P (mset (map node_item (cell_tree ix)))"
proof -
  have "set js = set (filter (\<lambda>j. P (node_item (cell_tree ix ! j))) [0..<length (cell_tree ix)])" using assms(2) by auto
  then have "mset js = mset (filter (\<lambda>j. P (node_item (cell_tree ix ! j))) [0..<length (cell_tree ix)])"
    using assms(1) by (subst set_eq_iff_mset_eq_distinct [symmetric]) simp_all
  then have "mset (items_at ix js) =
      image_mset (\<lambda>j. node_item (cell_tree ix ! j)) (filter_mset (\<lambda>j. P (node_item (cell_tree ix ! j))) (mset [0..<length (cell_tree ix)]))"
    by (simp add: items_at_def)
  also have "\<dots> = filter_mset P (mset (map (\<lambda>j. node_item (cell_tree ix ! j)) [0..<length (cell_tree ix)]))"
    by (simp add: filter_mset_image_mset)
  also have "map (\<lambda>j. node_item (cell_tree ix ! j)) [0..<length (cell_tree ix)] = map node_item (cell_tree ix)"
    by (rule nth_equalityI) simp_all
  finally show ?thesis .
qed

lemma visit_correct:
  assumes ix: "index_ok ix items" and ts: "wf_union ts"
  shows "\<exists>its. mset its = filter_mset (\<lambda>(x, l). \<exists>y\<in>set ts. cell_intersects x y) items \<and>
    (\<forall>visitor (s :: 's). CI_VisitIntersectingCells ix ts visitor s = Some (visit_list visitor its s))"
proof (cases "ts = []")
  case True
  then show ?thesis by (intro exI [of _ "[]"]) (simp add: CI_VisitIntersectingCells_def)
next
  case False
  have v: "is_valid y" if "y \<in> set ts" for y using ts that by (simp add: wf_union_def)
  have r0: "0 < length (range_nodes ix)" "rpos ix 0 < cell_hi (ts ! 0)"
    using range_ends [OF ix] cell_lo_less_hi [of "ts ! 0"] by (simp_all del: cell_lo_less_hi)
  from visit_targets_run [OF ix ts _ r0] False obtain ks where
    ks: "sorted_wrt (<) ks"
      "set ks = {k. Suc k < length (range_nodes ix) \<and> (\<exists>i<length ts. range_meets ix k (ts ! i))}"
      "\<forall>visitor (s :: 's) c. -1 \<le> node_cutoff c \<longrightarrow> prev_start_id c \<le> range_start (range_nodes ix ! 0) \<longrightarrow>
        visit_targets ix ts visitor 0 0 c s = Some (visit_list visitor (items_at ix (fresh ix (node_cutoff c) ks)) s)"
    by auto
  have f: "distinct (fresh ix (-1) ks) \<and> set (fresh ix (-1) ks) = (\<Union>k\<in>set ks. set (range_path ix k))"
    using fresh_correct [OF ix, of "[]" ks "-1"] ks(1,2) by (auto simp: cut_by_def)
  have ex: "(\<exists>i<length ts. P (ts ! i)) \<longleftrightarrow> (\<exists>y\<in>set ts. P y)" for P
    by (metis in_set_conv_nth)
  have mem: "j \<in> set (fresh ix (-1) ks) \<longleftrightarrow> j < length (cell_tree ix) \<and> (case node_item (cell_tree ix ! j) of (x, l) \<Rightarrow> \<exists>y\<in>set ts. cell_intersects x y)" for j
  proof (cases "j < length (cell_tree ix)")
    case True
    have "(\<exists>k\<in>set ks. j \<in> set (range_path ix k)) \<longleftrightarrow>
        (\<exists>y\<in>set ts. \<exists>k. Suc k < length (range_nodes ix) \<and> range_meets ix k y \<and> j \<in> set (range_path ix k))"
      unfolding ks(2) ex by blast
    also have "\<dots> \<longleftrightarrow> (\<exists>y\<in>set ts. cell_intersects (node_cell (cell_tree ix ! j)) y)"
      using meets_target [OF ix v True] by blast
    finally show ?thesis using f True by (simp add: node_item_def)
  next
    case j: False
    have "j \<notin> set (range_path ix k)" if "k \<in> set ks" for k
      using that set_range_path [OF ix, of k] j unfolding ks(2) by auto
    then show ?thesis using f j by auto
  qed
  have "set (fresh ix (-1) ks) = {j. j < length (cell_tree ix) \<and> (case node_item (cell_tree ix ! j) of (x, l) \<Rightarrow> \<exists>y\<in>set ts. cell_intersects x y)}"
    by (intro set_eqI, unfold mem_Collect_eq) (rule mem)
  then have "mset (items_at ix (fresh ix (-1) ks)) = filter_mset (\<lambda>(x, l). \<exists>y\<in>set ts. cell_intersects x y) (mset (map node_item (cell_tree ix)))"
    using f by (intro mset_items_at) simp_all
  moreover have "mset (map node_item (cell_tree ix)) = items" using ix by (simp add: index_ok_def)
  moreover have "CI_VisitIntersectingCells ix ts visitor s = Some (visit_list visitor (items_at ix (fresh ix (-1) ks)) s)" for visitor and s :: 's
    using ks(3) False
    by (simp add: CI_VisitIntersectingCells_def RangeIt_Begin_def ContentsIt_init_def ContentsIt_Clear_def CI_set_done_def cell_None_def)
  ultimately show ?thesis by (intro exI [of _ "items_at ix (fresh ix (-1) ks)"]) simp
qed

lemma visit_list_labels: "visit_list (\<lambda>x l labels. (True, insert l labels)) its S = (True, S \<union> snd ` set its)"
  by (induction its arbitrary: S) auto

lemma labels_correct:
  assumes "index_ok ix items" "wf_union ts"
  shows "CI_GetIntersectingLabels ix ts = Some {l. \<exists>x. (x, l) \<in># items \<and> (\<exists>y\<in>set ts. cell_intersects x y)}"
proof -
  from visit_correct [OF assms, where 's = "label set"] obtain its :: "(cellid \<times> label) list" where
    its: "mset its = filter_mset (\<lambda>(x, l). \<exists>y\<in>set ts. cell_intersects x y) items"
      "\<forall>visitor (s :: label set). CI_VisitIntersectingCells ix ts visitor s = Some (visit_list visitor its s)"
    by (elim exE conjE)
  have "set its = {it. it \<in># items \<and> (case it of (x, l) \<Rightarrow> \<exists>y\<in>set ts. cell_intersects x y)}"
    using arg_cong [OF its(1), of set_mset] by simp
  then have "snd ` set its = {l. \<exists>x. (x, l) \<in># items \<and> (\<exists>y\<in>set ts. cell_intersects x y)}" by (force simp: image_iff)
  then show ?thesis by (simp add: CI_GetIntersectingLabels_def its(2) visit_list_labels)
qed

end
