(* ===== verification/Cell_Index_Properties.thy ===== *)
theory Cell_Index_Properties
  imports Cell_Index_Scan
begin

text \<open>
  The properties of \<^verbatim>\<open>S2CellIndex\<close>: what \<open>Build\<close> stores, and what a query reports.
\<close>

definition CI_of :: "(cellid \<times> label) list \<Rightarrow> cell_index" where
  "CI_of adds = fold (\<lambda>(x, l). CI_Add x l) adds CI_empty"

definition adds_ok :: "(cellid \<times> label) list \<Rightarrow> bool" where
  "adds_ok adds \<longleftrightarrow> (\<forall>(x, l)\<in>set adds. is_valid x \<and> 0 \<le> l)"

lemma fold_Add:
  "fold (\<lambda>(x, l). CI_Add x l) adds ix =
    ix\<lparr>cell_tree := cell_tree ix @ map (\<lambda>(x, l). \<lparr>node_cell = x, node_label = l, node_parent = -1\<rparr>) adds\<rparr>"
  by (induction adds arbitrary: ix) (auto simp: CI_Add_def)

lemma CI_of_simps:
  shows "range_nodes (CI_of adds) = []" and "map node_item (cell_tree (CI_of adds)) = adds"
    and "adds_ok adds \<Longrightarrow> nodes_ok (cell_tree (CI_of adds))"
proof -
  show "range_nodes (CI_of adds) = []" "adds_ok adds \<Longrightarrow> nodes_ok (cell_tree (CI_of adds))"
    unfolding CI_of_def fold_Add CI_empty_def by (auto simp: adds_ok_def nodes_ok_def)
  show "map node_item (cell_tree (CI_of adds)) = adds"
    unfolding CI_of_def fold_Add CI_empty_def by (induction adds) (auto simp: node_item_def)
qed

lemma built:
  assumes "adds_ok adds"
  obtains ix where "CI_Build (CI_of adds) = Some ix" "index_ok ix (mset adds)"
  using build_index_ok [of "CI_of adds"] CI_of_simps(1,2) [of adds] CI_of_simps(3) [OF assms] by auto

text \<open>\<open>Add\<close> of a union adds its cells one by one.\<close>

lemma Add_union_adds: "CI_Add_union xs l (CI_of adds) = CI_of (adds @ map (\<lambda>x. (x, l)) xs)"
  by (simp add: CI_Add_union_def CI_of_def fold_map comp_def)

lemma leaf_path:
  assumes ix: "index_ok ix (mset adds)" and k: "Suc k < length (range_nodes ix)" and leaf: "is_valid leaf" "is_leaf leaf"
    and at: "range_start (range_nodes ix ! k) \<le> leaf" "leaf < range_start (range_nodes ix ! Suc k)"
  shows "mset (items_at ix (range_path ix k)) = filter_mset (\<lambda>(x, l). cell_contains x leaf) (mset adds)"
proof -
  obtain l p where lp: "l \<le> 30" "p < 6 * 4 ^ l" "p < 7 * 4 ^ l" "leaf = cell_at l p" using leaf(1) by (rule cell_span_at_cases)
  then have "l = 30" using leaf(2) is_leaf_at [of l p] by simp
  then have lf: "leaf = cell_at 30 p" "p < num_leaves" using lp by (simp_all add: num_leaves_def)
  have span: "cell_lo leaf = p" "cell_hi leaf = Suc p" using lp unfolding \<open>l = 30\<close> by (simp_all add: span_at)
  have s: "rpos ix k \<le> num_leaves" "rpos ix (Suc k) \<le> num_leaves" "rpos ix k \<le> p" "p < rpos ix (Suc k)"
    using starts_at(1,2) [OF ix Suc_lessD [OF k]] starts_at(1,2) [OF ix k] at lf by (simp_all add: leaf_le_iff leaf_less_iff)
  then have m: "range_meets ix k leaf" by (simp add: range_meets_def span)
  have u: "i = k" if i: "Suc i < length (range_nodes ix)" "range_meets ix i leaf" for i
  proof (cases i k rule: linorder_cases)
    case less
    then have "rpos ix (Suc i) \<le> rpos ix k" using sorted_starts [OF ix, of "Suc i" k] k by (cases "Suc i = k") auto
    then show ?thesis using i(2) s(3) by (simp add: range_meets_def span)
  next
    case greater
    then have "rpos ix (Suc k) \<le> rpos ix i" using sorted_starts [OF ix, of "Suc k" i] i(1) by (cases "Suc k = i") auto
    then show ?thesis using i(2) s(4) by (simp add: range_meets_def span)
  qed
  have mem: "j \<in> set (range_path ix k) \<longleftrightarrow> (case node_item (cell_tree ix ! j) of (x, l) \<Rightarrow> cell_contains x leaf)"
    if j: "j < length (cell_tree ix)" for j
  proof -
    have "is_valid (node_cell (cell_tree ix ! j))" using ix j by (simp add: index_ok_def nodes_ok_def)
    then have "cell_intersects (node_cell (cell_tree ix ! j)) leaf \<longleftrightarrow> cell_contains (node_cell (cell_tree ix ! j)) leaf"
      using leaf(1) by (auto simp: intersects_iff contains_iff span)
    moreover have "j \<in> set (range_path ix k) \<longleftrightarrow> cell_intersects (node_cell (cell_tree ix ! j)) leaf"
    proof
      assume "j \<in> set (range_path ix k)"
      then show "cell_intersects (node_cell (cell_tree ix ! j)) leaf"
        by (intro iffD1 [OF meets_target [OF ix leaf(1) j]] exI [of _ k] conjI k m)
    next
      assume "cell_intersects (node_cell (cell_tree ix ! j)) leaf"
      from iffD2 [OF meets_target [OF ix leaf(1) j] this] obtain i where
        "Suc i < length (range_nodes ix)" "range_meets ix i leaf" "j \<in> set (range_path ix i)" by (elim exE conjE)
      then show "j \<in> set (range_path ix k)" using u [of i] by simp
    qed
    ultimately show ?thesis by (simp add: node_item_def)
  qed
  have "set (range_path ix k) = {j. j < length (cell_tree ix) \<and> (case node_item (cell_tree ix ! j) of (x, l) \<Rightarrow> cell_contains x leaf)}"
  proof (intro set_eqI)
    fix j
    have "j < length (cell_tree ix)" if "j \<in> set (range_path ix k)"
      using that unfolding set_range_path [OF ix Suc_lessD [OF k]] by simp
    then show "j \<in> set (range_path ix k) \<longleftrightarrow>
        j \<in> {j. j < length (cell_tree ix) \<and> (case node_item (cell_tree ix ! j) of (x, l) \<Rightarrow> cell_contains x leaf)}"
      unfolding mem_Collect_eq using mem [of j] by (cases "j < length (cell_tree ix)") auto
  qed
  moreover have "distinct (range_path ix k)"
    unfolding range_path_def using ix
    by (intro down_distinct path_down contents_in_tree [OF ix Suc_lessD [OF k]]) (simp add: index_ok_def)
  ultimately have "mset (items_at ix (range_path ix k)) = filter_mset (\<lambda>(x, l). cell_contains x leaf) (mset (map node_item (cell_tree ix)))"
    by (intro mset_items_at)
  then show ?thesis using ix by (simp add: index_ok_def)
qed

text \<open>C22: after \<open>Add\<close>s of valid cells with nonnegative labels and \<open>Build\<close>, which succeeds, the ranges start at
  strictly increasing leaf cells from the first to past the last leaf, and following the parent indices from the contents of a
  range meets the labelled cells that contain the start of the range, each as often as it was added, and no others;
  the same holds for any leaf of the range.\<close>

theorem Build_ranges:
  assumes "adds_ok adds"
  shows "\<exists>ix. CI_Build (CI_of adds) = Some ix \<and>
    sorted_wrt (<) (map range_start (range_nodes ix)) \<and>
    RangeIt_start_id ix RangeIt_Begin = Some (cell_Begin kMaxLevel) \<and>
    RangeIt_start_id ix (RangeIt_Finish ix) = Some (cell_End kMaxLevel) \<and>
    (\<forall>k leaf. \<not> RangeIt_done ix k \<and> is_valid leaf \<and> is_leaf leaf \<and>
        range_start (range_nodes ix ! k) \<le> leaf \<and> leaf < range_start (range_nodes ix ! Suc k) \<longrightarrow>
      mset (items_at ix (range_path ix k)) = filter_mset (\<lambda>(x, l). cell_contains x leaf) (mset adds))"
proof -
  obtain ix where b: "CI_Build (CI_of adds) = Some ix" "index_ok ix (mset adds)" by (rule built [OF assms])
  have n: "range_nodes ix \<noteq> []" "length (range_nodes ix) - 1 < length (range_nodes ix)"
    using range_ends(1) [OF b(2)] by simp_all
  have "sorted_wrt (<) (map range_start (range_nodes ix))"
    unfolding sorted_wrt_iff_nth_less
  proof (intro allI impI)
    fix i j assume ij: "i < j" "j < length (map range_start (range_nodes ix))"
    then show "map range_start (range_nodes ix) ! i < map range_start (range_nodes ix) ! j"
      using sorted_starts [OF b(2), of i j] starts_at(1,2) [OF b(2), of i] starts_at(1,2) [OF b(2), of j]
      by (simp add: leaf_less_iff)
  qed
  moreover have "RangeIt_start_id ix RangeIt_Begin = Some (cell_Begin kMaxLevel)"
    "RangeIt_start_id ix (RangeIt_Finish ix) = Some (cell_End kMaxLevel)"
    using starts_at(3) [OF b(2), of 0] starts_at(3) [OF b(2) n(2)] range_ends(2,3) [OF b(2)] n(1)
    unfolding cell_Begin_leaf cell_End_leaf RangeIt_Begin_def RangeIt_Finish_def by simp_all
  moreover have "mset (items_at ix (range_path ix k)) = filter_mset (\<lambda>(x, l). cell_contains x leaf) (mset adds)"
    if k: "\<not> RangeIt_done ix k" "is_valid leaf" "is_leaf leaf" "range_start (range_nodes ix ! k) \<le> leaf"
      "leaf < range_start (range_nodes ix ! Suc k)" for k leaf
    using k by (intro leaf_path [OF b(2)]) (simp_all add: RangeIt_done_def)
  ultimately show ?thesis using b(1) by (intro exI [of _ ix]) blast
qed

theorem Build_ranges_witness:
  "\<exists>ix. CI_Build (CI_of [(0x1000000000000000, 5), (0x3000000000000000, 7)]) = Some ix \<and>
    RangeIt_start_id ix RangeIt_Begin = Some (cell_Begin kMaxLevel) \<and>
    RangeIt_start_id ix (RangeIt_Finish ix) = Some (cell_End kMaxLevel)"
proof -
  have "adds_ok [(0x1000000000000000, 5), (0x3000000000000000, 7)]" by code_simp
  from Build_ranges [OF this] show ?thesis by blast
qed

text \<open>C21: a query with a valid union calls the visitor on exactly the labelled cells that intersect a cell of
  the union, each as often as it was added, in an order that does not depend on the visitor, and stops at its first
  \<open>false\<close>; no access is out of bounds and the loops end.\<close>

theorem VisitIntersectingCells_correct:
  assumes "adds_ok adds" "CU_IsValid target"
  shows "\<exists>ix its. CI_Build (CI_of adds) = Some ix \<and>
    mset its = filter_mset (\<lambda>(x, l). \<exists>y\<in>set target. cell_intersects x y) (mset adds) \<and>
    (\<forall>visitor (s :: 's). CI_VisitIntersectingCells ix target visitor s = Some (visit_list visitor its s))"
proof -
  obtain ix where b: "CI_Build (CI_of adds) = Some ix" "index_ok ix (mset adds)" by (rule built [OF assms(1)])
  show ?thesis using visit_correct [OF b(2), of target, where 's = 's] assms(2) b(1) by (auto simp: IsValid_iff)
qed

theorem VisitIntersectingCells_witness:
  "\<exists>ix. CI_Build (CI_of [(0x1000000000000000, 5), (0x3000000000000000, 7), (0x1000000000000000, 5)]) = Some ix \<and>
    CI_VisitIntersectingCells ix [0x0400000000000000] (\<lambda>x l n. (True, n + l)) 0 = Some (True, 10)"
proof -
  have "adds_ok [(0x1000000000000000, 5), (0x3000000000000000, 7), (0x1000000000000000, 5)]" "CU_IsValid [0x0400000000000000]"
    by code_simp+
  from VisitIntersectingCells_correct [OF this, where 's = int] obtain ix its where
    i: "CI_Build (CI_of [(0x1000000000000000, 5), (0x3000000000000000, 7), (0x1000000000000000, 5)]) = Some ix"
      "mset its = filter_mset (\<lambda>(x, l). \<exists>y\<in>set [0x0400000000000000]. cell_intersects x y)
         (mset [(0x1000000000000000, 5), (0x3000000000000000, 7), (0x1000000000000000, 5)])"
      "\<forall>visitor (s :: int). CI_VisitIntersectingCells ix [0x0400000000000000] visitor s = Some (visit_list visitor its s)"
    by (elim exE conjE)
  have "cell_intersects 0x1000000000000000 0x0400000000000000" "\<not> cell_intersects 0x3000000000000000 0x0400000000000000"
    by code_simp+
  then have m: "mset its = mset [(0x1000000000000000, 5), (0x1000000000000000, 5)]" using i(2) by simp
  have "length its = 2" "\<forall>it\<in>set its. it = (0x1000000000000000, 5)"
    using mset_eq_length [OF m] mset_eq_setD [OF m] by simp_all
  then have "its = replicate 2 (0x1000000000000000, 5)" using replicate_length_same by fastforce
  then show ?thesis using i(1,3) by (simp add: numeral_2_eq_2)
qed

text \<open>C23: \<open>GetIntersectingLabels\<close> returns the labels of the added cells that intersect the target.\<close>

theorem GetIntersectingLabels_correct:
  assumes "adds_ok adds" "CU_IsValid target"
  shows "Option.bind (CI_Build (CI_of adds)) (\<lambda>ix. CI_GetIntersectingLabels ix target) =
    Some {l. \<exists>x. (x, l) \<in> set adds \<and> (\<exists>y\<in>set target. cell_intersects x y)}"
proof -
  obtain ix where "CI_Build (CI_of adds) = Some ix" "index_ok ix (mset adds)" by (rule built [OF assms(1)])
  then show ?thesis using labels_correct [of ix "mset adds" target] assms(2) by (simp add: IsValid_iff)
qed


theorem GetIntersectingLabels_witness:
  "Option.bind (CI_Build (CI_of [(0x1000000000000000, 5), (0x3000000000000000, 7)]))
     (\<lambda>ix. CI_GetIntersectingLabels ix [0x0400000000000000]) = Some {5}"
proof -
  have ok: "adds_ok [(0x1000000000000000, 5), (0x3000000000000000, 7)]" "CU_IsValid [0x0400000000000000]" by code_simp+
  have i: "cell_intersects 0x1000000000000000 0x0400000000000000" "\<not> cell_intersects 0x3000000000000000 0x0400000000000000"
    by code_simp+
  have "{l. \<exists>x. (x, l) \<in> set [(0x1000000000000000, 5), (0x3000000000000000, 7)] \<and> (\<exists>y\<in>set [0x0400000000000000]. cell_intersects x y)} = {5}"
    using i by auto
  then show ?thesis using GetIntersectingLabels_correct [OF ok] by simp
qed

end
