(* ===== verification/Exact_Vector.thy ===== *)
theory Exact_Vector
  imports Complex_Main
begin

text \<open>
  Points and exact vectors (\<^verbatim>\<open>Vector3\<close> of \<^verbatim>\<open>s2/util/math/vector.h\<close>).  A finite \<^verbatim>\<open>double\<close> is a rational number and
  the arithmetic of \<^verbatim>\<open>ExactFloat\<close> does not round, so that an \<^verbatim>\<open>S2Point\<close> and a \<^verbatim>\<open>Vector3_xf\<close> are triples of rational
  numbers and \<^verbatim>\<open>ToExact\<close> is the identity.  The comparison of vectors is lexicographic.
\<close>

datatype vec = Vec (vx: rat) (vy: rat) (vz: rat)

lemma vec_eq_iff: "a = b \<longleftrightarrow> vx a = vx b \<and> vy a = vy b \<and> vz a = vz b"
  by (cases a; cases b) simp

instantiation vec :: linorder
begin

definition less_vec :: "vec \<Rightarrow> vec \<Rightarrow> bool" where
  "a < b \<longleftrightarrow> vx a < vx b \<or> vx a = vx b \<and> (vy a < vy b \<or> vy a = vy b \<and> vz a < vz b)"

definition less_eq_vec :: "vec \<Rightarrow> vec \<Rightarrow> bool" where
  "a \<le> b \<longleftrightarrow> vx a < vx b \<or> vx a = vx b \<and> (vy a < vy b \<or> vy a = vy b \<and> vz a \<le> vz b)"

instance
  by standard (auto simp: less_vec_def less_eq_vec_def vec_eq_iff)

end

instantiation vec :: ab_group_add
begin

definition zero_vec :: vec where "0 = Vec 0 0 0"
definition plus_vec :: "vec \<Rightarrow> vec \<Rightarrow> vec" where "a + b = Vec (vx a + vx b) (vy a + vy b) (vz a + vz b)"
definition minus_vec :: "vec \<Rightarrow> vec \<Rightarrow> vec" where "a - b = Vec (vx a - vx b) (vy a - vy b) (vz a - vz b)"
definition uminus_vec :: "vec \<Rightarrow> vec" where "- a = Vec (- vx a) (- vy a) (- vz a)"

instance
  by standard (auto simp: zero_vec_def plus_vec_def minus_vec_def uminus_vec_def vec_eq_iff)

end

definition CrossProd :: "vec \<Rightarrow> vec \<Rightarrow> vec" where
  "CrossProd a b = Vec (vy a * vz b - vz a * vy b) (vz a * vx b - vx a * vz b) (vx a * vy b - vy a * vx b)"

definition DotProd :: "vec \<Rightarrow> vec \<Rightarrow> rat" where
  "DotProd a b = vx a * vx b + vy a * vy b + vz a * vz b"

definition Norm2 :: "vec \<Rightarrow> rat" where
  "Norm2 a = DotProd a a"

definition vec_scale :: "rat \<Rightarrow> vec \<Rightarrow> vec" where
  "vec_scale k a = Vec (k * vx a) (k * vy a) (k * vz a)"

text \<open>\<^verbatim>\<open>ExactFloat::sgn\<close>.\<close>

definition xsgn :: "rat \<Rightarrow> int" where
  "xsgn r = (if r < 0 then -1 else if 0 < r then 1 else 0)"

lemma vec_sel_simps [simp]:
  "vx (a + b) = vx a + vx b" "vy (a + b) = vy a + vy b" "vz (a + b) = vz a + vz b"
  "vx (a - b) = vx a - vx b" "vy (a - b) = vy a - vy b" "vz (a - b) = vz a - vz b"
  "vx (- a) = - vx a" "vy (- a) = - vy a" "vz (- a) = - vz a"
  "vx 0 = 0" "vy 0 = 0" "vz 0 = 0"
  "vx (vec_scale k a) = k * vx a" "vy (vec_scale k a) = k * vy a" "vz (vec_scale k a) = k * vz a"
  by (simp_all add: plus_vec_def minus_vec_def uminus_vec_def zero_vec_def vec_scale_def)

lemma CrossProd_sel [simp]:
  "vx (CrossProd a b) = vy a * vz b - vz a * vy b"
  "vy (CrossProd a b) = vz a * vx b - vx a * vz b"
  "vz (CrossProd a b) = vx a * vy b - vy a * vx b"
  by (simp_all add: CrossProd_def)

text \<open>The determinant of three points, and how it changes with their order.\<close>

definition det3 :: "vec \<Rightarrow> vec \<Rightarrow> vec \<Rightarrow> rat" where
  "det3 a b c = DotProd a (CrossProd b c)"

lemma det3_eq:
  "det3 a b c = vx a * (vy b * vz c - vz b * vy c) + vy a * (vz b * vx c - vx b * vz c) + vz a * (vx b * vy c - vy b * vx c)"
  by (simp add: det3_def DotProd_def)

lemma det3_rotate: "det3 b c a = det3 a b c"
  by (simp add: det3_eq algebra_simps)

lemma det3_swap: "det3 b a c = - det3 a b c" "det3 a c b = - det3 a b c" "det3 c b a = - det3 a b c"
  by (simp_all add: det3_eq algebra_simps)

lemma det3_same [simp]: "det3 a a b = 0" "det3 a b a = 0" "det3 b a a = 0"
  by (simp_all add: det3_eq algebra_simps)

lemma DotProd_commute: "DotProd a b = DotProd b a"
  by (simp add: DotProd_def algebra_simps)

lemma CrossProd_DotProd: "DotProd (CrossProd a b) c = det3 a b c"
  by (simp add: det3_eq DotProd_def algebra_simps)

text \<open>The three-term Grassmann-Pluecker relation.\<close>

lemma det3_pluecker:
  "det3 o' a b * det3 o' c d - det3 o' a c * det3 o' b d + det3 o' a d * det3 o' b c = 0"
  by (simp add: det3_eq algebra_simps)

lemma xsgn_simps [simp]:
  "xsgn 0 = 0" "xsgn 1 = 1" "xsgn (- r) = - xsgn r"
  "xsgn r = 0 \<longleftrightarrow> r = 0" "xsgn r = 1 \<longleftrightarrow> 0 < r" "xsgn r = -1 \<longleftrightarrow> r < 0" "0 < xsgn r \<longleftrightarrow> 0 < r" "xsgn r < 0 \<longleftrightarrow> r < 0"
  "0 \<le> xsgn r \<longleftrightarrow> 0 \<le> r" "xsgn r \<le> 0 \<longleftrightarrow> r \<le> 0"
  by (auto simp: xsgn_def)

lemma xsgn_cases: obtains "xsgn r = 1" "0 < r" | "xsgn r = 0" "r = 0" | "xsgn r = -1" "r < 0"
  by (cases r "0 :: rat" rule: linorder_cases) (auto simp: xsgn_def)

lemma xsgn_mult: "xsgn (r * s) = xsgn r * xsgn s"
  by (auto simp: xsgn_def mult_pos_pos mult_neg_neg mult_pos_neg mult_neg_pos zero_less_mult_iff mult_less_0_iff)

lemma xsgn_diff_eq: "xsgn (r - s) = (if r < s then -1 else if s < r then 1 else 0)"
  by (simp add: xsgn_def)

lemma Norm2_nonneg [simp]: "0 \<le> Norm2 a"
  by (simp add: Norm2_def DotProd_def)

lemma Norm2_zero_iff [simp]: "Norm2 a = 0 \<longleftrightarrow> a = 0"
proof -
  have "Norm2 a = 0 \<longleftrightarrow> vx a * vx a + (vy a * vy a + vz a * vz a) = 0" by (simp add: Norm2_def DotProd_def add.assoc)
  also have "\<dots> \<longleftrightarrow> a = 0" by (auto simp: add_nonneg_eq_0_iff vec_eq_iff)
  finally show ?thesis .
qed

end
