(* ===== verification/Exact_Sign.thy ===== *)
theory Exact_Sign
  imports Exact_Vector
begin

text \<open>
  The orientation predicate (\<^verbatim>\<open>s2/s2predicates.cc\<close> and \<^verbatim>\<open>.h\<close>): \<open>Sign\<close>, which falls back to \<open>ExpensiveSign\<close>, the exact determinant
  and the symbolic perturbations.  The two floating-point tests that come before the exact computation are an argument.
\<close>

text \<open>The idiom \<^verbatim>\<open>det_sign = ...; if (det_sign != 0) return det_sign;\<close>, in a row.\<close>

fun first_sign :: "int list \<Rightarrow> int \<Rightarrow> int" where
  "first_sign [] d = d"
| "first_sign (s # ss) d = (if s \<noteq> 0 then s else first_sign ss d)"

definition SymbolicallyPerturbedSign :: "vec \<Rightarrow> vec \<Rightarrow> vec \<Rightarrow> vec \<Rightarrow> int" where
  "SymbolicallyPerturbedSign a b c b_cross_c =
     first_sign
       [xsgn (vz b_cross_c),
        xsgn (vy b_cross_c),
        xsgn (vx b_cross_c),
        xsgn (vx c * vy a - vy c * vx a),
        xsgn (vx c),
        - xsgn (vy c),
        xsgn (vz c * vx a - vx c * vz a),
        xsgn (vz c),
        xsgn (vx a * vy b - vy a * vx b),
        - xsgn (vx b),
        xsgn (vy b),
        xsgn (vx a)] 1"

definition sort_step :: "bool \<Rightarrow> 'a \<times> 'a \<times> int \<Rightarrow> 'a \<times> 'a \<times> int" where
  "sort_step swp st = (case st of (p, q, perm_sign) \<Rightarrow> if swp then (q, p, - perm_sign) else (p, q, perm_sign))"

definition ExactSign :: "vec \<Rightarrow> vec \<Rightarrow> vec \<Rightarrow> bool \<Rightarrow> int" where
  "ExactSign a b c perturb =
     (let (pa, pb, perm_sign) = sort_step (a > b) (a, b, 1);
          (pb, pc, perm_sign) = sort_step (pb > c) (pb, c, perm_sign);
          (pa, pb, perm_sign) = sort_step (pa > pb) (pa, pb, perm_sign);
          xb_cross_xc = CrossProd pb pc;
          det = DotProd pa xb_cross_xc;
          det_sign = xsgn det;
          det_sign = (if det_sign = 0 \<and> perturb then SymbolicallyPerturbedSign pa pb pc xb_cross_xc else det_sign)
      in perm_sign * det_sign)"

text \<open>The floating-point tests: each returns the sign of the determinant or, when it is not certain, 0.\<close>

record sign_tests =
  triage_sign :: "vec \<Rightarrow> vec \<Rightarrow> vec \<Rightarrow> int"
  stable_sign :: "vec \<Rightarrow> vec \<Rightarrow> vec \<Rightarrow> int"

definition ExpensiveSign :: "sign_tests \<Rightarrow> vec \<Rightarrow> vec \<Rightarrow> vec \<Rightarrow> bool \<Rightarrow> int" where
  "ExpensiveSign ft a b c perturb =
     (if a = b \<or> b = c \<or> c = a then 0
      else let det_sign = stable_sign ft a b c
           in if det_sign \<noteq> 0 then det_sign else ExactSign a b c perturb)"

definition Sign :: "sign_tests \<Rightarrow> vec \<Rightarrow> vec \<Rightarrow> vec \<Rightarrow> int" where
  "Sign ft a b c =
     (let sign = triage_sign ft a b c in if sign = 0 then ExpensiveSign ft a b c True else sign)"

definition UnperturbedSign :: "sign_tests \<Rightarrow> vec \<Rightarrow> vec \<Rightarrow> vec \<Rightarrow> int" where
  "UnperturbedSign ft a b c =
     (let sign = triage_sign ft a b c in if sign = 0 then ExpensiveSign ft a b c False else sign)"

definition OrderedCCW :: "sign_tests \<Rightarrow> vec \<Rightarrow> vec \<Rightarrow> vec \<Rightarrow> vec \<Rightarrow> bool" where
  "OrderedCCW ft a b c pt =
     (let sum = (0 :: int);
          sum = (if Sign ft b pt a \<ge> 0 then sum + 1 else sum);
          sum = (if Sign ft c pt b \<ge> 0 then sum + 1 else sum);
          sum = (if Sign ft a pt c > 0 then sum + 1 else sum)
      in sum \<ge> 2)"

text \<open>The tests are sound for a set of points when a sign they report is that of the determinant.\<close>

definition sign_tests_sound :: "sign_tests \<Rightarrow> vec set \<Rightarrow> bool" where
  "sign_tests_sound ft S \<longleftrightarrow>
     (\<forall>a\<in>S. \<forall>b\<in>S. \<forall>c\<in>S. (triage_sign ft a b c \<noteq> 0 \<longrightarrow> triage_sign ft a b c = xsgn (det3 a b c)) \<and>
        (stable_sign ft a b c \<noteq> 0 \<longrightarrow> stable_sign ft a b c = xsgn (det3 a b c)))"

end
