(* ===== verification/Sign_Perturbation.thy ===== *)
theory Sign_Perturbation
  imports Exact_Sign
begin

text \<open>
  The simulation of simplicity.  Every point of a finite set is moved by powers of an \<open>\<epsilon>\<close>; the sign that the
  code computes for three of the points is the sign of the determinant of the moved points, for all small enough \<open>\<epsilon>\<close>.
\<close>

section \<open>The leading coefficient\<close>

definition speval :: "(nat \<times> rat) list \<Rightarrow> rat \<Rightarrow> rat" where
  "speval ts e = (\<Sum>(n, c)\<leftarrow>ts. c * e ^ n)"

lemma speval_simps [simp]: "speval [] e = 0" "speval ((n, c) # ts) e = c * e ^ n + speval ts e"
  by (simp_all add: speval_def)

lemma speval_bound:
  assumes "\<forall>(n, c)\<in>set ts. m \<le> n" "0 < e" "e \<le> 1"
  shows "\<bar>speval ts e\<bar> \<le> (\<Sum>(n, c)\<leftarrow>ts. \<bar>c\<bar>) * e ^ m"
  using assms(1)
proof (induction ts)
  case (Cons t ts)
  obtain n c where t: "t = (n, c)" by fastforce
  have "e ^ n \<le> e ^ m" using Cons.prems assms(2,3) by (intro power_decreasing) (auto simp: t)
  then have "\<bar>c * e ^ n\<bar> \<le> \<bar>c\<bar> * e ^ m" using assms(2) by (simp add: abs_mult mult_left_mono)
  moreover have "\<bar>speval ts e\<bar> \<le> (\<Sum>(n, c)\<leftarrow>ts. \<bar>c\<bar>) * e ^ m" using Cons by simp
  ultimately show ?case unfolding t by (simp add: distrib_right)
qed simp

lemma first_sign_zero [simp]: "first_sign (0 # ss) d = first_sign ss d"
  by simp

lemma leading_sign:
  "sorted_wrt (<) (map fst ts) \<Longrightarrow>
    \<exists>e0>0. \<forall>e. 0 < e \<and> e < e0 \<longrightarrow> xsgn (speval ts e) = first_sign (map (\<lambda>(n, c). xsgn c) ts) 0"
proof (induction ts)
  case Nil
  show ?case by (intro exI [of _ 1]) simp
next
  case (Cons t ts)
  obtain n c where t: "t = (n, c)" by fastforce
  show ?case
  proof (cases "c = 0")
    case True
    then show ?thesis using Cons t by simp
  next
    case False
    define M where "M = (\<Sum>(n, c)\<leftarrow>ts. \<bar>c\<bar>)"
    have M: "0 \<le> M" unfolding M_def by (intro sum_list_nonneg) auto
    define e0 where "e0 = min 1 (\<bar>c\<bar> / (M + 1))"
    have "0 < e0" using False M by (simp add: e0_def)
    moreover have "xsgn (speval (t # ts) e) = xsgn c" if e: "0 < e" "e < e0" for e
    proof -
      have e1: "e \<le> 1" "e * (M + 1) < \<bar>c\<bar>" using e(2) M by (simp_all add: e0_def pos_less_divide_eq)
      have "\<forall>(m, c)\<in>set ts. Suc n \<le> m" using Cons.prems by (auto simp: t)
      from speval_bound [OF this e(1) e1(1)] have "\<bar>speval ts e\<bar> \<le> M * e * e ^ n" by (simp add: M_def mult.assoc)
      also have "M * e < \<bar>c\<bar>" using e1(2) e(1) by (simp add: algebra_simps)
      then have "M * e * e ^ n < \<bar>c\<bar> * e ^ n" using e(1) by (intro mult_strict_right_mono) simp_all
      finally have b: "\<bar>speval ts e\<bar> < \<bar>c * e ^ n\<bar>" using e(1) by (simp add: abs_mult)
      have "0 < c * e ^ n \<longleftrightarrow> 0 < c" "c * e ^ n < 0 \<longleftrightarrow> c < 0"
        using e(1) by (simp_all add: zero_less_mult_iff mult_less_0_iff)
      then show ?thesis using b unfolding t by (auto simp: xsgn_def)
    qed
    ultimately show ?thesis using False t by (intro exI [of _ e0]) simp
  qed
qed

section \<open>The moved points\<close>

definition moved :: "rat \<Rightarrow> nat \<Rightarrow> vec \<Rightarrow> vec" where
  "moved e k v = v + Vec (e ^ (4 * k)) (e ^ (2 * k)) (e ^ k)"

definition moved_terms :: "nat \<Rightarrow> nat \<Rightarrow> nat \<Rightarrow> vec \<Rightarrow> vec \<Rightarrow> vec \<Rightarrow> (nat \<times> rat) list" where
  "moved_terms A B C a b c =
    [(0, det3 a b c),
     (A, vz (CrossProd b c)), (2 * A, vy (CrossProd b c)), (4 * A, vx (CrossProd b c)),
     (B, vz (CrossProd c a)), (B + 2 * A, vx c), (B + 4 * A, - vy c),
     (2 * B, vy (CrossProd c a)), (2 * B + A, - vx c), (2 * B + 4 * A, vz c),
     (4 * B, vx (CrossProd c a)), (4 * B + A, vy c), (4 * B + 2 * A, - vz c),
     (C, vz (CrossProd a b)), (C + 2 * A, - vx b), (C + 4 * A, vy b), (C + 2 * B, vx a), (C + 2 * B + 4 * A, 1),
     (C + 4 * B, - vy a), (C + 4 * B + 2 * A, - 1),
     (2 * C, vy (CrossProd a b)), (2 * C + A, vx b), (2 * C + 4 * A, - vz b), (2 * C + B, - vx a), (2 * C + B + 4 * A, - 1),
     (2 * C + 4 * B, vz a), (2 * C + 4 * B + A, 1),
     (4 * C, vx (CrossProd a b)), (4 * C + A, - vy b), (4 * C + 2 * A, vz b), (4 * C + B, vy a), (4 * C + B + 2 * A, 1),
     (4 * C + 2 * B, - vz a), (4 * C + 2 * B + A, - 1)]"

lemma det3_moved: "det3 (moved e A a) (moved e B b) (moved e C c) = speval (moved_terms A B C a b c) e"
  by (simp add: moved_terms_def moved_def det3_eq power_add algebra_simps)

lemma moved_terms_sorted:
  "0 < A \<Longrightarrow> 8 * A \<le> B \<Longrightarrow> 8 * B \<le> C \<Longrightarrow> sorted_wrt (<) (map fst (moved_terms A B C a b c))"
  by (simp add: moved_terms_def)

lemma moved_terms_sign:
  "first_sign (map (\<lambda>(n, c). xsgn c) (moved_terms A B C a b c)) 0 =
    (if det3 a b c \<noteq> 0 then xsgn (det3 a b c) else SymbolicallyPerturbedSign a b c (CrossProd b c))"
proof (cases "det3 a b c = 0")
  case False
  then show ?thesis by (simp add: moved_terms_def)
next
  case True
  show ?thesis
  proof (cases "vx c = 0 \<and> vy c = 0 \<and> vz c = 0")
    case True
    then show ?thesis using \<open>det3 a b c = 0\<close> by (simp add: moved_terms_def SymbolicallyPerturbedSign_def)
  next
    case False
    then consider "vx c \<noteq> 0" | "vx c = 0" "vy c \<noteq> 0" | "vx c = 0" "vy c = 0" "vz c \<noteq> 0" by blast
    then show ?thesis
      by cases (use True in \<open>simp_all add: moved_terms_def SymbolicallyPerturbedSign_def\<close>)
  qed
qed

lemma moved_sign:
  assumes "0 < A" "8 * A \<le> B" "8 * B \<le> C"
  shows "\<exists>e0>0. \<forall>e. 0 < e \<and> e < e0 \<longrightarrow> xsgn (det3 (moved e A a) (moved e B b) (moved e C c)) =
    (if det3 a b c \<noteq> 0 then xsgn (det3 a b c) else SymbolicallyPerturbedSign a b c (CrossProd b c))"
  using leading_sign [OF moved_terms_sorted [OF assms, of a b c]] unfolding det3_moved moved_terms_sign .

lemma first_sign_nonzero: "d \<noteq> 0 \<Longrightarrow> first_sign ss d \<noteq> 0"
  by (induction ss) auto

lemma SymbolicallyPerturbedSign_nonzero: "SymbolicallyPerturbedSign a b c d \<noteq> 0"
  unfolding SymbolicallyPerturbedSign_def by (rule first_sign_nonzero) simp

section \<open>The exact sign\<close>

definition sorted_sign :: "vec \<Rightarrow> vec \<Rightarrow> vec \<Rightarrow> int" where
  "sorted_sign a b c = (if det3 a b c \<noteq> 0 then xsgn (det3 a b c) else SymbolicallyPerturbedSign a b c (CrossProd b c))"

lemma sorted_sign_nonzero: "sorted_sign a b c \<noteq> 0"
  by (simp add: sorted_sign_def SymbolicallyPerturbedSign_nonzero)

lemma ExactSign_sorted:
  assumes "a < b" "b < c"
  shows "ExactSign a b c True = sorted_sign a b c" "ExactSign b c a True = sorted_sign a b c" "ExactSign c a b True = sorted_sign a b c"
    "ExactSign b a c True = - sorted_sign a b c" "ExactSign a c b True = - sorted_sign a b c" "ExactSign c b a True = - sorted_sign a b c"
proof -
  have n: "\<not> b < a" "\<not> c < b" "\<not> c < a" "a < c" using assms by auto
  show "ExactSign a b c True = sorted_sign a b c" "ExactSign b c a True = sorted_sign a b c" "ExactSign c a b True = sorted_sign a b c"
    "ExactSign b a c True = - sorted_sign a b c" "ExactSign a c b True = - sorted_sign a b c" "ExactSign c b a True = - sorted_sign a b c"
    using assms n by (simp_all add: ExactSign_def sort_step_def sorted_sign_def det3_def)
qed

lemma three_points:
  fixes a b c :: vec
  assumes "a \<noteq> b" "b \<noteq> c" "c \<noteq> a"
  obtains "a < b" "b < c" | "b < c" "c < a" | "c < a" "a < b" | "b < a" "a < c" | "a < c" "c < b" | "c < b" "b < a"
  using assms by (meson less_linear)

lemma ExactSign_laws:
  assumes "a \<noteq> b" "b \<noteq> c" "c \<noteq> a"
  shows "ExactSign a b c True \<noteq> 0" "ExactSign b c a True = ExactSign a b c True" "ExactSign c b a True = - ExactSign a b c True"
  by (rule three_points [OF assms]; use sorted_sign_nonzero in \<open>auto simp: ExactSign_sorted\<close>)+

lemma ExactSign_det:
  assumes "a \<noteq> b" "b \<noteq> c" "c \<noteq> a" "det3 a b c \<noteq> 0"
  shows "ExactSign a b c True = xsgn (det3 a b c)"
proof -
  have s: "sorted_sign x y z = xsgn (det3 x y z)" if "det3 x y z \<noteq> 0" for x y z using that by (simp add: sorted_sign_def)
  have d: "det3 b c a = det3 a b c" "det3 c a b = det3 a b c" "det3 b a c = - det3 a b c" "det3 a c b = - det3 a b c" "det3 c b a = - det3 a b c"
    using det3_rotate [of b c a] det3_rotate [of a b c] det3_swap [of a b c] by simp_all
  show ?thesis
    by (rule three_points [OF assms(1-3)]) (use assms(4) in \<open>simp_all add: ExactSign_sorted s d\<close>)
qed

lemma ExactSign_unperturbed: "ExactSign a b c False = xsgn (det3 a b c)"
proof -
  have d: "det3 b c a = det3 a b c" "det3 c a b = det3 a b c" "det3 b a c = - det3 a b c" "det3 a c b = - det3 a b c" "det3 c b a = - det3 a b c"
    using det3_rotate [of b c a] det3_rotate [of a b c] det3_swap [of a b c] by simp_all
  show ?thesis by (simp add: ExactSign_def sort_step_def det3_def [symmetric] d)
qed

section \<open>A finite set of points\<close>

definition rank :: "vec set \<Rightarrow> vec \<Rightarrow> nat" where
  "rank S v = card {u \<in> S. u < v}"

definition perturbed :: "vec set \<Rightarrow> rat \<Rightarrow> vec \<Rightarrow> vec" where
  "perturbed S e v = moved e (8 ^ rank S v) v"

lemma rank_less: "finite S \<Longrightarrow> u \<in> S \<Longrightarrow> u < v \<Longrightarrow> rank S u < rank S v"
  unfolding rank_def by (rule psubset_card_mono) auto

lemma rank_pow: "finite S \<Longrightarrow> u \<in> S \<Longrightarrow> u < v \<Longrightarrow> 8 * 8 ^ rank S u \<le> (8 :: nat) ^ rank S v"
  using power_increasing [of "Suc (rank S u)" "rank S v" "8 :: nat"] rank_less [of S u v] by simp

lemma perturbed_sorted:
  assumes "finite S" "a \<in> S" "b \<in> S" "c \<in> S" "a < b" "b < c"
  shows "\<exists>e0>0. \<forall>e. 0 < e \<and> e < e0 \<longrightarrow>
    xsgn (det3 (perturbed S e a) (perturbed S e b) (perturbed S e c)) = ExactSign a b c True"
  unfolding perturbed_def ExactSign_sorted [OF assms(5,6)] sorted_sign_def
  by (rule moved_sign) (simp_all add: rank_pow assms)

lemma perturbed_sign:
  assumes "finite S" "a \<in> S" "b \<in> S" "c \<in> S" "a \<noteq> b" "b \<noteq> c" "c \<noteq> a"
  shows "\<exists>e0>0. \<forall>e. 0 < e \<and> e < e0 \<longrightarrow>
    xsgn (det3 (perturbed S e a) (perturbed S e b) (perturbed S e c)) = ExactSign a b c True"
proof -
  let ?p = "perturbed S"
  have P: "\<exists>e0>0. \<forall>e. 0 < e \<and> e < e0 \<longrightarrow> xsgn (det3 (?p e x) (?p e y) (?p e z)) = sorted_sign x y z"
    if "x \<in> S" "y \<in> S" "z \<in> S" "x < y" "y < z" for x y z
    using perturbed_sorted [OF assms(1) that] ExactSign_sorted(1) [OF that(4,5)] by simp
  have rot: "det3 (?p e b) (?p e c) (?p e a) = det3 (?p e a) (?p e b) (?p e c)" "det3 (?p e c) (?p e a) (?p e b) = det3 (?p e a) (?p e b) (?p e c)" for e
    using det3_rotate [of "?p e b" "?p e c" "?p e a"] det3_rotate [of "?p e a" "?p e b" "?p e c"] by simp_all
  have swp: "det3 (?p e b) (?p e a) (?p e c) = - det3 (?p e a) (?p e b) (?p e c)" "det3 (?p e a) (?p e c) (?p e b) = - det3 (?p e a) (?p e b) (?p e c)"
      "det3 (?p e c) (?p e b) (?p e a) = - det3 (?p e a) (?p e b) (?p e c)" for e
    by (rule det3_swap)+
  have neg: "xsgn (- r) = s \<longleftrightarrow> xsgn r = - s" for r s by auto
  show ?thesis
  proof (rule three_points [OF assms(5-7)])
    assume o: "a < b" "b < c"
    show ?thesis unfolding ExactSign_sorted(1) [OF o] using P [of a b c, OF _ _ _ o] assms(2-4) by blast
  next
    assume o: "b < c" "c < a"
    show ?thesis unfolding ExactSign_sorted(3) [OF o] using P [of b c a, OF _ _ _ o, unfolded rot(1)] assms(2-4) by blast
  next
    assume o: "c < a" "a < b"
    show ?thesis unfolding ExactSign_sorted(2) [OF o] using P [of c a b, OF _ _ _ o, unfolded rot(2)] assms(2-4) by blast
  next
    assume o: "b < a" "a < c"
    show ?thesis unfolding ExactSign_sorted(4) [OF o] using P [of b a c, OF _ _ _ o, unfolded swp(1) neg] assms(2-4) by blast
  next
    assume o: "a < c" "c < b"
    show ?thesis unfolding ExactSign_sorted(5) [OF o] using P [of a c b, OF _ _ _ o, unfolded swp(2) neg] assms(2-4) by blast
  next
    assume o: "c < b" "b < a"
    show ?thesis unfolding ExactSign_sorted(6) [OF o] using P [of c b a, OF _ _ _ o, unfolded swp(3) neg] assms(2-4) by blast
  qed
qed

lemma small_enough:
  assumes "finite X" "\<forall>x\<in>X. \<exists>e0>0. \<forall>e. 0 < e \<and> e < e0 \<longrightarrow> P x e"
  shows "\<exists>e0>(0::rat). \<forall>e. 0 < e \<and> e < e0 \<longrightarrow> (\<forall>x\<in>X. P x e)"
  using assms
proof (induction X rule: finite_induct)
  case empty
  show ?case by (intro exI [of _ 1]) simp
next
  case (insert x X)
  from insert.IH insert.prems obtain e0 where "0 < e0" "\<forall>e. 0 < e \<and> e < e0 \<longrightarrow> (\<forall>x\<in>X. P x e)" by blast
  moreover from insert.prems obtain e1 where "0 < e1" "\<forall>e. 0 < e \<and> e < e1 \<longrightarrow> P x e" by blast
  ultimately show ?case by (intro exI [of _ "min e0 e1"]) auto
qed

lemma simulation_of_simplicity_all:
  assumes "finite S"
  shows "\<exists>e0>0. \<forall>e. 0 < e \<and> e < e0 \<longrightarrow> (\<forall>a\<in>S. \<forall>b\<in>S. \<forall>c\<in>S. a \<noteq> b \<and> b \<noteq> c \<and> c \<noteq> a \<longrightarrow>
    ExactSign a b c True = xsgn (det3 (perturbed S e a) (perturbed S e b) (perturbed S e c)))"
proof -
  define X where "X = {(a, b, c). a \<in> S \<and> b \<in> S \<and> c \<in> S \<and> a \<noteq> b \<and> b \<noteq> c \<and> c \<noteq> a}"
  have "X \<subseteq> S \<times> S \<times> S" by (auto simp: X_def)
  then have X: "finite X" using assms by (meson finite_SigmaI finite_subset)
  let ?P = "\<lambda>(a, b, c) e. ExactSign a b c True = xsgn (det3 (perturbed S e a) (perturbed S e b) (perturbed S e c))"
  have "\<exists>e0>0. \<forall>e. 0 < e \<and> e < e0 \<longrightarrow> ?P x e" if x: "x \<in> X" for x
  proof -
    obtain a b c where abc: "x = (a, b, c)" "a \<in> S" "b \<in> S" "c \<in> S" "a \<noteq> b" "b \<noteq> c" "c \<noteq> a" using x unfolding X_def by blast
    show ?thesis unfolding abc(1) prod.case using perturbed_sign [OF assms abc(2-7)] by metis
  qed
  then have "\<forall>x\<in>X. \<exists>e0>0. \<forall>e. 0 < e \<and> e < e0 \<longrightarrow> ?P x e" by blast
  from small_enough [OF X this] obtain e0 where e0: "e0 > 0" "\<forall>e. 0 < e \<and> e < e0 \<longrightarrow> (\<forall>x\<in>X. ?P x e)"
    by (elim exE conjE)
  have "ExactSign a b c True = xsgn (det3 (perturbed S e a) (perturbed S e b) (perturbed S e c))"
    if "0 < e" "e < e0" "a \<in> S" "b \<in> S" "c \<in> S" "a \<noteq> b \<and> b \<noteq> c \<and> c \<noteq> a" for e a b c
  proof -
    have "(a, b, c) \<in> X" using that unfolding X_def by blast
    then have "?P (a, b, c) e" using e0(2) that(1,2) by blast
    then show ?thesis by simp
  qed
  then show ?thesis using e0(1) by (intro exI [of _ e0]) blast
qed

end
