(* ===== verification/Orientation.thy ===== *)
theory Orientation
  imports Sign_Perturbation
begin

text \<open>
  What the predicates of this library rely on in \<open>Sign\<close>: the laws of an orientation of a set of points in
  general position, and the cyclic order of the points around a point that follows from them.  The exact sign has
  these laws because it is the sign of determinants of perturbed points.
\<close>

section \<open>The cyclic order around a point\<close>

definition ccw_order :: "('p \<Rightarrow> 'p \<Rightarrow> 'p \<Rightarrow> int) \<Rightarrow> 'p \<Rightarrow> 'p \<Rightarrow> 'p \<Rightarrow> 'p \<Rightarrow> bool" where
  "ccw_order sg a b c pt \<longleftrightarrow>
     2 \<le> (if 0 \<le> sg b pt a then 1 else 0) + (if 0 \<le> sg c pt b then 1 else 0) + (if 0 < sg a pt c then 1 else (0 :: int))"

lemma OrderedCCW_ccw_order: "OrderedCCW ft = ccw_order (Sign ft)"
  by (intro ext) (simp add: OrderedCCW_def ccw_order_def)

definition cyc :: "nat \<Rightarrow> nat \<Rightarrow> nat \<Rightarrow> bool" where
  "cyc i j k \<longleftrightarrow> i \<le> j \<and> j \<le> k \<or> j \<le> k \<and> k < i \<or> k < i \<and> i \<le> j"

locale orientation =
  fixes sg :: "'p \<Rightarrow> 'p \<Rightarrow> 'p \<Rightarrow> int"
  assumes range: "sg a b c \<in> {-1, 0, 1}"
    and zero_iff: "sg a b c = 0 \<longleftrightarrow> a = b \<or> b = c \<or> c = a"
    and rotate: "sg b c a = sg a b c"
    and reverse: "sg c b a = - sg a b c"
    and pluecker: "distinct [pt, a, b, c, d] \<Longrightarrow> sg pt a b * sg pt c d = s \<Longrightarrow> sg pt a d * sg pt b c = s \<Longrightarrow> sg pt a c * sg pt b d = s"
begin

lemma swap: "sg pt b a = - sg pt a b"
  using reverse [of b a pt] rotate [of b a pt] by simp

lemma ccw_iff:
  "ccw_order sg a b c pt \<longleftrightarrow> 2 \<le> (if 0 \<le> sg pt a b then 1 else 0) + (if 0 \<le> sg pt b c then 1 else 0) + (if 0 < sg pt c a then 1 else (0 :: int))"
proof -
  have "sg b pt a = sg pt a b" "sg c pt b = sg pt b c" "sg a pt c = sg pt c a"
    using rotate by metis+
  then show ?thesis by (simp add: ccw_order_def)
qed

lemma sign_cases:
  assumes "pt \<noteq> a" "pt \<noteq> b" "a \<noteq> b"
  obtains "sg pt a b = 1" "sg pt b a = -1" | "sg pt a b = -1" "sg pt b a = 1"
  using range [of pt a b] zero_iff [of pt a b] swap [of pt b a] assms by auto

lemma sg_same [simp]: "sg pt a a = 0"
  by (simp add: zero_iff)

lemma ccw_first: "ccw_order sg a a c pt"
  using swap [of pt c a] by (auto simp: ccw_iff)

lemma ccw_second: "ccw_order sg a c c pt"
  using swap [of pt c a] by (auto simp: ccw_iff)

lemma ccw_back: "pt \<noteq> a \<Longrightarrow> pt \<noteq> b \<Longrightarrow> ccw_order sg a b a pt \<longleftrightarrow> a = b"
  by (cases "a = b") (auto simp: ccw_iff elim: sign_cases [of pt a b])

lemma ccw_antisym:
  assumes "pt \<notin> {a, b, c}" "ccw_order sg a b c pt" "ccw_order sg a c b pt"
  shows "b = c"
proof (rule ccontr)
  assume bc: "b \<noteq> c"
  consider "a = b" | "a = c" | "a \<noteq> b" "a \<noteq> c" by blast
  then show False
  proof cases
    case 3
    show False
      by (rule sign_cases [of pt a b]; (rule sign_cases [of pt b c])?; (rule sign_cases [of pt c a])?)
        (use assms bc 3 in \<open>auto simp: ccw_iff\<close>)
  qed (use assms bc ccw_back in auto)
qed

lemma ccw_total:
  assumes "pt \<notin> {a, b, c}"
  shows "ccw_order sg a b c pt \<or> ccw_order sg a c b pt"
proof (cases "a = b \<or> b = c \<or> a = c")
  case False
  show ?thesis
    by (rule sign_cases [of pt a b]; (rule sign_cases [of pt b c])?; (rule sign_cases [of pt c a])?)
      (use assms False in \<open>auto simp: ccw_iff\<close>)
qed (use ccw_first ccw_second in blast)

lemma ccw_rotate:
  assumes "pt \<notin> {a, b, c}" "distinct [a, b, c]"
  shows "ccw_order sg b c a pt \<longleftrightarrow> ccw_order sg a b c pt"
  by (rule sign_cases [of pt a b]; (rule sign_cases [of pt b c])?; (rule sign_cases [of pt c a])?)
    (use assms in \<open>auto simp: ccw_iff\<close>)

lemma ccw_trans_distinct:
  assumes "distinct [pt, a, b, c, d]" "ccw_order sg a b c pt" "ccw_order sg a c d pt"
  shows "ccw_order sg a b d pt"
proof -
  have d: "pt \<noteq> a" "pt \<noteq> b" "pt \<noteq> c" "pt \<noteq> d" "a \<noteq> b" "a \<noteq> c" "a \<noteq> d" "b \<noteq> c" "b \<noteq> d" "c \<noteq> d" using assms(1) by auto
  note p = pluecker [OF assms(1) refl] and o = assms(2,3) [unfolded ccw_iff]
  show ?thesis
    unfolding ccw_iff
    by (rule sign_cases [OF d(1,2,5)]; rule sign_cases [OF d(1,3,6)]; rule sign_cases [OF d(1,4,7)];
        rule sign_cases [OF d(2,3,8)]; rule sign_cases [OF d(2,4,9)]; rule sign_cases [OF d(3,4,10)]) (use p o in auto)
qed

lemma ccw_trans:
  assumes "pt \<notin> {a, b, c, d}" "ccw_order sg a b c pt" "ccw_order sg a c d pt"
  shows "ccw_order sg a b d pt"
proof (cases "distinct [pt, a, b, c, d]")
  case True
  then show ?thesis using ccw_trans_distinct assms by blast
next
  case False
  then consider "a = b" | "a = c" | "a = d" | "b = c" | "b = d" | "c = d" using assms(1) by auto
  then show ?thesis
  proof cases
    case 3
    then have "a = c" using assms ccw_back [of pt a c] by simp
    then show ?thesis using 3 assms(2) by simp
  next
    case 2
    then have "a = b" using assms ccw_back [of pt a b] by simp
    then show ?thesis using ccw_first by simp
  qed (use assms ccw_first ccw_second in auto)
qed

lemma ccw_chain:
  assumes "pt \<notin> {a, x, y, z}" "distinct [x, y, z]" "a \<notin> {x, y, z}" "ccw_order sg a x y pt" "ccw_order sg a y z pt"
  shows "ccw_order sg x y z pt"
proof -
  have "ccw_order sg y z a pt" using ccw_rotate [of pt a y z] assms by auto
  moreover have "ccw_order sg y a x pt"
    using ccw_rotate [of pt a x y] ccw_rotate [of pt x y a] assms by auto
  ultimately have "ccw_order sg y z x pt" using assms by (intro ccw_trans [of pt y z a x]) auto
  then show ?thesis using ccw_rotate [of pt x y z] assms by auto
qed

text \<open>The points of a finite set have ranks around \<open>pt\<close> that start at any one of them.\<close>

definition ccw_rank :: "'p \<Rightarrow> 'p \<Rightarrow> 'p set \<Rightarrow> 'p \<Rightarrow> nat" where
  "ccw_rank pt a F y = card {z \<in> F. z \<noteq> y \<and> ccw_order sg a z y pt}"

lemma ccw_rank_less:
  assumes "finite F" "pt \<notin> F" "a \<in> F" "y \<in> F" "z \<in> F" "y \<noteq> z" "ccw_order sg a y z pt"
  shows "ccw_rank pt a F y < ccw_rank pt a F z"
  unfolding ccw_rank_def
proof (rule psubset_card_mono)
  have "w \<noteq> z \<and> ccw_order sg a w z pt" if "w \<in> F" "w \<noteq> y" "ccw_order sg a w y pt" for w
  proof -
    have n: "pt \<notin> {a, w, y, z}" using assms(2-5) that(1) by auto
    moreover have "w \<noteq> z"
    proof
      assume "w = z"
      then show False using ccw_antisym [of pt a y z] assms(6,7) that(3) n by auto
    qed
    ultimately show ?thesis using ccw_trans [of pt a w y z] that(3) assms(7) by auto
  qed
  moreover have "y \<in> {w \<in> F. w \<noteq> z \<and> ccw_order sg a w z pt} - {w \<in> F. w \<noteq> y \<and> ccw_order sg a w y pt}"
    using assms(4,6,7) by simp
  ultimately show "{w \<in> F. w \<noteq> y \<and> ccw_order sg a w y pt} \<subset> {w \<in> F. w \<noteq> z \<and> ccw_order sg a w z pt}" by blast
qed (use assms(1) in simp)

lemma ccw_rank_le:
  assumes "finite F" "pt \<notin> F" "a \<in> F" "y \<in> F" "z \<in> F"
  shows "ccw_order sg a y z pt \<longleftrightarrow> ccw_rank pt a F y \<le> ccw_rank pt a F z" "ccw_rank pt a F y = ccw_rank pt a F z \<longleftrightarrow> y = z"
proof -
  have n: "pt \<notin> {a, y, z}" using assms(2-5) by auto
  have "ccw_rank pt a F y < ccw_rank pt a F z \<and> ccw_order sg a y z pt \<or> ccw_rank pt a F z < ccw_rank pt a F y \<and> \<not> ccw_order sg a y z pt"
    if "y \<noteq> z"
    using ccw_total [OF n] ccw_rank_less [OF assms that] ccw_rank_less [OF assms(1-3,5,4)] that ccw_antisym [OF n] by metis
  then show "ccw_order sg a y z pt \<longleftrightarrow> ccw_rank pt a F y \<le> ccw_rank pt a F z" "ccw_rank pt a F y = ccw_rank pt a F z \<longleftrightarrow> y = z"
    using ccw_second [of a z pt] by (cases "y = z"; force)+
qed

lemma ccw_rank_first:
  assumes "finite F" "pt \<notin> F" "a \<in> F" "u \<in> F"
  shows "ccw_rank pt a F a \<le> ccw_rank pt a F u"
  using ccw_rank_le(1) [OF assms(1-3,3,4)] ccw_first by blast

lemma ccw_rank_up:
  assumes F: "finite F" "pt \<notin> F" "a \<in> F" "u \<in> F" "v \<in> F" "w \<in> F"
    and r: "ccw_rank pt a F u < ccw_rank pt a F v" "ccw_rank pt a F v < ccw_rank pt a F w"
  shows "ccw_order sg u v w pt"
proof -
  have le: "ccw_order sg a u v pt" "ccw_order sg a v w pt"
    using ccw_rank_le(1) [OF F(1-5)] ccw_rank_le(1) [OF F(1-3,5,6)] r by simp_all
  show ?thesis
  proof (cases "a = u")
    case False
    have d: "u \<noteq> v" "v \<noteq> w" "u \<noteq> w" using r by auto
    have "a \<noteq> v" "a \<noteq> w" using r ccw_rank_first [OF F(1-4)] by auto
    then show ?thesis using le F False d by (intro ccw_chain [of pt a u v w]) auto
  qed (use le in simp)
qed

lemma ccw_rank_distinct:
  assumes F: "finite F" "pt \<notin> F" "a \<in> F" "u \<in> F" "v \<in> F" "w \<in> F" and d: "distinct [u, v, w]"
    and c: "cyc (ccw_rank pt a F u) (ccw_rank pt a F v) (ccw_rank pt a F w)"
  shows "ccw_order sg u v w pt"
proof -
  let ?r = "ccw_rank pt a F"
  have n: "pt \<notin> {u, v, w}" using F by auto
  have "?r u \<noteq> ?r v" "?r v \<noteq> ?r w" "?r w \<noteq> ?r u"
    using ccw_rank_le(2) [OF F(1-3,4,5)] ccw_rank_le(2) [OF F(1-3,5,6)] ccw_rank_le(2) [OF F(1-3,6,4)] d by auto
  then consider "?r u < ?r v" "?r v < ?r w" | "?r v < ?r w" "?r w < ?r u" | "?r w < ?r u" "?r u < ?r v"
    using c unfolding cyc_def by linarith
  then show ?thesis
  proof cases
    case 1
    then show ?thesis by (rule ccw_rank_up [OF F])
  next
    case 2
    have "ccw_order sg v w u pt" by (rule ccw_rank_up [OF F(1-3,5,6,4) 2])
    then show ?thesis using ccw_rotate [OF n d] by simp
  next
    case 3
    have "ccw_order sg w u v pt" by (rule ccw_rank_up [OF F(1-3,6,4,5) 3])
    then show ?thesis using ccw_rotate [of pt w u v] n d by auto
  qed
qed

lemma ccw_rank_cyc:
  assumes F: "finite F" "pt \<notin> F" "a \<in> F" "x \<in> F" "y \<in> F" "z \<in> F"
  shows "ccw_order sg x y z pt \<longleftrightarrow> cyc (ccw_rank pt a F x) (ccw_rank pt a F y) (ccw_rank pt a F z)"
proof -
  let ?r = "ccw_rank pt a F"
  have n: "pt \<notin> {x, y, z}" using F by auto
  have eq: "?r x = ?r y \<longleftrightarrow> x = y" "?r y = ?r z \<longleftrightarrow> y = z" "?r z = ?r x \<longleftrightarrow> z = x"
    using ccw_rank_le(2) [OF F(1-3,4,5)] ccw_rank_le(2) [OF F(1-3,5,6)] ccw_rank_le(2) [OF F(1-3,6,4)] .
  consider "x = y" | "y = z" | "x = z" "x \<noteq> y" | "distinct [x, y, z]" by auto
  then show ?thesis
  proof cases
    case 1
    then show ?thesis using ccw_first [of x z pt] unfolding cyc_def by simp linarith
  next
    case 2
    then show ?thesis using ccw_second [of x z pt] unfolding cyc_def by simp linarith
  next
    case 3
    then have "\<not> ccw_order sg x y z pt" using ccw_back [of pt x y] n by auto
    moreover have "?r x \<noteq> ?r y" "?r z = ?r x" using eq 3 by auto
    ultimately show ?thesis unfolding cyc_def by linarith
  next
    case 4
    have d: "?r x \<noteq> ?r y" "?r y \<noteq> ?r z" "?r z \<noteq> ?r x" using eq 4 by auto
    show ?thesis
    proof (cases "cyc (?r x) (?r y) (?r z)")
      case True
      then show ?thesis using ccw_rank_distinct [OF F 4] by simp
    next
      case False
      then have c: "cyc (?r x) (?r z) (?r y)" using d unfolding cyc_def by linarith
      have "ccw_order sg x z y pt" by (rule ccw_rank_distinct [OF F(1-4,6,5) _ c]) (use 4 in auto)
      then show ?thesis using False ccw_antisym [OF n] 4 by auto
    qed
  qed
qed

lemma ccw_ranks:
  assumes "finite F" "pt \<notin> F"
  obtains r :: "'p \<Rightarrow> nat" where "\<And>x y z. x \<in> F \<Longrightarrow> y \<in> F \<Longrightarrow> z \<in> F \<Longrightarrow> ccw_order sg x y z pt \<longleftrightarrow> cyc (r x) (r y) (r z)"
    and "\<And>x y. x \<in> F \<Longrightarrow> y \<in> F \<Longrightarrow> r x = r y \<longleftrightarrow> x = y"
proof (cases "F = {}")
  case False
  then obtain a where "a \<in> F" by blast
  then show ?thesis using that [of "ccw_rank pt a F"] ccw_rank_cyc [OF assms] ccw_rank_le(2) [OF assms] by blast
qed (use that [of "\<lambda>_. 0"] in blast)

end

section \<open>The exact sign is an orientation\<close>

definition exact_tests :: sign_tests where
  "exact_tests = \<lparr>triage_sign = (\<lambda>a b c. 0), stable_sign = (\<lambda>a b c. 0)\<rparr>"

lemma Sign_exact_tests:
  "Sign exact_tests a b c = (if a = b \<or> b = c \<or> c = a then 0 else ExactSign a b c True)"
  by (simp add: Sign_def ExpensiveSign_def exact_tests_def)

lemma first_sign_range: "\<forall>s\<in>set ss. s \<in> {-1, 0, 1} \<Longrightarrow> d \<in> {-1, 0, 1} \<Longrightarrow> first_sign ss d \<in> {-1, 0, 1}"
  by (induction ss) auto

lemma xsgn_range: "xsgn r \<in> {-1, 0, 1}" "- xsgn r \<in> {-1, 0, 1}"
  by (auto simp: xsgn_def)

lemma SymbolicallyPerturbedSign_range: "SymbolicallyPerturbedSign a b c d \<in> {-1, 0, 1}"
  unfolding SymbolicallyPerturbedSign_def
  by (rule first_sign_range) (simp_all only: list.set ball_simps xsgn_range simp_thms, simp)

lemma sorted_sign_range: "sorted_sign a b c \<in> {-1, 0, 1}" "- sorted_sign a b c \<in> {-1, 0, 1}"
  using SymbolicallyPerturbedSign_range [of a b c "CrossProd b c"] xsgn_range(1) [of "det3 a b c"] by (auto simp: sorted_sign_def)

lemma ExactSign_range:
  assumes "a \<noteq> b" "b \<noteq> c" "c \<noteq> a"
  shows "ExactSign a b c True \<in> {-1, 0, 1}"
  by (rule three_points [OF assms]; simp only: ExactSign_sorted sorted_sign_range)

text \<open>The tests change no result.\<close>

lemma Sign_exact:
  assumes "sign_tests_sound ft S" "a \<in> S" "b \<in> S" "c \<in> S"
  shows "Sign ft a b c = Sign exact_tests a b c"
proof -
  have s: "triage_sign ft a b c \<noteq> 0 \<Longrightarrow> triage_sign ft a b c = xsgn (det3 a b c)"
    "stable_sign ft a b c \<noteq> 0 \<Longrightarrow> stable_sign ft a b c = xsgn (det3 a b c)"
    using assms by (auto simp: sign_tests_sound_def)
  show ?thesis
  proof (cases "a = b \<or> b = c \<or> c = a")
    case True
    then have "det3 a b c = 0" by auto
    then have "triage_sign ft a b c = 0" using s(1) by (cases "triage_sign ft a b c = 0") simp_all
    then have "Sign ft a b c = 0" using True by (simp add: Sign_def ExpensiveSign_def)
    then show ?thesis using True by (simp add: Sign_exact_tests)
  next
    case False
    then have "ExactSign a b c True = xsgn (det3 a b c)" if "det3 a b c \<noteq> 0" using ExactSign_det that by blast
    then have "Sign ft a b c = ExactSign a b c True"
      using s False by (auto simp: Sign_def ExpensiveSign_def Let_def simp flip: xsgn_simps(4))
    then show ?thesis using False by (simp add: Sign_exact_tests)
  qed
qed

lemma ExactSign_pluecker:
  assumes "distinct [pt, a, b, c, d]" "ExactSign pt a b True * ExactSign pt c d True = s" "ExactSign pt a d True * ExactSign pt b c True = s"
  shows "ExactSign pt a c True * ExactSign pt b d True = s"
proof -
  let ?S = "{pt, a, b, c, d}"
  have "finite ?S" by simp
  from simulation_of_simplicity_all [OF this] obtain e0 where e0: "0 < e0"
    "\<forall>e. 0 < e \<and> e < e0 \<longrightarrow> (\<forall>a\<in>?S. \<forall>b\<in>?S. \<forall>c\<in>?S. a \<noteq> b \<and> b \<noteq> c \<and> c \<noteq> a \<longrightarrow>
      ExactSign a b c True = xsgn (det3 (perturbed ?S e a) (perturbed ?S e b) (perturbed ?S e c)))"
    by (elim exE conjE)
  obtain e where "0 < e" "e < e0" using dense [OF e0(1)] by blast
  then have *: "\<forall>a\<in>?S. \<forall>b\<in>?S. \<forall>c\<in>?S. a \<noteq> b \<and> b \<noteq> c \<and> c \<noteq> a \<longrightarrow>
      ExactSign a b c True = xsgn (det3 (perturbed ?S e a) (perturbed ?S e b) (perturbed ?S e c))" using e0(2) by blast
  define D where "D x y = det3 (perturbed ?S e pt) (perturbed ?S e x) (perturbed ?S e y)" for x y
  have E: "ExactSign pt x y True = xsgn (D x y)" if "x \<in> {a, b, c, d}" "y \<in> {a, b, c, d}" "x \<noteq> y" for x y
    unfolding D_def by (rule *[rule_format]) (use that assms(1) in auto)
  have nz: "ExactSign pt x y True \<noteq> 0" if "x \<in> {a, b, c, d}" "y \<in> {a, b, c, d}" "x \<noteq> y" for x y
    by (rule ExactSign_laws(1)) (use that assms(1) in auto)
  have p: "D a b * D c d - D a c * D b d + D a d * D b c = 0" unfolding D_def by (rule det3_pluecker)
  have ne: "a \<noteq> b" "a \<noteq> c" "a \<noteq> d" "b \<noteq> c" "b \<noteq> d" "c \<noteq> d" using assms(1) by auto
  have t: "xsgn (D a b * D c d) = s" "xsgn (D a d * D b c) = s" using assms(2,3) ne by (simp_all add: E xsgn_mult)
  have "s \<noteq> 0" using assms(2) nz ne by auto
  then have "xsgn (D a c * D b d) = s" using t p by (auto simp: xsgn_def split: if_splits)
  then show ?thesis using ne by (simp add: E xsgn_mult)
qed

interpretation exact: orientation "Sign exact_tests"
proof
  fix a b c :: vec
  show "Sign exact_tests a b c \<in> {-1, 0, 1}" using ExactSign_range [of a b c] by (simp add: Sign_exact_tests)
  show "Sign exact_tests a b c = 0 \<longleftrightarrow> a = b \<or> b = c \<or> c = a" using ExactSign_laws(1) [of a b c] by (auto simp: Sign_exact_tests)
  show "Sign exact_tests b c a = Sign exact_tests a b c" using ExactSign_laws(2) [of a b c] by (auto simp: Sign_exact_tests)
  show "Sign exact_tests c b a = - Sign exact_tests a b c" using ExactSign_laws(3) [of a b c] by (auto simp: Sign_exact_tests)
next
  fix pt a b c d :: vec and s
  assume "distinct [pt, a, b, c, d]" "Sign exact_tests pt a b * Sign exact_tests pt c d = s" "Sign exact_tests pt a d * Sign exact_tests pt b c = s"
  then show "Sign exact_tests pt a c * Sign exact_tests pt b d = s"
    using ExactSign_pluecker [of pt a b c d s] by (auto simp: Sign_exact_tests)
qed

end
