(* ===== verification/Edge_Crossings.thy ===== *)
theory Edge_Crossings
  imports Orientation
begin

text \<open>
  Edge crossings (\<^verbatim>\<open>s2/s2edge_crossings.cc\<close> and \<^verbatim>\<open>.h\<close>) and the \<^verbatim>\<open>S2EdgeCrosser\<close> (\<^verbatim>\<open>s2/s2edge_crosser.h\<close> and \<^verbatim>\<open>.cc\<close>), which
  tests one edge against a chain of edges and keeps orientations from one call to the next.  The floating-point tests and the
  reference directions of \<^verbatim>\<open>S2::RefDir\<close> are arguments.
\<close>

section \<open>Vertex crossings\<close>

definition VertexCrossing :: "sign_tests \<Rightarrow> (vec \<Rightarrow> vec) \<Rightarrow> vec \<Rightarrow> vec \<Rightarrow> vec \<Rightarrow> vec \<Rightarrow> bool" where
  "VertexCrossing ft RefDir a b c d =
     (if a = b \<or> c = d then False
      else if a = c then b = d \<or> OrderedCCW ft (RefDir a) d b a
      else if b = d then OrderedCCW ft (RefDir b) c a b
      else if a = d then b = c \<or> OrderedCCW ft (RefDir a) c b a
      else if b = c then OrderedCCW ft (RefDir b) d a b
      else False)"

definition SignedVertexCrossing :: "sign_tests \<Rightarrow> (vec \<Rightarrow> vec) \<Rightarrow> vec \<Rightarrow> vec \<Rightarrow> vec \<Rightarrow> vec \<Rightarrow> int" where
  "SignedVertexCrossing ft RefDir a b c d =
     (if a = b \<or> c = d then 0
      else if a = c then if b = d \<or> OrderedCCW ft (RefDir a) d b a then 1 else 0
      else if b = d then if OrderedCCW ft (RefDir b) c a b then 1 else 0
      else if a = d then if b = c \<or> OrderedCCW ft (RefDir a) c b a then -1 else 0
      else if b = c then if OrderedCCW ft (RefDir b) d a b then -1 else 0
      else 0)"

definition AngleContainsVertex :: "sign_tests \<Rightarrow> (vec \<Rightarrow> vec) \<Rightarrow> vec \<Rightarrow> vec \<Rightarrow> vec \<Rightarrow> bool" where
  "AngleContainsVertex ft RefDir a b c \<longleftrightarrow> \<not> OrderedCCW ft (RefDir b) c a b"

section \<open>The edge crosser\<close>

text \<open>
  The tests of the crosser: those of the sign, the two outward tangents of an edge, and whether the dot product of a point with
  a tangent is above the error bound.
\<close>

record crosser_tests =
  of_sign :: sign_tests
  edge_tangents :: "vec \<Rightarrow> vec \<Rightarrow> vec \<times> vec"
  dot_above :: "vec \<Rightarrow> vec \<Rightarrow> bool"

record edge_crosser =
  ec_a :: vec
  ec_b :: vec
  have_tangents :: bool
  a_tangent :: vec
  b_tangent :: vec
  ec_c :: vec
  ec_acb :: int
  ec_bda :: int

definition EC_new :: "vec \<Rightarrow> vec \<Rightarrow> edge_crosser" where
  "EC_new a b = \<lparr>ec_a = a, ec_b = b, have_tangents = False, a_tangent = 0, b_tangent = 0, ec_c = 0, ec_acb = 0, ec_bda = 0\<rparr>"

definition EC_Init :: "vec \<Rightarrow> vec \<Rightarrow> edge_crosser \<Rightarrow> edge_crosser" where
  "EC_Init a b ec = ec\<lparr>ec_a := a, ec_b := b, have_tangents := False, ec_c := 0\<rparr>"

definition EC_RestartAt :: "crosser_tests \<Rightarrow> vec \<Rightarrow> edge_crosser \<Rightarrow> edge_crosser" where
  "EC_RestartAt ct c ec = ec\<lparr>ec_c := c, ec_acb := - triage_sign (of_sign ct) (ec_a ec) (ec_b ec) c\<rparr>"

definition EC_new3 :: "crosser_tests \<Rightarrow> vec \<Rightarrow> vec \<Rightarrow> vec \<Rightarrow> edge_crosser" where
  "EC_new3 ct a b c = EC_RestartAt ct c (EC_new a b)"

definition CrossingSignInternal2 :: "crosser_tests \<Rightarrow> vec \<Rightarrow> edge_crosser \<Rightarrow> int \<times> edge_crosser" where
  "CrossingSignInternal2 ct d ec =
     (let a = ec_a ec; b = ec_b ec; c = ec_c ec;
          ec = (if have_tangents ec then ec
                else ec\<lparr>a_tangent := fst (edge_tangents ct a b), b_tangent := snd (edge_tangents ct a b), have_tangents := True\<rparr>)
      in if dot_above ct c (a_tangent ec) \<and> dot_above ct d (a_tangent ec) \<or>
            dot_above ct c (b_tangent ec) \<and> dot_above ct d (b_tangent ec) then (-1, ec)
         else if a = c \<or> a = d \<or> b = c \<or> b = d then (0, ec)
         else if a = b \<or> c = d then (-1, ec)
         else let ec = (if ec_acb ec = 0 then ec\<lparr>ec_acb := - ExpensiveSign (of_sign ct) a b c True\<rparr> else ec);
                  ec = (if ec_bda ec = 0 then ec\<lparr>ec_bda := ExpensiveSign (of_sign ct) a b d True\<rparr> else ec)
              in if ec_bda ec \<noteq> ec_acb ec then (-1, ec)
                 else let cbd = - Sign (of_sign ct) c d b
                      in if cbd \<noteq> ec_acb ec then (-1, ec)
                         else let dac = Sign (of_sign ct) c d a
                              in (if dac \<noteq> ec_acb ec then -1 else 1, ec))"

definition CrossingSignInternal :: "crosser_tests \<Rightarrow> vec \<Rightarrow> edge_crosser \<Rightarrow> int \<times> edge_crosser" where
  "CrossingSignInternal ct d ec =
     (let (result, ec) = CrossingSignInternal2 ct d ec in (result, ec\<lparr>ec_c := d, ec_acb := - ec_bda ec\<rparr>))"

definition EC_CrossingSign :: "crosser_tests \<Rightarrow> vec \<Rightarrow> edge_crosser \<Rightarrow> int \<times> edge_crosser" where
  "EC_CrossingSign ct d ec =
     (let bda = triage_sign (of_sign ct) (ec_a ec) (ec_b ec) d
      in if ec_acb ec = - bda \<and> bda \<noteq> 0 then (-1, ec\<lparr>ec_c := d, ec_acb := - bda\<rparr>)
         else CrossingSignInternal ct d (ec\<lparr>ec_bda := bda\<rparr>))"

definition EC_move :: "crosser_tests \<Rightarrow> vec \<Rightarrow> edge_crosser \<Rightarrow> edge_crosser" where
  "EC_move ct c ec = (if c \<noteq> ec_c ec then EC_RestartAt ct c ec else ec)"

definition EC_CrossingSign2 :: "crosser_tests \<Rightarrow> vec \<Rightarrow> vec \<Rightarrow> edge_crosser \<Rightarrow> int \<times> edge_crosser" where
  "EC_CrossingSign2 ct c d ec = EC_CrossingSign ct d (EC_move ct c ec)"

definition EC_EdgeOrVertexCrossing :: "crosser_tests \<Rightarrow> (vec \<Rightarrow> vec) \<Rightarrow> vec \<Rightarrow> edge_crosser \<Rightarrow> bool \<times> edge_crosser" where
  "EC_EdgeOrVertexCrossing ct RefDir d ec =
     (let c = ec_c ec; (crossing, ec) = EC_CrossingSign ct d ec
      in if crossing < 0 then (False, ec) else if crossing > 0 then (True, ec)
         else (VertexCrossing (of_sign ct) RefDir (ec_a ec) (ec_b ec) c d, ec))"

definition EC_EdgeOrVertexCrossing2 :: "crosser_tests \<Rightarrow> (vec \<Rightarrow> vec) \<Rightarrow> vec \<Rightarrow> vec \<Rightarrow> edge_crosser \<Rightarrow> bool \<times> edge_crosser" where
  "EC_EdgeOrVertexCrossing2 ct RefDir c d ec = EC_EdgeOrVertexCrossing ct RefDir d (EC_move ct c ec)"

definition last_interior_crossing_sign :: "edge_crosser \<Rightarrow> int" where
  "last_interior_crossing_sign ec = ec_acb ec"

definition EC_SignedEdgeOrVertexCrossing :: "crosser_tests \<Rightarrow> (vec \<Rightarrow> vec) \<Rightarrow> vec \<Rightarrow> edge_crosser \<Rightarrow> int \<times> edge_crosser" where
  "EC_SignedEdgeOrVertexCrossing ct RefDir d ec =
     (let c = ec_c ec; (crossing, ec) = EC_CrossingSign ct d ec
      in if crossing < 0 then (0, ec) else if crossing > 0 then (last_interior_crossing_sign ec, ec)
         else (SignedVertexCrossing (of_sign ct) RefDir (ec_a ec) (ec_b ec) c d, ec))"

definition EC_SignedEdgeOrVertexCrossing2 :: "crosser_tests \<Rightarrow> (vec \<Rightarrow> vec) \<Rightarrow> vec \<Rightarrow> vec \<Rightarrow> edge_crosser \<Rightarrow> int \<times> edge_crosser" where
  "EC_SignedEdgeOrVertexCrossing2 ct RefDir c d ec = EC_SignedEdgeOrVertexCrossing ct RefDir d (EC_move ct c ec)"

text \<open>The functions of \<^verbatim>\<open>s2edge_crossings.cc\<close> use a crosser once.\<close>

definition CrossingSign :: "crosser_tests \<Rightarrow> vec \<Rightarrow> vec \<Rightarrow> vec \<Rightarrow> vec \<Rightarrow> int" where
  "CrossingSign ct a b c d = fst (EC_CrossingSign ct d (EC_new3 ct a b c))"

definition EdgeOrVertexCrossing :: "crosser_tests \<Rightarrow> (vec \<Rightarrow> vec) \<Rightarrow> vec \<Rightarrow> vec \<Rightarrow> vec \<Rightarrow> vec \<Rightarrow> bool" where
  "EdgeOrVertexCrossing ct RefDir a b c d =
     (let crossing = CrossingSign ct a b c d
      in if crossing < 0 then False else if crossing > 0 then True else VertexCrossing (of_sign ct) RefDir a b c d)"

section \<open>What a crossing is\<close>

definition crossing_spec :: "vec \<Rightarrow> vec \<Rightarrow> vec \<Rightarrow> vec \<Rightarrow> int" where
  "crossing_spec a b c d =
     (if a = c \<or> a = d \<or> b = c \<or> b = d then 0
      else if a = b \<or> c = d then -1
      else if Sign exact_tests a c b = Sign exact_tests c b d \<and> Sign exact_tests c b d = Sign exact_tests b d a \<and>
              Sign exact_tests b d a = Sign exact_tests d a c then 1 else -1)"

text \<open>
  The tests are sound when the signs are, and when two points beyond a tangent at one end of an edge are the ends
  of an edge that neither crosses nor touches it.
\<close>

definition crosser_tests_sound :: "crosser_tests \<Rightarrow> vec set \<Rightarrow> bool" where
  "crosser_tests_sound ct S \<longleftrightarrow> sign_tests_sound (of_sign ct) S \<and>
     (\<forall>a\<in>S. \<forall>b\<in>S. \<forall>c\<in>S. \<forall>d\<in>S. \<forall>t\<in>{fst (edge_tangents ct a b), snd (edge_tangents ct a b)}.
        dot_above ct c t \<and> dot_above ct d t \<longrightarrow> crossing_spec a b c d = -1)"

abbreviation (input) esign :: "vec \<Rightarrow> vec \<Rightarrow> vec \<Rightarrow> int" where "esign \<equiv> Sign exact_tests"

lemma crossing_spec_symmetric:
  "crossing_spec b a c d = crossing_spec a b c d" "crossing_spec c d a b = crossing_spec a b c d"
proof -
  have r: "esign b c a = - esign a c b" "esign c a d = - esign d a c" "esign a d b = - esign b d a" "esign d b c = - esign c b d"
    using exact.reverse [of b c a] exact.reverse [of c a d] exact.reverse [of a d b] exact.reverse [of d b c] by simp_all
  show "crossing_spec b a c d = crossing_spec a b c d" "crossing_spec c d a b = crossing_spec a b c d"
    unfolding crossing_spec_def r by auto
qed

lemma crossing_spec_range: "crossing_spec a b c d \<in> {-1, 0, 1}"
  by (simp add: crossing_spec_def)

lemma crossing_spec_sides:
  assumes "esign a c b \<noteq> esign b d a" "a \<notin> {c, d}" "b \<notin> {c, d}"
  shows "crossing_spec a b c d = -1"
  using assms by (auto simp: crossing_spec_def)

definition crosser_ok :: "crosser_tests \<Rightarrow> vec set \<Rightarrow> vec \<Rightarrow> vec \<Rightarrow> vec \<Rightarrow> edge_crosser \<Rightarrow> bool" where
  "crosser_ok ct S a b c ec \<longleftrightarrow> ec_a ec = a \<and> ec_b ec = b \<and> ec_c ec = c \<and> {a, b, c} \<subseteq> S \<and>
     (have_tangents ec \<longrightarrow> a_tangent ec = fst (edge_tangents ct a b) \<and> b_tangent ec = snd (edge_tangents ct a b)) \<and>
     (ec_acb ec = 0 \<or> ec_acb ec = esign a c b)"

lemma sound_triage:
  assumes "sign_tests_sound ft S" "a \<in> S" "b \<in> S" "c \<in> S"
  shows "triage_sign ft a b c = 0 \<or> triage_sign ft a b c = esign a b c"
  using Sign_exact [OF assms] by (auto simp: Sign_def Let_def split: if_splits)

lemma sound_expensive:
  assumes "sign_tests_sound ft S" "a \<in> S" "b \<in> S" "c \<in> S"
  shows "ExpensiveSign ft a b c True = esign a b c"
proof -
  define gt where "gt = ft\<lparr>triage_sign := \<lambda>a b c. 0\<rparr>"
  have "sign_tests_sound gt S" using assms(1) by (simp add: sign_tests_sound_def gt_def)
  moreover have "Sign gt a b c = ExpensiveSign gt a b c True" by (simp add: Sign_def gt_def)
  moreover have "ExpensiveSign gt a b c True = ExpensiveSign ft a b c True" by (simp add: ExpensiveSign_def gt_def)
  ultimately show ?thesis using Sign_exact [of gt S a b c] assms(2-4) by simp
qed

lemma CrossingSignInternal2_correct:
  assumes ct: "crosser_tests_sound ct S" and ec: "crosser_ok ct S a b c ec" and d: "d \<in> S"
    and bda: "ec_bda ec = 0 \<or> ec_bda ec = esign b d a"
  shows "\<exists>ec'. CrossingSignInternal2 ct d ec = (crossing_spec a b c d, ec') \<and> crosser_ok ct S a b c ec' \<and>
    (ec_bda ec' = 0 \<or> ec_bda ec' = esign b d a) \<and> (crossing_spec a b c d = 1 \<longrightarrow> ec_bda ec' = esign a c b)"
proof -
  have S: "a \<in> S" "b \<in> S" "c \<in> S" and f: "ec_a ec = a" "ec_b ec = b" "ec_c ec = c" using ec by (simp_all add: crosser_ok_def)
  have ft: "sign_tests_sound (of_sign ct) S" using ct by (simp add: crosser_tests_sound_def)
  define e1 where "e1 = (if have_tangents ec then ec
    else ec\<lparr>a_tangent := fst (edge_tangents ct a b), b_tangent := snd (edge_tangents ct a b), have_tangents := True\<rparr>)"
  have e1: "crosser_ok ct S a b c e1" "ec_bda e1 = ec_bda ec" "ec_acb e1 = ec_acb ec"
      "a_tangent e1 = fst (edge_tangents ct a b)" "b_tangent e1 = snd (edge_tangents ct a b)"
    using ec by (auto simp: crosser_ok_def e1_def)
  let ?far = "dot_above ct c (a_tangent e1) \<and> dot_above ct d (a_tangent e1) \<or> dot_above ct c (b_tangent e1) \<and> dot_above ct d (b_tangent e1)"
  let ?shared = "a = c \<or> a = d \<or> b = c \<or> b = d"
  define e2 where "e2 = (if ec_acb e1 = 0 then e1\<lparr>ec_acb := - ExpensiveSign (of_sign ct) a b c True\<rparr> else e1)"
  define e3 where "e3 = (if ec_bda e2 = 0 then e2\<lparr>ec_bda := ExpensiveSign (of_sign ct) a b d True\<rparr> else e2)"
  have x: "ExpensiveSign (of_sign ct) a b c True = - esign a c b" "ExpensiveSign (of_sign ct) a b d True = esign b d a"
    "Sign (of_sign ct) c d b = - esign c b d" "Sign (of_sign ct) c d a = esign d a c"
    using sound_expensive [OF ft S(1,2) S(3)] sound_expensive [OF ft S(1,2) d] Sign_exact [OF ft S(3) d S(2)] Sign_exact [OF ft S(3) d S(1)]
      exact.swap [of a b c] exact.swap [of c d b] exact.rotate [of b d a] exact.rotate [of d a c] by simp_all
  have e3: "crosser_ok ct S a b c e3" "ec_acb e3 = esign a c b" "ec_bda e3 = esign b d a"
    using e1 bda x unfolding e3_def e2_def by (auto simp: crosser_ok_def)
  have run: "CrossingSignInternal2 ct d ec = (if ?far then (-1, e1) else if ?shared then (0, e1) else if a = b \<or> c = d then (-1, e1)
      else if ec_bda e3 \<noteq> ec_acb e3 then (-1, e3) else if - Sign (of_sign ct) c d b \<noteq> ec_acb e3 then (-1, e3)
      else (if Sign (of_sign ct) c d a \<noteq> ec_acb e3 then -1 else 1, e3))"
    unfolding CrossingSignInternal2_def Let_def f e1_def [symmetric] e2_def [symmetric] e3_def [symmetric] ..
  have far: "crossing_spec a b c d = -1" if ?far
    using that ct S d unfolding crosser_tests_sound_def e1(4,5) by blast
  show ?thesis
  proof (cases "?far \<or> ?shared \<or> a = b \<or> c = d")
    case True
    have "CrossingSignInternal2 ct d ec = (crossing_spec a b c d, e1) \<and> crossing_spec a b c d \<noteq> 1"
      using True far unfolding run by (auto simp: crossing_spec_def)
    then show ?thesis using e1 bda by auto
  next
    case False
    have "CrossingSignInternal2 ct d ec = (crossing_spec a b c d, e3) \<and> (crossing_spec a b c d = 1 \<longrightarrow> esign b d a = esign a c b)"
      using False unfolding run x e3(2,3) by (auto simp: crossing_spec_def)
    then show ?thesis using e3 by auto
  qed
qed

lemma EC_CrossingSign_correct:
  assumes ct: "crosser_tests_sound ct S" and ec: "crosser_ok ct S a b c ec" and d: "d \<in> S"
  shows "\<exists>ec'. EC_CrossingSign ct d ec = (crossing_spec a b c d, ec') \<and> crosser_ok ct S a b d ec' \<and>
    (crossing_spec a b c d = 1 \<longrightarrow> ec_acb ec' = esign a b c)"
proof -
  have S: "a \<in> S" "b \<in> S" "c \<in> S" and f: "ec_a ec = a" "ec_b ec = b" "ec_c ec = c"
    and acb: "ec_acb ec = 0 \<or> ec_acb ec = esign a c b" using ec by (simp_all add: crosser_ok_def)
  have ft: "sign_tests_sound (of_sign ct) S" using ct by (simp add: crosser_tests_sound_def)
  have sw: "esign b d a = esign a b d" "esign a d b = - esign a b d" "esign a b c = - esign a c b"
    using exact.rotate [of b d a] exact.swap [of a d b] exact.swap [of a b c] by simp_all
  define bda where "bda = triage_sign (of_sign ct) a b d"
  have bda: "bda = 0 \<or> bda = esign b d a" using sound_triage [OF ft S(1,2) d] by (simp add: bda_def sw)
  show ?thesis
  proof (cases "ec_acb ec = - bda \<and> bda \<noteq> 0")
    case True
    then have s: "esign a c b = - esign b d a" "esign b d a \<noteq> 0" using acb bda by auto
    then have "a \<notin> {c, d}" "b \<notin> {c, d}" using exact.zero_iff [of a c b] exact.zero_iff [of b d a] by auto
    then have c: "crossing_spec a b c d = -1" using s by (intro crossing_spec_sides) auto
    have "EC_CrossingSign ct d ec = (-1, ec\<lparr>ec_c := d, ec_acb := - bda\<rparr>)"
      using True f by (simp add: EC_CrossingSign_def bda_def [symmetric])
    moreover have "crosser_ok ct S a b d (ec\<lparr>ec_c := d, ec_acb := - bda\<rparr>)"
      using ec d bda sw by (auto simp: crosser_ok_def)
    ultimately show ?thesis using c by simp
  next
    case False
    have "crosser_ok ct S a b c (ec\<lparr>ec_bda := bda\<rparr>)" using ec by (simp add: crosser_ok_def)
    from CrossingSignInternal2_correct [OF ct this d] bda obtain e where
      e: "CrossingSignInternal2 ct d (ec\<lparr>ec_bda := bda\<rparr>) = (crossing_spec a b c d, e)" "crosser_ok ct S a b c e"
        "ec_bda e = 0 \<or> ec_bda e = esign b d a" "crossing_spec a b c d = 1 \<longrightarrow> ec_bda e = esign a c b" by auto
    have "EC_CrossingSign ct d ec = (crossing_spec a b c d, e\<lparr>ec_c := d, ec_acb := - ec_bda e\<rparr>)"
      using False f e(1) by (auto simp: EC_CrossingSign_def bda_def [symmetric] CrossingSignInternal_def Let_def)
    moreover have "crosser_ok ct S a b d (e\<lparr>ec_c := d, ec_acb := - ec_bda e\<rparr>)"
      using e(2,3) d sw by (auto simp: crosser_ok_def)
    ultimately show ?thesis using e(4) sw by simp
  qed
qed

end
