(* ===== verification/Wedge_Relations.thy ===== *)
theory Wedge_Relations
  imports Orientation
begin

text \<open>
  Wedge relations (\<^verbatim>\<open>s2/s2wedge_relations.cc\<close>): how the region to the left of the edge chain \<open>a0, ab1, a2\<close> lies
  to that of \<open>b0, ab1, b2\<close>.
\<close>

datatype WedgeRelation = WEDGE_EQUALS | WEDGE_PROPERLY_CONTAINS | WEDGE_IS_PROPERLY_CONTAINED | WEDGE_PROPERLY_OVERLAPS | WEDGE_IS_DISJOINT

definition WedgeContains :: "sign_tests \<Rightarrow> vec \<Rightarrow> vec \<Rightarrow> vec \<Rightarrow> vec \<Rightarrow> vec \<Rightarrow> bool" where
  "WedgeContains ft a0 ab1 a2 b0 b2 \<longleftrightarrow> OrderedCCW ft a2 b2 b0 ab1 \<and> OrderedCCW ft b0 a0 a2 ab1"

definition WedgeIntersects :: "sign_tests \<Rightarrow> vec \<Rightarrow> vec \<Rightarrow> vec \<Rightarrow> vec \<Rightarrow> vec \<Rightarrow> bool" where
  "WedgeIntersects ft a0 ab1 a2 b0 b2 \<longleftrightarrow> \<not> (OrderedCCW ft a0 b2 b0 ab1 \<and> OrderedCCW ft b0 a2 a0 ab1)"

definition GetWedgeRelation :: "sign_tests \<Rightarrow> vec \<Rightarrow> vec \<Rightarrow> vec \<Rightarrow> vec \<Rightarrow> vec \<Rightarrow> WedgeRelation" where
  "GetWedgeRelation ft a0 ab1 a2 b0 b2 =
     (if a0 = b0 \<and> a2 = b2 then WEDGE_EQUALS
      else if OrderedCCW ft a0 a2 b2 ab1
      then if OrderedCCW ft b2 b0 a0 ab1 then WEDGE_PROPERLY_CONTAINS
           else if a2 = b2 then WEDGE_IS_PROPERLY_CONTAINED else WEDGE_PROPERLY_OVERLAPS
      else if OrderedCCW ft a0 b0 b2 ab1 then WEDGE_IS_PROPERLY_CONTAINED
      else if OrderedCCW ft a0 b0 a2 ab1 then WEDGE_IS_DISJOINT else WEDGE_PROPERLY_OVERLAPS)"

section \<open>Wedges as sets\<close>

text \<open>The rays from \<open>x0\<close> (inclusive) to \<open>x2\<close> (exclusive) in the clockwise direction.\<close>

definition wedge :: "vec \<Rightarrow> vec \<Rightarrow> vec \<Rightarrow> vec set" where
  "wedge x0 pt x2 = {p. p \<noteq> pt \<and> p \<noteq> x2 \<and> OrderedCCW exact_tests x2 p x0 pt}"

lemma OrderedCCW_exact:
  "sign_tests_sound ft S \<Longrightarrow> a \<in> S \<Longrightarrow> b \<in> S \<Longrightarrow> c \<in> S \<Longrightarrow> pt \<in> S \<Longrightarrow> OrderedCCW ft a b c pt = OrderedCCW exact_tests a b c pt"
  by (simp add: OrderedCCW_def Sign_exact)

lemma ccw_ranks_exact:
  assumes "finite F" "pt \<notin> F"
  obtains r :: "vec \<Rightarrow> nat" where "\<And>x y z. x \<in> F \<Longrightarrow> y \<in> F \<Longrightarrow> z \<in> F \<Longrightarrow> OrderedCCW exact_tests x y z pt \<longleftrightarrow> cyc (r x) (r y) (r z)"
    and "\<And>x y. x \<in> F \<Longrightarrow> y \<in> F \<Longrightarrow> r x = r y \<longleftrightarrow> x = y"
  using exact.ccw_ranks [OF assms] unfolding OrderedCCW_ccw_order by blast

lemma wedge_subset:
  assumes "pt \<notin> {a0, a2, b0, b2}" "a0 \<noteq> a2" "b0 \<noteq> b2"
  shows "wedge b0 pt b2 \<subseteq> wedge a0 pt a2 \<longleftrightarrow> b0 \<in> wedge a0 pt a2 \<and> a2 \<notin> wedge b0 pt b2"
proof
  assume s: "wedge b0 pt b2 \<subseteq> wedge a0 pt a2"
  have "b0 \<in> wedge b0 pt b2" using exact.ccw_second [of b2 b0 pt] assms by (auto simp: wedge_def OrderedCCW_ccw_order)
  moreover have "a2 \<notin> wedge a0 pt a2" by (simp add: wedge_def)
  ultimately show "b0 \<in> wedge a0 pt a2 \<and> a2 \<notin> wedge b0 pt b2" using s by blast
next
  assume h: "b0 \<in> wedge a0 pt a2 \<and> a2 \<notin> wedge b0 pt b2"
  show "wedge b0 pt b2 \<subseteq> wedge a0 pt a2"
  proof
    fix p assume p: "p \<in> wedge b0 pt b2"
    let ?F = "{a0, a2, b0, b2, p}"
    have "finite ?F" "pt \<notin> ?F" using assms p by (auto simp: wedge_def)
    then obtain r where r: "\<And>x y z. x \<in> ?F \<Longrightarrow> y \<in> ?F \<Longrightarrow> z \<in> ?F \<Longrightarrow> OrderedCCW exact_tests x y z pt \<longleftrightarrow> cyc (r x) (r y) (r z)"
      "\<And>x y. x \<in> ?F \<Longrightarrow> y \<in> ?F \<Longrightarrow> r x = r y \<longleftrightarrow> x = y" by (rule ccw_ranks_exact) blast
    have "r a0 \<noteq> r a2" "r b0 \<noteq> r b2" using r(2) assms(2,3) by simp_all
    moreover have "r p \<noteq> r b2" "cyc (r b2) (r p) (r b0)" using p r by (simp_all add: wedge_def)
    moreover have "r b0 \<noteq> r a2" "cyc (r a2) (r b0) (r a0)" using h r by (simp_all add: wedge_def)
    moreover have "r a2 = r b2 \<or> \<not> cyc (r b2) (r a2) (r b0)" using h r assms(1) by (auto simp: wedge_def)
    ultimately have "r p \<noteq> r a2 \<and> cyc (r a2) (r p) (r a0)" unfolding cyc_def by linarith
    then show "p \<in> wedge a0 pt a2" using p r by (simp add: wedge_def)
  qed
qed

lemma wedge_meet:
  assumes "pt \<notin> {a0, a2, b0, b2}" "a0 \<noteq> a2" "b0 \<noteq> b2"
  shows "wedge a0 pt a2 \<inter> wedge b0 pt b2 \<noteq> {} \<longleftrightarrow> b0 \<in> wedge a0 pt a2 \<or> a0 \<in> wedge b0 pt b2"
proof
  assume "wedge a0 pt a2 \<inter> wedge b0 pt b2 \<noteq> {}"
  then obtain p where p: "p \<in> wedge a0 pt a2" "p \<in> wedge b0 pt b2" by blast
  let ?F = "{a0, a2, b0, b2, p}"
  have "finite ?F" "pt \<notin> ?F" using assms p by (auto simp: wedge_def)
  then obtain r where r: "\<And>x y z. x \<in> ?F \<Longrightarrow> y \<in> ?F \<Longrightarrow> z \<in> ?F \<Longrightarrow> OrderedCCW exact_tests x y z pt \<longleftrightarrow> cyc (r x) (r y) (r z)"
    "\<And>x y. x \<in> ?F \<Longrightarrow> y \<in> ?F \<Longrightarrow> r x = r y \<longleftrightarrow> x = y" by (rule ccw_ranks_exact) blast
  have "r a0 \<noteq> r a2" "r b0 \<noteq> r b2" using r(2) assms(2,3) by simp_all
  moreover have "r p \<noteq> r b2" "cyc (r b2) (r p) (r b0)" "r p \<noteq> r a2" "cyc (r a2) (r p) (r a0)" using p r by (simp_all add: wedge_def)
  ultimately have "r b0 \<noteq> r a2 \<and> cyc (r a2) (r b0) (r a0) \<or> r a0 \<noteq> r b2 \<and> cyc (r b2) (r a0) (r b0)" unfolding cyc_def by linarith
  then show "b0 \<in> wedge a0 pt a2 \<or> a0 \<in> wedge b0 pt b2" using r assms(1) by (auto simp: wedge_def)
next
  have "b0 \<in> wedge b0 pt b2" "a0 \<in> wedge a0 pt a2"
    using exact.ccw_second [of b2 b0 pt] exact.ccw_second [of a2 a0 pt] assms by (auto simp: wedge_def OrderedCCW_ccw_order)
  then show "b0 \<in> wedge a0 pt a2 \<or> a0 \<in> wedge b0 pt b2 \<Longrightarrow> wedge a0 pt a2 \<inter> wedge b0 pt b2 \<noteq> {}" by blast
qed

definition wedge_relation :: "vec set \<Rightarrow> vec set \<Rightarrow> WedgeRelation" where
  "wedge_relation A B =
     (if A = B then WEDGE_EQUALS else if B \<subseteq> A then WEDGE_PROPERLY_CONTAINS else if A \<subseteq> B then WEDGE_IS_PROPERLY_CONTAINED
      else if A \<inter> B = {} then WEDGE_IS_DISJOINT else WEDGE_PROPERLY_OVERLAPS)"

lemma cyc_sub:
  fixes a0 a2 b0 b2 :: nat
  assumes ne: "a0 \<noteq> a2" "b0 \<noteq> b2" "\<not> (a0 = b0 \<and> a2 = b2)"
  shows "(b0 \<noteq> a2 \<and> cyc a2 b0 a0) \<and> \<not> (a2 \<noteq> b2 \<and> cyc b2 a2 b0) \<longleftrightarrow> cyc a0 a2 b2 \<and> cyc b2 b0 a0"
  using ne unfolding cyc_def by presburger

lemma cyc_not_both:
  fixes a0 a2 b0 b2 :: nat
  assumes ne: "a0 \<noteq> a2" "b0 \<noteq> b2" "\<not> (a0 = b0 \<and> a2 = b2)"
  shows "\<not> (((a0 \<noteq> b2 \<and> cyc b2 a0 b0) \<and> \<not> (b2 \<noteq> a2 \<and> cyc a2 b2 a0)) \<and> ((b0 \<noteq> a2 \<and> cyc a2 b0 a0) \<and> \<not> (a2 \<noteq> b2 \<and> cyc b2 a2 b0)))"
  using ne unfolding cyc_def by presburger

lemma cyc_sup:
  fixes a0 a2 b0 b2 :: nat
  assumes ne: "a0 \<noteq> a2" "b0 \<noteq> b2" "\<not> (a0 = b0 \<and> a2 = b2)"
  shows "((a0 \<noteq> b2 \<and> cyc b2 a0 b0) \<and> \<not> (b2 \<noteq> a2 \<and> cyc a2 b2 a0)) \<and> \<not> ((b0 \<noteq> a2 \<and> cyc a2 b0 a0) \<and> \<not> (a2 \<noteq> b2 \<and> cyc b2 a2 b0)) \<longleftrightarrow>
    cyc a0 a2 b2 \<and> \<not> cyc b2 b0 a0 \<and> a2 = b2 \<or> \<not> cyc a0 a2 b2 \<and> cyc a0 b0 b2"
  using ne unfolding cyc_def by presburger

lemma cyc_apart:
  fixes a0 a2 b0 b2 :: nat
  assumes ne: "a0 \<noteq> a2" "b0 \<noteq> b2" "\<not> (a0 = b0 \<and> a2 = b2)"
  shows "\<not> ((b0 \<noteq> a2 \<and> cyc a2 b0 a0) \<or> (a0 \<noteq> b2 \<and> cyc b2 a0 b0)) \<and> \<not> ((a0 \<noteq> b2 \<and> cyc b2 a0 b0) \<and> \<not> (b2 \<noteq> a2 \<and> cyc a2 b2 a0)) \<and>
      \<not> ((b0 \<noteq> a2 \<and> cyc a2 b0 a0) \<and> \<not> (a2 \<noteq> b2 \<and> cyc b2 a2 b0)) \<longleftrightarrow>
    \<not> cyc a0 a2 b2 \<and> \<not> cyc a0 b0 b2 \<and> cyc a0 b0 a2"
  using ne unfolding cyc_def by presburger

lemma wedge_relations:
  assumes "sign_tests_sound ft S" "{a0, a2, b0, b2, pt} \<subseteq> S" "pt \<notin> {a0, a2, b0, b2}" "a0 \<noteq> a2" "b0 \<noteq> b2"
  shows "WedgeContains ft a0 pt a2 b0 b2 \<longleftrightarrow> wedge b0 pt b2 \<subseteq> wedge a0 pt a2"
    and "WedgeIntersects ft a0 pt a2 b0 b2 \<longleftrightarrow> wedge a0 pt a2 \<inter> wedge b0 pt b2 \<noteq> {}"
    and "GetWedgeRelation ft a0 pt a2 b0 b2 = wedge_relation (wedge a0 pt a2) (wedge b0 pt b2)"
proof -
  let ?F = "{a0, a2, b0, b2}"
  have "finite ?F" by simp
  from ccw_ranks_exact [OF this assms(3)] obtain r where
    r: "\<And>x y z. x \<in> ?F \<Longrightarrow> y \<in> ?F \<Longrightarrow> z \<in> ?F \<Longrightarrow> OrderedCCW exact_tests x y z pt \<longleftrightarrow> cyc (r x) (r y) (r z)"
      "\<And>x y. x \<in> ?F \<Longrightarrow> y \<in> ?F \<Longrightarrow> r x = r y \<longleftrightarrow> x = y" by blast
  have o: "OrderedCCW ft x y z pt \<longleftrightarrow> cyc (r x) (r y) (r z)" if "x \<in> ?F" "y \<in> ?F" "z \<in> ?F" for x y z
    using r(1) [OF that] OrderedCCW_exact [OF assms(1), of x y z pt] assms(2) that by auto
  have w: "x \<in> wedge y pt z \<longleftrightarrow> r x \<noteq> r z \<and> cyc (r z) (r x) (r y)" if "x \<in> ?F" "y \<in> ?F" "z \<in> ?F" for x y z
    using r(1) [OF that(3,1,2)] r(2) [OF that(1,3)] assms(3) that by (auto simp: wedge_def)
  have sub: "wedge b0 pt b2 \<subseteq> wedge a0 pt a2 \<longleftrightarrow> (r b0 \<noteq> r a2 \<and> cyc (r a2) (r b0) (r a0)) \<and> \<not> (r a2 \<noteq> r b2 \<and> cyc (r b2) (r a2) (r b0))"
    using wedge_subset [OF assms(3-5)] w by simp
  have sub': "wedge a0 pt a2 \<subseteq> wedge b0 pt b2 \<longleftrightarrow> (r a0 \<noteq> r b2 \<and> cyc (r b2) (r a0) (r b0)) \<and> \<not> (r b2 \<noteq> r a2 \<and> cyc (r a2) (r b2) (r a0))"
    using wedge_subset [of pt b0 b2 a0 a2] assms(3-5) w by auto
  have meet: "wedge a0 pt a2 \<inter> wedge b0 pt b2 \<noteq> {} \<longleftrightarrow> (r b0 \<noteq> r a2 \<and> cyc (r a2) (r b0) (r a0)) \<or> (r a0 \<noteq> r b2 \<and> cyc (r b2) (r a0) (r b0))"
    using wedge_meet [OF assms(3-5)] w by simp
  have ne: "r a0 \<noteq> r a2" "r b0 \<noteq> r b2" using r(2) assms(4,5) by simp_all
  show "WedgeContains ft a0 pt a2 b0 b2 \<longleftrightarrow> wedge b0 pt b2 \<subseteq> wedge a0 pt a2"
    unfolding WedgeContains_def sub using o ne by (simp add: cyc_def) linarith
  show "WedgeIntersects ft a0 pt a2 b0 b2 \<longleftrightarrow> wedge a0 pt a2 \<inter> wedge b0 pt b2 \<noteq> {}"
    unfolding WedgeIntersects_def meet using o ne by (simp add: cyc_def) linarith
  show "GetWedgeRelation ft a0 pt a2 b0 b2 = wedge_relation (wedge a0 pt a2) (wedge b0 pt b2)"
  proof (cases "a0 = b0 \<and> a2 = b2")
    case False
    let ?A = "wedge a0 pt a2" and ?B = "wedge b0 pt b2"
    define c1 c2 c3 c4 c5 where "c1 \<longleftrightarrow> cyc (r a0) (r a2) (r b2)" and "c2 \<longleftrightarrow> cyc (r b2) (r b0) (r a0)" and "c3 \<longleftrightarrow> r a2 = r b2"
      and "c4 \<longleftrightarrow> cyc (r a0) (r b0) (r b2)" and "c5 \<longleftrightarrow> cyc (r a0) (r b0) (r a2)"
    note cs = c1_def c2_def c3_def c4_def c5_def
    have n: "\<not> (r a0 = r b0 \<and> r a2 = r b2)" using False r(2) by simp
    have 1: "?B \<subseteq> ?A \<longleftrightarrow> c1 \<and> c2" unfolding sub cs by (rule cyc_sub [OF ne n])
    have 2: "?A \<subseteq> ?B \<and> \<not> ?B \<subseteq> ?A \<longleftrightarrow> c1 \<and> \<not> c2 \<and> c3 \<or> \<not> c1 \<and> c4" unfolding sub sub' cs by (rule cyc_sup [OF ne n])
    have 3: "?A \<inter> ?B = {} \<and> \<not> ?A \<subseteq> ?B \<and> \<not> ?B \<subseteq> ?A \<longleftrightarrow> \<not> c1 \<and> \<not> c4 \<and> c5"
      using cyc_apart [OF ne n] meet unfolding sub sub' cs by argo
    have 4: "\<not> (?A \<subseteq> ?B \<and> ?B \<subseteq> ?A)" unfolding sub sub' using cyc_not_both [OF ne n] by argo
    have "GetWedgeRelation ft a0 pt a2 b0 b2 =
        (if c1 then if c2 then WEDGE_PROPERLY_CONTAINS else if c3 then WEDGE_IS_PROPERLY_CONTAINED else WEDGE_PROPERLY_OVERLAPS
         else if c4 then WEDGE_IS_PROPERLY_CONTAINED else if c5 then WEDGE_IS_DISJOINT else WEDGE_PROPERLY_OVERLAPS)"
      using False o r(2) by (simp add: GetWedgeRelation_def cs)
    also have "\<dots> = wedge_relation ?A ?B"
    proof -
      define s1 s2 m where "s1 \<longleftrightarrow> ?B \<subseteq> ?A" and "s2 \<longleftrightarrow> ?A \<subseteq> ?B" and "m \<longleftrightarrow> ?A \<inter> ?B = {}"
      have "wedge_relation ?A ?B = (if s2 \<and> s1 then WEDGE_EQUALS else if s1 then WEDGE_PROPERLY_CONTAINS
          else if s2 then WEDGE_IS_PROPERLY_CONTAINED else if m then WEDGE_IS_DISJOINT else WEDGE_PROPERLY_OVERLAPS)"
        unfolding wedge_relation_def s1_def s2_def m_def set_eq_subset [of ?A ?B] ..
      then show ?thesis using 1 2 3 4 unfolding s1_def [symmetric] s2_def [symmetric] m_def [symmetric]
        by (cases c1; cases c2; cases c3; cases c4; cases c5) simp_all
    qed
    finally show ?thesis .
  qed (simp add: GetWedgeRelation_def wedge_relation_def)
qed

end
