(* ===== verification/Crossing_Properties.thy ===== *)
theory Crossing_Properties
  imports Edge_Crossings Wedge_Relations
begin

text \<open>
  The properties of the orientation, wedge and crossing predicates.
\<close>

text \<open>Tests that are always certain of a sign that is not zero: a sound instance of the arguments.\<close>

definition det_tests :: sign_tests where
  "det_tests = \<lparr>triage_sign = (\<lambda>a b c. xsgn (det3 a b c)), stable_sign = (\<lambda>a b c. xsgn (det3 a b c))\<rparr>"

definition det_crosser_tests :: crosser_tests where
  "det_crosser_tests = \<lparr>of_sign = det_tests, edge_tangents = (\<lambda>a b. (a, b)), dot_above = (\<lambda>c t. False)\<rparr>"

lemma det_tests_sound: "sign_tests_sound det_tests S"
  by (simp add: sign_tests_sound_def det_tests_def)

lemma det_crosser_tests_sound: "crosser_tests_sound det_crosser_tests S"
  by (simp add: crosser_tests_sound_def det_crosser_tests_def det_tests_sound)

section \<open>Orientation\<close>

text \<open>C28: the laws of \<open>Sign\<close> hold for any sound tests.\<close>

theorem Sign_laws:
  assumes "sign_tests_sound ft S" "a \<in> S" "b \<in> S" "c \<in> S"
  shows "(Sign ft a b c = 0 \<longleftrightarrow> a = b \<or> b = c \<or> c = a) \<and> Sign ft b c a = Sign ft a b c \<and> Sign ft c b a = - Sign ft a b c \<and>
    (det3 a b c \<noteq> 0 \<longrightarrow> Sign ft a b c = xsgn (det3 a b c)) \<and> UnperturbedSign ft a b c = xsgn (det3 a b c)"
proof -
  have e: "Sign ft a b c = Sign exact_tests a b c" "Sign ft b c a = Sign exact_tests b c a" "Sign ft c b a = Sign exact_tests c b a"
    using Sign_exact [OF assms(1)] assms(2-4) by simp_all
  have "Sign exact_tests a b c = xsgn (det3 a b c)" if "det3 a b c \<noteq> 0"
  proof -
    have "a \<noteq> b" "b \<noteq> c" "c \<noteq> a" using that by auto
    then show ?thesis using ExactSign_det that by (simp add: Sign_exact_tests)
  qed
  moreover have "UnperturbedSign ft a b c = xsgn (det3 a b c)"
  proof -
    have s: "triage_sign ft a b c \<noteq> 0 \<Longrightarrow> triage_sign ft a b c = xsgn (det3 a b c)"
      "stable_sign ft a b c \<noteq> 0 \<Longrightarrow> stable_sign ft a b c = xsgn (det3 a b c)"
      using assms by (auto simp: sign_tests_sound_def)
    have z: "xsgn (det3 a b c) = 0" if "a = b \<or> b = c \<or> c = a" using that by auto
    show ?thesis
    proof (cases "triage_sign ft a b c = 0")
      case True
      then have "UnperturbedSign ft a b c = ExpensiveSign ft a b c False" by (simp add: UnperturbedSign_def)
      also have "\<dots> = xsgn (det3 a b c)"
        using s(2) z by (cases "stable_sign ft a b c = 0") (auto simp: ExpensiveSign_def ExactSign_unperturbed)
      finally show ?thesis .
    qed (use s(1) in \<open>simp add: UnperturbedSign_def\<close>)
  qed
  ultimately show ?thesis unfolding e
    by (intro conjI impI exact.zero_iff exact.rotate exact.reverse)
qed

theorem Sign_laws_witness:
  "(Sign det_tests (Vec 1 0 0) (Vec 0 1 0) (Vec (-1) 0 0) \<noteq> 0) \<and>
    Sign det_tests (Vec (-1) 0 0) (Vec 0 1 0) (Vec 1 0 0) = - Sign det_tests (Vec 1 0 0) (Vec 0 1 0) (Vec (-1) 0 0)"
  using Sign_laws [OF det_tests_sound UNIV_I UNIV_I UNIV_I, of "Vec 1 0 0" "Vec 0 1 0" "Vec (-1) 0 0"] by simp






text \<open>The conclusion of the documented property (3) of \<open>OrderedCCW\<close> is too strong: both orders can hold when only two of the points are equal.\<close>

lemma OrderedCCW_reverse:
  "OrderedCCW det_tests (Vec 1 0 0) (Vec 1 0 0) (Vec 0 1 0) (Vec 0 0 1) \<and>
   OrderedCCW det_tests (Vec 0 1 0) (Vec 1 0 0) (Vec 1 0 0) (Vec 0 0 1) \<and> Vec 1 0 0 \<noteq> Vec 0 1 0"
  by (intro conjI; code_simp)

text \<open>C31: the wedge predicates agree with the sets of points in the wedges.\<close>

theorem wedge_relations_correct:
  assumes "sign_tests_sound ft S" "{a0, a2, b0, b2, ab1} \<subseteq> S" "ab1 \<notin> {a0, a2, b0, b2}" "a0 \<noteq> a2" "b0 \<noteq> b2"
  shows "(WedgeContains ft a0 ab1 a2 b0 b2 \<longleftrightarrow> wedge b0 ab1 b2 \<subseteq> wedge a0 ab1 a2) \<and>
    (WedgeIntersects ft a0 ab1 a2 b0 b2 \<longleftrightarrow> wedge a0 ab1 a2 \<inter> wedge b0 ab1 b2 \<noteq> {}) \<and>
    GetWedgeRelation ft a0 ab1 a2 b0 b2 = wedge_relation (wedge a0 ab1 a2) (wedge b0 ab1 b2)"
  using wedge_relations [OF assms] by simp

theorem wedge_relations_witness:
  "wedge (Vec 0 1 0) (Vec 0 0 1) (Vec 1 0 0) \<subset> wedge (Vec (-1) 0 0) (Vec 0 0 1) (Vec 1 0 0)"
proof -
  have "WedgeContains det_tests (Vec (-1) 0 0) (Vec 0 0 1) (Vec 1 0 0) (Vec 0 1 0) (Vec 1 0 0)"
    "\<not> WedgeContains det_tests (Vec 0 1 0) (Vec 0 0 1) (Vec 1 0 0) (Vec (-1) 0 0) (Vec 1 0 0)" by code_simp+
  then show ?thesis
    using wedge_relations_correct [OF det_tests_sound, of "Vec (-1) 0 0" "Vec 1 0 0" "Vec 0 1 0" "Vec 1 0 0" "Vec 0 0 1" UNIV]
      wedge_relations_correct [OF det_tests_sound, of "Vec 0 1 0" "Vec 1 0 0" "Vec (-1) 0 0" "Vec 1 0 0" "Vec 0 0 1" UNIV] by auto
qed

section \<open>Vertices\<close>

text \<open>C32: if the points around a vertex are in counterclockwise order, exactly one of the angles between neighbours contains the vertex.\<close>

theorem AngleContainsVertex_once:
  assumes "sign_tests_sound ft S" "insert b (insert (RefDir b) (set vs)) \<subseteq> S" "RefDir b \<noteq> b" "b \<notin> set vs" "distinct vs" "2 \<le> length vs"
    and "\<forall>i j k. i < j \<and> j < k \<and> k < length vs \<longrightarrow> OrderedCCW ft (vs ! i) (vs ! j) (vs ! k) b"
  shows "\<exists>!i. i < length vs \<and> AngleContainsVertex ft RefDir (vs ! (Suc i mod length vs)) b (vs ! i)"
proof -
  let ?n = "length vs" and ?R = "RefDir b"
  let ?F = "insert ?R (set vs)"
  have F: "finite ?F" "b \<notin> ?F" "?R \<in> ?F" using assms(3,4) by auto
  define r where "r = exact.ccw_rank b ?R ?F"
  have mem: "vs ! i \<in> ?F" if "i < ?n" for i using that by simp
  have ord: "OrderedCCW ft x y z b \<longleftrightarrow> cyc (r x) (r y) (r z)" if "x \<in> ?F" "y \<in> ?F" "z \<in> ?F" for x y z
    using exact.ccw_rank_cyc [OF F that] OrderedCCW_exact [OF assms(1), of x y z b] assms(2) that
    by (auto simp: OrderedCCW_ccw_order r_def)
  have eq: "r x = r y \<longleftrightarrow> x = y" if "x \<in> ?F" "y \<in> ?F" for x y
    unfolding r_def using exact.ccw_rank_le(2) [OF F that] .
  have first: "r ?R \<le> r x" if "x \<in> ?F" for x unfolding r_def using exact.ccw_rank_first [OF F that] .
  have angle: "AngleContainsVertex ft RefDir (vs ! j) b (vs ! i) \<longleftrightarrow> r (vs ! j) < r (vs ! i)" if "i < ?n" "j < ?n" for i j
    using ord [OF F(3) mem [OF that(1)] mem [OF that(2)]] first [OF mem [OF that(1)]] first [OF mem [OF that(2)]]
    unfolding AngleContainsVertex_def cyc_def by linarith
  obtain m where m: "m < ?n" "\<forall>i<?n. r (vs ! m) \<le> r (vs ! i)"
  proof -
    have "finite ((\<lambda>i. r (vs ! i)) ` {..<?n})" "(\<lambda>i. r (vs ! i)) ` {..<?n} \<noteq> {}" using assms(6) by (auto simp: lessThan_empty_iff)
    from Min_in [OF this] obtain m where "m < ?n" "r (vs ! m) = Min ((\<lambda>i. r (vs ! i)) ` {..<?n})" by auto
    then show ?thesis by (intro that [of m]) auto
  qed
  have tri: "cyc (r (vs ! i)) (r (vs ! j)) (r (vs ! k))" if "i < j" "j < k" "k < ?n" for i j k
  proof -
    have "OrderedCCW ft (vs ! i) (vs ! j) (vs ! k) b" using assms(7) that by blast
    then show ?thesis using ord [of "vs ! i" "vs ! j" "vs ! k"] that by simp
  qed
  have ne: "r (vs ! i) \<noteq> r (vs ! j)" if "i < ?n" "j < ?n" "i \<noteq> j" for i j
    using eq [OF mem [OF that(1)] mem [OF that(2)]] nth_eq_iff_index_eq [OF assms(5) that(1,2)] that(3) by simp
  have "r (vs ! (Suc i mod ?n)) < r (vs ! i) \<longleftrightarrow> Suc i mod ?n = m" if i: "i < ?n" for i
  proof -
    define j where "j = Suc i mod ?n"
    have j: "j < ?n" "j \<noteq> i" using i assms(6) by (auto simp: j_def mod_Suc)
    have up: "r (vs ! i) \<le> r (vs ! j)" if "j \<noteq> m"
    proof (cases "i = m")
      case False
      have "i < j \<or> j = 0 \<and> Suc i = ?n" using i by (auto simp: j_def mod_Suc)
      then have "cyc (r (vs ! m)) (r (vs ! i)) (r (vs ! j))"
      proof
        assume "i < j"
        then have "j = Suc i" using i by (auto simp: j_def mod_Suc split: if_splits)
        then consider "m < i" "i < j" | "i < j" "j < m" using False \<open>j \<noteq> m\<close> by linarith
        then show ?thesis
        proof cases
          case 1
          then show ?thesis using tri j(1) by blast
        next
          case 2
          then have "cyc (r (vs ! i)) (r (vs ! j)) (r (vs ! m))" using tri m(1) by blast
          moreover have "r (vs ! m) \<le> r (vs ! i)" "r (vs ! m) \<le> r (vs ! j)" "r (vs ! m) \<noteq> r (vs ! i)" "r (vs ! m) \<noteq> r (vs ! j)"
            using m i j(1) ne [of m i] ne [of m j] False \<open>j \<noteq> m\<close> by auto
          ultimately show ?thesis unfolding cyc_def by linarith
        qed
      next
        assume "j = 0 \<and> Suc i = ?n"
        then have "cyc (r (vs ! j)) (r (vs ! m)) (r (vs ! i))" using tri [of j m i] False \<open>j \<noteq> m\<close> m(1) i by auto
        moreover have "r (vs ! m) \<noteq> r (vs ! i)" "r (vs ! m) \<noteq> r (vs ! j)" "r (vs ! i) \<noteq> r (vs ! j)"
          using m i j ne [of m i] ne [of m j] ne [of i j] False \<open>j \<noteq> m\<close> by auto
        ultimately show ?thesis unfolding cyc_def by linarith
      qed
      moreover have "r (vs ! m) \<le> r (vs ! i)" "r (vs ! m) \<le> r (vs ! j)" using m(2) i j(1) by auto
      ultimately show ?thesis unfolding cyc_def by linarith
    qed (use m(2) j(1) in simp)
    have "r (vs ! j) < r (vs ! i)" if "j = m" using m(2) i ne [OF j(1) i j(2)] that by (simp add: order.not_eq_order_implies_strict)
    then show ?thesis using up unfolding j_def [symmetric] by (meson leD)
  qed
  note that = this
  have iff: "i < ?n \<and> AngleContainsVertex ft RefDir (vs ! (Suc i mod ?n)) b (vs ! i) \<longleftrightarrow> i < ?n \<and> Suc i mod ?n = m" for i
  proof (cases "i < ?n")
    case True
    have "0 < ?n" using True by linarith
    then have "Suc i mod ?n < ?n" by (rule mod_less_divisor)
    then show ?thesis using angle [OF True, of "Suc i mod ?n"] \<open>i < ?n\<close> that [OF True] by simp
  qed simp
  have "\<exists>!i. i < ?n \<and> Suc i mod ?n = m"
  proof (cases m)
    case 0
    have "0 < ?n" using assms(6) by linarith
    then show ?thesis using 0 by (intro ex1I [of _ "?n - 1"]) (auto simp: mod_Suc split: if_splits)
  next
    case (Suc k)
    then show ?thesis using m(1) by (intro ex1I [of _ k]) (auto simp: mod_Suc split: if_splits)
  qed
  then show ?thesis unfolding iff .
qed

theorem AngleContainsVertex_once_witness:
  "\<exists>!i. i < length [Vec 1 0 0, Vec 0 1 0, Vec (-1) (-1) 0] \<and>
    AngleContainsVertex det_tests (\<lambda>b. Vec 1 1 0)
      ([Vec 1 0 0, Vec 0 1 0, Vec (-1) (-1) 0] ! (Suc i mod length [Vec 1 0 0, Vec 0 1 0, Vec (-1) (-1) 0])) (Vec 0 0 1)
      ([Vec 1 0 0, Vec 0 1 0, Vec (-1) (-1) 0] ! i)"
proof (rule AngleContainsVertex_once [where S = UNIV, OF det_tests_sound])
  have o: "OrderedCCW det_tests (Vec 1 0 0) (Vec 0 1 0) (Vec (-1) (-1) 0) (Vec 0 0 1)" by code_simp
  show "\<forall>i j k. i < j \<and> j < k \<and> k < length [Vec 1 0 0, Vec 0 1 0, Vec (-1) (-1) 0] \<longrightarrow>
      OrderedCCW det_tests ([Vec 1 0 0, Vec 0 1 0, Vec (-1) (-1) 0] ! i) ([Vec 1 0 0, Vec 0 1 0, Vec (-1) (-1) 0] ! j)
        ([Vec 1 0 0, Vec 0 1 0, Vec (-1) (-1) 0] ! k) (Vec 0 0 1)"
  proof (intro allI impI)
    fix i j k :: nat
    assume "i < j \<and> j < k \<and> k < length [Vec 1 0 0, Vec 0 1 0, Vec (-1) (-1) 0]"
    then have "i = 0" "j = 1" "k = 2" by simp_all
    then show "OrderedCCW det_tests ([Vec 1 0 0, Vec 0 1 0, Vec (-1) (-1) 0] ! i) ([Vec 1 0 0, Vec 0 1 0, Vec (-1) (-1) 0] ! j)
        ([Vec 1 0 0, Vec 0 1 0, Vec (-1) (-1) 0] ! k) (Vec 0 0 1)" using o by simp
  qed
qed simp_all



section \<open>The edge crosser against its specification\<close>





text \<open>The reference answers from the four points alone; its only state is the last vertex.\<close>

definition vertex_spec :: "sign_tests \<Rightarrow> (vec \<Rightarrow> vec) \<Rightarrow> vec \<Rightarrow> vec \<Rightarrow> vec \<Rightarrow> vec \<Rightarrow> bool" where
  "vertex_spec ft R a b c d \<longleftrightarrow> crossing_spec a b c d = 1 \<or> crossing_spec a b c d = 0 \<and> VertexCrossing ft R a b c d"





lemma EC_RestartAt_ok:
  assumes "crosser_tests_sound ct S" "ec_a ec = a" "ec_b ec = b" "{a, b, c} \<subseteq> S"
    "have_tangents ec \<longrightarrow> a_tangent ec = fst (edge_tangents ct a b) \<and> b_tangent ec = snd (edge_tangents ct a b)"
  shows "crosser_ok ct S a b c (EC_RestartAt ct c ec)"
proof -
  have "triage_sign (of_sign ct) a b c = 0 \<or> triage_sign (of_sign ct) a b c = Sign exact_tests a b c"
    using assms(1,4) by (intro sound_triage) (auto simp: crosser_tests_sound_def)
  then show ?thesis using assms(2-5) exact.swap [of a b c] by (auto simp: crosser_ok_def EC_RestartAt_def)
qed







lemma crossing_spec_one:
  "crossing_spec a b c d = 1 \<longleftrightarrow> (\<exists>s\<noteq>0. Sign exact_tests a c b = s \<and> Sign exact_tests c b d = s \<and> Sign exact_tests b d a = s \<and> Sign exact_tests d a c = s)"
proof -
  have z: "Sign exact_tests a c b = 0 \<longleftrightarrow> a = c \<or> c = b \<or> b = a" "Sign exact_tests d a c = 0 \<longleftrightarrow> d = a \<or> a = c \<or> c = d" "Sign exact_tests c b d = 0 \<longleftrightarrow> c = b \<or> b = d \<or> d = c"
    by (rule exact.zero_iff)+
  show ?thesis
  proof (cases "a = c \<or> a = d \<or> b = c \<or> b = d \<or> a = b \<or> c = d")
    case True
    then have "Sign exact_tests a c b = 0 \<or> Sign exact_tests d a c = 0 \<or> Sign exact_tests c b d = 0" unfolding z by blast
    moreover have "crossing_spec a b c d \<noteq> 1" using True by (auto simp: crossing_spec_def)
    ultimately show ?thesis by metis
  next
    case False
    then have "Sign exact_tests a c b \<noteq> 0" unfolding z by blast
    moreover have "crossing_spec a b c d = 1 \<longleftrightarrow> Sign exact_tests a c b = Sign exact_tests c b d \<and>
        Sign exact_tests c b d = Sign exact_tests b d a \<and> Sign exact_tests b d a = Sign exact_tests d a c"
      using False by (simp add: crossing_spec_def)
    ultimately show ?thesis by metis
  qed
qed

lemma CrossingSign_spec:
  assumes "crosser_tests_sound ct S" "{a, b, c, d} \<subseteq> S"
  shows "CrossingSign ct a b c d = crossing_spec a b c d"
proof -
  have "crosser_ok ct S a b c (EC_new3 ct a b c)"
    unfolding EC_new3_def using assms(2) by (intro EC_RestartAt_ok [OF assms(1)]) (auto simp: EC_new_def)
  from EC_CrossingSign_correct [OF assms(1) this, of d] assms(2) show ?thesis by (auto simp: CrossingSign_def)
qed

text \<open>The documented properties of \<open>CrossingSign\<close>, and its meaning by four orientations.\<close>

theorem CrossingSign_laws:
  assumes "crosser_tests_sound ct S" "{a, b, c, d} \<subseteq> S"
  shows "CrossingSign ct b a c d = CrossingSign ct a b c d \<and> CrossingSign ct c d a b = CrossingSign ct a b c d \<and>
    (a = c \<or> a = d \<or> b = c \<or> b = d \<longleftrightarrow> CrossingSign ct a b c d = 0) \<and>
    (a = b \<or> c = d \<longrightarrow> CrossingSign ct a b c d \<le> 0) \<and>
    (CrossingSign ct a b c d = 1 \<longleftrightarrow> (\<exists>s\<noteq>0. Sign (of_sign ct) a c b = s \<and> Sign (of_sign ct) c b d = s \<and> Sign (of_sign ct) b d a = s \<and> Sign (of_sign ct) d a c = s)) \<and>
    EdgeOrVertexCrossing ct R a b c d = vertex_spec (of_sign ct) R a b c d"
proof -
  note run = CrossingSign_spec [OF assms(1)]
  have s: "Sign (of_sign ct) x y z = Sign exact_tests x y z" if "{x, y, z} \<subseteq> S" for x y z
    using Sign_exact [of "of_sign ct" S x y z] assms(1) that by (simp add: crosser_tests_sound_def)
  have r: "CrossingSign ct a b c d = crossing_spec a b c d" "CrossingSign ct b a c d = crossing_spec a b c d" "CrossingSign ct c d a b = crossing_spec a b c d"
    using run assms(2) crossing_spec_symmetric by simp_all
  have e: "Sign (of_sign ct) a c b = Sign exact_tests a c b" "Sign (of_sign ct) c b d = Sign exact_tests c b d"
    "Sign (of_sign ct) b d a = Sign exact_tests b d a" "Sign (of_sign ct) d a c = Sign exact_tests d a c"
    using s assms(2) by simp_all
  note one = crossing_spec_one [of a b c d]
  have "crossing_spec a b c d = -1 \<or> crossing_spec a b c d = 0 \<or> crossing_spec a b c d = 1" using crossing_spec_range [of a b c d] by simp
  then have "EdgeOrVertexCrossing ct R a b c d = vertex_spec (of_sign ct) R a b c d"
    by (auto simp: EdgeOrVertexCrossing_def r vertex_spec_def)
  moreover have "a = c \<or> a = d \<or> b = c \<or> b = d \<longleftrightarrow> crossing_spec a b c d = 0" "a = b \<or> c = d \<longrightarrow> crossing_spec a b c d \<le> 0"
    by (auto simp: crossing_spec_def)
  ultimately show ?thesis unfolding r e one [symmetric] by (intro conjI refl)
qed

theorem CrossingSign_laws_witness:
  "CrossingSign det_crosser_tests (Vec 0 1 0) (Vec 1 0 0) (Vec 1 1 1) (Vec 1 1 (-1)) = CrossingSign det_crosser_tests (Vec 1 0 0) (Vec 0 1 0) (Vec 1 1 1) (Vec 1 1 (-1))"
  using CrossingSign_laws [OF det_crosser_tests_sound, of "Vec 1 0 0" "Vec 0 1 0" "Vec 1 1 1" "Vec 1 1 (-1)" UNIV] by simp

end
