(* ===== verification/Lexicon.thy ===== *)
theory Lexicon
  imports S2_Prelude "HOL-Library.Monad_Syntax"
begin

text \<open>
  The lexicons (\<^verbatim>\<open>s2/value_lexicon.h\<close>, \<^verbatim>\<open>s2/sequence_lexicon.h\<close>, \<^verbatim>\<open>s2/id_set_lexicon.h\<close> and \<^verbatim>\<open>.cc\<close>), which number distinct
  values, sequences and sets of ids.  The hash set of a lexicon holds ids that are compared by the values they stand for; it is
  the list of its ids here.  \<open>None\<close> is an access outside a vector.
\<close>

section \<open>The hash set\<close>

fun hash_find :: "(uint32 \<Rightarrow> uint32 \<Rightarrow> bool option) \<Rightarrow> uint32 list \<Rightarrow> uint32 \<Rightarrow> uint32 option option" where
  "hash_find eq [] i = Some None"
| "hash_find eq (x # xs) i = do {
     b \<leftarrow> eq x i;
     if b then Some (Some x) else hash_find eq xs i }"

definition kEmptyKey :: uint32 where "kEmptyKey = - 1"

section \<open>\<open>ValueLexicon\<close>\<close>

record 'a value_lexicon =
  vl_values :: "'a list"
  vl_ids :: "uint32 list"

definition VL_new :: "'a value_lexicon" where
  "VL_new = \<lparr>vl_values = [], vl_ids = []\<rparr>"

definition VL_Clear :: "'a value_lexicon \<Rightarrow> 'a value_lexicon" where
  "VL_Clear lx = lx\<lparr>vl_values := [], vl_ids := []\<rparr>"

definition VL_size :: "'a value_lexicon \<Rightarrow> uint32" where
  "VL_size lx = of_nat (length (vl_values lx))"

definition VL_value :: "'a value_lexicon \<Rightarrow> uint32 \<Rightarrow> 'a option" where
  "VL_value lx i = (if unat i < length (vl_values lx) then Some (vl_values lx ! unat i) else None)"

definition VL_key_equal :: "('a \<Rightarrow> 'a \<Rightarrow> bool) \<Rightarrow> 'a value_lexicon \<Rightarrow> uint32 \<Rightarrow> uint32 \<Rightarrow> bool option" where
  "VL_key_equal keq lx id1 id2 =
     (if id1 = id2 then Some True
      else if id1 = kEmptyKey \<or> id2 = kEmptyKey then Some False
      else do { v1 \<leftarrow> VL_value lx id1; v2 \<leftarrow> VL_value lx id2; Some (keq v1 v2) })"

definition VL_Add :: "('a \<Rightarrow> 'a \<Rightarrow> bool) \<Rightarrow> 'a value_lexicon \<Rightarrow> 'a \<Rightarrow> (uint32 \<times> 'a value_lexicon) option" where
  "VL_Add keq lx v =
     (if vl_values lx \<noteq> [] \<and> keq v (last (vl_values lx)) then Some (of_nat (length (vl_values lx) - 1), lx)
      else let lx = lx\<lparr>vl_values := vl_values lx @ [v]\<rparr>;
               i = of_nat (length (vl_values lx) - 1)
           in do {
             found \<leftarrow> hash_find (VL_key_equal keq lx) (vl_ids lx) i;
             case found of
               None \<Rightarrow> Some (i, lx\<lparr>vl_ids := i # vl_ids lx\<rparr>)
             | Some first \<Rightarrow> Some (first, lx\<lparr>vl_values := butlast (vl_values lx)\<rparr>) })"

section \<open>\<open>SequenceLexicon\<close>\<close>

record 'a sequence_lexicon =
  sl_values :: "'a list"
  sl_begins :: "uint32 list"
  sl_ids :: "uint32 list"

definition SL_new :: "'a sequence_lexicon" where
  "SL_new = \<lparr>sl_values = [], sl_begins = [0], sl_ids = []\<rparr>"

definition SL_Clear :: "'a sequence_lexicon \<Rightarrow> 'a sequence_lexicon" where
  "SL_Clear lx = lx\<lparr>sl_values := [], sl_begins := [0], sl_ids := []\<rparr>"

definition SL_size :: "'a sequence_lexicon \<Rightarrow> uint32" where
  "SL_size lx = of_nat (length (sl_begins lx) - 1)"

definition SL_sequence :: "'a sequence_lexicon \<Rightarrow> uint32 \<Rightarrow> 'a list option" where
  "SL_sequence lx i =
     (if unat i < length (sl_begins lx) \<and> unat (i + 1) < length (sl_begins lx) then
        let b = unat (sl_begins lx ! unat i); e = unat (sl_begins lx ! unat (i + 1))
        in if b \<le> e \<and> e \<le> length (sl_values lx) then Some (take (e - b) (drop b (sl_values lx))) else None
      else None)"

definition SL_key_equal :: "('a \<Rightarrow> 'a \<Rightarrow> bool) \<Rightarrow> 'a sequence_lexicon \<Rightarrow> uint32 \<Rightarrow> uint32 \<Rightarrow> bool option" where
  "SL_key_equal keq lx id1 id2 =
     (if id1 = id2 then Some True
      else if id1 = kEmptyKey \<or> id2 = kEmptyKey then Some False
      else do { s1 \<leftarrow> SL_sequence lx id1; s2 \<leftarrow> SL_sequence lx id2;
                Some (length s1 = length s2 \<and> list_all2 keq s1 s2) })"

definition SL_Add :: "('a \<Rightarrow> 'a \<Rightarrow> bool) \<Rightarrow> 'a sequence_lexicon \<Rightarrow> 'a list \<Rightarrow> (uint32 \<times> 'a sequence_lexicon) option" where
  "SL_Add keq lx xs =
     (let lx = lx\<lparr>sl_values := sl_values lx @ xs\<rparr>;
          lx = lx\<lparr>sl_begins := sl_begins lx @ [of_nat (length (sl_values lx))]\<rparr>;
          i = of_nat (length (sl_begins lx) - 2)
      in do {
        found \<leftarrow> hash_find (SL_key_equal keq lx) (sl_ids lx) i;
        case found of
          None \<Rightarrow> Some (i, lx\<lparr>sl_ids := i # sl_ids lx\<rparr>)
        | Some first \<Rightarrow>
            let lx = lx\<lparr>sl_begins := butlast (sl_begins lx)\<rparr>
            in Some (first, lx\<lparr>sl_values := take (unat (last (sl_begins lx))) (sl_values lx)\<rparr>) })"

section \<open>\<open>IdSetLexicon\<close>\<close>

text \<open>An id or a set id is an \<open>int32\<close>, and the number of a set in the underlying \<open>SequenceLexicon\<close> the same bits unsigned.\<close>

definition kEmptySetId :: int32 where "kEmptySetId = of_int (- (2 ^ 31))"

definition IL_EmptySetId :: int32 where "IL_EmptySetId = kEmptySetId"

definition IL_AddSingleton :: "int32 \<Rightarrow> int32" where "IL_AddSingleton i = i"

definition IL_AddInternal :: "int32 sequence_lexicon \<Rightarrow> int32 list \<Rightarrow> (int32 \<times> int32 sequence_lexicon) option" where
  "IL_AddInternal lx ids =
     (if ids = [] then Some (kEmptySetId, lx)
      else if length ids = 1 then Some (ids ! 0, lx)
      else let ids = remdups_adj (sort_key sint ids)
           in if length ids = 1 then Some (ids ! 0, lx)
              else do { (n, lx) \<leftarrow> SL_Add (=) lx ids; Some (NOT n, lx) })"

definition IL_Add :: "int32 sequence_lexicon \<Rightarrow> int32 list \<Rightarrow> (int32 \<times> int32 sequence_lexicon) option" where
  "IL_Add lx ids = IL_AddInternal lx ids"

definition IL_Clear :: "int32 sequence_lexicon \<Rightarrow> int32 sequence_lexicon" where
  "IL_Clear lx = SL_Clear lx"

definition IL_id_set :: "int32 sequence_lexicon \<Rightarrow> int32 \<Rightarrow> int32 list option" where
  "IL_id_set lx set_id =
     (if 0 \<le> sint set_id then Some [set_id]
      else if set_id = kEmptySetId then Some []
      else SL_sequence lx (NOT set_id))"

section \<open>What a lexicon is\<close>

text \<open>
  The contract: the entries are pairwise different, the number of an entry is its position, adding a value that is there
  changes nothing and adding another one appends it, as long as it \<open>fits\<close>.
\<close>

locale lexicon =
  fixes add :: "'s \<Rightarrow> 'v \<Rightarrow> (uint32 \<times> 's) option"
    and get :: "'s \<Rightarrow> uint32 \<Rightarrow> 'v option"
    and count :: "'s \<Rightarrow> uint32"
    and entries :: "'s \<Rightarrow> 'v list"
    and ok :: "'s \<Rightarrow> bool"
    and eqv :: "'v \<Rightarrow> 'v \<Rightarrow> bool"
    and fits :: "'v list \<Rightarrow> bool"
  assumes refl: "eqv v v"
    and sym: "eqv u v \<Longrightarrow> eqv v u"
    and trans: "eqv u v \<Longrightarrow> eqv v w \<Longrightarrow> eqv u w"
    and different: "ok s \<Longrightarrow> i < length (entries s) \<Longrightarrow> j < length (entries s) \<Longrightarrow> eqv (entries s ! i) (entries s ! j) \<Longrightarrow> i = j"
    and get: "ok s \<Longrightarrow> i < length (entries s) \<Longrightarrow> get s (of_nat i) = Some (entries s ! i)"
    and count: "ok s \<Longrightarrow> count s = of_nat (length (entries s))"
    and fits_drop: "fits (es @ v # vs) \<Longrightarrow> fits (es @ vs)"
    and fits_take: "fits (es @ v # vs) \<Longrightarrow> fits (es @ [v])"
    and small: "ok s \<Longrightarrow> length (entries s) < 2 ^ 32"
    and add_old: "ok s \<Longrightarrow> fits (entries s @ [v]) \<Longrightarrow> i < length (entries s) \<Longrightarrow> eqv (entries s ! i) v \<Longrightarrow> add s v = Some (of_nat i, s)"
    and add_new: "ok s \<Longrightarrow> fits (entries s @ [v]) \<Longrightarrow> (\<And>i. i < length (entries s) \<Longrightarrow> \<not> eqv (entries s ! i) v) \<Longrightarrow>
      \<exists>s'. add s v = Some (of_nat (length (entries s)), s') \<and> ok s' \<and> entries s' = entries s @ [v]"

text \<open>A client that adds a list of values.\<close>

fun add_all :: "('s \<Rightarrow> 'v \<Rightarrow> ('i \<times> 's) option) \<Rightarrow> 's \<Rightarrow> 'v list \<Rightarrow> ('i list \<times> 's) option" where
  "add_all add s [] = Some ([], s)"
| "add_all add s (v # vs) = do {
     (i, s) \<leftarrow> add s v;
     (ns, s) \<leftarrow> add_all add s vs;
     Some (i # ns, s) }"

fun fresh_entries :: "('v \<Rightarrow> 'v \<Rightarrow> bool) \<Rightarrow> 'v list \<Rightarrow> 'v list \<Rightarrow> 'v list" where
  "fresh_entries eqv es [] = es"
| "fresh_entries eqv es (v # vs) = fresh_entries eqv (if \<exists>e\<in>set es. eqv e v then es else es @ [v]) vs"

lemma fresh_entries_extends: "\<exists>ws. fresh_entries eqv es vs = es @ ws"
proof (induction vs arbitrary: es)
  case (Cons v vs)
  from Cons.IH [of es] Cons.IH [of "es @ [v]"] show ?case by auto
qed simp

context lexicon
begin

lemma add_all:
  assumes "ok s" "fits (entries s @ vs)"
  shows "\<exists>ns s'. add_all add s vs = Some (ns, s') \<and> ok s' \<and> entries s' = fresh_entries eqv (entries s) vs \<and> length ns = length vs \<and>
    (\<forall>k<length vs. unat (ns ! k) < length (entries s') \<and> eqv (entries s' ! unat (ns ! k)) (vs ! k))"
  using assms
proof (induction vs arbitrary: s)
  case (Cons v vs)
  have f: "fits (entries s @ [v])" "fits (entries s @ vs)" using Cons.prems(2) fits_take fits_drop by blast+
  have "\<exists>i s1. add s v = Some (of_nat i, s1) \<and> ok s1 \<and> i < length (entries s1) \<and> eqv (entries s1 ! i) v \<and> fits (entries s1 @ vs) \<and>
      entries s1 = (if \<exists>e\<in>set (entries s). eqv e v then entries s else entries s @ [v])"
  proof (cases "\<exists>e\<in>set (entries s). eqv e v")
    case True
    then obtain i where i: "i < length (entries s)" "eqv (entries s ! i) v" by (auto simp: in_set_conv_nth)
    from add_old [OF Cons.prems(1) f(1) i] i True f Cons.prems(1) show ?thesis by auto
  next
    case False
    then have n: "\<And>i. i < length (entries s) \<Longrightarrow> \<not> eqv (entries s ! i) v" by simp
    obtain s1 where "add s v = Some (of_nat (length (entries s)), s1)" "ok s1" "entries s1 = entries s @ [v]"
      using add_new [OF Cons.prems(1) f(1) n] by blast
    with False Cons.prems(2) refl show ?thesis by (intro exI [of _ "length (entries s)"] exI [of _ s1]) auto
  qed
  then obtain i s1 where s1: "add s v = Some (of_nat i, s1)" "ok s1" "i < length (entries s1)" "eqv (entries s1 ! i) v" "fits (entries s1 @ vs)"
    "entries s1 = (if \<exists>e\<in>set (entries s). eqv e v then entries s else entries s @ [v])" by blast
  from Cons.IH [OF s1(2,5)] obtain ns s' where s': "add_all add s1 vs = Some (ns, s')" "ok s'"
    "entries s' = fresh_entries eqv (entries s1) vs" "length ns = length vs"
    "\<forall>k<length vs. unat (ns ! k) < length (entries s') \<and> eqv (entries s' ! unat (ns ! k)) (vs ! k)" by blast
  obtain ws where ws: "entries s' = entries s1 @ ws" using fresh_entries_extends s'(3) by metis
  have u: "unat (of_nat i :: uint32) = i" using small [OF s1(2)] s1(3) by (simp add: unat_of_nat)
  have "\<forall>k<length (v # vs). unat ((of_nat i # ns) ! k) < length (entries s') \<and> eqv (entries s' ! unat ((of_nat i # ns) ! k)) ((v # vs) ! k)"
    using s'(5) s1(3,4) u ws by (auto simp: nth_Cons nth_append split: nat.split)
  with s1 s' show ?case by simp
qed simp

text \<open>The numbers identify the values, and lead back to them.\<close>

lemma add_all_get:
  assumes "ok s" "fits (entries s @ vs)"
  shows "\<exists>ns s'. add_all add s vs = Some (ns, s') \<and> length ns = length vs \<and> count s' = of_nat (length (fresh_entries eqv (entries s) vs)) \<and>
    (\<forall>k<length vs. \<exists>w. get s' (ns ! k) = Some w \<and> eqv w (vs ! k)) \<and>
    (\<forall>k<length vs. \<forall>l<length vs. (ns ! k = ns ! l) = eqv (vs ! k) (vs ! l))"
proof -
  from add_all [OF assms] obtain ns s' where s': "add_all add s vs = Some (ns, s')" "ok s'" "entries s' = fresh_entries eqv (entries s) vs" "length ns = length vs"
    "\<And>k. k < length vs \<Longrightarrow> unat (ns ! k) < length (entries s')" "\<And>k. k < length vs \<Longrightarrow> eqv (entries s' ! unat (ns ! k)) (vs ! k)" by blast
  have "\<exists>w. get s' (ns ! k) = Some w \<and> eqv w (vs ! k)" if "k < length vs" for k
    using get [OF s'(2) s'(5) [OF that]] s'(6) [OF that] by simp
  moreover have "(ns ! k = ns ! l) = eqv (vs ! k) (vs ! l)" if "k < length vs" "l < length vs" for k l
  proof
    assume "ns ! k = ns ! l"
    then show "eqv (vs ! k) (vs ! l)" using s'(6) [OF that(1)] s'(6) [OF that(2)] sym trans by metis
  next
    assume "eqv (vs ! k) (vs ! l)"
    then have "eqv (entries s' ! unat (ns ! k)) (entries s' ! unat (ns ! l))" using s'(6) [OF that(1)] s'(6) [OF that(2)] sym trans by metis
    from different [OF s'(2) s'(5) [OF that(1)] s'(5) [OF that(2)] this] show "ns ! k = ns ! l" by (simp add: word_unat_eq_iff)
  qed
  ultimately have "length ns = length vs \<and> count s' = of_nat (length (fresh_entries eqv (entries s) vs)) \<and>
    (\<forall>k<length vs. \<exists>w. get s' (ns ! k) = Some w \<and> eqv w (vs ! k)) \<and>
    (\<forall>k<length vs. \<forall>l<length vs. (ns ! k = ns ! l) = eqv (vs ! k) (vs ! l))"
    using s'(4) count [OF s'(2)] s'(3) by (intro conjI) (simp, simp, blast, blast)
  with s'(1) show ?thesis by blast
qed

end

section \<open>Search\<close>

lemma hash_find_Some:
  assumes "\<And>x. x \<in> set xs \<Longrightarrow> eq x k = Some (p x)"
  shows "hash_find eq xs k = Some (find p xs)"
  using assms by (induction xs) simp_all

lemma find_unique:
  assumes "x \<in> set xs" "p x" "\<And>y. y \<in> set xs \<Longrightarrow> p y \<Longrightarrow> y = x"
  shows "find p xs = Some x"
  using assms(1,3)
proof (induction xs)
  case (Cons z zs)
  show ?case
  proof (cases "p z")
    case True
    with Cons.prems(2) [of z] show ?thesis by simp
  next
    case False
    with Cons.prems(1) assms(2) have "x \<in> set zs" by auto
    with Cons.IH Cons.prems(2) False show ?thesis by simp
  qed
qed simp

section \<open>\<open>ValueLexicon\<close> is a lexicon\<close>

definition VL_ok :: "('a \<Rightarrow> 'a \<Rightarrow> bool) \<Rightarrow> 'a value_lexicon \<Rightarrow> bool" where
  "VL_ok keq lx \<longleftrightarrow> length (vl_values lx) < 2 ^ 32 \<and> set (vl_ids lx) = of_nat ` {..<length (vl_values lx)} \<and>
     (\<forall>i<length (vl_values lx). \<forall>j<length (vl_values lx). keq (vl_values lx ! i) (vl_values lx ! j) \<longrightarrow> i = j)"

lemma of_nat_eq_iff: "i < 2 ^ 32 \<Longrightarrow> j < 2 ^ 32 \<Longrightarrow> (of_nat i :: uint32) = of_nat j \<longleftrightarrow> i = j"
  by (simp add: word_unat_eq_iff unat_of_nat)

lemma unat_of_nat_small: "i < 2 ^ 32 \<Longrightarrow> unat (of_nat i :: uint32) = i"
  by (simp add: unat_of_nat)

lemma of_nat_not_key: "Suc i < 2 ^ 32 \<Longrightarrow> (of_nat i :: uint32) \<noteq> kEmptyKey"
proof -
  assume "Suc i < 2 ^ 32"
  then have "unat (of_nat i :: uint32) < 2 ^ 32 - 1" by (simp add: unat_of_nat)
  moreover have "unat kEmptyKey = 2 ^ 32 - 1" unfolding kEmptyKey_def unsigned_minus_1_eq_mask by (simp add: mask_eq_exp_minus_1)
  ultimately show ?thesis by auto
qed

locale key_equal =
  fixes keq :: "'a \<Rightarrow> 'a \<Rightarrow> bool"
  assumes keq_refl: "keq x x"
    and keq_sym: "keq x y \<Longrightarrow> keq y x"
    and keq_trans: "keq x y \<Longrightarrow> keq y z \<Longrightarrow> keq x z"
begin

lemma VL_key_equal:
  assumes "i < n" "n = length vs" "Suc n < 2 ^ 32"
  shows "VL_key_equal keq (lx\<lparr>vl_values := vs @ [v]\<rparr>) (of_nat i) (of_nat n) = Some (keq (vs ! i) v)"
proof -
  have "(of_nat i :: uint32) \<noteq> of_nat n" "(of_nat i :: uint32) \<noteq> kEmptyKey" "(of_nat n :: uint32) \<noteq> kEmptyKey"
    using assms of_nat_eq_iff [of i n] of_nat_not_key [of i] of_nat_not_key [of n] by simp_all
  moreover have "unat (of_nat i :: uint32) = i" "unat (of_nat n :: uint32) = n" using assms by (simp_all add: unat_of_nat)
  ultimately show ?thesis using assms(1,2) by (simp add: VL_key_equal_def VL_value_def nth_append)
qed

lemma VL_search:
  assumes "VL_ok keq lx" "length (vl_values lx @ [v]) < 2 ^ 32"
  shows "hash_find (VL_key_equal keq (lx\<lparr>vl_values := vl_values lx @ [v]\<rparr>)) (vl_ids lx) (of_nat (length (vl_values lx))) =
    Some (find (\<lambda>x. keq (vl_values lx ! unat x) v) (vl_ids lx))"
proof (rule hash_find_Some)
  fix x assume "x \<in> set (vl_ids lx)"
  then obtain i where i: "i < length (vl_values lx)" "x = of_nat i" using assms(1) by (auto simp: VL_ok_def)
  have "unat (of_nat i :: uint32) = i" using i assms(2) by (simp add: unat_of_nat)
  then show "VL_key_equal keq (lx\<lparr>vl_values := vl_values lx @ [v]\<rparr>) x (of_nat (length (vl_values lx))) = Some (keq (vl_values lx ! unat x) v)"
    using VL_key_equal [OF i(1) refl, of v lx] assms(2) i(2) by simp
qed

lemma VL_Add_old:
  assumes "VL_ok keq lx" "length (vl_values lx @ [v]) < 2 ^ 32" "i < length (vl_values lx)" "keq (vl_values lx ! i) v"
  shows "VL_Add keq lx v = Some (of_nat i, lx)"
proof -
  let ?n = "length (vl_values lx)"
  have only: "j = i" if "j < ?n" "keq (vl_values lx ! j) v" for j
  proof -
    have "keq (vl_values lx ! j) (vl_values lx ! i)" using that(2) assms(4) keq_sym keq_trans by blast
    then show ?thesis using assms(1,3) that(1) by (simp add: VL_ok_def)
  qed
  show ?thesis
  proof (cases "keq v (last (vl_values lx))")
    case True
    have "last (vl_values lx) = vl_values lx ! (?n - 1)" using assms(3) by (intro last_conv_nth) auto
    with True only [of "?n - 1"] keq_sym assms(3) have "?n - 1 = i" by simp
    with True assms(3) show ?thesis by (auto simp: VL_Add_def)
  next
    case False
    have "find (\<lambda>x. keq (vl_values lx ! unat x) v) (vl_ids lx) = Some (of_nat i)"
    proof (rule find_unique)
      show "of_nat i \<in> set (vl_ids lx)" using assms(1,3) by (simp add: VL_ok_def)
      show "keq (vl_values lx ! unat (of_nat i :: uint32)) v" using assms(2-4) by (simp add: unat_of_nat)
    next
      fix y assume "y \<in> set (vl_ids lx)" "keq (vl_values lx ! unat y) v"
      moreover from this obtain j where "y = of_nat j" "j < ?n" using assms(1) by (auto simp: VL_ok_def)
      ultimately show "y = of_nat i" using only [of j] assms(2) by (simp add: unat_of_nat)
    qed
    with False VL_search [OF assms(1,2)] assms(3) show ?thesis by (simp add: VL_Add_def Let_def)
  qed
qed

lemma VL_Add_new:
  assumes "VL_ok keq lx" "length (vl_values lx @ [v]) < 2 ^ 32" "\<And>i. i < length (vl_values lx) \<Longrightarrow> \<not> keq (vl_values lx ! i) v"
  shows "\<exists>s'. VL_Add keq lx v = Some (of_nat (length (vl_values lx)), s') \<and> VL_ok keq s' \<and> vl_values s' = vl_values lx @ [v]"
proof -
  let ?n = "length (vl_values lx)" and ?s = "lx\<lparr>vl_values := vl_values lx @ [v], vl_ids := of_nat (length (vl_values lx)) # vl_ids lx\<rparr>"
  have l: "\<not> (vl_values lx \<noteq> [] \<and> keq v (last (vl_values lx)))"
  proof
    assume h: "vl_values lx \<noteq> [] \<and> keq v (last (vl_values lx))"
    have "\<not> keq (vl_values lx ! (?n - 1)) v" using h by (intro assms(3)) simp
    moreover have "keq (last (vl_values lx)) v" using h by (simp add: keq_sym)
    ultimately show False using h by (simp add: last_conv_nth)
  qed
  have "find (\<lambda>x. keq (vl_values lx ! unat x) v) (vl_ids lx) = None"
    unfolding find_None_iff
  proof (rule notI, elim exE conjE)
    fix x assume x: "x \<in> set (vl_ids lx)" "keq (vl_values lx ! unat x) v"
    from x(1) assms(1) have "x \<in> of_nat ` {..<?n}" by (simp add: VL_ok_def)
    then obtain i where i: "x = of_nat i" "i < ?n" by blast
    with assms(2) have "unat x = i" by (simp add: unat_of_nat)
    with assms(3) [OF i(2)] x(2) show False by simp
  qed
  then have "VL_Add keq lx v = Some (of_nat ?n, ?s)"
    using l VL_search [OF assms(1,2)] unfolding VL_Add_def if_not_P [OF l] by (simp add: Let_def)
  moreover have "VL_ok keq ?s"
    unfolding VL_ok_def
  proof (intro conjI allI impI)
    show "length (vl_values ?s) < 2 ^ 32" using assms(2) by simp
    show "set (vl_ids ?s) = of_nat ` {..<length (vl_values ?s)}" using assms(1) by (simp add: VL_ok_def lessThan_Suc)
    fix i j assume h: "i < length (vl_values ?s)" "j < length (vl_values ?s)" "keq (vl_values ?s ! i) (vl_values ?s ! j)"
    have "\<not> keq v (vl_values lx ! i)" if "i < ?n" for i using assms(3) [OF that] keq_sym by blast
    with h assms(1) assms(3) show "i = j" by (auto simp: VL_ok_def nth_append less_Suc_eq)
  qed
  ultimately show ?thesis by simp
qed

end

sublocale key_equal \<subseteq> vals: lexicon "VL_Add keq" VL_value VL_size vl_values "VL_ok keq" keq "\<lambda>vs. length vs < 2 ^ 32"
proof (unfold_locales, goal_cases)
  case (5 s i)
  then show ?case by (simp add: VL_value_def VL_ok_def unat_of_nat)
next
  case (10 s v i)
  then show ?case by (intro VL_Add_old)
next
  case (11 s v)
  then show ?case by (intro VL_Add_new) auto
qed (auto intro: keq_refl keq_sym keq_trans simp: VL_ok_def VL_size_def)

section \<open>\<open>SequenceLexicon\<close> is a lexicon\<close>

definition offsets :: "'a list list \<Rightarrow> uint32 list" where
  "offsets es = map (\<lambda>i. of_nat (length (concat (take i es)))) [0..<Suc (length es)]"

definition seqs_fit :: "'a list list \<Rightarrow> bool" where
  "seqs_fit es \<longleftrightarrow> length (concat es) < 2 ^ 32 \<and> Suc (length es) < 2 ^ 32"

definition SL_entries :: "'a sequence_lexicon \<Rightarrow> 'a list list" where
  "SL_entries lx = map (\<lambda>i. take (unat (sl_begins lx ! Suc i) - unat (sl_begins lx ! i)) (drop (unat (sl_begins lx ! i)) (sl_values lx)))
     [0..<length (sl_begins lx) - 1]"

definition SL_shows :: "'a sequence_lexicon \<Rightarrow> 'a list list \<Rightarrow> bool" where
  "SL_shows lx es \<longleftrightarrow> sl_values lx = concat es \<and> sl_begins lx = offsets es \<and> seqs_fit es"

definition SL_ok :: "('a \<Rightarrow> 'a \<Rightarrow> bool) \<Rightarrow> 'a sequence_lexicon \<Rightarrow> bool" where
  "SL_ok keq lx \<longleftrightarrow> SL_shows lx (SL_entries lx) \<and> set (sl_ids lx) = of_nat ` {..<length (SL_entries lx)} \<and>
     (\<forall>i<length (SL_entries lx). \<forall>j<length (SL_entries lx). list_all2 keq (SL_entries lx ! i) (SL_entries lx ! j) \<longrightarrow> i = j)"

lemma length_offsets [simp]: "length (offsets es) = Suc (length es)"
  by (simp add: offsets_def)

lemma offsets_nth: "i \<le> length es \<Longrightarrow> offsets es ! i = of_nat (length (concat (take i es)))"
  unfolding offsets_def by (simp del: upt_Suc)

lemma offsets_snoc: "offsets (es @ [v]) = offsets es @ [of_nat (length (concat es) + length v)]"
proof (rule nth_equalityI)
  fix i assume "i < length (offsets (es @ [v]))"
  then have "i \<le> length es \<or> i = Suc (length es)" by auto
  then show "offsets (es @ [v]) ! i = (offsets es @ [of_nat (length (concat es) + length v)]) ! i"
    by (auto simp: offsets_nth nth_append)
qed simp

lemma concat_take_bound: "length (concat (take i es)) \<le> length (concat es)"
proof -
  have "concat es = concat (take i es) @ concat (drop i es)" by (metis append_take_drop_id concat_append)
  then show ?thesis by simp
qed

lemma concat_take_mono: "length (concat (take i es)) \<le> length (concat (take (Suc i) es))"
  using concat_take_bound [of i "take (Suc i) es"] by (simp add: min_def)

lemma concat_slice:
  assumes "i < length es"
  shows "take (length (concat (take (Suc i) es)) - length (concat (take i es))) (drop (length (concat (take i es))) (concat es)) = es ! i"
proof -
  have "concat es = concat (take i es) @ es ! i @ concat (drop (Suc i) es)"
    using assms by (metis id_take_nth_drop concat.simps(2) concat_append)
  moreover have "length (concat (take (Suc i) es)) - length (concat (take i es)) = length (es ! i)"
    using assms by (simp add: take_Suc_conv_app_nth)
  ultimately show ?thesis by simp
qed

lemma SL_shows_sequence:
  assumes "SL_shows lx es" "i < length es"
  shows "SL_sequence lx (of_nat i) = Some (es ! i)"
proof -
  have u: "unat (of_nat i :: uint32) = i" "unat (of_nat i + 1 :: uint32) = Suc i"
    using assms unat_of_nat_small [of "Suc i"] unat_of_nat_small [of i] by (simp_all add: SL_shows_def seqs_fit_def add.commute)
  have b: "unat (offsets es ! j) = length (concat (take j es))" if "j \<le> length es" for j
    using that assms(1) concat_take_bound [of j es] by (simp add: offsets_nth SL_shows_def seqs_fit_def unat_of_nat)
  show ?thesis
    using assms u b [of i] b [of "Suc i"] concat_slice [OF assms(2)] concat_take_mono [of i es] concat_take_bound [of "Suc i" es]
    by (simp add: SL_sequence_def SL_shows_def Let_def)
qed

lemma SL_shows_entries: "SL_shows lx es \<Longrightarrow> SL_entries lx = es"
proof (rule nth_equalityI)
  fix i assume a: "SL_shows lx es" "i < length (SL_entries lx)"
  then have i: "i < length es" by (simp add: SL_entries_def SL_shows_def)
  have b: "unat (offsets es ! j) = length (concat (take j es))" if "j \<le> length es" for j
    using that a(1) concat_take_bound [of j es] by (simp add: offsets_nth SL_shows_def seqs_fit_def unat_of_nat)
  show "SL_entries lx ! i = es ! i"
    using a i b [of i] b [of "Suc i"] concat_slice [OF i] by (simp add: SL_entries_def SL_shows_def)
qed (simp add: SL_entries_def SL_shows_def)

lemma SL_shows_snoc:
  assumes "SL_shows lx es" "seqs_fit (es @ [v])"
  shows "SL_shows (lx\<lparr>sl_values := sl_values lx @ v, sl_begins := sl_begins lx @ [of_nat (length (sl_values lx @ v))], sl_ids := ns\<rparr>) (es @ [v])"
  using assms by (simp add: SL_shows_def offsets_snoc)

abbreviation (input) SL_pushed :: "'a sequence_lexicon \<Rightarrow> 'a list \<Rightarrow> 'a sequence_lexicon" where
  "SL_pushed lx v \<equiv> lx\<lparr>sl_values := sl_values lx @ v, sl_begins := sl_begins lx @ [of_nat (length (sl_values lx @ v))]\<rparr>"

lemma SL_pushed_shows:
  assumes "SL_shows lx es" "seqs_fit (es @ [v])"
  shows "SL_shows (SL_pushed lx v) (es @ [v])"
  using SL_shows_snoc [OF assms, of "sl_ids lx"] by simp

lemma SL_unpushed:
  assumes "SL_shows lx es"
  shows "lx\<lparr>sl_values := take (unat (last (sl_begins lx))) (sl_values lx @ v), sl_begins := sl_begins lx\<rparr> = lx"
proof -
  have "last (sl_begins lx) = of_nat (length (concat es))"
    using assms by (simp add: SL_shows_def last_conv_nth offsets_nth flip: length_0_conv)
  then have "unat (last (sl_begins lx)) = length (sl_values lx)" using assms by (simp add: SL_shows_def seqs_fit_def unat_of_nat)
  then show ?thesis by simp
qed

context key_equal
begin

lemma seq_refl: "list_all2 keq x x" by (simp add: keq_refl list_all2_refl)

lemma seq_sym: "list_all2 keq x y \<Longrightarrow> list_all2 keq y x"
  using keq_sym by (auto simp: list_all2_conv_all_nth)

lemma seq_trans: "list_all2 keq x y \<Longrightarrow> list_all2 keq y z \<Longrightarrow> list_all2 keq x z"
  by (rule list_all2_trans [of keq keq keq]) (rule keq_trans)

lemma SL_search:
  assumes "SL_shows lx es" "set (sl_ids lx) = of_nat ` {..<length es}" "seqs_fit (es @ [v])"
  shows "hash_find (SL_key_equal keq (SL_pushed lx v)) (sl_ids lx) (of_nat (length es)) =
    Some (find (\<lambda>x. list_all2 keq (es ! unat x) v) (sl_ids lx))"
proof (rule hash_find_Some)
  fix x assume "x \<in> set (sl_ids lx)"
  then obtain i where i: "i < length es" "x = of_nat i" using assms(2) by auto
  let ?n = "length es"
  have n: "Suc (Suc ?n) < 2 ^ 32" using assms(3) by (simp add: seqs_fit_def)
  have "(of_nat i :: uint32) \<noteq> of_nat ?n" "(of_nat i :: uint32) \<noteq> kEmptyKey" "(of_nat ?n :: uint32) \<noteq> kEmptyKey"
    using i n of_nat_eq_iff [of i ?n] of_nat_not_key [of i] of_nat_not_key [of ?n] by simp_all
  moreover have "SL_sequence (SL_pushed lx v) (of_nat i) = Some (es ! i)" "SL_sequence (SL_pushed lx v) (of_nat ?n) = Some v"
    using SL_shows_sequence [OF SL_pushed_shows [OF assms(1,3)], of i] SL_shows_sequence [OF SL_pushed_shows [OF assms(1,3)], of ?n] i
    by (simp_all add: nth_append)
  moreover have "unat (of_nat i :: uint32) = i" using i n by (simp add: unat_of_nat)
  ultimately show "SL_key_equal keq (SL_pushed lx v) x (of_nat ?n) = Some (list_all2 keq (es ! unat x) v)"
    using i(2) by (auto simp: SL_key_equal_def dest: list_all2_lengthD)
qed

lemma SL_Add_unfold:
  assumes "SL_ok keq lx" "seqs_fit (SL_entries lx @ [v])"
  shows "SL_Add keq lx v =
    (case find (\<lambda>x. list_all2 keq (SL_entries lx ! unat x) v) (sl_ids lx) of
       None \<Rightarrow> Some (of_nat (length (SL_entries lx)), (SL_pushed lx v)\<lparr>sl_ids := of_nat (length (SL_entries lx)) # sl_ids lx\<rparr>)
     | Some first \<Rightarrow> Some (first, lx))"
proof -
  have s: "SL_shows lx (SL_entries lx)" "set (sl_ids lx) = of_nat ` {..<length (SL_entries lx)}" using assms(1) by (simp_all add: SL_ok_def)
  have n: "length (sl_begins lx) - 1 = length (SL_entries lx)" using s(1) by (simp add: SL_shows_def)
  show ?thesis
    using SL_search [OF s assms(2)] SL_unpushed [OF s(1), of v] n
    by (simp add: SL_Add_def Let_def split: option.split)
qed

lemma SL_Add_old:
  assumes "SL_ok keq lx" "seqs_fit (SL_entries lx @ [v])" "i < length (SL_entries lx)" "list_all2 keq (SL_entries lx ! i) v"
  shows "SL_Add keq lx v = Some (of_nat i, lx)"
proof -
  let ?es = "SL_entries lx"
  have n: "length ?es < 2 ^ 32" using assms(2) by (simp add: seqs_fit_def)
  have "find (\<lambda>x. list_all2 keq (?es ! unat x) v) (sl_ids lx) = Some (of_nat i)"
  proof (rule find_unique)
    show "of_nat i \<in> set (sl_ids lx)" using assms(1,3) by (simp add: SL_ok_def)
    show "list_all2 keq (?es ! unat (of_nat i :: uint32)) v" using assms(3,4) n by (simp add: unat_of_nat)
  next
    fix y assume y: "y \<in> set (sl_ids lx)" "list_all2 keq (?es ! unat y) v"
    have "y \<in> of_nat ` {..<length ?es}" using y(1) assms(1) by (simp add: SL_ok_def)
    then obtain j where j: "y = of_nat j" "j < length ?es" by blast
    then have "unat y = j" using n by (simp add: unat_of_nat)
    then have "list_all2 keq (?es ! j) (?es ! i)" using y(2) assms(4) seq_sym seq_trans by blast
    then have "j = i" using assms(1,3) j(2) by (simp add: SL_ok_def)
    with j(1) show "y = of_nat i" by simp
  qed
  with SL_Add_unfold [OF assms(1,2)] show ?thesis by simp
qed

lemma SL_Add_new:
  assumes "SL_ok keq lx" "seqs_fit (SL_entries lx @ [v])" "\<And>i. i < length (SL_entries lx) \<Longrightarrow> \<not> list_all2 keq (SL_entries lx ! i) v"
  shows "\<exists>s'. SL_Add keq lx v = Some (of_nat (length (SL_entries lx)), s') \<and> SL_ok keq s' \<and> SL_entries s' = SL_entries lx @ [v]"
proof -
  let ?es = "SL_entries lx" and ?s = "(SL_pushed lx v)\<lparr>sl_ids := of_nat (length (SL_entries lx)) # sl_ids lx\<rparr>"
  have ok: "SL_shows lx ?es" "set (sl_ids lx) = of_nat ` {..<length ?es}"
    "\<forall>i<length ?es. \<forall>j<length ?es. list_all2 keq (?es ! i) (?es ! j) \<longrightarrow> i = j" using assms(1) by (simp_all add: SL_ok_def)
  have "find (\<lambda>x. list_all2 keq (?es ! unat x) v) (sl_ids lx) = None"
    unfolding find_None_iff
  proof (rule notI, elim exE conjE)
    fix x assume x: "x \<in> set (sl_ids lx)" "list_all2 keq (?es ! unat x) v"
    then obtain i where i: "x = of_nat i" "i < length ?es" using ok(2) by auto
    with assms(2) have "unat x = i" by (simp add: seqs_fit_def unat_of_nat)
    with assms(3) [OF i(2)] x(2) show False by simp
  qed
  then have "SL_Add keq lx v = Some (of_nat (length ?es), ?s)" using SL_Add_unfold [OF assms(1,2)] by simp
  moreover have e: "SL_shows ?s (?es @ [v])"
    using SL_shows_snoc [OF ok(1) assms(2), of "of_nat (length ?es) # sl_ids lx"] by simp
  moreover have "SL_ok keq ?s"
    unfolding SL_ok_def SL_shows_entries [OF e]
  proof (intro conjI allI impI)
    show "SL_shows ?s (?es @ [v])" by (rule e)
    show "set (sl_ids ?s) = of_nat ` {..<length (?es @ [v])}" using ok(2) by (simp add: lessThan_Suc)
    fix i j assume h: "i < length (?es @ [v])" "j < length (?es @ [v])" "list_all2 keq ((?es @ [v]) ! i) ((?es @ [v]) ! j)"
    have "\<not> list_all2 keq v (?es ! i)" if "i < length ?es" for i using assms(3) [OF that] seq_sym by blast
    with h ok(3) assms(3) show "i = j" by (auto simp: nth_append less_Suc_eq)
  qed
  ultimately show ?thesis using SL_shows_entries [OF e] by simp
qed

end

sublocale key_equal \<subseteq> seqs: lexicon "SL_Add keq" SL_sequence SL_size SL_entries "SL_ok keq" "list_all2 keq" seqs_fit
proof (unfold_locales, goal_cases)
  case (2 u v)
  then show ?case by (rule seq_sym)
next
  case (3 u v w)
  then show ?case by (rule seq_trans)
next
  case (5 s i)
  then show ?case by (intro SL_shows_sequence) (auto simp: SL_ok_def)
next
  case (6 s)
  then show ?case by (simp add: SL_size_def SL_ok_def SL_shows_def)
next
  case (9 s)
  then show ?case by (simp add: SL_ok_def SL_shows_def seqs_fit_def)
next
  case (10 s v i)
  then show ?case by (intro SL_Add_old)
next
  case (11 s v)
  then show ?case by (intro SL_Add_new) auto
qed (auto simp: seqs_fit_def seq_refl SL_ok_def)

interpretation eq_lexicon: key_equal "(=)"
  by unfold_locales auto

end
