(* ===== verification/Id_Set_Lexicon.thy ===== *)
theory Id_Set_Lexicon
  imports Lexicon "HOL-Library.Multiset"
begin

text \<open>
  \<open>IdSetLexicon\<close>: a set id leads back to the sorted list of the ids that were added, equal sets have equal ids, and adding a
  set changes no set that is there.
\<close>

definition canonical_ids :: "int32 list \<Rightarrow> int32 list" where
  "canonical_ids ids = remdups_adj (sort_key sint ids)"

lemma set_canonical_ids [simp]: "set (canonical_ids ids) = set ids"
  by (simp add: canonical_ids_def)

lemma remdups_adj_strict: "sorted (xs :: 'a::linorder list) \<Longrightarrow> sorted_wrt (<) (remdups_adj xs)"
  by (induction xs rule: remdups_adj.induct) (auto simp: order.strict_iff_order)

lemma canonical_ids_map: "map sint (canonical_ids ids) = remdups_adj (sort (map sint ids))"
proof -
  have "inj (sint :: int32 \<Rightarrow> int)" by (simp add: inj_def signed_word_eqI)
  moreover have "sort (map sint ids) = map sint (sort_key sint ids)" by (rule properties_for_sort) simp_all
  ultimately show ?thesis by (simp add: canonical_ids_def remdups_adj_map_injective)
qed

lemma canonical_ids_strict: "sorted_wrt (<) (map sint (canonical_ids ids))"
  unfolding canonical_ids_map by (rule remdups_adj_strict) simp

lemma canonical_ids_distinct: "distinct (canonical_ids ids)"
  using canonical_ids_strict [of ids] by (simp add: strict_sorted_iff distinct_map)

lemma canonical_ids_eq_iff: "canonical_ids xs = canonical_ids ys \<longleftrightarrow> set xs = set ys"
proof
  assume "canonical_ids xs = canonical_ids ys"
  then show "set xs = set ys" by (metis set_canonical_ids)
next
  assume "set xs = set ys"
  then have "set (map sint (canonical_ids xs)) = set (map sint (canonical_ids ys))" by simp
  then have "map sint (canonical_ids xs) = map sint (canonical_ids ys)" by (intro strict_sorted_equal canonical_ids_strict) simp
  moreover have "inj (sint :: int32 \<Rightarrow> int)" by (simp add: inj_def signed_word_eqI)
  ultimately show "canonical_ids xs = canonical_ids ys" by (simp add: inj_map_eq_map)
qed

lemma canonical_ids_simps [simp]: "canonical_ids [] = []" "canonical_ids [i] = [i]"
  by (simp_all add: canonical_ids_def)

lemma canonical_ids_Nil_iff [simp]: "canonical_ids xs = [] \<longleftrightarrow> xs = []"
  by (metis set_canonical_ids set_empty)

lemma IL_Add_canonical:
  "IL_Add lx ids = (case canonical_ids ids of [] \<Rightarrow> Some (kEmptySetId, lx) | [i] \<Rightarrow> Some (i, lx)
     | c \<Rightarrow> do { (n, lx) \<leftarrow> SL_Add (=) lx c; Some (NOT n, lx) })"
proof -
  consider "ids = []" | i where "ids = [i]" | "length ids \<ge> 2" by (cases ids rule: remdups_adj.cases) auto
  then show ?thesis
  proof cases
    case 3
    then have n: "canonical_ids ids \<noteq> []" "ids \<noteq> []" "length ids \<noteq> 1" by auto
    show ?thesis using n unfolding IL_Add_def IL_AddInternal_def canonical_ids_def [symmetric]
      by (simp add: Let_def length_Suc_conv split: list.split)
  qed (simp_all add: IL_Add_def IL_AddInternal_def)
qed

definition sets_fit :: "int32 list list \<Rightarrow> bool" where
  "sets_fit es \<longleftrightarrow> length (concat es) < 2 ^ 32 \<and> Suc (length es) < 2 ^ 31"

definition IL_ok :: "int32 sequence_lexicon \<Rightarrow> bool" where
  "IL_ok lx \<longleftrightarrow> SL_ok (=) lx \<and> sets_fit (SL_entries lx) \<and> (\<forall>e\<in>set (SL_entries lx). 2 \<le> length e)"

lemma sint_small: "i < 2 ^ 31 \<Longrightarrow> sint (of_nat i :: int32) = int i"
  by (simp add: signed_of_nat signed_take_bit_int_eq_self)

lemma sint_NOT: "sint (NOT (w :: int32)) = - sint w - 1"
proof -
  have "sint (NOT w) = signed_take_bit 32 (NOT (sint w))" by (simp add: signed_not_eq)
  also have "\<dots> = NOT (sint w)"
    using sint_ge [of w] sint_lt [of w] by (intro signed_take_bit_int_eq_self) (simp_all add: not_int_def)
  finally show ?thesis by (simp add: not_int_def)
qed

lemma IL_id_set_entry:
  assumes "IL_ok lx" "i < length (SL_entries lx)"
  shows "IL_id_set lx (NOT (of_nat i)) = Some (SL_entries lx ! i)"
proof -
  have i: "Suc i < 2 ^ 31" using assms by (simp add: IL_ok_def sets_fit_def)
  then have s: "sint (NOT (of_nat i :: int32)) = - int i - 1" by (simp add: sint_NOT sint_small)
  have "sint kEmptySetId = - (2 ^ 31)" unfolding kEmptySetId_def by code_simp
  with s i have "NOT (of_nat i :: int32) \<noteq> kEmptySetId" by auto
  moreover have "SL_sequence lx (of_nat i) = Some (SL_entries lx ! i)"
    using assms by (intro SL_shows_sequence) (auto simp: IL_ok_def SL_ok_def)
  ultimately show ?thesis using s by (simp add: IL_id_set_def)
qed

lemma SL_sequence_valid:
  assumes "SL_shows lx es" "SL_sequence lx n = Some s"
  shows "unat n < length es \<and> s = es ! unat n"
proof -
  have b: "unat (n + 1) < Suc (length es)" "unat n < Suc (length es)" "Suc (length es) < 2 ^ 32"
    using assms by (auto simp: SL_sequence_def SL_shows_def seqs_fit_def split: if_splits)
  have "unat (n + 1) = Suc (unat n)" using b(2,3) by (simp add: unat_word_ariths)
  with b(1) have u: "unat n < length es" by simp
  with SL_shows_sequence [OF assms(1) this] assms(2) show ?thesis by simp
qed

lemma IL_id_set_cases:
  assumes "IL_ok lx" "IL_id_set lx m = Some c"
  obtains "0 \<le> sint m" "c = [m]" | "m = kEmptySetId" "c = []"
  | i where "i < length (SL_entries lx)" "m = NOT (of_nat i)" "c = SL_entries lx ! i"
proof (cases "0 \<le> sint m \<or> m = kEmptySetId")
  case True
  have "sint kEmptySetId = - (2 ^ 31)" unfolding kEmptySetId_def by code_simp
  with True assms(2) that(1,2) show ?thesis by (auto simp: IL_id_set_def split: if_splits)
next
  case False
  then have "SL_sequence lx (NOT m) = Some c" using assms(2) by (simp add: IL_id_set_def)
  from SL_sequence_valid [OF _ this, of "SL_entries lx"] assms(1) have "unat (NOT m) < length (SL_entries lx)" "c = SL_entries lx ! unat (NOT m)"
    by (auto simp: IL_ok_def SL_ok_def)
  then show ?thesis by (intro that(3) [of "unat (NOT m)"]) simp_all
qed

lemma IL_id_set_inject:
  assumes "IL_ok lx" "IL_id_set lx m = Some c" "IL_id_set lx m' = Some c"
  shows "m = m'"
proof -
  have two: "2 \<le> length (SL_entries lx ! i)" if "i < length (SL_entries lx)" for i using assms(1) that by (simp add: IL_ok_def)
  have diff: "i = j" if "i < length (SL_entries lx)" "j < length (SL_entries lx)" "SL_entries lx ! i = SL_entries lx ! j" for i j
    using assms(1) that by (simp add: IL_ok_def SL_ok_def list.rel_eq)
  have three: "length c = 1 \<and> m = c ! 0 \<or> length c = 0 \<and> m = kEmptySetId \<or> (\<exists>i<length (SL_entries lx). 2 \<le> length c \<and> m = NOT (of_nat i) \<and> c = SL_entries lx ! i)"
    if "IL_id_set lx m = Some c" for m
    by (rule IL_id_set_cases [OF assms(1) that]) (auto simp: two)
  from three [OF assms(2)] three [OF assms(3)] show ?thesis by (elim disjE exE conjE) (simp_all, use diff in blast)
qed

lemma SL_new_shows: "SL_shows SL_new []"
  by (simp add: SL_shows_def SL_new_def offsets_def seqs_fit_def)

lemma SL_new_entries [simp]: "SL_entries SL_new = []"
  by (rule SL_shows_entries [OF SL_new_shows])

lemma SL_new_ok: "SL_ok keq SL_new"
  using SL_new_shows by (simp add: SL_ok_def) (simp add: SL_new_def)

lemma VL_new_ok: "VL_ok keq VL_new"
  by (simp add: VL_ok_def VL_new_def)

lemma IL_new_ok: "IL_ok SL_new"
  by (simp add: IL_ok_def SL_new_ok sets_fit_def)

text \<open>One addition: the set can be read back and every set of before is still there.\<close>

lemma IL_Add_correct:
  assumes "IL_ok lx" "\<forall>i\<in>set ids. 0 \<le> sint i" "sets_fit (SL_entries lx @ [canonical_ids ids])"
  shows "\<exists>n lx'. IL_Add lx ids = Some (n, lx') \<and> IL_ok lx' \<and> IL_id_set lx' n = Some (canonical_ids ids) \<and>
    (SL_entries lx' = SL_entries lx \<or> SL_entries lx' = SL_entries lx @ [canonical_ids ids]) \<and>
    (\<forall>m c. IL_id_set lx m = Some c \<longrightarrow> IL_id_set lx' m = Some c)"
proof -
  let ?c = "canonical_ids ids"
  consider "?c = []" | i where "?c = [i]" | "2 \<le> length ?c" by (cases ?c rule: remdups_adj.cases) auto
  then show ?thesis
  proof cases
    case 1
    then show ?thesis using assms(1) by (auto simp: IL_Add_canonical IL_id_set_def kEmptySetId_def)
  next
    case (2 i)
    then have "0 \<le> sint i" using assms(2) set_canonical_ids [of ids] by auto
    with 2 show ?thesis using assms(1) by (auto simp: IL_Add_canonical IL_id_set_def)
  next
    case 3
    have fit: "seqs_fit (SL_entries lx @ [?c])" using assms(3) by (simp add: sets_fit_def seqs_fit_def)
    have ok: "SL_ok (=) lx" "sets_fit (SL_entries lx)" "\<forall>e\<in>set (SL_entries lx). 2 \<le> length e" using assms(1) by (simp_all add: IL_ok_def)
    have add: "IL_Add lx ids = map_option (\<lambda>(n, lx). (NOT n, lx)) (SL_Add (=) lx ?c)"
      using 3 by (cases ?c rule: remdups_adj.cases) (auto simp: IL_Add_canonical split: option.split bind_split)
    have "\<exists>j lx'. SL_Add (=) lx ?c = Some (of_nat j, lx') \<and> IL_ok lx' \<and> j < length (SL_entries lx') \<and> SL_entries lx' ! j = ?c \<and>
        (SL_entries lx' = SL_entries lx \<or> SL_entries lx' = SL_entries lx @ [?c])"
    proof (cases "\<exists>j<length (SL_entries lx). SL_entries lx ! j = ?c")
      case True
      then obtain j where j: "j < length (SL_entries lx)" "SL_entries lx ! j = ?c" by blast
      from eq_lexicon.SL_Add_old [OF ok(1) fit j(1)] j assms(1) show ?thesis by (auto simp: list.rel_eq)
    next
      case False
      then obtain s' where s': "SL_Add (=) lx ?c = Some (of_nat (length (SL_entries lx)), s')" "SL_ok (=) s'" "SL_entries s' = SL_entries lx @ [?c]"
        using eq_lexicon.SL_Add_new [OF ok(1) fit] by (auto simp: list.rel_eq)
      then have "IL_ok s'" using ok(3) assms(3) 3 by (simp add: IL_ok_def)
      with s' show ?thesis by (intro exI [of _ "length (SL_entries lx)"] exI [of _ s']) simp
    qed
    then obtain j lx' where lx': "SL_Add (=) lx ?c = Some (of_nat j, lx')" "IL_ok lx'" "j < length (SL_entries lx')" "SL_entries lx' ! j = ?c"
      "SL_entries lx' = SL_entries lx \<or> SL_entries lx' = SL_entries lx @ [?c]" by blast
    have "IL_id_set lx' m = Some c" if m: "IL_id_set lx m = Some c" for m c
      using assms(1) m
    proof (cases rule: IL_id_set_cases)
      case (3 i)
      then have "i < length (SL_entries lx')" "SL_entries lx' ! i = c" using lx'(5) by (auto simp: nth_append)
      with IL_id_set_entry [OF lx'(2)] 3 show ?thesis by simp
    qed (auto simp: IL_id_set_def kEmptySetId_def)
    moreover have "IL_id_set lx' (NOT (of_nat j)) = Some ?c" using IL_id_set_entry [OF lx'(2,3)] lx'(4) by simp
    ultimately show ?thesis using add lx'(1,2,5) by (intro exI [of _ "NOT (of_nat j)"] exI [of _ lx']) simp
  qed
qed

text \<open>A list of additions.\<close>

lemma IL_add_all:
  assumes "IL_ok lx" "\<forall>ids\<in>set idss. \<forall>i\<in>set ids. 0 \<le> sint i" "sets_fit (SL_entries lx @ map canonical_ids idss)"
  shows "\<exists>ns lx'. add_all IL_Add lx idss = Some (ns, lx') \<and> IL_ok lx' \<and> length ns = length idss \<and>
    (\<forall>k<length idss. IL_id_set lx' (ns ! k) = Some (canonical_ids (idss ! k))) \<and>
    (\<forall>m c. IL_id_set lx m = Some c \<longrightarrow> IL_id_set lx' m = Some c)"
  using assms
proof (induction idss arbitrary: lx)
  case (Cons ids idss)
  have "\<forall>i\<in>set ids. 0 \<le> sint i" "sets_fit (SL_entries lx @ [canonical_ids ids])" using Cons.prems(2,3) by (auto simp: sets_fit_def)
  from IL_Add_correct [OF Cons.prems(1) this] obtain n lx1 where lx1: "IL_Add lx ids = Some (n, lx1)" "IL_ok lx1"
    "IL_id_set lx1 n = Some (canonical_ids ids)" "SL_entries lx1 = SL_entries lx \<or> SL_entries lx1 = SL_entries lx @ [canonical_ids ids]"
    "\<And>m c. IL_id_set lx m = Some c \<Longrightarrow> IL_id_set lx1 m = Some c" by blast
  have "sets_fit (SL_entries lx1 @ map canonical_ids idss)" using lx1(4) Cons.prems(3) by (auto simp: sets_fit_def)
  moreover have "\<forall>ids\<in>set idss. \<forall>i\<in>set ids. 0 \<le> sint i" using Cons.prems(2) by simp
  ultimately obtain ns lx' where lx': "add_all IL_Add lx1 idss = Some (ns, lx')" "IL_ok lx'" "length ns = length idss"
    "\<forall>k<length idss. IL_id_set lx' (ns ! k) = Some (canonical_ids (idss ! k))"
    "\<And>m c. IL_id_set lx1 m = Some c \<Longrightarrow> IL_id_set lx' m = Some c" using Cons.IH [OF lx1(2)] by blast
  have "IL_id_set lx' ((n # ns) ! k) = Some (canonical_ids ((ids # idss) ! k))" if "k < length (ids # idss)" for k
    using lx'(4,5) lx1(3) that by (cases k) simp_all
  with lx1 lx' show ?case by (intro exI [of _ "n # ns"] exI [of _ lx']) simp
qed simp

end
