(* ===== verification/Lexicon_Properties.thy ===== *)
theory Lexicon_Properties
  imports Id_Set_Lexicon
begin

text \<open>
  The properties of the lexicons: numbers identify values and lead back to them.
\<close>

context key_equal
begin

lemma VL_run:
  assumes "length vs < 2 ^ 32"
  shows "\<exists>ns lx. add_all (VL_Add keq) VL_new vs = Some (ns, lx) \<and> length ns = length vs \<and>
      VL_size lx = of_nat (length (fresh_entries keq [] vs)) \<and>
      (\<forall>k<length vs. \<exists>w. VL_value lx (ns ! k) = Some w \<and> keq w (vs ! k)) \<and>
      (\<forall>k<length vs. \<forall>l<length vs. (ns ! k = ns ! l) = keq (vs ! k) (vs ! l))"
  using vals.add_all_get [OF VL_new_ok, of vs] assms by (simp add: VL_new_def)

lemma SL_run:
  assumes "seqs_fit vs"
  shows "\<exists>ns lx. add_all (SL_Add keq) SL_new vs = Some (ns, lx) \<and> length ns = length vs \<and>
      SL_size lx = of_nat (length (fresh_entries (list_all2 keq) [] vs)) \<and>
      (\<forall>k<length vs. \<exists>w. SL_sequence lx (ns ! k) = Some w \<and> list_all2 keq w (vs ! k)) \<and>
      (\<forall>k<length vs. \<forall>l<length vs. (ns ! k = ns ! l) = list_all2 keq (vs ! k) (vs ! l))"
  using seqs.add_all_get [OF SL_new_ok, of vs] assms by simp

end

text \<open>C34: a \<open>ValueLexicon\<close> and a \<open>SequenceLexicon\<close> to which any values, or sequences, are added in turn: two of them have the same
  number exactly when they are equal under the equality that the lexicon was given, looking a number up gives an equal value, and the
  size is the number of different values.\<close>

theorem lexicons_number_values:
  assumes "equivp keq" "length vs < 2 ^ 32" "length (concat ss) < 2 ^ 32" "Suc (length ss) < 2 ^ 32"
  shows "(\<exists>ns lx. add_all (VL_Add keq) VL_new vs = Some (ns, lx) \<and> length ns = length vs \<and>
      VL_size lx = of_nat (length (fresh_entries keq [] vs)) \<and>
      (\<forall>k<length vs. \<exists>w. VL_value lx (ns ! k) = Some w \<and> keq w (vs ! k)) \<and>
      (\<forall>k<length vs. \<forall>l<length vs. (ns ! k = ns ! l) = keq (vs ! k) (vs ! l))) \<and>
    (\<exists>ns lx. add_all (SL_Add keq) SL_new ss = Some (ns, lx) \<and> length ns = length ss \<and>
      SL_size lx = of_nat (length (fresh_entries (list_all2 keq) [] ss)) \<and>
      (\<forall>k<length ss. \<exists>w. SL_sequence lx (ns ! k) = Some w \<and> list_all2 keq w (ss ! k)) \<and>
      (\<forall>k<length ss. \<forall>l<length ss. (ns ! k = ns ! l) = list_all2 keq (ss ! k) (ss ! l)))"
proof -
  have "key_equal keq" using assms(1) unfolding key_equal_def by (meson equivp_reflp equivp_symp equivp_transp)
  from key_equal.VL_run [OF this assms(2)] key_equal.SL_run [OF this, of ss] assms(3,4) show ?thesis
    by (simp add: seqs_fit_def)
qed

theorem lexicons_number_values_witness:
  "\<exists>ns lx. add_all (VL_Add (=)) VL_new [''cat'', ''dog'', ''cat''] = Some (ns, lx) \<and> ns ! 0 = ns ! 2 \<and> ns ! 0 \<noteq> ns ! 1 \<and>
     VL_size lx = 2 \<and> VL_value lx (ns ! 1) = Some ''dog''"
proof -
  define vs where "vs = [''cat'', ''dog'', ''cat'']"
  have "equivp ((=) :: string \<Rightarrow> string \<Rightarrow> bool)" by (rule identity_equivp)
  from conjunct1 [OF lexicons_number_values [OF this, of vs "[]"]] have "\<exists>ns lx. add_all (VL_Add (=)) VL_new vs = Some (ns, lx) \<and> length ns = length vs \<and>
      VL_size lx = of_nat (length (fresh_entries (=) [] vs)) \<and> (\<forall>k<length vs. \<exists>w. VL_value lx (ns ! k) = Some w \<and> w = vs ! k) \<and>
      (\<forall>k<length vs. \<forall>l<length vs. (ns ! k = ns ! l) = (vs ! k = vs ! l))" by (simp add: vs_def)
  then obtain ns lx where r:
    "add_all (VL_Add (=)) VL_new vs = Some (ns, lx)" "VL_size lx = of_nat (length (fresh_entries (=) [] vs))"
    "\<forall>k<length vs. \<exists>w. VL_value lx (ns ! k) = Some w \<and> w = vs ! k"
    "\<forall>k<length vs. \<forall>l<length vs. (ns ! k = ns ! l) = (vs ! k = vs ! l)"
    by blast
  have v: "length vs = 3" "vs ! 0 = ''cat''" "vs ! 1 = ''dog''" "vs ! 2 = ''cat''" "length (fresh_entries (=) [] vs) = 2" by (simp_all add: vs_def)
  have "VL_value lx (ns ! 1) = Some ''dog''" using r(3) v by simp
  moreover have "ns ! 0 = ns ! 2" "ns ! 0 \<noteq> ns ! 1" using r(4) v by simp_all
  ultimately show ?thesis using r(1,2) v(5) unfolding vs_def by (intro exI [of _ ns] exI [of _ lx]) simp
qed

text \<open>C35: an \<open>IdSetLexicon\<close> to which any sets of non-negative ids are added in turn: the number of a set leads back to its ids, in
  increasing order and without repetition, and two sets have the same number exactly when they have the same elements.\<close>

theorem id_set_lexicon_correct:
  assumes "\<forall>ids\<in>set idss. \<forall>i\<in>set ids. 0 \<le> sint i" "length (concat (map canonical_ids idss)) < 2 ^ 32" "Suc (length idss) < 2 ^ 31"
  shows "\<exists>ns lx. add_all IL_Add SL_new idss = Some (ns, lx) \<and> length ns = length idss \<and>
    (\<forall>k<length idss. \<exists>c. IL_id_set lx (ns ! k) = Some c \<and> set c = set (idss ! k) \<and> sorted_wrt (<) (map sint c)) \<and>
    (\<forall>k<length idss. \<forall>l<length idss. (ns ! k = ns ! l) = (set (idss ! k) = set (idss ! l)))"
proof -
  have "sets_fit (SL_entries SL_new @ map canonical_ids idss)" using assms(2,3) by (simp add: sets_fit_def)
  from IL_add_all [OF IL_new_ok assms(1) this] obtain ns lx where r: "add_all IL_Add SL_new idss = Some (ns, lx)" "IL_ok lx" "length ns = length idss"
    "\<And>k. k < length idss \<Longrightarrow> IL_id_set lx (ns ! k) = Some (canonical_ids (idss ! k))" by blast
  have eq: "(ns ! k = ns ! l) = (set (idss ! k) = set (idss ! l))" if "k < length idss" "l < length idss" for k l
  proof
    assume "ns ! k = ns ! l"
    with r(4) [OF that(1)] r(4) [OF that(2)] have "canonical_ids (idss ! k) = canonical_ids (idss ! l)" by simp
    then show "set (idss ! k) = set (idss ! l)" by (simp only: canonical_ids_eq_iff)
  next
    assume "set (idss ! k) = set (idss ! l)"
    then have "canonical_ids (idss ! k) = canonical_ids (idss ! l)" by (simp only: canonical_ids_eq_iff)
    with r(4) [OF that(1)] r(4) [OF that(2)] show "ns ! k = ns ! l" by (intro IL_id_set_inject [OF r(2)]) simp_all
  qed
  show ?thesis
  proof (rule exI [of _ ns], rule exI [of _ lx], intro conjI allI impI)
    fix k assume k: "k < length idss"
    show "\<exists>c. IL_id_set lx (ns ! k) = Some c \<and> set c = set (idss ! k) \<and> sorted_wrt (<) (map sint c)"
      by (intro exI [of _ "canonical_ids (idss ! k)"] conjI r(4) k set_canonical_ids canonical_ids_strict)
  next
    show "add_all IL_Add SL_new idss = Some (ns, lx)" "length ns = length idss" by (fact r)+
    fix k l assume "k < length idss" "l < length idss"
    then show "(ns ! k = ns ! l) = (set (idss ! k) = set (idss ! l))" by (rule eq)
  qed
qed

theorem id_set_lexicon_witness:
  "\<exists>ns lx. add_all IL_Add SL_new [[5, 3], [], [7], [3, 5, 3]] = Some (ns, lx) \<and> ns ! 0 = ns ! 3 \<and> ns ! 0 \<noteq> ns ! 2"
proof -
  have "\<forall>ids\<in>set [[5, 3], [], [7], [3, 5, 3]]. \<forall>i\<in>set ids. 0 \<le> sint (i :: int32)" by simp
  moreover have "length (concat (map canonical_ids [[5, 3], [], [7], [3, 5, 3]])) < 2 ^ 32" by (simp add: canonical_ids_def)
  ultimately obtain ns lx where r: "add_all IL_Add SL_new [[5, 3], [], [7], [3, 5, 3]] = Some (ns, lx)"
    "\<forall>k<4. \<forall>l<4. (ns ! k = ns ! l) = (set ([[5, 3], [], [7], [3, 5, 3]] ! k) = set ([[5, 3], [], [7], [3, 5, 3 :: int32]] ! l))"
    using id_set_lexicon_correct [of "[[5, 3], [], [7], [3, 5, 3]]"] by auto
  have "ns ! 0 = ns ! 3" using r(2) [rule_format, of 0 3] by auto
  moreover have "ns ! 0 \<noteq> ns ! 2" using r(2) [rule_format, of 0 2] by auto
  ultimately show ?thesis using r(1) by blast
qed

end
