(* ===== verification/Builder_Graph.thy ===== *)
theory Builder_Graph
  imports Edge_Crossings Id_Set_Lexicon "HOL-Library.Product_Lexorder"
begin

text \<open>
  \<^verbatim>\<open>S2Builder::Graph\<close> (\<^verbatim>\<open>s2/s2builder_graph.h\<close> and \<^verbatim>\<open>.cc\<close>): the directed multigraph of snapped edges that the layers of
  \<^verbatim>\<open>S2Builder\<close> assemble into loops.  Vertex and edge ids are \<open>int32\<close> in the code and naturals here; an edge is a pair of vertices,
  and pairs are compared lexicographically.  A vector that is used as a stack is a list with its back at the head.
\<close>

section \<open>Options and graphs\<close>

datatype EdgeType = DIRECTED | UNDIRECTED
datatype DegenerateEdges = DegenerateEdges_DISCARD | DegenerateEdges_DISCARD_EXCESS | DegenerateEdges_KEEP
datatype DuplicateEdges = DuplicateEdges_MERGE | DuplicateEdges_KEEP
datatype SiblingPairs = SiblingPairs_DISCARD | SiblingPairs_DISCARD_EXCESS | SiblingPairs_KEEP | SiblingPairs_REQUIRE | SiblingPairs_CREATE

record graph_options =
  edge_type :: EdgeType
  degenerate_edges :: DegenerateEdges
  duplicate_edges :: DuplicateEdges
  sibling_pairs :: SiblingPairs
  allow_vertex_filtering :: bool

definition GraphOptions_new :: "EdgeType \<Rightarrow> DegenerateEdges \<Rightarrow> DuplicateEdges \<Rightarrow> SiblingPairs \<Rightarrow> graph_options" where
  "GraphOptions_new et de du si =
     \<lparr>edge_type = et, degenerate_edges = de, duplicate_edges = du, sibling_pairs = si, allow_vertex_filtering = True\<rparr>"

definition GraphOptions_default :: graph_options where
  "GraphOptions_default = GraphOptions_new DIRECTED DegenerateEdges_KEEP DuplicateEdges_KEEP SiblingPairs_KEEP"

datatype graph_error = BUILDER_EDGES_DO_NOT_FORM_LOOPS | BUILDER_MISSING_EXPECTED_SIBLING_EDGES

type_synonym VertexId = nat
type_synonym EdgeId = nat
type_synonym Edge = "nat \<times> nat"

record graph =
  graph_options :: graph_options
  graph_vertices :: "vec list"
  graph_edges :: "Edge list"
  input_edge_id_set_ids :: "int32 list"
  input_edge_id_set_lexicon :: "int32 sequence_lexicon"
  label_set_ids :: "int32 list"
  label_set_lexicon :: "int32 sequence_lexicon"

definition num_vertices :: "graph \<Rightarrow> nat" where "num_vertices g = length (graph_vertices g)"
definition num_edges :: "graph \<Rightarrow> nat" where "num_edges g = length (graph_edges g)"
definition vertex :: "graph \<Rightarrow> VertexId \<Rightarrow> vec" where "vertex g v = graph_vertices g ! v"
definition edge :: "graph \<Rightarrow> EdgeId \<Rightarrow> Edge" where "edge g e = graph_edges g ! e"
definition reverse :: "Edge \<Rightarrow> Edge" where "reverse e = (snd e, fst e)"

section \<open>Incoming, outgoing and sibling edges\<close>

text \<open>\<open>StableLessThan\<close> compares edges and breaks ties by their ids.\<close>

definition StableLessThan :: "Edge \<Rightarrow> Edge \<Rightarrow> EdgeId \<Rightarrow> EdgeId \<Rightarrow> bool" where
  "StableLessThan a b ai bi =
     (if fst a < fst b then True else if fst b < fst a then False
      else if snd a < snd b then True else if snd b < snd a then False
      else ai < bi)"

text \<open>\<^verbatim>\<open>std::sort\<close> with a strict total order.\<close>

fun insert_by :: "('a \<Rightarrow> 'a \<Rightarrow> bool) \<Rightarrow> 'a \<Rightarrow> 'a list \<Rightarrow> 'a list" where
  "insert_by lt x [] = [x]"
| "insert_by lt x (y # ys) = (if lt x y then x # y # ys else y # insert_by lt x ys)"

definition sort_by :: "('a \<Rightarrow> 'a \<Rightarrow> bool) \<Rightarrow> 'a list \<Rightarrow> 'a list" where
  "sort_by lt xs = foldr (insert_by lt) xs []"

definition GetInEdgeIds :: "graph \<Rightarrow> EdgeId list" where
  "GetInEdgeIds g = sort_by (\<lambda>ai bi. StableLessThan (reverse (edge g ai)) (reverse (edge g bi)) ai bi) [0..<num_edges g]"

function pair_degenerate :: "graph \<Rightarrow> EdgeId \<Rightarrow> EdgeId list \<Rightarrow> EdgeId list" where
  "pair_degenerate g e ids =
     (if e < num_edges g then
        if snd (edge g e) = fst (edge g e) then pair_degenerate g (e + 2) (ids[e := e + 1, e + 1 := e])
        else pair_degenerate g (e + 1) ids
      else ids)"
  by pat_completeness auto
termination by (relation "measure (\<lambda>(g, e, ids). num_edges g - e)") auto

declare pair_degenerate.simps [simp del]

definition MakeSiblingMap :: "graph \<Rightarrow> EdgeId list \<Rightarrow> EdgeId list" where
  "MakeSiblingMap g ids =
     (if edge_type (graph_options g) = DIRECTED then ids
      else if degenerate_edges (graph_options g) = DegenerateEdges_DISCARD then ids
      else pair_degenerate g 0 ids)"

definition GetSiblingMap :: "graph \<Rightarrow> EdgeId list" where
  "GetSiblingMap g = MakeSiblingMap g (GetInEdgeIds g)"

text \<open>The loop \<^verbatim>\<open>while (i < n && p(i)) ++i\<close>.\<close>

function skip_while :: "(nat \<Rightarrow> bool) \<Rightarrow> nat \<Rightarrow> nat \<Rightarrow> nat" where
  "skip_while p n i = (if i < n \<and> p i then skip_while p n (i + 1) else i)"
  by pat_completeness auto
termination by (relation "measure (\<lambda>(p, n, i). n - i)") auto

declare skip_while.simps [simp del]

fun edge_begins :: "(nat \<Rightarrow> nat) \<Rightarrow> nat \<Rightarrow> nat \<Rightarrow> VertexId list \<Rightarrow> EdgeId list" where
  "edge_begins key n e [] = []"
| "edge_begins key n e (v # vs) = (let e = skip_while (\<lambda>e. key e < v) n e in e # edge_begins key n e vs)"

definition VertexOutMap_Init :: "graph \<Rightarrow> EdgeId list" where
  "VertexOutMap_Init g = edge_begins (\<lambda>e. fst (edge g e)) (num_edges g) 0 [0..<num_vertices g + 1]"

definition out_edge_ids :: "EdgeId list \<Rightarrow> VertexId \<Rightarrow> EdgeId list" where
  "out_edge_ids begins v = [begins ! v..<begins ! (v + 1)]"

definition out_degree :: "EdgeId list \<Rightarrow> VertexId \<Rightarrow> nat" where
  "out_degree begins v = length (out_edge_ids begins v)"

record vertex_in_map =
  in_edge_ids :: "EdgeId list"
  in_edge_begins :: "EdgeId list"

definition VertexInMap_Init :: "graph \<Rightarrow> vertex_in_map" where
  "VertexInMap_Init g =
     (let ids = GetInEdgeIds g
      in \<lparr>in_edge_ids = ids, in_edge_begins = edge_begins (\<lambda>e. snd (edge g (ids ! e))) (num_edges g) 0 [0..<num_vertices g + 1]\<rparr>)"

definition in_vertex_edge_ids :: "vertex_in_map \<Rightarrow> VertexId \<Rightarrow> EdgeId list" where
  "in_vertex_edge_ids im v =
     take (in_edge_begins im ! (v + 1) - in_edge_begins im ! v) (drop (in_edge_begins im ! v) (in_edge_ids im))"

definition in_degree :: "vertex_in_map \<Rightarrow> VertexId \<Rightarrow> nat" where
  "in_degree im v = length (in_vertex_edge_ids im v)"

section \<open>Input edges and labels\<close>

definition kNoInputEdgeId :: int32 where "kNoInputEdgeId = of_int (2 ^ 31 - 2)"

definition input_edge_ids :: "graph \<Rightarrow> EdgeId \<Rightarrow> int32 list option" where
  "input_edge_ids g e = IL_id_set (input_edge_id_set_lexicon g) (input_edge_id_set_ids g ! e)"

definition min_input_edge_id :: "graph \<Rightarrow> EdgeId \<Rightarrow> int32 option" where
  "min_input_edge_id g e = do {
     id_set \<leftarrow> input_edge_ids g e;
     Some (if id_set = [] then kNoInputEdgeId else hd id_set) }"

definition GetMinInputEdgeIds :: "graph \<Rightarrow> int32 list option" where
  "GetMinInputEdgeIds g = those (map (min_input_edge_id g) [0..<num_edges g])"

definition GetInputEdgeOrder :: "int32 list \<Rightarrow> EdgeId list" where
  "GetInputEdgeOrder input_ids =
     sort_by (\<lambda>a b. sint (input_ids ! a) < sint (input_ids ! b) \<or> input_ids ! a = input_ids ! b \<and> a < b) [0..<length input_ids]"

definition label_set_id :: "graph \<Rightarrow> int32 \<Rightarrow> int32" where
  "label_set_id g e = (if label_set_ids g = [] then IL_EmptySetId else label_set_ids g ! unat e)"

definition labels :: "graph \<Rightarrow> int32 \<Rightarrow> int32 list option" where
  "labels g e = IL_id_set (label_set_lexicon g) (label_set_id g e)"

definition edge_labels :: "graph \<Rightarrow> EdgeId \<Rightarrow> int32 list option" where
  "edge_labels g e = do {
     ids \<leftarrow> input_edge_ids g e;
     lss \<leftarrow> those (map (labels g) ids);
     Some (concat lss) }"

definition LabelFetcher_Fetch :: "graph \<Rightarrow> EdgeType \<Rightarrow> EdgeId list \<Rightarrow> EdgeId \<Rightarrow> int32 list option" where
  "LabelFetcher_Fetch g et sibling_map e = do {
     ls \<leftarrow> edge_labels g e;
     ls \<leftarrow> (if et = UNDIRECTED then do { ls2 \<leftarrow> edge_labels g (sibling_map ! e); Some (ls @ ls2) } else Some ls);
     Some (if length ls > 1 then remdups_adj (sort_key sint ls) else ls) }"

section \<open>Left turns\<close>

record vertex_edge =
  incoming :: bool
  ve_index :: nat
  ve_endpoint :: VertexId
  ve_rank :: nat

function AddVertexEdges :: "nat \<Rightarrow> nat \<Rightarrow> nat \<Rightarrow> nat \<Rightarrow> VertexId \<Rightarrow> nat \<Rightarrow> vertex_edge list \<Rightarrow> vertex_edge list" where
  "AddVertexEdges out_begin out_end in_begin in_end v1 rk v0_edges =
     (if in_end - in_begin > out_end - out_begin then
        AddVertexEdges out_begin out_end in_begin (in_end - 1) v1 (rk + 1)
          (v0_edges @ [\<lparr>incoming = True, ve_index = in_end - 1, ve_endpoint = v1, ve_rank = rk\<rparr>])
      else if in_end > in_begin then
        AddVertexEdges (out_begin + 1) out_end in_begin (in_end - 1) v1 (rk + 2)
          (v0_edges @ [\<lparr>incoming = False, ve_index = out_begin, ve_endpoint = v1, ve_rank = rk\<rparr>,
                       \<lparr>incoming = True, ve_index = in_end - 1, ve_endpoint = v1, ve_rank = rk + 1\<rparr>])
      else if out_end > out_begin then
        AddVertexEdges (out_begin + 1) out_end in_begin in_end v1 (rk + 1)
          (v0_edges @ [\<lparr>incoming = False, ve_index = out_begin, ve_endpoint = v1, ve_rank = rk\<rparr>])
      else v0_edges)"
  by pat_completeness auto
termination by (relation "measure (\<lambda>(ob, oe, ib, ie, v1, rk, ve). (oe - ob) + (ie - ib))") auto

declare AddVertexEdges.simps [simp del]

text \<open>Each walk over the outgoing and the incoming edges stops at a sentinel behind the last one.\<close>

definition sentinel :: "graph \<Rightarrow> Edge" where "sentinel g = (num_vertices g, num_vertices g)"

definition out_edge_at :: "graph \<Rightarrow> nat \<Rightarrow> Edge" where
  "out_edge_at g i = (if i = num_edges g then sentinel g else edge g i)"

definition in_edge_at :: "graph \<Rightarrow> EdgeId list \<Rightarrow> nat \<Rightarrow> Edge" where
  "in_edge_at g ids i = (if i = num_edges g then sentinel g else edge g (ids ! i))"

definition min_edge_at :: "graph \<Rightarrow> EdgeId list \<Rightarrow> nat \<Rightarrow> nat \<Rightarrow> Edge" where
  "min_edge_at g ids i j = min (out_edge_at g i) (reverse (in_edge_at g ids j))"

lemma skip_while_bounds: "i \<le> skip_while p n i" "i \<le> n \<Longrightarrow> skip_while p n i \<le> n"
  by (induction p n i rule: skip_while.induct; subst skip_while.simps; force)+

lemma skip_while_step: "i < n \<Longrightarrow> p i \<Longrightarrow> i < skip_while p n i"
  using skip_while_bounds(1) [of "i + 1" p n] by (subst skip_while.simps) simp

text \<open>The ends of the runs of copies of an edge.\<close>

definition out_run :: "graph \<Rightarrow> Edge \<Rightarrow> nat \<Rightarrow> nat" where
  "out_run g m i = skip_while (\<lambda>i. out_edge_at g i = m) (num_edges g) i"

definition in_run :: "graph \<Rightarrow> EdgeId list \<Rightarrow> Edge \<Rightarrow> nat \<Rightarrow> nat" where
  "in_run g ids m j = skip_while (\<lambda>j. reverse (in_edge_at g ids j) = m) (num_edges g) j"

lemma run_bounds:
  "i \<le> out_run g m i" "i \<le> num_edges g \<Longrightarrow> out_run g m i \<le> num_edges g"
  "j \<le> in_run g ids m j" "j \<le> num_edges g \<Longrightarrow> in_run g ids m j \<le> num_edges g"
  unfolding out_run_def in_run_def by (rule skip_while_bounds; assumption)+

lemma min_edge_progress:
  assumes "i \<le> num_edges g" "j \<le> num_edges g" "min_edge_at g ids i j \<noteq> sentinel g"
  shows "num_edges g - out_run g (min_edge_at g ids i j) i + (num_edges g - in_run g ids (min_edge_at g ids i j) j) < num_edges g - i + (num_edges g - j)"
proof -
  let ?m = "min_edge_at g ids i j"
  have "out_edge_at g i = ?m \<or> reverse (in_edge_at g ids j) = ?m" unfolding min_edge_at_def min_def by simp
  moreover have "i < num_edges g" if "out_edge_at g i = ?m"
  proof (rule ccontr)
    assume "\<not> i < num_edges g"
    with assms(1) have "out_edge_at g i = sentinel g" by (simp add: out_edge_at_def)
    with that assms(3) show False by simp
  qed
  moreover have "j < num_edges g" if "reverse (in_edge_at g ids j) = ?m"
  proof (rule ccontr)
    assume "\<not> j < num_edges g"
    with assms(2) have "reverse (in_edge_at g ids j) = sentinel g" by (simp add: in_edge_at_def reverse_def sentinel_def)
    with that assms(3) show False by simp
  qed
  ultimately have "out_edge_at g i = ?m \<and> i < num_edges g \<or> reverse (in_edge_at g ids j) = ?m \<and> j < num_edges g" by blast
  then have "i < out_run g ?m i \<and> i < num_edges g \<or> j < in_run g ids ?m j \<and> j < num_edges g"
    unfolding out_run_def in_run_def
    using skip_while_step [of i "num_edges g" "\<lambda>i. out_edge_at g i = ?m"] skip_while_step [of j "num_edges g" "\<lambda>j. reverse (in_edge_at g ids j) = ?m"]
    by (elim disjE) simp_all
  then show ?thesis using run_bounds(1) [of i g ?m] run_bounds(3) [of j g ids ?m] run_bounds(2) [OF assms(1), of ?m] run_bounds(4) [OF assms(2), of ids ?m] by linarith
qed

text \<open>
  The edges around one vertex \<open>v0\<close>: the result is the new positions, the incident edges, and the map, in which a degenerate
  edge is its own left turn.
\<close>

function gather_edges :: "graph \<Rightarrow> EdgeId list \<Rightarrow> VertexId \<Rightarrow> nat \<Rightarrow> nat \<Rightarrow> vertex_edge list \<Rightarrow> EdgeId option list \<Rightarrow>
    nat \<times> nat \<times> vertex_edge list \<times> EdgeId option list" where
  "gather_edges g ids v0 i j v0_edges ltm =
     (let min_edge = min_edge_at g ids i j
      in if fst min_edge = v0 \<and> min_edge \<noteq> sentinel g \<and> i \<le> num_edges g \<and> j \<le> num_edges g then
           let v1 = snd min_edge;
               i' = out_run g min_edge i;
               j' = in_run g ids min_edge j
           in if v0 \<noteq> v1 then gather_edges g ids v0 i' j' (AddVertexEdges i i' j j' v1 0 v0_edges) ltm
              else gather_edges g ids v0 i' j' v0_edges (foldl (\<lambda>ltm k. ltm[k := Some k]) ltm [j..<j'])
         else (i, j, v0_edges, ltm))"
  by pat_completeness auto
termination
  by (relation "measure (\<lambda>(g, ids, v0, i, j, ve, ltm). (num_edges g - i) + (num_edges g - j))") (use min_edge_progress in \<open>simp_all add: algebra_simps\<close>)

declare gather_edges.simps [simp del]

lemma gather_stop:
  assumes "\<not> (fst (min_edge_at g ids i j) = v0 \<and> min_edge_at g ids i j \<noteq> sentinel g \<and> i \<le> num_edges g \<and> j \<le> num_edges g)"
  shows "gather_edges g ids v0 i j ve ltm = (i, j, ve, ltm)"
  by (subst gather_edges.simps) (simp only: Let_def if_not_P [OF assms])

lemma gather_step:
  assumes "fst (min_edge_at g ids i j) = v0 \<and> min_edge_at g ids i j \<noteq> sentinel g \<and> i \<le> num_edges g \<and> j \<le> num_edges g"
  shows "gather_edges g ids v0 i j ve ltm =
    (let m = min_edge_at g ids i j
     in if v0 \<noteq> snd m then gather_edges g ids v0 (out_run g m i) (in_run g ids m j) (AddVertexEdges i (out_run g m i) j (in_run g ids m j) (snd m) 0 ve) ltm
        else gather_edges g ids v0 (out_run g m i) (in_run g ids m j) ve (foldl (\<lambda>ltm k. ltm[k := Some k]) ltm [j..<in_run g ids m j]))"
  by (subst gather_edges.simps) (simp only: Let_def if_P [OF assms])

lemma gather_edges_bounds:
  assumes "i \<le> num_edges g" "j \<le> num_edges g" "gather_edges g ids v0 i j ve ltm = (i', j', ve', ltm')"
  shows "i \<le> i' \<and> j \<le> j' \<and> i' \<le> num_edges g \<and> j' \<le> num_edges g"
  using assms
proof (induction g ids v0 i j ve ltm rule: gather_edges.induct)
  case (1 g ids v0 i j ve ltm)
  let ?m = "min_edge_at g ids i j"
  have b: "i \<le> out_run g ?m i" "j \<le> in_run g ids ?m j" "out_run g ?m i \<le> num_edges g" "in_run g ids ?m j \<le> num_edges g"
    using run_bounds 1(3,4) by blast+
  show ?case
  proof (cases "fst ?m = v0 \<and> ?m \<noteq> sentinel g \<and> i \<le> num_edges g \<and> j \<le> num_edges g")
    case True
    have "out_run g ?m i \<le> i' \<and> in_run g ids ?m j \<le> j' \<and> i' \<le> num_edges g \<and> j' \<le> num_edges g"
    proof (cases "v0 \<noteq> snd ?m")
      case d: True
      then show ?thesis using 1(5) gather_step [OF True, of ve ltm] by (intro 1(1) [OF refl True refl refl refl d b(3,4)]) (simp add: Let_def)
    next
      case d: False
      then show ?thesis using 1(5) gather_step [OF True, of ve ltm] by (intro 1(2) [OF refl True refl refl refl d b(3,4)]) (simp add: Let_def)
    qed
    with b show ?thesis by linarith
  next
    case False
    then show ?thesis using 1(3-5) gather_stop [OF False] by simp
  qed
qed

lemma gather_edges_progress:
  assumes "i \<le> num_edges g" "j \<le> num_edges g" "min_edge_at g ids i j \<noteq> sentinel g"
    "gather_edges g ids (fst (min_edge_at g ids i j)) i j ve ltm = (i', j', ve', ltm')"
  shows "num_edges g - i' + (num_edges g - j') < num_edges g - i + (num_edges g - j)"
proof -
  let ?m = "min_edge_at g ids i j"
  have b: "i \<le> out_run g ?m i" "j \<le> in_run g ids ?m j" "out_run g ?m i \<le> num_edges g" "in_run g ids ?m j \<le> num_edges g"
    using run_bounds assms(1,2) by blast+
  have c: "fst ?m = fst ?m \<and> ?m \<noteq> sentinel g \<and> i \<le> num_edges g \<and> j \<le> num_edges g" using assms by simp
  obtain ve1 ltm1 where "gather_edges g ids (fst ?m) (out_run g ?m i) (in_run g ids ?m j) ve1 ltm1 = (i', j', ve', ltm')"
    using assms(4) unfolding gather_step [OF c] Let_def by (cases "fst ?m \<noteq> snd ?m") simp_all
  then have "out_run g ?m i \<le> i'" "in_run g ids ?m j \<le> j'" using gather_edges_bounds [OF b(3,4)] by simp_all
  with min_edge_progress [OF assms(1-3)] show ?thesis by linarith
qed

text \<open>Clockwise order around \<open>v0\<close>, beginning with the edges to \<open>min_endpoint\<close>.\<close>

definition clockwise_less :: "sign_tests \<Rightarrow> graph \<Rightarrow> VertexId \<Rightarrow> VertexId \<Rightarrow> vertex_edge \<Rightarrow> vertex_edge \<Rightarrow> bool" where
  "clockwise_less ft g v0 min_endpoint a b =
     (if ve_endpoint a = ve_endpoint b then ve_rank a < ve_rank b
      else if ve_endpoint a = min_endpoint then True
      else if ve_endpoint b = min_endpoint then False
      else \<not> OrderedCCW ft (vertex g (ve_endpoint a)) (vertex g (ve_endpoint b)) (vertex g min_endpoint) (vertex g v0))"

definition sort_vertex_edges :: "sign_tests \<Rightarrow> graph \<Rightarrow> VertexId \<Rightarrow> vertex_edge list \<Rightarrow> vertex_edge list" where
  "sort_vertex_edges ft g v0 ves = hd ves # sort_by (clockwise_less ft g v0 (ve_endpoint (hd ves))) (tl ves)"

text \<open>Matching the incoming with the outgoing edges: the two stacks and the map.\<close>

definition match_edge :: "EdgeId list \<Rightarrow> vertex_edge \<Rightarrow> EdgeId list \<times> EdgeId list \<times> EdgeId option list \<Rightarrow> EdgeId list \<times> EdgeId list \<times> EdgeId option list" where
  "match_edge ids e st = (case st of (e_in, e_out, ltm) \<Rightarrow>
     if incoming e then (ids ! ve_index e # e_in, e_out, ltm)
     else if e_in \<noteq> [] then (tl e_in, e_out, ltm[hd e_in := Some (ve_index e)])
     else (e_in, ve_index e # e_out, ltm))"

fun match_rest :: "EdgeId list \<Rightarrow> EdgeId list \<Rightarrow> EdgeId option list \<Rightarrow> EdgeId list \<times> EdgeId option list" where
  "match_rest (i # e_in) (k # e_out) ltm = match_rest e_in e_out (ltm[i := Some k])"
| "match_rest e_in e_out ltm = (e_in, ltm)"

definition match_edges :: "EdgeId list \<Rightarrow> vertex_edge list \<Rightarrow> EdgeId option list \<Rightarrow> EdgeId list \<times> EdgeId option list" where
  "match_edges ids ves ltm = (case fold (match_edge ids) ves ([], [], ltm) of (e_in, e_out, ltm) \<Rightarrow> match_rest e_in (rev e_out) ltm)"

function left_turn_loop :: "sign_tests \<Rightarrow> graph \<Rightarrow> EdgeId list \<Rightarrow> nat \<Rightarrow> nat \<Rightarrow> EdgeId option list \<Rightarrow> graph_error option \<Rightarrow>
    EdgeId option list \<times> graph_error option" where
  "left_turn_loop ft g ids i j ltm err =
     (let min_edge = min_edge_at g ids i j
      in if min_edge \<noteq> sentinel g \<and> i \<le> num_edges g \<and> j \<le> num_edges g then
           case gather_edges g ids (fst min_edge) i j [] ltm of (i', j', ves, ltm) \<Rightarrow>
             if ves = [] then left_turn_loop ft g ids i' j' ltm err
             else case match_edges ids (sort_vertex_edges ft g (fst min_edge) ves) ltm of (e_in, ltm) \<Rightarrow>
               left_turn_loop ft g ids i' j' ltm
                 (if e_in \<noteq> [] \<and> err = None then Some BUILDER_EDGES_DO_NOT_FORM_LOOPS else err)
         else (ltm, err))"
  by pat_completeness auto
termination
proof (relation "measure (\<lambda>(ft, g, ids, i, j, ltm, err). (num_edges g - i) + (num_edges g - j))", goal_cases)
  case (2 ft g ids i j ltm err x xa y xb ya xc yb)
  then have "gather_edges g ids (fst (min_edge_at g ids i j)) i j [] ltm = (xa, xb, xc, yb)" by simp
  from gather_edges_progress [OF _ _ _ this] 2 show ?case by simp
next
  case (3 ft g ids i j ltm err x xa y xb ya xc yb xd yc)
  then have "gather_edges g ids (fst (min_edge_at g ids i j)) i j [] ltm = (xa, xb, xc, yb)" by simp
  from gather_edges_progress [OF _ _ _ this] 3 show ?case by simp
qed simp

declare left_turn_loop.simps [simp del]

definition GetLeftTurnMap :: "sign_tests \<Rightarrow> graph \<Rightarrow> EdgeId list \<Rightarrow> graph_error option \<Rightarrow> bool \<times> EdgeId option list \<times> graph_error option" where
  "GetLeftTurnMap ft g ids err =
     (let ltm = replicate (num_edges g) None
      in if num_edges g = 0 then (True, ltm, err)
         else case left_turn_loop ft g ids 0 0 ltm err of (ltm, err) \<Rightarrow> (err = None, ltm, err))"

section \<open>Loops\<close>

datatype LoopType = SIMPLE | CIRCUIT

definition canonical_step :: "int32 list \<Rightarrow> EdgeId list \<Rightarrow> nat \<Rightarrow> nat \<times> bool \<Rightarrow> nat \<times> bool" where
  "canonical_step min_input_ids loop i st = (case st of (pos, saw_gap) \<Rightarrow>
     let cmp = sint (min_input_ids ! (loop ! i) - min_input_ids ! (loop ! pos))
     in if cmp < 0 then (pos, True)
        else if cmp > 0 \<or> \<not> saw_gap then (i, False)
        else (pos, saw_gap))"

definition CanonicalizeLoopOrder :: "int32 list \<Rightarrow> EdgeId list \<Rightarrow> EdgeId list" where
  "CanonicalizeLoopOrder min_input_ids loop =
     (if loop = [] then loop
      else let pos = fst (fold (canonical_step min_input_ids loop) [1..<length loop] (0, False));
               pos = (if pos + 1 = length loop then 0 else pos + 1)
           in drop pos loop @ take pos loop)"

definition CanonicalizeVectorOrder :: "int32 list \<Rightarrow> EdgeId list list \<Rightarrow> EdgeId list list" where
  "CanonicalizeVectorOrder min_input_ids cs =
     sort_by (\<lambda>a b. (sint (min_input_ids ! hd a), hd a) < (sint (min_input_ids ! hd b), hd b)) cs"

record loop_state =
  ls_path :: "EdgeId list"
  ls_path_index :: "nat option list"
  ls_left_turn_map :: "EdgeId option list"
  ls_loops :: "EdgeId list list"

text \<open>Peeling off the loop that begins at position \<open>loop_start\<close> of the path.\<close>

definition peel_loop :: "graph \<Rightarrow> int32 list \<Rightarrow> nat \<Rightarrow> loop_state \<Rightarrow> loop_state" where
  "peel_loop g min_input_ids loop_start st =
     (let loop = drop loop_start (ls_path st);
          path = take loop_start (ls_path st);
          path_index = foldl (\<lambda>pi e2. pi[fst (edge g e2) := None]) (ls_path_index st) loop
      in st\<lparr>ls_path := path, ls_path_index := path_index, ls_loops := ls_loops st @ [CanonicalizeLoopOrder min_input_ids loop]\<rparr>)"

definition visit_edge :: "graph \<Rightarrow> int32 list \<Rightarrow> LoopType \<Rightarrow> EdgeId \<Rightarrow> loop_state \<Rightarrow> loop_state" where
  "visit_edge g min_input_ids loop_type e st =
     (let st = st\<lparr>ls_path := ls_path st @ [e], ls_left_turn_map := (ls_left_turn_map st)[e := None]\<rparr>
      in if loop_type = SIMPLE then
           let st = st\<lparr>ls_path_index := (ls_path_index st)[fst (edge g e) := Some (length (ls_path st) - 1)]\<rparr>
           in case ls_path_index st ! snd (edge g e) of
                None \<Rightarrow> st
              | Some loop_start \<Rightarrow> peel_loop g min_input_ids loop_start st
         else st)"

lemma visit_edge_ltm [simp]: "ls_left_turn_map (visit_edge g ids lt e st) = (ls_left_turn_map st)[e := None]"
  by (simp add: visit_edge_def peel_loop_def Let_def split: option.split)

definition unused_edges :: "EdgeId option list \<Rightarrow> nat set" where
  "unused_edges ltm = {e. e < length ltm \<and> ltm ! e \<noteq> None}"

lemma finite_unused_edges [simp]: "finite (unused_edges ltm)"
  by (simp add: unused_edges_def)

lemma unused_edges_update: "unused_edges (ltm[e := None]) = unused_edges ltm - {e}"
  by (cases "e < length ltm") (auto simp: unused_edges_def nth_list_update list_update_beyond split: if_splits)

lemma unused_edges_less: "e < length ltm \<Longrightarrow> ltm ! e = Some k \<Longrightarrow> card (unused_edges (ltm[e := None])) < card (unused_edges ltm)"
  unfolding unused_edges_update by (rule card_Diff1_less) (simp_all add: unused_edges_def)

function walk_edges :: "graph \<Rightarrow> int32 list \<Rightarrow> LoopType \<Rightarrow> EdgeId \<Rightarrow> loop_state \<Rightarrow> loop_state" where
  "walk_edges g min_input_ids loop_type e st =
     (if e < length (ls_left_turn_map st) then
        case ls_left_turn_map st ! e of
          None \<Rightarrow> st
        | Some next \<Rightarrow> walk_edges g min_input_ids loop_type next (visit_edge g min_input_ids loop_type e st)
      else st)"
  by pat_completeness auto
termination
  by (relation "measure (\<lambda>(g, ids, lt, e, st). card (unused_edges (ls_left_turn_map st)))")
    (use unused_edges_less in simp_all)

declare walk_edges.simps [simp del]

definition build_from_edge :: "graph \<Rightarrow> int32 list \<Rightarrow> LoopType \<Rightarrow> EdgeId \<Rightarrow> loop_state \<Rightarrow> loop_state" where
  "build_from_edge g min_input_ids loop_type start st =
     (if ls_left_turn_map st ! start = None then st
      else let st = walk_edges g min_input_ids loop_type start st
           in if loop_type = SIMPLE then st
              else st\<lparr>ls_loops := ls_loops st @ [CanonicalizeLoopOrder min_input_ids (ls_path st)], ls_path := []\<rparr>)"

definition GetDirectedLoops :: "sign_tests \<Rightarrow> graph \<Rightarrow> LoopType \<Rightarrow> graph_error option \<Rightarrow> (graph_error option \<times> EdgeId list list option) option" where
  "GetDirectedLoops ft g loop_type err =
     (case GetLeftTurnMap ft g (GetInEdgeIds g) err of (ok, ltm, err) \<Rightarrow>
        if \<not> ok then Some (err, None)
        else do {
          min_input_ids \<leftarrow> GetMinInputEdgeIds g;
          let st = fold (build_from_edge g min_input_ids loop_type) [0..<num_edges g]
            \<lparr>ls_path = [], ls_path_index = (if loop_type = SIMPLE then replicate (num_vertices g) None else []), ls_left_turn_map = ltm, ls_loops = []\<rparr>;
          Some (err, Some (CanonicalizeVectorOrder min_input_ids (ls_loops st))) })"

end
