(* ===== verification/Edge_Processor.thy ===== *)
theory Edge_Processor
  imports Builder_Graph
begin

text \<open>
  \<^verbatim>\<open>Graph::ProcessEdges\<close> and its class \<^verbatim>\<open>EdgeProcessor\<close> (\<^verbatim>\<open>s2/s2builder_graph.cc\<close>): the edges are gathered by a merge join of the
  outgoing and the incoming edges, and the options decide how many copies of each edge are kept and with which input edges.
  \<open>None\<close> is an access outside the lexicon.
\<close>

record edge_processor =
  ep_options :: graph_options
  ep_edges :: "Edge list"
  ep_input_ids :: "int32 list"
  ep_lexicon :: "int32 sequence_lexicon"
  ep_out_edges :: "EdgeId list"
  ep_in_edges :: "EdgeId list"
  ep_new_edges :: "Edge list"
  ep_new_input_ids :: "int32 list"

definition EP_new :: "graph_options \<Rightarrow> Edge list \<Rightarrow> int32 list \<Rightarrow> int32 sequence_lexicon \<Rightarrow> edge_processor" where
  "EP_new options edges input_ids lx =
     \<lparr>ep_options = options, ep_edges = edges, ep_input_ids = input_ids, ep_lexicon = lx,
      ep_out_edges = sort_by (\<lambda>a b. StableLessThan (edges ! a) (edges ! b) a b) [0..<length edges],
      ep_in_edges = sort_by (\<lambda>a b. StableLessThan (reverse (edges ! a)) (reverse (edges ! b)) a b) [0..<length edges],
      ep_new_edges = [], ep_new_input_ids = []\<rparr>"

definition EP_AddEdge :: "Edge \<Rightarrow> int32 \<Rightarrow> edge_processor \<Rightarrow> edge_processor" where
  "EP_AddEdge e i ep = ep\<lparr>ep_new_edges := ep_new_edges ep @ [e], ep_new_input_ids := ep_new_input_ids ep @ [i]\<rparr>"

definition EP_AddEdges :: "nat \<Rightarrow> Edge \<Rightarrow> int32 \<Rightarrow> edge_processor \<Rightarrow> edge_processor" where
  "EP_AddEdges n e i ep = (EP_AddEdge e i ^^ n) ep"

definition EP_CopyEdges :: "nat \<Rightarrow> nat \<Rightarrow> edge_processor \<Rightarrow> edge_processor" where
  "EP_CopyEdges out_begin out_end ep =
     fold (\<lambda>i ep. EP_AddEdge (ep_edges ep ! (ep_out_edges ep ! i)) (ep_input_ids ep ! (ep_out_edges ep ! i)) ep) [out_begin..<out_end] ep"

definition EP_MergeInputIds :: "nat \<Rightarrow> nat \<Rightarrow> edge_processor \<Rightarrow> (int32 \<times> edge_processor) option" where
  "EP_MergeInputIds out_begin out_end ep =
     (if out_end - out_begin = 1 then Some (ep_input_ids ep ! (ep_out_edges ep ! out_begin), ep)
      else do {
        idss \<leftarrow> those (map (\<lambda>i. IL_id_set (ep_lexicon ep) (ep_input_ids ep ! (ep_out_edges ep ! i))) [out_begin..<out_end]);
        (n, lx) \<leftarrow> IL_Add (ep_lexicon ep) (concat idss);
        Some (n, ep\<lparr>ep_lexicon := lx\<rparr>) })"

text \<open>\<^verbatim>\<open>AddEdges(n, edge, MergeInputIds(out_begin, out))\<close>.\<close>

definition EP_AddMerged :: "nat \<Rightarrow> Edge \<Rightarrow> nat \<Rightarrow> nat \<Rightarrow> edge_processor \<Rightarrow> edge_processor option" where
  "EP_AddMerged n e out_begin out_end ep = do {
     (i, ep) \<leftarrow> EP_MergeInputIds out_begin out_end ep;
     Some (EP_AddEdges n e i ep) }"

definition max_vertex_id :: nat where "max_vertex_id = 2 ^ 31 - 1"

definition EP_sentinel :: Edge where "EP_sentinel = (max_vertex_id, max_vertex_id)"

definition EP_out_edge :: "edge_processor \<Rightarrow> nat \<Rightarrow> Edge" where
  "EP_out_edge ep i = (if i = length (ep_edges ep) then EP_sentinel else ep_edges ep ! (ep_out_edges ep ! i))"

definition EP_in_edge :: "edge_processor \<Rightarrow> nat \<Rightarrow> Edge" where
  "EP_in_edge ep i = (if i = length (ep_edges ep) then EP_sentinel else ep_edges ep ! (ep_in_edges ep ! i))"

text \<open>The branches for degenerate edges, and for the five values of \<open>sibling_pairs\<close>.\<close>

definition EP_degenerate :: "Edge \<Rightarrow> nat \<Rightarrow> nat \<Rightarrow> nat \<Rightarrow> nat \<Rightarrow> edge_processor \<Rightarrow> edge_processor option" where
  "EP_degenerate e out_begin out in_begin in_end ep =
     (let op = ep_options ep; num_edges = length (ep_edges ep); n_out = out - out_begin;
          out_e = (\<lambda>i. ep_edges ep ! (ep_out_edges ep ! i)); in_e = (\<lambda>i. ep_edges ep ! (ep_in_edges ep ! i))
      in if degenerate_edges op = DegenerateEdges_DISCARD then Some ep
         else if degenerate_edges op = DegenerateEdges_DISCARD_EXCESS \<and>
             (out_begin > 0 \<and> fst (out_e (out_begin - 1)) = fst e \<or> out < num_edges \<and> fst (out_e out) = fst e \<or>
              in_begin > 0 \<and> snd (in_e (in_begin - 1)) = fst e \<or> in_end < num_edges \<and> snd (in_e in_end) = fst e) then Some ep
         else let merge = (duplicate_edges op = DuplicateEdges_MERGE \<or> degenerate_edges op = DegenerateEdges_DISCARD_EXCESS)
              in if edge_type op = UNDIRECTED \<and> (sibling_pairs op = SiblingPairs_REQUIRE \<or> sibling_pairs op = SiblingPairs_CREATE) then
                   EP_AddMerged (if merge then 1 else n_out div 2) e out_begin out ep
                 else if merge then EP_AddMerged (if edge_type op = UNDIRECTED then 2 else 1) e out_begin out ep
                 else if sibling_pairs op = SiblingPairs_DISCARD \<or> sibling_pairs op = SiblingPairs_DISCARD_EXCESS then
                   EP_AddMerged n_out e out_begin out ep
                 else Some (EP_CopyEdges out_begin out ep))"

definition EP_regular :: "Edge \<Rightarrow> nat \<Rightarrow> nat \<Rightarrow> nat \<Rightarrow> edge_processor \<Rightarrow> edge_processor option" where
  "EP_regular e n_in out_begin out ep =
     (let op = ep_options ep; n_out = out - out_begin; merge = (duplicate_edges op = DuplicateEdges_MERGE)
      in case sibling_pairs op of
           SiblingPairs_KEEP \<Rightarrow>
             if n_out > 1 \<and> merge then EP_AddMerged 1 e out_begin out ep else Some (EP_CopyEdges out_begin out ep)
         | SiblingPairs_DISCARD \<Rightarrow>
             if edge_type op = DIRECTED then
               if n_out \<le> n_in then Some ep else EP_AddMerged (if merge then 1 else n_out - n_in) e out_begin out ep
             else if even n_out then Some ep
             else EP_AddMerged 1 e out_begin out ep
         | SiblingPairs_DISCARD_EXCESS \<Rightarrow>
             if edge_type op = DIRECTED then
               if n_out < n_in then Some ep else EP_AddMerged (if merge then 1 else max 1 (n_out - n_in)) e out_begin out ep
             else EP_AddMerged (if odd n_out then 1 else 2) e out_begin out ep
         | _ \<Rightarrow>
             if merge then EP_AddMerged 1 e out_begin out ep
             else if edge_type op = UNDIRECTED then EP_AddMerged ((n_out + 1) div 2) e out_begin out ep
             else let ep = EP_CopyEdges out_begin out ep
                  in Some (if n_in > n_out then EP_AddEdges (n_in - n_out) e IL_EmptySetId ep else ep))"

text \<open>The error of \<open>REQUIRE\<close> for an edge without its siblings.\<close>

definition EP_check :: "graph_options \<Rightarrow> nat \<Rightarrow> nat \<Rightarrow> graph_error option \<Rightarrow> graph_error option" where
  "EP_check op n_out n_in err =
     (if err = None \<and> sibling_pairs op = SiblingPairs_REQUIRE \<and> (if edge_type op = DIRECTED then n_out \<noteq> n_in else odd n_out)
      then Some BUILDER_MISSING_EXPECTED_SIBLING_EDGES else err)"

definition EP_step :: "Edge \<Rightarrow> nat \<Rightarrow> nat \<Rightarrow> nat \<Rightarrow> nat \<Rightarrow> edge_processor \<times> graph_error option \<Rightarrow> (edge_processor \<times> graph_error option) option" where
  "EP_step e out_begin out in_begin in_end st = (case st of (ep, err) \<Rightarrow>
     if fst e = snd e then map_option (\<lambda>ep. (ep, err)) (EP_degenerate e out_begin out in_begin in_end ep)
     else map_option (\<lambda>ep. (ep, EP_check (ep_options ep) (out - out_begin) (in_end - in_begin) err))
            (EP_regular e (in_end - in_begin) out_begin out ep))"

definition EP_min_edge :: "edge_processor \<Rightarrow> nat \<Rightarrow> nat \<Rightarrow> Edge" where
  "EP_min_edge ep i j = min (EP_out_edge ep i) (reverse (EP_in_edge ep j))"

definition EP_out_run :: "edge_processor \<Rightarrow> Edge \<Rightarrow> nat \<Rightarrow> nat" where
  "EP_out_run ep m i = skip_while (\<lambda>i. EP_out_edge ep i = m) (length (ep_edges ep)) i"

definition EP_in_run :: "edge_processor \<Rightarrow> Edge \<Rightarrow> nat \<Rightarrow> nat" where
  "EP_in_run ep m j = skip_while (\<lambda>j. reverse (EP_in_edge ep j) = m) (length (ep_edges ep)) j"

text \<open>What no step changes.\<close>

definition EP_frame :: "edge_processor \<Rightarrow> edge_processor \<Rightarrow> bool" where
  "EP_frame ep ep' \<longleftrightarrow> ep_options ep' = ep_options ep \<and> ep_edges ep' = ep_edges ep \<and> ep_input_ids ep' = ep_input_ids ep \<and>
     ep_out_edges ep' = ep_out_edges ep \<and> ep_in_edges ep' = ep_in_edges ep"

lemma EP_frame_refl [simp]: "EP_frame ep ep"
  by (simp add: EP_frame_def)

lemma EP_frame_trans: "EP_frame a b \<Longrightarrow> EP_frame b c \<Longrightarrow> EP_frame a c"
  by (simp add: EP_frame_def)

lemma EP_AddEdge_frame [simp]: "EP_frame ep (EP_AddEdge e i ep)"
  by (simp add: EP_frame_def EP_AddEdge_def)

lemma EP_AddEdges_frame [simp]: "EP_frame ep (EP_AddEdges n e i ep)"
  unfolding EP_AddEdges_def by (induction n) (auto intro: EP_frame_trans)

lemma EP_CopyEdges_frame [simp]: "EP_frame ep (EP_CopyEdges a b ep)"
proof -
  have "EP_frame ep (fold (\<lambda>i ep. EP_AddEdge (ep_edges ep ! (ep_out_edges ep ! i)) (ep_input_ids ep ! (ep_out_edges ep ! i)) ep) is ep)" for "is"
  proof (induction "is" arbitrary: ep)
    case (Cons i "is")
    show ?case using EP_frame_trans [OF EP_AddEdge_frame Cons.IH] by simp
  qed simp
  then show ?thesis by (simp add: EP_CopyEdges_def)
qed

lemma EP_MergeInputIds_frame: "EP_MergeInputIds a b ep = Some (i, ep') \<Longrightarrow> EP_frame ep ep'"
  unfolding EP_MergeInputIds_def by (auto simp: bind_eq_Some_conv EP_frame_def split: if_splits)

lemma EP_AddMerged_frame: "EP_AddMerged n e a b ep = Some ep' \<Longrightarrow> EP_frame ep ep'"
  unfolding EP_AddMerged_def by (auto simp: bind_eq_Some_conv dest!: EP_MergeInputIds_frame intro: EP_frame_trans [OF _ EP_AddEdges_frame])

lemma EP_regular_frame: "EP_regular e n_in a b ep = Some ep' \<Longrightarrow> EP_frame ep ep'"
  unfolding EP_regular_def Let_def
  by (auto split: if_splits SiblingPairs.splits dest!: EP_AddMerged_frame intro: EP_frame_trans [OF EP_CopyEdges_frame EP_AddEdges_frame])

lemma EP_degenerate_frame: "EP_degenerate e a b c d ep = Some ep' \<Longrightarrow> EP_frame ep ep'"
  unfolding EP_degenerate_def Let_def by (auto split: if_splits dest!: EP_AddMerged_frame)

lemma EP_step_frame: "EP_step e a b c d (ep, err) = Some (ep', err') \<Longrightarrow> EP_frame ep ep'"
  unfolding EP_step_def by (auto split: if_splits dest: EP_degenerate_frame EP_regular_frame)

lemma EP_run_bounds:
  "i \<le> EP_out_run ep m i" "i \<le> length (ep_edges ep) \<Longrightarrow> EP_out_run ep m i \<le> length (ep_edges ep)"
  "j \<le> EP_in_run ep m j" "j \<le> length (ep_edges ep) \<Longrightarrow> EP_in_run ep m j \<le> length (ep_edges ep)"
  unfolding EP_out_run_def EP_in_run_def by (rule skip_while_bounds; assumption)+

lemma EP_progress:
  assumes "i \<le> length (ep_edges ep)" "j \<le> length (ep_edges ep)" "EP_min_edge ep i j \<noteq> EP_sentinel"
  shows "length (ep_edges ep) - EP_out_run ep (EP_min_edge ep i j) i + (length (ep_edges ep) - EP_in_run ep (EP_min_edge ep i j) j) <
    length (ep_edges ep) - i + (length (ep_edges ep) - j)"
proof -
  let ?m = "EP_min_edge ep i j"
  have "EP_out_edge ep i = ?m \<or> reverse (EP_in_edge ep j) = ?m" unfolding EP_min_edge_def min_def by simp
  moreover have "i < length (ep_edges ep)" if "EP_out_edge ep i = ?m"
  proof (rule ccontr)
    assume "\<not> i < length (ep_edges ep)"
    with assms(1) have "EP_out_edge ep i = EP_sentinel" by (simp add: EP_out_edge_def)
    with that assms(3) show False by simp
  qed
  moreover have "j < length (ep_edges ep)" if "reverse (EP_in_edge ep j) = ?m"
  proof (rule ccontr)
    assume "\<not> j < length (ep_edges ep)"
    with assms(2) have "reverse (EP_in_edge ep j) = EP_sentinel" by (simp add: EP_in_edge_def reverse_def EP_sentinel_def)
    with that assms(3) show False by simp
  qed
  ultimately have "EP_out_edge ep i = ?m \<and> i < length (ep_edges ep) \<or> reverse (EP_in_edge ep j) = ?m \<and> j < length (ep_edges ep)" by blast
  then have "i < EP_out_run ep ?m i \<and> i < length (ep_edges ep) \<or> j < EP_in_run ep ?m j \<and> j < length (ep_edges ep)"
    unfolding EP_out_run_def EP_in_run_def
    using skip_while_step [of i "length (ep_edges ep)" "\<lambda>i. EP_out_edge ep i = ?m"] skip_while_step [of j "length (ep_edges ep)" "\<lambda>j. reverse (EP_in_edge ep j) = ?m"]
    by (elim disjE) simp_all
  then show ?thesis using EP_run_bounds(1) [of i ep ?m] EP_run_bounds(3) [of j ep ?m] EP_run_bounds(2) [OF assms(1), of ?m] EP_run_bounds(4) [OF assms(2), of ?m] by linarith
qed

function EP_loop :: "nat \<Rightarrow> nat \<Rightarrow> edge_processor \<Rightarrow> graph_error option \<Rightarrow> (edge_processor \<times> graph_error option) option" where
  "EP_loop i j ep err =
     (let e = EP_min_edge ep i j
      in if e \<noteq> EP_sentinel \<and> i \<le> length (ep_edges ep) \<and> j \<le> length (ep_edges ep) then
           let i' = EP_out_run ep e i; j' = EP_in_run ep e j
           in case EP_step e i i' j j' (ep, err) of None \<Rightarrow> None | Some (ep, err) \<Rightarrow> EP_loop i' j' ep err
         else Some (ep, err))"
  by pat_completeness auto
termination
proof (relation "measure (\<lambda>(i, j, ep, err). (length (ep_edges ep) - i) + (length (ep_edges ep) - j))", goal_cases)
  case (2 i j ep err e i' j' st ep' err')
  then have "EP_step e i i' j j' (ep, err) = Some (ep', err')" by simp
  from EP_step_frame [OF this] have "ep_edges ep' = ep_edges ep" by (simp add: EP_frame_def)
  with EP_progress [of i ep j] 2 show ?case by (cases st) simp
qed simp

declare EP_loop.simps [simp del]

definition EP_Run :: "edge_processor \<Rightarrow> graph_error option \<Rightarrow> (edge_processor \<times> graph_error option) option" where
  "EP_Run ep err =
     (if ep_edges ep = [] then Some (ep, err)
      else do {
        (ep, err) \<leftarrow> EP_loop 0 0 ep err;
        Some (ep\<lparr>ep_edges := ep_new_edges ep, ep_new_edges := ep_edges ep, ep_input_ids := ep_new_input_ids ep, ep_new_input_ids := ep_input_ids ep\<rparr>, err) })"

definition ProcessEdges :: "graph_options \<Rightarrow> Edge list \<Rightarrow> int32 list \<Rightarrow> int32 sequence_lexicon \<Rightarrow> graph_error option \<Rightarrow>
    (graph_options \<times> Edge list \<times> int32 list \<times> int32 sequence_lexicon \<times> graph_error option) option" where
  "ProcessEdges options edges input_ids lx err = do {
     (ep, err) \<leftarrow> EP_Run (EP_new options edges input_ids lx) err;
     let options = (if sibling_pairs options = SiblingPairs_REQUIRE \<or> sibling_pairs options = SiblingPairs_CREATE
                    then options\<lparr>edge_type := DIRECTED\<rparr> else options);
     Some (options, ep_edges ep, ep_input_ids ep, ep_lexicon ep, err) }"

section \<open>Other functions that create graphs\<close>

definition FilterVertices :: "vec list \<Rightarrow> Edge list \<Rightarrow> nat list \<Rightarrow> vec list \<times> Edge list \<times> nat list" where
  "FilterVertices vertices edges tmp =
     (let used = remdups_adj (sort (concat (map (\<lambda>e. [fst e, snd e]) edges)));
          vmap = take (length vertices) tmp @ replicate (length vertices - length tmp) 0;
          new_vertices = map (\<lambda>v. vertices ! v) used;
          vmap = fold (\<lambda>i vmap. vmap[used ! i := i]) [0..<length used] vmap;
          edges = map (\<lambda>e. (vmap ! fst e, vmap ! snd e)) edges
      in (new_vertices, edges, vmap))"

definition MakeSubgraph :: "graph \<Rightarrow> graph_options \<Rightarrow> Edge list \<Rightarrow> int32 list \<Rightarrow> int32 sequence_lexicon \<Rightarrow> graph_error option \<Rightarrow>
    (graph \<times> graph_error option) option" where
  "MakeSubgraph g new_options new_edges new_ids new_lexicon err =
     (let both = (edge_type (graph_options g) = DIRECTED \<and> edge_type new_options = UNDIRECTED);
          edges = (if both then new_edges @ map reverse new_edges else new_edges);
          ids = (if both then new_ids @ replicate (length new_edges) IL_EmptySetId else new_ids)
      in do {
        (options, edges, ids, lexicon, err) \<leftarrow> ProcessEdges new_options edges ids new_lexicon err;
        Some (\<lparr>graph_options = options, graph_vertices = graph_vertices g, graph_edges = edges, input_edge_id_set_ids = ids,
               input_edge_id_set_lexicon = lexicon, label_set_ids = label_set_ids g, label_set_lexicon = label_set_lexicon g\<rparr>, err) })"

end
