(* ===== verification/Merge_Join.thy ===== *)
theory Merge_Join
  imports Edge_Processor
begin

text \<open>
  The merge join of \<open>EdgeProcessor\<close>: the loop visits the distinct edges, and reversed edges, in increasing order, each with the
  runs of its copies in the two sorted arrays.
\<close>

section \<open>Sorting\<close>

lemma mset_insert_by [simp]: "mset (insert_by lt x xs) = add_mset x (mset xs)"
  by (induction xs) auto

lemma mset_sort_by [simp]: "mset (sort_by lt xs) = mset xs"
  unfolding sort_by_def by (induction xs) auto

lemma set_insert_by [simp]: "set (insert_by lt x xs) = insert x (set xs)"
  by (metis mset_insert_by set_mset_add_mset_insert set_mset_mset)

lemma set_sort_by [simp]: "set (sort_by lt xs) = set xs"
  by (metis mset_sort_by set_mset_mset)

lemma length_sort_by [simp]: "length (sort_by lt xs) = length xs"
  by (metis mset_sort_by size_mset)

lemma distinct_sort_by [simp]: "distinct (sort_by lt xs) = distinct xs"
  by (metis mset_sort_by mset_eq_imp_distinct_iff)

lemma insert_by_sorted:
  assumes "sorted_wrt lt xs" "\<And>y. y \<in> set xs \<Longrightarrow> lt x y \<or> lt y x"
    "\<And>u v w. lt u v \<Longrightarrow> lt v w \<Longrightarrow> lt u w"
  shows "sorted_wrt lt (insert_by lt x xs)"
  using assms(1,2)
proof (induction xs)
  case (Cons y ys)
  then show ?case using assms(3) by (cases "lt x y") auto
qed simp

lemma sort_by_sorted:
  assumes "distinct xs" "\<And>x y. x \<in> set xs \<Longrightarrow> y \<in> set xs \<Longrightarrow> x \<noteq> y \<Longrightarrow> lt x y \<or> lt y x"
    "\<And>u v w. lt u v \<Longrightarrow> lt v w \<Longrightarrow> lt u w"
  shows "sorted_wrt lt (sort_by lt xs)"
  using assms(1,2)
proof (induction xs)
  case (Cons x xs)
  have "sort_by lt (x # xs) = insert_by lt x (sort_by lt xs)" by (simp add: sort_by_def)
  moreover have "sorted_wrt lt (insert_by lt x (sort_by lt xs))"
    using Cons assms(3) by (intro insert_by_sorted) auto
  ultimately show ?case by simp
qed (simp add: sort_by_def)

lemma StableLessThan_iff: "StableLessThan a b ai bi \<longleftrightarrow> (a, ai) < (b, bi)"
  by (cases a; cases b) (auto simp: StableLessThan_def)

text \<open>Sorting the ids of a list of edges by edge and id sorts the edges.\<close>

lemma sort_ids:
  fixes f :: "nat \<Rightarrow> Edge" and n :: nat
  defines "ids \<equiv> sort_by (\<lambda>a b. StableLessThan (f a) (f b) a b) [0..<n]"
  shows "mset ids = mset [0..<n]" "length ids = n" "set ids = {..<n}" "distinct ids"
    "sorted_wrt (\<lambda>a b. (f a, a) < (f b, b)) ids" "sorted (map f ids)"
proof -
  show "mset ids = mset [0..<n]" "length ids = n" "set ids = {..<n}" "distinct ids" by (auto simp: ids_def)
  show s: "sorted_wrt (\<lambda>a b. (f a, a) < (f b, b)) ids"
    unfolding ids_def StableLessThan_iff by (rule sort_by_sorted) (auto intro: less_trans)
  have "sorted_wrt (\<lambda>a b. f a \<le> f b) ids" by (rule sorted_wrt_mono_rel [OF _ s]) auto
  then show "sorted (map f ids)" by (simp add: sorted_map)
qed

section \<open>Runs\<close>

definition below :: "'a::linorder list \<Rightarrow> 'a \<Rightarrow> nat" where "below xs m = length (filter (\<lambda>x. x < m) xs)"
definition through :: "'a::linorder list \<Rightarrow> 'a \<Rightarrow> nat" where "through xs m = length (filter (\<lambda>x. x \<le> m) xs)"

lemma through_below: "through xs m = below xs m + count_list xs m"
  unfolding through_def below_def by (induction xs) auto

lemma below_le [simp]: "below xs m \<le> length xs" and through_le [simp]: "through xs m \<le> length xs"
  by (simp_all add: below_def through_def)

lemma filter_none: "(\<And>x. x \<in> set xs \<Longrightarrow> \<not> p x) \<Longrightarrow> filter p xs = []"
  by (simp add: filter_empty_conv)

lemma sorted_nth_below:
  assumes "sorted xs" "i < length xs"
  shows "xs ! i < m \<longleftrightarrow> i < below xs m" "xs ! i \<le> m \<longleftrightarrow> i < through xs m"
proof -
  show "xs ! i < m \<longleftrightarrow> i < below xs m" using assms
  proof (induction xs arbitrary: i)
    case (Cons y ys)
    show ?case
    proof (cases "y < m")
      case True
      then show ?thesis using Cons by (cases i) (simp_all add: below_def)
    next
      case False
      then have "\<forall>x\<in>set (y # ys). \<not> x < m" using Cons.prems(1) by auto
      then have "below (y # ys) m = 0" "\<not> (y # ys) ! i < m" using Cons.prems(2) nth_mem [of i "y # ys"] by (auto simp: below_def)
      then show ?thesis by simp
    qed
  qed simp
  show "xs ! i \<le> m \<longleftrightarrow> i < through xs m" using assms
  proof (induction xs arbitrary: i)
    case (Cons y ys)
    show ?case
    proof (cases "y \<le> m")
      case True
      then show ?thesis using Cons by (cases i) (simp_all add: through_def)
    next
      case False
      then have "\<forall>x\<in>set (y # ys). \<not> x \<le> m" using Cons.prems(1) by auto
      then have "through (y # ys) m = 0" "\<not> (y # ys) ! i \<le> m" using Cons.prems(2) nth_mem [of i "y # ys"] by (auto simp: through_def)
      then show ?thesis by simp
    qed
  qed simp
qed

lemma sorted_nth_run:
  assumes "sorted xs" "i < length xs"
  shows "xs ! i = m \<longleftrightarrow> below xs m \<le> i \<and> i < through xs m"
  using sorted_nth_below [OF assms, of m] by (metis leD not_le_imp_less order.order_iff_strict)

lemma skip_while_eq:
  assumes "i \<le> k" "k \<le> n" "\<And>j. i \<le> j \<Longrightarrow> j < k \<Longrightarrow> p j" "k < n \<Longrightarrow> \<not> p k"
  shows "skip_while p n i = k"
  using assms
proof (induction "k - i" arbitrary: i)
  case 0
  then show ?case by (subst skip_while.simps) auto
next
  case (Suc d)
  then have "skip_while p n (i + 1) = k" by (intro Suc.hyps(1)) auto
  moreover have "i < n" "p i" using Suc by auto
  ultimately show ?case by (subst skip_while.simps) simp
qed

lemma skip_run:
  assumes "sorted xs" "\<And>k. k < length xs \<Longrightarrow> p k \<longleftrightarrow> xs ! k = m"
  shows "skip_while p (length xs) (below xs m) = through xs m"
proof (rule skip_while_eq)
  show "below xs m \<le> through xs m" by (simp add: through_below)
  show "through xs m \<le> length xs" by simp
  show "p j" if "below xs m \<le> j" "j < through xs m" for j
    using that assms(2) [of j] sorted_nth_run [OF assms(1), of j m] through_le [of xs m] by simp
  show "\<not> p (through xs m)" if "through xs m < length xs"
    using that assms(2) [OF that] sorted_nth_run [OF assms(1) that, of m] by simp
qed

text \<open>The next edge to visit: what comes below it has been passed in both arrays.\<close>

lemma min_next:
  fixes xs ys :: "'a::linorder list"
  assumes "sorted xs" "sorted ys" "m \<in> set xs \<union> set ys" "\<forall>x\<in>set xs \<union> set ys. x < s"
  shows "min (if below xs m = length xs then s else xs ! below xs m) (if below ys m = length ys then s else ys ! below ys m) = m"
proof -
  have at: "below zs m < length zs \<and> zs ! below zs m = m" if "sorted zs" "m \<in> set zs" for zs :: "'a list"
  proof -
    have "0 < count_list zs m" using that(2) by (simp add: count_list_0_iff flip: neq0_conv)
    then have "below zs m < through zs m" by (simp add: through_below)
    moreover from this have "below zs m < length zs" using through_le [of zs m] by linarith
    ultimately show ?thesis using sorted_nth_run [OF that(1), of "below zs m" m] by simp
  qed
  have ge: "m \<le> (if below zs m = length zs then s else zs ! below zs m)" if "sorted zs" for zs :: "'a list"
  proof (cases "below zs m = length zs")
    case True
    have "m \<le> s" using assms(3,4) by (auto intro: less_imp_le)
    with True show ?thesis by simp
  next
    case False
    then have "below zs m < length zs" using below_le [of zs m] by linarith
    from sorted_nth_below(1) [OF that this, of m] False show ?thesis by (simp add: not_less)
  qed
  from assms(3) show ?thesis using at [OF assms(1)] at [OF assms(2)] ge [OF assms(1)] ge [OF assms(2)] by (auto simp: min_def)
qed

lemma below_all: "(\<And>x. x \<in> set xs \<Longrightarrow> x < m) \<Longrightarrow> below xs m = length xs"
  by (simp add: below_def)

lemma through_next:
  assumes "\<And>x. x \<in> set xs \<Longrightarrow> x \<le> m \<or> m' \<le> x" "m < m'"
  shows "through xs m = below xs m'"
proof -
  have "filter (\<lambda>x. x \<le> m) xs = filter (\<lambda>x. x < m') xs" by (rule filter_cong) (use assms in force)+
  then show ?thesis by (simp add: through_def below_def)
qed

lemma through_last: "(\<And>x. x \<in> set xs \<Longrightarrow> x \<le> m) \<Longrightarrow> through xs m = length xs"
  by (simp add: through_def)

lemma through_hd:
  assumes "sorted_wrt (<) (m # ms)" "\<forall>x\<in>set xs. x \<in> set (m # ms) \<or> (\<forall>k\<in>set (m # ms). x < k)"
  shows "through xs m = (if ms = [] then length xs else below xs (hd ms))"
proof (cases ms)
  case Nil
  then have "x \<le> m" if "x \<in> set xs" for x using assms(2) that by force
  with Nil show ?thesis by (simp add: through_last)
next
  case (Cons m' ms')
  have "m < m'" using assms(1) Cons by simp
  moreover have "x \<le> m \<or> m' \<le> x" if "x \<in> set xs" for x
  proof -
    from assms(2) that have "x \<in> set (m # ms) \<or> (\<forall>k\<in>set (m # ms). x < k)" by blast
    then show ?thesis using Cons assms(1) by auto
  qed
  ultimately show ?thesis using Cons through_next [of xs m m'] by simp
qed

text \<open>The runs make up the whole list.\<close>

lemma concat_runs:
  assumes "sorted_wrt (<) ms" "\<forall>x\<in>set xs. x \<in> set ms \<or> (\<forall>k\<in>set ms. x < k)"
  shows "concat (map (\<lambda>m. [below xs m..<through xs m]) ms) = [(if ms = [] then length xs else below xs (hd ms))..<length xs]"
  using assms
proof (induction ms)
  case (Cons m ms)
  have "\<forall>x\<in>set xs. x \<in> set ms \<or> (\<forall>k\<in>set ms. x < k)" using Cons.prems by auto
  then have "concat (map (\<lambda>m. [below xs m..<through xs m]) ms) = [through xs m..<length xs]"
    using Cons.IH Cons.prems(1) through_hd [OF Cons.prems] by simp
  moreover have "below xs m \<le> through xs m" by (simp add: through_below)
  moreover have "through xs m \<le> length xs" by (rule through_le)
  ultimately have "[below xs m..<through xs m] @ [through xs m..<length xs] = [below xs m..<length xs]"
    by (metis le_add_diff_inverse upt_add_eq_append)
  with \<open>concat (map (\<lambda>m. [below xs m..<through xs m]) ms) = [through xs m..<length xs]\<close> show ?case by simp
qed simp

section \<open>The loop\<close>

definition EP_outs :: "edge_processor \<Rightarrow> Edge list" where
  "EP_outs ep = map (\<lambda>i. ep_edges ep ! i) (ep_out_edges ep)"

definition EP_ins :: "edge_processor \<Rightarrow> Edge list" where
  "EP_ins ep = map (\<lambda>i. reverse (ep_edges ep ! i)) (ep_in_edges ep)"

definition EP_sorted :: "edge_processor \<Rightarrow> bool" where
  "EP_sorted ep \<longleftrightarrow> sorted (EP_outs ep) \<and> sorted (EP_ins ep) \<and> length (EP_outs ep) = length (ep_edges ep) \<and>
     length (EP_ins ep) = length (ep_edges ep) \<and> (\<forall>x\<in>set (EP_outs ep) \<union> set (EP_ins ep). x < EP_sentinel)"

lemma EP_frame_lists: "EP_frame ep ep' \<Longrightarrow> EP_outs ep' = EP_outs ep \<and> EP_ins ep' = EP_ins ep \<and> EP_sorted ep' = EP_sorted ep"
  by (simp add: EP_frame_def EP_sorted_def EP_outs_def EP_ins_def)

definition EP_visit :: "Edge list \<Rightarrow> Edge list \<Rightarrow> Edge \<Rightarrow> edge_processor \<times> graph_error option \<Rightarrow> (edge_processor \<times> graph_error option) option" where
  "EP_visit outs ins m st = EP_step m (below outs m) (through outs m) (below ins m) (through ins m) st"

fun EP_visits :: "Edge list \<Rightarrow> Edge list \<Rightarrow> Edge list \<Rightarrow> edge_processor \<times> graph_error option \<Rightarrow> (edge_processor \<times> graph_error option) option" where
  "EP_visits outs ins [] st = Some st"
| "EP_visits outs ins (m # ms) st = EP_visit outs ins m st \<bind> EP_visits outs ins ms"

lemma EP_min_edge_lists:
  assumes "EP_sorted ep" "i \<le> length (ep_edges ep)" "j \<le> length (ep_edges ep)"
  shows "EP_min_edge ep i j = min (if i = length (EP_outs ep) then EP_sentinel else EP_outs ep ! i) (if j = length (EP_ins ep) then EP_sentinel else EP_ins ep ! j)"
proof -
  have l: "length (EP_outs ep) = length (ep_edges ep)" "length (EP_ins ep) = length (ep_edges ep)" using assms(1) by (simp_all add: EP_sorted_def)
  then have "EP_out_edge ep i = (if i = length (EP_outs ep) then EP_sentinel else EP_outs ep ! i)"
    "reverse (EP_in_edge ep j) = (if j = length (EP_ins ep) then EP_sentinel else EP_ins ep ! j)"
    using assms(2,3) by (simp_all add: EP_out_edge_def EP_in_edge_def EP_outs_def EP_ins_def EP_sentinel_def reverse_def)
  then show ?thesis by (simp add: EP_min_edge_def)
qed

lemma EP_runs:
  assumes "EP_sorted ep" "m \<noteq> EP_sentinel"
  shows "EP_out_run ep m (below (EP_outs ep) m) = through (EP_outs ep) m" "EP_in_run ep m (below (EP_ins ep) m) = through (EP_ins ep) m"
proof -
  have l: "sorted (EP_outs ep)" "sorted (EP_ins ep)" "length (EP_outs ep) = length (ep_edges ep)" "length (EP_ins ep) = length (ep_edges ep)"
    using assms(1) by (simp_all add: EP_sorted_def)
  have "EP_out_edge ep k = m \<longleftrightarrow> EP_outs ep ! k = m" if "k < length (EP_outs ep)" for k
    using that l(3) by (simp add: EP_out_edge_def EP_outs_def)
  from skip_run [OF l(1) this] show "EP_out_run ep m (below (EP_outs ep) m) = through (EP_outs ep) m" using l(3) by (simp add: EP_out_run_def)
  have "reverse (EP_in_edge ep k) = m \<longleftrightarrow> EP_ins ep ! k = m" if "k < length (EP_ins ep)" for k
    using that l(4) by (simp add: EP_in_edge_def EP_ins_def)
  from skip_run [OF l(2) this] show "EP_in_run ep m (below (EP_ins ep) m) = through (EP_ins ep) m" using l(4) by (simp add: EP_in_run_def)
qed

lemma EP_loop_visits:
  assumes "EP_sorted ep" "sorted_wrt (<) ms" "set ms \<subseteq> set (EP_outs ep) \<union> set (EP_ins ep)"
    "\<forall>x\<in>set (EP_outs ep) \<union> set (EP_ins ep). x \<in> set ms \<or> (\<forall>m\<in>set ms. x < m)"
    "i = (if ms = [] then length (ep_edges ep) else below (EP_outs ep) (hd ms))" "j = (if ms = [] then length (ep_edges ep) else below (EP_ins ep) (hd ms))"
  shows "EP_loop i j ep err = EP_visits (EP_outs ep) (EP_ins ep) ms (ep, err)"
  using assms
proof (induction ms arbitrary: i j ep err)
  case Nil
  have "EP_min_edge ep i j = EP_sentinel" using Nil.prems(1,5,6) EP_min_edge_lists [OF Nil.prems(1), of i j] by (simp add: EP_sorted_def)
  then show ?case by (subst EP_loop.simps) (simp add: Let_def)
next
  case (Cons m ms)
  have l: "sorted (EP_outs ep)" "sorted (EP_ins ep)" "length (EP_outs ep) = length (ep_edges ep)" "length (EP_ins ep) = length (ep_edges ep)"
    "\<forall>x\<in>set (EP_outs ep) \<union> set (EP_ins ep). x < EP_sentinel" using Cons.prems(1) by (simp_all add: EP_sorted_def)
  have ij: "i = below (EP_outs ep) m" "j = below (EP_ins ep) m" using Cons.prems(5,6) by simp_all
  have b: "i \<le> length (ep_edges ep)" "j \<le> length (ep_edges ep)" using ij below_le l(3,4) by metis+
  have m: "m \<in> set (EP_outs ep) \<union> set (EP_ins ep)" using Cons.prems(3) by simp
  have e: "EP_min_edge ep i j = m" using EP_min_edge_lists [OF Cons.prems(1) b] min_next [OF l(1,2) m l(5)] unfolding ij by (simp only:)
  have ns: "m \<noteq> EP_sentinel" using l(5) m by auto
  have step: "EP_loop i j ep err = (case EP_visit (EP_outs ep) (EP_ins ep) m (ep, err) of None \<Rightarrow> None
      | Some (ep', err') \<Rightarrow> EP_loop (through (EP_outs ep) m) (through (EP_ins ep) m) ep' err')"
    using EP_runs [OF Cons.prems(1) ns] ij e ns b by (subst EP_loop.simps) (simp add: Let_def EP_visit_def)
  show ?case
  proof (cases "EP_visit (EP_outs ep) (EP_ins ep) m (ep, err)")
    case None
    with step show ?thesis by simp
  next
    case (Some st)
    obtain ep' err' where st: "st = (ep', err')" by (cases st)
    from Some st EP_step_frame have f: "EP_frame ep ep'" by (auto simp: EP_visit_def)
    note eq = EP_frame_lists [OF f]
    have pos: "through xs m = (if ms = [] then length xs else below xs (hd ms))" if "set xs \<subseteq> set (EP_outs ep) \<union> set (EP_ins ep)" for xs
      by (rule through_hd [OF Cons.prems(2)]) (use Cons.prems(4) that in blast)
    have "EP_loop (through (EP_outs ep) m) (through (EP_ins ep) m) ep' err' = EP_visits (EP_outs ep') (EP_ins ep') ms (ep', err')"
    proof (rule Cons.IH)
      show "EP_sorted ep'" using Cons.prems(1) eq by simp
      show "sorted_wrt (<) ms" using Cons.prems(2) by simp
      show "set ms \<subseteq> set (EP_outs ep') \<union> set (EP_ins ep')" using Cons.prems(3) eq by simp
      show "\<forall>x\<in>set (EP_outs ep') \<union> set (EP_ins ep'). x \<in> set ms \<or> (\<forall>m\<in>set ms. x < m)"
        using Cons.prems(2,4) eq by (auto dest: less_trans)
      show "through (EP_outs ep) m = (if ms = [] then length (ep_edges ep') else below (EP_outs ep') (hd ms))"
        using pos [of "EP_outs ep"] eq l(3) f by (simp add: EP_frame_def)
      show "through (EP_ins ep) m = (if ms = [] then length (ep_edges ep') else below (EP_ins ep') (hd ms))"
        using pos [of "EP_ins ep"] eq l(4) f by (simp add: EP_frame_def)
    qed
    then show ?thesis using step Some st eq by simp
  qed
qed

end
