(* ===== verification/Edge_Counts.thy ===== *)
theory Edge_Counts
  imports Merge_Join
begin

text \<open>
  What each step of \<open>EdgeProcessor\<close> does: the number of copies of the edge that it keeps, and the input edges of these copies.
\<close>

section \<open>Sets of input edges\<close>

definition extends :: "int32 sequence_lexicon \<Rightarrow> int32 sequence_lexicon \<Rightarrow> bool" where
  "extends lx lx' \<longleftrightarrow> (\<forall>m c. IL_id_set lx m = Some c \<longrightarrow> IL_id_set lx' m = Some c)"

lemma extends_refl [simp]: "extends lx lx" by (simp add: extends_def)
lemma extends_trans: "extends a b \<Longrightarrow> extends b c \<Longrightarrow> extends a c" by (simp add: extends_def)

definition id_elems :: "int32 sequence_lexicon \<Rightarrow> int32 \<Rightarrow> int32 set" where
  "id_elems lx i = (case IL_id_set lx i of None \<Rightarrow> {} | Some c \<Rightarrow> set c)"

text \<open>The sets are in the lexicon, of the given sizes, and the lexicon has room for more.\<close>

definition ids_ok :: "(int32 \<Rightarrow> nat) \<Rightarrow> int32 sequence_lexicon \<Rightarrow> int32 list \<Rightarrow> bool" where
  "ids_ok wt lx ids \<longleftrightarrow> (\<forall>i\<in>set ids. \<exists>c. IL_id_set lx i = Some c \<and> length c = wt i \<and> (\<forall>x\<in>set c. 0 \<le> sint x))"

definition room :: "int32 sequence_lexicon \<Rightarrow> nat \<Rightarrow> nat \<Rightarrow> bool" where
  "room lx w k \<longleftrightarrow> length (concat (SL_entries lx)) + w < 2 ^ 32 \<and> Suc (length (SL_entries lx) + k) < 2 ^ 31"

lemma room_less: "room lx w k \<Longrightarrow> w' \<le> w \<Longrightarrow> k' \<le> k \<Longrightarrow> room lx w' k'"
  by (simp add: room_def)

lemma ids_ok_extends: "ids_ok wt lx ids \<Longrightarrow> extends lx lx' \<Longrightarrow> ids_ok wt lx' ids"
  by (fastforce simp: ids_ok_def extends_def)

lemma ids_ok_subset: "ids_ok wt lx ids \<Longrightarrow> set ids' \<subseteq> set ids \<Longrightarrow> ids_ok wt lx ids'"
  by (auto simp: ids_ok_def)

lemma id_elems_extends: "ids_ok wt lx ids \<Longrightarrow> extends lx lx' \<Longrightarrow> i \<in> set ids \<Longrightarrow> id_elems lx' i = id_elems lx i"
  by (fastforce simp: ids_ok_def extends_def id_elems_def)

lemma those_Some: "(\<And>x. x \<in> set xs \<Longrightarrow> f x = Some (h x)) \<Longrightarrow> those (map f xs) = Some (map h xs)"
  by (induction xs) auto

lemma length_canonical_ids: "length (canonical_ids ids) \<le> length ids"
  unfolding canonical_ids_def by (metis length_sort remdups_adj_length)

abbreviation run_ids :: "nat \<Rightarrow> nat \<Rightarrow> edge_processor \<Rightarrow> int32 list" where
  "run_ids a b ep \<equiv> map (\<lambda>i. ep_input_ids ep ! (ep_out_edges ep ! i)) [a..<b]"

lemma EP_MergeInputIds_correct:
  assumes "IL_ok (ep_lexicon ep)" "ids_ok wt (ep_lexicon ep) (run_ids a b ep)"
    "room (ep_lexicon ep) (w + sum_list (map wt (run_ids a b ep))) (Suc k)"
  shows "\<exists>i lx' c. EP_MergeInputIds a b ep = Some (i, ep\<lparr>ep_lexicon := lx'\<rparr>) \<and> IL_ok lx' \<and> extends (ep_lexicon ep) lx' \<and>
    IL_id_set lx' i = Some c \<and> set c = (\<Union>j\<in>set (run_ids a b ep). id_elems (ep_lexicon ep) j) \<and> room lx' w k"
proof (cases "b - a = 1")
  case True
  then have "[a..<b] = [a]" by (simp add: upt_conv_Cons)
  moreover from this obtain c where "IL_id_set (ep_lexicon ep) (ep_input_ids ep ! (ep_out_edges ep ! a)) = Some c" using assms(2) by (auto simp: ids_ok_def)
  ultimately show ?thesis using True assms
    by (intro exI [of _ "ep_input_ids ep ! (ep_out_edges ep ! a)"] exI [of _ "ep_lexicon ep"] exI [of _ c])
      (auto simp: EP_MergeInputIds_def id_elems_def elim: room_less)
next
  case False
  let ?lx = "ep_lexicon ep" and ?rs = "run_ids a b ep"
  define cs where "cs = map (\<lambda>i. the (IL_id_set ?lx i)) ?rs"
  have c: "IL_id_set ?lx i = Some (the (IL_id_set ?lx i)) \<and> length (the (IL_id_set ?lx i)) = wt i \<and> (\<forall>x\<in>set (the (IL_id_set ?lx i)). 0 \<le> sint x)"
    if "i \<in> set ?rs" for i using assms(2) that by (fastforce simp: ids_ok_def)
  have th: "those (map (\<lambda>i. IL_id_set ?lx (ep_input_ids ep ! (ep_out_edges ep ! i))) [a..<b]) = Some cs"
    unfolding cs_def map_map o_def by (rule those_Some) (use c in simp)
  have len: "length (concat cs) = sum_list (map wt ?rs)"
    unfolding cs_def length_concat map_map o_def by (rule arg_cong [where f = sum_list]) (use c in simp)
  have nonneg: "\<forall>x\<in>set (concat cs). 0 \<le> sint x" using c by (auto simp: cs_def)
  have fit: "sets_fit (SL_entries ?lx @ [canonical_ids (concat cs)])"
    using assms(3) length_canonical_ids [of "concat cs"] len by (simp add: room_def sets_fit_def)
  from IL_Add_correct [OF assms(1) nonneg fit] obtain n lx' where lx': "IL_Add ?lx (concat cs) = Some (n, lx')" "IL_ok lx'"
    "IL_id_set lx' n = Some (canonical_ids (concat cs))" "SL_entries lx' = SL_entries ?lx \<or> SL_entries lx' = SL_entries ?lx @ [canonical_ids (concat cs)]"
    "\<forall>m c. IL_id_set ?lx m = Some c \<longrightarrow> IL_id_set lx' m = Some c" by blast
  have "room lx' w k" using lx'(4) assms(3) length_canonical_ids [of "concat cs"] len by (auto simp: room_def)
  moreover have "set (concat cs) = (\<Union>j\<in>set ?rs. id_elems ?lx j)"
  proof -
    have "id_elems ?lx i = set (the (IL_id_set ?lx i))" if "i \<in> set ?rs" for i using c [OF that] by (cases "IL_id_set ?lx i") (auto simp: id_elems_def)
    then show ?thesis by (auto simp: cs_def)
  qed
  moreover have "EP_MergeInputIds a b ep = Some (n, ep\<lparr>ep_lexicon := lx'\<rparr>)" using False th lx'(1) by (simp add: EP_MergeInputIds_def)
  ultimately show ?thesis using lx' by (intro exI [of _ n] exI [of _ lx'] exI [of _ "canonical_ids (concat cs)"]) (simp add: extends_def)
qed

section \<open>Steps\<close>

definition EP_result :: "int32 list \<Rightarrow> Edge \<Rightarrow> nat \<Rightarrow> nat \<Rightarrow> nat \<Rightarrow> edge_processor \<Rightarrow> edge_processor \<Rightarrow> bool" where
  "EP_result rs m n w k ep ep' \<longleftrightarrow> EP_frame ep ep' \<and> IL_ok (ep_lexicon ep') \<and> extends (ep_lexicon ep) (ep_lexicon ep') \<and> room (ep_lexicon ep') w k \<and>
     (\<exists>ns. ep_new_edges ep' = ep_new_edges ep @ replicate n m \<and> ep_new_input_ids ep' = ep_new_input_ids ep @ ns \<and> length ns = n \<and>
        (\<forall>i\<in>set ns. IL_id_set (ep_lexicon ep') i \<noteq> None) \<and>
        (0 < n \<longrightarrow> (\<Union>i\<in>set ns. id_elems (ep_lexicon ep') i) = (\<Union>i\<in>set rs. id_elems (ep_lexicon ep) i)))"

lemma EP_AddEdges_eq:
  "EP_AddEdges n e i ep = ep\<lparr>ep_new_edges := ep_new_edges ep @ replicate n e, ep_new_input_ids := ep_new_input_ids ep @ replicate n i\<rparr>"
  unfolding EP_AddEdges_def by (induction n) (simp_all add: EP_AddEdge_def replicate_append_same)

lemma EP_CopyEdges_eq:
  "EP_CopyEdges a b ep = ep\<lparr>ep_new_edges := ep_new_edges ep @ map (\<lambda>i. ep_edges ep ! (ep_out_edges ep ! i)) [a..<b],
     ep_new_input_ids := ep_new_input_ids ep @ run_ids a b ep\<rparr>"
proof -
  have "fold (\<lambda>i ep. EP_AddEdge (ep_edges ep ! (ep_out_edges ep ! i)) (ep_input_ids ep ! (ep_out_edges ep ! i)) ep) xs ep =
      ep\<lparr>ep_new_edges := ep_new_edges ep @ map (\<lambda>i. ep_edges ep ! (ep_out_edges ep ! i)) xs,
        ep_new_input_ids := ep_new_input_ids ep @ map (\<lambda>i. ep_input_ids ep ! (ep_out_edges ep ! i)) xs\<rparr>" for xs
    by (induction xs arbitrary: ep) (simp_all add: EP_AddEdge_def)
  then show ?thesis by (simp add: EP_CopyEdges_def)
qed

definition EP_ready :: "(int32 \<Rightarrow> nat) \<Rightarrow> nat \<Rightarrow> nat \<Rightarrow> nat \<Rightarrow> nat \<Rightarrow> edge_processor \<Rightarrow> bool" where
  "EP_ready wt a b w k ep \<longleftrightarrow> IL_ok (ep_lexicon ep) \<and> ids_ok wt (ep_lexicon ep) (run_ids a b ep) \<and>
     room (ep_lexicon ep) (w + sum_list (map wt (run_ids a b ep))) (Suc k)"

lemma EP_ready_room: "EP_ready wt a b w k ep \<Longrightarrow> room (ep_lexicon ep) w k"
  unfolding EP_ready_def by (elim conjE room_less) simp_all

lemma EP_skip_result: "EP_ready wt a b w k ep \<Longrightarrow> EP_result rs m 0 w k ep ep"
  using EP_ready_room by (auto simp: EP_result_def EP_ready_def)

lemma EP_AddMerged_result:
  assumes "EP_ready wt a b w k ep"
  shows "\<exists>ep'. EP_AddMerged n m a b ep = Some ep' \<and> EP_result (run_ids a b ep) m n w k ep ep'"
proof -
  obtain i lx' c where r: "EP_MergeInputIds a b ep = Some (i, ep\<lparr>ep_lexicon := lx'\<rparr>)" "IL_ok lx'" "extends (ep_lexicon ep) lx'"
    "IL_id_set lx' i = Some c" "set c = (\<Union>j\<in>set (run_ids a b ep). id_elems (ep_lexicon ep) j)" "room lx' w k"
    using EP_MergeInputIds_correct [of ep wt a b w k] assms unfolding EP_ready_def by blast
  then have u: "id_elems lx' i = (\<Union>j\<in>set (run_ids a b ep). id_elems (ep_lexicon ep) j)" by (simp add: id_elems_def)
  have "EP_AddMerged n m a b ep = Some (EP_AddEdges n m i (ep\<lparr>ep_lexicon := lx'\<rparr>))" using r(1) by (simp add: EP_AddMerged_def)
  moreover have "EP_result (run_ids a b ep) m n w k ep (EP_AddEdges n m i (ep\<lparr>ep_lexicon := lx'\<rparr>))"
    unfolding EP_result_def EP_AddEdges_eq using r(2-4,6) u
    by (intro conjI exI [of _ "replicate n i"]) (simp_all add: EP_frame_def)
  ultimately show ?thesis by blast
qed

lemma EP_CopyEdges_result:
  assumes "EP_ready wt a b w k ep" "\<And>i. a \<le> i \<Longrightarrow> i < b \<Longrightarrow> ep_edges ep ! (ep_out_edges ep ! i) = m"
  shows "EP_result (run_ids a b ep) m (b - a) w k ep (EP_CopyEdges a b ep)"
proof -
  have "map (\<lambda>i. ep_edges ep ! (ep_out_edges ep ! i)) [a..<b] = replicate (b - a) m"
    using assms(2) by (intro replicate_eqI) auto
  moreover have "\<forall>i\<in>set (run_ids a b ep). IL_id_set (ep_lexicon ep) i \<noteq> None" using assms(1) by (fastforce simp: EP_ready_def ids_ok_def)
  ultimately show ?thesis
    using assms(1) EP_ready_room [OF assms(1)] unfolding EP_result_def EP_CopyEdges_eq EP_ready_def
    by (intro conjI exI [of _ "run_ids a b ep"]) (simp_all add: EP_frame_def)
qed

text \<open>Copies that the code creates have no input edges.\<close>

lemma EP_CreateEdges_result:
  assumes "EP_ready wt a b w k ep" "\<And>i. a \<le> i \<Longrightarrow> i < b \<Longrightarrow> ep_edges ep ! (ep_out_edges ep ! i) = m"
  shows "EP_result (run_ids a b ep) m (b - a + d) w k ep (EP_AddEdges d m IL_EmptySetId (EP_CopyEdges a b ep))"
proof -
  have "IL_id_set (ep_lexicon ep) IL_EmptySetId = Some []"
    by (simp add: IL_id_set_def IL_EmptySetId_def kEmptySetId_def)
  then have e: "IL_id_set (ep_lexicon ep) IL_EmptySetId \<noteq> None" "id_elems (ep_lexicon ep) IL_EmptySetId = {}" by (simp_all add: id_elems_def)
  have c: "ep_lexicon (EP_CopyEdges a b ep) = ep_lexicon ep" by (simp add: EP_CopyEdges_eq)
  have "EP_result (run_ids a b ep) m (b - a) w k ep (EP_CopyEdges a b ep)" using assms by (rule EP_CopyEdges_result)
  then obtain ns where ns: "EP_frame ep (EP_CopyEdges a b ep)" "IL_ok (ep_lexicon ep)" "room (ep_lexicon ep) w k"
    "ep_new_edges (EP_CopyEdges a b ep) = ep_new_edges ep @ replicate (b - a) m" "ep_new_input_ids (EP_CopyEdges a b ep) = ep_new_input_ids ep @ ns"
    "length ns = b - a" "\<forall>i\<in>set ns. IL_id_set (ep_lexicon ep) i \<noteq> None"
    "0 < b - a \<longrightarrow> (\<Union>i\<in>set ns. id_elems (ep_lexicon ep) i) = (\<Union>i\<in>set (run_ids a b ep). id_elems (ep_lexicon ep) i)"
    unfolding EP_result_def c by (elim conjE exE) (rule that; assumption)
  have "(\<Union>i\<in>set ns. id_elems (ep_lexicon ep) i) = (\<Union>i\<in>set (run_ids a b ep). id_elems (ep_lexicon ep) i)"
    using ns(6,8) by (cases "b - a") simp_all
  then have "(\<Union>i\<in>set (ns @ replicate d IL_EmptySetId). id_elems (ep_lexicon ep) i) = (\<Union>i\<in>set (run_ids a b ep). id_elems (ep_lexicon ep) i)"
    using e(2) by (cases d) simp_all
  moreover have "\<forall>i\<in>set (ns @ replicate d IL_EmptySetId). IL_id_set (ep_lexicon ep) i \<noteq> None" using ns(7) e(1) by (simp add: ball_Un set_replicate_conv_if)
  ultimately show ?thesis
    using ns(1-6) unfolding EP_result_def EP_AddEdges_eq
    by (intro conjI exI [of _ "ns @ replicate d IL_EmptySetId"]) (simp_all add: EP_frame_def c replicate_add)
qed

section \<open>How many copies are kept\<close>

definition regular_copies :: "graph_options \<Rightarrow> nat \<Rightarrow> nat \<Rightarrow> nat" where
  "regular_copies op n_out n_in =
     (let merge = (\<lambda>n. if duplicate_edges op = DuplicateEdges_MERGE then min n 1 else n); directed = (edge_type op = DIRECTED)
      in case sibling_pairs op of
           SiblingPairs_KEEP \<Rightarrow> merge n_out
         | SiblingPairs_DISCARD \<Rightarrow> if directed then merge (n_out - n_in) else n_out mod 2
         | SiblingPairs_DISCARD_EXCESS \<Rightarrow>
             if directed then if n_out = n_in then 1 else merge (n_out - n_in) else 2 - n_out mod 2
         | _ \<Rightarrow> if directed then merge (max n_out n_in) else merge ((n_out + 1) div 2))"

definition degenerate_copies :: "graph_options \<Rightarrow> nat \<Rightarrow> bool \<Rightarrow> nat" where
  "degenerate_copies op n incident =
     (let halve = (edge_type op = UNDIRECTED \<and> sibling_pairs op \<in> {SiblingPairs_REQUIRE, SiblingPairs_CREATE})
      in case degenerate_edges op of
           DegenerateEdges_DISCARD \<Rightarrow> 0
         | DegenerateEdges_DISCARD_EXCESS \<Rightarrow> if incident then 0 else if halve \<or> edge_type op = DIRECTED then 1 else 2
         | DegenerateEdges_KEEP \<Rightarrow>
             if duplicate_edges op = DuplicateEdges_MERGE then if halve \<or> edge_type op = DIRECTED then 1 else 2
             else if halve then n div 2 else n)"

lemma EP_regular_result:
  assumes "EP_ready wt a b w k ep" "\<And>i. a \<le> i \<Longrightarrow> i < b \<Longrightarrow> ep_edges ep ! (ep_out_edges ep ! i) = m"
    "edge_type (ep_options ep) = UNDIRECTED \<longrightarrow> b - a = n_in" "0 < b - a + n_in"
  shows "\<exists>ep'. EP_regular m n_in a b ep = Some ep' \<and> EP_result (run_ids a b ep) m (regular_copies (ep_options ep) (b - a) n_in) w k ep ep'"
proof -
  let ?op = "ep_options ep" and ?n = "b - a" and ?P = "\<lambda>n ep'. EP_result (run_ids a b ep) m n w k ep ep'"
  have merged: "\<exists>ep'. EP_AddMerged n m a b ep = Some ep' \<and> ?P n ep'" for n by (rule EP_AddMerged_result [OF assms(1)])
  have copy: "?P ?n (EP_CopyEdges a b ep)" using assms(1,2) by (rule EP_CopyEdges_result)
  have create: "?P (?n + d) (EP_AddEdges d m IL_EmptySetId (EP_CopyEdges a b ep))" for d using assms(1,2) by (rule EP_CreateEdges_result)
  have skip: "?P 0 ep" by (rule EP_skip_result [OF assms(1)])
  have type: "edge_type ?op = DIRECTED \<or> edge_type ?op = UNDIRECTED \<and> ?n = n_in" using assms(3) by (cases "edge_type ?op") auto
  have rest: ?thesis if s: "sibling_pairs ?op = SiblingPairs_REQUIRE \<or> sibling_pairs ?op = SiblingPairs_CREATE"
  proof (cases "duplicate_edges ?op = DuplicateEdges_MERGE")
    case True
    have "min (max ?n n_in) 1 = 1" "edge_type ?op = UNDIRECTED \<Longrightarrow> min ((?n + 1) div 2) 1 = 1" using assms(3,4) by auto
    then have "regular_copies ?op ?n n_in = 1" using s True by (cases "edge_type ?op") (auto simp: regular_copies_def)
    then show ?thesis using s True merged [of 1] by (auto simp: EP_regular_def)
  next
    case False
    then have d: "duplicate_edges ?op = DuplicateEdges_KEEP" by (cases "duplicate_edges ?op") auto
    show ?thesis
    proof (cases "edge_type ?op = DIRECTED")
      case True
      have "?n + (n_in - ?n) = max ?n n_in" by simp
      then have "?P (max ?n n_in) (if n_in > ?n then EP_AddEdges (n_in - ?n) m IL_EmptySetId (EP_CopyEdges a b ep) else EP_CopyEdges a b ep)"
        using create [of "n_in - ?n"] copy by (cases "n_in > ?n") (simp_all add: max_def)
      then show ?thesis using s d True by (auto simp: EP_regular_def regular_copies_def Let_def)
    next
      case False
      then show ?thesis using s d type merged [of "(?n + 1) div 2"] by (auto simp: EP_regular_def regular_copies_def)
    qed
  qed
  show ?thesis
  proof (cases "sibling_pairs ?op")
    case SiblingPairs_DISCARD
    show ?thesis
    proof (cases "edge_type ?op = DIRECTED")
      case True
      show ?thesis
      proof (cases "?n \<le> n_in")
        case le: True
        then show ?thesis using SiblingPairs_DISCARD True skip by (simp add: EP_regular_def regular_copies_def)
      next
        case False
        then have "min (?n - n_in) 1 = 1" by simp
        then show ?thesis using SiblingPairs_DISCARD True False merged [of 1] merged [of "?n - n_in"]
          by (cases "duplicate_edges ?op") (simp_all add: EP_regular_def regular_copies_def)
      qed
    next
      case False
      then show ?thesis using SiblingPairs_DISCARD skip merged [of 1]
        by (cases "even ?n") (simp_all add: EP_regular_def regular_copies_def even_iff_mod_2_eq_zero odd_iff_mod_2_eq_one)
    qed
  next
    case SiblingPairs_DISCARD_EXCESS
    show ?thesis
    proof (cases "edge_type ?op = DIRECTED")
      case True
      consider "?n < n_in" | "?n = n_in" | "n_in < ?n" by linarith
      then show ?thesis
      proof cases
        case 1
        then show ?thesis using SiblingPairs_DISCARD_EXCESS True skip by (simp add: EP_regular_def regular_copies_def)
      next
        case 2
        then show ?thesis using SiblingPairs_DISCARD_EXCESS True merged [of 1]
          by (simp add: EP_regular_def regular_copies_def)
      next
        case 3
        then have "min (?n - n_in) 1 = 1" "max 1 (?n - n_in) = ?n - n_in" by simp_all
        then show ?thesis using SiblingPairs_DISCARD_EXCESS True 3 merged [of 1] merged [of "?n - n_in"]
          by (cases "duplicate_edges ?op") (simp_all add: EP_regular_def regular_copies_def)
      qed
    next
      case False
      then show ?thesis using SiblingPairs_DISCARD_EXCESS merged [of 1] merged [of 2]
        by (cases "even ?n") (simp_all add: EP_regular_def regular_copies_def even_iff_mod_2_eq_zero odd_iff_mod_2_eq_one)
    qed
  next
    case SiblingPairs_KEEP
    show ?thesis
    proof (cases "duplicate_edges ?op = DuplicateEdges_MERGE \<and> ?n > 1")
      case True
      then have "min ?n 1 = 1" by simp
      then show ?thesis using SiblingPairs_KEEP True merged [of 1] by (simp add: EP_regular_def regular_copies_def)
    next
      case False
      then have "(if duplicate_edges ?op = DuplicateEdges_MERGE then min ?n 1 else ?n) = ?n" by auto
      then show ?thesis using SiblingPairs_KEEP False copy by (auto simp: EP_regular_def regular_copies_def)
    qed
  next
    case SiblingPairs_REQUIRE
    then show ?thesis by (intro rest) simp
  next
    case SiblingPairs_CREATE
    then show ?thesis by (intro rest) simp
  qed
qed

end
