(* ===== verification/Process_Edges.thy ===== *)
theory Process_Edges
  imports Edge_Counts
begin

text \<open>
  \<open>ProcessEdges\<close> as a whole: the result is sorted, holds as many copies of each edge as the options say, and the kept copies of
  an edge have the input edges of all its copies.
\<close>

section \<open>Degenerate edges\<close>

text \<open>The neighbours of the run of a degenerate edge show whether its vertex has other edges.\<close>

lemma degenerate_neighbours:
  fixes xs :: "Edge list"
  assumes "sorted xs"
  shows "0 < below xs (v, v) \<and> fst (xs ! (below xs (v, v) - 1)) = v \<or> through xs (v, v) < length xs \<and> fst (xs ! through xs (v, v)) = v \<longleftrightarrow>
    (\<exists>x\<in>set xs. fst x = v \<and> snd x \<noteq> v)" (is "?L \<longleftrightarrow> ?R")
proof
  assume ?L
  then show ?R
  proof
    assume h: "0 < below xs (v, v) \<and> fst (xs ! (below xs (v, v) - 1)) = v"
    then have l: "below xs (v, v) - 1 < length xs" using below_le [of xs "(v, v)"] by linarith
    have "xs ! (below xs (v, v) - 1) < (v, v)" using sorted_nth_below(1) [OF assms l, of "(v, v)"] h by simp
    then have "xs ! (below xs (v, v) - 1) \<noteq> (v, v)" by auto
    with h have "snd (xs ! (below xs (v, v) - 1)) \<noteq> v" by (auto simp: prod_eq_iff)
    with h nth_mem [OF l] show ?R by (intro bexI [of _ "xs ! (below xs (v, v) - 1)"]) auto
  next
    assume h: "through xs (v, v) < length xs \<and> fst (xs ! through xs (v, v)) = v"
    then have "\<not> xs ! through xs (v, v) \<le> (v, v)" using sorted_nth_below(2) [OF assms, of "through xs (v, v)" "(v, v)"] by simp
    then have "xs ! through xs (v, v) \<noteq> (v, v)" by auto
    with h nth_mem [of "through xs (v, v)" xs] show ?R by (intro bexI [of _ "xs ! through xs (v, v)"]) (auto simp: prod_eq_iff)
  qed
next
  assume ?R
  then obtain w i where w: "i < length xs" "xs ! i = (v, w)" "w \<noteq> v" by (auto simp: in_set_conv_nth prod_eq_iff)
  show ?L
  proof (cases "w < v")
    case True
    then have i: "i < below xs (v, v)" using sorted_nth_below(1) [OF assms w(1), of "(v, v)"] w(2) by simp
    then have l: "below xs (v, v) - 1 < length xs" using below_le [of xs "(v, v)"] by linarith
    have "(v, w) \<le> xs ! (below xs (v, v) - 1)" using sorted_nth_mono [OF assms, of i "below xs (v, v) - 1"] i l w(2) by simp
    moreover have "xs ! (below xs (v, v) - 1) < (v, v)" using sorted_nth_below(1) [OF assms l, of "(v, v)"] i by simp
    ultimately have "fst (xs ! (below xs (v, v) - 1)) = v" by (cases "xs ! (below xs (v, v) - 1)") auto
    with i show ?thesis by simp
  next
    case False
    then have i: "through xs (v, v) \<le> i" using sorted_nth_below(2) [OF assms w(1), of "(v, v)"] w(2,3) by simp
    then have l: "through xs (v, v) < length xs" using w(1) by simp
    have "xs ! through xs (v, v) \<le> (v, w)" using sorted_nth_mono [OF assms i w(1)] w(2) by simp
    moreover have "\<not> xs ! through xs (v, v) \<le> (v, v)" using sorted_nth_below(2) [OF assms l, of "(v, v)"] by simp
    ultimately have "fst (xs ! through xs (v, v)) = v" by (cases "xs ! through xs (v, v)") auto
    with l show ?thesis by simp
  qed
qed

definition has_incident :: "Edge list \<Rightarrow> VertexId \<Rightarrow> bool" where
  "has_incident edges v \<longleftrightarrow> (\<exists>e\<in>set edges. fst e \<noteq> snd e \<and> (fst e = v \<or> snd e = v))"

definition EP_edge_lists :: "edge_processor \<Rightarrow> bool" where
  "EP_edge_lists ep \<longleftrightarrow> mset (EP_outs ep) = mset (ep_edges ep) \<and> mset (EP_ins ep) = mset (map reverse (ep_edges ep))"

lemma EP_degenerate_incident:
  fixes v :: nat
  assumes "EP_sorted ep" "EP_edge_lists ep"
  defines "m \<equiv> (v, v)"
  shows "(below (EP_outs ep) m > 0 \<and> fst (ep_edges ep ! (ep_out_edges ep ! (below (EP_outs ep) m - 1))) = v \<or>
      through (EP_outs ep) m < length (ep_edges ep) \<and> fst (ep_edges ep ! (ep_out_edges ep ! through (EP_outs ep) m)) = v \<or>
      below (EP_ins ep) m > 0 \<and> snd (ep_edges ep ! (ep_in_edges ep ! (below (EP_ins ep) m - 1))) = v \<or>
      through (EP_ins ep) m < length (ep_edges ep) \<and> snd (ep_edges ep ! (ep_in_edges ep ! through (EP_ins ep) m)) = v) \<longleftrightarrow>
    has_incident (ep_edges ep) v" (is "?L \<longleftrightarrow> _")
proof -
  have l: "sorted (EP_outs ep)" "sorted (EP_ins ep)" "length (EP_outs ep) = length (ep_edges ep)" "length (EP_ins ep) = length (ep_edges ep)"
    using assms(1) by (simp_all add: EP_sorted_def)
  have o: "fst (ep_edges ep ! (ep_out_edges ep ! i)) = fst (EP_outs ep ! i)" if "i < length (ep_edges ep)" for i
    using that l(3) by (simp add: EP_outs_def)
  have i: "snd (ep_edges ep ! (ep_in_edges ep ! i)) = fst (EP_ins ep ! i)" if "i < length (ep_edges ep)" for i
    using that l(4) by (simp add: EP_ins_def reverse_def)
  have b: "below (EP_outs ep) m - 1 < length (ep_edges ep)" if "below (EP_outs ep) m > 0" using that below_le [of "EP_outs ep" m] l(3) by linarith
  have c: "below (EP_ins ep) m - 1 < length (ep_edges ep)" if "below (EP_ins ep) m > 0" using that below_le [of "EP_ins ep" m] l(4) by linarith
  have "?L \<longleftrightarrow> (0 < below (EP_outs ep) m \<and> fst (EP_outs ep ! (below (EP_outs ep) m - 1)) = v \<or>
        through (EP_outs ep) m < length (EP_outs ep) \<and> fst (EP_outs ep ! through (EP_outs ep) m) = v) \<or>
      (0 < below (EP_ins ep) m \<and> fst (EP_ins ep ! (below (EP_ins ep) m - 1)) = v \<or>
        through (EP_ins ep) m < length (EP_ins ep) \<and> fst (EP_ins ep ! through (EP_ins ep) m) = v)"
    using o i b c l(3,4) by (auto simp del: One_nat_def)
  also have "\<dots> \<longleftrightarrow> (\<exists>x\<in>set (EP_outs ep). fst x = v \<and> snd x \<noteq> v) \<or> (\<exists>x\<in>set (EP_ins ep). fst x = v \<and> snd x \<noteq> v)"
    unfolding m_def using degenerate_neighbours [OF l(1), of v] degenerate_neighbours [OF l(2), of v] by simp
  also have "\<dots> \<longleftrightarrow> has_incident (ep_edges ep) v"
  proof -
    have "set (EP_outs ep) = set (ep_edges ep)" "set (EP_ins ep) = reverse ` set (ep_edges ep)"
      using assms(2) by (metis EP_edge_lists_def set_mset_mset, metis EP_edge_lists_def set_mset_mset set_map)
    then show ?thesis unfolding has_incident_def reverse_def by force
  qed
  finally show ?thesis .
qed

lemma EP_degenerate_result:
  fixes v :: nat
  assumes "EP_sorted ep" "EP_edge_lists ep" "EP_ready wt (below (EP_outs ep) (v, v)) (through (EP_outs ep) (v, v)) w k ep"
    "\<And>i. below (EP_outs ep) (v, v) \<le> i \<Longrightarrow> i < through (EP_outs ep) (v, v) \<Longrightarrow> ep_edges ep ! (ep_out_edges ep ! i) = (v, v)"
  defines "a \<equiv> below (EP_outs ep) (v, v)" and "b \<equiv> through (EP_outs ep) (v, v)"
  shows "\<exists>ep'. EP_degenerate (v, v) a b (below (EP_ins ep) (v, v)) (through (EP_ins ep) (v, v)) ep = Some ep' \<and>
    EP_result (run_ids a b ep) (v, v) (degenerate_copies (ep_options ep) (b - a) (has_incident (ep_edges ep) v)) w k ep ep'"
proof -
  let ?op = "ep_options ep" and ?P = "\<lambda>n ep'. EP_result (run_ids a b ep) (v, v) n w k ep ep'"
  have merged: "\<exists>ep'. EP_AddMerged n (v, v) a b ep = Some ep' \<and> ?P n ep'" for n
    unfolding a_def b_def by (rule EP_AddMerged_result [OF assms(3)])
  have copy: "?P (b - a) (EP_CopyEdges a b ep)" unfolding a_def b_def using assms(3,4) by (rule EP_CopyEdges_result)
  have skip: "?P 0 ep" by (rule EP_skip_result [OF assms(3)])
  have inc: "(a > 0 \<and> fst (ep_edges ep ! (ep_out_edges ep ! (a - 1))) = v \<or> b < length (ep_edges ep) \<and> fst (ep_edges ep ! (ep_out_edges ep ! b)) = v \<or>
      below (EP_ins ep) (v, v) > 0 \<and> snd (ep_edges ep ! (ep_in_edges ep ! (below (EP_ins ep) (v, v) - 1))) = v \<or>
      through (EP_ins ep) (v, v) < length (ep_edges ep) \<and> snd (ep_edges ep ! (ep_in_edges ep ! through (EP_ins ep) (v, v))) = v) =
    has_incident (ep_edges ep) v"
    unfolding a_def b_def by (rule EP_degenerate_incident [OF assms(1,2)])
  have two: "edge_type ?op = DIRECTED \<or> edge_type ?op = UNDIRECTED" by (cases "edge_type ?op") auto
  show ?thesis
  proof (cases "degenerate_edges ?op")
    case DegenerateEdges_DISCARD
    then show ?thesis using skip by (simp add: EP_degenerate_def degenerate_copies_def)
  next
    case DegenerateEdges_DISCARD_EXCESS
    show ?thesis
    proof (cases "has_incident (ep_edges ep) v")
      case True
      then show ?thesis using DegenerateEdges_DISCARD_EXCESS skip inc by (simp add: EP_degenerate_def degenerate_copies_def)
    next
      case False
      show ?thesis
        using DegenerateEdges_DISCARD_EXCESS inc False two merged [of 1] merged [of 2]
        by (auto simp: EP_degenerate_def degenerate_copies_def)
    qed
  next
    case DegenerateEdges_KEEP
    show ?thesis
    proof (cases "duplicate_edges ?op")
      case DuplicateEdges_MERGE
      then show ?thesis using DegenerateEdges_KEEP two merged [of 1] merged [of 2] by (auto simp: EP_degenerate_def degenerate_copies_def)
    next
      case DuplicateEdges_KEEP
      show ?thesis
      proof (cases "edge_type ?op = UNDIRECTED \<and> (sibling_pairs ?op = SiblingPairs_REQUIRE \<or> sibling_pairs ?op = SiblingPairs_CREATE)")
        case True
        then show ?thesis using DuplicateEdges_KEEP DegenerateEdges_KEEP merged [of "(b - a) div 2"] by (auto simp: EP_degenerate_def degenerate_copies_def)
      next
        case False
        then have "degenerate_copies ?op (b - a) (has_incident (ep_edges ep) v) = b - a"
          using DuplicateEdges_KEEP DegenerateEdges_KEEP by (auto simp: degenerate_copies_def)
        moreover have "EP_degenerate (v, v) a b (below (EP_ins ep) (v, v)) (through (EP_ins ep) (v, v)) ep =
            (if sibling_pairs ?op = SiblingPairs_DISCARD \<or> sibling_pairs ?op = SiblingPairs_DISCARD_EXCESS then EP_AddMerged (b - a) (v, v) a b ep
             else Some (EP_CopyEdges a b ep))"
          using DuplicateEdges_KEEP DegenerateEdges_KEEP False
          by (cases "edge_type ?op"; cases "sibling_pairs ?op") (simp_all add: EP_degenerate_def Let_def)
        ultimately show ?thesis using merged [of "b - a"] copy by simp
      qed
    qed
  qed
qed

section \<open>One edge\<close>

definition kept_copies :: "graph_options \<Rightarrow> Edge list \<Rightarrow> Edge \<Rightarrow> nat" where
  "kept_copies op edges e =
     (let n_out = count_list edges e; n_in = count_list edges (reverse e)
      in if n_out = 0 \<and> n_in = 0 then 0
         else if fst e = snd e then degenerate_copies op n_out (has_incident edges (fst e))
         else regular_copies op n_out n_in)"

definition sibling_missing :: "graph_options \<Rightarrow> Edge list \<Rightarrow> Edge \<Rightarrow> bool" where
  "sibling_missing op edges e \<longleftrightarrow> fst e \<noteq> snd e \<and>
     (if edge_type op = DIRECTED then count_list edges e \<noteq> count_list edges (reverse e) else odd (count_list edges e))"

definition both_directions :: "graph_options \<Rightarrow> Edge list \<Rightarrow> bool" where
  "both_directions op edges \<longleftrightarrow> (edge_type op = UNDIRECTED \<longrightarrow> (\<forall>e. count_list edges e = count_list edges (reverse e)))"

definition EP_run_of :: "edge_processor \<Rightarrow> Edge \<Rightarrow> int32 list" where
  "EP_run_of ep m = run_ids (below (EP_outs ep) m) (through (EP_outs ep) m) ep"

lemma EP_frame_run_of: "EP_frame ep ep' \<Longrightarrow> EP_run_of ep' m = EP_run_of ep m"
  by (simp add: EP_frame_def EP_run_of_def EP_outs_def)

lemma EP_frame_edge_lists: "EP_frame ep ep' \<Longrightarrow> EP_edge_lists ep' = EP_edge_lists ep"
  by (simp add: EP_frame_def EP_edge_lists_def EP_outs_def EP_ins_def)

lemma count_list_mset: "count_list xs x = count (mset xs) x"
  by (induction xs) auto

lemma reverse_reverse [simp]: "reverse (reverse e) = e"
  by (simp add: reverse_def)

lemma count_list_reverse: "count_list (map reverse xs) e = count_list xs (reverse e)"
proof (induction xs)
  case (Cons x xs)
  have "reverse x = e \<longleftrightarrow> x = reverse e" by (metis reverse_reverse)
  with Cons show ?case by simp
qed simp

lemma EP_counts:
  assumes "EP_edge_lists ep"
  shows "count_list (EP_outs ep) m = count_list (ep_edges ep) m" "count_list (EP_ins ep) m = count_list (ep_edges ep) (reverse m)"
proof -
  show "count_list (EP_outs ep) m = count_list (ep_edges ep) m" using assms by (simp add: count_list_mset EP_edge_lists_def)
  have "count_list (EP_ins ep) m = count_list (map reverse (ep_edges ep)) m" using assms unfolding count_list_mset EP_edge_lists_def by metis
  then show "count_list (EP_ins ep) m = count_list (ep_edges ep) (reverse m)" by (simp add: count_list_reverse)
qed

lemma EP_run_lengths:
  assumes "EP_edge_lists ep"
  shows "through (EP_outs ep) m - below (EP_outs ep) m = count_list (ep_edges ep) m"
    "through (EP_ins ep) m - below (EP_ins ep) m = count_list (ep_edges ep) (reverse m)"
  using EP_counts [OF assms] by (simp_all add: through_below)

lemma EP_run_edges:
  assumes "EP_sorted ep" "below (EP_outs ep) m \<le> i" "i < through (EP_outs ep) m"
  shows "ep_edges ep ! (ep_out_edges ep ! i) = m"
proof -
  have s: "sorted (EP_outs ep)" using assms(1) by (simp add: EP_sorted_def)
  have l: "i < length (EP_outs ep)" using assms(3) through_le [of "EP_outs ep" m] by linarith
  from sorted_nth_run [OF s l, of m] assms(2,3) have "EP_outs ep ! i = m" by simp
  with l show ?thesis by (simp add: EP_outs_def)
qed

lemma EP_visit_result:
  assumes "EP_sorted ep" "EP_edge_lists ep" "both_directions (ep_options ep) (ep_edges ep)" "m \<in> set (EP_outs ep) \<union> set (EP_ins ep)"
    "IL_ok (ep_lexicon ep)" "ids_ok wt (ep_lexicon ep) (EP_run_of ep m)" "room (ep_lexicon ep) (w + sum_list (map wt (EP_run_of ep m))) (Suc k)"
  shows "\<exists>ep'. EP_visit (EP_outs ep) (EP_ins ep) m (ep, err) =
      Some (ep', if err = None \<and> sibling_pairs (ep_options ep) = SiblingPairs_REQUIRE \<and> sibling_missing (ep_options ep) (ep_edges ep) m
                 then Some BUILDER_MISSING_EXPECTED_SIBLING_EDGES else err) \<and>
    EP_result (EP_run_of ep m) m (kept_copies (ep_options ep) (ep_edges ep) m) w k ep ep'"
proof -
  let ?a = "below (EP_outs ep) m" and ?b = "through (EP_outs ep) m" and ?c = "below (EP_ins ep) m" and ?d = "through (EP_ins ep) m"
  have ready: "EP_ready wt ?a ?b w k ep" using assms(5-7) unfolding EP_ready_def EP_run_of_def by (intro conjI)
  note edges = EP_run_edges [OF assms(1)]
  note len = EP_run_lengths [OF assms(2)]
  have pos: "0 < count_list (ep_edges ep) m + count_list (ep_edges ep) (reverse m)"
  proof -
    have "count_list (EP_outs ep) m \<noteq> 0 \<or> count_list (EP_ins ep) m \<noteq> 0" using assms(4) by (simp add: count_list_0_iff)
    then show ?thesis using EP_counts [OF assms(2), of m] by linarith
  qed
  then have np: "\<not> (count_list (ep_edges ep) m = 0 \<and> count_list (ep_edges ep) (reverse m) = 0)" by simp
  show ?thesis
  proof (cases "fst m = snd m")
    case True
    then obtain v where v: "m = (v, v)" by (cases m) auto
    have "\<exists>ep'. EP_degenerate (v, v) ?a ?b ?c ?d ep = Some ep' \<and>
        EP_result (run_ids ?a ?b ep) (v, v) (degenerate_copies (ep_options ep) (?b - ?a) (has_incident (ep_edges ep) v)) w k ep ep'"
      using EP_degenerate_result [of ep wt v w k] assms(1,2) ready edges unfolding v by blast
    then obtain ep' where ep': "EP_degenerate (v, v) ?a ?b ?c ?d ep = Some ep'"
      "EP_result (run_ids ?a ?b ep) (v, v) (degenerate_copies (ep_options ep) (?b - ?a) (has_incident (ep_edges ep) v)) w k ep ep'" by blast
    have "kept_copies (ep_options ep) (ep_edges ep) m = degenerate_copies (ep_options ep) (?b - ?a) (has_incident (ep_edges ep) v)"
      unfolding kept_copies_def Let_def if_not_P [OF np] using len(1) [of m] v by simp
    moreover have "EP_visit (EP_outs ep) (EP_ins ep) m (ep, err) = Some (ep', err)" using ep'(1) v by (simp add: EP_visit_def EP_step_def)
    moreover have "\<not> sibling_missing (ep_options ep) (ep_edges ep) m" using True by (simp add: sibling_missing_def)
    ultimately show ?thesis using ep'(2) unfolding EP_run_of_def v by (intro exI [of _ ep']) simp
  next
    case False
    have "edge_type (ep_options ep) = UNDIRECTED \<longrightarrow> ?b - ?a = ?d - ?c" using assms(3) unfolding both_directions_def len by blast
    moreover have "0 < ?b - ?a + (?d - ?c)" using pos len by simp
    ultimately have "\<exists>ep'. EP_regular m (?d - ?c) ?a ?b ep = Some ep' \<and> EP_result (run_ids ?a ?b ep) m (regular_copies (ep_options ep) (?b - ?a) (?d - ?c)) w k ep ep'"
      by (intro EP_regular_result [OF ready] edges)
    then obtain ep' where ep': "EP_regular m (?d - ?c) ?a ?b ep = Some ep'"
      "EP_result (run_ids ?a ?b ep) m (regular_copies (ep_options ep) (?b - ?a) (?d - ?c)) w k ep ep'" by blast
    have "kept_copies (ep_options ep) (ep_edges ep) m = regular_copies (ep_options ep) (?b - ?a) (?d - ?c)"
      unfolding kept_copies_def Let_def if_not_P [OF np] using len [of m] False by simp
    moreover have "ep_options ep' = ep_options ep" using ep'(2) by (simp add: EP_result_def EP_frame_def)
    then have "EP_visit (EP_outs ep) (EP_ins ep) m (ep, err) = Some (ep', EP_check (ep_options ep) (?b - ?a) (?d - ?c) err)"
      using ep'(1) False by (simp add: EP_visit_def EP_step_def)
    ultimately show ?thesis using ep'(2) False len unfolding EP_run_of_def by (intro exI [of _ ep']) (simp add: EP_check_def sibling_missing_def)
  qed
qed

section \<open>All edges\<close>

lemma EP_visits_result:
  assumes "EP_sorted ep" "EP_edge_lists ep" "both_directions (ep_options ep) (ep_edges ep)" "set ms \<subseteq> set (EP_outs ep) \<union> set (EP_ins ep)"
    "IL_ok (ep_lexicon ep)" "\<forall>m\<in>set ms. ids_ok wt (ep_lexicon ep) (EP_run_of ep m)"
    "room (ep_lexicon ep) (sum_list (map (\<lambda>m. sum_list (map wt (EP_run_of ep m))) ms)) (length ms)"
  shows "\<exists>ep' nss. EP_visits (EP_outs ep) (EP_ins ep) ms (ep, err) =
      Some (ep', if err = None \<and> sibling_pairs (ep_options ep) = SiblingPairs_REQUIRE \<and> (\<exists>m\<in>set ms. sibling_missing (ep_options ep) (ep_edges ep) m)
                 then Some BUILDER_MISSING_EXPECTED_SIBLING_EDGES else err) \<and>
    EP_frame ep ep' \<and> IL_ok (ep_lexicon ep') \<and> extends (ep_lexicon ep) (ep_lexicon ep') \<and>
    ep_new_edges ep' = ep_new_edges ep @ concat (map (\<lambda>m. replicate (kept_copies (ep_options ep) (ep_edges ep) m) m) ms) \<and>
    ep_new_input_ids ep' = ep_new_input_ids ep @ concat nss \<and>
    list_all2 (\<lambda>m ns. length ns = kept_copies (ep_options ep) (ep_edges ep) m \<and> (\<forall>i\<in>set ns. IL_id_set (ep_lexicon ep') i \<noteq> None) \<and>
        (ns \<noteq> [] \<longrightarrow> (\<Union>i\<in>set ns. id_elems (ep_lexicon ep') i) = (\<Union>i\<in>set (EP_run_of ep m). id_elems (ep_lexicon ep) i))) ms nss"
  using assms
proof (induction ms arbitrary: ep err)
  case Nil
  then show ?case by (intro exI [of _ ep] exI [of _ "[]"]) simp
next
  case (Cons m ms)
  let ?op = "ep_options ep" and ?edges = "ep_edges ep" and ?outs = "EP_outs ep" and ?ins = "EP_ins ep"
  let ?w = "\<lambda>ms. sum_list (map (\<lambda>m. sum_list (map wt (EP_run_of ep m))) ms)"
  define err1 where "err1 = (if err = None \<and> sibling_pairs ?op = SiblingPairs_REQUIRE \<and> sibling_missing ?op ?edges m
      then Some BUILDER_MISSING_EXPECTED_SIBLING_EDGES else err)"
  have "\<exists>ep1. EP_visit ?outs ?ins m (ep, err) = Some (ep1, err1) \<and>
      EP_result (EP_run_of ep m) m (kept_copies ?op ?edges m) (?w ms) (length ms) ep ep1"
    unfolding err1_def
  proof (rule EP_visit_result [OF Cons.prems(1-3)])
    show "m \<in> set ?outs \<union> set ?ins" using Cons.prems(4) by simp
    show "IL_ok (ep_lexicon ep)" by (rule Cons.prems(5))
    show "ids_ok wt (ep_lexicon ep) (EP_run_of ep m)" using Cons.prems(6) by simp
    show "room (ep_lexicon ep) (?w ms + sum_list (map wt (EP_run_of ep m))) (Suc (length ms))" using Cons.prems(7) by (simp add: add.commute)
  qed
  then obtain ep1 where ep1: "EP_visit ?outs ?ins m (ep, err) = Some (ep1, err1)"
    "EP_result (EP_run_of ep m) m (kept_copies ?op ?edges m) (?w ms) (length ms) ep ep1" by blast
  from ep1(2) obtain ns where ns: "EP_frame ep ep1" "IL_ok (ep_lexicon ep1)" "extends (ep_lexicon ep) (ep_lexicon ep1)" "room (ep_lexicon ep1) (?w ms) (length ms)"
    "ep_new_edges ep1 = ep_new_edges ep @ replicate (kept_copies ?op ?edges m) m" "ep_new_input_ids ep1 = ep_new_input_ids ep @ ns"
    "length ns = kept_copies ?op ?edges m" "\<forall>i\<in>set ns. IL_id_set (ep_lexicon ep1) i \<noteq> None"
    "0 < kept_copies ?op ?edges m \<longrightarrow> (\<Union>i\<in>set ns. id_elems (ep_lexicon ep1) i) = (\<Union>i\<in>set (EP_run_of ep m). id_elems (ep_lexicon ep) i)"
    unfolding EP_result_def by (elim conjE exE) (rule that; assumption)
  have f: "EP_outs ep1 = ?outs" "EP_ins ep1 = ?ins" "EP_sorted ep1" "EP_edge_lists ep1" "ep_options ep1 = ?op" "ep_edges ep1 = ?edges"
    "\<And>m. EP_run_of ep1 m = EP_run_of ep m"
    using EP_frame_lists [OF ns(1)] EP_frame_edge_lists [OF ns(1)] EP_frame_run_of [OF ns(1)] Cons.prems(1,2) ns(1) by (simp_all add: EP_frame_def)
  define err2 where "err2 = (if err1 = None \<and> sibling_pairs ?op = SiblingPairs_REQUIRE \<and> (\<exists>m\<in>set ms. sibling_missing ?op ?edges m)
      then Some BUILDER_MISSING_EXPECTED_SIBLING_EDGES else err1)"
  have i1: "both_directions (ep_options ep1) (ep_edges ep1)" using Cons.prems(3) f(5,6) by simp
  have i2: "set ms \<subseteq> set (EP_outs ep1) \<union> set (EP_ins ep1)" using Cons.prems(4) f(1,2) by simp
  have ids: "ids_ok wt (ep_lexicon ep) (EP_run_of ep k)" if "k \<in> set ms" for k using Cons.prems(6) that by simp
  have i3: "\<forall>k\<in>set ms. ids_ok wt (ep_lexicon ep1) (EP_run_of ep1 k)"
    using ids_ok_extends [OF ids ns(3)] by (simp add: f(7))
  have i4: "room (ep_lexicon ep1) (sum_list (map (\<lambda>m. sum_list (map wt (EP_run_of ep1 m))) ms)) (length ms)" using ns(4) by (simp only: f(7))
  from Cons.IH [OF f(3,4) i1 i2 ns(2) i3 i4, of err1, unfolded f err2_def [symmetric]] obtain ep2 nss where
    ep2: "EP_visits ?outs ?ins ms (ep1, err1) = Some (ep2, err2)"
    "EP_frame ep1 ep2" "IL_ok (ep_lexicon ep2)" "extends (ep_lexicon ep1) (ep_lexicon ep2)"
    "ep_new_edges ep2 = ep_new_edges ep1 @ concat (map (\<lambda>m. replicate (kept_copies ?op ?edges m) m) ms)"
    "ep_new_input_ids ep2 = ep_new_input_ids ep1 @ concat nss"
    "list_all2 (\<lambda>m ns. length ns = kept_copies ?op ?edges m \<and> (\<forall>i\<in>set ns. IL_id_set (ep_lexicon ep2) i \<noteq> None) \<and>
        (ns \<noteq> [] \<longrightarrow> (\<Union>i\<in>set ns. id_elems (ep_lexicon ep2) i) = (\<Union>i\<in>set (EP_run_of ep m). id_elems (ep_lexicon ep1) i))) ms nss"
    by (elim conjE exE) (rule that; assumption)
  have old: "id_elems (ep_lexicon ep1) i = id_elems (ep_lexicon ep) i" if "k \<in> set ms" "i \<in> set (EP_run_of ep k)" for k i
    by (rule id_elems_extends [OF ids [OF that(1)] ns(3) that(2)])
  have new: "id_elems (ep_lexicon ep2) i = id_elems (ep_lexicon ep1) i \<and> IL_id_set (ep_lexicon ep2) i \<noteq> None" if "i \<in> set ns" for i
    using ns(8) that ep2(4) by (fastforce simp: id_elems_def extends_def)
  have "list_all2 (\<lambda>m ns. length ns = kept_copies ?op ?edges m \<and> (\<forall>i\<in>set ns. IL_id_set (ep_lexicon ep2) i \<noteq> None) \<and>
      (ns \<noteq> [] \<longrightarrow> (\<Union>i\<in>set ns. id_elems (ep_lexicon ep2) i) = (\<Union>i\<in>set (EP_run_of ep m). id_elems (ep_lexicon ep) i))) (m # ms) (ns # nss)"
  proof (rule list_all2_Cons [THEN iffD2], intro conjI impI ballI)
    show "length ns = kept_copies ?op ?edges m" by (rule ns(7))
    show "IL_id_set (ep_lexicon ep2) i \<noteq> None" if "i \<in> set ns" for i using new [OF that] by simp
    show "(\<Union>i\<in>set ns. id_elems (ep_lexicon ep2) i) = (\<Union>i\<in>set (EP_run_of ep m). id_elems (ep_lexicon ep) i)" if "ns \<noteq> []"
    proof -
      have "0 < kept_copies ?op ?edges m" using that by (simp flip: ns(7))
      then show ?thesis using ns(9) new by simp
    qed
    show "list_all2 (\<lambda>m ns. length ns = kept_copies ?op ?edges m \<and> (\<forall>i\<in>set ns. IL_id_set (ep_lexicon ep2) i \<noteq> None) \<and>
      (ns \<noteq> [] \<longrightarrow> (\<Union>i\<in>set ns. id_elems (ep_lexicon ep2) i) = (\<Union>i\<in>set (EP_run_of ep m). id_elems (ep_lexicon ep) i))) ms nss"
      using ep2(7) by (rule list.rel_mono_strong) (use old in simp)
  qed
  moreover have "err2 = (if err = None \<and> sibling_pairs ?op = SiblingPairs_REQUIRE \<and> (\<exists>k\<in>set (m # ms). sibling_missing ?op ?edges k)
      then Some BUILDER_MISSING_EXPECTED_SIBLING_EDGES else err)" by (simp add: err2_def err1_def)
  moreover have "EP_visits ?outs ?ins (m # ms) (ep, err) = Some (ep2, err2)" using ep1(1) ep2(1) by simp
  moreover have "EP_frame ep ep2" "extends (ep_lexicon ep) (ep_lexicon ep2)" using ns(1,3) ep2(2,4) EP_frame_trans extends_trans by blast+
  moreover have "ep_new_edges ep2 = ep_new_edges ep @ concat (map (\<lambda>m. replicate (kept_copies ?op ?edges m) m) (m # ms))"
    "ep_new_input_ids ep2 = ep_new_input_ids ep @ concat (ns # nss)" using ns(5,6) ep2(5,6) by simp_all
  ultimately show ?case using ep2(3) by (intro exI [of _ ep2] exI [of _ "ns # nss"]) simp
qed

section \<open>The initial state\<close>

lemma mset_map_ids:
  assumes "mset ids = mset [0..<length xs]"
  shows "mset (map (\<lambda>i. f (xs ! i)) ids) = mset (map f xs)"
proof -
  have "mset (map (\<lambda>i. f (xs ! i)) ids) = image_mset (\<lambda>i. f (xs ! i)) (mset [0..<length xs])" by (simp only: mset_map assms)
  also have "\<dots> = mset (map (\<lambda>i. f (xs ! i)) [0..<length xs])" by (simp only: mset_map)
  also have "map (\<lambda>i. f (xs ! i)) [0..<length xs] = map f xs" by (rule nth_equalityI) auto
  finally show ?thesis .
qed

lemma EP_new_lists:
  "EP_outs (EP_new op edges ids lx) = sort edges" "EP_ins (EP_new op edges ids lx) = sort (map reverse edges)"
proof -
  have "sorted (EP_outs (EP_new op edges ids lx))" "mset (EP_outs (EP_new op edges ids lx)) = mset edges"
    using sort_ids(6) [of "\<lambda>i. edges ! i" "length edges"] mset_map_ids [OF sort_ids(1) [of "\<lambda>i. edges ! i" "length edges"], of "\<lambda>e. e"]
    by (simp_all add: EP_outs_def EP_new_def)
  then show "EP_outs (EP_new op edges ids lx) = sort edges" using properties_for_sort [of "EP_outs (EP_new op edges ids lx)" edges] by simp
  have "sorted (EP_ins (EP_new op edges ids lx))" "mset (EP_ins (EP_new op edges ids lx)) = mset (map reverse edges)"
    using sort_ids(6) [of "\<lambda>i. reverse (edges ! i)" "length edges"] mset_map_ids [OF sort_ids(1) [of "\<lambda>i. reverse (edges ! i)" "length edges"], of reverse]
    by (simp_all add: EP_ins_def EP_new_def)
  then show "EP_ins (EP_new op edges ids lx) = sort (map reverse edges)" using properties_for_sort [of "EP_ins (EP_new op edges ids lx)" "map reverse edges"] by simp
qed

definition edge_inputs :: "int32 sequence_lexicon \<Rightarrow> Edge list \<Rightarrow> int32 list \<Rightarrow> Edge \<Rightarrow> int32 set" where
  "edge_inputs lx edges ids e = (\<Union>(e', i)\<in>set (zip edges ids). if e' = e then id_elems lx i else {})"

lemma EP_new_run_of:
  assumes "length ids = length edges"
  shows "set (EP_run_of (EP_new op edges ids lx) m) = {i. (m, i) \<in> set (zip edges ids)}"
proof -
  let ?ep = "EP_new op edges ids lx" and ?s = "sort_by (\<lambda>a b. StableLessThan (edges ! a) (edges ! b) a b) [0..<length edges]"
  have s: "length ?s = length edges" "set ?s = {..<length edges}" by auto
  have o: "EP_outs ?ep = map ((!) edges) ?s" by (simp add: EP_outs_def EP_new_def)
  have srt: "sorted (EP_outs ?ep)" by (simp add: EP_new_lists)
  have run: "below (EP_outs ?ep) m \<le> p \<and> p < through (EP_outs ?ep) m \<longleftrightarrow> p < length edges \<and> edges ! (?s ! p) = m" for p
  proof (cases "p < length edges")
    case True
    then show ?thesis using sorted_nth_run [OF srt, of p m] o s(1) by auto
  next
    case False
    then show ?thesis using through_le [of "EP_outs ?ep" m] o s(1) by auto
  qed
  have "set (EP_run_of ?ep m) = (\<lambda>p. ids ! (?s ! p)) ` {p. below (EP_outs ?ep) m \<le> p \<and> p < through (EP_outs ?ep) m}"
    by (auto simp: EP_run_of_def EP_new_def)
  also have "\<dots> = (\<lambda>p. ids ! (?s ! p)) ` {p. p < length edges \<and> edges ! (?s ! p) = m}" by (simp only: run)
  also have "\<dots> = (\<lambda>k. ids ! k) ` {k. k \<in> set ?s \<and> edges ! k = m}" using s(1) by (auto simp: in_set_conv_nth simp del: set_sort_by)
  also have "\<dots> = {i. (m, i) \<in> set (zip edges ids)}" using s(2) assms by (auto simp: set_zip)
  finally show ?thesis .
qed

end
