(* ===== verification/Process_Result.thy ===== *)
theory Process_Result
  imports Process_Edges
begin

text \<open>The lists \<open>EdgeProcessor::Run\<close> leaves, read off the visits of \<open>Process_Edges\<close>.\<close>

section \<open>The weight of all runs\<close>

lemma below_least:
  fixes m :: "'a::linorder"
  assumes "sorted_wrt (<) (m # ms)" "set xs \<subseteq> set (m # ms)"
  shows "below xs m = 0"
proof -
  have "\<not> x < m" if "x \<in> set xs" for x
  proof -
    have "x = m \<or> m < x" using assms that by auto
    then show ?thesis by auto
  qed
  then show ?thesis by (simp add: below_def filter_empty_conv)
qed

lemma concat_all_runs:
  fixes xs :: "'a::linorder list"
  assumes ms: "sorted_wrt (<) ms" and sub: "set xs \<subseteq> set ms"
  shows "concat (map (\<lambda>m. [below xs m..<through xs m]) ms) = [0..<length xs]"
proof -
  have "\<forall>x\<in>set xs. x \<in> set ms \<or> (\<forall>k\<in>set ms. x < k)" using sub by blast
  note c = concat_runs [OF ms this]
  show ?thesis
  proof (cases ms)
    case Nil
    then show ?thesis using sub by simp
  next
    case (Cons m ms')
    have "below xs m = 0" by (rule below_least [OF ms [unfolded Cons] sub [unfolded Cons]])
    then show ?thesis using c Cons by simp
  qed
qed

lemma sum_list_runs:
  fixes g :: "nat \<Rightarrow> nat"
  shows "sum_list (map (\<lambda>m. sum_list (map g [a m..<b m])) ms) = sum_list (map g (concat (map (\<lambda>m. [a m..<b m]) ms)))"
  by (induction ms) simp_all

lemma sum_list_positions:
  fixes g :: "'a \<Rightarrow> nat"
  assumes "length ids = length s" "mset s = mset [0..<length s]"
  shows "sum_list (map (\<lambda>p. g (ids ! (s ! p))) [0..<length s]) = sum_list (map g ids)"
proof -
  have "map (\<lambda>p. g (ids ! (s ! p))) [0..<length s] = map (\<lambda>k. g (ids ! k)) s" by (rule nth_equalityI) simp_all
  moreover have "mset (map (\<lambda>k. g (ids ! k)) s) = mset (map g ids)" by (rule mset_map_ids) (simp only: assms)
  then have "sum_mset (mset (map (\<lambda>k. g (ids ! k)) s)) = sum_mset (mset (map g ids))" by (simp only:)
  then have "sum_list (map (\<lambda>k. g (ids ! k)) s) = sum_list (map g ids)" by (simp only: sum_mset_sum_list)
  ultimately show ?thesis by (simp only:)
qed

lemma EP_run_of_new:
  "map g (EP_run_of (EP_new op edges ids lx) m) =
    map (\<lambda>p. g (ids ! (sort_by (\<lambda>a b. StableLessThan (edges ! a) (edges ! b) a b) [0..<length edges] ! p)))
      [below (sort edges) m..<through (sort edges) m]"
proof -
  have "EP_run_of (EP_new op edges ids lx) m =
      run_ids (below (sort edges) m) (through (sort edges) m) (EP_new op edges ids lx)" by (simp only: EP_run_of_def EP_new_lists)
  then show ?thesis by (simp add: EP_new_def)
qed

lemma EP_new_weights:
  fixes wt :: "int32 \<Rightarrow> nat"
  assumes "length ids = length edges" "sorted_wrt (<) ms" "set edges \<subseteq> set ms"
  shows "sum_list (map (\<lambda>m. sum_list (map wt (EP_run_of (EP_new op edges ids lx) m))) ms) = sum_list (map wt ids)"
proof -
  define s where "s = sort_by (\<lambda>a b. StableLessThan (edges ! a) (edges ! b) a b) [0..<length edges]"
  have ls: "length s = length edges" by (simp add: s_def)
  have "mset s = mset [0..<length s]" unfolding ls unfolding s_def by (rule sort_ids(1))
  moreover have "length ids = length s" using assms(1) ls by simp
  ultimately have p: "sum_list (map (\<lambda>p. wt (ids ! (s ! p))) [0..<length s]) = sum_list (map wt ids)" by (rule sum_list_positions [rotated])
  have c: "concat (map (\<lambda>m. [below (sort edges) m..<through (sort edges) m]) ms) = [0..<length s]"
    using concat_all_runs [OF assms(2), of "sort edges"] assms(3) ls by simp
  show ?thesis unfolding EP_run_of_new s_def [symmetric] sum_list_runs c by (rule p)
qed

section \<open>The result\<close>

lemma sorted_replicates: "sorted_wrt (<) ms \<Longrightarrow> sorted (concat (map (\<lambda>m. replicate (k m) m) ms))"
proof (induction ms)
  case (Cons m ms)
  then show ?case by (auto simp: sorted_append)
qed simp

lemma count_replicates: "distinct ms \<Longrightarrow> count_list (concat (map (\<lambda>m. replicate (k m) m) ms)) e = (if e \<in> set ms then k e else 0)"
proof (induction ms)
  case (Cons m ms)
  have "count_list (replicate n m) e = (if e = m then n else 0)" for n by (induction n) auto
  with Cons show ?case by (auto simp: count_list_append)
qed simp

lemma zip_replicates:
  assumes "list_all2 (\<lambda>m ns. length ns = k m) ms nss"
  shows "length (concat (map (\<lambda>m. replicate (k m) m) ms)) = length (concat nss) \<and>
    (distinct ms \<longrightarrow> (\<forall>j<length ms. {i. (ms ! j, i) \<in> set (zip (concat (map (\<lambda>m. replicate (k m) m) ms)) (concat nss))} = set (nss ! j)))"
  using assms
proof (induction ms nss rule: list_all2_induct)
  case (Cons m ms ns nss)
  have z: "zip (concat (map (\<lambda>m. replicate (k m) m) (m # ms))) (concat (ns # nss)) =
      map (Pair m) ns @ zip (concat (map (\<lambda>m. replicate (k m) m) ms)) (concat nss)"
  proof -
    have "zip (replicate (k m) m) ns = map (Pair m) ns" using Cons.hyps(1) by (metis zip_replicate1 order_refl take_all)
    then show ?thesis using Cons.hyps(1) by (simp add: zip_append1)
  qed
  have f: "fst p \<in> set ms" if "p \<in> set (zip (concat (map (\<lambda>m. replicate (k m) m) ms)) (concat nss))" for p
  proof -
    obtain a b where p: "p = (a, b)" by (cases p)
    with that have "a \<in> set (concat (map (\<lambda>m. replicate (k m) m) ms))" by (auto dest: set_zip_leftD simp del: set_concat)
    with p show ?thesis by auto
  qed
  show ?case
  proof (intro conjI impI allI)
    show "length (concat (map (\<lambda>m. replicate (k m) m) (m # ms))) = length (concat (ns # nss))" using Cons by simp
    fix j assume d: "distinct (m # ms)" and j: "j < length (m # ms)"
    show "{i. ((m # ms) ! j, i) \<in> set (zip (concat (map (\<lambda>m. replicate (k m) m) (m # ms))) (concat (ns # nss)))} = set ((ns # nss) ! j)"
    proof (cases j)
      case 0
      then show ?thesis unfolding z using d f by fastforce
    next
      case (Suc j')
      then have "ms ! j' \<noteq> m" using d j by (auto simp: in_set_conv_nth)
      moreover have "{i. (ms ! j', i) \<in> set (zip (concat (map (\<lambda>m. replicate (k m) m) ms)) (concat nss))} = set (nss ! j')"
        using Cons.IH d j Suc by simp
      ultimately show ?thesis unfolding z using Suc by auto
    qed
  qed
qed simp

definition set_size :: "int32 sequence_lexicon \<Rightarrow> int32 \<Rightarrow> nat" where
  "set_size lx i = length (the (IL_id_set lx i))"

text \<open>What \<open>ProcessEdges\<close> needs: vertex ids below the sentinel, both directions of undirected edges, and sets of non-negative
  input edge ids in a lexicon that has room for the merged ones.\<close>

definition process_input :: "graph_options \<Rightarrow> Edge list \<Rightarrow> int32 list \<Rightarrow> int32 sequence_lexicon \<Rightarrow> bool" where
  "process_input op edges ids lx \<longleftrightarrow> length ids = length edges \<and> (\<forall>e\<in>set edges. fst e < max_vertex_id \<and> snd e < max_vertex_id) \<and>
     both_directions op edges \<and> IL_ok lx \<and> ids_ok (set_size lx) lx ids \<and>
     room lx (sum_list (map (set_size lx) ids)) (2 * length edges)"

lemma UN_pairs: "(\<Union>(k, i)\<in>S. if k = e then f i else {}) = (\<Union>i\<in>{i. (e, i) \<in> S}. f i)"
  by (auto split: if_splits)

lemma edge_inputs_alt: "edge_inputs lx es ids e = (\<Union>i\<in>{i. (e, i) \<in> set (zip es ids)}. id_elems lx i)"
  unfolding edge_inputs_def by (rule UN_pairs)

definition edge_keys :: "Edge list \<Rightarrow> Edge list" where
  "edge_keys edges = sorted_list_of_set (set edges \<union> reverse ` set edges)"

lemma edge_keys:
  "sorted_wrt (<) (edge_keys edges)" "set (edge_keys edges) = set edges \<union> reverse ` set edges" "distinct (edge_keys edges)"
  by (simp_all add: edge_keys_def)

lemma edge_keys_counts: "e \<notin> set (edge_keys edges) \<Longrightarrow> count_list edges e = 0 \<and> count_list edges (reverse e) = 0"
proof -
  assume n: "e \<notin> set (edge_keys edges)"
  have "reverse e \<notin> set edges" using n unfolding edge_keys(2) by (metis UnCI image_eqI reverse_reverse)
  then show ?thesis using n by (simp add: count_list_0_iff edge_keys(2))
qed

definition processed_error :: "graph_options \<Rightarrow> Edge list \<Rightarrow> graph_error option \<Rightarrow> graph_error option" where
  "processed_error op edges err =
     (if err = None \<and> sibling_pairs op = SiblingPairs_REQUIRE \<and> (\<exists>e\<in>set edges. sibling_missing op edges e)
      then Some BUILDER_MISSING_EXPECTED_SIBLING_EDGES else err)"

lemma sibling_missing_keys:
  "both_directions op edges \<Longrightarrow> (\<exists>e\<in>set (edge_keys edges). sibling_missing op edges e) = (\<exists>e\<in>set edges. sibling_missing op edges e)"
proof -
  assume b: "both_directions op edges"
  have "sibling_missing op edges (reverse e) = sibling_missing op edges e" for e
  proof -
    have r: "fst (reverse e) = snd (reverse e) \<longleftrightarrow> fst e = snd e" by (cases e) (auto simp: reverse_def)
    show ?thesis
    proof (cases "edge_type op")
      case UNDIRECTED
      then have "count_list edges e = count_list edges (reverse e)" using b unfolding both_directions_def by blast
      then show ?thesis unfolding sibling_missing_def reverse_reverse r by simp
    qed (auto simp: sibling_missing_def r)
  qed
  then show ?thesis unfolding edge_keys(2) by auto
qed

lemma EP_loop_new:
  assumes "process_input op edges ids lx"
  shows "\<exists>ep' nss. EP_loop 0 0 (EP_new op edges ids lx) err = Some (ep', processed_error op edges err) \<and>
    IL_ok (ep_lexicon ep') \<and> extends lx (ep_lexicon ep') \<and>
    ep_new_edges ep' = concat (map (\<lambda>m. replicate (kept_copies op edges m) m) (edge_keys edges)) \<and> ep_new_input_ids ep' = concat nss \<and>
    list_all2 (\<lambda>m ns. length ns = kept_copies op edges m \<and> (\<forall>i\<in>set ns. IL_id_set (ep_lexicon ep') i \<noteq> None) \<and>
      (ns \<noteq> [] \<longrightarrow> (\<Union>i\<in>set ns. id_elems (ep_lexicon ep') i) = edge_inputs lx edges ids m)) (edge_keys edges) nss"
proof -
  let ?ep = "EP_new op edges ids lx"
  define ms where "ms = edge_keys edges"
  note ms = edge_keys [of edges, folded ms_def]
  have len: "length ms \<le> 2 * length edges"
  proof -
    have "card (set edges \<union> reverse ` set edges) \<le> card (set edges) + card (reverse ` set edges)" by (rule card_Un_le)
    also have "\<dots> \<le> length edges + length edges" by (intro add_mono card_length order_trans [OF card_image_le]) simp_all
    finally show ?thesis by (simp add: ms_def edge_keys_def)
  qed
  have a: "length ids = length edges" "\<forall>e\<in>set edges. fst e < max_vertex_id \<and> snd e < max_vertex_id" "both_directions op edges" "IL_ok lx"
    "ids_ok (set_size lx) lx ids" "room lx (sum_list (map (set_size lx) ids)) (2 * length edges)" using assms by (simp_all add: process_input_def)
  have ep: "ep_options ?ep = op" "ep_edges ?ep = edges" "ep_lexicon ?ep = lx" "ep_new_edges ?ep = []" "ep_new_input_ids ?ep = []" by (simp_all add: EP_new_def)
  have s: "EP_sorted ?ep"
  proof -
    have "x < EP_sentinel" if "x \<in> set edges \<union> reverse ` set edges" for x
      using that a(2) by (cases x) (force simp: EP_sentinel_def reverse_def)
    then show ?thesis by (simp add: EP_sorted_def EP_new_lists ep(2))
  qed
  have el: "EP_edge_lists ?ep" by (simp add: EP_edge_lists_def EP_new_lists ep(2))
  have sub: "set ms \<subseteq> set (EP_outs ?ep) \<union> set (EP_ins ?ep)" by (simp add: EP_new_lists ms(2))
  have idsub: "set (EP_run_of ?ep m) \<subseteq> set ids" for m unfolding EP_new_run_of [OF a(1)] by (auto dest: set_zip_rightD)
  have w: "sum_list (map (\<lambda>m. sum_list (map (set_size lx) (EP_run_of ?ep m))) ms) = sum_list (map (set_size lx) ids)"
    by (rule EP_new_weights [OF a(1) ms(1)]) (simp add: ms(2))
  have rm: "room (ep_lexicon ?ep) (sum_list (map (\<lambda>m. sum_list (map (set_size lx) (EP_run_of ?ep m))) ms)) (length ms)"
    unfolding w ep(3) by (rule room_less [OF a(6)]) (use len in simp_all)
  have io: "\<forall>m\<in>set ms. ids_ok (set_size lx) (ep_lexicon ?ep) (EP_run_of ?ep m)" unfolding ep(3) using ids_ok_subset [OF a(5) idsub] by blast
  have bd: "both_directions (ep_options ?ep) (ep_edges ?ep)" using a(3) ep by simp
  have ilo: "IL_ok (ep_lexicon ?ep)" using a(4) ep by simp
  define err' where "err' = (if err = None \<and> sibling_pairs op = SiblingPairs_REQUIRE \<and> (\<exists>m\<in>set ms. sibling_missing op edges m)
      then Some BUILDER_MISSING_EXPECTED_SIBLING_EDGES else err)"
  from EP_visits_result [OF s el bd sub ilo io rm, of err, unfolded ep, folded err'_def] obtain ep' nss where r:
    "EP_visits (EP_outs ?ep) (EP_ins ?ep) ms (?ep, err) = Some (ep', err')" "EP_frame ?ep ep'" "IL_ok (ep_lexicon ep')" "extends lx (ep_lexicon ep')"
    "ep_new_edges ep' = [] @ concat (map (\<lambda>m. replicate (kept_copies op edges m) m) ms)" "ep_new_input_ids ep' = [] @ concat nss"
    "list_all2 (\<lambda>m ns. length ns = kept_copies op edges m \<and> (\<forall>i\<in>set ns. IL_id_set (ep_lexicon ep') i \<noteq> None) \<and>
        (ns \<noteq> [] \<longrightarrow> (\<Union>i\<in>set ns. id_elems (ep_lexicon ep') i) = (\<Union>i\<in>set (EP_run_of ?ep m). id_elems lx i))) ms nss"
    by (elim conjE exE) (rule that; assumption)
  have loop: "EP_loop 0 0 ?ep err = Some (ep', err')"
  proof -
    have z: "(if ms = [] then length (ep_edges ?ep) else below xs (hd ms)) = 0" if "set xs \<subseteq> set ms" for xs
    proof (cases ms)
      case Nil
      then have "set edges = {}" using ms(2) by auto
      then have "length (ep_edges ?ep) = 0" unfolding ep(2) by (simp only: set_empty list.size(3))
      with Nil show ?thesis by simp
    next
      case (Cons m ms')
      have "below xs m = 0" by (rule below_least [OF ms(1) [unfolded Cons] that [unfolded Cons]])
      then show ?thesis unfolding Cons by simp
    qed
    have "EP_loop 0 0 ?ep err = EP_visits (EP_outs ?ep) (EP_ins ?ep) ms (?ep, err)"
      by (rule EP_loop_visits [OF s ms(1) sub _ z [symmetric] z [symmetric]]) (auto simp: EP_new_lists ms(2))
    with r(1) show ?thesis by simp
  qed
  have err: "err' = processed_error op edges err" unfolding err'_def ms_def processed_error_def sibling_missing_keys [OF a(3)] by (rule refl)
  have inp: "(\<Union>i\<in>set (EP_run_of ?ep m). id_elems lx i) = edge_inputs lx edges ids m" for m
    unfolding EP_new_run_of [OF a(1)] by (rule edge_inputs_alt [symmetric])
  show ?thesis
    by (rule exI [of _ ep'], rule exI [of _ nss], intro conjI)
      (use loop r(3-7) in \<open>simp_all only: err inp ms_def append_Nil\<close>)
qed

lemma ProcessEdges_nil:
  "ProcessEdges op [] [] lx err =
    Some (if sibling_pairs op \<in> {SiblingPairs_REQUIRE, SiblingPairs_CREATE} then op\<lparr>edge_type := DIRECTED\<rparr> else op, [], [], lx, err)"
  by (simp add: ProcessEdges_def EP_Run_def EP_new_def Let_def)

lemma ProcessEdges_loop:
  assumes "edges \<noteq> []" "EP_loop 0 0 (EP_new op edges ids lx) err = Some (ep', err')"
  shows "ProcessEdges op edges ids lx err =
    Some (if sibling_pairs op \<in> {SiblingPairs_REQUIRE, SiblingPairs_CREATE} then op\<lparr>edge_type := DIRECTED\<rparr> else op,
          ep_new_edges ep', ep_new_input_ids ep', ep_lexicon ep', err')"
proof -
  have "ep_edges (EP_new op edges ids lx) \<noteq> []" using assms(1) by (simp add: EP_new_def)
  then have "EP_Run (EP_new op edges ids lx) err = Some (ep'\<lparr>ep_edges := ep_new_edges ep', ep_new_edges := ep_edges ep',
      ep_input_ids := ep_new_input_ids ep', ep_new_input_ids := ep_input_ids ep'\<rparr>, err')"
    using assms(2) by (simp add: EP_Run_def)
  then show ?thesis by (simp add: ProcessEdges_def Let_def)
qed

lemma ProcessEdges_result:
  assumes "process_input op edges ids lx"
  shows "\<exists>new new_ids lx'. ProcessEdges op edges ids lx err =
      Some (if sibling_pairs op \<in> {SiblingPairs_REQUIRE, SiblingPairs_CREATE} then op\<lparr>edge_type := DIRECTED\<rparr> else op, new, new_ids, lx',
            processed_error op edges err) \<and>
    sorted new \<and> (\<forall>e. count_list new e = kept_copies op edges e) \<and>
    IL_ok lx' \<and> extends lx lx' \<and> length new_ids = length new \<and> (\<forall>i\<in>set new_ids. IL_id_set lx' i \<noteq> None) \<and>
    (\<forall>e\<in>set new. edge_inputs lx' new new_ids e = edge_inputs lx edges ids e)"
proof -
  from EP_loop_new [OF assms, of err] obtain ep' nss where r:
    "EP_loop 0 0 (EP_new op edges ids lx) err = Some (ep', processed_error op edges err)"
    "IL_ok (ep_lexicon ep')" "extends lx (ep_lexicon ep')"
    "ep_new_edges ep' = concat (map (\<lambda>m. replicate (kept_copies op edges m) m) (edge_keys edges))" "ep_new_input_ids ep' = concat nss"
    "list_all2 (\<lambda>m ns. length ns = kept_copies op edges m \<and> (\<forall>i\<in>set ns. IL_id_set (ep_lexicon ep') i \<noteq> None) \<and>
      (ns \<noteq> [] \<longrightarrow> (\<Union>i\<in>set ns. id_elems (ep_lexicon ep') i) = edge_inputs lx edges ids m)) (edge_keys edges) nss"
    by (elim conjE exE) (rule that; assumption)
  let ?new = "ep_new_edges ep'" and ?ids = "ep_new_input_ids ep'" and ?lx = "ep_lexicon ep'"
  have cnt: "count_list ?new e = kept_copies op edges e" for e
    using edge_keys_counts [of e edges] unfolding r(4) count_replicates [OF edge_keys(3)] by (auto simp: kept_copies_def)
  have "list_all2 (\<lambda>m ns. length ns = kept_copies op edges m) (edge_keys edges) nss" using r(6) by (rule list.rel_mono_strong) simp
  note z = zip_replicates [OF this, folded r(4,5)]
  have inputs: "edge_inputs ?lx ?new ?ids e = edge_inputs lx edges ids e" if "e \<in> set ?new" for e
  proof -
    from that have "e \<in> set (edge_keys edges)" "0 < kept_copies op edges e" unfolding r(4) by auto
    then obtain j where j: "j < length (edge_keys edges)" "edge_keys edges ! j = e" "0 < kept_copies op edges e" by (auto simp: in_set_conv_nth)
    have "{i. (e, i) \<in> set (zip ?new ?ids)} = set (nss ! j)" using z edge_keys(3) j(1,2) by blast
    moreover have "(\<Union>i\<in>set (nss ! j). id_elems ?lx i) = edge_inputs lx edges ids e"
      using list_all2_nthD [OF r(6) j(1)] j(2,3) by auto
    ultimately show ?thesis unfolding edge_inputs_alt [of ?lx] by simp
  qed
  have valid: "IL_id_set ?lx i \<noteq> None" if "i \<in> set ?ids" for i
  proof -
    from that obtain ns where "ns \<in> set nss" "i \<in> set ns" unfolding r(5) by auto
    from this(1) obtain j where "j < length nss" "nss ! j = ns" unfolding in_set_conv_nth by blast
    with list_all2_nthD2 [OF r(6), of j] \<open>i \<in> set ns\<close> show ?thesis by simp
  qed
  have srt: "sorted ?new" unfolding r(4) by (rule sorted_replicates [OF edge_keys(1)])
  show ?thesis
  proof (cases "edges = []")
    case True
    with assms have n: "edges = []" "ids = []" by (simp_all add: process_input_def)
    have "processed_error op [] err = err" by (simp add: processed_error_def)
    moreover have "kept_copies op [] e = 0" for e by (simp add: kept_copies_def)
    moreover have "IL_ok lx" using assms by (simp add: process_input_def)
    ultimately show ?thesis unfolding n ProcessEdges_nil
      by (intro exI [of _ "[]"] exI [of _ lx] conjI) simp_all
  next
    case False
    show ?thesis unfolding ProcessEdges_loop [OF False r(1)]
    proof (rule exI [of _ ?new], rule exI [of _ ?ids], rule exI [of _ ?lx], intro conjI ballI allI)
      show "length ?ids = length ?new" using conjunct1 [OF z] by (rule sym)
    qed (rule refl srt cnt r(2,3) inputs valid | assumption)+
  qed
qed

end
