(* ===== verification/Graph_Properties.thy ===== *)
theory Graph_Properties
  imports Process_Result
begin

text \<open>
  The properties of the graphs that \<open>S2Builder\<close> hands to its layers: which copies of an edge \<open>ProcessEdges\<close> keeps, what becomes of
  their input edges, the vertices that \<open>FilterVertices\<close> keeps, and the canonical order of a loop.
\<close>

section \<open>Processed edges\<close>

text \<open>C36: on valid input \<open>ProcessEdges\<close> succeeds: its result is sorted, contains each edge as many times as the options prescribe
  for the numbers of copies of the edge and of its sibling, gives every kept edge exactly the input edges of the copies it stands
  for, and reports an error exactly when siblings are required and one is missing.\<close>

theorem ProcessEdges_correct:
  assumes "process_input op edges ids lx"
  shows "\<exists>op' new new_ids lx'. ProcessEdges op edges ids lx err = Some (op', new, new_ids, lx', processed_error op edges err) \<and>
    op' = (if sibling_pairs op \<in> {SiblingPairs_REQUIRE, SiblingPairs_CREATE} then op\<lparr>edge_type := DIRECTED\<rparr> else op) \<and>
    sorted new \<and> (\<forall>e. count_list new e = kept_copies op edges e) \<and>
    IL_ok lx' \<and> extends lx lx' \<and> length new_ids = length new \<and> (\<forall>i\<in>set new_ids. IL_id_set lx' i \<noteq> None) \<and>
    (\<forall>e\<in>set new. edge_inputs lx' new new_ids e = edge_inputs lx edges ids e)"
  using ProcessEdges_result [OF assms, of err] by blast

definition sample_options :: "SiblingPairs \<Rightarrow> graph_options" where
  "sample_options si = GraphOptions_new DIRECTED DegenerateEdges_KEEP DuplicateEdges_KEEP si"

lemma singleton_input: "0 \<le> sint i \<Longrightarrow> IL_id_set SL_new i = Some [i]"
  by (simp only: IL_id_set_def if_True)

lemma sample_input:
  assumes "si \<in> {SiblingPairs_DISCARD, SiblingPairs_REQUIRE}"
  shows "process_input (sample_options si) [(0, 1), (0, 1), (1, 0)] [5, 6, 7] SL_new"
proof -
  have i: "IL_id_set SL_new 5 = Some [5]" "IL_id_set SL_new 6 = Some [6]" "IL_id_set SL_new 7 = Some [7]" by (simp_all add: singleton_input)
  have "ids_ok (set_size SL_new) SL_new [5, 6, 7]" by (simp add: ids_ok_def set_size_def i)
  moreover have "sum_list (map (set_size SL_new) [5, 6, 7]) = 3" by (simp add: set_size_def i)
  then have "room SL_new (sum_list (map (set_size SL_new) [5, 6, 7])) (2 * 3)" by (simp add: room_def)
  moreover have "both_directions (sample_options si) es" for es by (simp add: both_directions_def sample_options_def GraphOptions_new_def)
  ultimately show ?thesis by (simp add: process_input_def max_vertex_id_def IL_new_ok)
qed

theorem ProcessEdges_correct_witness:
  "\<exists>op' new new_ids lx'. ProcessEdges (sample_options SiblingPairs_DISCARD) [(0, 1), (0, 1), (1, 0)] [5, 6, 7] SL_new None =
      Some (op', new, new_ids, lx', None) \<and> count_list new (0, 1) = 1 \<and> count_list new (1, 0) = 0 \<and> edge_inputs lx' new new_ids (0, 1) = {5, 6}"
proof -
  let ?op = "sample_options SiblingPairs_DISCARD" and ?es = "[(0, 1), (0, 1), (1, 0)] :: Edge list"
  from ProcessEdges_correct [OF sample_input, of SiblingPairs_DISCARD None] obtain op' new new_ids lx' where r:
    "ProcessEdges ?op ?es [5, 6, 7] SL_new None = Some (op', new, new_ids, lx', processed_error ?op ?es None)"
    "\<forall>e. count_list new e = kept_copies ?op ?es e" "\<forall>e\<in>set new. edge_inputs lx' new new_ids e = edge_inputs SL_new ?es [5, 6, 7] e" by blast
  have e: "processed_error ?op ?es None = None" by (simp add: processed_error_def sample_options_def GraphOptions_new_def)
  have c: "kept_copies ?op ?es (0, 1) = 1" "kept_copies ?op ?es (1, 0) = 0"
    by (simp_all add: kept_copies_def regular_copies_def sample_options_def GraphOptions_new_def reverse_def)
  have "count_list new (0, 1) = 1" "count_list new (1, 0) = 0" using r(2) c by simp_all
  moreover from this(1) have "(0, 1) \<in> set new" using count_notin [of "(0, 1)" new] by fastforce
  then have "edge_inputs lx' new new_ids (0, 1) = edge_inputs SL_new ?es [5, 6, 7] (0, 1)" using r(3) by blast
  moreover have "edge_inputs SL_new ?es [5, 6, 7] (0, 1) = {5, 6}" by (auto simp: edge_inputs_def id_elems_def singleton_input)
  ultimately show ?thesis using r(1) unfolding e by blast
qed

text \<open>C37: what the options mean for the processed edges: \<open>DISCARD\<close> leaves no edge next to its sibling, \<open>REQUIRE\<close> and \<open>CREATE\<close> leave every
  edge as often as its sibling, discarding siblings never changes how often an edge is passed in the one direction more than in the other,
  merging leaves one copy, degenerate edges are dropped on request, and keeping everything keeps every copy.\<close>

theorem ProcessEdges_options:
  assumes "process_input op edges ids lx" "ProcessEdges op edges ids lx err = Some (op', new, new_ids, lx', err')"
  shows "(sibling_pairs op = SiblingPairs_DISCARD \<and> edge_type op = DIRECTED \<and> fst e \<noteq> snd e \<longrightarrow>
      count_list new e = 0 \<or> count_list new (reverse e) = 0) \<and>
    (sibling_pairs op \<in> {SiblingPairs_REQUIRE, SiblingPairs_CREATE} \<longrightarrow> count_list new e = count_list new (reverse e)) \<and>
    (sibling_pairs op \<in> {SiblingPairs_DISCARD, SiblingPairs_DISCARD_EXCESS} \<and> duplicate_edges op = DuplicateEdges_KEEP \<and> edge_type op = DIRECTED \<and> fst e \<noteq> snd e \<longrightarrow>
      int (count_list new e) - int (count_list new (reverse e)) = int (count_list edges e) - int (count_list edges (reverse e))) \<and>
    (duplicate_edges op = DuplicateEdges_MERGE \<and> edge_type op = DIRECTED \<longrightarrow> count_list new e \<le> 1) \<and>
    (degenerate_edges op = DegenerateEdges_DISCARD \<and> fst e = snd e \<longrightarrow> count_list new e = 0) \<and>
    (op = GraphOptions_new (edge_type op) DegenerateEdges_KEEP DuplicateEdges_KEEP SiblingPairs_KEEP \<longrightarrow> mset new = mset edges)"
proof -
  have k: "count_list new d = kept_copies op edges d" for d
  proof -
    from ProcessEdges_correct [OF assms(1), of err] obtain new' where
      "\<exists>op' new_ids lx' err'. ProcessEdges op edges ids lx err = Some (op', new', new_ids, lx', err')" and c: "\<forall>e. count_list new' e = kept_copies op edges e" by blast
    with assms(2) have "new = new'" by auto
    with c show ?thesis by blast
  qed
  define n m where "n = count_list edges e" and "m = count_list edges (reverse e)"
  have eq: "n = m" if "edge_type op = UNDIRECTED" using assms(1) that unfolding process_input_def both_directions_def n_def m_def by blast
  have self: "reverse e = e" if "fst e = snd e" using that by (cases e) (simp add: reverse_def)
  have flip: "fst (reverse e) = snd (reverse e) \<longleftrightarrow> fst e = snd e" by (cases e) (auto simp: reverse_def)
  have c: "count_list new e = (if n = 0 \<and> m = 0 then 0 else if fst e = snd e then degenerate_copies op n (has_incident edges (fst e)) else regular_copies op n m)"
    unfolding k kept_copies_def n_def m_def Let_def by (rule refl)
  have c': "count_list new (reverse e) = (if n = 0 \<and> m = 0 then 0 else regular_copies op m n)" if "fst e \<noteq> snd e"
    using that unfolding k kept_copies_def n_def m_def Let_def reverse_reverse flip by simp
  show ?thesis
  proof (intro conjI impI)
    assume s: "sibling_pairs op = SiblingPairs_DISCARD \<and> edge_type op = DIRECTED \<and> fst e \<noteq> snd e"
    have "regular_copies op n m = 0 \<or> regular_copies op m n = 0"
      using s by (cases "n \<le> m") (simp_all add: regular_copies_def Let_def)
    then show "count_list new e = 0 \<or> count_list new (reverse e) = 0" unfolding c c' [OF conjunct2 [OF conjunct2 [OF s]]] using s by auto
  next
    assume s: "sibling_pairs op \<in> {SiblingPairs_REQUIRE, SiblingPairs_CREATE}"
    show "count_list new e = count_list new (reverse e)"
    proof (cases "fst e = snd e")
      case True
      then show ?thesis by (simp only: self)
    next
      case False
      have "regular_copies op n m = regular_copies op m n"
      proof (cases "edge_type op")
        case DIRECTED
        have "max n m = max m n" by (rule max.commute)
        with s DIRECTED show ?thesis by (auto simp: regular_copies_def Let_def)
      qed (simp add: eq)
      with False show ?thesis unfolding c c' [OF False] by simp
    qed
  next
    assume s: "sibling_pairs op \<in> {SiblingPairs_DISCARD, SiblingPairs_DISCARD_EXCESS} \<and> duplicate_edges op = DuplicateEdges_KEEP \<and>
      edge_type op = DIRECTED \<and> fst e \<noteq> snd e"
    then have "regular_copies op n m = (if n = m \<and> sibling_pairs op = SiblingPairs_DISCARD_EXCESS then 1 else n - m)"
      "regular_copies op m n = (if n = m \<and> sibling_pairs op = SiblingPairs_DISCARD_EXCESS then 1 else m - n)"
      by (auto simp: regular_copies_def Let_def)
    with s show "int (count_list new e) - int (count_list new (reverse e)) = int (count_list edges e) - int (count_list edges (reverse e))"
      unfolding c c' [OF conjunct2 [OF conjunct2 [OF conjunct2 [OF s]]]] n_def [symmetric] m_def [symmetric] by auto
  next
    assume s: "duplicate_edges op = DuplicateEdges_MERGE \<and> edge_type op = DIRECTED"
    have "regular_copies op n m \<le> 1" using s by (cases "sibling_pairs op") (simp_all add: regular_copies_def Let_def)
    moreover have "degenerate_copies op n h \<le> 1" for h using s by (cases "degenerate_edges op") (simp_all add: degenerate_copies_def Let_def)
    ultimately show "count_list new e \<le> 1" unfolding c by simp
  next
    assume "degenerate_edges op = DegenerateEdges_DISCARD \<and> fst e = snd e"
    then show "count_list new e = 0" unfolding c by (simp add: degenerate_copies_def Let_def)
  next
    assume o: "op = GraphOptions_new (edge_type op) DegenerateEdges_KEEP DuplicateEdges_KEEP SiblingPairs_KEEP"
    have o': "degenerate_edges op = DegenerateEdges_KEEP" "duplicate_edges op = DuplicateEdges_KEEP" "sibling_pairs op = SiblingPairs_KEEP"
      by (subst o, simp add: GraphOptions_new_def)+
    have "count_list new d = count_list edges d" for d
      unfolding k kept_copies_def by (simp add: regular_copies_def degenerate_copies_def Let_def o')
    then show "mset new = mset edges" by (simp add: multiset_eq_iff count_mset)
  qed
qed

text \<open>Discarding the sibling pairs of two copies of an edge and one of its reverse.\<close>

theorem ProcessEdges_options_witness:
  "\<exists>op' new new_ids lx'. ProcessEdges (sample_options SiblingPairs_DISCARD) [(0, 1), (0, 1), (1, 0)] [5, 6, 7] SL_new None = Some (op', new, new_ids, lx', None) \<and>
     (count_list new (0, 1) = 0 \<or> count_list new (1, 0) = 0) \<and> int (count_list new (0, 1)) - int (count_list new (1, 0)) = 1"
proof -
  let ?op = "sample_options SiblingPairs_DISCARD" and ?es = "[(0, 1), (0, 1), (1, 0)] :: Edge list"
  have p: "process_input ?op ?es [5, 6, 7] SL_new" by (rule sample_input) simp
  obtain op' new new_ids lx' where r: "ProcessEdges ?op ?es [5, 6, 7] SL_new None = Some (op', new, new_ids, lx', processed_error ?op ?es None)"
    using ProcessEdges_result [OF p, of None] by blast
  have e: "processed_error ?op ?es None = None" by (simp add: processed_error_def sample_options_def GraphOptions_new_def)
  have o: "sibling_pairs ?op = SiblingPairs_DISCARD" "duplicate_edges ?op = DuplicateEdges_KEEP" "edge_type ?op = DIRECTED" "reverse (0, 1) = (1, 0)"
    by (simp_all add: sample_options_def GraphOptions_new_def reverse_def)
  have "count_list new (0, 1) = 0 \<or> count_list new (1, 0) = 0"
    using ProcessEdges_options [OF p r, of "(0, 1)"] unfolding o by auto
  moreover have "int (count_list new (0, 1)) - int (count_list new (1, 0)) = 1"
    using ProcessEdges_options [OF p r, of "(0, 1)"] unfolding o by auto
  ultimately show ?thesis using r unfolding e by blast
qed

section \<open>Filtered vertices\<close>

text \<open>\<open>FilterVertices\<close> keeps exactly the vertices that some edge uses, each once and in their order, and the renumbered edges join the
  same points as before.\<close>

theorem FilterVertices_same_points:
  assumes "\<forall>e\<in>set edges. fst e < length vertices \<and> snd e < length vertices"
  shows "\<exists>used vmap. FilterVertices vertices edges tmp = (map ((!) vertices) used, map (\<lambda>e. (vmap ! fst e, vmap ! snd e)) edges, vmap) \<and>
    sorted_wrt (<) used \<and> set used = fst ` set edges \<union> snd ` set edges \<and> length vmap = length vertices \<and>
    (\<forall>v\<in>set used. vmap ! v < length used \<and> used ! (vmap ! v) = v \<and> map ((!) vertices) used ! (vmap ! v) = vertices ! v)"
proof -
  define used where "used = remdups_adj (sort (concat (map (\<lambda>e. [fst e, snd e]) edges)))"
  define vmap0 where "vmap0 = take (length vertices) tmp @ replicate (length vertices - length tmp) 0"
  define vmap where "vmap = fold (\<lambda>i vmap. vmap[used ! i := i]) [0..<length used] vmap0"
  have used: "sorted_wrt (<) used" "set used = fst ` set edges \<union> snd ` set edges"
    by (auto simp: used_def remdups_adj_strict)
  have len0: "length vmap0 = length vertices" by (simp add: vmap0_def)
  have small: "used ! i < length vertices" if "i < length used" for i
    using assms used(2) nth_mem [OF that] by auto
  have m: "length (fold (\<lambda>i vmap. vmap[used ! i := i]) [0..<n] vmap0) = length vertices \<and>
      (\<forall>i<n. fold (\<lambda>i vmap. vmap[used ! i := i]) [0..<n] vmap0 ! (used ! i) = i)" if "n \<le> length used" for n
    using that
  proof (induction n)
    case (Suc n)
    let ?vmap = "fold (\<lambda>i vmap. vmap[used ! i := i]) [0..<n] vmap0"
    have ih: "length ?vmap = length vertices" "\<And>i. i < n \<Longrightarrow> ?vmap ! (used ! i) = i" using Suc by simp_all
    have "used ! n \<noteq> used ! i" if "i < n" for i using sorted_wrt_nth_less [OF used(1) that] Suc.prems by simp
    then have "?vmap[used ! n := n] ! (used ! i) = i" if "i < Suc n" for i
      using that ih small [of n] Suc.prems by (cases "i = n") simp_all
    then show ?case using ih(1) by simp
  qed (simp add: len0)
  have v: "length vmap = length vertices" "\<And>i. i < length used \<Longrightarrow> vmap ! (used ! i) = i" using m [of "length used"] by (simp_all add: vmap_def)
  have "vmap ! v < length used \<and> used ! (vmap ! v) = v \<and> map ((!) vertices) used ! (vmap ! v) = vertices ! v" if "v \<in> set used" for v
    using that v(2) by (auto simp: in_set_conv_nth)
  moreover have "FilterVertices vertices edges tmp = (map ((!) vertices) used, map (\<lambda>e. (vmap ! fst e, vmap ! snd e)) edges, vmap)"
    by (simp add: FilterVertices_def Let_def used_def vmap_def vmap0_def)
  ultimately show ?thesis using used v(1) by blast
qed

theorem FilterVertices_witness:
  "\<exists>used vmap. FilterVertices [Vec 1 0 0, Vec 0 1 0, Vec 0 0 1, Vec 1 1 1] [(3, 1), (1, 3)] [] =
     (map ((!) [Vec 1 0 0, Vec 0 1 0, Vec 0 0 1, Vec 1 1 1]) used, [(vmap ! 3, vmap ! 1), (vmap ! 1, vmap ! 3)], vmap) \<and> used ! (vmap ! 3) = 3"
  using FilterVertices_same_points [of "[(3, 1), (1, 3)]" "[Vec 1 0 0, Vec 0 1 0, Vec 0 0 1, Vec 1 1 1]" "[]"] by auto

end
