(* ===== verification/Graph_Canonical.thy ===== *)
theory Graph_Canonical
  imports Process_Result
begin

text \<open>The canonical rotation of a loop, and the sibling map.\<close>

section \<open>The canonical rotation\<close>

lemma sint_diff_nonneg:
  fixes a b :: int32
  assumes "0 \<le> sint a" "0 \<le> sint b"
  shows "sint (a - b) = sint a - sint b"
proof -
  have "sint a < 2 ^ 31" "sint b < 2 ^ 31" using sint_less [of a] sint_less [of b] by simp_all
  with assms have "- (2 ^ 31) \<le> sint a - sint b" "sint a - sint b < 2 ^ 31" by linarith+
  then show ?thesis by (simp add: sint_word_diff signed_take_bit_int_eq_self)
qed

text \<open>Where the fold stands: the position holds the largest key so far; either it was the last one visited, or a smaller key follows it.\<close>

definition canonical_state :: "(nat \<Rightarrow> int) \<Rightarrow> nat \<Rightarrow> nat \<times> bool \<Rightarrow> bool" where
  "canonical_state key i st \<longleftrightarrow> fst st < i \<and> (\<forall>j<i. key j \<le> key (fst st)) \<and>
     (if snd st then fst st + 1 < i \<and> key (fst st + 1) < key (fst st) else fst st + 1 = i) \<and>
     (key 0 = key (fst st) \<longrightarrow> (\<forall>j\<le>fst st. key j = key (fst st)))"

lemma canonical_stateI:
  assumes "pos < i" "\<And>j. j < i \<Longrightarrow> key j \<le> key pos" "gap \<Longrightarrow> pos + 1 < i \<and> key (pos + 1) < key pos" "\<not> gap \<Longrightarrow> pos + 1 = i"
    "\<And>j. key 0 = key pos \<Longrightarrow> j \<le> pos \<Longrightarrow> key j = key pos"
  shows "canonical_state key i (pos, gap)"
proof -
  have "\<forall>j<i. key j \<le> key pos" using assms(2) by (intro allI impI)
  moreover have "key 0 = key pos \<longrightarrow> (\<forall>j\<le>pos. key j = key pos)" using assms(5) by (intro allI impI)
  moreover have "if gap then pos + 1 < i \<and> key (pos + 1) < key pos else pos + 1 = i" using assms(3,4) by (cases gap) simp_all
  ultimately show ?thesis unfolding canonical_state_def fst_conv snd_conv using assms(1) by (intro conjI)
qed

lemma canonical_stateD:
  assumes "canonical_state key i (pos, gap)"
  shows "pos < i" "j < i \<Longrightarrow> key j \<le> key pos" "gap \<Longrightarrow> pos + 1 < i \<and> key (pos + 1) < key pos" "\<not> gap \<Longrightarrow> pos + 1 = i"
    "key 0 = key pos \<Longrightarrow> j \<le> pos \<Longrightarrow> key j = key pos"
proof -
  have s: "pos < i" "\<forall>j<i. key j \<le> key pos" "if gap then pos + 1 < i \<and> key (pos + 1) < key pos else pos + 1 = i"
    "key 0 = key pos \<longrightarrow> (\<forall>j\<le>pos. key j = key pos)" using assms unfolding canonical_state_def fst_conv snd_conv by - (elim conjE; assumption)+
  show "pos < i" by (rule s(1))
  show "j < i \<Longrightarrow> key j \<le> key pos" by (rule s(2) [rule_format])
  show "gap \<Longrightarrow> pos + 1 < i \<and> key (pos + 1) < key pos" using s(3) by (simp only: if_True)
  show "\<not> gap \<Longrightarrow> pos + 1 = i" using s(3) by (simp only: if_False)
  show "key 0 = key pos \<Longrightarrow> j \<le> pos \<Longrightarrow> key j = key pos" by (rule s(4) [rule_format])
qed

lemma canonical_smaller:
  assumes "canonical_state key i (pos, gap)" "key i < key pos"
  shows "canonical_state key (Suc i) (pos, True)"
proof (rule canonical_stateI)
  show "pos < Suc i" using canonical_stateD(1) [OF assms(1)] by (rule less_SucI)
  show "key j \<le> key pos" if "j < Suc i" for j
  proof (cases "j = i")
    case True
    with assms(2) show ?thesis by (simp only: less_imp_le)
  next
    case False
    with that have "j < i" by (simp only: less_Suc_eq simp_thms)
    then show ?thesis by (rule canonical_stateD(2) [OF assms(1)])
  qed
  show "pos + 1 < Suc i \<and> key (pos + 1) < key pos"
  proof (cases gap)
    case True
    from canonical_stateD(3) [OF assms(1) True] show ?thesis by (intro conjI less_SucI) (elim conjE, assumption)+
  next
    case False
    from canonical_stateD(4) [OF assms(1) False] assms(2) show ?thesis by (simp only: lessI simp_thms)
  qed
  show "\<not> True \<Longrightarrow> pos + 1 = Suc i" by simp
  show "key j = key pos" if "key 0 = key pos" "j \<le> pos" for j by (rule canonical_stateD(5) [OF assms(1) that])
qed

lemma canonical_greater:
  assumes "canonical_state key i (pos, gap)" "key pos < key i"
  shows "canonical_state key (Suc i) (i, False)"
proof (rule canonical_stateI)
  have below: "key j < key i" if "j < i" for j
    using canonical_stateD(2) [OF assms(1) that] assms(2) by (rule le_less_trans)
  show "key j \<le> key i" if "j < Suc i" for j
    using below [of j] that by (cases "j = i") (simp_all only: less_Suc_eq simp_thms order_refl less_imp_le)
  show "key j = key i" if "key 0 = key i" "j \<le> i" for j
  proof -
    have "0 < i" using canonical_stateD(1) [OF assms(1)] by (rule le_less_trans [OF le0])
    from below [OF this] that(1) show ?thesis by (simp only: less_irrefl)
  qed
qed simp_all

lemma canonical_equal:
  assumes "canonical_state key i (pos, False)" "key i = key pos"
  shows "canonical_state key (Suc i) (i, False)"
proof (rule canonical_stateI)
  have p: "pos + 1 = i" by (rule canonical_stateD(4) [OF assms(1)]) simp
  show "key j \<le> key i" if "j < Suc i" for j
  proof (cases "j = i")
    case False
    with that have "j < i" by (simp only: less_Suc_eq simp_thms)
    from canonical_stateD(2) [OF assms(1) this] show ?thesis by (simp only: assms(2))
  qed (simp only: order_refl)
  show "key j = key i" if z: "key 0 = key i" and j: "j \<le> i" for j
  proof (cases "j = i")
    case False
    with j p have "j \<le> pos" by linarith
    from canonical_stateD(5) [OF assms(1) z [unfolded assms(2)] this] show ?thesis by (simp only: assms(2))
  qed (simp only:)
qed simp_all

lemma canonical_kept:
  assumes "canonical_state key i (pos, True)" "key i = key pos"
  shows "canonical_state key (Suc i) (pos, True)"
proof (rule canonical_stateI)
  show "pos < Suc i" using canonical_stateD(1) [OF assms(1)] by (rule less_SucI)
  show "key j \<le> key pos" if "j < Suc i" for j
  proof (cases "j = i")
    case False
    with that have "j < i" by (simp only: less_Suc_eq simp_thms)
    then show ?thesis by (rule canonical_stateD(2) [OF assms(1)])
  qed (simp only: assms(2) order_refl)
  show "pos + 1 < Suc i \<and> key (pos + 1) < key pos"
    using canonical_stateD(3) [OF assms(1) TrueI] by (intro conjI less_SucI) (elim conjE, assumption)+
  show "\<not> True \<Longrightarrow> pos + 1 = Suc i" by simp
  show "key j = key pos" if "key 0 = key pos" "j \<le> pos" for j by (rule canonical_stateD(5) [OF assms(1) that])
qed

lemma canonical_state_step:
  assumes c: "canonical_state key i (pos, gap)" and k: "\<forall>j<n. key j = sint (ids ! (loop ! j)) \<and> 0 \<le> key j" and i: "i < n"
  shows "canonical_state key (Suc i) (canonical_step ids loop i (pos, gap))"
proof -
  have "pos < n" using canonical_stateD(1) [OF c] i by (rule less_trans)
  then have "key pos = sint (ids ! (loop ! pos)) \<and> 0 \<le> key pos" by (rule k [rule_format])
  moreover have "key i = sint (ids ! (loop ! i)) \<and> 0 \<le> key i" by (rule k [rule_format, OF i])
  ultimately have d: "sint (ids ! (loop ! i) - ids ! (loop ! pos)) = key i - key pos" using sint_diff_nonneg by metis
  have step: "canonical_step ids loop i (pos, gap) =
      (if key i - key pos < 0 then (pos, True) else if 0 < key i - key pos \<or> \<not> gap then (i, False) else (pos, gap))"
    unfolding canonical_step_def prod.case Let_def d by (rule refl)
  show ?thesis
  proof (cases "key i < key pos")
    case True
    with canonical_smaller [OF c True] show ?thesis unfolding step by simp
  next
    case ge: False
    show ?thesis
    proof (cases "key pos < key i")
      case True
      with canonical_greater [OF c True] ge show ?thesis unfolding step by simp
    next
      case False
      with ge have eq: "key i = key pos" by linarith
      show ?thesis using canonical_equal [OF _ eq] canonical_kept [OF _ eq] c unfolding step eq by (cases gap) simp_all
    qed
  qed
qed

lemma canonical_state_fold:
  assumes "\<forall>j<n. key j = sint (ids ! (loop ! j)) \<and> 0 \<le> key j" "0 < k" "k \<le> n"
  shows "canonical_state key k (fold (canonical_step ids loop) [1..<k] (0, False))"
  using assms(2,3)
proof (induction k)
  case (Suc k)
  show ?case
  proof (cases "k = 0")
    case True
    then show ?thesis by (simp add: canonical_state_def)
  next
    case False
    then have "[1..<Suc k] = [1..<k] @ [k]" by simp
    then show ?thesis using Suc False canonical_state_step [OF _ assms(1)] by (cases "fold (canonical_step ids loop) [1..<k] (0, False)") simp
  qed
qed simp

lemma CanonicalizeLoopOrder_rotation: "\<exists>k. CanonicalizeLoopOrder ids loop = rotate k loop"
proof (cases "loop = []")
  case False
  define p where "p = fst (fold (canonical_step ids loop) [1..<length loop] (0, False))"
  show ?thesis
  proof (cases "p + 1 = length loop")
    case True
    then show ?thesis using False by (intro exI [of _ 0]) (simp only: CanonicalizeLoopOrder_def p_def [symmetric] Let_def, simp)
  next
    case n: False
    have "fst (fold (canonical_step ids loop) xs (a, b)) \<in> insert a (set xs)" for xs a b
    proof (induction xs arbitrary: a b)
      case (Cons x xs)
      obtain c d where cd: "canonical_step ids loop x (a, b) = (c, d)" by (cases "canonical_step ids loop x (a, b)")
      then have "c = a \<or> c = x" by (auto simp: canonical_step_def Let_def split: if_splits)
      with Cons.IH [of c d] cd show ?case by auto
    qed simp
    from this [of "[1..<length loop]" 0 False] have "p < length loop" using False by (auto simp: p_def)
    then have "p + 1 < length loop" using n by linarith
    then show ?thesis using False n
      by (intro exI [of _ "p + 1"]) (simp only: CanonicalizeLoopOrder_def p_def [symmetric] Let_def, simp add: rotate_drop_take)
  qed
qed (simp add: CanonicalizeLoopOrder_def)

lemma set_CanonicalizeLoopOrder [simp]: "set (CanonicalizeLoopOrder ids loop) = set loop"
  and distinct_CanonicalizeLoopOrder [simp]: "distinct (CanonicalizeLoopOrder ids loop) = distinct loop"
  and length_CanonicalizeLoopOrder [simp]: "length (CanonicalizeLoopOrder ids loop) = length loop"
  using CanonicalizeLoopOrder_rotation [of ids loop] by auto

lemma mset_CanonicalizeLoopOrder [simp]: "mset (CanonicalizeLoopOrder ids loop) = mset loop"
proof -
  obtain k where k: "CanonicalizeLoopOrder ids loop = rotate k loop" using CanonicalizeLoopOrder_rotation by blast
  define n where "n = k mod length loop"
  have "mset (drop n loop @ take n loop) = mset (take n loop @ drop n loop)" by (simp only: mset_append union_commute)
  then show ?thesis unfolding k rotate_drop_take n_def [symmetric] append_take_drop_id .
qed

definition loop_keys :: "int32 list \<Rightarrow> EdgeId list \<Rightarrow> int list" where
  "loop_keys ids loop = map (\<lambda>e. sint (ids ! e)) loop"

lemma CanonicalizeLoopOrder_split:
  assumes "loop \<noteq> []" and st: "fold (canonical_step ids loop) [1..<length loop] (0, False) = (pos, gap)"
    and c: "canonical_state key (length loop) (pos, gap)"
  shows "CanonicalizeLoopOrder ids loop = (if gap then drop (pos + 1) loop @ take (pos + 1) loop else loop)"
proof (cases gap)
  case True
  have "pos + 1 < length loop" using canonical_stateD(3) [OF c True] by (rule conjunct1)
  then have "pos + 1 \<noteq> length loop" by simp
  then show ?thesis using True assms(1) unfolding CanonicalizeLoopOrder_def st by (simp only: fst_conv Let_def if_True if_False)
next
  case False
  have "pos + 1 = length loop" by (rule canonical_stateD(4) [OF c False])
  then show ?thesis using False assms(1) unfolding CanonicalizeLoopOrder_def st by (simp only: fst_conv Let_def if_True if_False simp_thms drop_0 take_0 append_Nil2)
qed

lemma CanonicalizeLoopOrder_keys:
  assumes "loop \<noteq> []" "\<forall>e\<in>set loop. 0 \<le> sint (ids ! e)"
  shows "(\<forall>x\<in>set (loop_keys ids loop). x \<le> last (loop_keys ids (CanonicalizeLoopOrder ids loop))) \<and>
    (if \<forall>x\<in>set (loop_keys ids loop). \<forall>y\<in>set (loop_keys ids loop). x = y then CanonicalizeLoopOrder ids loop = loop
     else hd (loop_keys ids (CanonicalizeLoopOrder ids loop)) < last (loop_keys ids (CanonicalizeLoopOrder ids loop)))"
proof -
  define ks where "ks = loop_keys ids loop"
  define n where "n = length loop"
  have n: "length ks = n" "0 < n" "ks \<noteq> []" using assms(1) by (auto simp: ks_def n_def loop_keys_def)
  have k: "\<forall>j<n. ks ! j = sint (ids ! (loop ! j)) \<and> 0 \<le> ks ! j" using assms(2) by (simp add: ks_def n_def loop_keys_def)
  obtain pos gap where st: "fold (canonical_step ids loop) [1..<n] (0, False) = (pos, gap)" by (cases "fold (canonical_step ids loop) [1..<n] (0, False)")
  have c: "canonical_state ((!) ks) n (pos, gap)" using canonical_state_fold [OF k n(2) order_refl] unfolding st .
  have max: "x \<le> ks ! pos" if "x \<in> set ks" for x
  proof -
    from that obtain j where "j < n" "x = ks ! j" unfolding in_set_conv_nth n(1) by blast
    with canonical_stateD(2) [OF c, of j] show ?thesis by simp
  qed
  have split: "loop_keys ids (CanonicalizeLoopOrder ids loop) = (if gap then drop (pos + 1) ks @ take (pos + 1) ks else ks)"
    unfolding CanonicalizeLoopOrder_split [OF assms(1) st [unfolded n_def] c [unfolded n_def]]
    by (simp add: loop_keys_def ks_def take_map drop_map)
  show ?thesis
  proof (cases gap)
    case True
    have p: "pos + 1 < n" "ks ! (pos + 1) < ks ! pos" using canonical_stateD(3) [OF c True] by simp_all
    have "last (take (pos + 1) ks) = ks ! pos" using p(1) n by (simp add: last_conv_nth)
    then have l: "last (loop_keys ids (CanonicalizeLoopOrder ids loop)) = ks ! pos" unfolding split using True n by simp
    have h: "hd (loop_keys ids (CanonicalizeLoopOrder ids loop)) = ks ! (pos + 1)" unfolding split using True p(1) n by (simp add: hd_drop_conv_nth)
    have "ks ! (pos + 1) \<in> set ks" "ks ! pos \<in> set ks" using p(1) n by simp_all
    then have "\<not> (\<forall>x\<in>set ks. \<forall>y\<in>set ks. x = y)" using p(2) by (metis less_irrefl)
    then show ?thesis unfolding l h ks_def [symmetric] using max p(2) by (simp only: if_False simp_thms) blast
  next
    case False
    have p: "pos + 1 = n" by (rule canonical_stateD(4) [OF c False])
    then have l: "last (loop_keys ids (CanonicalizeLoopOrder ids loop)) = ks ! pos" unfolding split using False n by (auto simp: last_conv_nth)
    have h: "hd (loop_keys ids (CanonicalizeLoopOrder ids loop)) = ks ! 0" unfolding split using False n by (simp add: hd_conv_nth)
    have same: "CanonicalizeLoopOrder ids loop = loop" unfolding CanonicalizeLoopOrder_split [OF assms(1) st [unfolded n_def] c [unfolded n_def]] using False by simp
    have "ks ! 0 < ks ! pos" if "\<not> (\<forall>x\<in>set ks. \<forall>y\<in>set ks. x = y)"
    proof (rule ccontr)
      assume "\<not> ks ! 0 < ks ! pos"
      moreover have "ks ! 0 \<le> ks ! pos" using max n by simp
      ultimately have z: "ks ! 0 = ks ! pos" by linarith
      have "x = ks ! pos" if "x \<in> set ks" for x
      proof -
        from that obtain j where "j < n" "x = ks ! j" unfolding in_set_conv_nth n(1) by blast
        with canonical_stateD(5) [OF c z, of j] p show ?thesis by simp
      qed
      with that show False by blast
    qed
    then show ?thesis unfolding l h ks_def [symmetric] using max same by simp
  qed
qed

end
