(* ===== verification/Directed_Loops.thy ===== *)
theory Directed_Loops
  imports Graph_Canonical
begin

text \<open>
  The loops of \<open>GetDirectedLoops\<close>: if the left turns are a permutation of the edges that leads from each edge to one that starts where it
  ends, then the walks leave loops that contain every edge once.
\<close>

section \<open>Chains of edges\<close>

fun joins :: "graph \<Rightarrow> VertexId \<Rightarrow> EdgeId list \<Rightarrow> VertexId \<Rightarrow> bool" where
  "joins g v [] w \<longleftrightarrow> v = w"
| "joins g v (e # es) w \<longleftrightarrow> fst (edge g e) = v \<and> joins g (snd (edge g e)) es w"

lemma joins_append: "joins g v (p @ q) w \<longleftrightarrow> (\<exists>u. joins g v p u \<and> joins g u q w)"
  by (induction p arbitrary: v) auto

lemma joins_rotate: "joins g v l v \<Longrightarrow> \<exists>u. joins g u (rotate k l) u"
proof -
  assume j: "joins g v l v"
  define n where "n = k mod length l"
  have "joins g v (take n l @ drop n l) v" using j by simp
  then obtain u where "joins g v (take n l) u" "joins g u (drop n l) v" unfolding joins_append by blast
  then have "joins g u (drop n l @ take n l) u" unfolding joins_append by blast
  then show ?thesis unfolding rotate_drop_take n_def by blast
qed

abbreviation starts :: "graph \<Rightarrow> EdgeId list \<Rightarrow> VertexId list" where
  "starts g es \<equiv> map (\<lambda>e. fst (edge g e)) es"

definition loop_ok :: "graph \<Rightarrow> LoopType \<Rightarrow> EdgeId list \<Rightarrow> bool" where
  "loop_ok g lt l \<longleftrightarrow> l \<noteq> [] \<and> (\<exists>v. joins g v l v) \<and> (lt = SIMPLE \<longrightarrow> distinct (starts g l))"

lemma loop_ok_canonical: "loop_ok g lt l \<Longrightarrow> loop_ok g lt (CanonicalizeLoopOrder ids l)"
proof -
  assume l: "loop_ok g lt l"
  obtain k where k: "CanonicalizeLoopOrder ids l = rotate k l" using CanonicalizeLoopOrder_rotation by blast
  have "\<exists>v. joins g v (rotate k l) v" using l joins_rotate unfolding loop_ok_def by blast
  moreover have "distinct (starts g (rotate k l)) = distinct (starts g l)" by (simp add: rotate_map [symmetric])
  ultimately show ?thesis using l unfolding k loop_ok_def by simp
qed

section \<open>Left turns and traces\<close>

definition left_turns :: "graph \<Rightarrow> EdgeId option list \<Rightarrow> bool" where
  "left_turns g ltm \<longleftrightarrow> length ltm = num_edges g \<and>
     (\<forall>e<num_edges g. \<exists>k<num_edges g. ltm ! e = Some k \<and> fst (edge g k) = snd (edge g e)) \<and>
     (\<forall>d<num_edges g. \<forall>e<num_edges g. ltm ! d = ltm ! e \<longrightarrow> d = e)"

abbreviation turn :: "EdgeId option list \<Rightarrow> EdgeId \<Rightarrow> EdgeId" where "turn ltm e \<equiv> the (ltm ! e)"

lemma left_turnsD:
  assumes "left_turns g ltm" "e < num_edges g"
  shows "ltm ! e = Some (turn ltm e)" "turn ltm e < num_edges g" "fst (edge g (turn ltm e)) = snd (edge g e)"
proof -
  from assms obtain k where "k < num_edges g" "ltm ! e = Some k" "fst (edge g k) = snd (edge g e)" unfolding left_turns_def by blast
  then show "ltm ! e = Some (turn ltm e)" "turn ltm e < num_edges g" "fst (edge g (turn ltm e)) = snd (edge g e)" by simp_all
qed

lemma turn_inject:
  assumes "left_turns g ltm" "d < num_edges g" "e < num_edges g" "turn ltm d = turn ltm e"
  shows "d = e"
proof -
  have "ltm ! d = Some (turn ltm d)" by (rule left_turnsD(1) [OF assms(1,2)])
  also have "\<dots> = Some (turn ltm e)" by (simp only: assms(4))
  also have "\<dots> = ltm ! e" by (rule left_turnsD(1) [OF assms(1,3), symmetric])
  finally show ?thesis using assms(1-3) unfolding left_turns_def by blast
qed

fun trace :: "('a \<Rightarrow> 'a) \<Rightarrow> 'a \<Rightarrow> 'a list \<Rightarrow> 'a \<Rightarrow> bool" where
  "trace f a [] b \<longleftrightarrow> a = b"
| "trace f a (x # xs) b \<longleftrightarrow> x = a \<and> trace f (f a) xs b"

lemma trace_snoc: "trace f a (xs @ [x]) b \<longleftrightarrow> trace f a xs x \<and> f x = b"
  by (induction xs arbitrary: a) auto

lemma trace_step: "trace f a xs b \<Longrightarrow> x \<in> set xs \<Longrightarrow> f x \<in> set xs \<or> f x = b"
proof (induction xs arbitrary: a)
  case (Cons y ys)
  then show ?case by (cases ys) auto
qed simp

lemma trace_back: "trace f a xs b \<Longrightarrow> y \<in> set xs \<or> y = b \<Longrightarrow> y = a \<or> (\<exists>x\<in>set xs. f x = y)"
proof (induction xs arbitrary: a)
  case (Cons x xs)
  from Cons.prems(1) have x: "x = a" "trace f (f a) xs b" by simp_all
  show ?case
  proof (cases "y = a")
    case False
    with Cons.prems(2) x(1) have "y \<in> set xs \<or> y = b" by auto
    from Cons.IH [OF x(2) this] x(1) show ?thesis by auto
  qed simp
qed simp

definition turn_closed :: "graph \<Rightarrow> EdgeId option list \<Rightarrow> EdgeId set \<Rightarrow> bool" where
  "turn_closed g ltm V \<longleftrightarrow> (\<forall>e<num_edges g. turn ltm e \<in> V \<longleftrightarrow> e \<in> V)"

text \<open>A trace that comes back to a visited edge comes back to its start.\<close>

lemma trace_closes:
  assumes lt: "left_turns g ltm" and V: "turn_closed g ltm V" and t: "trace (turn ltm) a xs b" and d: "distinct xs" "set xs \<inter> V = {}" "xs \<noteq> []"
    and n: "set xs \<subseteq> {..<num_edges g}" and b: "b \<in> V \<union> set xs"
  shows "b = a"
proof (rule ccontr)
  assume ne: "b \<noteq> a"
  obtain ys y where ys: "xs = ys @ [y]" using d(3) by (metis rev_exhaust)
  have y: "trace (turn ltm) a ys y" "turn ltm y = b" "y < num_edges g" using t n unfolding ys trace_snoc by auto
  have "y \<notin> V" using d(2) ys by auto
  then have "b \<notin> V" using V y(2,3) unfolding turn_closed_def by blast
  then have "b \<in> set xs" using b by blast
  moreover have "b \<in> set ys \<or> b = y" using calculation unfolding ys by auto
  ultimately obtain x where x: "x \<in> set ys" "turn ltm x = b" using trace_back [OF y(1)] ne by blast
  then have "x < num_edges g" using n ys by auto
  then have "x = y" by (rule turn_inject [OF lt _ y(3)]) (simp only: x(2) y(2))
  then show False using x(1) d(1) ys by simp
qed

lemma trace_turn_closed:
  assumes lt: "left_turns g ltm" and V: "turn_closed g ltm V" and t: "trace (turn ltm) a xs a" and n: "set xs \<subseteq> {..<num_edges g}" "xs \<noteq> []"
  shows "turn_closed g ltm (V \<union> set xs)"
  unfolding turn_closed_def
proof (intro allI impI iffI)
  fix e assume e: "e < num_edges g"
  have a: "a \<in> set xs" using t n(2) by (cases xs) auto
  show "turn ltm e \<in> V \<union> set xs" if "e \<in> V \<union> set xs"
    using that V e trace_step [OF t, of e] a unfolding turn_closed_def by blast
  assume "turn ltm e \<in> V \<union> set xs"
  then show "e \<in> V \<union> set xs"
  proof
    assume "turn ltm e \<in> V"
    then show ?thesis using V e unfolding turn_closed_def by blast
  next
    assume m: "turn ltm e \<in> set xs"
    have "\<exists>x\<in>set xs. turn ltm x = turn ltm e"
    proof (cases "turn ltm e = a")
      case True
      obtain ys y where ys: "xs = ys @ [y]" using n(2) by (metis rev_exhaust)
      then have "turn ltm y = a" using t unfolding ys trace_snoc by blast
      then show ?thesis using True ys by auto
    next
      case False
      then show ?thesis using trace_back [OF t, of "turn ltm e"] m by blast
    qed
    then obtain x where x: "x \<in> set xs" "turn ltm x = turn ltm e" by blast
    then have "x = e" using turn_inject [OF lt _ e, of x] n(1) by auto
    then show ?thesis using x(1) by blast
  qed
qed

section \<open>One step of a walk\<close>

definition index_ok :: "graph \<Rightarrow> EdgeId list \<Rightarrow> nat option list \<Rightarrow> bool" where
  "index_ok g p ix \<longleftrightarrow> length ix = num_vertices g \<and>
     (\<forall>v<num_vertices g. \<forall>i. ix ! v = Some i \<longleftrightarrow> i < length p \<and> fst (edge g (p ! i)) = v)"

lemma index_ok_snoc:
  assumes "index_ok g p ix" "fst (edge g e) \<notin> set (starts g p)" "fst (edge g e) < num_vertices g"
  shows "index_ok g (p @ [e]) (ix[fst (edge g e) := Some (length p)])"
  unfolding index_ok_def
proof (intro conjI allI impI)
  show "length (ix[fst (edge g e) := Some (length p)]) = num_vertices g" using assms(1) by (simp add: index_ok_def)
  fix v i assume v: "v < num_vertices g"
  have n: "fst (edge g (p ! i)) \<noteq> fst (edge g e)" if "i < length p" for i
  proof
    assume "fst (edge g (p ! i)) = fst (edge g e)"
    moreover have "starts g p ! i \<in> set (starts g p)" using that by (intro nth_mem) simp
    ultimately show False using assms(2) that by simp
  qed
  have old: "ix ! v = Some i \<longleftrightarrow> i < length p \<and> fst (edge g (p ! i)) = v" "length ix = num_vertices g" using assms(1) v unfolding index_ok_def by blast+
  show "ix[fst (edge g e) := Some (length p)] ! v = Some i \<longleftrightarrow> i < length (p @ [e]) \<and> fst (edge g ((p @ [e]) ! i)) = v"
  proof (cases "v = fst (edge g e)")
    case True
    then have "ix[fst (edge g e) := Some (length p)] ! v = Some (length p)" using v old(2) by simp
    moreover have "i < length (p @ [e]) \<and> fst (edge g ((p @ [e]) ! i)) = v \<longleftrightarrow> i = length p"
      using n [of i] True by (auto simp: nth_append less_Suc_eq)
    ultimately show ?thesis by auto
  next
    case False
    then show ?thesis using old(1) by (auto simp: nth_append less_Suc_eq)
  qed
qed

lemma clear_index: "foldl (\<lambda>ix e. ix[fst (edge g e) := None]) ix l ! v = (if v \<in> set (starts g l) then None else ix ! v)"
  if "v < length ix"
  using that by (induction l arbitrary: ix) (auto simp: nth_list_update)

lemma length_clear_index [simp]: "length (foldl (\<lambda>ix e. ix[fst (edge g e) := None]) ix l) = length ix"
  by (induction l arbitrary: ix) auto

lemma index_ok_clear:
  assumes "index_ok g p ix" "distinct (starts g p)" "k \<le> length p"
  shows "index_ok g (take k p) (foldl (\<lambda>ix e. ix[fst (edge g e) := None]) ix (drop k p))"
  unfolding index_ok_def
proof (intro conjI allI impI)
  show "length (foldl (\<lambda>ix e. ix[fst (edge g e) := None]) ix (drop k p)) = num_vertices g" using assms(1) by (simp add: index_ok_def)
  fix v i assume v: "v < num_vertices g"
  have old: "ix ! v = Some i \<longleftrightarrow> i < length p \<and> fst (edge g (p ! i)) = v" "length ix = num_vertices g" using assms(1) v unfolding index_ok_def by blast+
  have c: "foldl (\<lambda>ix e. ix[fst (edge g e) := None]) ix (drop k p) ! v = (if v \<in> set (starts g (drop k p)) then None else ix ! v)"
    by (rule clear_index) (simp only: v old(2))
  have disj: "set (starts g (take k p)) \<inter> set (starts g (drop k p)) = {}"
  proof -
    have "starts g p = starts g (take k p) @ starts g (drop k p)" by (simp flip: map_append)
    then show ?thesis using assms(2) by (metis distinct_append)
  qed
  show "foldl (\<lambda>ix e. ix[fst (edge g e) := None]) ix (drop k p) ! v = Some i \<longleftrightarrow> i < length (take k p) \<and> fst (edge g (take k p ! i)) = v"
  proof (cases "v \<in> set (starts g (drop k p))")
    case True
    have "fst (edge g (take k p ! i)) \<in> set (starts g (take k p))" if "i < length (take k p)" using nth_mem [OF that] by simp
    then have "\<not> (i < length (take k p) \<and> fst (edge g (take k p ! i)) = v)" using True disj by blast
    then show ?thesis unfolding c using True by simp
  next
    case False
    have "i < length (take k p) \<and> fst (edge g (take k p ! i)) = v \<longleftrightarrow> i < length p \<and> fst (edge g (p ! i)) = v"
    proof
      assume p: "i < length p \<and> fst (edge g (p ! i)) = v"
      have "i < k"
      proof (rule ccontr)
        assume "\<not> i < k"
        then have "p ! i = drop k p ! (i - k)" "i - k < length (drop k p)" using p assms(3) by auto
        then have "p ! i \<in> set (drop k p)" using nth_mem by metis
        then show False using False p by auto
      qed
      then show "i < length (take k p) \<and> fst (edge g (take k p ! i)) = v" using p by simp
    qed auto
    then show ?thesis unfolding c using False old(1) by simp
  qed
qed

section \<open>A walk\<close>

definition edges_valid :: "graph \<Rightarrow> bool" where
  "edges_valid g \<longleftrightarrow> (\<forall>e<num_edges g. fst (edge g e) < num_vertices g \<and> snd (edge g e) < num_vertices g)"

definition path_ok :: "graph \<Rightarrow> LoopType \<Rightarrow> EdgeId list list \<Rightarrow> EdgeId \<Rightarrow> loop_state \<Rightarrow> bool" where
  "path_ok g lt ls0 e st \<longleftrightarrow>
     (if lt = SIMPLE then index_ok g (ls_path st) (ls_path_index st) \<and> distinct (starts g (ls_path st @ [e])) else ls_loops st = ls0)"

definition unvisited :: "graph \<Rightarrow> EdgeId option list \<Rightarrow> EdgeId set \<Rightarrow> EdgeId option list" where
  "unvisited g ltm V = map (\<lambda>x. if x \<in> V then None else ltm ! x) [0..<num_edges g]"

definition loops_ok :: "graph \<Rightarrow> LoopType \<Rightarrow> EdgeId list list \<Rightarrow> EdgeId \<Rightarrow> EdgeId list \<Rightarrow> EdgeId \<Rightarrow> loop_state \<Rightarrow> bool" where
  "loops_ok g lt ls0 a xs e st \<longleftrightarrow> mset (concat (ls_loops st)) + mset (ls_path st) = mset (concat ls0) + mset xs \<and>
     (\<forall>l\<in>set (ls_loops st). loop_ok g lt l) \<and> joins g (fst (edge g a)) (ls_path st) (fst (edge g e)) \<and> path_ok g lt ls0 e st"

lemma unvisited_update: "e < num_edges g \<Longrightarrow> (unvisited g ltm V)[e := None] = unvisited g ltm (insert e V)"
  unfolding unvisited_def by (rule nth_equalityI) (auto simp: nth_list_update)

lemma visit_edge_circuit:
  assumes "loops_ok g CIRCUIT ls0 a xs e st" "fst (edge g k) = snd (edge g e)"
  shows "loops_ok g CIRCUIT ls0 a (xs @ [e]) k (visit_edge g ids CIRCUIT e st)"
proof -
  have v: "visit_edge g ids CIRCUIT e st = st\<lparr>ls_path := ls_path st @ [e], ls_left_turn_map := (ls_left_turn_map st)[e := None]\<rparr>"
    by (simp add: visit_edge_def Let_def)
  have "joins g (fst (edge g a)) (ls_path st @ [e]) (fst (edge g k))" using assms by (simp add: joins_append loops_ok_def)
  moreover have "mset (concat (ls_loops st)) + mset (ls_path st) = mset (concat ls0) + mset xs" using assms(1) by (simp add: loops_ok_def)
  then have "mset (concat (ls_loops st)) + mset (ls_path st @ [e]) = mset (concat ls0) + mset (xs @ [e])" by simp
  ultimately show ?thesis using assms(1) unfolding v loops_ok_def path_ok_def by simp
qed

lemma peel_index:
  assumes "index_ok g p ix" "ix ! v = Some k" "v < num_vertices g"
  shows "k < length p" "fst (edge g (p ! k)) = v"
  using assms unfolding index_ok_def by blast+

lemma visit_edge_simple:
  assumes l: "loops_ok g SIMPLE ls0 a xs e st" and k: "fst (edge g k) = snd (edge g e)" and ev: "edges_valid g" "e < num_edges g"
  shows "loops_ok g SIMPLE ls0 a (xs @ [e]) k (visit_edge g ids SIMPLE e st)"
proof -
  define p where "p = ls_path st @ [e]"
  define ix where "ix = (ls_path_index st)[fst (edge g e) := Some (length (ls_path st))]"
  define st1 where "st1 = st\<lparr>ls_path := p, ls_left_turn_map := (ls_left_turn_map st)[e := None], ls_path_index := ix\<rparr>"
  have v: "visit_edge g ids SIMPLE e st = (case ix ! snd (edge g e) of None \<Rightarrow> st1 | Some b \<Rightarrow> peel_loop g ids b st1)"
    by (simp add: visit_edge_def Let_def st1_def p_def ix_def cong: option.case_cong)
  have old: "index_ok g (ls_path st) (ls_path_index st)" "distinct (starts g p)" using l by (simp_all add: loops_ok_def path_ok_def p_def)
  have valid: "fst (edge g e) < num_vertices g" "snd (edge g e) < num_vertices g" using ev unfolding edges_valid_def by blast+
  have ix: "index_ok g p ix" unfolding p_def ix_def by (rule index_ok_snoc [OF old(1) _ valid(1)]) (use old(2) in \<open>simp add: p_def\<close>)
  have j: "joins g (fst (edge g a)) p (fst (edge g k))" using l k by (simp add: joins_append loops_ok_def p_def)
  have m: "mset (concat (ls_loops st)) + mset p = mset (concat ls0) + mset (xs @ [e])"
  proof -
    have "mset (concat (ls_loops st)) + mset (ls_path st) = mset (concat ls0) + mset xs" using l by (simp add: loops_ok_def)
    then show ?thesis by (simp add: p_def)
  qed
  have lo: "\<forall>l\<in>set (ls_loops st). loop_ok g SIMPLE l" using l by (simp add: loops_ok_def)
  show ?thesis
  proof (cases "ix ! snd (edge g e)")
    case None
    have "fst (edge g k) \<notin> set (starts g p)"
    proof
      assume "fst (edge g k) \<in> set (starts g p)"
      then obtain i where "i < length p" "fst (edge g (p ! i)) = snd (edge g e)" using k by (auto simp: in_set_conv_nth)
      then have "ix ! snd (edge g e) = Some i" using ix valid(2) unfolding index_ok_def by blast
      with None show False by simp
    qed
    then have "distinct (starts g (p @ [k]))" using old(2) by simp
    then show ?thesis using j m lo ix unfolding v None loops_ok_def path_ok_def st1_def by simp
  next
    case (Some b)
    note b = peel_index [OF ix Some valid(2)]
    define l where "l = drop b p"
    have pl: "p = take b p @ l" by (simp add: l_def)
    have lne: "l \<noteq> []" "hd l = p ! b" using b(1) by (simp_all add: l_def hd_drop_conv_nth)
    have w: "visit_edge g ids SIMPLE e st = st\<lparr>ls_path := take b p, ls_left_turn_map := (ls_left_turn_map st)[e := None],
        ls_path_index := foldl (\<lambda>ix e. ix[fst (edge g e) := None]) ix l, ls_loops := ls_loops st @ [CanonicalizeLoopOrder ids l]\<rparr>"
      unfolding v Some by (simp add: peel_loop_def st1_def Let_def l_def)
    obtain u where u: "joins g (fst (edge g a)) (take b p) u" "joins g u l (fst (edge g k))"
      using j pl joins_append by metis
    have "u = fst (edge g (hd l))" using u(2) lne(1) by (cases l) auto
    then have uk: "u = fst (edge g k)" using b(2) k lne(2) by simp
    have "distinct (starts g l)" using old(2) pl by (metis distinct_append map_append)
    then have "loop_ok g SIMPLE l" using u(2) uk lne(1) unfolding loop_ok_def by blast
    then have lo': "loop_ok g SIMPLE (CanonicalizeLoopOrder ids l)" by (rule loop_ok_canonical)
    have m': "mset (concat (ls_loops st @ [CanonicalizeLoopOrder ids l])) + mset (take b p) = mset (concat ls0) + mset (xs @ [e])"
    proof -
      have c: "mset (CanonicalizeLoopOrder ids l) = mset l" by (rule mset_CanonicalizeLoopOrder)
      have "mset p = mset (take b p) + mset l" by (subst pl) simp
      with m c show ?thesis by (simp add: ac_simps)
    qed
    have ix': "index_ok g (take b p) (foldl (\<lambda>ix e. ix[fst (edge g e) := None]) ix l)"
      unfolding l_def by (rule index_ok_clear [OF ix old(2)]) (use b(1) in simp)
    have "distinct (starts g (take b p @ [k]))"
    proof -
      have "distinct (take (Suc b) (starts g p))" using old(2) by (rule distinct_take)
      moreover have "take (Suc b) (starts g p) = starts g (take b p @ [p ! b])" using b(1) by (simp add: take_map take_Suc_conv_app_nth)
      ultimately show ?thesis using b(2) k by simp
    qed
    then show ?thesis using u(1) uk m' lo lo' ix' unfolding w loops_ok_def path_ok_def by simp
  qed
qed

lemma visit_edge_loops:
  assumes "loops_ok g lt ls0 a xs e st" "fst (edge g k) = snd (edge g e)" "edges_valid g" "e < num_edges g"
  shows "loops_ok g lt ls0 a (xs @ [e]) k (visit_edge g ids lt e st)"
proof (cases lt)
  case SIMPLE
  show ?thesis unfolding SIMPLE by (rule visit_edge_simple [OF assms(1) [unfolded SIMPLE] assms(2-4)])
next
  case CIRCUIT
  show ?thesis unfolding CIRCUIT by (rule visit_edge_circuit [OF assms(1) [unfolded CIRCUIT] assms(2)])
qed

definition walked :: "graph \<Rightarrow> EdgeId option list \<Rightarrow> LoopType \<Rightarrow> EdgeId set \<Rightarrow> EdgeId list list \<Rightarrow> EdgeId \<Rightarrow> EdgeId list \<Rightarrow> EdgeId \<Rightarrow> loop_state \<Rightarrow> bool" where
  "walked g ltm lt V ls0 a xs e st \<longleftrightarrow> trace (turn ltm) a xs e \<and> distinct xs \<and> set xs \<inter> V = {} \<and> set xs \<subseteq> {..<num_edges g} \<and> e < num_edges g \<and>
     ls_left_turn_map st = unvisited g ltm (V \<union> set xs) \<and> loops_ok g lt ls0 a xs e st"

lemma walk_edges_result:
  assumes lt: "left_turns g ltm" and V: "turn_closed g ltm V" and ev: "edges_valid g" and a: "a \<notin> V"
    and w: "walked g ltm lt V ls0 a xs e st"
  shows "\<exists>ys. ys \<noteq> [] \<and> walked g ltm lt V ls0 a ys a (walk_edges g ids lt e st)"
  using w
proof (induction "num_edges g - length xs" arbitrary: xs e st rule: less_induct)
  case less
  have w: "trace (turn ltm) a xs e" "distinct xs" "set xs \<inter> V = {}" "set xs \<subseteq> {..<num_edges g}" "e < num_edges g"
    "ls_left_turn_map st = unvisited g ltm (V \<union> set xs)" "loops_ok g lt ls0 a xs e st"
    using less.prems unfolding walked_def by - (elim conjE, assumption)+
  have e: "e < length (ls_left_turn_map st)" unfolding w(6) unvisited_def using w(5) by simp
  have le: "ls_left_turn_map st ! e = (if e \<in> V \<union> set xs then None else ltm ! e)" unfolding w(6) unvisited_def using w(5) by simp
  show ?case
  proof (cases "e \<in> V \<union> set xs")
    case True
    have "ls_left_turn_map st ! e = None" using le True by (simp only: if_True)
    then have "walk_edges g ids lt e st = st" using e by (subst walk_edges.simps) simp
    moreover have ne: "xs \<noteq> []"
    proof
      assume x: "xs = []"
      then have "e = a" using w(1) by simp
      then show False using True a x by simp
    qed
    moreover have "e = a" by (rule trace_closes [OF lt V w(1-3) ne w(4) True])
    ultimately show ?thesis using less.prems by metis
  next
    case False
    let ?k = "turn ltm e"
    note t = left_turnsD [OF lt w(5)]
    have "ls_left_turn_map st ! e = Some ?k" using le False t(1) by (simp only: if_False)
    then have step: "walk_edges g ids lt e st = walk_edges g ids lt ?k (visit_edge g ids lt e st)" using e by (subst walk_edges.simps) simp
    have sub: "set (xs @ [e]) \<subseteq> {..<num_edges g}" "distinct (xs @ [e])" using w(2,4,5) False by simp_all
    then have "length (xs @ [e]) \<le> num_edges g" using card_mono [OF finite_lessThan sub(1)] distinct_card [OF sub(2)] by simp
    then have small: "num_edges g - length (xs @ [e]) < num_edges g - length xs" by simp
    have "trace (turn ltm) a (xs @ [e]) ?k" using w(1) unfolding trace_snoc by blast
    moreover have "set (xs @ [e]) \<inter> V = {}" using w(3) False by auto
    moreover have "V \<union> set (xs @ [e]) = insert e (V \<union> set xs)" by auto
    then have "ls_left_turn_map (visit_edge g ids lt e st) = unvisited g ltm (V \<union> set (xs @ [e]))"
      unfolding visit_edge_ltm w(6) by (simp only: unvisited_update [OF w(5)])
    moreover have "loops_ok g lt ls0 a (xs @ [e]) ?k (visit_edge g ids lt e st)" by (rule visit_edge_loops [OF w(7) t(3) ev w(5)])
    ultimately have "walked g ltm lt V ls0 a (xs @ [e]) ?k (visit_edge g ids lt e st)" unfolding walked_def using sub t(2) by (intro conjI)
    from less.hyps [OF small this] show ?thesis unfolding step .
  qed
qed

section \<open>All loops\<close>

definition built :: "graph \<Rightarrow> EdgeId option list \<Rightarrow> LoopType \<Rightarrow> loop_state \<Rightarrow> bool" where
  "built g ltm lt st \<longleftrightarrow> ls_path st = [] \<and> ls_left_turn_map st = unvisited g ltm (set (concat (ls_loops st))) \<and>
     distinct (concat (ls_loops st)) \<and> set (concat (ls_loops st)) \<subseteq> {..<num_edges g} \<and> turn_closed g ltm (set (concat (ls_loops st))) \<and>
     (\<forall>l\<in>set (ls_loops st). loop_ok g lt l) \<and> (lt = SIMPLE \<longrightarrow> index_ok g [] (ls_path_index st))"

lemma build_from_edge_result:
  assumes lt: "left_turns g ltm" and ev: "edges_valid g" and b: "built g ltm lt st" and a: "a < num_edges g"
  shows "built g ltm lt (build_from_edge g ids lt a st) \<and>
    insert a (set (concat (ls_loops st))) \<subseteq> set (concat (ls_loops (build_from_edge g ids lt a st)))"
proof -
  define V where "V = set (concat (ls_loops st))"
  note b' = b [unfolded built_def, folded V_def]
  show ?thesis
  proof (cases "a \<in> V")
    case True
    then have "ls_left_turn_map st ! a = None" using b' a by (simp add: unvisited_def)
    then have "build_from_edge g ids lt a st = st" by (simp add: build_from_edge_def)
    then show ?thesis using b True by (simp add: V_def)
  next
    case False
    define k where "k = turn ltm a"
    have "ls_left_turn_map st ! a = ltm ! a" using b' a False by (simp add: unvisited_def)
    also have "ltm ! a = Some k" unfolding k_def by (rule left_turnsD(1) [OF lt a])
    finally have some: "(ls_left_turn_map st ! a = None) = False" by simp
    have "walked g ltm lt V (ls_loops st) a [] a st"
      unfolding walked_def loops_ok_def path_ok_def using b' a by simp
    from walk_edges_result [OF lt _ ev False this, of ids] obtain ys where
      ys: "ys \<noteq> []" "walked g ltm lt V (ls_loops st) a ys a (walk_edges g ids lt a st)" using b' by blast
    define st1 where "st1 = walk_edges g ids lt a st"
    have w: "trace (turn ltm) a ys a" "distinct ys" "set ys \<inter> V = {}" "set ys \<subseteq> {..<num_edges g}"
      "ls_left_turn_map st1 = unvisited g ltm (V \<union> set ys)"
      "mset (concat (ls_loops st1)) + mset (ls_path st1) = mset (concat (ls_loops st)) + mset ys"
      "\<forall>l\<in>set (ls_loops st1). loop_ok g lt l" "joins g (fst (edge g a)) (ls_path st1) (fst (edge g a))" "path_ok g lt (ls_loops st) a st1"
      using ys(2) unfolding walked_def loops_ok_def st1_def by simp_all
    define st2 where "st2 = build_from_edge g ids lt a st"
    have st2: "ls_path st2 = [] \<and> ls_left_turn_map st2 = ls_left_turn_map st1 \<and> mset (concat (ls_loops st2)) = mset (concat (ls_loops st)) + mset ys \<and>
        (\<forall>l\<in>set (ls_loops st2). loop_ok g lt l) \<and> (lt = SIMPLE \<longrightarrow> index_ok g [] (ls_path_index st2))"
    proof (cases lt)
      case SIMPLE
      have e: "st2 = st1" unfolding st2_def st1_def build_from_edge_def some if_False Let_def SIMPLE by simp
      have "ls_path st1 = []"
      proof (rule ccontr)
        assume "ls_path st1 \<noteq> []"
        then obtain x p where p: "ls_path st1 = x # p" by (cases "ls_path st1") auto
        then have "fst (edge g x) = fst (edge g a)" using w(8) by simp
        then show False using w(9) p SIMPLE by (simp add: path_ok_def)
      qed
      then show ?thesis using w(6,7,9) SIMPLE unfolding e path_ok_def by simp
    next
      case CIRCUIT
      have l: "ls_loops st1 = ls_loops st" using w(9) CIRCUIT by (simp add: path_ok_def)
      have p: "mset (ls_path st1) = mset ys" using w(6) unfolding l by simp
      then have "ls_path st1 \<noteq> []" using ys(1) by auto
      then have ok: "loop_ok g CIRCUIT (CanonicalizeLoopOrder ids (ls_path st1))"
        using w(8) by (intro loop_ok_canonical) (auto simp: loop_ok_def)
      have "st2 = st1\<lparr>ls_loops := ls_loops st1 @ [CanonicalizeLoopOrder ids (ls_path st1)], ls_path := []\<rparr>"
        unfolding st2_def st1_def build_from_edge_def some if_False Let_def CIRCUIT by simp
      then show ?thesis using p ok w(7) CIRCUIT by (simp add: l)
    qed
    have m: "mset (concat (ls_loops st2)) = mset (concat (ls_loops st) @ ys)" using st2 by simp
    have s: "set (concat (ls_loops st2)) = V \<union> set ys" unfolding V_def using mset_eq_setD [OF m] by simp
    have "distinct (concat (ls_loops st) @ ys)" using b' w(2,3) unfolding V_def by auto
    then have "distinct (concat (ls_loops st2))" using mset_eq_imp_distinct_iff [OF m] by blast
    moreover have "turn_closed g ltm (V \<union> set ys)" by (rule trace_turn_closed [OF lt _ w(1,4) ys(1)]) (use b' in blast)
    moreover have "a \<in> set ys" using w(1) ys(1) by (cases ys) auto
    ultimately show ?thesis unfolding st2_def [symmetric] built_def s V_def [symmetric] using st2 w(4,5) b' by auto
  qed
qed

lemma build_all:
  assumes lt: "left_turns g ltm" and ev: "edges_valid g" and b: "built g ltm lt st" and es: "set es \<subseteq> {..<num_edges g}"
  shows "built g ltm lt (fold (build_from_edge g ids lt) es st) \<and> set es \<union> set (concat (ls_loops st)) \<subseteq> set (concat (ls_loops (fold (build_from_edge g ids lt) es st)))"
  using b es
proof (induction es arbitrary: st)
  case (Cons e es)
  from Cons.prems(2) have e: "e < num_edges g" "set es \<subseteq> {..<num_edges g}" by simp_all
  note r = build_from_edge_result [OF lt ev Cons.prems(1) e(1), of ids]
  have "built g ltm lt (build_from_edge g ids lt e st)" using r by (rule conjunct1)
  from Cons.IH [OF this e(2)] r show ?case unfolding fold_Cons o_apply list.set by (intro conjI) (elim conjE, assumption, blast)
qed simp

definition all_loops :: "graph \<Rightarrow> int32 list \<Rightarrow> LoopType \<Rightarrow> EdgeId option list \<Rightarrow> loop_state" where
  "all_loops g ids lt ltm = fold (build_from_edge g ids lt) [0..<num_edges g]
     \<lparr>ls_path = [], ls_path_index = (if lt = SIMPLE then replicate (num_vertices g) None else []), ls_left_turn_map = ltm, ls_loops = []\<rparr>"

lemma all_loops_result:
  assumes lt: "left_turns g ltm" and ev: "edges_valid g"
  shows "mset (concat (ls_loops (all_loops g ids lt ltm))) = mset [0..<num_edges g]"
    "l \<in> set (ls_loops (all_loops g ids lt ltm)) \<Longrightarrow> loop_ok g lt l"
proof -
  let ?st = "\<lparr>ls_path = [], ls_path_index = (if lt = SIMPLE then replicate (num_vertices g) None else []), ls_left_turn_map = ltm, ls_loops = []\<rparr>"
  have "length ltm = num_edges g" using lt unfolding left_turns_def by blast
  then have "unvisited g ltm {} = ltm" unfolding unvisited_def by (intro nth_equalityI) simp_all
  moreover have "turn_closed g ltm {}" by (simp add: turn_closed_def)
  moreover have "index_ok g [] (replicate (num_vertices g) None)" by (simp add: index_ok_def)
  ultimately have "built g ltm lt ?st" by (simp add: built_def)
  then have st: "built g ltm lt ?st" .
  have "set [0..<num_edges g] \<subseteq> {..<num_edges g}" by (simp only: atLeast_upt [symmetric] subset_refl)
  note r = build_all [OF lt ev st this, of ids, folded all_loops_def]
  have b: "built g ltm lt (all_loops g ids lt ltm)" using r by (rule conjunct1)
  have c: "set [0..<num_edges g] \<subseteq> set (concat (ls_loops (all_loops g ids lt ltm)))" using r by blast
  have d: "distinct (concat (ls_loops (all_loops g ids lt ltm)))" "set (concat (ls_loops (all_loops g ids lt ltm))) \<subseteq> {..<num_edges g}"
    "\<forall>l\<in>set (ls_loops (all_loops g ids lt ltm)). loop_ok g lt l" using b unfolding built_def by blast+
  have "set (concat (ls_loops (all_loops g ids lt ltm))) = set [0..<num_edges g]" using c d(2) unfolding atLeast_upt by (intro equalityI)
  then show "mset (concat (ls_loops (all_loops g ids lt ltm))) = mset [0..<num_edges g]"
    using d(1) by (simp only: set_eq_iff_mset_eq_distinct distinct_upt)
  show "l \<in> set (ls_loops (all_loops g ids lt ltm)) \<Longrightarrow> loop_ok g lt l" using d(3) by (rule bspec)
qed

lemma mset_concat_cong: "mset ls = mset ls' \<Longrightarrow> mset (concat ls) = mset (concat ls')"
  by (simp only: mset_concat mset_map flip: sum_mset_sum_list)

end
