(* ===== verification/Left_Turns.thy ===== *)
theory Left_Turns
  imports Directed_Loops
begin

text \<open>
  \<open>GetLeftTurnMap\<close>: at each vertex the incoming and the outgoing edges are gathered and matched, whatever their order around the vertex;
  the matched pairs are a permutation of all edges unless some vertex has more incoming than outgoing edges.
\<close>

section \<open>Matching\<close>

abbreviation link :: "EdgeId option list \<Rightarrow> (EdgeId \<times> EdgeId) list \<Rightarrow> EdgeId option list" where
  "link ltm ps \<equiv> foldl (\<lambda>l p. l[fst p := Some (snd p)]) ltm ps"

lemma link_nth:
  "a < length ltm \<Longrightarrow> distinct (map fst ps) \<Longrightarrow> (a, b) \<in> set ps \<Longrightarrow> link ltm ps ! a = Some b"
proof (induction ps rule: rev_induct)
  case (snoc p ps)
  have len: "length (link ltm ps) = length ltm" by (induction ps rule: rev_induct) simp_all
  show ?case
  proof (cases "fst p = a")
    case True
    then have "snd p = b" using snoc.prems(2,3) by (cases p) (force simp: image_iff)
    then show ?thesis using True snoc.prems(1) len by simp
  next
    case False
    then have "(a, b) \<in> set ps" using snoc.prems(3) by auto
    then show ?thesis using snoc.IH snoc.prems(1,2) False by simp
  qed
qed simp

lemma length_link [simp]: "length (link ltm ps) = length ltm"
  by (induction ps rule: rev_induct) simp_all

definition ve_ins :: "EdgeId list \<Rightarrow> vertex_edge list \<Rightarrow> EdgeId list" where
  "ve_ins ids ves = map (\<lambda>e. ids ! ve_index e) (filter incoming ves)"

definition ve_outs :: "vertex_edge list \<Rightarrow> EdgeId list" where
  "ve_outs ves = map ve_index (filter (\<lambda>e. \<not> incoming e) ves)"

lemma ve_simps [simp]:
  "ve_ins ids [] = []" "ve_outs [] = []"
  "ve_ins ids (e # ves) = (if incoming e then [ids ! ve_index e] else []) @ ve_ins ids ves"
  "ve_outs (e # ves) = (if incoming e then [] else [ve_index e]) @ ve_outs ves"
  by (simp_all add: ve_ins_def ve_outs_def)

lemma match_fold:
  "fold (match_edge ids) ves (ei, eo, ltm) = (ei', eo', ltm') \<Longrightarrow>
    \<exists>ps. ltm' = link ltm ps \<and> mset (map fst ps) + mset ei' = mset ei + mset (ve_ins ids ves) \<and>
      mset (map snd ps) + mset eo' = mset eo + mset (ve_outs ves)"
proof (induction ves arbitrary: ei eo ltm)
  case Nil
  then show ?case by (intro exI [of _ "[]"]) simp
next
  case (Cons e ves)
  show ?case
  proof (cases "incoming e")
    case True
    then have "match_edge ids e (ei, eo, ltm) = (ids ! ve_index e # ei, eo, ltm)" by (simp add: match_edge_def)
    with Cons.prems have "fold (match_edge ids) ves (ids ! ve_index e # ei, eo, ltm) = (ei', eo', ltm')" by simp
    from Cons.IH [OF this] True show ?thesis by simp
  next
    case out: False
    show ?thesis
    proof (cases ei)
      case Nil
      with out have "match_edge ids e (ei, eo, ltm) = (ei, ve_index e # eo, ltm)" by (simp add: match_edge_def)
      with Cons.prems have "fold (match_edge ids) ves (ei, ve_index e # eo, ltm) = (ei', eo', ltm')" by simp
      from Cons.IH [OF this] out show ?thesis by simp
    next
      case c: (Cons x xs)
      with out have "match_edge ids e (ei, eo, ltm) = (xs, eo, ltm[x := Some (ve_index e)])" by (simp add: match_edge_def)
      with Cons.prems have "fold (match_edge ids) ves (xs, eo, ltm[x := Some (ve_index e)]) = (ei', eo', ltm')" by simp
      from Cons.IH [OF this] obtain ps where "ltm' = link (ltm[x := Some (ve_index e)]) ps"
        "mset (map fst ps) + mset ei' = mset xs + mset (ve_ins ids ves)" "mset (map snd ps) + mset eo' = mset eo + mset (ve_outs ves)" by blast
      then show ?thesis using out c by (intro exI [of _ "(x, ve_index e) # ps"]) simp
    qed
  qed
qed

lemma match_rest_result:
  "match_rest ei eo ltm = (ei', ltm') \<Longrightarrow>
    \<exists>ps rest. ltm' = link ltm ps \<and> mset (map fst ps) + mset ei' = mset ei \<and> mset (map snd ps) + mset rest = mset eo \<and> (ei' = [] \<or> rest = [])"
proof (induction ei arbitrary: eo ltm)
  case Nil
  then show ?case by (intro exI [of _ "[]"] exI [of _ eo]) simp
next
  case (Cons i ei)
  show ?case
  proof (cases eo)
    case Nil
    then show ?thesis using Cons.prems by (intro exI [of _ "[]"]) simp
  next
    case c: (Cons k eo1)
    with Cons.prems have "match_rest ei eo1 (ltm[i := Some k]) = (ei', ltm')" by simp
    from Cons.IH [OF this] obtain ps rest where "ltm' = link (ltm[i := Some k]) ps" "mset (map fst ps) + mset ei' = mset ei"
      "mset (map snd ps) + mset rest = mset eo1" "ei' = [] \<or> rest = []" by blast
    then show ?thesis unfolding c by (intro exI [of _ "(i, k) # ps"] exI [of _ rest]) simp
  qed
qed

lemma match_edges_result:
  assumes "match_edges ids ves ltm = (ei', ltm')"
  shows "\<exists>ps rest. ltm' = link ltm ps \<and> mset (map fst ps) + mset ei' = mset (ve_ins ids ves) \<and>
    mset (map snd ps) + mset rest = mset (ve_outs ves) \<and> (ei' = [] \<or> rest = [])"
proof -
  obtain ei eo l where f: "fold (match_edge ids) ves ([], [], ltm) = (ei, eo, l)" by (cases "fold (match_edge ids) ves ([], [], ltm)") auto
  with assms have r: "match_rest ei (rev eo) l = (ei', ltm')" by (simp add: match_edges_def)
  from match_fold [OF f] obtain ps where ps: "l = link ltm ps" "mset (map fst ps) + mset ei = mset (ve_ins ids ves)"
    "mset (map snd ps) + mset eo = mset (ve_outs ves)" by auto
  from match_rest_result [OF r] obtain qs rest where qs: "ltm' = link l qs" "mset (map fst qs) + mset ei' = mset ei"
    "mset (map snd qs) + mset rest = mset eo" "ei' = [] \<or> rest = []" by auto
  have "ltm' = link ltm (ps @ qs)" by (simp add: qs(1) ps(1))
  moreover have "mset (map fst (ps @ qs)) + mset ei' = mset (ve_ins ids ves)" by (simp only: ps(2) [symmetric] qs(2) [symmetric] map_append mset_append ac_simps)
  moreover have "mset (map snd (ps @ qs)) + mset rest = mset (ve_outs ves)" by (simp only: ps(3) [symmetric] qs(3) [symmetric] map_append mset_append ac_simps)
  ultimately show ?thesis using qs(4) by blast
qed

section \<open>Gathering\<close>

abbreviation item :: "vertex_edge \<Rightarrow> bool \<times> nat" where "item e \<equiv> (incoming e, ve_index e)"

definition items :: "nat \<Rightarrow> nat \<Rightarrow> nat \<Rightarrow> nat \<Rightarrow> (bool \<times> nat) multiset" where
  "items ob oe ib ie = mset (map (Pair False) [ob..<oe]) + mset (map (Pair True) [ib..<ie])"

lemma AddVertexEdges_items:
  "ob \<le> oe \<Longrightarrow> ib \<le> ie \<Longrightarrow> mset (map item (AddVertexEdges ob oe ib ie v1 rk ve)) = mset (map item ve) + items ob oe ib ie"
proof (induction ob oe ib ie v1 rk ve rule: AddVertexEdges.induct)
  case (1 ob oe ib ie v1 rk ve)
  have last: "mset_set {ib..<ie} = add_mset (ie - Suc 0) (mset_set {ib..<ie - Suc 0})" if "ib < ie"
    using that by (cases ie) (simp_all add: atLeastLessThanSuc)
  have first: "mset_set {ob..<oe} = add_mset ob (mset_set {Suc ob..<oe})" if "ob < oe"
  proof -
    have "{ob..<oe} = insert ob {Suc ob..<oe}" using that by auto
    then show ?thesis by simp
  qed
  consider (a) "ie - ib > oe - ob" | (b) "\<not> ie - ib > oe - ob" "ie > ib" | (c) "\<not> ie - ib > oe - ob" "\<not> ie > ib" "oe > ob"
    | (d) "\<not> ie - ib > oe - ob" "\<not> ie > ib" "\<not> oe > ob" by blast
  then show ?case
  proof cases
    case a
    then have l: "ib < ie" "ib \<le> ie - 1" by auto
    show ?thesis using "1.IH"(1) [OF a "1.prems"(1) l(2)] a by (subst AddVertexEdges.simps) (simp add: items_def last [OF l(1)])
  next
    case b
    then have l: "ob < oe" "ob + 1 \<le> oe" "ib \<le> ie - 1" by auto
    show ?thesis using "1.IH"(2) [OF b l(2,3)] b by (subst AddVertexEdges.simps) (simp add: items_def last [OF b(2)] first [OF l(1)])
  next
    case c
    then have l: "ob + 1 \<le> oe" by auto
    show ?thesis using "1.IH"(3) [OF c l "1.prems"(2)] c by (subst AddVertexEdges.simps) (simp add: items_def first [OF c(3)])
  next
    case d
    then show ?thesis by (subst AddVertexEdges.simps) (simp add: items_def)
  qed
qed

lemma items_split: "i \<le> i1 \<Longrightarrow> i1 \<le> i' \<Longrightarrow> j \<le> j1 \<Longrightarrow> j1 \<le> j' \<Longrightarrow> items i i' j j' = items i i1 j j1 + items i1 i' j1 j'"
proof -
  assume a: "i \<le> i1" "i1 \<le> i'" "j \<le> j1" "j1 \<le> j'"
  then have "[i..<i'] = [i..<i1] @ [i1..<i']" "[j..<j'] = [j..<j1] @ [j1..<j']"
    using upt_add_eq_append [of i i1 "i' - i1"] upt_add_eq_append [of j j1 "j' - j1"] by simp_all
  then show ?thesis by (simp add: items_def)
qed

lemma skip_while_holds: "i \<le> k \<Longrightarrow> k < skip_while p n i \<Longrightarrow> p k \<and> k < n"
proof (induction p n i rule: skip_while.induct)
  case (1 p n i)
  show ?case
  proof (cases "i < n \<and> p i")
    case True
    with "1.prems"(2) have s: "k < skip_while p n (i + 1)" by (subst (asm) skip_while.simps) simp
    show ?thesis
    proof (cases "k = i")
      case True
      with \<open>i < n \<and> p i\<close> show ?thesis by simp
    next
      case False
      with "1.prems"(1) have "i + 1 \<le> k" by simp
      from "1.IH" [OF True this s] show ?thesis .
    qed
  next
    case False
    then have "skip_while p n i = i" by (subst skip_while.simps) (rule if_not_P)
    with "1.prems" show ?thesis by simp
  qed
qed

definition graph_ok :: "graph \<Rightarrow> bool" where
  "graph_ok g \<longleftrightarrow> sorted (graph_edges g) \<and> edges_valid g \<and> (\<forall>e<num_edges g. fst (edge g e) \<noteq> snd (edge g e))"

lemma in_edge_ids:
  "mset (GetInEdgeIds g) = mset [0..<num_edges g]" "length (GetInEdgeIds g) = num_edges g"
  "k < num_edges g \<Longrightarrow> GetInEdgeIds g ! k < num_edges g"
  "k \<le> l \<Longrightarrow> l < num_edges g \<Longrightarrow> reverse (edge g (GetInEdgeIds g ! k)) \<le> reverse (edge g (GetInEdgeIds g ! l))"
proof -
  note s = sort_ids [of "\<lambda>i. reverse (edge g i)" "num_edges g", folded GetInEdgeIds_def]
  show "mset (GetInEdgeIds g) = mset [0..<num_edges g]" by (rule s(1))
  show len: "length (GetInEdgeIds g) = num_edges g" by (rule s(2))
  show "GetInEdgeIds g ! k < num_edges g" if "k < num_edges g"
  proof -
    have "GetInEdgeIds g ! k \<in> set (GetInEdgeIds g)" using that len by (intro nth_mem) simp
    then show ?thesis unfolding s(3) by simp
  qed
  show "reverse (edge g (GetInEdgeIds g ! k)) \<le> reverse (edge g (GetInEdgeIds g ! l))" if "k \<le> l" "l < num_edges g"
    using sorted_nth_mono [OF s(6) that(1)] that len by simp
qed

lemma min_edge_least:
  assumes "graph_ok g"
  shows "i \<le> k \<Longrightarrow> k < num_edges g \<Longrightarrow> min_edge_at g (GetInEdgeIds g) i j \<le> edge g k"
    "j \<le> k \<Longrightarrow> k < num_edges g \<Longrightarrow> min_edge_at g (GetInEdgeIds g) i j \<le> reverse (edge g (GetInEdgeIds g ! k))"
proof -
  assume k: "i \<le> k" "k < num_edges g"
  have "sorted (graph_edges g)" using assms unfolding graph_ok_def by blast
  then have "edge g i \<le> edge g k" unfolding edge_def by (rule sorted_nth_mono) (use k in \<open>simp_all add: num_edges_def\<close>)
  moreover have "min_edge_at g (GetInEdgeIds g) i j \<le> edge g i" using k by (simp add: min_edge_at_def out_edge_at_def min.coboundedI1)
  ultimately show "min_edge_at g (GetInEdgeIds g) i j \<le> edge g k" by (rule order_trans [rotated])
next
  assume k: "j \<le> k" "k < num_edges g"
  have "reverse (edge g (GetInEdgeIds g ! j)) \<le> reverse (edge g (GetInEdgeIds g ! k))" by (rule in_edge_ids(4) [OF k])
  moreover have "min_edge_at g (GetInEdgeIds g) i j \<le> reverse (edge g (GetInEdgeIds g ! j))" using k by (simp add: min_edge_at_def in_edge_at_def min.coboundedI2)
  ultimately show "min_edge_at g (GetInEdgeIds g) i j \<le> reverse (edge g (GetInEdgeIds g ! k))" by (rule order_trans [rotated])
qed

lemma fst_mono: "(a :: nat \<times> nat) \<le> b \<Longrightarrow> fst a \<le> fst b"
  by (cases a; cases b) auto

lemma min_edge_cases:
  assumes "i \<le> num_edges g" "j \<le> num_edges g"
  obtains "min_edge_at g ids i j = sentinel g"
  | "i < num_edges g" "min_edge_at g ids i j = edge g i"
  | "j < num_edges g" "min_edge_at g ids i j = reverse (edge g (ids ! j))"
proof -
  have "min_edge_at g ids i j = out_edge_at g i \<or> min_edge_at g ids i j = reverse (in_edge_at g ids j)" unfolding min_edge_at_def min_def by simp
  then show ?thesis
  proof
    assume m: "min_edge_at g ids i j = out_edge_at g i"
    show ?thesis
    proof (cases "i = num_edges g")
      case True
      with m show ?thesis by (intro that(1)) (simp add: out_edge_at_def)
    next
      case False
      with m assms(1) show ?thesis by (intro that(2)) (simp_all add: out_edge_at_def)
    qed
  next
    assume m: "min_edge_at g ids i j = reverse (in_edge_at g ids j)"
    show ?thesis
    proof (cases "j = num_edges g")
      case True
      with m show ?thesis by (intro that(1)) (simp add: in_edge_at_def sentinel_def reverse_def)
    next
      case False
      with m assms(2) show ?thesis by (intro that(3)) (simp_all add: in_edge_at_def)
    qed
  qed
qed

lemma min_edge_not_degenerate:
  assumes "graph_ok g" "i \<le> num_edges g" "j \<le> num_edges g" "min_edge_at g (GetInEdgeIds g) i j \<noteq> sentinel g"
  shows "fst (min_edge_at g (GetInEdgeIds g) i j) \<noteq> snd (min_edge_at g (GetInEdgeIds g) i j)"
proof -
  have nd: "fst (edge g e) \<noteq> snd (edge g e)" if "e < num_edges g" for e using assms(1) that unfolding graph_ok_def by blast
  from assms(2,3) show ?thesis
  proof (cases rule: min_edge_cases [of i g j "GetInEdgeIds g"])
    case 1
    with assms(4) show ?thesis by simp
  next
    case 2
    then show ?thesis using nd by simp
  next
    case 3
    then show ?thesis using nd [OF in_edge_ids(3) [OF 3(1)]] by (simp add: reverse_def)
  qed
qed

lemma run_values:
  "i \<le> k \<Longrightarrow> k < out_run g m i \<Longrightarrow> edge g k = m \<and> k < num_edges g"
  "j \<le> k \<Longrightarrow> k < in_run g ids m j \<Longrightarrow> reverse (edge g (ids ! k)) = m \<and> k < num_edges g"
proof -
  assume k: "i \<le> k" "k < out_run g m i"
  from skip_while_holds [OF k [unfolded out_run_def]] show "edge g k = m \<and> k < num_edges g"
    unfolding out_edge_at_def by (elim conjE) simp
next
  assume k: "j \<le> k" "k < in_run g ids m j"
  from skip_while_holds [OF k [unfolded in_run_def]] show "reverse (edge g (ids ! k)) = m \<and> k < num_edges g"
    unfolding in_edge_at_def by (elim conjE) simp
qed

definition gathered :: "graph \<Rightarrow> VertexId \<Rightarrow> nat \<Rightarrow> nat \<Rightarrow> nat \<Rightarrow> nat \<Rightarrow> bool" where
  "gathered g v0 i i' j j' \<longleftrightarrow> (\<forall>k. i \<le> k \<and> k < i' \<longrightarrow> fst (edge g k) = v0) \<and> (\<forall>k. j \<le> k \<and> k < j' \<longrightarrow> snd (edge g (GetInEdgeIds g ! k)) = v0)"

lemma gathered_trans: "gathered g v0 i i1 j j1 \<Longrightarrow> gathered g v0 i1 i' j1 j' \<Longrightarrow> gathered g v0 i i' j j'"
  unfolding gathered_def by (meson not_less)

lemma gather_edges_result:
  assumes "graph_ok g" "i \<le> num_edges g" "j \<le> num_edges g" "gather_edges g (GetInEdgeIds g) v0 i j ve ltm = (i', j', ve', ltm')"
  shows "ltm' = ltm \<and> mset (map item ve') = mset (map item ve) + items i i' j j' \<and> gathered g v0 i i' j j' \<and>
    (fst (min_edge_at g (GetInEdgeIds g) i' j') \<noteq> v0 \<or> min_edge_at g (GetInEdgeIds g) i' j' = sentinel g)"
  using assms(2-4)
proof (induction "num_edges g - i + (num_edges g - j)" arbitrary: i j ve rule: less_induct)
  case less
  let ?ids = "GetInEdgeIds g"
  let ?m = "min_edge_at g ?ids i j"
  show ?case
  proof (cases "fst ?m = v0 \<and> ?m \<noteq> sentinel g \<and> i \<le> num_edges g \<and> j \<le> num_edges g")
    case True
    let ?i = "out_run g ?m i" and ?j = "in_run g ?ids ?m j"
    have b: "i \<le> ?i" "j \<le> ?j" "?i \<le> num_edges g" "?j \<le> num_edges g" using run_bounds less.prems(1,2) by blast+
    have nd: "v0 \<noteq> snd ?m" using min_edge_not_degenerate [OF assms(1) less.prems(1,2)] True by blast
    have g: "gather_edges g ?ids v0 ?i ?j (AddVertexEdges i ?i j ?j (snd ?m) 0 ve) ltm = (i', j', ve', ltm')"
      using less.prems(3) gather_step [OF True, of ve ltm] nd by (simp add: Let_def)
    have small: "num_edges g - ?i + (num_edges g - ?j) < num_edges g - i + (num_edges g - j)"
      using min_edge_progress [OF less.prems(1,2)] True by blast
    note ih = less.hyps [OF small b(3,4) g]
    have bb: "?i \<le> i'" "?j \<le> j'" using gather_edges_bounds [OF b(3,4) g] by simp_all
    have "gathered g v0 i ?i j ?j"
    proof -
      have "fst (edge g k) = v0" if "i \<le> k" "k < ?i" for k using run_values(1) [OF that] True by simp
      moreover have "snd (edge g (?ids ! k)) = v0" if "j \<le> k" "k < ?j" for k
        using run_values(2) [OF that] True by (metis fst_conv reverse_def)
      ultimately show ?thesis unfolding gathered_def by blast
    qed
    then have "gathered g v0 i i' j j'" using ih gathered_trans by blast
    moreover have "mset (map item ve') = mset (map item ve) + items i i' j j'"
      using ih AddVertexEdges_items [OF b(1,2), of "snd ?m" 0 ve] items_split [OF b(1) bb(1) b(2) bb(2)] by (simp only: ac_simps)
    ultimately show ?thesis using ih by blast
  next
    case False
    with less.prems gather_stop [OF False, of ve ltm] have "i' = i" "j' = j" "ve' = ve" "ltm' = ltm" by simp_all
    moreover have "gathered g v0 i i j j" by (simp add: gathered_def)
    moreover have "items i i j j = {#}" by (simp add: items_def)
    ultimately show ?thesis using False less.prems(1,2) by auto
  qed
qed

section \<open>All vertices\<close>

lemma ve_items:
  "mset (ve_ins ids ves) = image_mset (\<lambda>p. ids ! snd p) (filter_mset fst (mset (map item ves)))"
  "mset (ve_outs ves) = image_mset snd (filter_mset (\<lambda>p. \<not> fst p) (mset (map item ves)))"
  by (induction ves) auto

lemma ve_of_items:
  assumes "mset (map item ves) = items i i' j j'"
  shows "mset (ve_ins ids ves) = mset (map ((!) ids) [j..<j'])" "mset (ve_outs ves) = mset [i..<i']"
proof -
  have t: "filter_mset fst (mset (map (Pair False) xs)) = {#}" "filter_mset fst (mset (map (Pair True) xs)) = mset (map (Pair True) xs)"
    "filter_mset (\<lambda>p. \<not> fst p) (mset (map (Pair False) xs)) = mset (map (Pair False) xs)" "filter_mset (\<lambda>p. \<not> fst p) (mset (map (Pair True) xs)) = {#}"
    for xs :: "nat list" by (induction xs) auto
  have m: "image_mset (\<lambda>p. ids ! snd p) (mset (map (Pair b) xs)) = mset (map ((!) ids) xs)" "image_mset snd (mset (map (Pair b) xs)) = mset xs" for b :: bool and xs
    by (induction xs) auto
  show "mset (ve_ins ids ves) = mset (map ((!) ids) [j..<j'])" unfolding ve_items assms items_def filter_union_mset t image_mset_union m by simp
  show "mset (ve_outs ves) = mset [i..<i']" unfolding ve_items assms items_def filter_union_mset t image_mset_union m by simp
qed

lemma mset_sort_vertex_edges: "ves \<noteq> [] \<Longrightarrow> mset (sort_vertex_edges ft g v ves) = mset ves"
  by (cases ves) (simp_all add: sort_vertex_edges_def)

lemma rest_above:
  assumes "graph_ok g" "i \<le> num_edges g" "j \<le> num_edges g" "min_edge_at g (GetInEdgeIds g) i j \<noteq> sentinel g"
    and g: "gather_edges g (GetInEdgeIds g) (fst (min_edge_at g (GetInEdgeIds g) i j)) i j ve ltm = (i', j', ve', ltm')"
  shows "i' \<le> k \<Longrightarrow> k < num_edges g \<Longrightarrow> fst (min_edge_at g (GetInEdgeIds g) i j) < fst (edge g k)"
    "j' \<le> k \<Longrightarrow> k < num_edges g \<Longrightarrow> fst (min_edge_at g (GetInEdgeIds g) i j) < snd (edge g (GetInEdgeIds g ! k))"
proof -
  let ?ids = "GetInEdgeIds g"
  let ?v = "fst (min_edge_at g ?ids i j)"
  have b: "i \<le> i'" "j \<le> j'" "i' \<le> num_edges g" "j' \<le> num_edges g" using gather_edges_bounds [OF assms(2,3) g] by simp_all
  have valid: "fst (edge g e) < num_vertices g" "snd (edge g e) < num_vertices g" if "e < num_edges g" for e
    using assms(1) that unfolding graph_ok_def edges_valid_def by blast+
  have above: "?v < fst (min_edge_at g ?ids i' j')" if "min_edge_at g ?ids i' j' \<noteq> sentinel g"
  proof -
    have "?v \<le> fst (min_edge_at g ?ids i' j')" using b(3,4)
    proof (cases rule: min_edge_cases [of i' g j' ?ids])
      case 1
      with that show ?thesis by simp
    next
      case 2
      have "min_edge_at g ?ids i j \<le> edge g i'" by (rule min_edge_least(1) [OF assms(1) b(1) 2(1)])
      then show ?thesis unfolding 2(2) by (rule fst_mono)
    next
      case 3
      have "min_edge_at g ?ids i j \<le> reverse (edge g (?ids ! j'))" by (rule min_edge_least(2) [OF assms(1) b(2) 3(1)])
      then show ?thesis unfolding 3(2) by (rule fst_mono)
    qed
    moreover have "fst (min_edge_at g ?ids i' j') \<noteq> ?v" using gather_edges_result [OF assms(1-3) g] that by blast
    ultimately show ?thesis by simp
  qed
  show "?v < fst (edge g k)" if k: "i' \<le> k" "k < num_edges g"
  proof -
    have l: "fst (min_edge_at g ?ids i' j') \<le> fst (edge g k)" using min_edge_least(1) [OF assms(1) k] by (rule fst_mono)
    have "min_edge_at g ?ids i' j' \<noteq> sentinel g"
    proof
      assume "min_edge_at g ?ids i' j' = sentinel g"
      with l valid(1) [OF k(2)] show False by (simp add: sentinel_def)
    qed
    from above [OF this] l show ?thesis by (rule less_le_trans)
  qed
  show "?v < snd (edge g (?ids ! k))" if k: "j' \<le> k" "k < num_edges g"
  proof -
    have l: "fst (min_edge_at g ?ids i' j') \<le> snd (edge g (?ids ! k))"
      using fst_mono [OF min_edge_least(2) [OF assms(1) k]] by (simp add: reverse_def)
    have "min_edge_at g ?ids i' j' \<noteq> sentinel g"
    proof
      assume "min_edge_at g ?ids i' j' = sentinel g"
      with l valid(2) [OF in_edge_ids(3) [OF k(2)]] show False by (simp add: sentinel_def)
    qed
    from above [OF this] l show ?thesis by (rule less_le_trans)
  qed
qed

lemma min_edge_sentinel:
  assumes "graph_ok g" "i \<le> num_edges g" "j \<le> num_edges g" "min_edge_at g (GetInEdgeIds g) i j = sentinel g"
  shows "i = num_edges g \<and> j = num_edges g"
proof -
  have valid: "fst (edge g e) < num_vertices g" "snd (edge g e) < num_vertices g" if "e < num_edges g" for e
    using assms(1) that unfolding graph_ok_def edges_valid_def by blast+
  have "\<not> i < num_edges g"
  proof
    assume i: "i < num_edges g"
    from fst_mono [OF min_edge_least(1) [OF assms(1) order_refl i, of j]] valid(1) [OF i] assms(4) show False by (simp add: sentinel_def)
  qed
  moreover have "\<not> j < num_edges g"
  proof
    assume j: "j < num_edges g"
    from fst_mono [OF min_edge_least(2) [OF assms(1) order_refl j, of i]] valid(2) [OF in_edge_ids(3) [OF j]] assms(4) show False
      by (simp add: sentinel_def reverse_def)
  qed
  ultimately show ?thesis using assms(2,3) by simp
qed

lemma left_turn_stop:
  "min_edge_at g ids i j = sentinel g \<Longrightarrow> left_turn_loop ft g ids i j ltm err = (ltm, err)"
  by (subst left_turn_loop.simps) (simp add: Let_def)

lemma left_turn_step:
  assumes "min_edge_at g ids i j \<noteq> sentinel g \<and> i \<le> num_edges g \<and> j \<le> num_edges g"
    "gather_edges g ids (fst (min_edge_at g ids i j)) i j [] ltm = (i', j', ves, ltm')" "ves \<noteq> []"
    "match_edges ids (sort_vertex_edges ft g (fst (min_edge_at g ids i j)) ves) ltm' = (e_in, ltm'')"
  shows "left_turn_loop ft g ids i j ltm err =
    left_turn_loop ft g ids i' j' ltm'' (if e_in \<noteq> [] \<and> err = None then Some BUILDER_EDGES_DO_NOT_FORM_LOOPS else err)"
  by (subst left_turn_loop.simps) (simp only: Let_def if_P [OF assms(1)] assms(2,4) prod.case if_not_P [OF assms(3)])

lemma edge_upt_split: "i \<le> i' \<Longrightarrow> i' \<le> n \<Longrightarrow> [i..<n] = [i..<i'] @ [i'..<n]"
  using upt_add_eq_append [of i i' "n - i'"] by simp

lemma count_split:
  fixes f :: "nat \<Rightarrow> nat"
  assumes "i \<le> i'" "i' \<le> n" "\<forall>k. i \<le> k \<and> k < i' \<longrightarrow> f k = v0" "\<forall>k. i' \<le> k \<and> k < n \<longrightarrow> v0 < f k"
  shows "count_list (map f [i..<n]) v = (if v = v0 then i' - i else count_list (map f [i'..<n]) v)"
proof -
  have "map f [i..<i'] = replicate (i' - i) v0" using assms(3) by (intro nth_equalityI) simp_all
  moreover have "count_list (replicate m v0) v = (if v = v0 then m else 0)" for m by (induction m) auto
  moreover have "count_list (map f [i'..<n]) v0 = 0" using assms(4) by (intro count_notin) auto
  ultimately show ?thesis unfolding edge_upt_split [OF assms(1,2)] map_append count_list_append by auto
qed

definition in_count :: "graph \<Rightarrow> nat \<Rightarrow> VertexId \<Rightarrow> nat" where
  "in_count g j v = count_list (map (\<lambda>k. snd (edge g (GetInEdgeIds g ! k))) [j..<num_edges g]) v"

definition out_count :: "graph \<Rightarrow> nat \<Rightarrow> VertexId \<Rightarrow> nat" where
  "out_count g i v = count_list (map (\<lambda>k. fst (edge g k)) [i..<num_edges g]) v"

definition matched :: "graph \<Rightarrow> nat \<Rightarrow> nat \<Rightarrow> EdgeId option list \<Rightarrow> EdgeId option list \<Rightarrow> bool \<Rightarrow> bool" where
  "matched g i j ltm ltm' ok \<longleftrightarrow> (\<exists>ps r s. ltm' = link ltm ps \<and> (\<forall>p\<in>set ps. fst (edge g (snd p)) = snd (edge g (fst p))) \<and>
     mset (map snd ps) + r = mset [i..<num_edges g] \<and> mset (map fst ps) + s = mset (map ((!) (GetInEdgeIds g)) [j..<num_edges g]) \<and> (ok \<longrightarrow> s = {#}))"

lemma matched_step:
  assumes ge: "graph_ok g" and b: "i \<le> i'" "j \<le> j'" "i' \<le> num_edges g" "j' \<le> num_edges g" and g: "gathered g v0 i i' j j'"
    and m: "match_edges (GetInEdgeIds g) ves ltm = (e_in, ltm1)" and it: "mset (map item ves) = items i i' j j'"
    and rest: "matched g i' j' ltm1 ltm' ok"
  shows "matched g i j ltm ltm' (ok \<and> e_in = [])" "e_in = [] \<longleftrightarrow> j' - j \<le> i' - i"
proof -
  let ?ids = "GetInEdgeIds g"
  from match_edges_result [OF m] obtain ps r where p: "ltm1 = link ltm ps" "mset (map fst ps) + mset e_in = mset (ve_ins ?ids ves)"
    "mset (map snd ps) + mset r = mset (ve_outs ves)" "e_in = [] \<or> r = []" by blast
  note pm = p(2) [unfolded ve_of_items(1) [OF it]] p(3) [unfolded ve_of_items(2) [OF it]]
  have "size (mset (map fst ps) + mset e_in) = j' - j" "size (mset (map snd ps) + mset r) = i' - i" unfolding pm by simp_all
  then have l: "length ps + length e_in = j' - j" "length ps + length r = i' - i" by simp_all
  show "e_in = [] \<longleftrightarrow> j' - j \<le> i' - i"
  proof
    assume "e_in = []"
    then have "length e_in = 0" by simp
    with l show "j' - j \<le> i' - i" by linarith
  next
    assume le: "j' - j \<le> i' - i"
    show "e_in = []"
    proof (rule ccontr)
      assume ne: "e_in \<noteq> []"
      with p(4) have "length r = 0" by simp
      moreover have "0 < length e_in" using ne by simp
      ultimately show False using l le by linarith
    qed
  qed
  have pair: "fst (edge g (snd x)) = snd (edge g (fst x))" if "x \<in> set ps" for x
  proof -
    have "snd x \<in># mset (map snd ps) + mset r" "fst x \<in># mset (map fst ps) + mset e_in" using that by auto
    then have "snd x \<in> set [i..<i']" "fst x \<in> set (map ((!) ?ids) [j..<j'])" unfolding pm by auto
    then show ?thesis using g unfolding gathered_def by auto
  qed
  from rest obtain qs t u where q: "ltm' = link ltm1 qs" "\<forall>p\<in>set qs. fst (edge g (snd p)) = snd (edge g (fst p))"
    "mset (map snd qs) + t = mset [i'..<num_edges g]" "mset (map fst qs) + u = mset (map ((!) ?ids) [j'..<num_edges g])" "ok \<longrightarrow> u = {#}"
    unfolding matched_def by (elim exE conjE) (rule that; assumption)
  have s: "mset [i..<num_edges g] = mset [i..<i'] + mset [i'..<num_edges g]"
    "mset (map ((!) ?ids) [j..<num_edges g]) = mset (map ((!) ?ids) [j..<j']) + mset (map ((!) ?ids) [j'..<num_edges g])"
    unfolding edge_upt_split [OF b(1,3)] edge_upt_split [OF b(2,4)] map_append mset_append by (rule refl)+
  show "matched g i j ltm ltm' (ok \<and> e_in = [])"
    unfolding matched_def
  proof (rule exI [of _ "ps @ qs"], rule exI [of _ "mset r + t"], rule exI [of _ "mset e_in + u"], intro conjI)
    show "ltm' = link ltm (ps @ qs)" by (simp add: p(1) q(1))
    show "\<forall>p\<in>set (ps @ qs). fst (edge g (snd p)) = snd (edge g (fst p))" using pair q(2) by auto
    show "mset (map snd (ps @ qs)) + (mset r + t) = mset [i..<num_edges g]" unfolding s pm(2) [symmetric] q(3) [symmetric] map_append mset_append by (simp only: ac_simps)
    show "mset (map fst (ps @ qs)) + (mset e_in + u) = mset (map ((!) ?ids) [j..<num_edges g])"
      unfolding s pm(1) [symmetric] q(4) [symmetric] map_append mset_append by (simp only: ac_simps)
    show "ok \<and> e_in = [] \<longrightarrow> mset e_in + u = {#}" using q(5) by auto
  qed
qed

lemma step_counts:
  assumes ge: "graph_ok g" and ij: "i \<le> num_edges g" "j \<le> num_edges g" and m: "min_edge_at g (GetInEdgeIds g) i j \<noteq> sentinel g"
    and g: "gather_edges g (GetInEdgeIds g) (fst (min_edge_at g (GetInEdgeIds g) i j)) i j ve ltm = (i', j', ve', ltm')"
  shows "(\<forall>v. in_count g j v \<le> out_count g i v) \<longleftrightarrow> j' - j \<le> i' - i \<and> (\<forall>v. in_count g j' v \<le> out_count g i' v)"
proof -
  define v0 where "v0 = fst (min_edge_at g (GetInEdgeIds g) i j)"
  have b: "i \<le> i'" "j \<le> j'" "i' \<le> num_edges g" "j' \<le> num_edges g" using gather_edges_bounds [OF ij g] by simp_all
  have ga: "gathered g v0 i i' j j'" using gather_edges_result [OF ge ij g] unfolding v0_def by blast
  have above: "\<forall>k. i' \<le> k \<and> k < num_edges g \<longrightarrow> v0 < fst (edge g k)" "\<forall>k. j' \<le> k \<and> k < num_edges g \<longrightarrow> v0 < snd (edge g (GetInEdgeIds g ! k))"
    using rest_above [OF ge ij m g] unfolding v0_def by blast+
  have i: "in_count g j v = (if v = v0 then j' - j else in_count g j' v)" for v
    unfolding in_count_def by (rule count_split [OF b(2,4) conjunct2 [OF ga [unfolded gathered_def]] above(2)])
  have o: "out_count g i v = (if v = v0 then i' - i else out_count g i' v)" for v
    unfolding out_count_def by (rule count_split [OF b(1,3) conjunct1 [OF ga [unfolded gathered_def]] above(1)])
  have "v0 \<notin> set (map (\<lambda>k. snd (edge g (GetInEdgeIds g ! k))) [j'..<num_edges g])" using above(2) by auto
  then have z: "in_count g j' v0 = 0" unfolding in_count_def by (rule count_notin)
  show ?thesis
  proof (intro iffI conjI allI)
    assume a: "\<forall>v. in_count g j v \<le> out_count g i v"
    show "j' - j \<le> i' - i" using a [rule_format, of v0] unfolding i o by simp
    show "in_count g j' v \<le> out_count g i' v" for v using a [rule_format, of v] z unfolding i o by (cases "v = v0") simp_all
  next
    fix v assume a: "j' - j \<le> i' - i \<and> (\<forall>v. in_count g j' v \<le> out_count g i' v)"
    then show "in_count g j v \<le> out_count g i v" unfolding i o by (cases "v = v0") simp_all
  qed
qed

lemma left_turn_loop_result:
  assumes ge: "graph_ok g" and "i \<le> num_edges g" "j \<le> num_edges g"
    and "left_turn_loop ft g (GetInEdgeIds g) i j ltm err = (ltm', err')"
  shows "matched g i j ltm ltm' (err' = None) \<and> (err \<noteq> None \<longrightarrow> err' = err) \<and>
    (err = None \<longrightarrow> err' \<in> {None, Some BUILDER_EDGES_DO_NOT_FORM_LOOPS} \<and> (err' = None \<longleftrightarrow> (\<forall>v. in_count g j v \<le> out_count g i v)))"
  using assms(2-4)
proof (induction "num_edges g - i + (num_edges g - j)" arbitrary: i j ltm err rule: less_induct)
  case less
  let ?ids = "GetInEdgeIds g"
  let ?m = "min_edge_at g ?ids i j"
  show ?case
  proof (cases "?m = sentinel g")
    case True
    have "i = num_edges g" "j = num_edges g" using min_edge_sentinel [OF ge less.prems(1,2) True] by simp_all
    moreover have "ltm' = ltm" "err' = err" using left_turn_stop [OF True, of ft ltm err] less.prems(3) by simp_all
    moreover have "matched g (num_edges g) (num_edges g) ltm ltm (err = None)" unfolding matched_def by (intro exI [of _ "[]"] exI [of _ "{#}"]) simp
    ultimately show ?thesis by (auto simp: in_count_def out_count_def)
  next
    case False
    obtain i' j' ves ltm0 where g: "gather_edges g ?ids (fst ?m) i j [] ltm = (i', j', ves, ltm0)" by (metis prod_cases4)
    have c: "?m \<noteq> sentinel g \<and> i \<le> num_edges g \<and> j \<le> num_edges g" using False less.prems by simp
    have b: "i \<le> i'" "j \<le> j'" "i' \<le> num_edges g" "j' \<le> num_edges g" using gather_edges_bounds [OF less.prems(1,2) g] by simp_all
    have small: "num_edges g - i' + (num_edges g - j') < num_edges g - i + (num_edges g - j)" by (rule gather_edges_progress [OF less.prems(1,2) False g])
    have r: "ltm0 = ltm" "mset (map item ves) = items i i' j j'" "gathered g (fst ?m) i i' j j'"
      using gather_edges_result [OF ge less.prems(1,2) g] by simp_all
    have ne: "ves \<noteq> []"
    proof
      assume "ves = []"
      then have "items i i' j j' = {#}" using r(2) by simp
      then have "size (items i i' j j') = 0" by simp
      then have "i' - i + (j' - j) = 0" by (simp add: items_def)
      with b small show False by simp
    qed
    let ?ves = "sort_vertex_edges ft g (fst ?m) ves"
    have it: "mset (map item ?ves) = items i i' j j'" using r(2) mset_sort_vertex_edges [OF ne] by (metis mset_map)
    obtain e_in ltm1 where m: "match_edges ?ids ?ves ltm0 = (e_in, ltm1)" by (cases "match_edges ?ids ?ves ltm0")
    define err1 where "err1 = (if e_in \<noteq> [] \<and> err = None then Some BUILDER_EDGES_DO_NOT_FORM_LOOPS else err)"
    have step: "left_turn_loop ft g ?ids i' j' ltm1 err1 = (ltm', err')"
      using left_turn_step [OF c g ne m, of err] less.prems(3) by (simp only: err1_def)
    note ih = less.hyps [OF small b(3,4) step]
    have ih1: "matched g i' j' ltm1 ltm' (err' = None)" using ih by (rule conjunct1)
    have ih2: "err1 \<noteq> None \<longrightarrow> err' = err1" using ih by (elim conjE)
    have ih3: "err1 = None \<longrightarrow> err' \<in> {None, Some BUILDER_EDGES_DO_NOT_FORM_LOOPS} \<and> (err' = None \<longleftrightarrow> (\<forall>v. in_count g j' v \<le> out_count g i' v))"
      using ih by (elim conjE)
    note ms = matched_step [OF ge b r(3) m it ih1]
    have e0: "e_in = []" if "err' = None"
      using that ih2 unfolding err1_def by (auto split: if_splits)
    have m1: "matched g i j ltm ltm' (err' = None)"
    proof (cases "err' = None")
      case True
      have "(err' = None \<and> e_in = []) = (err' = None)" using e0 by blast
      then show ?thesis using ms(1) r(1) by simp
    next
      case False
      then have "(err' = None \<and> e_in = []) = (err' = None)" by blast
      then show ?thesis using ms(1) r(1) by simp
    qed
    note bal = step_counts [OF ge less.prems(1,2) False g]
    show ?thesis
    proof (intro conjI impI)
      show "matched g i j ltm ltm' (err' = None)" by (rule m1)
      show "err' = err" if "err \<noteq> None" using that ih2 unfolding err1_def by simp
      assume n: "err = None"
      show "err' \<in> {None, Some BUILDER_EDGES_DO_NOT_FORM_LOOPS}" proof (cases "e_in = []")
        case True
        then have "err1 = None" using n by (simp add: err1_def)
        with ih3 show ?thesis by blast
      next
        case False
        then have "err1 = Some BUILDER_EDGES_DO_NOT_FORM_LOOPS" using n by (simp add: err1_def)
        with ih2 show ?thesis by simp
      qed
      show "err' = None \<longleftrightarrow> (\<forall>v. in_count g j v \<le> out_count g i v)"
      proof (cases "e_in = []")
        case True
        then have "err1 = None" using n by (simp add: err1_def)
        then show ?thesis using ih3 bal ms(2) True by blast
      next
        case False
        then have "err' \<noteq> None" using n ih2 by (simp add: err1_def)
        moreover have "\<not> j' - j \<le> i' - i" using ms(2) False by blast
        ultimately show ?thesis using bal by blast
      qed
    qed
  qed
qed

section \<open>The map\<close>

definition indegree :: "graph \<Rightarrow> VertexId \<Rightarrow> nat" where
  "indegree g v = count_list (map snd (graph_edges g)) v"

definition outdegree :: "graph \<Rightarrow> VertexId \<Rightarrow> nat" where
  "outdegree g v = count_list (map fst (graph_edges g)) v"

lemma map_edge: "map (edge g) [0..<num_edges g] = graph_edges g"
  unfolding edge_def num_edges_def by (rule map_nth)

lemma counts_are_degrees: "in_count g 0 v = indegree g v" "out_count g 0 v = outdegree g v"
proof -
  have "mset (map (\<lambda>k. snd (edge g (GetInEdgeIds g ! k))) [0..<num_edges g]) = mset (map (\<lambda>e. snd (edge g e)) (map ((!) (GetInEdgeIds g)) [0..<num_edges g]))"
    by (simp only: map_map o_def)
  also have "map ((!) (GetInEdgeIds g)) [0..<num_edges g] = GetInEdgeIds g" using map_nth [of "GetInEdgeIds g"] by (simp only: in_edge_ids(2))
  also have "mset (map (\<lambda>e. snd (edge g e)) (GetInEdgeIds g)) = mset (map (\<lambda>e. snd (edge g e)) [0..<num_edges g])" by (simp only: mset_map in_edge_ids(1))
  also have "map (\<lambda>e. snd (edge g e)) [0..<num_edges g] = map snd (graph_edges g)" unfolding map_edge [of g, symmetric] by simp
  finally have m: "mset (map (\<lambda>k. snd (edge g (GetInEdgeIds g ! k))) [0..<num_edges g]) = mset (map snd (graph_edges g))" .
  show "in_count g 0 v = indegree g v" unfolding in_count_def indegree_def count_mset [symmetric] m by (rule refl)
  have "map (\<lambda>k. fst (edge g k)) [0..<num_edges g] = map fst (graph_edges g)" unfolding map_edge [of g, symmetric] by simp
  then show "out_count g 0 v = outdegree g v" unfolding out_count_def outdegree_def by (simp only:)
qed

text \<open>As many edges end as begin, so no vertex has more outgoing edges either.\<close>

lemma count_list_le_imp_eq:
  assumes "length xs = length ys" "\<forall>v. count_list xs v \<le> count_list ys v"
  shows "mset xs = mset ys"
proof -
  have "mset xs \<subseteq># mset ys" unfolding subseteq_mset_def count_mset using assms(2) .
  then show ?thesis using assms(1) by (metis mset_subset_size nless_le size_mset subset_mset.le_less)
qed

definition balanced :: "graph \<Rightarrow> bool" where
  "balanced g \<longleftrightarrow> (\<forall>v. indegree g v = outdegree g v)"

lemma balanced_iff: "balanced g \<longleftrightarrow> (\<forall>v. in_count g 0 v \<le> out_count g 0 v)"
proof
  assume "\<forall>v. in_count g 0 v \<le> out_count g 0 v"
  then have "mset (map snd (graph_edges g)) = mset (map fst (graph_edges g))"
    unfolding counts_are_degrees indegree_def outdegree_def by (intro count_list_le_imp_eq) simp_all
  then have "count (mset (map snd (graph_edges g))) v = count (mset (map fst (graph_edges g))) v" for v by (simp only:)
  then show "balanced g" unfolding balanced_def indegree_def outdegree_def count_mset by blast
qed (simp add: balanced_def counts_are_degrees)

lemma matched_left_turns:
  assumes "matched g 0 0 (replicate (num_edges g) None) ltm True"
  shows "left_turns g ltm"
proof -
  let ?n = "num_edges g" and ?ids = "GetInEdgeIds g"
  from assms obtain ps r where p: "ltm = link (replicate ?n None) ps" "\<forall>p\<in>set ps. fst (edge g (snd p)) = snd (edge g (fst p))"
    "mset (map snd ps) + r = mset [0..<?n]" "mset (map fst ps) = mset (map ((!) ?ids) [0..<?n])" unfolding matched_def by auto
  have "map ((!) ?ids) [0..<?n] = ?ids" using map_nth [of ?ids] by (simp only: in_edge_ids(2))
  then have f: "mset (map fst ps) = mset [0..<?n]" unfolding p(4) by (simp only: in_edge_ids(1))
  have "length ps = ?n" using arg_cong [OF f, of size] by simp
  then have "size r = 0" using arg_cong [OF p(3), of size] by simp
  then have s: "mset (map snd ps) = mset [0..<?n]" using p(3) by simp
  have d: "distinct (map fst ps)" "distinct (map snd ps)" using mset_eq_imp_distinct_iff [OF f] mset_eq_imp_distinct_iff [OF s] by simp_all
  have sets: "set (map fst ps) = {..<?n}" "set (map snd ps) = {..<?n}" using mset_eq_setD [OF f] mset_eq_setD [OF s] by (simp_all only: atLeast_upt)
  have look: "ltm ! fst p = Some (snd p)" if "p \<in> set ps" for p
  proof -
    have "fst p \<in> set (map fst ps)" using that by simp
    then have "fst p < length (replicate ?n None)" unfolding sets by simp
    then show ?thesis unfolding p(1) by (rule link_nth [OF _ d(1)]) (use that in simp)
  qed
  have ex: "\<exists>p\<in>set ps. fst p = e" if "e < ?n" for e
  proof -
    have "e \<in> set (map fst ps)" unfolding sets using that by simp
    then show ?thesis by auto
  qed
  show ?thesis
    unfolding left_turns_def
  proof (intro conjI allI impI)
    show "length ltm = ?n" by (simp add: p(1))
    fix e assume "e < ?n"
    then obtain q where q: "q \<in> set ps" "fst q = e" using ex by blast
    have "snd q \<in> set (map snd ps)" using q(1) by simp
    then have "snd q < ?n" unfolding sets by simp
    then show "\<exists>k<?n. ltm ! e = Some k \<and> fst (edge g k) = snd (edge g e)" using look [OF q(1)] p(2) q by auto
    fix e' assume "e' < ?n" "ltm ! e = ltm ! e'"
    moreover from this(1) obtain q' where q': "q' \<in> set ps" "fst q' = e'" using ex by blast
    ultimately have "snd q = snd q'" using look [OF q(1)] look [OF q'(1)] q(2) by simp
    then have "q = q'" using d(2) q(1) q'(1) by (simp add: distinct_map inj_on_def)
    then show "e = e'" using q(2) q'(2) by simp
  qed
qed

lemma GetLeftTurnMap_result:
  assumes "graph_ok g" "GetLeftTurnMap ft g (GetInEdgeIds g) None = (ok, ltm, err)"
  shows "ok = balanced g" "ok \<Longrightarrow> left_turns g ltm \<and> err = None" "\<not> ok \<Longrightarrow> err = Some BUILDER_EDGES_DO_NOT_FORM_LOOPS"
proof -
  have "ok = balanced g \<and> (ok \<longrightarrow> left_turns g ltm \<and> err = None) \<and> (\<not> ok \<longrightarrow> err = Some BUILDER_EDGES_DO_NOT_FORM_LOOPS)"
  proof (cases "num_edges g = 0")
    case True
    then have "ok" "ltm = []" "err = None" using assms(2) by (simp_all add: GetLeftTurnMap_def)
    moreover have "balanced g" using True by (simp add: balanced_def indegree_def outdegree_def num_edges_def)
    ultimately show ?thesis using True by (simp add: left_turns_def)
  next
    case False
    obtain l e where l: "left_turn_loop ft g (GetInEdgeIds g) 0 0 (replicate (num_edges g) None) None = (l, e)" by (metis surj_pair)
    then have "GetLeftTurnMap ft g (GetInEdgeIds g) None = (e = None, l, e)" using False by (simp add: GetLeftTurnMap_def)
    with assms(2) have r: "ok = (e = None)" "ltm = l" "err = e" by auto
    have res: "matched g 0 0 (replicate (num_edges g) None) l (e = None)" "e \<in> {None, Some BUILDER_EDGES_DO_NOT_FORM_LOOPS}"
      "e = None \<longleftrightarrow> balanced g"
      using left_turn_loop_result [OF assms(1) le0 le0 l] unfolding balanced_iff by blast+
    show ?thesis using res matched_left_turns [of g l] unfolding r by auto
  qed
  then show "ok = balanced g" "ok \<Longrightarrow> left_turns g ltm \<and> err = None" "\<not> ok \<Longrightarrow> err = Some BUILDER_EDGES_DO_NOT_FORM_LOOPS" by blast+
qed

end
