(* ===== verification/Loop_Properties.thy ===== *)
theory Loop_Properties
  imports Left_Turns
begin

text \<open>
  The properties of the loops that are assembled from a graph: the canonical rotation, the left turns, and the directed loops.
\<close>

section \<open>The canonical rotation\<close>

text \<open>C40: \<open>CanonicalizeLoopOrder\<close> rotates a loop so that its last edge has the largest input edge id and, unless all ids are equal, its first
  edge has a smaller one; if all ids are equal the loop is left as it is.\<close>

theorem CanonicalizeLoopOrder_correct:
  assumes "loop \<noteq> []" "\<forall>e\<in>set loop. 0 \<le> sint (ids ! e)"
  shows "\<exists>k. CanonicalizeLoopOrder ids loop = rotate k loop \<and>
    (\<forall>e\<in>set loop. sint (ids ! e) \<le> sint (ids ! last (CanonicalizeLoopOrder ids loop))) \<and>
    (if \<forall>d\<in>set loop. \<forall>e\<in>set loop. ids ! d = ids ! e then CanonicalizeLoopOrder ids loop = loop
     else sint (ids ! hd (CanonicalizeLoopOrder ids loop)) < sint (ids ! last (CanonicalizeLoopOrder ids loop)))"
proof -
  obtain k where k: "CanonicalizeLoopOrder ids loop = rotate k loop" using CanonicalizeLoopOrder_rotation by blast
  have ne: "CanonicalizeLoopOrder ids loop \<noteq> []" using assms(1) by (metis length_0_conv length_CanonicalizeLoopOrder)
  have m: "last (loop_keys ids l) = sint (ids ! last l)" "hd (loop_keys ids l) = sint (ids ! hd l)" if "l \<noteq> []" for l
    using that by (simp_all add: loop_keys_def last_map hd_map)
  have e: "(\<forall>x\<in>set (loop_keys ids loop). \<forall>y\<in>set (loop_keys ids loop). x = y) \<longleftrightarrow> (\<forall>d\<in>set loop. \<forall>e\<in>set loop. ids ! d = ids ! e)"
  proof -
    have "sint a = sint b \<longleftrightarrow> a = b" for a b :: int32 by (auto intro: signed_word_eqI)
    then show ?thesis by (simp add: loop_keys_def)
  qed
  note r = CanonicalizeLoopOrder_keys [OF assms, unfolded m [OF ne] e]
  have "\<forall>e\<in>set loop. sint (ids ! e) \<le> sint (ids ! last (CanonicalizeLoopOrder ids loop))" using conjunct1 [OF r] by (simp add: loop_keys_def)
  then show ?thesis using k conjunct2 [OF r] by blast
qed

text \<open>The example of the code: the ids 7, 7, 4, 5, 6, 7 become 4, 5, 6, 7, 7, 7.\<close>

theorem CanonicalizeLoopOrder_witness:
  "CanonicalizeLoopOrder [7, 7, 4, 5, 6, 7] [0, 1, 2, 3, 4, 5] = [2, 3, 4, 5, 0, 1] \<and>
   sint ([7, 7, 4, 5, 6, 7] ! hd [2, 3, 4, 5, 0, 1 :: nat] :: int32) < sint ([7, 7, 4, 5, 6, 7] ! last [2, 3, 4, 5, 0, 1 :: nat] :: int32)"
proof -
  let ?ids = "[7, 7, 4, 5, 6, 7] :: int32 list" and ?l = "[0, 1, 2, 3, 4, 5] :: nat list"
  have c: "CanonicalizeLoopOrder ?ids ?l = [2, 3, 4, 5, 0, 1]"
    by (simp add: CanonicalizeLoopOrder_def canonical_step_def Let_def upt_rec)
  have "\<forall>e\<in>set ?l. 0 \<le> sint (?ids ! e)" by simp
  moreover have "\<not> (\<forall>d\<in>set ?l. \<forall>e\<in>set ?l. ?ids ! d = ?ids ! e)" by simp
  ultimately have "sint (?ids ! hd (CanonicalizeLoopOrder ?ids ?l)) < sint (?ids ! last (CanonicalizeLoopOrder ?ids ?l))"
    using CanonicalizeLoopOrder_correct [of ?l ?ids] by (metis list.distinct(1))
  with c show ?thesis by simp
qed

section \<open>Left turns\<close>


definition sample_graph :: "Edge list \<Rightarrow> graph" where
  "sample_graph es = \<lparr>graph_options = GraphOptions_new DIRECTED DegenerateEdges_DISCARD DuplicateEdges_KEEP SiblingPairs_KEEP,
     graph_vertices = [Vec 1 0 0, Vec 0 1 0, Vec 0 0 1], graph_edges = es, input_edge_id_set_ids = map of_nat [0..<length es],
     input_edge_id_set_lexicon = SL_new, label_set_ids = [], label_set_lexicon = SL_new\<rparr>"

lemma sample_graph_simps [simp]:
  "graph_edges (sample_graph es) = es" "num_edges (sample_graph es) = length es" "edge (sample_graph es) e = es ! e"
  "num_vertices (sample_graph es) = 3" "input_edge_id_set_ids (sample_graph es) = map of_nat [0..<length es]"
  "input_edge_id_set_lexicon (sample_graph es) = SL_new"
  by (simp_all add: sample_graph_def num_edges_def edge_def num_vertices_def)

lemma sample_graph_ok: "graph_ok (sample_graph [(0, 1), (1, 0), (1, 2), (2, 1)])" "graph_ok (sample_graph [(0, 1), (1, 2)])"
  by (auto simp: graph_ok_def edges_valid_def less_Suc_eq numeral_eq_Suc)


section \<open>Directed loops\<close>

definition loop_before :: "int32 list \<Rightarrow> EdgeId list \<Rightarrow> EdgeId list \<Rightarrow> bool" where
  "loop_before ids a b \<longleftrightarrow> (sint (ids ! hd a), hd a) < (sint (ids ! hd b), hd b)"

definition inputs_valid :: "graph \<Rightarrow> bool" where
  "inputs_valid g \<longleftrightarrow> length (input_edge_id_set_ids g) = num_edges g \<and>
     (\<forall>i\<in>set (input_edge_id_set_ids g). IL_id_set (input_edge_id_set_lexicon g) i \<noteq> None)"

lemma GetMinInputEdgeIds_Some:
  assumes "inputs_valid g"
  shows "\<exists>ids. GetMinInputEdgeIds g = Some ids"
proof -
  have "min_input_edge_id g e \<noteq> None" if "e < num_edges g" for e
  proof -
    have "input_edge_id_set_ids g ! e \<in> set (input_edge_id_set_ids g)" using assms that unfolding inputs_valid_def by (intro nth_mem) simp
    then have "input_edge_ids g e \<noteq> None" using assms unfolding inputs_valid_def input_edge_ids_def by blast
    then show ?thesis unfolding min_input_edge_id_def by (cases "input_edge_ids g e") simp_all
  qed
  then have "min_input_edge_id g e = Some (the (min_input_edge_id g e))" if "e \<in> set [0..<num_edges g]" for e using that by simp
  then show ?thesis unfolding GetMinInputEdgeIds_def by (intro exI) (rule those_Some)
qed

lemma CanonicalizeVectorOrder_sorted:
  assumes "distinct (concat cs)" "\<forall>c\<in>set cs. c \<noteq> []"
  shows "sorted_wrt (loop_before ids) (CanonicalizeVectorOrder ids cs)"
proof -
  have "distinct cs \<and> (\<forall>a\<in>set cs. \<forall>b\<in>set cs. a \<noteq> b \<longrightarrow> hd a \<noteq> hd b)" using assms
  proof (induction cs)
    case (Cons c cs)
    have n: "hd c \<noteq> hd d" if "d \<in> set cs" for d
    proof -
      have "hd c \<in> set c" "hd d \<in> set d" using Cons.prems(2) that by simp_all
      moreover have "set c \<inter> set d = {}" using Cons.prems(1) that by auto
      ultimately show ?thesis by auto
    qed
    have ih: "distinct cs \<and> (\<forall>a\<in>set cs. \<forall>b\<in>set cs. a \<noteq> b \<longrightarrow> hd a \<noteq> hd b)" using Cons by simp
    have "c \<notin> set cs" using n by blast
    with ih n show ?case by (simp add: eq_commute)
  qed simp
  then have d: "distinct cs" and h: "\<And>a b. a \<in> set cs \<Longrightarrow> b \<in> set cs \<Longrightarrow> a \<noteq> b \<Longrightarrow> hd a \<noteq> hd b" by blast+
  have e: "CanonicalizeVectorOrder ids cs = sort_by (loop_before ids) cs"
    unfolding CanonicalizeVectorOrder_def loop_before_def by (rule refl)
  show ?thesis unfolding e
  proof (rule sort_by_sorted [OF d])
    fix a b assume "a \<in> set cs" "b \<in> set cs" "a \<noteq> b"
    then have "hd a \<noteq> hd b" by (rule h)
    then show "loop_before ids a b \<or> loop_before ids b a" unfolding loop_before_def by (auto simp: less_prod_def)
  next
    fix a b c assume "loop_before ids a b" "loop_before ids b c"
    then show "loop_before ids a c" unfolding loop_before_def by (rule less_trans)
  qed
qed

text \<open>C38: on a graph without degenerate edges \<open>GetDirectedLoops\<close> never faults: it reports an error exactly when some vertex has not as many
  incoming as outgoing edges, and otherwise returns closed loops that contain every edge exactly once, in the order of their first edges' input
  edge ids; loops of type \<open>SIMPLE\<close> pass no vertex twice.\<close>

theorem GetDirectedLoops_correct:
  assumes "graph_ok g" "inputs_valid g"
  shows "\<exists>ids. GetMinInputEdgeIds g = Some ids \<and>
    (if balanced g then \<exists>loops. GetDirectedLoops ft g lt None = Some (None, Some loops) \<and> mset (concat loops) = mset [0..<num_edges g] \<and>
       (\<forall>l\<in>set loops. l \<noteq> [] \<and> (\<exists>v. joins g v l v) \<and> (if lt = SIMPLE then distinct (map (\<lambda>e. fst (edge g e)) l) else True)) \<and>
       sorted_wrt (loop_before ids) loops
     else GetDirectedLoops ft g lt None = Some (Some BUILDER_EDGES_DO_NOT_FORM_LOOPS, None))"
proof -
  obtain ids where ids: "GetMinInputEdgeIds g = Some ids" using GetMinInputEdgeIds_Some [OF assms(2)] by blast
  obtain ok ltm err where m: "GetLeftTurnMap ft g (GetInEdgeIds g) None = (ok, ltm, err)" by (metis surj_pair)
  note r = GetLeftTurnMap_result [OF assms(1) m]
  show ?thesis
  proof (cases "balanced g")
    case False
    then have "ok = False" "err = Some BUILDER_EDGES_DO_NOT_FORM_LOOPS" using r by simp_all
    then show ?thesis using ids m False by (simp add: GetDirectedLoops_def)
  next
    case True
    then have ok: "ok = True" "left_turns g ltm" "err = None" using r by simp_all
    have ev: "edges_valid g" using assms(1) unfolding graph_ok_def by blast
    define ls where "ls = ls_loops (all_loops g ids lt ltm)"
    have ls: "mset (concat ls) = mset [0..<num_edges g]" "\<And>l. l \<in> set ls \<Longrightarrow> loop_ok g lt l"
      unfolding ls_def by (rule all_loops_result [OF ok(2) ev]; assumption?)+
    have run: "GetDirectedLoops ft g lt None = Some (None, Some (CanonicalizeVectorOrder ids ls))"
      unfolding GetDirectedLoops_def m prod.case ok ids by (simp add: ls_def all_loops_def Let_def)
    have s: "mset (CanonicalizeVectorOrder ids ls) = mset ls" by (simp add: CanonicalizeVectorOrder_def)
    have "mset (concat (CanonicalizeVectorOrder ids ls)) = mset [0..<num_edges g]" using mset_concat_cong [OF s] ls(1) by (rule trans)
    moreover have "set (CanonicalizeVectorOrder ids ls) = set ls" using s by (rule mset_eq_setD)
    then have "\<forall>l\<in>set (CanonicalizeVectorOrder ids ls). l \<noteq> [] \<and> (\<exists>v. joins g v l v) \<and> (if lt = SIMPLE then distinct (map (\<lambda>e. fst (edge g e)) l) else True)"
      using ls(2) unfolding loop_ok_def by simp
    moreover have "sorted_wrt (loop_before ids) (CanonicalizeVectorOrder ids ls)"
    proof (rule CanonicalizeVectorOrder_sorted)
      show "distinct (concat ls)" using mset_eq_imp_distinct_iff [OF ls(1)] by simp
      show "\<forall>c\<in>set ls. c \<noteq> []" using ls(2) unfolding loop_ok_def by blast
    qed
    ultimately show ?thesis using ids run True by auto
  qed
qed

theorem GetDirectedLoops_witness:
  "\<exists>loops. GetDirectedLoops exact_tests (sample_graph [(0, 1), (1, 0), (1, 2), (2, 1)]) SIMPLE None = Some (None, Some loops) \<and>
     mset (concat loops) = {#0, 1, 2, 3#}"
proof -
  let ?g = "sample_graph [(0, 1), (1, 0), (1, 2), (2, 1)]"
  have "inputs_valid ?g" by (simp add: inputs_valid_def IL_id_set_def)
  moreover have "balanced ?g" by (simp add: balanced_def indegree_def outdegree_def)
  moreover have "[0..<num_edges ?g] = [0, 1, 2, 3]" by (simp add: upt_rec)
  ultimately show ?thesis using GetDirectedLoops_correct [OF sample_graph_ok(1), of exact_tests SIMPLE] by (simp only: if_True) auto
qed

end
