(* ===== verification/Spec2Isabelle.thy ===== *)
theory Spec2Isabelle
  imports Cell_Id_Properties Cell_Union_Properties Coding_Properties Encoded_Properties Cell_Iterator_Properties Hilbert_Properties
    Cell_Expand Term_Properties Coverer_Properties Cell_Index_Properties Crossing_Properties Lexicon_Properties Graph_Properties Loop_Properties
begin

text \<open>
  A verification development for the S2 geometry library in \<^verbatim>\<open>src/src/s2\<close> (C++), the code behind the R package \<^verbatim>\<open>s2\<close>.
  File names below are relative to that directory.

  \<^bold>\<open>The program.\<close>  S2 divides the sphere into a tree of cells.  Six faces of a cube are divided into quadrants, thirty times; the cells of
  a level are numbered along a Hilbert curve, and a 64-bit cell id is the number of a cell with a trailing bit that marks its level.
  Sets of cells (unions) approximate regions; a coverer computes such an approximation, an index or a list of search terms is
  built from it, and everything is stored in a compact encoding.  Exact predicates (the orientation of three points, wedges, edge
  crossings) decide the topology of points and edges, and \<^verbatim>\<open>S2Builder\<close> assembles snapped edges into loops through a graph whose edges carry
  sets of input edges, numbered by lexicons.

  \<^bold>\<open>Conventions.\<close>  A machine integer whose bits or wrap-around matter is a word of its width (\<open>uint64\<close>, \<open>int32\<close>); a length, an index or a
  level that the code keeps non-negative is a natural; the \<^verbatim>\<open>int\<close> options of a coverer are integers.  A C++ object is a record of its fields,
  and a method that changes it returns the new record.  A result of type \<open>option\<close> is \<open>None\<close> where the code would read or write outside
  its data, or would not return; theorems that say \<open>Some\<close> exclude both.  A buffer is a list of bytes, a pointer into it is the list of the
  bytes from there on.  A \<^verbatim>\<open>double\<close> coordinate is a rational number: it is one, if finite, and the exact stages of the predicates do not round.
  Debug-only checks (\<^verbatim>\<open>S2_DCHECK\<close>) are hypotheses where a theorem needs them.

  \<^bold>\<open>Theories and sources, in the order of imports.\<close>

  \<^item> \<open>S2_Prelude\<close>: machine types, rewrite collections, lemmas on words and lists.  \<open>S2_Bits\<close>: \<^verbatim>\<open>util/bits/bits.h\<close>.
  \<^item> \<open>Cell_Id\<close>: the arithmetic of \<^verbatim>\<open>s2cell_id.h\<close> and \<^verbatim>\<open>.cc\<close> (levels, parents, children, ranges, the curve, \<open>maximum_tile\<close>, common ancestors).
    \<open>Cell_Span\<close> gives the meaning of an id, the interval of leaf positions of a cell (\<open>cell_at\<close>, \<open>cell_lo\<close>, \<open>cell_hi\<close>); \<open>Span_Family\<close> is
    the locale of nested intervals that cells satisfy; \<open>Cell_Navigation\<close>, \<open>Cell_Ancestor\<close> and \<open>Cell_Id_Properties\<close> prove that
    the bit tricks compute what the tree of cells says.
  \<^item> \<open>Cell_Union\<close>: \<^verbatim>\<open>s2cell_union.h\<close> and \<^verbatim>\<open>.cc\<close>.  \<open>Cell_Siblings\<close>, \<open>Cell_Normalize\<close>, \<open>Cell_Union_Search\<close>, \<open>Cell_Union_Algebra\<close>, \<open>Cell_Union_Ranges\<close>
    and \<open>Cell_Union_Properties\<close> refine each operation to the set \<open>cover\<close> of leaves of a union.  \<open>Cell_Expand\<close> is \<open>Expand(level)\<close>.
  \<^item> \<open>Varint\<close>: every routine of \<^verbatim>\<open>util/coding/varint.h\<close> and \<^verbatim>\<open>.cc\<close>, against the format in \<open>Varint_Spec\<close> (\<open>Varint_Parse\<close>, \<open>Varint_Encode\<close>).
    \<open>Endian\<close>: \<^verbatim>\<open>util/endian/endian.h\<close>.  \<open>Coder\<close>: the classes of \<^verbatim>\<open>util/coding/coder.h\<close>.  \<open>Codec\<close>: the contract of an encoder and a decoder as
    the locales \<open>codec\<close>, \<open>growing_codec\<close>, \<open>checked_codec\<close> and \<open>raw_codec\<close>, with its interpretations.  \<open>Coder_Copy\<close>, \<open>Coding_Properties\<close>.
  \<^item> \<open>Cell_Token\<close>, \<open>Cell_Token_Correct\<close>, \<open>Cell_Union_Coding\<close>: tokens, debug strings and encodings of ids and unions.
    \<open>Encoded_Uint\<close>, \<open>Encoded_Strings\<close>, \<open>Encoded_Cell_Ids\<close> and the theories \<open>..._Correct\<close>: \<^verbatim>\<open>encoded_uint_vector.h\<close>, \<^verbatim>\<open>encoded_string_vector.h\<close> and \<^verbatim>\<open>.cc\<close>,
    \<^verbatim>\<open>encoded_s2cell_id_vector.h\<close> and \<^verbatim>\<open>.cc\<close>; \<open>Encoded_Properties\<close>.
  \<^item> \<open>Cell_Iterator\<close>: \<^verbatim>\<open>s2cell_iterator.h\<close>, \<^verbatim>\<open>s2cell_range_iterator.h\<close> and the iterator of a union; \<open>Cell_Iterator_Laws\<close> states the interface as the
    locale \<open>cell_iterator\<close>, interpreted on both iterators; \<open>Cell_Iterator_Properties\<close>.
  \<^item> \<open>Hilbert\<close>: the tables of \<^verbatim>\<open>s2coords.cc\<close> and the conversions and neighbours of \<^verbatim>\<open>s2cell_id.cc\<close>; \<open>Hilbert_Curve\<close> is the curve as a recursive walk,
    \<open>Hilbert_Correct\<close> and \<open>Hilbert_Properties\<close> prove the conversions inverse and the curve continuous.
  \<^item> \<open>Region_Coverer\<close>, \<open>Coverer\<close>: \<^verbatim>\<open>s2region_coverer.h\<close> and \<^verbatim>\<open>.cc\<close>; \<open>Level_Grid\<close> (valid options), \<open>Coverer_Sound\<close> (the search loop and its invariant),
    \<open>Coverer_Canonical\<close> (canonical form), \<open>Coverer_Properties\<close>.  \<open>Term_Indexer\<close>: \<^verbatim>\<open>s2region_term_indexer.h\<close> and \<^verbatim>\<open>.cc\<close>; \<open>Term_Match\<close>, \<open>Term_Properties\<close>.
  \<^item> \<open>Cell_Index\<close>: \<^verbatim>\<open>s2cell_index.h\<close> and \<^verbatim>\<open>.cc\<close>; \<open>Cell_Index_Build\<close> (the stack of open cells and the ranges), \<open>Cell_Index_Visit\<close> and \<open>Cell_Index_Scan\<close>
    (queries), \<open>Cell_Index_Properties\<close>.
  \<^item> \<open>Exact_Vector\<close>: \<^verbatim>\<open>util/math/vector.h\<close>.  \<open>Exact_Sign\<close>: \<open>Sign\<close>, \<open>ExpensiveSign\<close>, \<open>ExactSign\<close> and the symbolic perturbation of \<^verbatim>\<open>s2predicates.cc\<close>;
    \<open>Sign_Perturbation\<close> proves the simulation of simplicity.  \<open>Orientation\<close>: \<open>OrderedCCW\<close> and the locale \<open>orientation\<close>, which holds the laws the
    other predicates rely on.  \<open>Wedge_Relations\<close>: \<^verbatim>\<open>s2wedge_relations.cc\<close>.  \<open>Edge_Crossings\<close>: \<^verbatim>\<open>s2edge_crossings.cc\<close> (predicates) and
    \<^verbatim>\<open>s2edge_crosser.h\<close> and \<^verbatim>\<open>.cc\<close>.  \<open>Crossing_Properties\<close>.
  \<^item> \<open>Lexicon\<close>: \<^verbatim>\<open>value_lexicon.h\<close>, \<^verbatim>\<open>sequence_lexicon.h\<close>, \<^verbatim>\<open>id_set_lexicon.h\<close> and \<^verbatim>\<open>.cc\<close>, with their contract as the locales \<open>lexicon\<close> and \<open>key_equal\<close>;
    \<open>Id_Set_Lexicon\<close>, \<open>Lexicon_Properties\<close>.
  \<^item> \<open>Builder_Graph\<close>: \<^verbatim>\<open>s2builder_graph.h\<close> and \<^verbatim>\<open>.cc\<close>, the graph, its maps, left turns and directed loops.  \<open>Edge_Processor\<close>: \<open>ProcessEdges\<close> and
    its class.  \<open>Merge_Join\<close> (what the loop over two sorted arrays visits), \<open>Edge_Counts\<close> (what one step keeps), \<open>Process_Edges\<close> and
    \<open>Process_Result\<close> (the whole run), \<open>Graph_Properties\<close>.
  \<^item> \<open>Graph_Canonical\<close> (the rotation of a loop), \<open>Directed_Loops\<close> (the walks along a permutation of the edges), \<open>Left_Turns\<close> (gathering and matching around
    each vertex), \<open>Loop_Properties\<close>.

  \<^bold>\<open>What the theorems show.\<close>  For ids and unions: every operation refines the corresponding operation on sets of leaves, results are
  normalized, and queries read only what they may.  For encodings: what was written is read back, decoders are safe on every
  buffer, and the many parsers agree with one reference.  For the curve: ids and face coordinates are inverse, cells are squares,
  consecutive cells touch.  For coverings: they end, hold the region, obey the options; indexed terms and the cell index find
  exactly what intersects.  For predicates: the laws documented in the headers, one perturbation that explains every sign, and independence of
  the state kept by an edge crosser.  For lexicons: numbers identify values and lead back to them.  For graphs: the copies of an edge that
  each option keeps, their input edges, and the error; left turns are a permutation exactly when in-degrees and out-degrees agree,
  and the directed loops then contain every edge once.  The theorems on loops assume a graph without degenerate edges.

  \<^bold>\<open>Parameters.\<close>  Code that is floating point or not in the repository is an argument of the definitions that use it:
  \<open>wrap\<close> (\<^verbatim>\<open>FromFaceIJWrap\<close>, the neighbour across a face edge), \<open>raw\<close> (the uninitialised memory behind a new encoder), \<open>queue_top\<close> (which of the
  entries of equal priority a priority queue returns), \<open>union_bound\<close> (cells that bound a union, from its cap), a region's three callbacks,
  \<open>sign_tests\<close> and \<open>crosser_tests\<close> (the floating-point stages, sound by hypothesis), \<open>RefDir\<close>.

  \<^bold>\<open>Loops and fuel.\<close>  A loop over a list or an index recurses on it, with a measure where it skips.  Loops that end only on valid input
  (\<open>maximum_tile\<close>, the difference of unions) are \<open>partial_function\<close>s, proved to return there.  \<open>GetCovering\<close> may call itself once through
  its canonicalization: the fuel bounds this nesting, and fuel 2 is enough for every valid input.

  \<^bold>\<open>Not modelled.\<close>  Floating-point geometry (projections, distances, intersections, caps, rectangles, areas), because its contract is an error
  bound under IEEE rounding; shape indexes, distance queries, polygons, \<^verbatim>\<open>S2Builder\<close>'s snapping and boolean operations, which are driven
  by such geometry; of the graph, undirected and connected components, polylines and the memory tracker; vendored
  containers, test support, the R bindings and the layer \<^verbatim>\<open>s2geography\<close>, which are glue.
\<close>

end
